(* ===== verification/Prelude.thy ===== *)
theory Prelude
  imports Main "HOL-Library.Word" "HOL-Library.Monad_Syntax"
begin

text \<open>
  Shared vocabulary of the development.

  A \<open>usize\<close> of the Rust code is a \<open>nat\<close>; the code's sentinel \<open>usize::MAX\<close> is the constant
  \<open>usize_max\<close> (64-bit targets), and no vector is as long as that (a Rust vector holds at
  most \<open>isize::MAX\<close> bytes).  A run of a routine that can fail is an \<open>option\<close>: \<open>None\<close> is a
  panic (an out-of-range index, a failed assertion), an access of \<open>get_unchecked\<close> outside
  the vector (undefined behaviour of the code's unsafe blocks), or a loop that does not
  end.  A theorem that a routine returns \<open>Some\<close> therefore states that none of these happens.
\<close>

unbundle bit_operations_syntax

named_theorems run_simps \<open>rewriting runs of fallible routines\<close>

named_theorems inv_intros \<open>the operations that keep a component's invariant\<close>

named_theorems abs_simps \<open>the abstraction function after an operation\<close>

definition usize_max :: nat where
  "usize_max = 2 ^ 64 - 1"

lemma usize_max_pos [simp]: "0 < usize_max" "usize_max \<noteq> 0"
  by (simp_all add: usize_max_def)

subsection \<open>Vector reads and writes with their range check\<close>

definition vget :: "'a list \<Rightarrow> nat \<Rightarrow> 'a option" where
  "vget xs i = (if i < length xs then Some (xs ! i) else None)"

definition vset :: "'a list \<Rightarrow> nat \<Rightarrow> 'a \<Rightarrow> 'a list option" where
  "vset xs i x = (if i < length xs then Some (xs[i := x]) else None)"

lemma vget_in [simp]: "i < length xs \<Longrightarrow> vget xs i = Some (xs ! i)"
  by (simp add: vget_def)

lemma vget_out [simp]: "length xs \<le> i \<Longrightarrow> vget xs i = None"
  by (simp add: vget_def)

lemma vget_eq_Some [run_simps]: "vget xs i = Some x \<longleftrightarrow> i < length xs \<and> x = xs ! i"
  by (auto simp: vget_def)

lemma vget_eq_None [run_simps]: "vget xs i = None \<longleftrightarrow> length xs \<le> i"
  by (auto simp: vget_def)

lemma vset_in [simp]: "i < length xs \<Longrightarrow> vset xs i x = Some (xs[i := x])"
  by (simp add: vset_def)

lemma vset_out [simp]: "length xs \<le> i \<Longrightarrow> vset xs i x = None"
  by (simp add: vset_def)

lemma vset_eq_Some [run_simps]: "vset xs i x = Some ys \<longleftrightarrow> i < length xs \<and> ys = xs[i := x]"
  by (auto simp: vset_def)

lemma option_bind_eq_Some [run_simps]:
  "Option.bind m f = Some y \<longleftrightarrow> (\<exists>x. m = Some x \<and> f x = Some y)"
  by (cases m) auto

text \<open>\<open>assert!(b)\<close> and \<open>debug_assert!(b)\<close>: the run goes on only when the test holds.\<close>

definition assert_run :: "bool \<Rightarrow> unit option" where
  "assert_run b = (if b then Some () else None)"

lemma assert_run_True [simp]: "assert_run True = Some ()"
  by (simp add: assert_run_def)

lemma assert_run_False [simp]: "assert_run False = None"
  by (simp add: assert_run_def)

lemma assert_run_eq_Some [run_simps]: "assert_run b = Some u \<longleftrightarrow> b"
  by (simp add: assert_run_def)

subsection \<open>\<open>Vec::resize\<close>\<close>

definition vresize :: "nat \<Rightarrow> 'a \<Rightarrow> 'a list \<Rightarrow> 'a list" where
  "vresize n x xs = take n xs @ replicate (n - length xs) x"

lemma length_vresize [simp]: "length (vresize n x xs) = n"
  by (simp add: vresize_def)

lemma nth_vresize: "i < n \<Longrightarrow> vresize n x xs ! i = (if i < length xs then xs ! i else x)"
  by (auto simp: vresize_def nth_append)

subsection \<open>Loops over a list whose body can fail\<close>

primrec ofold :: "('a \<Rightarrow> 's \<Rightarrow> 's option) \<Rightarrow> 'a list \<Rightarrow> 's \<Rightarrow> 's option" where
  "ofold f [] s = Some s"
| "ofold f (x # xs) s = Option.bind (f x s) (ofold f xs)"

lemma ofold_append: "ofold f (xs @ ys) s = Option.bind (ofold f xs s) (ofold f ys)"
proof (induction xs arbitrary: s)
  case (Cons a xs)
  then show ?case by (cases "f a s") auto
qed simp

lemma ofold_snoc [simp]: "ofold f (xs @ [x]) s = Option.bind (ofold f xs s) (f x)"
proof -
  have "ofold f [x] = f x" by (rule ext) (case_tac "f x xa"; simp)
  then show ?thesis by (simp only: ofold_append)
qed

text \<open>A loop over \<open>0..n\<close> keeps an invariant indexed by the iteration.\<close>

lemma ofold_upt_inv:
  assumes "P 0 s" "\<And>i t. i < n \<Longrightarrow> P i t \<Longrightarrow> \<exists>u. f i t = Some u \<and> P (Suc i) u"
  shows "\<exists>t. ofold f [0..<n] s = Some t \<and> P n t"
  using assms
proof (induction n)
  case (Suc n)
  then obtain t where "ofold f [0..<n] s = Some t" "P n t" by fastforce
  with Suc.prems(2) [of n t] show ?case by (auto simp: upt_Suc)
qed auto

lemma fold_upt_inv:
  assumes "P 0 s" "\<And>i t. i < n \<Longrightarrow> P i t \<Longrightarrow> P (Suc i) (f i t)"
  shows "P n (fold f [0..<n] s)"
  using assms by (induction n) (auto simp: upt_Suc)

subsection \<open>A scan for the first index that a test stops at\<close>

text \<open>\<open>while front < back && test(front) { front += 1 }\<close>\<close>

function advance :: "(nat \<Rightarrow> bool option) \<Rightarrow> nat \<Rightarrow> nat \<Rightarrow> nat option" where
  "advance test front back =
     (if front < back then do {
        b \<leftarrow> test front;
        (if b then advance test (front + 1) back else Some front) }
      else Some front)"
  by pat_completeness auto
termination
  by (relation "measure (\<lambda>(test, front, back). back - front)") auto

declare advance.simps [simp del]

lemma advance_run:
  assumes "\<And>i. front \<le> i \<Longrightarrow> i < back \<Longrightarrow> test i = Some (P i)"
  shows "\<exists>r. advance test front back = Some r \<and> front \<le> r \<and> r \<le> max front back \<and>
    (\<forall>i. front \<le> i \<and> i < r \<longrightarrow> P i) \<and> (r < back \<longrightarrow> \<not> P r)"
  using assms
proof (induction test front "back" rule: advance.induct)
  case (1 test front hi)
  show ?case
  proof (cases "front < hi \<and> P front")
    case True
    then have "test front = Some True" using "1.prems" by simp
    with True 1 obtain r where r: "advance test (front + 1) hi = Some r" "front + 1 \<le> r"
        "r \<le> max (front + 1) hi" "\<forall>i. front + 1 \<le> i \<and> i < r \<longrightarrow> P i" "r < hi \<longrightarrow> \<not> P r"
      by fastforce
    have "P i" if "front \<le> i" "i < r" for i using r(4) that True by (cases "i = front") auto
    then show ?thesis using r \<open>test front = Some True\<close> True by (subst advance.simps) auto
  next
    case False
    then show ?thesis using "1.prems" [of front] by (subst advance.simps) auto
  qed
qed

subsection \<open>Bounded quantifiers at small numerals, for evaluation\<close>

lemma all_less_0: "(\<forall>i < (0::nat). P i) \<longleftrightarrow> True"
  by simp

lemma all_less_numeral:
  "(\<forall>i < numeral k :: nat. P i) \<longleftrightarrow> P (pred_numeral k) \<and> (\<forall>i < pred_numeral k. P i)"
  by (auto simp: numeral_eq_Suc less_Suc_eq)

lemma all_less_1: "(\<forall>i < (1::nat). P i) \<longleftrightarrow> P 0"
  by auto

lemma all_less_Suc: "(\<forall>i < Suc n. P i) \<longleftrightarrow> P n \<and> (\<forall>i < n. P i)"
  by (auto simp: less_Suc_eq)

lemmas all_less_eval = all_less_0 all_less_1 all_less_Suc all_less_numeral

end
