(* ===== verification/UnionFind.thy ===== *)
theory UnionFind
  imports Prelude
begin

text \<open>
  \<open>sicada/src/data_structures/union_find.rs\<close>: a disjoint-set forest over dense indices with
  union by rank and path compression.  \<open>uf_parent\<close> is the code's \<open>parent\<close> vector with
  \<open>usize::MAX\<close> (here \<open>k_null_id\<close>) for an element that was never initialised, \<open>uf_rank\<close> the
  8-bit ranks.
\<close>

definition k_null_id :: nat where
  "k_null_id = usize_max"

record union_find =
  uf_parent :: "nat list"
  uf_rank :: "8 word list"

definition uf_new :: "nat \<Rightarrow> union_find" where
  "uf_new n = \<lparr>uf_parent = replicate n k_null_id, uf_rank = replicate n 0\<rparr>"

text \<open>The climbing loop of \<open>find_set\<close>.\<close>

partial_function (option) climb :: "nat list \<Rightarrow> nat \<Rightarrow> nat option" where
  "climb p root = do {
     q \<leftarrow> vget p root;
     if root \<noteq> q then climb p q else Some root }"

text \<open>The compression loop of \<open>find_set\<close>.\<close>

partial_function (option) compress :: "nat list \<Rightarrow> nat \<Rightarrow> nat \<Rightarrow> nat list option" where
  "compress p item root =
     (if item \<noteq> root then do {
        parent \<leftarrow> vget p item;
        p' \<leftarrow> vset p item root;
        compress p' parent root }
      else Some p)"

declare climb.simps [code]
declare compress.simps [code]

definition find_set :: "union_find \<Rightarrow> nat \<Rightarrow> (union_find \<times> nat option) option" where
  "find_set u item =
     (if item \<ge> length (uf_parent u) then Some (u, None)
      else do {
        root \<leftarrow> vget (uf_parent u) item;
        if root = k_null_id then Some (u, None)
        else do {
          root' \<leftarrow> climb (uf_parent u) root;
          p' \<leftarrow> compress (uf_parent u) item root';
          Some (u\<lparr>uf_parent := p'\<rparr>, Some root') } })"

definition uf_link :: "union_find \<Rightarrow> nat \<Rightarrow> nat \<Rightarrow> union_find option" where
  "uf_link u x y =
     (if x = y then Some u
      else do {
        rank_x \<leftarrow> vget (uf_rank u) x;
        rank_y \<leftarrow> vget (uf_rank u) y;
        if rank_x > rank_y then do {
          p \<leftarrow> vset (uf_parent u) y x;
          Some (u\<lparr>uf_parent := p\<rparr>) }
        else do {
          p \<leftarrow> vset (uf_parent u) x y;
          if rank_x = rank_y then do {
            r \<leftarrow> vset (uf_rank u) y (rank_y + 1);
            Some (u\<lparr>uf_parent := p, uf_rank := r\<rparr>) }
          else Some (u\<lparr>uf_parent := p\<rparr>) } })"

definition uf_union :: "union_find \<Rightarrow> nat \<Rightarrow> nat \<Rightarrow> union_find option" where
  "uf_union u x y = do {
     (u1, root_x) \<leftarrow> find_set u x;
     (u2, root_y) \<leftarrow> find_set u1 y;
     (case (root_x, root_y) of
        (Some rx, Some ry) \<Rightarrow> uf_link u2 rx ry
      | _ \<Rightarrow> Some u2) }"

definition make_set :: "union_find \<Rightarrow> nat \<Rightarrow> (union_find \<times> nat) option" where
  "make_set u item =
     (let u1 = (if item \<ge> length (uf_parent u)
                then let new_size = (if item > 0 then 2 * item else 2)
                     in u\<lparr>uf_parent := vresize new_size k_null_id (uf_parent u),
                          uf_rank := vresize new_size 0 (uf_rank u)\<rparr>
                else u)
      in do {
        p \<leftarrow> vset (uf_parent u1) item item;
        r \<leftarrow> vset (uf_rank u1) item 0;
        Some (u1\<lparr>uf_parent := p, uf_rank := r\<rparr>, item) })"

text \<open>The \<open>for\<close> loop of \<open>make_all_set\<close> overwrites entry \<open>i\<close> with \<open>i\<close> for every \<open>i < max\<close>.\<close>

definition make_all_set :: "union_find \<Rightarrow> nat \<Rightarrow> union_find" where
  "make_all_set u n =
     fold (\<lambda>i v. v\<lparr>uf_parent := (uf_parent v)[i := i], uf_rank := (uf_rank v)[i := 0]\<rparr>)
       [0..<n]
       (u\<lparr>uf_parent := vresize n k_null_id (uf_parent u), uf_rank := vresize n 0 (uf_rank u)\<rparr>)"

definition uf_parent_of :: "union_find \<Rightarrow> nat \<Rightarrow> nat option" where
  "uf_parent_of u x =
     (case vget (uf_parent u) x of
        None \<Rightarrow> None
      | Some p \<Rightarrow> if p \<noteq> k_null_id then Some p else None)"

subsection \<open>The forest as a relation\<close>

text \<open>\<open>root_in p n i r\<close>: from \<open>i\<close> the root \<open>r\<close> is reached by following \<open>n\<close> parent links.\<close>

inductive root_in :: "nat list \<Rightarrow> nat \<Rightarrow> nat \<Rightarrow> nat \<Rightarrow> bool" for p where
  root_here: "r < length p \<Longrightarrow> p ! r = r \<Longrightarrow> root_in p 0 r r"
| root_up: "i < length p \<Longrightarrow> p ! i \<noteq> i \<Longrightarrow> root_in p n (p ! i) r \<Longrightarrow> root_in p (Suc n) i r"

inductive_simps root_in_0 [simp]: "root_in p 0 i r"
inductive_simps root_in_Suc [simp]: "root_in p (Suc n) i r"

definition root_of :: "nat list \<Rightarrow> nat \<Rightarrow> nat \<Rightarrow> bool" where
  "root_of p i r \<longleftrightarrow> (\<exists>n. root_in p n i r)"

lemma root_in_less: "root_in p n i r \<Longrightarrow> i < length p"
  by (induction rule: root_in.induct) auto

lemma root_in_root: "root_in p n i r \<Longrightarrow> r < length p \<and> p ! r = r"
  by (induction rule: root_in.induct) auto

lemma root_in_unique: "root_in p n i r \<Longrightarrow> root_in p m i s \<Longrightarrow> n = m \<and> r = s"
proof (induction arbitrary: m rule: root_in.induct)
  case (root_here r)
  then show ?case by (cases m) auto
next
  case (root_up i n r)
  then show ?case by (cases m) auto
qed

lemma root_of_here: "r < length p \<Longrightarrow> p ! r = r \<Longrightarrow> root_of p r r"
  unfolding root_of_def by (blast intro: root_here)

lemma root_of_up: "i < length p \<Longrightarrow> p ! i \<noteq> i \<Longrightarrow> root_of p (p ! i) r \<Longrightarrow> root_of p i r"
  unfolding root_of_def by (blast intro: root_up)

lemma root_ofI: "root_in p n i r \<Longrightarrow> root_of p i r"
  unfolding root_of_def by blast

lemma root_of_induct [consumes 1, case_names here up]:
  assumes "root_of p i r"
    and "\<And>r. r < length p \<Longrightarrow> p ! r = r \<Longrightarrow> P r r"
    and "\<And>i r. i < length p \<Longrightarrow> p ! i \<noteq> i \<Longrightarrow> root_of p (p ! i) r \<Longrightarrow> P (p ! i) r \<Longrightarrow> P i r"
  shows "P i r"
proof -
  from assms(1) obtain n where "root_in p n i r" by (auto simp: root_of_def)
  then show ?thesis by (induction rule: root_in.induct) (auto intro: assms(2,3) root_ofI)
qed

lemma root_of_cases [consumes 1, case_names here up]:
  assumes "root_of p i r"
    and "i < length p \<Longrightarrow> p ! i = i \<Longrightarrow> r = i \<Longrightarrow> P"
    and "i < length p \<Longrightarrow> p ! i \<noteq> i \<Longrightarrow> root_of p (p ! i) r \<Longrightarrow> P"
  shows P
  using assms by (induction rule: root_of_induct) auto

lemma root_of_unique: "root_of p i r \<Longrightarrow> root_of p i s \<Longrightarrow> r = s"
  by (auto simp: root_of_def dest: root_in_unique)

lemma root_of_root: "root_of p i r \<Longrightarrow> r < length p \<and> p ! r = r"
  by (auto simp: root_of_def dest: root_in_root)

lemma root_of_self: "root_of p i r \<Longrightarrow> root_of p r r"
  by (auto simp: root_of_def dest: root_in_root intro: root_here)

lemma root_of_less: "root_of p i r \<Longrightarrow> i < length p"
  by (auto simp: root_of_def dest: root_in_less)

text \<open>The root as a partial function; \<open>None\<close> for an element that was never initialised.\<close>

definition repr :: "nat list \<Rightarrow> nat \<Rightarrow> nat option" where
  "repr p i = (if \<exists>r. root_of p i r then Some (THE r. root_of p i r) else None)"

lemma repr_Some: "repr p i = Some r \<longleftrightarrow> root_of p i r"
proof
  assume "repr p i = Some r"
  then obtain s where s: "root_of p i s" and r: "r = (THE r. root_of p i r)"
    by (auto simp: repr_def split: if_splits)
  from s have "(THE r. root_of p i r) = s" by (blast intro: root_of_unique)
  with s r show "root_of p i r" by simp
next
  assume r: "root_of p i r"
  then have "(THE r. root_of p i r) = r" by (blast intro: root_of_unique)
  with r show "repr p i = Some r" by (auto simp: repr_def)
qed

lemma repr_eqI: "(\<And>s. root_of q j s \<longleftrightarrow> root_of p j s) \<Longrightarrow> repr q j = repr p j"
  unfolding repr_def by presburger

lemma repr_root: "repr p i = Some r \<Longrightarrow> repr p r = Some r"
  by (auto simp: repr_Some intro: root_of_self)

lemma repr_None: "repr p i = None \<longleftrightarrow> (\<forall>r. \<not> root_of p i r)"
  by (simp add: repr_def)

definition uf_inv :: "union_find \<Rightarrow> bool" where
  "uf_inv u \<longleftrightarrow> length (uf_rank u) = length (uf_parent u) \<and> length (uf_parent u) \<le> k_null_id \<and>
     (\<forall>i < length (uf_parent u). uf_parent u ! i \<noteq> k_null_id \<longrightarrow> repr (uf_parent u) i \<noteq> None)"

text \<open>The abstraction: the partial equivalence relation of "in the same set".\<close>

definition uf_rel :: "union_find \<Rightarrow> (nat \<times> nat) set" where
  "uf_rel u = {(a, b). \<exists>r. repr (uf_parent u) a = Some r \<and> repr (uf_parent u) b = Some r}"

text \<open>A write at \<open>i\<close> does not disturb the path of an element that is no deeper than \<open>i\<close>.\<close>

lemma root_in_update_shallower:
  "root_in p m j s \<Longrightarrow> root_in p n i r \<Longrightarrow> m < n \<Longrightarrow> root_in (p[i := x]) m j s"
proof (induction arbitrary: n rule: root_in.induct)
  case (root_here s)
  then have "i \<noteq> s" by (cases n) auto
  with root_here show ?case by simp
next
  case (root_up j m s)
  then have "root_in p (Suc m) j s" by simp
  with root_up.prems have "i \<noteq> j" by (metis less_irrefl root_in_unique)
  with root_up show ?case by simp
qed

text \<open>Pointing an element straight at its own root keeps every root.\<close>

lemma root_of_shortcut_fwd:
  assumes "root_of p i r" and "root_of p j s"
  shows "root_of (p[i := r]) j s"
  using assms(2)
proof (induction rule: root_of_induct)
  case (here s)
  have "p[i := r] ! s = s"
    using here assms(1) root_of_unique root_of_here
    by (metis length_list_update nth_list_update_eq nth_list_update_neq)
  with here show ?case by (auto intro: root_of_here)
next
  case (up j s)
  show ?case
  proof (cases "i = j")
    case True
    with up have "root_of p i s" by (auto intro: root_of_up)
    with assms(1) have s: "s = r" by (auto dest: root_of_unique)
    have r: "r < length p" "p ! r = r" using assms(1) by (auto dest: root_of_root)
    with up True have "r \<noteq> i" by auto
    with r have "root_of (p[i := r]) r r" by (auto intro: root_of_here)
    with up True s \<open>r \<noteq> i\<close> show ?thesis by (auto intro: root_of_up)
  next
    case False
    with up show ?thesis by (auto intro: root_of_up)
  qed
qed

lemma root_of_defined_back:
  assumes "root_of p i r" and "root_of (p[i := r]) j s"
  shows "\<exists>s. root_of p j s"
  using assms(2)
proof (induction rule: root_of_induct)
  case (here s)
  then show ?case using assms(1)
    by (metis length_list_update nth_list_update_neq root_of_here)
next
  case (up j s)
  then show ?case using assms(1) root_of_up [of j p]
    by (cases "i = j") auto
qed

lemma root_of_shortcut:
  assumes "root_of p i r"
  shows "root_of (p[i := r]) j s \<longleftrightarrow> root_of p j s"
  using root_of_defined_back [OF assms] root_of_shortcut_fwd [OF assms] root_of_unique
  by metis

subsection \<open>\<open>find_set\<close> ends, stays in range and returns the root\<close>

lemma climb_root: "root_of p i r \<Longrightarrow> climb p i = Some r"
proof (induction rule: root_of_induct)
  case (here r)
  then show ?case by (subst climb.simps) simp
next
  case (up i r)
  then show ?case by (subst climb.simps) simp
qed

lemma compress_root:
  "root_in p n i r \<Longrightarrow> \<exists>q. compress p i r = Some q \<and> length q = length p \<and>
     (\<forall>j s. root_of q j s \<longleftrightarrow> root_of p j s) \<and>
     (\<forall>j < length p. q ! j = p ! j \<or> root_of p j (q ! j))"
proof (induction n arbitrary: p i)
  case 0
  then show ?case by (subst compress.simps) auto
next
  case (Suc n)
  let ?q = "p[i := r]"
  from Suc.prems have i: "i < length p" and up: "root_in p n (p ! i) r" by simp_all
  have ne: "i \<noteq> r" using Suc.prems up root_in_root by fastforce
  have root: "root_of p i r" using Suc.prems by (rule root_ofI)
  have "root_in ?q n (p ! i) r"
    by (rule root_in_update_shallower [OF up Suc.prems]) simp
  from Suc.IH [OF this] obtain q where q: "compress ?q (p ! i) r = Some q" "length q = length p"
    "\<forall>j s. root_of q j s \<longleftrightarrow> root_of ?q j s"
    "\<forall>j < length p. q ! j = ?q ! j \<or> root_of ?q j (q ! j)"
    by auto
  have "compress p i r = Some q"
    using q i ne by (subst compress.simps) simp
  moreover have "q ! j = p ! j \<or> root_of p j (q ! j)" if "j < length p" for j
    using q(4) that root i by (cases "j = i") (auto simp: root_of_shortcut [OF root])
  ultimately show ?case using q root_of_shortcut [OF root] by auto
qed

lemma repr_None_iff:
  assumes "uf_inv u"
  shows "repr (uf_parent u) i = None \<longleftrightarrow>
     i \<ge> length (uf_parent u) \<or> uf_parent u ! i = k_null_id"
proof -
  have "\<not> root_of (uf_parent u) i r"
    if "i < length (uf_parent u)" "uf_parent u ! i = k_null_id" for r
  proof
    assume "root_of (uf_parent u) i r"
    then obtain n where "root_in (uf_parent u) n i r" by (auto simp: root_of_def)
    with that assms show False by (cases n) (auto simp: uf_inv_def dest: root_in_less)
  qed
  then show ?thesis using assms root_of_less
    unfolding uf_inv_def repr_None by (metis not_le_imp_less leD)
qed

text \<open>Same roots, same length: what every path compression leaves.\<close>

definition same_forest :: "union_find \<Rightarrow> union_find \<Rightarrow> bool" where
  "same_forest u v \<longleftrightarrow> length (uf_parent v) = length (uf_parent u) \<and> uf_rank v = uf_rank u \<and>
     repr (uf_parent v) = repr (uf_parent u) \<and>
     (\<forall>j < length (uf_parent u). uf_parent v ! j = uf_parent u ! j \<or>
        repr (uf_parent u) j = Some (uf_parent v ! j))"

lemma same_forest_refl [simp]: "same_forest u u"
  by (simp add: same_forest_def)

lemma same_forest_trans: "same_forest u v \<Longrightarrow> same_forest v w \<Longrightarrow> same_forest u w"
  unfolding same_forest_def by metis

lemma same_forest_inv: "uf_inv u \<Longrightarrow> same_forest u v \<Longrightarrow> uf_inv v"
  unfolding uf_inv_def same_forest_def by (metis option.distinct(1))

lemma same_forest_rel: "same_forest u v \<Longrightarrow> uf_rel v = uf_rel u"
  by (simp add: same_forest_def uf_rel_def)

lemma find_set_run:
  assumes "uf_inv u"
  shows "\<exists>v. find_set u i = Some (v, repr (uf_parent u) i) \<and> same_forest u v"
proof (cases "repr (uf_parent u) i")
  case None
  then have "i \<ge> length (uf_parent u) \<or> uf_parent u ! i = k_null_id"
    using repr_None_iff [OF assms] by blast
  then have "find_set u i = Some (u, None)" by (auto simp: find_set_def)
  with None show ?thesis by simp
next
  case (Some r)
  then obtain n where n: "root_in (uf_parent u) n i r" by (auto simp: repr_Some root_of_def)
  from compress_root [OF n] obtain q where q: "compress (uf_parent u) i r = Some q"
    "length q = length (uf_parent u)" "\<forall>j s. root_of q j s \<longleftrightarrow> root_of (uf_parent u) j s"
    "\<forall>j < length (uf_parent u). q ! j = uf_parent u ! j \<or> root_of (uf_parent u) j (q ! j)"
    by auto
  have "root_of (uf_parent u) (uf_parent u ! i) r"
  proof (cases n)
    case 0
    with n show ?thesis using Some root_of_root by (fastforce simp: repr_Some)
  next
    case (Suc m)
    with n show ?thesis by (auto intro: root_ofI)
  qed
  then have "climb (uf_parent u) (uf_parent u ! i) = Some r" by (rule climb_root)
  moreover have "i < length (uf_parent u)" "uf_parent u ! i \<noteq> k_null_id"
    using repr_None_iff [OF assms, of i] Some by auto
  moreover have "repr q = repr (uf_parent u)" using q(3) by (auto intro: repr_eqI)
  ultimately have "find_set u i = Some (u\<lparr>uf_parent := q\<rparr>, Some r)"
    and "same_forest u (u\<lparr>uf_parent := q\<rparr>)"
    using q by (simp_all add: find_set_def same_forest_def repr_Some)
  with Some show ?thesis by metis
qed

subsection \<open>\<open>union\<close> merges exactly the two sets\<close>

text \<open>Hanging root \<open>x\<close> under another root \<open>y\<close>.\<close>

lemma root_of_hang_fwd:
  assumes "x < length p" "p ! x = x" "y < length p" "p ! y = y" "x \<noteq> y" "root_of p j t"
  shows "root_of (p[x := y]) j (if t = x then y else t)"
  using assms(6)
proof (induction rule: root_of_induct)
  case (here r)
  have "root_of (p[x := y]) y y" using assms by (auto intro: root_of_here)
  with here assms show ?case
    by (cases "r = x") (auto intro: root_of_up root_of_here)
next
  case (up i r)
  with assms have "i \<noteq> x" by auto
  with up show ?case by (auto intro: root_of_up)
qed

lemma root_of_hang_back:
  assumes "x < length p" "p ! x = x" "root_of (p[x := y]) j s"
  shows "\<exists>t. root_of p j t"
  using assms(3)
proof (induction rule: root_of_induct)
  case (here r)
  then show ?case using assms(1,2) by (cases "r = x") (auto intro: root_of_here)
next
  case (up i r)
  show ?case
  proof (cases "i = x")
    case True
    then show ?thesis using assms(1,2) by (auto intro: root_of_here)
  next
    case False
    with up show ?thesis by (auto intro: root_of_up)
  qed
qed

lemma repr_hang:
  assumes "x < length p" "p ! x = x" "y < length p" "p ! y = y" "x \<noteq> y"
  shows "repr (p[x := y]) j = map_option (\<lambda>t. if t = x then y else t) (repr p j)"
proof (cases "repr p j")
  case None
  then have "\<nexists>t. root_of p j t" by (auto simp: repr_Some [symmetric])
  then have "\<nexists>s. root_of (p[x := y]) j s" using root_of_hang_back [OF assms(1,2)] by blast
  then show ?thesis using None by (simp add: repr_def)
next
  case (Some t)
  then have "repr (p[x := y]) j = Some (if t = x then y else t)"
    using root_of_hang_fwd [OF assms, of j t] by (simp only: repr_Some)
  with Some show ?thesis by simp
qed

text \<open>\<open>q\<close> is \<open>p\<close> with the sets of the roots \<open>x\<close> and \<open>y\<close> under one of the two.\<close>

definition merged :: "nat list \<Rightarrow> nat list \<Rightarrow> nat \<Rightarrow> nat \<Rightarrow> bool" where
  "merged p q x y \<longleftrightarrow> length q = length p \<and>
     (\<exists>w \<in> {x, y}. \<forall>j. repr q j =
        map_option (\<lambda>t. if t = x \<or> t = y then w else t) (repr p j)) \<and>
     (\<forall>j < length p. q ! j \<noteq> p ! j \<longrightarrow> p ! j = j)"

lemma merged_refl: "merged p p x x"
  by (simp add: merged_def option.map_ident_strong)

lemma merged_hang_l:
  assumes "x < length p" "p ! x = x" "y < length p" "p ! y = y" "x \<noteq> y"
  shows "merged p (p[x := y]) x y"
proof -
  have "repr (p[x := y]) j = map_option (\<lambda>t. if t = x \<or> t = y then y else t) (repr p j)" for j
    unfolding repr_hang [OF assms] by (cases "repr p j") auto
  then show ?thesis using assms by (auto simp: merged_def nth_list_update)
qed

lemma merged_sym: "merged p q x y \<Longrightarrow> merged p q y x"
  by (auto simp: merged_def disj_commute)

lemma merged_hang_r:
  "x < length p \<Longrightarrow> p ! x = x \<Longrightarrow> y < length p \<Longrightarrow> p ! y = y \<Longrightarrow> x \<noteq> y \<Longrightarrow> merged p (p[y := x]) x y"
  by (rule merged_sym) (rule merged_hang_l; simp)

lemma link_run:
  assumes "length (uf_rank u) = length (uf_parent u)"
    and "x < length (uf_parent u)" "uf_parent u ! x = x"
    and "y < length (uf_parent u)" "uf_parent u ! y = y"
  shows "\<exists>v. uf_link u x y = Some v \<and> merged (uf_parent u) (uf_parent v) x y \<and>
    length (uf_rank v) = length (uf_parent v)"
proof (cases "x = y")
  case True
  with assms show ?thesis by (simp add: uf_link_def merged_refl)
next
  case False
  with assms merged_hang_l [OF assms(2-5) False] merged_hang_r [OF assms(2-5) False]
  show ?thesis by (simp add: uf_link_def)
qed

lemma merged_inv:
  assumes "uf_inv u" "merged (uf_parent u) (uf_parent v) x y"
    and "length (uf_rank v) = length (uf_parent v)"
  shows "uf_inv v"
proof -
  have "repr (uf_parent v) i \<noteq> None"
    if "i < length (uf_parent v)" "uf_parent v ! i \<noteq> k_null_id" for i
  proof -
    have "uf_parent u ! i \<noteq> k_null_id"
      using that assms(1,2) by (metis leD merged_def uf_inv_def)
    then have "repr (uf_parent u) i \<noteq> None"
      using assms(1,2) that(1) by (auto simp: uf_inv_def merged_def)
    then show ?thesis using assms(2) by (auto simp: merged_def)
  qed
  then show ?thesis using assms by (auto simp: uf_inv_def merged_def)
qed

lemma merged_rel:
  assumes "merged (uf_parent u) (uf_parent v) x y"
    and "repr (uf_parent u) a = Some x" "repr (uf_parent u) b = Some y"
  shows "(c, d) \<in> uf_rel v \<longleftrightarrow> (c, d) \<in> uf_rel u \<or>
     (c, a) \<in> uf_rel u \<and> (b, d) \<in> uf_rel u \<or> (c, b) \<in> uf_rel u \<and> (a, d) \<in> uf_rel u"
  using assms
  by (cases "repr (uf_parent u) c"; cases "repr (uf_parent u) d")
    (auto simp: uf_rel_def merged_def split: if_splits)

text \<open>What \<open>union\<close> does to the relation, whether or not both elements are initialised.\<close>

definition merge_rel :: "(nat \<times> nat) set \<Rightarrow> nat \<Rightarrow> nat \<Rightarrow> (nat \<times> nat) set" where
  "merge_rel R a b = (if (a, a) \<in> R \<and> (b, b) \<in> R
     then R \<union> {(c, d). (c, a) \<in> R \<and> (b, d) \<in> R \<or> (c, b) \<in> R \<and> (a, d) \<in> R} else R)"

lemma union_run:
  assumes "uf_inv u"
  shows "\<exists>v w. uf_union u a b = Some w \<and> same_forest u v \<and>
    (case (repr (uf_parent u) a, repr (uf_parent u) b) of
       (Some x, Some y) \<Rightarrow> uf_link v x y = Some w
     | _ \<Rightarrow> w = v)"
proof -
  obtain u1 where u1: "find_set u a = Some (u1, repr (uf_parent u) a)" "same_forest u u1"
    using find_set_run [OF assms] by blast
  moreover have "uf_inv u1" using same_forest_inv [OF assms u1(2)] .
  then obtain u2 where u2: "find_set u1 b = Some (u2, repr (uf_parent u) b)" "same_forest u1 u2"
    using find_set_run [of u1 b] u1(2) by (auto simp: same_forest_def)
  moreover have f: "same_forest u u2" using u1(2) u2(2) by (rule same_forest_trans)
  moreover have "\<exists>w. uf_link u2 x y = Some w"
    if "repr (uf_parent u) a = Some x" "repr (uf_parent u) b = Some y" for x y
  proof -
    have "repr (uf_parent u2) a = Some x" "repr (uf_parent u2) b = Some y"
      using that f by (simp_all add: same_forest_def)
    then show ?thesis
      using link_run [of u2 x y] same_forest_inv [OF assms f]
      by (auto simp: repr_Some uf_inv_def dest!: root_of_root)
  qed
  ultimately have "\<exists>w. uf_union u a b = Some w \<and>
    (case (repr (uf_parent u) a, repr (uf_parent u) b) of
       (Some x, Some y) \<Rightarrow> uf_link u2 x y = Some w | _ \<Rightarrow> w = u2)"
    by (auto simp: uf_union_def split: option.splits)
  with f show ?thesis by blast
qed

lemma union_correct:
  assumes "uf_inv u"
  shows "\<exists>v. uf_union u a b = Some v \<and> uf_inv v \<and> uf_rel v = merge_rel (uf_rel u) a b"
proof -
  obtain v w where w: "uf_union u a b = Some w" and f: "same_forest u v"
    and link: "case (repr (uf_parent u) a, repr (uf_parent u) b) of
       (Some x, Some y) \<Rightarrow> uf_link v x y = Some w | _ \<Rightarrow> w = v"
    using union_run [OF assms] by blast
  have inv: "uf_inv v" and rel: "uf_rel v = uf_rel u"
    using same_forest_inv [OF assms f] same_forest_rel [OF f] by simp_all
  show ?thesis
  proof (cases "\<exists>x y. repr (uf_parent v) a = Some x \<and> repr (uf_parent v) b = Some y")
    case True
    then obtain x y where xy: "repr (uf_parent v) a = Some x" "repr (uf_parent v) b = Some y"
      by blast
    then have "uf_link v x y = Some w" using link f by (simp add: same_forest_def)
    then have m: "merged (uf_parent v) (uf_parent w) x y"
      and l: "length (uf_rank w) = length (uf_parent w)"
      using link_run [of v x y] xy inv
      by (auto simp: repr_Some uf_inv_def dest!: root_of_root)
    have "uf_inv w" by (rule merged_inv [OF inv m l])
    moreover have "uf_rel w = merge_rel (uf_rel u) a b"
      using merged_rel [OF m xy] xy
      unfolding rel [symmetric] merge_rel_def by (auto simp: uf_rel_def)
    ultimately show ?thesis using w by simp
  next
    case False
    then have "w = v" using link f by (auto simp: same_forest_def split: option.splits)
    moreover have "merge_rel (uf_rel u) a b = uf_rel u"
      using False f by (auto simp: merge_rel_def uf_rel_def same_forest_def)
    ultimately show ?thesis using w inv rel by simp
  qed
qed

subsection \<open>Initialisation\<close>

lemma uf_inv_new [inv_intros]: "n \<le> k_null_id \<Longrightarrow> uf_inv (uf_new n)"
  by (simp add: uf_inv_def uf_new_def)

lemma root_of_all_null:
  assumes "\<forall>i < length p. p ! i = k_null_id" "length p \<le> k_null_id"
  shows "repr p i = None"
proof -
  have "\<not> root_of p i r" for r
  proof
    assume "root_of p i r"
    then have "r < length p" "p ! r = r" by (auto dest: root_of_root)
    with assms show False by auto
  qed
  then show ?thesis by (simp add: repr_None)
qed

lemma uf_rel_new [abs_simps]: "n \<le> k_null_id \<Longrightarrow> uf_rel (uf_new n) = {}"
  by (simp add: uf_rel_def uf_new_def root_of_all_null)

lemma make_all_set_fold:
  assumes "k \<le> length (uf_parent u)" "length (uf_rank u) = length (uf_parent u)"
  shows "fold (\<lambda>i v. v\<lparr>uf_parent := (uf_parent v)[i := i], uf_rank := (uf_rank v)[i := 0]\<rparr>) [0..<k] u
    = u\<lparr>uf_parent := [0..<k] @ drop k (uf_parent u),
        uf_rank := replicate k 0 @ drop k (uf_rank u)\<rparr>"
  using assms
proof (induction k)
  case 0
  then show ?case by simp
next
  case (Suc k)
  have "(replicate k 0 @ drop k (uf_rank u))[k := 0] = replicate (Suc k) 0 @ drop (Suc k) (uf_rank u)"
    using Suc.prems
    by (intro nth_equalityI) (auto simp: nth_append nth_list_update less_Suc_eq nth_Cons' simp del: replicate_Suc)
  moreover have "([0..<k] @ drop k (uf_parent u))[k := k] = [0..<Suc k] @ drop (Suc k) (uf_parent u)"
    using Suc.prems by (intro nth_equalityI) (auto simp: nth_append nth_list_update less_Suc_eq)
  ultimately show ?case using Suc by simp
qed

lemma make_all_set_eq:
  "make_all_set u n = u\<lparr>uf_parent := [0..<n], uf_rank := replicate n 0\<rparr>"
  unfolding make_all_set_def by (subst make_all_set_fold) simp_all

lemma repr_upt: "repr [0..<n] i = (if i < n then Some i else None)"
  by (auto simp: repr_Some repr_None intro: root_of_here dest: root_of_less)

lemma make_all_set_correct:
  "n \<le> k_null_id \<Longrightarrow> uf_inv (make_all_set u n) \<and> uf_rel (make_all_set u n) = {(i, i) | i. i < n}"
  by (auto simp: make_all_set_eq uf_inv_def uf_rel_def repr_upt split: if_splits)

lemma root_of_append_null:
  "root_of (p @ replicate m k_null_id) i r \<Longrightarrow> length p + m \<le> k_null_id \<Longrightarrow> root_of p i r"
proof (induction rule: root_of_induct)
  case (here r)
  then show ?case by (auto simp: nth_append split: if_splits intro: root_of_here)
next
  case (up i r)
  then show ?case
    by (auto simp: nth_append split: if_splits intro: root_of_up dest: root_of_less)
qed

lemma root_of_append: "root_of p i r \<Longrightarrow> root_of (p @ q) i r"
proof (induction rule: root_of_induct)
  case (here r)
  then show ?case by (auto simp: nth_append intro: root_of_here)
next
  case (up i r)
  then have "(p @ q) ! i = p ! i" by (simp add: nth_append)
  with up show ?case by (simp add: root_of_up)
qed

lemma repr_grow:
  "length p + m \<le> k_null_id \<Longrightarrow> repr (p @ replicate m k_null_id) i = repr p i"
  by (rule repr_eqI) (blast intro: root_of_append dest: root_of_append_null)

text \<open>Making \<open>i\<close> its own root never disconnects an initialised element from every root.\<close>

lemma repr_reset_defined: "repr p j \<noteq> None \<Longrightarrow> i < length p \<Longrightarrow> repr (p[i := i]) j \<noteq> None"
proof -
  assume i: "i < length p" and "repr p j \<noteq> None"
  then obtain r where "root_of p j r" by (auto simp: repr_None)
  then have "\<exists>r. root_of (p[i := i]) j r"
  proof (induction rule: root_of_induct)
    case (here r)
    then have "root_of (p[i := i]) r r" by (cases "r = i") (auto intro: root_of_here)
    then show ?case by blast
  next
    case (up j r)
    show ?case
    proof (cases "i = j")
      case True
      then have "root_of (p[i := i]) j j" using i by (intro root_of_here) auto
      then show ?thesis by blast
    next
      case False
      from up obtain s where "root_of (p[i := i]) (p ! j) s" by blast
      with False up have "root_of (p[i := i]) j s" by (simp add: root_of_up)
      then show ?thesis by blast
    qed
  qed
  then show ?thesis by (auto simp: repr_None)
qed

lemma repr_fresh:
  assumes "repr p i = None" "i < length p" "length p \<le> k_null_id"
    and "\<forall>j < length p. p ! j \<noteq> k_null_id \<longrightarrow> repr p j \<noteq> None"
  shows "repr (p[i := i]) j = (if j = i then Some i else repr p j)"
proof -
  have bwd: "root_of (p[i := i]) j s \<Longrightarrow> j \<noteq> i \<Longrightarrow> root_of p j s" for s
  proof (induction rule: root_of_induct)
    case (here r)
    then show ?case by (auto intro: root_of_here)
  next
    case (up j r)
    then have j: "j < length p" "p ! j \<noteq> j" by auto
    have "p ! j \<noteq> i"
    proof
      assume i: "p ! j = i"
      then have "repr p j \<noteq> None" using assms(2-4) j by auto
      then obtain t where "root_of p j t" by (auto simp: repr_None)
      then have "root_of p (p ! j) t" using j by (cases rule: root_of_cases) auto
      with i assms(1) show False by (auto simp: repr_None)
    qed
    with up j show ?case by (auto intro: root_of_up)
  qed
  have fwd: "root_of p j s \<Longrightarrow> root_of (p[i := i]) j s" for s
  proof (induction rule: root_of_induct)
    case (here r)
    with assms(1) have "r \<noteq> i" by (auto simp: repr_None dest: root_of_here)
    with here show ?case by (auto intro: root_of_here)
  next
    case (up j r)
    then have "root_of p j r" by (auto intro: root_of_up)
    with assms(1) have "j \<noteq> i" by (auto simp: repr_None)
    with up show ?case by (auto intro: root_of_up)
  qed
  show ?thesis
  proof (cases "j = i")
    case True
    then show ?thesis using assms(2) by (auto simp: repr_Some intro: root_of_here)
  next
    case False
    then have "repr (p[i := i]) j = repr p j" using fwd bwd by (blast intro: repr_eqI)
    with False show ?thesis by simp
  qed
qed

text \<open>The growing step of \<open>make_set\<close>.\<close>

definition uf_grow :: "union_find \<Rightarrow> nat \<Rightarrow> union_find" where
  "uf_grow u item =
     (if item \<ge> length (uf_parent u)
      then let new_size = (if item > 0 then 2 * item else 2)
           in u\<lparr>uf_parent := vresize new_size k_null_id (uf_parent u),
                uf_rank := vresize new_size 0 (uf_rank u)\<rparr>
      else u)"

lemma make_set_grow:
  "make_set u i = do {
     p \<leftarrow> vset (uf_parent (uf_grow u i)) i i;
     r \<leftarrow> vset (uf_rank (uf_grow u i)) i 0;
     Some ((uf_grow u i)\<lparr>uf_parent := p, uf_rank := r\<rparr>, i) }"
  by (simp only: make_set_def uf_grow_def Let_def)

lemma grow_frame:
  assumes "uf_inv u" "2 * i \<le> k_null_id"
  shows "i < length (uf_parent (uf_grow u i)) \<and> length (uf_parent (uf_grow u i)) \<le> k_null_id \<and>
    length (uf_rank (uf_grow u i)) = length (uf_parent (uf_grow u i)) \<and>
    repr (uf_parent (uf_grow u i)) = repr (uf_parent u) \<and>
    (\<forall>j < length (uf_parent (uf_grow u i)).
       uf_parent (uf_grow u i) ! j \<noteq> k_null_id \<longrightarrow> repr (uf_parent u) j \<noteq> None)"
proof (cases "i < length (uf_parent u)")
  case True
  with assms show ?thesis by (simp add: uf_grow_def uf_inv_def)
next
  case False
  define n where "n = (if i > 0 then 2 * i else 2)"
  have n: "i < n" "n \<le> k_null_id" "length (uf_parent u) \<le> n"
    using False assms(2) by (auto simp: n_def k_null_id_def usize_max_def)
  have g: "uf_grow u i = u\<lparr>uf_parent := uf_parent u @ replicate (n - length (uf_parent u)) k_null_id,
      uf_rank := vresize n 0 (uf_rank u)\<rparr>"
    using False n by (simp add: uf_grow_def n_def [symmetric] vresize_def [of n k_null_id])
  show ?thesis
    using n assms(1) repr_grow [of "uf_parent u" "n - length (uf_parent u)"]
    by (auto simp: g uf_inv_def nth_append split: if_splits)
qed

lemma make_set_run:
  assumes "uf_inv u" "2 * i \<le> k_null_id"
  shows "make_set u i = Some ((uf_grow u i)\<lparr>uf_parent := (uf_parent (uf_grow u i))[i := i],
    uf_rank := (uf_rank (uf_grow u i))[i := 0]\<rparr>, i)"
  using grow_frame [OF assms] by (simp add: make_set_grow)

lemma make_set_inv:
  assumes "uf_inv u" "2 * i \<le> k_null_id" "make_set u i = Some (v, k)"
  shows "uf_inv v"
proof -
  let ?p = "uf_parent (uf_grow u i)"
  have "repr (?p[i := i]) j \<noteq> None" if "j < length ?p" "?p[i := i] ! j \<noteq> k_null_id" for j
  proof (cases "j = i")
    case True
    then have "root_of (?p[i := i]) j j" using that by (intro root_of_here) auto
    then show ?thesis by (auto simp: repr_None)
  next
    case False
    then show ?thesis using grow_frame [OF assms(1,2)] that repr_reset_defined [of ?p j i] by auto
  qed
  then show ?thesis
    using assms(3) grow_frame [OF assms(1,2)] by (auto simp: make_set_run [OF assms(1,2)] uf_inv_def)
qed

lemma make_set_rel:
  assumes "uf_inv u" "2 * i \<le> k_null_id" "repr (uf_parent u) i = None" "make_set u i = Some (v, k)"
  shows "uf_rel v = insert (i, i) (uf_rel u)"
proof -
  let ?p = "uf_parent (uf_grow u i)"
  have "repr (?p[i := i]) j = (if j = i then Some i else repr ?p j)" for j
    using grow_frame [OF assms(1,2)] assms(3) by (intro repr_fresh) auto
  then have "repr (uf_parent v) j = (if j = i then Some i else repr (uf_parent u) j)" for j
    using assms(4) grow_frame [OF assms(1,2)] by (auto simp: make_set_run [OF assms(1,2)])
  moreover have "repr (uf_parent u) j \<noteq> Some i" for j
    using assms(3) by (metis option.distinct(1) repr_Some root_of_self)
  ultimately show ?thesis using assms(3) by (auto simp: uf_rel_def split: if_splits)
qed

subsection \<open>Union by rank: the height bound\<close>

definition class_of :: "nat list \<Rightarrow> nat \<Rightarrow> nat set" where
  "class_of p r = {j. repr p j = Some r}"

definition rank_of :: "union_find \<Rightarrow> nat \<Rightarrow> nat" where
  "rank_of u i = unat (uf_rank u ! i)"

text \<open>
  Ranks grow along parent links, and a root of rank \<open>k\<close> has at least \<open>2 ^ k\<close> elements.
  (Unlike \<open>uf_inv\<close> this holds only while every element is initialised at most once.)
\<close>

definition uf_ranked :: "union_find \<Rightarrow> bool" where
  "uf_ranked u \<longleftrightarrow>
     (\<forall>i < length (uf_parent u). uf_parent u ! i \<noteq> k_null_id \<and> uf_parent u ! i \<noteq> i \<longrightarrow>
        rank_of u i < rank_of u (uf_parent u ! i)) \<and>
     (\<forall>r < length (uf_parent u). uf_parent u ! r = r \<longrightarrow>
        2 ^ rank_of u r \<le> card (class_of (uf_parent u) r))"

lemma finite_class_of [simp]: "finite (class_of p r)"
  by (rule finite_subset [of _ "{..<length p}"]) (auto simp: class_of_def repr_Some dest: root_of_less)

lemma card_class_of: "card (class_of p r) \<le> length p"
proof -
  have "class_of p r \<subseteq> {..<length p}"
    by (auto simp: class_of_def repr_Some dest: root_of_less)
  from card_mono [OF _ this] show ?thesis by simp
qed

lemma depth_le_rank:
  assumes "uf_inv u" "uf_ranked u" "root_in (uf_parent u) n i r"
  shows "n + rank_of u i \<le> rank_of u r"
  using assms(3)
proof (induction rule: root_in.induct)
  case (root_here r)
  then show ?case by simp
next
  case (root_up i n r)
  have "uf_parent u ! i \<noteq> k_null_id"
    using root_up assms(1) root_in_less by (fastforce simp: uf_inv_def)
  then have "rank_of u i < rank_of u (uf_parent u ! i)"
    using root_up assms(2) by (simp add: uf_ranked_def)
  with root_up show ?case by simp
qed

lemma rank_less_64:
  assumes "uf_inv u" "uf_ranked u" "r < length (uf_parent u)" "uf_parent u ! r = r"
  shows "rank_of u r < 64"
proof -
  have "2 ^ rank_of u r \<le> card (class_of (uf_parent u) r)"
    using assms by (simp add: uf_ranked_def)
  also have "\<dots> \<le> length (uf_parent u)" by (rule card_class_of)
  also have "\<dots> < 2 ^ 64" using assms(1) by (simp add: uf_inv_def k_null_id_def usize_max_def)
  finally show ?thesis by (rule power_less_imp_less_exp [rotated]) simp
qed

lemma same_forest_ranked:
  assumes "uf_inv u" "uf_ranked u" "same_forest u v"
  shows "uf_ranked v"
proof -
  have r: "rank_of v = rank_of u" using assms(3) by (simp add: same_forest_def rank_of_def fun_eq_iff)
  have "rank_of u i < rank_of u (uf_parent v ! i)"
    if i: "i < length (uf_parent u)" "uf_parent v ! i \<noteq> k_null_id" "uf_parent v ! i \<noteq> i" for i
  proof (cases "uf_parent v ! i = uf_parent u ! i")
    case True
    with that assms(2) show ?thesis by (simp add: uf_ranked_def)
  next
    case False
    then have "root_of (uf_parent u) i (uf_parent v ! i)"
      using assms(3) i by (auto simp: same_forest_def repr_Some)
    then obtain n where n: "root_in (uf_parent u) n i (uf_parent v ! i)"
      by (auto simp: root_of_def)
    with i have "0 < n" by (cases n) auto
    with depth_le_rank [OF assms(1,2) n] show ?thesis by simp
  qed
  moreover have "uf_parent u ! r = r"
    if "r < length (uf_parent u)" "uf_parent v ! r = r" for r
    using that assms(3) unfolding same_forest_def repr_Some by (metis root_of_root)
  ultimately show ?thesis
    using assms(2,3) unfolding uf_ranked_def r by (simp add: same_forest_def class_of_def)
qed

lemma class_of_hang:
  assumes "x < length p" "p ! x = x" "y < length p" "p ! y = y" "x \<noteq> y"
  shows "class_of (p[x := y]) r =
    (if r = x then {} else if r = y then class_of p x \<union> class_of p y else class_of p r)"
  unfolding class_of_def repr_hang [OF assms] using assms(5) by auto

lemma class_of_disjoint: "x \<noteq> y \<Longrightarrow> class_of p x \<inter> class_of p y = {}"
  by (auto simp: class_of_def)

lemma hang_ranked:
  assumes "uf_inv u" "uf_ranked u" "rank_of u x < k \<or> rank_of u x = rank_of u y \<and> k = Suc (rank_of u y)"
    and "x < length (uf_parent u)" "uf_parent u ! x = x"
    and "y < length (uf_parent u)" "uf_parent u ! y = y" "x \<noteq> y"
    and v: "uf_parent v = (uf_parent u)[x := y]" "rank_of v y = k" "rank_of u y \<le> k"
      "k = rank_of u y \<or> rank_of u x = rank_of u y \<and> k = Suc (rank_of u y)"
      "\<And>i. i < length (uf_parent u) \<Longrightarrow> i \<noteq> y \<Longrightarrow> rank_of v i = rank_of u i"
  shows "uf_ranked v"
proof -
  let ?p = "uf_parent u"
  note hang = class_of_hang [OF assms(4-8)]
  have up: "rank_of v i < rank_of v (uf_parent v ! i)"
    if i: "i < length ?p" "uf_parent v ! i \<noteq> k_null_id" "uf_parent v ! i \<noteq> i" for i
  proof (cases "i = x")
    case True
    with assms(3-8) v show ?thesis by auto
  next
    case False
    with i v(1) have j: "?p ! i \<noteq> k_null_id" "?p ! i \<noteq> i" "uf_parent v ! i = ?p ! i" by auto
    then have lt: "rank_of u i < rank_of u (?p ! i)" using i(1) assms(2) by (simp add: uf_ranked_def)
    have "?p ! i < length ?p"
      using i(1) j assms(1) unfolding uf_inv_def
      by (metis not_None_eq repr_Some root_of_cases root_of_less)
    moreover have "i \<noteq> y" using j(2) assms(7) by auto
    ultimately show ?thesis using lt v(2,3,5) i(1) j(3) by (cases "?p ! i = y") auto
  qed
  have size: "2 ^ rank_of v r \<le> card (class_of (uf_parent v) r)"
    if r: "r < length ?p" "uf_parent v ! r = r" for r
  proof -
    have x: "r \<noteq> x" using r v(1) assms(4,8) by auto
    with r v(1) have "?p ! r = r" by auto
    then have old: "2 ^ rank_of u r \<le> card (class_of ?p r)"
      using r assms(2) by (simp add: uf_ranked_def)
    show ?thesis
    proof (cases "r = y")
      case False
      with x old r v hang show ?thesis by simp
    next
      case True
      have "card (class_of ?p x \<union> class_of ?p y) = card (class_of ?p x) + card (class_of ?p y)"
        using assms(8) by (simp add: card_Un_disjoint class_of_disjoint)
      moreover have "2 ^ rank_of u x \<le> card (class_of ?p x)"
        using assms(2,4,5) by (simp add: uf_ranked_def)
      ultimately show ?thesis using True x old v hang by auto
    qed
  qed
  show ?thesis using up size v(1) by (simp add: uf_ranked_def)
qed

lemma link_ranked:
  assumes "uf_inv u" "uf_ranked u"
    and "x < length (uf_parent u)" "uf_parent u ! x = x"
    and "y < length (uf_parent u)" "uf_parent u ! y = y"
    and "uf_link u x y = Some v"
  shows "uf_ranked v"
proof (cases "x = y")
  case True
  with assms show ?thesis by (simp add: uf_link_def)
next
  case False
  have len: "length (uf_rank u) = length (uf_parent u)" using assms(1) by (simp add: uf_inv_def)
  let ?rx = "uf_rank u ! x" and ?ry = "uf_rank u ! y"
  consider (gt) "?ry < ?rx" | (lt) "?rx < ?ry" | (eq) "?rx = ?ry" by fastforce
  then show ?thesis
  proof cases
    case gt
    then have v: "v = u\<lparr>uf_parent := (uf_parent u)[y := x]\<rparr>"
      using assms(3-7) len False by (simp add: uf_link_def)
    from gt have "rank_of u y < rank_of u x" by (simp add: rank_of_def word_less_nat_alt)
    then show ?thesis
      using v False assms(3-6)
      by (intro hang_ranked [OF assms(1,2), of y "rank_of u x" x]) (auto simp: rank_of_def)
  next
    case lt
    then have "\<not> ?ry < ?rx" "?rx \<noteq> ?ry" by auto
    then have v: "v = u\<lparr>uf_parent := (uf_parent u)[x := y]\<rparr>"
      using assms(3-7) len False by (simp add: uf_link_def)
    from lt have "rank_of u x < rank_of u y" by (simp add: rank_of_def word_less_nat_alt)
    then show ?thesis
      using v False assms(3-6)
      by (intro hang_ranked [OF assms(1,2), of x "rank_of u y" y]) (auto simp: rank_of_def)
  next
    case eq
    then have v: "v = u\<lparr>uf_parent := (uf_parent u)[x := y], uf_rank := (uf_rank u)[y := ?ry + 1]\<rparr>"
      using assms(3-7) len False by (simp add: uf_link_def)
    have "rank_of u y < 64" by (rule rank_less_64 [OF assms(1,2,5,6)])
    then have "unat (?ry + 1) = Suc (rank_of u y)"
      by (simp add: rank_of_def unat_word_ariths)
    then show ?thesis
      using v eq False assms(3-6) len
      by (intro hang_ranked [OF assms(1,2), of x "Suc (rank_of u y)" y]) (auto simp: rank_of_def)
  qed
qed

lemma union_ranked:
  assumes "uf_inv u" "uf_ranked u" "uf_union u a b = Some w"
  shows "uf_ranked w"
proof -
  obtain v where f: "same_forest u v"
    and link: "case (repr (uf_parent u) a, repr (uf_parent u) b) of
       (Some x, Some y) \<Rightarrow> uf_link v x y = Some w | _ \<Rightarrow> w = v"
    using union_run [OF assms(1), of a b] assms(3) by auto
  have inv: "uf_inv v" "uf_ranked v"
    using same_forest_inv [OF assms(1) f] same_forest_ranked [OF assms(1,2) f] by simp_all
  show ?thesis
  proof (cases "\<exists>x y. repr (uf_parent v) a = Some x \<and> repr (uf_parent v) b = Some y")
    case True
    then obtain x y where xy: "repr (uf_parent v) a = Some x" "repr (uf_parent v) b = Some y"
      by blast
    then have "uf_link v x y = Some w" using link f by (simp add: same_forest_def)
    then show ?thesis using link_ranked [OF inv, of x y] xy by (auto simp: repr_Some dest!: root_of_root)
  next
    case False
    then have "w = v" using link f by (auto simp: same_forest_def split: option.splits)
    with inv show ?thesis by simp
  qed
qed

lemma grow_ranked:
  assumes "uf_inv u" "uf_ranked u" "2 * i \<le> k_null_id"
  shows "uf_ranked (uf_grow u i)"
proof (cases "i < length (uf_parent u)")
  case True
  with assms show ?thesis by (simp add: uf_grow_def)
next
  case False
  define n where "n = (if i > 0 then 2 * i else 2)"
  have n: "length (uf_parent u) \<le> n" "n \<le> k_null_id"
    using False assms(3) by (auto simp: n_def k_null_id_def usize_max_def)
  have g: "uf_grow u i = u\<lparr>uf_parent := uf_parent u @ replicate (n - length (uf_parent u)) k_null_id,
      uf_rank := uf_rank u @ replicate (n - length (uf_parent u)) 0\<rparr>"
    using False n assms(1) by (simp add: uf_grow_def n_def [symmetric] vresize_def uf_inv_def)
  have len: "length (uf_rank u) = length (uf_parent u)" using assms(1) by (simp add: uf_inv_def)
  have old: "uf_parent u ! j < length (uf_parent u)"
    if "j < length (uf_parent u)" "uf_parent u ! j \<noteq> k_null_id" for j
    using that assms(1) unfolding uf_inv_def
    by (metis not_None_eq repr_Some root_of_cases root_of_less)
  have cl: "class_of (uf_parent u @ replicate (n - length (uf_parent u)) k_null_id) r = class_of (uf_parent u) r" for r
    using n by (simp add: class_of_def repr_grow)
  have null: "r < k_null_id" if "r < n" for r using that n by simp
  show ?thesis
    using assms(2) old null n
    unfolding uf_ranked_def g by (auto simp: nth_append cl rank_of_def len split: if_splits)
qed

lemma make_set_ranked:
  assumes "uf_inv u" "uf_ranked u" "2 * i \<le> k_null_id" "repr (uf_parent u) i = None"
    and "make_set u i = Some (v, k)"
  shows "uf_ranked v"
proof -
  let ?g = "uf_grow u i" let ?p = "uf_parent ?g"
  note g = grow_frame [OF assms(1,3)]
  have v: "v = ?g\<lparr>uf_parent := ?p[i := i], uf_rank := (uf_rank ?g)[i := 0]\<rparr>"
    using make_set_run [OF assms(1,3)] assms(5) by simp
  have rp: "repr (?p[i := i]) j = (if j = i then Some i else repr ?p j)" for j
    using g assms(4) by (intro repr_fresh) auto
  have no: "repr (uf_parent u) j \<noteq> Some i" for j
    using assms(4) by (metis option.distinct(1) repr_Some root_of_self)
  have cl: "class_of (?p[i := i]) r = (if r = i then {i} else class_of ?p r)" for r
    using no g assms(4) by (auto simp: class_of_def rp)
  have ng: "?p ! j \<noteq> i" if "j < length ?p" for j
  proof
    assume j: "?p ! j = i"
    have "repr ?p j \<noteq> None" using g that j by auto
    then obtain t where t: "repr ?p j = Some t" by blast
    from t [unfolded repr_Some] have "root_of ?p i t"
      by (cases rule: root_of_cases) (use t j in \<open>simp_all add: repr_Some\<close>)
    then have "repr ?p i = Some t" by (simp only: repr_Some)
    with assms(4) g show False by simp
  qed
  show ?thesis
    using grow_ranked [OF assms(1-3)] ng ng [symmetric] g
    unfolding uf_ranked_def v by (auto simp: cl rank_of_def nth_list_update)
qed

lemma make_all_set_ranked: "uf_ranked (make_all_set u n)"
proof -
  have "class_of [0..<n] r = {r}" if "r < n" for r
    using that by (auto simp: class_of_def repr_upt split: if_splits)
  then show ?thesis by (simp add: make_all_set_eq uf_ranked_def rank_of_def)
qed

lemma new_ranked: "n \<le> k_null_id \<Longrightarrow> uf_ranked (uf_new n)"
  by (auto simp: uf_new_def uf_ranked_def)

subsection \<open>The contract of a disjoint-set structure\<close>

text \<open>
  What a client of the structure may rely on, over the relation \<open>rel\<close> of elements known to
  be in one set: every operation returns, keeps the invariant, and acts on the relation.
\<close>

locale disjoint_sets =
  fixes find :: "'u \<Rightarrow> nat \<Rightarrow> ('u \<times> nat option) option"
    and union :: "'u \<Rightarrow> nat \<Rightarrow> nat \<Rightarrow> 'u option"
    and inv :: "'u \<Rightarrow> bool"
    and rel :: "'u \<Rightarrow> (nat \<times> nat) set"
  assumes find_some: "inv u \<Longrightarrow> (a, a) \<in> rel u \<Longrightarrow>
      \<exists>v r. find u a = Some (v, Some r) \<and> (a, r) \<in> rel u \<and> inv v \<and> rel v = rel u"
    and find_none: "inv u \<Longrightarrow> (a, a) \<notin> rel u \<Longrightarrow>
      \<exists>v. find u a = Some (v, None) \<and> inv v \<and> rel v = rel u"
    and find_agree: "inv u \<Longrightarrow> inv v \<Longrightarrow> rel u = rel v \<Longrightarrow> (a, b) \<in> rel u \<Longrightarrow>
      find u a = Some (u', r) \<Longrightarrow> find u' b = Some (v', s) \<Longrightarrow> r = s"
    and union_rel: "inv u \<Longrightarrow>
      \<exists>v. union u a b = Some v \<and> inv v \<and> rel v = merge_rel (rel u) a b"
    and rel_sym: "inv u \<Longrightarrow> (a, b) \<in> rel u \<Longrightarrow> (b, a) \<in> rel u"
    and rel_trans: "inv u \<Longrightarrow> (a, b) \<in> rel u \<Longrightarrow> (b, c) \<in> rel u \<Longrightarrow> (a, c) \<in> rel u"
begin

text \<open>Merging along a list of pairs.\<close>

primrec union_all :: "(nat \<times> nat) list \<Rightarrow> 'u \<Rightarrow> 'u option" where
  "union_all [] u = Some u"
| "union_all (p # ps) u = (case union u (fst p) (snd p) of None \<Rightarrow> None | Some v \<Rightarrow> union_all ps v)"

lemma union_all_rel:
  "inv u \<Longrightarrow> \<exists>v. union_all ps u = Some v \<and> inv v \<and>
     rel v = fold (\<lambda>p R. merge_rel R (fst p) (snd p)) ps (rel u)"
proof (induction ps arbitrary: u)
  case Nil
  then show ?case by simp
next
  case (Cons p ps)
  then obtain v where "union u (fst p) (snd p) = Some v" "inv v"
    "rel v = merge_rel (rel u) (fst p) (snd p)"
    using union_rel by blast
  with Cons.IH [of v] show ?case by auto
qed

text \<open>Two initialised elements get the same representative exactly when they are related.\<close>

lemma find_decides:
  assumes "inv u" "(a, a) \<in> rel u" "(b, b) \<in> rel u"
    and "find u a = Some (u1, r)" "find u1 b = Some (u2, s)"
  shows "r = s \<longleftrightarrow> (a, b) \<in> rel u"
proof
  assume "(a, b) \<in> rel u"
  then show "r = s" using find_agree assms by blast
next
  assume eq: "r = s"
  obtain v x where 1: "find u a = Some (v, Some x)" "(a, x) \<in> rel u" "inv v" "rel v = rel u"
    using find_some [OF assms(1,2)] by blast
  then have u1: "u1 = v" "r = Some x" using assms(4) by auto
  obtain w y where 2: "find u1 b = Some (w, Some y)" "(b, y) \<in> rel u1"
    using find_some [of u1 b] 1 u1 assms(3) by auto
  then have "s = Some y" using assms(5) by auto
  with eq u1 2 1 have "(a, x) \<in> rel u" "(b, x) \<in> rel u" by auto
  then show "(a, b) \<in> rel u" using rel_sym rel_trans assms(1) by blast
qed

end

interpretation uf: disjoint_sets find_set uf_union uf_inv uf_rel
proof
  fix u v :: union_find and a b c and u' v' and r s :: "nat option"
  assume u: "uf_inv u"
  obtain w where w: "find_set u a = Some (w, repr (uf_parent u) a)" "same_forest u w"
    using find_set_run [OF u] by blast
  note w' = same_forest_inv [OF u w(2)] same_forest_rel [OF w(2)]
  show "(a, a) \<in> uf_rel u \<Longrightarrow> \<exists>v r. find_set u a = Some (v, Some r) \<and> (a, r) \<in> uf_rel u \<and>
      uf_inv v \<and> uf_rel v = uf_rel u"
    using w w' by (auto simp: uf_rel_def repr_root)
  show "(a, a) \<notin> uf_rel u \<Longrightarrow> \<exists>v. find_set u a = Some (v, None) \<and> uf_inv v \<and> uf_rel v = uf_rel u"
    using w w' by (auto simp: uf_rel_def)
  show "\<exists>v. uf_union u a b = Some v \<and> uf_inv v \<and> uf_rel v = merge_rel (uf_rel u) a b"
    by (rule union_correct [OF u])
  show "(a, b) \<in> uf_rel u \<Longrightarrow> (b, a) \<in> uf_rel u" by (auto simp: uf_rel_def)
  show "(a, b) \<in> uf_rel u \<Longrightarrow> (b, c) \<in> uf_rel u \<Longrightarrow> (a, c) \<in> uf_rel u" by (auto simp: uf_rel_def)
  assume "(a, b) \<in> uf_rel u" "find_set u a = Some (u', r)" "find_set u' b = Some (v', s)"
  moreover obtain z where "find_set w b = Some (z, repr (uf_parent w) b)"
    using find_set_run [OF w'(1)] by blast
  ultimately show "r = s" using w by (auto simp: uf_rel_def same_forest_def)
qed

subsection \<open>Properties\<close>

text \<open>C39. 
  On a well-formed forest \<open>find_set\<close> always returns: its two loops end, none of its
  unchecked reads and writes leaves the vectors, path compression changes no set, and two
  initialised elements get the same answer exactly when they are in the same set.
\<close>

theorem find_set_decides:
  assumes "uf_inv u" "(a, a) \<in> uf_rel u" "(b, b) \<in> uf_rel u"
  shows "\<exists>v w r s. find_set u a = Some (v, Some r) \<and> find_set v b = Some (w, Some s) \<and>
    uf_inv w \<and> uf_rel w = uf_rel u \<and> (r = s \<longleftrightarrow> (a, b) \<in> uf_rel u)"
proof -
  obtain v r where v: "find_set u a = Some (v, Some r)" "uf_inv v" "uf_rel v = uf_rel u"
    using uf.find_some [OF assms(1,2)] by blast
  obtain w s where w: "find_set v b = Some (w, Some s)" "uf_inv w" "uf_rel w = uf_rel v"
    using uf.find_some [of v b] v assms(3) by auto
  show ?thesis using uf.find_decides [OF assms v(1) w(1)] v w by auto
qed

definition three_merged :: union_find where
  "three_merged = \<lparr>uf_parent = [1, 1, 2], uf_rank = [0, 1, 0]\<rparr>"

lemma three_merged_repr:
  "repr (uf_parent three_merged) i = (if i < 2 then Some 1 else if i = 2 then Some 2 else None)"
proof -
  have "repr ([0, 1, 2][0 := 1]) i = map_option (\<lambda>t. if t = 0 then 1 else t) (repr [0, 1, 2] i)"
    by (rule repr_hang) simp_all
  moreover have "[0..<3] = [0, 1, 2]" by code_simp
  then have "repr [0, 1, 2] i = (if i < 3 then Some i else None)"
    using repr_upt [of 3 i] by simp
  ultimately show ?thesis by (auto simp: three_merged_def split: if_splits)
qed

lemma three_merged_inv: "uf_inv three_merged"
  unfolding uf_inv_def three_merged_repr by (auto simp: three_merged_def k_null_id_def usize_max_def)

theorem find_set_decides_witness:
  "\<exists>v w r s. find_set three_merged 0 = Some (v, Some r) \<and> find_set v 1 = Some (w, Some s) \<and>
    uf_inv w \<and> uf_rel w = uf_rel three_merged \<and> (r = s \<longleftrightarrow> (0, 1) \<in> uf_rel three_merged)"
  by (rule find_set_decides) (simp_all add: three_merged_inv uf_rel_def three_merged_repr)

text \<open>C33. 
  \<open>union\<close> refines the merge of two classes of a partial equivalence relation: it
  returns, keeps the forest well formed, relates exactly what was related before plus the
  two sets of its arguments, and does nothing when an argument was never initialised.
\<close>

theorem union_refines_merge:
  assumes "uf_inv u"
  shows "\<exists>v. uf_union u a b = Some v \<and> uf_inv v \<and> uf_rel v = merge_rel (uf_rel u) a b"
  using assms by (rule uf.union_rel)

theorem union_refines_merge_witness:
  "\<exists>v. uf_union three_merged 0 2 = Some v \<and> uf_inv v \<and>
     uf_rel v = merge_rel (uf_rel three_merged) 0 2"
  by (rule union_refines_merge) (rule three_merged_inv)

text \<open>
  Union by rank keeps the forest shallow: as long as no element is initialised twice,
  a climb takes at most the rank of the root, which stays below 64, so the \<open>u8\<close> rank
  never overflows.
\<close>

theorem climb_is_short:
  assumes "uf_inv u" "uf_ranked u" "root_in (uf_parent u) n i r"
  shows "n \<le> rank_of u r \<and> rank_of u r < 64 \<and>
    (\<forall>a b. \<exists>v. uf_union u a b = Some v \<and> uf_ranked v)"
proof -
  have "r < length (uf_parent u)" "uf_parent u ! r = r" using root_in_root [OF assms(3)] by auto
  then show ?thesis
    using depth_le_rank [OF assms] rank_less_64 [OF assms(1,2)] union_ranked [OF assms(1,2)]
      uf.union_rel [OF assms(1)]
    by (meson add_leD1)
qed

theorem climb_is_short_witness:
  "(1::nat) \<le> rank_of three_merged 1 \<and> rank_of three_merged 1 < 64 \<and>
    (\<forall>a b. \<exists>v. uf_union three_merged a b = Some v \<and> uf_ranked v)"
proof (rule climb_is_short)
  have "class_of (uf_parent three_merged) 1 = {0, 1}" "class_of (uf_parent three_merged) 2 = {2}"
    by (auto simp: class_of_def three_merged_repr split: if_splits)
  moreover have "length (uf_parent three_merged) = 3" by (simp add: three_merged_def)
  ultimately show "uf_ranked three_merged"
    unfolding uf_ranked_def rank_of_def by (simp add: all_less_eval three_merged_def numeral_2_eq_2)
  show "root_in (uf_parent three_merged) 1 0 1"
    unfolding three_merged_def union_find.simps One_nat_def
    by (rule root_up) (auto intro: root_here)
qed (rule three_merged_inv)

definition reinit_run :: "union_find option" where
  "reinit_run = do {
     u \<leftarrow> uf_union (make_all_set (uf_new 3) 3) 0 1;
     (u, _) \<leftarrow> make_set u 0;
     u \<leftarrow> uf_union u 2 0;
     uf_union u 0 1 }"

lemma climb_eval:
  "i < length p \<Longrightarrow> climb p i = (if p ! i = i then Some i else climb p (p ! i))"
  by (subst climb.simps) simp

lemma compress_eval:
  "compress p i i = Some p"
  "i \<noteq> r \<Longrightarrow> i < length p \<Longrightarrow> compress p i r = compress (p[i := r]) (p ! i) r"
  by (subst compress.simps; simp)+

text \<open>The bound of the comment on the \<open>rank\<close> field (rank at most the logarithm of the
  number of elements) fails when \<open>make_set\<close> reinitialises an element of a larger set: on
  three elements a rank of two is reached, although \<open>2 ^ 2 > 3\<close>.
\<close>

theorem rank_exceeds_log:
  "\<exists>v. reinit_run = Some v \<and> length (uf_parent v) < 2 ^ rank_of v 1"
proof -
  have all: "make_all_set (uf_new 3) 3 = \<lparr>uf_parent = [0, 1, 2], uf_rank = [0, 0, 0]\<rparr>"
    unfolding make_all_set_eq by (simp add: uf_new_def numeral_3_eq_3 upt_rec)
  show ?thesis
    by (simp add: reinit_run_def all uf_union_def find_set_def climb_eval compress_eval
        uf_link_def make_set_def rank_of_def k_null_id_def usize_max_def)
qed

end
