(* ===== verification/PropertyBits.thy ===== *)
theory PropertyBits
  imports Prelude
begin

text \<open>
  The property bits of \<open>properties.rs\<close>: one 64-bit word whose bits 0 to 2 are the binary
  properties and whose bits 16 to 47 come in pairs, the even bit of a pair claiming a
  property of an FST and the odd bit (or the other way round: the code fixes no polarity)
  its negation.  The masks are those of the code, word by word.
\<close>

section \<open>Constants\<close>

definition K_EXPANDED :: "64 word" where
  "K_EXPANDED = 0x1"

definition K_MUTABLE :: "64 word" where
  "K_MUTABLE = 0x2"

definition K_ERROR :: "64 word" where
  "K_ERROR = 0x4"

definition K_ACCEPTOR :: "64 word" where
  "K_ACCEPTOR = 0x10000"

definition K_NOT_ACCEPTOR :: "64 word" where
  "K_NOT_ACCEPTOR = 0x20000"

definition K_I_DETERMINISTIC :: "64 word" where
  "K_I_DETERMINISTIC = 0x40000"

definition K_NON_I_DETERMINISTIC :: "64 word" where
  "K_NON_I_DETERMINISTIC = 0x80000"

definition K_O_DETERMINISTIC :: "64 word" where
  "K_O_DETERMINISTIC = 0x100000"

definition K_NON_O_DETERMINISTIC :: "64 word" where
  "K_NON_O_DETERMINISTIC = 0x200000"

definition K_EPSILONS :: "64 word" where
  "K_EPSILONS = 0x400000"

definition K_NO_EPSILONS :: "64 word" where
  "K_NO_EPSILONS = 0x800000"

definition K_I_EPSILONS :: "64 word" where
  "K_I_EPSILONS = 0x1000000"

definition K_NO_I_EPSILONS :: "64 word" where
  "K_NO_I_EPSILONS = 0x2000000"

definition K_O_EPSILONS :: "64 word" where
  "K_O_EPSILONS = 0x4000000"

definition K_NO_O_EPSILONS :: "64 word" where
  "K_NO_O_EPSILONS = 0x8000000"

definition K_I_LABEL_SORTED :: "64 word" where
  "K_I_LABEL_SORTED = 0x10000000"

definition K_NOT_I_LABEL_SORTED :: "64 word" where
  "K_NOT_I_LABEL_SORTED = 0x20000000"

definition K_O_LABEL_SORTED :: "64 word" where
  "K_O_LABEL_SORTED = 0x40000000"

definition K_NOT_O_LABEL_SORTED :: "64 word" where
  "K_NOT_O_LABEL_SORTED = 0x80000000"

definition K_WEIGHTED :: "64 word" where
  "K_WEIGHTED = 0x100000000"

definition K_UNWEIGHTED :: "64 word" where
  "K_UNWEIGHTED = 0x200000000"

definition K_CYCLIC :: "64 word" where
  "K_CYCLIC = 0x400000000"

definition K_ACYCLIC :: "64 word" where
  "K_ACYCLIC = 0x800000000"

definition K_INITIAL_CYCLIC :: "64 word" where
  "K_INITIAL_CYCLIC = 0x1000000000"

definition K_INITIAL_ACYCLIC :: "64 word" where
  "K_INITIAL_ACYCLIC = 0x2000000000"

definition K_TOP_SORTED :: "64 word" where
  "K_TOP_SORTED = 0x4000000000"

definition K_NOT_TOP_SORTED :: "64 word" where
  "K_NOT_TOP_SORTED = 0x8000000000"

definition K_ACCESSIBLE :: "64 word" where
  "K_ACCESSIBLE = 0x10000000000"

definition K_NOT_ACCESSIBLE :: "64 word" where
  "K_NOT_ACCESSIBLE = 0x20000000000"

definition K_CO_ACCESSIBLE :: "64 word" where
  "K_CO_ACCESSIBLE = 0x40000000000"

definition K_NOT_CO_ACCESSIBLE :: "64 word" where
  "K_NOT_CO_ACCESSIBLE = 0x80000000000"

definition K_STRING :: "64 word" where
  "K_STRING = 0x100000000000"

definition K_NOT_STRING :: "64 word" where
  "K_NOT_STRING = 0x200000000000"

definition K_WEIGHTED_CYCLES :: "64 word" where
  "K_WEIGHTED_CYCLES = 0x400000000000"

definition K_UNWEIGHTED_CYCLES :: "64 word" where
  "K_UNWEIGHTED_CYCLES = 0x800000000000"

definition K_NULL_PROPERTIES :: "64 word" where
  "K_NULL_PROPERTIES =
     K_ACCEPTOR OR K_I_DETERMINISTIC OR K_O_DETERMINISTIC OR K_NO_EPSILONS OR K_NO_I_EPSILONS
       OR K_NO_O_EPSILONS OR K_I_LABEL_SORTED OR K_O_LABEL_SORTED OR K_UNWEIGHTED OR K_ACYCLIC
       OR K_INITIAL_ACYCLIC OR K_TOP_SORTED OR K_ACCESSIBLE OR K_CO_ACCESSIBLE OR K_STRING OR
       K_UNWEIGHTED_CYCLES"

definition K_COMPILED_STRING_PROPERTIES :: "64 word" where
  "K_COMPILED_STRING_PROPERTIES =
     K_ACCEPTOR OR K_STRING OR K_UNWEIGHTED OR K_I_DETERMINISTIC OR K_O_DETERMINISTIC OR
       K_I_LABEL_SORTED OR K_O_LABEL_SORTED OR K_ACYCLIC OR K_INITIAL_ACYCLIC OR
       K_UNWEIGHTED_CYCLES OR K_TOP_SORTED OR K_ACCESSIBLE OR K_CO_ACCESSIBLE"

definition K_COPY_PROPERTIES :: "64 word" where
  "K_COPY_PROPERTIES =
     K_ERROR OR K_ACCEPTOR OR K_NOT_ACCEPTOR OR K_I_DETERMINISTIC OR K_NON_I_DETERMINISTIC OR
       K_O_DETERMINISTIC OR K_NON_O_DETERMINISTIC OR K_EPSILONS OR K_NO_EPSILONS OR
       K_I_EPSILONS OR K_NO_I_EPSILONS OR K_O_EPSILONS OR K_NO_O_EPSILONS OR K_I_LABEL_SORTED
       OR K_NOT_I_LABEL_SORTED OR K_O_LABEL_SORTED OR K_NOT_O_LABEL_SORTED OR K_WEIGHTED OR
       K_UNWEIGHTED OR K_CYCLIC OR K_ACYCLIC OR K_INITIAL_CYCLIC OR K_INITIAL_ACYCLIC OR
       K_TOP_SORTED OR K_NOT_TOP_SORTED OR K_ACCESSIBLE OR K_NOT_ACCESSIBLE OR K_CO_ACCESSIBLE
       OR K_NOT_CO_ACCESSIBLE OR K_STRING OR K_NOT_STRING OR K_WEIGHTED_CYCLES OR
       K_UNWEIGHTED_CYCLES"

definition K_INTRINSIC_PROPERTIES :: "64 word" where
  "K_INTRINSIC_PROPERTIES =
     K_EXPANDED OR K_MUTABLE OR K_ACCEPTOR OR K_NOT_ACCEPTOR OR K_I_DETERMINISTIC OR
       K_NON_I_DETERMINISTIC OR K_O_DETERMINISTIC OR K_NON_O_DETERMINISTIC OR K_EPSILONS OR
       K_NO_EPSILONS OR K_I_EPSILONS OR K_NO_I_EPSILONS OR K_O_EPSILONS OR K_NO_O_EPSILONS OR
       K_I_LABEL_SORTED OR K_NOT_I_LABEL_SORTED OR K_O_LABEL_SORTED OR K_NOT_O_LABEL_SORTED OR
       K_WEIGHTED OR K_UNWEIGHTED OR K_CYCLIC OR K_ACYCLIC OR K_INITIAL_CYCLIC OR
       K_INITIAL_ACYCLIC OR K_TOP_SORTED OR K_NOT_TOP_SORTED OR K_ACCESSIBLE OR
       K_NOT_ACCESSIBLE OR K_CO_ACCESSIBLE OR K_NOT_CO_ACCESSIBLE OR K_STRING OR K_NOT_STRING
       OR K_WEIGHTED_CYCLES OR K_UNWEIGHTED_CYCLES"

definition K_EXTRINSIC_PROPERTIES :: "64 word" where
  "K_EXTRINSIC_PROPERTIES = K_ERROR"

definition K_SET_START_PROPERTIES :: "64 word" where
  "K_SET_START_PROPERTIES =
     K_EXPANDED OR K_MUTABLE OR K_ERROR OR K_ACCEPTOR OR K_NOT_ACCEPTOR OR K_I_DETERMINISTIC OR
       K_NON_I_DETERMINISTIC OR K_O_DETERMINISTIC OR K_NON_O_DETERMINISTIC OR K_EPSILONS OR
       K_NO_EPSILONS OR K_I_EPSILONS OR K_NO_I_EPSILONS OR K_O_EPSILONS OR K_NO_O_EPSILONS OR
       K_I_LABEL_SORTED OR K_NOT_I_LABEL_SORTED OR K_O_LABEL_SORTED OR K_NOT_O_LABEL_SORTED OR
       K_WEIGHTED OR K_UNWEIGHTED OR K_CYCLIC OR K_ACYCLIC OR K_TOP_SORTED OR K_NOT_TOP_SORTED
       OR K_CO_ACCESSIBLE OR K_NOT_CO_ACCESSIBLE OR K_WEIGHTED_CYCLES OR K_UNWEIGHTED_CYCLES"

definition K_SET_FINAL_PROPERTIES :: "64 word" where
  "K_SET_FINAL_PROPERTIES =
     K_EXPANDED OR K_MUTABLE OR K_ERROR OR K_ACCEPTOR OR K_NOT_ACCEPTOR OR K_I_DETERMINISTIC OR
       K_NON_I_DETERMINISTIC OR K_O_DETERMINISTIC OR K_NON_O_DETERMINISTIC OR K_EPSILONS OR
       K_NO_EPSILONS OR K_I_EPSILONS OR K_NO_I_EPSILONS OR K_O_EPSILONS OR K_NO_O_EPSILONS OR
       K_I_LABEL_SORTED OR K_NOT_I_LABEL_SORTED OR K_O_LABEL_SORTED OR K_NOT_O_LABEL_SORTED OR
       K_CYCLIC OR K_ACYCLIC OR K_INITIAL_CYCLIC OR K_INITIAL_ACYCLIC OR K_TOP_SORTED OR
       K_NOT_TOP_SORTED OR K_ACCESSIBLE OR K_NOT_ACCESSIBLE OR K_WEIGHTED_CYCLES OR
       K_UNWEIGHTED_CYCLES"

definition K_ADD_STATE_PROPERTIES :: "64 word" where
  "K_ADD_STATE_PROPERTIES =
     K_EXPANDED OR K_MUTABLE OR K_ERROR OR K_ACCEPTOR OR K_NOT_ACCEPTOR OR K_I_DETERMINISTIC OR
       K_NON_I_DETERMINISTIC OR K_O_DETERMINISTIC OR K_NON_O_DETERMINISTIC OR K_EPSILONS OR
       K_NO_EPSILONS OR K_I_EPSILONS OR K_NO_I_EPSILONS OR K_O_EPSILONS OR K_NO_O_EPSILONS OR
       K_I_LABEL_SORTED OR K_NOT_I_LABEL_SORTED OR K_O_LABEL_SORTED OR K_NOT_O_LABEL_SORTED OR
       K_WEIGHTED OR K_UNWEIGHTED OR K_CYCLIC OR K_ACYCLIC OR K_INITIAL_CYCLIC OR
       K_INITIAL_ACYCLIC OR K_TOP_SORTED OR K_NOT_TOP_SORTED OR K_NOT_ACCESSIBLE OR
       K_NOT_CO_ACCESSIBLE OR K_NOT_STRING OR K_WEIGHTED_CYCLES OR K_UNWEIGHTED_CYCLES"

definition K_ADD_ARC_PROPERTIES :: "64 word" where
  "K_ADD_ARC_PROPERTIES =
     K_EXPANDED OR K_MUTABLE OR K_ERROR OR K_NOT_ACCEPTOR OR K_NON_I_DETERMINISTIC OR
       K_NON_O_DETERMINISTIC OR K_EPSILONS OR K_I_EPSILONS OR K_O_EPSILONS OR
       K_NOT_I_LABEL_SORTED OR K_NOT_O_LABEL_SORTED OR K_WEIGHTED OR K_CYCLIC OR
       K_INITIAL_CYCLIC OR K_NOT_TOP_SORTED OR K_ACCESSIBLE OR K_CO_ACCESSIBLE OR
       K_WEIGHTED_CYCLES"

definition K_SET_ARC_PROPERTIES :: "64 word" where
  "K_SET_ARC_PROPERTIES = K_EXPANDED OR K_MUTABLE OR K_ERROR"

definition K_DELETE_STATES_PROPERTIES :: "64 word" where
  "K_DELETE_STATES_PROPERTIES =
     K_EXPANDED OR K_MUTABLE OR K_ERROR OR K_ACCEPTOR OR K_I_DETERMINISTIC OR K_O_DETERMINISTIC
       OR K_NO_EPSILONS OR K_NO_I_EPSILONS OR K_NO_O_EPSILONS OR K_I_LABEL_SORTED OR
       K_O_LABEL_SORTED OR K_UNWEIGHTED OR K_ACYCLIC OR K_INITIAL_ACYCLIC OR K_TOP_SORTED OR
       K_UNWEIGHTED_CYCLES"

definition K_DELETE_ARCS_PROPERTIES :: "64 word" where
  "K_DELETE_ARCS_PROPERTIES =
     K_EXPANDED OR K_MUTABLE OR K_ERROR OR K_ACCEPTOR OR K_I_DETERMINISTIC OR K_O_DETERMINISTIC
       OR K_NO_EPSILONS OR K_NO_I_EPSILONS OR K_NO_O_EPSILONS OR K_I_LABEL_SORTED OR
       K_O_LABEL_SORTED OR K_UNWEIGHTED OR K_ACYCLIC OR K_INITIAL_ACYCLIC OR K_TOP_SORTED OR
       K_NOT_ACCESSIBLE OR K_NOT_CO_ACCESSIBLE OR K_UNWEIGHTED_CYCLES"

definition K_STATE_SORT_PROPERTIES :: "64 word" where
  "K_STATE_SORT_PROPERTIES =
     K_EXPANDED OR K_MUTABLE OR K_ERROR OR K_ACCEPTOR OR K_NOT_ACCEPTOR OR K_I_DETERMINISTIC OR
       K_NON_I_DETERMINISTIC OR K_O_DETERMINISTIC OR K_NON_O_DETERMINISTIC OR K_EPSILONS OR
       K_NO_EPSILONS OR K_I_EPSILONS OR K_NO_I_EPSILONS OR K_O_EPSILONS OR K_NO_O_EPSILONS OR
       K_I_LABEL_SORTED OR K_NOT_I_LABEL_SORTED OR K_O_LABEL_SORTED OR K_NOT_O_LABEL_SORTED OR
       K_WEIGHTED OR K_UNWEIGHTED OR K_CYCLIC OR K_ACYCLIC OR K_INITIAL_CYCLIC OR
       K_INITIAL_ACYCLIC OR K_ACCESSIBLE OR K_NOT_ACCESSIBLE OR K_CO_ACCESSIBLE OR
       K_NOT_CO_ACCESSIBLE OR K_WEIGHTED_CYCLES OR K_UNWEIGHTED_CYCLES"

definition K_ARC_SORT_PROPERTIES :: "64 word" where
  "K_ARC_SORT_PROPERTIES =
     K_EXPANDED OR K_MUTABLE OR K_ERROR OR K_ACCEPTOR OR K_NOT_ACCEPTOR OR K_I_DETERMINISTIC OR
       K_NON_I_DETERMINISTIC OR K_O_DETERMINISTIC OR K_NON_O_DETERMINISTIC OR K_EPSILONS OR
       K_NO_EPSILONS OR K_I_EPSILONS OR K_NO_I_EPSILONS OR K_O_EPSILONS OR K_NO_O_EPSILONS OR
       K_WEIGHTED OR K_UNWEIGHTED OR K_CYCLIC OR K_ACYCLIC OR K_INITIAL_CYCLIC OR
       K_INITIAL_ACYCLIC OR K_TOP_SORTED OR K_NOT_TOP_SORTED OR K_ACCESSIBLE OR
       K_NOT_ACCESSIBLE OR K_CO_ACCESSIBLE OR K_NOT_CO_ACCESSIBLE OR K_STRING OR K_NOT_STRING
       OR K_WEIGHTED_CYCLES OR K_UNWEIGHTED_CYCLES"

definition K_I_LABEL_INVARIANT_PROPERTIES :: "64 word" where
  "K_I_LABEL_INVARIANT_PROPERTIES =
     K_EXPANDED OR K_MUTABLE OR K_ERROR OR K_O_DETERMINISTIC OR K_NON_O_DETERMINISTIC OR
       K_O_EPSILONS OR K_NO_O_EPSILONS OR K_O_LABEL_SORTED OR K_NOT_O_LABEL_SORTED OR
       K_WEIGHTED OR K_UNWEIGHTED OR K_CYCLIC OR K_ACYCLIC OR K_INITIAL_CYCLIC OR
       K_INITIAL_ACYCLIC OR K_TOP_SORTED OR K_NOT_TOP_SORTED OR K_ACCESSIBLE OR
       K_NOT_ACCESSIBLE OR K_CO_ACCESSIBLE OR K_NOT_CO_ACCESSIBLE OR K_STRING OR K_NOT_STRING
       OR K_WEIGHTED_CYCLES OR K_UNWEIGHTED_CYCLES"

definition K_O_LABEL_INVARIANT_PROPERTIES :: "64 word" where
  "K_O_LABEL_INVARIANT_PROPERTIES =
     K_EXPANDED OR K_MUTABLE OR K_ERROR OR K_I_DETERMINISTIC OR K_NON_I_DETERMINISTIC OR
       K_I_EPSILONS OR K_NO_I_EPSILONS OR K_I_LABEL_SORTED OR K_NOT_I_LABEL_SORTED OR
       K_WEIGHTED OR K_UNWEIGHTED OR K_CYCLIC OR K_ACYCLIC OR K_INITIAL_CYCLIC OR
       K_INITIAL_ACYCLIC OR K_TOP_SORTED OR K_NOT_TOP_SORTED OR K_ACCESSIBLE OR
       K_NOT_ACCESSIBLE OR K_CO_ACCESSIBLE OR K_NOT_CO_ACCESSIBLE OR K_STRING OR K_NOT_STRING
       OR K_WEIGHTED_CYCLES OR K_UNWEIGHTED_CYCLES"

definition K_WEIGHT_INVARIANT_PROPERTIES :: "64 word" where
  "K_WEIGHT_INVARIANT_PROPERTIES =
     K_EXPANDED OR K_MUTABLE OR K_ERROR OR K_ACCEPTOR OR K_NOT_ACCEPTOR OR K_I_DETERMINISTIC OR
       K_NON_I_DETERMINISTIC OR K_O_DETERMINISTIC OR K_NON_O_DETERMINISTIC OR K_EPSILONS OR
       K_NO_EPSILONS OR K_I_EPSILONS OR K_NO_I_EPSILONS OR K_O_EPSILONS OR K_NO_O_EPSILONS OR
       K_I_LABEL_SORTED OR K_NOT_I_LABEL_SORTED OR K_O_LABEL_SORTED OR K_NOT_O_LABEL_SORTED OR
       K_CYCLIC OR K_ACYCLIC OR K_INITIAL_CYCLIC OR K_INITIAL_ACYCLIC OR K_TOP_SORTED OR
       K_NOT_TOP_SORTED OR K_ACCESSIBLE OR K_NOT_ACCESSIBLE OR K_CO_ACCESSIBLE OR
       K_NOT_CO_ACCESSIBLE OR K_STRING OR K_NOT_STRING"

definition K_ADD_SUPER_FINAL_PROPERTIES :: "64 word" where
  "K_ADD_SUPER_FINAL_PROPERTIES =
     K_EXPANDED OR K_MUTABLE OR K_ERROR OR K_ACCEPTOR OR K_NOT_ACCEPTOR OR
       K_NON_I_DETERMINISTIC OR K_NON_O_DETERMINISTIC OR K_EPSILONS OR K_I_EPSILONS OR
       K_O_EPSILONS OR K_NOT_I_LABEL_SORTED OR K_NOT_O_LABEL_SORTED OR K_WEIGHTED OR
       K_UNWEIGHTED OR K_CYCLIC OR K_ACYCLIC OR K_INITIAL_CYCLIC OR K_INITIAL_ACYCLIC OR
       K_NOT_TOP_SORTED OR K_NOT_ACCESSIBLE OR K_CO_ACCESSIBLE OR K_NOT_CO_ACCESSIBLE OR
       K_NOT_STRING OR K_WEIGHTED_CYCLES OR K_UNWEIGHTED_CYCLES"

definition K_RM_SUPER_FINAL_PROPERTIES :: "64 word" where
  "K_RM_SUPER_FINAL_PROPERTIES =
     K_EXPANDED OR K_MUTABLE OR K_ERROR OR K_ACCEPTOR OR K_NOT_ACCEPTOR OR K_I_DETERMINISTIC OR
       K_O_DETERMINISTIC OR K_NO_EPSILONS OR K_NO_I_EPSILONS OR K_NO_O_EPSILONS OR
       K_I_LABEL_SORTED OR K_O_LABEL_SORTED OR K_WEIGHTED OR K_UNWEIGHTED OR K_CYCLIC OR
       K_ACYCLIC OR K_INITIAL_CYCLIC OR K_INITIAL_ACYCLIC OR K_TOP_SORTED OR K_ACCESSIBLE OR
       K_CO_ACCESSIBLE OR K_NOT_CO_ACCESSIBLE OR K_STRING OR K_WEIGHTED_CYCLES OR
       K_UNWEIGHTED_CYCLES"

definition K_BINARY_PROPERTIES :: "64 word" where
  "K_BINARY_PROPERTIES = 0x7"

definition K_TRINARY_PROPERTIES :: "64 word" where
  "K_TRINARY_PROPERTIES = 0xffffffff0000"

definition K_POS_TRINARY_PROPERTIES :: "64 word" where
  "K_POS_TRINARY_PROPERTIES = K_TRINARY_PROPERTIES AND 0x5555555555555555"

definition K_NEG_TRINARY_PROPERTIES :: "64 word" where
  "K_NEG_TRINARY_PROPERTIES = K_TRINARY_PROPERTIES AND 0xaaaaaaaaaaaaaaaa"

definition K_FST_PROPERTIES :: "64 word" where
  "K_FST_PROPERTIES = K_BINARY_PROPERTIES OR K_TRINARY_PROPERTIES"

section \<open>Reading the bits\<close>

text \<open>Membership of a bit in a single-bit constant.\<close>

lemma bit_K [simp]:
  "bit K_EXPANDED i \<longleftrightarrow> i = 0"
  "bit K_MUTABLE i \<longleftrightarrow> i = 1"
  "bit K_ERROR i \<longleftrightarrow> i = 2"
  "bit K_ACCEPTOR i \<longleftrightarrow> i = 16"
  "bit K_NOT_ACCEPTOR i \<longleftrightarrow> i = 17"
  "bit K_I_DETERMINISTIC i \<longleftrightarrow> i = 18"
  "bit K_NON_I_DETERMINISTIC i \<longleftrightarrow> i = 19"
  "bit K_O_DETERMINISTIC i \<longleftrightarrow> i = 20"
  "bit K_NON_O_DETERMINISTIC i \<longleftrightarrow> i = 21"
  "bit K_EPSILONS i \<longleftrightarrow> i = 22"
  "bit K_NO_EPSILONS i \<longleftrightarrow> i = 23"
  "bit K_I_EPSILONS i \<longleftrightarrow> i = 24"
  "bit K_NO_I_EPSILONS i \<longleftrightarrow> i = 25"
  "bit K_O_EPSILONS i \<longleftrightarrow> i = 26"
  "bit K_NO_O_EPSILONS i \<longleftrightarrow> i = 27"
  "bit K_I_LABEL_SORTED i \<longleftrightarrow> i = 28"
  "bit K_NOT_I_LABEL_SORTED i \<longleftrightarrow> i = 29"
  "bit K_O_LABEL_SORTED i \<longleftrightarrow> i = 30"
  "bit K_NOT_O_LABEL_SORTED i \<longleftrightarrow> i = 31"
  "bit K_WEIGHTED i \<longleftrightarrow> i = 32"
  "bit K_UNWEIGHTED i \<longleftrightarrow> i = 33"
  "bit K_CYCLIC i \<longleftrightarrow> i = 34"
  "bit K_ACYCLIC i \<longleftrightarrow> i = 35"
  "bit K_INITIAL_CYCLIC i \<longleftrightarrow> i = 36"
  "bit K_INITIAL_ACYCLIC i \<longleftrightarrow> i = 37"
  "bit K_TOP_SORTED i \<longleftrightarrow> i = 38"
  "bit K_NOT_TOP_SORTED i \<longleftrightarrow> i = 39"
  "bit K_ACCESSIBLE i \<longleftrightarrow> i = 40"
  "bit K_NOT_ACCESSIBLE i \<longleftrightarrow> i = 41"
  "bit K_CO_ACCESSIBLE i \<longleftrightarrow> i = 42"
  "bit K_NOT_CO_ACCESSIBLE i \<longleftrightarrow> i = 43"
  "bit K_STRING i \<longleftrightarrow> i = 44"
  "bit K_NOT_STRING i \<longleftrightarrow> i = 45"
  "bit K_WEIGHTED_CYCLES i \<longleftrightarrow> i = 46"
  "bit K_UNWEIGHTED_CYCLES i \<longleftrightarrow> i = 47"
proof -
  have *: "bit ((2::64 word) ^ k) i \<longleftrightarrow> i = k" if "k < 64" for k i
    using that by (auto simp: bit_simps)
  show "bit K_EXPANDED i \<longleftrightarrow> i = 0"
    using * [of 0 i] by (simp add: K_EXPANDED_def)
  show "bit K_MUTABLE i \<longleftrightarrow> i = 1"
    using * [of 1 i] by (simp add: K_MUTABLE_def)
  show "bit K_ERROR i \<longleftrightarrow> i = 2"
    using * [of 2 i] by (simp add: K_ERROR_def)
  show "bit K_ACCEPTOR i \<longleftrightarrow> i = 16"
    using * [of 16 i] by (simp add: K_ACCEPTOR_def)
  show "bit K_NOT_ACCEPTOR i \<longleftrightarrow> i = 17"
    using * [of 17 i] by (simp add: K_NOT_ACCEPTOR_def)
  show "bit K_I_DETERMINISTIC i \<longleftrightarrow> i = 18"
    using * [of 18 i] by (simp add: K_I_DETERMINISTIC_def)
  show "bit K_NON_I_DETERMINISTIC i \<longleftrightarrow> i = 19"
    using * [of 19 i] by (simp add: K_NON_I_DETERMINISTIC_def)
  show "bit K_O_DETERMINISTIC i \<longleftrightarrow> i = 20"
    using * [of 20 i] by (simp add: K_O_DETERMINISTIC_def)
  show "bit K_NON_O_DETERMINISTIC i \<longleftrightarrow> i = 21"
    using * [of 21 i] by (simp add: K_NON_O_DETERMINISTIC_def)
  show "bit K_EPSILONS i \<longleftrightarrow> i = 22"
    using * [of 22 i] by (simp add: K_EPSILONS_def)
  show "bit K_NO_EPSILONS i \<longleftrightarrow> i = 23"
    using * [of 23 i] by (simp add: K_NO_EPSILONS_def)
  show "bit K_I_EPSILONS i \<longleftrightarrow> i = 24"
    using * [of 24 i] by (simp add: K_I_EPSILONS_def)
  show "bit K_NO_I_EPSILONS i \<longleftrightarrow> i = 25"
    using * [of 25 i] by (simp add: K_NO_I_EPSILONS_def)
  show "bit K_O_EPSILONS i \<longleftrightarrow> i = 26"
    using * [of 26 i] by (simp add: K_O_EPSILONS_def)
  show "bit K_NO_O_EPSILONS i \<longleftrightarrow> i = 27"
    using * [of 27 i] by (simp add: K_NO_O_EPSILONS_def)
  show "bit K_I_LABEL_SORTED i \<longleftrightarrow> i = 28"
    using * [of 28 i] by (simp add: K_I_LABEL_SORTED_def)
  show "bit K_NOT_I_LABEL_SORTED i \<longleftrightarrow> i = 29"
    using * [of 29 i] by (simp add: K_NOT_I_LABEL_SORTED_def)
  show "bit K_O_LABEL_SORTED i \<longleftrightarrow> i = 30"
    using * [of 30 i] by (simp add: K_O_LABEL_SORTED_def)
  show "bit K_NOT_O_LABEL_SORTED i \<longleftrightarrow> i = 31"
    using * [of 31 i] by (simp add: K_NOT_O_LABEL_SORTED_def)
  show "bit K_WEIGHTED i \<longleftrightarrow> i = 32"
    using * [of 32 i] by (simp add: K_WEIGHTED_def)
  show "bit K_UNWEIGHTED i \<longleftrightarrow> i = 33"
    using * [of 33 i] by (simp add: K_UNWEIGHTED_def)
  show "bit K_CYCLIC i \<longleftrightarrow> i = 34"
    using * [of 34 i] by (simp add: K_CYCLIC_def)
  show "bit K_ACYCLIC i \<longleftrightarrow> i = 35"
    using * [of 35 i] by (simp add: K_ACYCLIC_def)
  show "bit K_INITIAL_CYCLIC i \<longleftrightarrow> i = 36"
    using * [of 36 i] by (simp add: K_INITIAL_CYCLIC_def)
  show "bit K_INITIAL_ACYCLIC i \<longleftrightarrow> i = 37"
    using * [of 37 i] by (simp add: K_INITIAL_ACYCLIC_def)
  show "bit K_TOP_SORTED i \<longleftrightarrow> i = 38"
    using * [of 38 i] by (simp add: K_TOP_SORTED_def)
  show "bit K_NOT_TOP_SORTED i \<longleftrightarrow> i = 39"
    using * [of 39 i] by (simp add: K_NOT_TOP_SORTED_def)
  show "bit K_ACCESSIBLE i \<longleftrightarrow> i = 40"
    using * [of 40 i] by (simp add: K_ACCESSIBLE_def)
  show "bit K_NOT_ACCESSIBLE i \<longleftrightarrow> i = 41"
    using * [of 41 i] by (simp add: K_NOT_ACCESSIBLE_def)
  show "bit K_CO_ACCESSIBLE i \<longleftrightarrow> i = 42"
    using * [of 42 i] by (simp add: K_CO_ACCESSIBLE_def)
  show "bit K_NOT_CO_ACCESSIBLE i \<longleftrightarrow> i = 43"
    using * [of 43 i] by (simp add: K_NOT_CO_ACCESSIBLE_def)
  show "bit K_STRING i \<longleftrightarrow> i = 44"
    using * [of 44 i] by (simp add: K_STRING_def)
  show "bit K_NOT_STRING i \<longleftrightarrow> i = 45"
    using * [of 45 i] by (simp add: K_NOT_STRING_def)
  show "bit K_WEIGHTED_CYCLES i \<longleftrightarrow> i = 46"
    using * [of 46 i] by (simp add: K_WEIGHTED_CYCLES_def)
  show "bit K_UNWEIGHTED_CYCLES i \<longleftrightarrow> i = 47"
    using * [of 47 i] by (simp add: K_UNWEIGHTED_CYCLES_def)
qed

text \<open>The test \<open>(p & k) != 0\<close> of the code, when \<open>k\<close> is a single bit.\<close>

lemma and_zero_iff: "(p AND k :: 64 word) = 0 \<longleftrightarrow> (\<forall>i. \<not> (bit p i \<and> bit k i))"
  by (auto simp: bit_eq_iff bit_and_iff) (use bit_imp_le_length in fastforce)

lemma test_K [simp]:
  "(p AND K_EXPANDED = 0) \<longleftrightarrow> \<not> bit p 0"
  "(K_EXPANDED AND p = 0) \<longleftrightarrow> \<not> bit p 0"
  "(p AND K_MUTABLE = 0) \<longleftrightarrow> \<not> bit p 1"
  "(K_MUTABLE AND p = 0) \<longleftrightarrow> \<not> bit p 1"
  "(p AND K_ERROR = 0) \<longleftrightarrow> \<not> bit p 2"
  "(K_ERROR AND p = 0) \<longleftrightarrow> \<not> bit p 2"
  "(p AND K_ACCEPTOR = 0) \<longleftrightarrow> \<not> bit p 16"
  "(K_ACCEPTOR AND p = 0) \<longleftrightarrow> \<not> bit p 16"
  "(p AND K_NOT_ACCEPTOR = 0) \<longleftrightarrow> \<not> bit p 17"
  "(K_NOT_ACCEPTOR AND p = 0) \<longleftrightarrow> \<not> bit p 17"
  "(p AND K_I_DETERMINISTIC = 0) \<longleftrightarrow> \<not> bit p 18"
  "(K_I_DETERMINISTIC AND p = 0) \<longleftrightarrow> \<not> bit p 18"
  "(p AND K_NON_I_DETERMINISTIC = 0) \<longleftrightarrow> \<not> bit p 19"
  "(K_NON_I_DETERMINISTIC AND p = 0) \<longleftrightarrow> \<not> bit p 19"
  "(p AND K_O_DETERMINISTIC = 0) \<longleftrightarrow> \<not> bit p 20"
  "(K_O_DETERMINISTIC AND p = 0) \<longleftrightarrow> \<not> bit p 20"
  "(p AND K_NON_O_DETERMINISTIC = 0) \<longleftrightarrow> \<not> bit p 21"
  "(K_NON_O_DETERMINISTIC AND p = 0) \<longleftrightarrow> \<not> bit p 21"
  "(p AND K_EPSILONS = 0) \<longleftrightarrow> \<not> bit p 22"
  "(K_EPSILONS AND p = 0) \<longleftrightarrow> \<not> bit p 22"
  "(p AND K_NO_EPSILONS = 0) \<longleftrightarrow> \<not> bit p 23"
  "(K_NO_EPSILONS AND p = 0) \<longleftrightarrow> \<not> bit p 23"
  "(p AND K_I_EPSILONS = 0) \<longleftrightarrow> \<not> bit p 24"
  "(K_I_EPSILONS AND p = 0) \<longleftrightarrow> \<not> bit p 24"
  "(p AND K_NO_I_EPSILONS = 0) \<longleftrightarrow> \<not> bit p 25"
  "(K_NO_I_EPSILONS AND p = 0) \<longleftrightarrow> \<not> bit p 25"
  "(p AND K_O_EPSILONS = 0) \<longleftrightarrow> \<not> bit p 26"
  "(K_O_EPSILONS AND p = 0) \<longleftrightarrow> \<not> bit p 26"
  "(p AND K_NO_O_EPSILONS = 0) \<longleftrightarrow> \<not> bit p 27"
  "(K_NO_O_EPSILONS AND p = 0) \<longleftrightarrow> \<not> bit p 27"
  "(p AND K_I_LABEL_SORTED = 0) \<longleftrightarrow> \<not> bit p 28"
  "(K_I_LABEL_SORTED AND p = 0) \<longleftrightarrow> \<not> bit p 28"
  "(p AND K_NOT_I_LABEL_SORTED = 0) \<longleftrightarrow> \<not> bit p 29"
  "(K_NOT_I_LABEL_SORTED AND p = 0) \<longleftrightarrow> \<not> bit p 29"
  "(p AND K_O_LABEL_SORTED = 0) \<longleftrightarrow> \<not> bit p 30"
  "(K_O_LABEL_SORTED AND p = 0) \<longleftrightarrow> \<not> bit p 30"
  "(p AND K_NOT_O_LABEL_SORTED = 0) \<longleftrightarrow> \<not> bit p 31"
  "(K_NOT_O_LABEL_SORTED AND p = 0) \<longleftrightarrow> \<not> bit p 31"
  "(p AND K_WEIGHTED = 0) \<longleftrightarrow> \<not> bit p 32"
  "(K_WEIGHTED AND p = 0) \<longleftrightarrow> \<not> bit p 32"
  "(p AND K_UNWEIGHTED = 0) \<longleftrightarrow> \<not> bit p 33"
  "(K_UNWEIGHTED AND p = 0) \<longleftrightarrow> \<not> bit p 33"
  "(p AND K_CYCLIC = 0) \<longleftrightarrow> \<not> bit p 34"
  "(K_CYCLIC AND p = 0) \<longleftrightarrow> \<not> bit p 34"
  "(p AND K_ACYCLIC = 0) \<longleftrightarrow> \<not> bit p 35"
  "(K_ACYCLIC AND p = 0) \<longleftrightarrow> \<not> bit p 35"
  "(p AND K_INITIAL_CYCLIC = 0) \<longleftrightarrow> \<not> bit p 36"
  "(K_INITIAL_CYCLIC AND p = 0) \<longleftrightarrow> \<not> bit p 36"
  "(p AND K_INITIAL_ACYCLIC = 0) \<longleftrightarrow> \<not> bit p 37"
  "(K_INITIAL_ACYCLIC AND p = 0) \<longleftrightarrow> \<not> bit p 37"
  "(p AND K_TOP_SORTED = 0) \<longleftrightarrow> \<not> bit p 38"
  "(K_TOP_SORTED AND p = 0) \<longleftrightarrow> \<not> bit p 38"
  "(p AND K_NOT_TOP_SORTED = 0) \<longleftrightarrow> \<not> bit p 39"
  "(K_NOT_TOP_SORTED AND p = 0) \<longleftrightarrow> \<not> bit p 39"
  "(p AND K_ACCESSIBLE = 0) \<longleftrightarrow> \<not> bit p 40"
  "(K_ACCESSIBLE AND p = 0) \<longleftrightarrow> \<not> bit p 40"
  "(p AND K_NOT_ACCESSIBLE = 0) \<longleftrightarrow> \<not> bit p 41"
  "(K_NOT_ACCESSIBLE AND p = 0) \<longleftrightarrow> \<not> bit p 41"
  "(p AND K_CO_ACCESSIBLE = 0) \<longleftrightarrow> \<not> bit p 42"
  "(K_CO_ACCESSIBLE AND p = 0) \<longleftrightarrow> \<not> bit p 42"
  "(p AND K_NOT_CO_ACCESSIBLE = 0) \<longleftrightarrow> \<not> bit p 43"
  "(K_NOT_CO_ACCESSIBLE AND p = 0) \<longleftrightarrow> \<not> bit p 43"
  "(p AND K_STRING = 0) \<longleftrightarrow> \<not> bit p 44"
  "(K_STRING AND p = 0) \<longleftrightarrow> \<not> bit p 44"
  "(p AND K_NOT_STRING = 0) \<longleftrightarrow> \<not> bit p 45"
  "(K_NOT_STRING AND p = 0) \<longleftrightarrow> \<not> bit p 45"
  "(p AND K_WEIGHTED_CYCLES = 0) \<longleftrightarrow> \<not> bit p 46"
  "(K_WEIGHTED_CYCLES AND p = 0) \<longleftrightarrow> \<not> bit p 46"
  "(p AND K_UNWEIGHTED_CYCLES = 0) \<longleftrightarrow> \<not> bit p 47"
  "(K_UNWEIGHTED_CYCLES AND p = 0) \<longleftrightarrow> \<not> bit p 47"
  by (auto simp: and_zero_iff intro!: gr0I)

lemmas mask_defs =
  K_NULL_PROPERTIES_def
  K_COMPILED_STRING_PROPERTIES_def
  K_COPY_PROPERTIES_def
  K_INTRINSIC_PROPERTIES_def
  K_EXTRINSIC_PROPERTIES_def
  K_SET_START_PROPERTIES_def
  K_SET_FINAL_PROPERTIES_def
  K_ADD_STATE_PROPERTIES_def
  K_ADD_ARC_PROPERTIES_def
  K_SET_ARC_PROPERTIES_def
  K_DELETE_STATES_PROPERTIES_def
  K_DELETE_ARCS_PROPERTIES_def
  K_STATE_SORT_PROPERTIES_def
  K_ARC_SORT_PROPERTIES_def
  K_I_LABEL_INVARIANT_PROPERTIES_def
  K_O_LABEL_INVARIANT_PROPERTIES_def
  K_WEIGHT_INVARIANT_PROPERTIES_def
  K_ADD_SUPER_FINAL_PROPERTIES_def
  K_RM_SUPER_FINAL_PROPERTIES_def

lemma bit_fst_properties: "bit K_FST_PROPERTIES i \<longleftrightarrow> i < 3 \<or> 16 \<le> i \<and> i < 48"
proof -
  have *: "K_FST_PROPERTIES = mask 3 OR push_bit 16 (mask 32)"
    by (simp add: K_FST_PROPERTIES_def K_BINARY_PROPERTIES_def K_TRINARY_PROPERTIES_def
        mask_eq_exp_minus_1 push_bit_eq_mult)
  show ?thesis unfolding * by (auto simp: bit_simps)
qed

end
