(* ===== verification/Arc.thy ===== *)
theory Arc
  imports Prelude
begin

text \<open>
  Arcs, after \<open>arc.rs\<close>.  Labels are the \<open>i32\<close> instance, as integers: the code only
  compares labels and never computes with them, so the width plays no part.  State ids are
  the \<open>usize\<close> instance.  The weight is a type variable; \<open>Weight::zero()\<close> and
  \<open>Weight::one()\<close> are the constants of HOL's classes \<open>zero\<close> and \<open>one\<close>.
\<close>

type_synonym label = int
type_synonym state_id = nat

definition epsilon :: label where
  "epsilon = 0"

definition no_label :: label where
  "no_label = - 1"

definition no_state :: state_id where
  "no_state = usize_max"

record 'w arc =
  ilabel :: label
  olabel :: label
  weight :: 'w
  nextstate :: state_id

lemma no_label_not_epsilon [simp]: "no_label \<noteq> epsilon" "epsilon \<noteq> no_label"
  by (simp_all add: no_label_def epsilon_def)

text \<open>\<open>arc_new\<close> is \<open>Arc::new\<close>.\<close>

definition arc_new :: "label \<Rightarrow> label \<Rightarrow> 'w \<Rightarrow> state_id \<Rightarrow> 'w arc" where
  "arc_new il ol w n = \<lparr>ilabel = il, olabel = ol, weight = w, nextstate = n\<rparr>"

lemma arc_new_sel [simp]:
  "ilabel (arc_new il ol w n) = il" "olabel (arc_new il ol w n) = ol"
  "weight (arc_new il ol w n) = w" "nextstate (arc_new il ol w n) = n"
  by (simp_all add: arc_new_def)

end
