(* ===== verification/Properties.thy ===== *)
theory Properties
  imports PropertyBits Arc
begin

text \<open>
  The property functions of \<open>properties.rs\<close>: what an operation leaves of the property bits
  of its operand.  Each is the code's sequence of masks, with a rebinding for every
  assignment.  The lemmas at the end are about the words alone; what the bits claim of an
  FST, and that the functions keep the claims true, is in theory \<open>PropertySound\<close>.
\<close>

section \<open>The functions\<close>

definition is_trivial_weight :: "'w::{zero,one} \<Rightarrow> bool" where
  "is_trivial_weight w = (w = 0 \<or> w = 1)"

definition set_arc_properties :: "64 word \<Rightarrow> 'w::{zero,one} arc \<Rightarrow> 'w arc \<Rightarrow> 64 word" where
  "set_arc_properties inprops old_arc new_arc =
   (let epsilon = epsilon in
    let props = inprops in
    let props = (if ilabel old_arc \<noteq> olabel old_arc
          then props AND NOT K_NOT_ACCEPTOR else props) in
    let props = (if ilabel old_arc = epsilon then
        let props = props AND NOT K_I_EPSILONS in
        let props = (if olabel old_arc = epsilon
              then props AND NOT K_EPSILONS else props) in
        props
      else props) in
    let props = (if olabel old_arc = epsilon
          then props AND NOT K_O_EPSILONS else props) in
    let props = (if \<not> is_trivial_weight (weight old_arc)
          then props AND NOT K_WEIGHTED else props) in
    let props = (if ilabel new_arc \<noteq> olabel new_arc then
        let props = props OR K_NOT_ACCEPTOR in
        let props = props AND NOT K_ACCEPTOR in
        props
      else props) in
    let props = (if ilabel new_arc = epsilon then
        let props = props OR K_I_EPSILONS in
        let props = props AND NOT K_NO_I_EPSILONS in
        let props = (if olabel new_arc = epsilon then
            let props = props OR K_EPSILONS in
            let props = props AND NOT K_NO_EPSILONS in
            props
          else props) in
        props
      else props) in
    let props = (if olabel new_arc = epsilon then
        let props = props OR K_O_EPSILONS in
        let props = props AND NOT K_NO_O_EPSILONS in
        props
      else props) in
    let props = (if \<not> is_trivial_weight (weight new_arc) then
        let props = props OR K_WEIGHTED in
        let props = props AND NOT K_UNWEIGHTED in
        props
      else props) in
    props AND (K_SET_ARC_PROPERTIES OR K_ACCEPTOR OR K_NOT_ACCEPTOR OR K_EPSILONS OR
      K_NO_EPSILONS OR K_I_EPSILONS OR K_NO_I_EPSILONS OR K_O_EPSILONS OR K_NO_O_EPSILONS OR
      K_WEIGHTED OR K_UNWEIGHTED))"

definition set_start_properties :: "64 word \<Rightarrow> 64 word" where
  "set_start_properties inprops =
   (let outprops = inprops AND K_SET_START_PROPERTIES in
    let outprops = (if (inprops AND K_ACYCLIC) \<noteq> 0
          then outprops OR K_INITIAL_ACYCLIC else outprops) in
    outprops)"

definition set_final_properties :: "64 word \<Rightarrow> 'w::{zero,one} \<Rightarrow> 'w \<Rightarrow> 64 word" where
  "set_final_properties inprops old_weight new_weight =
   (let outprops = inprops in
    let zero = 0 in
    let one = 1 in
    let outprops = (if old_weight \<noteq> zero \<and> old_weight \<noteq> one
          then outprops AND NOT K_WEIGHTED else outprops) in
    let outprops = (if new_weight \<noteq> zero \<and> new_weight \<noteq> one then
        let outprops = outprops OR K_WEIGHTED in
        let outprops = outprops AND NOT K_UNWEIGHTED in
        outprops
      else outprops) in
    let outprops = outprops AND (K_SET_FINAL_PROPERTIES OR K_WEIGHTED OR K_UNWEIGHTED) in
    outprops)"

definition add_state_properties :: "64 word \<Rightarrow> 64 word" where
  "add_state_properties inprops =
   (inprops AND K_ADD_STATE_PROPERTIES)"

definition add_arc_properties ::
  "64 word \<Rightarrow> state_id \<Rightarrow> 'w::{zero,one} arc \<Rightarrow> 'w arc option \<Rightarrow> 64 word" where
  "add_arc_properties inprops s arc prev_arc =
   (let outprops = inprops in
    let zero = 0 in
    let one = 1 in
    let outprops = (if ilabel arc \<noteq> olabel arc then
        let outprops = outprops OR K_NOT_ACCEPTOR in
        let outprops = outprops AND NOT K_ACCEPTOR in
        outprops
      else outprops) in
    let outprops = (if ilabel arc = epsilon then
        let outprops = outprops OR K_I_EPSILONS in
        let outprops = outprops AND NOT K_NO_I_EPSILONS in
        let outprops = (if olabel arc = epsilon then
            let outprops = outprops OR K_EPSILONS in
            let outprops = outprops AND NOT K_NO_EPSILONS in
            outprops
          else outprops) in
        outprops
      else outprops) in
    let outprops = (if olabel arc = epsilon then
        let outprops = outprops OR K_O_EPSILONS in
        let outprops = outprops AND NOT K_NO_O_EPSILONS in
        outprops
      else outprops) in
    let outprops = (case prev_arc of
        Some prev \<Rightarrow>
          let outprops = (if ilabel prev > ilabel arc then
              let outprops = outprops OR K_NOT_I_LABEL_SORTED in
              let outprops = outprops AND NOT K_I_LABEL_SORTED in
              outprops
            else outprops) in
          let outprops = (if olabel prev > olabel arc then
              let outprops = outprops OR K_NOT_O_LABEL_SORTED in
              let outprops = outprops AND NOT K_O_LABEL_SORTED in
              outprops
            else outprops) in
          outprops
      | None \<Rightarrow> outprops) in
    let outprops = (if weight arc \<noteq> zero \<and> weight arc \<noteq> one then
        let outprops = outprops OR K_WEIGHTED in
        let outprops = outprops AND NOT K_UNWEIGHTED in
        outprops
      else outprops) in
    let outprops = (if nextstate arc \<le> s then
        let outprops = outprops OR K_NOT_TOP_SORTED in
        let outprops = outprops AND NOT K_TOP_SORTED in
        outprops
      else outprops) in
    let outprops = outprops AND (K_ADD_ARC_PROPERTIES OR K_ACCEPTOR OR K_NO_EPSILONS OR
      K_NO_I_EPSILONS OR K_NO_O_EPSILONS OR K_I_LABEL_SORTED OR K_O_LABEL_SORTED OR
      K_UNWEIGHTED OR K_TOP_SORTED) in
    let outprops = (if (outprops AND K_TOP_SORTED) \<noteq> 0
          then outprops OR (K_ACYCLIC OR K_INITIAL_ACYCLIC) else outprops) in
    outprops)"

definition delete_states_properties :: "64 word \<Rightarrow> 64 word" where
  "delete_states_properties inprops =
   (inprops AND K_DELETE_STATES_PROPERTIES)"

definition delete_all_states_properties :: "64 word \<Rightarrow> 64 word \<Rightarrow> 64 word" where
  "delete_all_states_properties inprops static_props =
   (let outprops = inprops AND K_ERROR in
    outprops OR K_NULL_PROPERTIES OR static_props)"

definition delete_arcs_properties :: "64 word \<Rightarrow> 64 word" where
  "delete_arcs_properties inprops =
   (inprops AND K_DELETE_ARCS_PROPERTIES)"

definition closure_properties :: "64 word \<Rightarrow> bool \<Rightarrow> bool \<Rightarrow> 64 word" where
  "closure_properties inprops star delayed =
   (let outprops = (K_ERROR OR K_ACCEPTOR OR K_UNWEIGHTED OR K_ACCESSIBLE) AND inprops in
    let outprops = (if (inprops AND K_UNWEIGHTED) \<noteq> 0
          then outprops OR K_UNWEIGHTED_CYCLES else outprops) in
    let outprops = (if \<not> delayed
          then outprops OR ((K_EXPANDED OR K_MUTABLE OR K_CO_ACCESSIBLE OR K_NOT_TOP_SORTED OR
            K_NOT_STRING) AND inprops) else outprops) in
    let outprops = (if \<not> delayed \<or> (inprops AND K_ACCESSIBLE) \<noteq> 0 then
        let outprops = outprops OR ((K_NOT_ACCEPTOR OR K_NON_I_DETERMINISTIC OR
          K_NON_O_DETERMINISTIC OR K_NOT_I_LABEL_SORTED OR K_NOT_O_LABEL_SORTED OR K_WEIGHTED
          OR K_WEIGHTED_CYCLES OR K_NOT_ACCESSIBLE OR K_NOT_CO_ACCESSIBLE) AND inprops) in
        let outprops = (if (inprops AND K_WEIGHTED) \<noteq> 0 \<and> (inprops AND
          K_ACCESSIBLE) \<noteq> 0 \<and> (inprops AND K_CO_ACCESSIBLE) \<noteq> 0
              then outprops OR K_WEIGHTED_CYCLES else outprops) in
        outprops
      else outprops) in
    outprops)"

definition complement_properties :: "64 word \<Rightarrow> 64 word" where
  "complement_properties inprops =
   (let outprops = K_ACCEPTOR OR K_UNWEIGHTED OR K_UNWEIGHTED_CYCLES OR K_NO_EPSILONS OR
      K_NO_I_EPSILONS OR K_NO_O_EPSILONS OR K_I_DETERMINISTIC OR K_O_DETERMINISTIC OR
      K_ACCESSIBLE in
    let outprops = outprops OR ((K_ERROR OR K_I_LABEL_SORTED OR K_O_LABEL_SORTED OR
      K_INITIAL_CYCLIC) AND inprops) in
    let outprops = (if (inprops AND K_ACCESSIBLE) \<noteq> 0
          then outprops OR (K_NOT_I_LABEL_SORTED OR K_NOT_O_LABEL_SORTED OR K_CYCLIC) else
            outprops) in
    outprops)"

definition compose_properties :: "64 word \<Rightarrow> 64 word \<Rightarrow> 64 word" where
  "compose_properties inprops1 inprops2 =
   (let outprops = K_ERROR AND (inprops1 OR inprops2) in
    let outprops = (if (inprops1 AND K_ACCEPTOR) \<noteq> 0 \<and> (inprops2 AND K_ACCEPTOR)
      \<noteq> 0 then
        let outprops = outprops OR (K_ACCEPTOR OR K_ACCESSIBLE) in
        let outprops = outprops OR ((K_NO_EPSILONS OR K_NO_I_EPSILONS OR K_NO_O_EPSILONS OR
          K_ACYCLIC OR K_INITIAL_ACYCLIC) AND inprops1 AND inprops2) in
        let outprops = (if (K_NO_I_EPSILONS AND inprops1 AND inprops2) \<noteq> 0
              then outprops OR ((K_I_DETERMINISTIC OR K_O_DETERMINISTIC) AND inprops1 AND
                inprops2) else outprops) in
        outprops else
        let outprops = outprops OR K_ACCESSIBLE in
        let outprops = outprops OR ((K_ACCEPTOR OR K_NO_I_EPSILONS OR K_ACYCLIC OR
          K_INITIAL_ACYCLIC) AND inprops1 AND inprops2) in
        let outprops = (if (K_NO_I_EPSILONS AND inprops1 AND inprops2) \<noteq> 0
              then outprops OR (K_I_DETERMINISTIC AND inprops1 AND inprops2) else outprops) in
        outprops) in
    outprops)"

definition concat_properties :: "64 word \<Rightarrow> 64 word \<Rightarrow> bool \<Rightarrow> 64 word" where
  "concat_properties inprops1 inprops2 delayed =
   (let outprops = (K_ACCEPTOR OR K_UNWEIGHTED OR K_UNWEIGHTED_CYCLES OR K_ACYCLIC) AND
      inprops1 AND inprops2 in
    let outprops = outprops OR (K_ERROR AND (inprops1 OR inprops2)) in
    let empty1 = delayed in
    let empty2 = delayed in
    let outprops = (if \<not> delayed then
        let outprops = outprops OR ((K_EXPANDED OR K_MUTABLE OR K_NOT_TOP_SORTED OR
          K_NOT_STRING) AND inprops1) in
        let outprops = outprops OR ((K_NOT_TOP_SORTED OR K_NOT_STRING) AND inprops2) in
        outprops
      else outprops) in
    let outprops = (if \<not> empty1
          then outprops OR ((K_INITIAL_ACYCLIC OR K_INITIAL_CYCLIC) AND inprops1) else
            outprops) in
    let outprops = (if \<not> delayed \<or> (inprops1 AND K_ACCESSIBLE) \<noteq> 0
          then outprops OR ((K_NOT_ACCEPTOR OR K_NON_I_DETERMINISTIC OR K_NON_O_DETERMINISTIC
            OR K_EPSILONS OR K_I_EPSILONS OR K_O_EPSILONS OR K_NOT_I_LABEL_SORTED OR
            K_NOT_O_LABEL_SORTED OR K_WEIGHTED OR K_WEIGHTED_CYCLES OR K_CYCLIC OR
            K_NOT_ACCESSIBLE OR K_NOT_CO_ACCESSIBLE) AND inprops1) else outprops) in
    let outprops = (if (inprops1 AND (K_ACCESSIBLE OR K_CO_ACCESSIBLE)) = (K_ACCESSIBLE OR
      K_CO_ACCESSIBLE) \<and> \<not> empty1 then
        let outprops = outprops OR (K_ACCESSIBLE AND inprops2) in
        let outprops = (if \<not> empty2
              then outprops OR (K_CO_ACCESSIBLE AND inprops2) else outprops) in
        let outprops = (if \<not> delayed \<or> (inprops2 AND K_ACCESSIBLE) \<noteq> 0
              then outprops OR ((K_NOT_ACCEPTOR OR K_NON_I_DETERMINISTIC OR
                K_NON_O_DETERMINISTIC OR K_EPSILONS OR K_I_EPSILONS OR K_O_EPSILONS OR
                K_NOT_I_LABEL_SORTED OR K_NOT_O_LABEL_SORTED OR K_WEIGHTED OR K_WEIGHTED_CYCLES
                OR K_CYCLIC OR K_NOT_ACCESSIBLE OR K_NOT_CO_ACCESSIBLE) AND inprops2) else
                outprops) in
        outprops
      else outprops) in
    outprops)"

definition determinize_properties :: "64 word \<Rightarrow> bool \<Rightarrow> bool \<Rightarrow> 64 word" where
  "determinize_properties inprops has_subsequential_label distinct_psubsequential_labels =
   (let outprops = K_ACCESSIBLE in
    let outprops = (if (K_ACCEPTOR AND inprops) \<noteq> 0 \<or> ((K_NO_I_EPSILONS AND inprops)
      \<noteq> 0 \<and> distinct_psubsequential_labels) \<or> (has_subsequential_label \<and>
      distinct_psubsequential_labels)
          then outprops OR K_I_DETERMINISTIC else outprops) in
    let outprops = outprops OR ((K_ERROR OR K_ACCEPTOR OR K_ACYCLIC OR K_INITIAL_ACYCLIC OR
      K_CO_ACCESSIBLE OR K_STRING) AND inprops) in
    let outprops = (if (inprops AND K_NO_I_EPSILONS) \<noteq> 0 \<and>
      distinct_psubsequential_labels
          then outprops OR (K_NO_EPSILONS AND inprops) else outprops) in
    let outprops = (if (inprops AND K_ACCESSIBLE) \<noteq> 0
          then outprops OR ((K_I_EPSILONS OR K_O_EPSILONS OR K_CYCLIC) AND inprops) else
            outprops) in
    let outprops = (if (inprops AND K_ACCEPTOR) \<noteq> 0
          then outprops OR ((K_NO_I_EPSILONS OR K_NO_O_EPSILONS) AND inprops) else outprops) in
    let outprops = (if (inprops AND K_NO_I_EPSILONS) \<noteq> 0 \<and> has_subsequential_label
          then outprops OR K_NO_I_EPSILONS else outprops) in
    outprops)"

definition factor_weight_properties :: "64 word \<Rightarrow> 64 word" where
  "factor_weight_properties inprops =
   (let outprops = (K_EXPANDED OR K_MUTABLE OR K_ERROR OR K_ACCEPTOR OR K_ACYCLIC OR
      K_ACCESSIBLE OR K_CO_ACCESSIBLE) AND inprops in
    let outprops = (if (inprops AND K_ACCESSIBLE) \<noteq> 0
          then outprops OR ((K_NOT_ACCEPTOR OR K_NON_I_DETERMINISTIC OR K_NON_O_DETERMINISTIC
            OR K_EPSILONS OR K_I_EPSILONS OR K_O_EPSILONS OR K_CYCLIC OR K_NOT_I_LABEL_SORTED
            OR K_NOT_O_LABEL_SORTED) AND inprops) else outprops) in
    outprops)"

definition invert_properties :: "64 word \<Rightarrow> 64 word" where
  "invert_properties inprops =
   (let outprops = (K_EXPANDED OR K_MUTABLE OR K_ERROR OR K_ACCEPTOR OR K_NOT_ACCEPTOR OR
      K_EPSILONS OR K_NO_EPSILONS OR K_WEIGHTED OR K_UNWEIGHTED OR K_WEIGHTED_CYCLES OR
      K_UNWEIGHTED_CYCLES OR K_CYCLIC OR K_ACYCLIC OR K_INITIAL_CYCLIC OR K_INITIAL_ACYCLIC OR
      K_TOP_SORTED OR K_NOT_TOP_SORTED OR K_ACCESSIBLE OR K_NOT_ACCESSIBLE OR K_CO_ACCESSIBLE
      OR K_NOT_CO_ACCESSIBLE OR K_STRING OR K_NOT_STRING) AND inprops in
    let outprops = (if (K_I_DETERMINISTIC AND inprops) \<noteq> 0
          then outprops OR K_O_DETERMINISTIC else outprops) in
    let outprops = (if (K_NON_I_DETERMINISTIC AND inprops) \<noteq> 0
          then outprops OR K_NON_O_DETERMINISTIC else outprops) in
    let outprops = (if (K_O_DETERMINISTIC AND inprops) \<noteq> 0
          then outprops OR K_I_DETERMINISTIC else outprops) in
    let outprops = (if (K_NON_O_DETERMINISTIC AND inprops) \<noteq> 0
          then outprops OR K_NON_I_DETERMINISTIC else outprops) in
    let outprops = (if (K_I_EPSILONS AND inprops) \<noteq> 0
          then outprops OR K_O_EPSILONS else outprops) in
    let outprops = (if (K_NO_I_EPSILONS AND inprops) \<noteq> 0
          then outprops OR K_NO_O_EPSILONS else outprops) in
    let outprops = (if (K_O_EPSILONS AND inprops) \<noteq> 0
          then outprops OR K_I_EPSILONS else outprops) in
    let outprops = (if (K_NO_O_EPSILONS AND inprops) \<noteq> 0
          then outprops OR K_NO_I_EPSILONS else outprops) in
    let outprops = (if (K_I_LABEL_SORTED AND inprops) \<noteq> 0
          then outprops OR K_O_LABEL_SORTED else outprops) in
    let outprops = (if (K_NOT_I_LABEL_SORTED AND inprops) \<noteq> 0
          then outprops OR K_NOT_O_LABEL_SORTED else outprops) in
    let outprops = (if (K_O_LABEL_SORTED AND inprops) \<noteq> 0
          then outprops OR K_I_LABEL_SORTED else outprops) in
    let outprops = (if (K_NOT_O_LABEL_SORTED AND inprops) \<noteq> 0
          then outprops OR K_NOT_I_LABEL_SORTED else outprops) in
    outprops)"

definition project_properties :: "64 word \<Rightarrow> bool \<Rightarrow> 64 word" where
  "project_properties inprops project_input =
   (let outprops = K_ACCEPTOR in
    let outprops = outprops OR ((K_EXPANDED OR K_MUTABLE OR K_ERROR OR K_WEIGHTED OR
      K_UNWEIGHTED OR K_WEIGHTED_CYCLES OR K_UNWEIGHTED_CYCLES OR K_CYCLIC OR K_ACYCLIC OR
      K_INITIAL_CYCLIC OR K_INITIAL_ACYCLIC OR K_TOP_SORTED OR K_NOT_TOP_SORTED OR K_ACCESSIBLE
      OR K_NOT_ACCESSIBLE OR K_CO_ACCESSIBLE OR K_NOT_CO_ACCESSIBLE OR K_STRING OR
      K_NOT_STRING) AND inprops) in
    let outprops = (if project_input then
        let outprops = outprops OR ((K_I_DETERMINISTIC OR K_NON_I_DETERMINISTIC OR K_I_EPSILONS
          OR K_NO_I_EPSILONS OR K_I_LABEL_SORTED OR K_NOT_I_LABEL_SORTED) AND inprops) in
        let outprops = (if (K_I_DETERMINISTIC AND inprops) \<noteq> 0
              then outprops OR K_O_DETERMINISTIC else outprops) in
        let outprops = (if (K_NON_I_DETERMINISTIC AND inprops) \<noteq> 0
              then outprops OR K_NON_O_DETERMINISTIC else outprops) in
        let outprops = (if (K_I_EPSILONS AND inprops) \<noteq> 0
              then outprops OR (K_O_EPSILONS OR K_EPSILONS) else outprops) in
        let outprops = (if (K_NO_I_EPSILONS AND inprops) \<noteq> 0
              then outprops OR (K_NO_O_EPSILONS OR K_NO_EPSILONS) else outprops) in
        let outprops = (if (K_I_LABEL_SORTED AND inprops) \<noteq> 0
              then outprops OR K_O_LABEL_SORTED else outprops) in
        let outprops = (if (K_NOT_I_LABEL_SORTED AND inprops) \<noteq> 0
              then outprops OR K_NOT_O_LABEL_SORTED else outprops) in
        outprops else
        let outprops = outprops OR ((K_O_DETERMINISTIC OR K_NON_O_DETERMINISTIC OR K_O_EPSILONS
          OR K_NO_O_EPSILONS OR K_O_LABEL_SORTED OR K_NOT_O_LABEL_SORTED) AND inprops) in
        let outprops = (if (K_O_DETERMINISTIC AND inprops) \<noteq> 0
              then outprops OR K_I_DETERMINISTIC else outprops) in
        let outprops = (if (K_NON_O_DETERMINISTIC AND inprops) \<noteq> 0
              then outprops OR K_NON_I_DETERMINISTIC else outprops) in
        let outprops = (if (K_O_EPSILONS AND inprops) \<noteq> 0
              then outprops OR (K_I_EPSILONS OR K_EPSILONS) else outprops) in
        let outprops = (if (K_NO_O_EPSILONS AND inprops) \<noteq> 0
              then outprops OR (K_NO_I_EPSILONS OR K_NO_EPSILONS) else outprops) in
        let outprops = (if (K_O_LABEL_SORTED AND inprops) \<noteq> 0
              then outprops OR K_I_LABEL_SORTED else outprops) in
        let outprops = (if (K_NOT_O_LABEL_SORTED AND inprops) \<noteq> 0
              then outprops OR K_NOT_I_LABEL_SORTED else outprops) in
        outprops) in
    outprops)"

definition rand_gen_properties :: "64 word \<Rightarrow> bool \<Rightarrow> 64 word" where
  "rand_gen_properties inprops weighted =
   (let outprops = K_ACYCLIC OR K_INITIAL_ACYCLIC OR K_ACCESSIBLE OR K_UNWEIGHTED_CYCLES in
    let outprops = outprops OR (inprops AND K_ERROR) in
    let outprops = (if weighted then
        let outprops = outprops OR K_TOP_SORTED in
        let outprops = outprops OR ((K_ACCEPTOR OR K_NO_EPSILONS OR K_NO_I_EPSILONS OR
          K_NO_O_EPSILONS OR K_I_DETERMINISTIC OR K_O_DETERMINISTIC OR K_I_LABEL_SORTED OR
          K_O_LABEL_SORTED) AND inprops) in
        outprops else
        let outprops = outprops OR K_UNWEIGHTED in
        let outprops = outprops OR ((K_ACCEPTOR OR K_I_LABEL_SORTED OR K_O_LABEL_SORTED) AND
          inprops) in
        outprops) in
    outprops)"

definition replace_properties ::
  "64 word list \<Rightarrow> nat \<Rightarrow> bool \<Rightarrow> bool \<Rightarrow> bool \<Rightarrow> bool \<Rightarrow> bool \<Rightarrow> bool \<Rightarrow> bool \<Rightarrow> bool \<Rightarrow> bool \<Rightarrow>
   64 word" where
  "replace_properties inprops root epsilon_on_call epsilon_on_return out_epsilon_on_call
     out_epsilon_on_return replace_transducer no_empty_fsts all_ilabel_sorted
     all_olabel_sorted all_negative_or_dense =
   (if inprops = [] then K_NULL_PROPERTIES
    else
    let root_props = (case vget inprops root of None \<Rightarrow> 0 | Some p \<Rightarrow> p) in
    let outprops = fold (\<lambda>inprop outprops. outprops OR (K_ERROR AND inprop)) inprops 0 in
    let access_props = (if no_empty_fsts then K_ACCESSIBLE OR K_CO_ACCESSIBLE else 0) in
    let access_props =
      fold (\<lambda>inprop access_props. access_props AND (inprop AND (K_ACCESSIBLE OR K_CO_ACCESSIBLE)))
        inprops access_props in
    let outprops = (if access_props = (K_ACCESSIBLE OR K_CO_ACCESSIBLE) then
        let outprops = outprops OR access_props in
        let outprops = (if (root_props AND K_INITIAL_CYCLIC) \<noteq> 0
              then outprops OR K_INITIAL_CYCLIC else outprops) in
        let (props, str) =
          fold (\<lambda>inprop (props, str).
              let props = (if replace_transducer then props OR (K_NOT_ACCEPTOR AND inprop)
                           else props) in
              let props = props OR ((K_NON_I_DETERMINISTIC OR K_NON_O_DETERMINISTIC OR
                K_EPSILONS OR K_I_EPSILONS OR K_O_EPSILONS OR K_WEIGHTED OR K_WEIGHTED_CYCLES OR
                K_CYCLIC OR K_NOT_TOP_SORTED OR K_NOT_STRING) AND inprop) in
              (props, if (inprop AND K_STRING) = 0 then False else str))
            inprops (0, True) in
        let outprops = outprops OR props in
        let outprops = (if str then outprops OR K_STRING else outprops) in
        outprops
      else outprops) in
    let (acceptor, ideterministic, no_iepsilons, acyclic, unweighted) =
      fold (\<lambda>(i, inprop) (acceptor, ideterministic, no_iepsilons, acyclic, unweighted).
          let acceptor = (if (inprop AND K_ACCEPTOR) = 0 then False else acceptor) in
          let ideterministic = (if (inprop AND K_I_DETERMINISTIC) = 0 then False
                                else ideterministic) in
          let no_iepsilons = (if (inprop AND K_NO_I_EPSILONS) = 0 then False
                              else no_iepsilons) in
          let acyclic = (if (inprop AND K_ACYCLIC) = 0 then False else acyclic) in
          let unweighted = (if (inprop AND K_UNWEIGHTED) = 0 then False else unweighted) in
          let ideterministic = (if i \<noteq> root \<and> (inprop AND K_NO_I_EPSILONS) = 0 then False
                                else ideterministic) in
          (acceptor, ideterministic, no_iepsilons, acyclic, unweighted))
        (enumerate 0 inprops)
        (\<not> replace_transducer, \<not> epsilon_on_call \<and> epsilon_on_return,
         \<not> epsilon_on_call \<and> \<not> epsilon_on_return, True, True) in
    let outprops = (if acceptor then outprops OR K_ACCEPTOR else outprops) in
    let outprops = (if ideterministic then outprops OR K_I_DETERMINISTIC else outprops) in
    let outprops = (if no_iepsilons then outprops OR K_NO_I_EPSILONS else outprops) in
    let outprops = (if acyclic then outprops OR K_ACYCLIC else outprops) in
    let outprops = (if unweighted then outprops OR K_UNWEIGHTED else outprops) in
    let outprops = (if (root_props AND K_INITIAL_ACYCLIC) \<noteq> 0
          then outprops OR K_INITIAL_ACYCLIC else outprops) in
    let outprops = (if all_ilabel_sorted \<and> epsilon_on_return \<and>
                       (\<not> epsilon_on_call \<or> all_negative_or_dense)
          then outprops OR K_I_LABEL_SORTED else outprops) in
    let outprops = (if all_olabel_sorted \<and> out_epsilon_on_return \<and>
                       (\<not> out_epsilon_on_call \<or> all_negative_or_dense)
          then outprops OR K_O_LABEL_SORTED else outprops) in
    outprops)"

definition relabel_properties :: "64 word \<Rightarrow> 64 word" where
  "relabel_properties inprops =
   (let outprops = K_EXPANDED OR K_MUTABLE OR K_ERROR OR K_WEIGHTED OR K_UNWEIGHTED OR
      K_WEIGHTED_CYCLES OR K_UNWEIGHTED_CYCLES OR K_CYCLIC OR K_ACYCLIC OR K_INITIAL_CYCLIC OR
      K_INITIAL_ACYCLIC OR K_TOP_SORTED OR K_NOT_TOP_SORTED OR K_ACCESSIBLE OR K_NOT_ACCESSIBLE
      OR K_CO_ACCESSIBLE OR K_NOT_CO_ACCESSIBLE OR K_STRING OR K_NOT_STRING in
    outprops AND inprops)"

definition reverse_properties :: "64 word \<Rightarrow> bool \<Rightarrow> 64 word" where
  "reverse_properties inprops has_superinitial =
   (let outprops = (K_EXPANDED OR K_MUTABLE OR K_ERROR OR K_ACCEPTOR OR K_NOT_ACCEPTOR OR
      K_EPSILONS OR K_I_EPSILONS OR K_O_EPSILONS OR K_UNWEIGHTED OR K_CYCLIC OR K_ACYCLIC OR
      K_WEIGHTED_CYCLES OR K_UNWEIGHTED_CYCLES) AND inprops in
    let outprops = (if has_superinitial
          then outprops OR (K_WEIGHTED AND inprops) else outprops) in
    outprops)"

definition reweight_properties :: "64 word \<Rightarrow> bool \<Rightarrow> 64 word" where
  "reweight_properties inprops added_start_epsilon =
   (let outprops = inprops AND K_WEIGHT_INVARIANT_PROPERTIES in
    let outprops = outprops AND NOT K_CO_ACCESSIBLE in
    let outprops = (if added_start_epsilon then
        let outprops = outprops AND (NOT (K_NO_EPSILONS OR K_NO_I_EPSILONS OR K_NO_O_EPSILONS
          OR K_INITIAL_CYCLIC)) in
        let outprops = outprops OR (K_EPSILONS OR K_I_EPSILONS OR K_O_EPSILONS OR
          K_INITIAL_ACYCLIC) in
        outprops
      else outprops) in
    outprops)"

definition rm_epsilon_properties :: "64 word \<Rightarrow> bool \<Rightarrow> 64 word" where
  "rm_epsilon_properties inprops delayed =
   (let outprops = K_NO_EPSILONS in
    let outprops = outprops OR ((K_ERROR OR K_ACCEPTOR OR K_ACYCLIC OR K_INITIAL_ACYCLIC) AND
      inprops) in
    let outprops = (if (inprops AND K_ACCEPTOR) \<noteq> 0
          then outprops OR (K_NO_I_EPSILONS OR K_NO_O_EPSILONS) else outprops) in
    let outprops = (if \<not> delayed then
        let outprops = outprops OR (K_EXPANDED OR K_MUTABLE) in
        let outprops = outprops OR (K_TOP_SORTED AND inprops) in
        outprops
      else outprops) in
    let outprops = (if \<not> delayed \<or> (inprops AND K_ACCESSIBLE) \<noteq> 0
          then outprops OR (K_NOT_ACCEPTOR AND inprops) else outprops) in
    outprops)"

definition shortest_path_properties :: "64 word \<Rightarrow> bool \<Rightarrow> 64 word" where
  "shortest_path_properties props tree =
   (let outprops = props OR K_ACYCLIC OR K_INITIAL_ACYCLIC OR K_ACCESSIBLE OR
      K_UNWEIGHTED_CYCLES in
    let outprops = (if \<not> tree
          then outprops OR K_CO_ACCESSIBLE else outprops) in
    outprops)"

definition synchronize_properties :: "64 word \<Rightarrow> 64 word" where
  "synchronize_properties inprops =
   (let outprops = (K_ERROR OR K_ACCEPTOR OR K_ACYCLIC OR K_ACCESSIBLE OR K_CO_ACCESSIBLE OR
      K_UNWEIGHTED OR K_UNWEIGHTED_CYCLES) AND inprops in
    let outprops = (if (inprops AND K_ACCESSIBLE) \<noteq> 0
          then outprops OR ((K_CYCLIC OR K_NOT_CO_ACCESSIBLE OR K_WEIGHTED OR
            K_WEIGHTED_CYCLES) AND inprops) else outprops) in
    outprops)"

definition union_properties :: "64 word \<Rightarrow> 64 word \<Rightarrow> bool \<Rightarrow> 64 word" where
  "union_properties inprops1 inprops2 delayed =
   (let outprops = (K_ACCEPTOR OR K_UNWEIGHTED OR K_UNWEIGHTED_CYCLES OR K_ACYCLIC OR
      K_ACCESSIBLE) AND inprops1 AND inprops2 in
    let outprops = outprops OR (K_ERROR AND (inprops1 OR inprops2)) in
    let outprops = outprops OR K_INITIAL_ACYCLIC in
    let empty1 = delayed in
    let empty2 = delayed in
    let outprops = (if \<not> delayed then
        let outprops = outprops OR ((K_EXPANDED OR K_MUTABLE OR K_NOT_TOP_SORTED) AND inprops1)
          in
        let outprops = outprops OR (K_NOT_TOP_SORTED AND inprops2) in
        outprops
      else outprops) in
    let outprops = (if \<not> empty1 \<and> \<not> empty2 then
        let outprops = outprops OR (K_EPSILONS OR K_I_EPSILONS OR K_O_EPSILONS) in
        let outprops = outprops OR (K_CO_ACCESSIBLE AND inprops1 AND inprops2) in
        outprops
      else outprops) in
    let outprops = (if \<not> delayed \<or> (inprops1 AND K_ACCESSIBLE) \<noteq> 0
          then outprops OR ((K_NOT_ACCEPTOR OR K_NON_I_DETERMINISTIC OR K_NON_O_DETERMINISTIC
            OR K_EPSILONS OR K_I_EPSILONS OR K_O_EPSILONS OR K_NOT_I_LABEL_SORTED OR
            K_NOT_O_LABEL_SORTED OR K_WEIGHTED OR K_WEIGHTED_CYCLES OR K_CYCLIC OR
            K_NOT_ACCESSIBLE) AND inprops1) else outprops) in
    let outprops = (if \<not> delayed \<or> (inprops2 AND K_ACCESSIBLE) \<noteq> 0
          then outprops OR ((K_NOT_ACCEPTOR OR K_NON_I_DETERMINISTIC OR K_NON_O_DETERMINISTIC
            OR K_EPSILONS OR K_I_EPSILONS OR K_O_EPSILONS OR K_NOT_I_LABEL_SORTED OR
            K_NOT_O_LABEL_SORTED OR K_WEIGHTED OR K_WEIGHTED_CYCLES OR K_CYCLIC OR
            K_NOT_ACCESSIBLE OR K_NOT_CO_ACCESSIBLE) AND inprops2) else outprops) in
    outprops)"

definition property_names :: "string list" where
  "property_names =
     [''expanded'', ''mutable'', ''error'',
      '''', '''', '''', '''', '''', '''', '''', '''', '''', '''', '''', '''', '''',
      ''acceptor'', ''not acceptor'',
      ''input deterministic'', ''non input deterministic'',
      ''output deterministic'', ''non output deterministic'',
      ''input/output epsilons'', ''no input/output epsilons'',
      ''input epsilons'', ''no input epsilons'',
      ''output epsilons'', ''no output epsilons'',
      ''input label sorted'', ''not input label sorted'',
      ''output label sorted'', ''not output label sorted'',
      ''weighted'', ''unweighted'',
      ''cyclic'', ''acyclic'',
      ''cyclic at initial state'', ''acyclic at initial state'',
      ''top sorted'', ''not top sorted'',
      ''accessible'', ''not accessible'',
      ''coaccessible'', ''not coaccessible'',
      ''string'', ''not string'',
      ''weighted cycles'', ''unweighted cycles'']"

definition property_name :: "nat \<Rightarrow> string" where
  "property_name i = (case vget property_names i of None \<Rightarrow> '''' | Some n \<Rightarrow> n)"

definition known_properties :: "64 word \<Rightarrow> 64 word" where
  "known_properties props =
     K_BINARY_PROPERTIES OR (props AND K_TRINARY_PROPERTIES)
       OR push_bit 1 (props AND K_POS_TRINARY_PROPERTIES)
       OR drop_bit 1 (props AND K_NEG_TRINARY_PROPERTIES)"

definition incompatible_properties :: "64 word \<Rightarrow> 64 word \<Rightarrow> 64 word" where
  "incompatible_properties props1 props2 =
     (let known_props = known_properties props1 AND known_properties props2
      in (props1 AND known_props) XOR (props2 AND known_props))"

definition compat_properties :: "64 word \<Rightarrow> 64 word \<Rightarrow> bool" where
  "compat_properties props1 props2 = (incompatible_properties props1 props2 = 0)"

text \<open>The lines of the description, one per bit of the loop that is not skipped.\<close>

definition describe_incompatible_properties :: "64 word \<Rightarrow> 64 word \<Rightarrow> string" where
  "describe_incompatible_properties props1 props2 =
     (let incompat_props = incompatible_properties props1 props2;
          show_bool = (\<lambda>b. if b then ''true'' else ''false'')
      in fold (\<lambda>i description.
             let m = push_bit i (1 :: 64 word)
             in if (m AND incompat_props) = 0 then description
                else description @ property_name i @ '': '' @ show_bool (props1 AND m \<noteq> 0)
                       @ '' vs '' @ show_bool (props2 AND m \<noteq> 0) @ [CHR 0x0A])
           [0..<64] [])"

section \<open>Reading a word built by masks\<close>

lemmas word_bits = bit_and_iff bit_or_iff bit_not_iff bit_xor_iff

text \<open>The conditional updates of the property functions without their branches: an update that
  happens under a condition is a mask that is empty otherwise.\<close>

lemma cond_masks:
  fixes x :: "64 word"
  shows "(if c then x OR k else x) = x OR (if c then k else 0)"
    "(if c then x AND NOT k else x) = x AND NOT (if c then k else 0)"
    "(if c then let y = x OR k; z = y AND NOT m in z else x) =
       (x OR (if c then k else 0)) AND NOT (if c then m else 0)"
    "(if c then let y = x OR k; z = y AND NOT m; u = (z OR (if d then k' else 0)) AND
          NOT (if d then m' else 0) in u else x) =
       (((x OR (if c then k else 0)) AND NOT (if c then m else 0)) OR (if c \<and> d then k' else 0))
         AND NOT (if c \<and> d then m' else 0)"
    "(if c then let y = x AND NOT k; z = y AND NOT (if d then m else 0) in z else x) =
       (x AND NOT (if c then k else 0)) AND NOT (if c \<and> d then m else 0)"
  by (simp_all add: Let_def)

lemma bit_cond: "bit (if c then k else 0 :: 64 word) i \<longleftrightarrow> c \<and> bit k i"
  by simp

lemma cond_option:
  fixes x :: "64 word"
  shows "(case prev of Some b \<Rightarrow>
      let y = (x OR (if c b then k else 0)) AND NOT (if c b then m else 0);
          z = (y OR (if d b then k' else 0)) AND NOT (if d b then m' else 0) in z | None \<Rightarrow> x) =
    (((x OR (if \<exists>b. prev = Some b \<and> c b then k else 0)) AND NOT (if \<exists>b. prev = Some b \<and> c b then m else 0))
      OR (if \<exists>b. prev = Some b \<and> d b then k' else 0)) AND NOT (if \<exists>b. prev = Some b \<and> d b then m' else 0)"
  by (cases prev) (simp_all add: Let_def)

text \<open>Bit by bit what \<open>add_arc_properties\<close> leaves.\<close>

definition unsorted :: "('w arc \<Rightarrow> int) \<Rightarrow> 'w arc \<Rightarrow> 'w arc option \<Rightarrow> bool" where
  "unsorted l a prev \<longleftrightarrow> (\<exists>b. prev = Some b \<and> l a < l b)"

lemma unsorted_simps [simp]: "\<not> unsorted l a None" "unsorted l a (Some b) \<longleftrightarrow> l a < l b"
  by (simp_all add: unsorted_def)

lemma nontrivial_iff: "w \<noteq> 0 \<and> w \<noteq> 1 \<longleftrightarrow> \<not> is_trivial_weight w"
  by (simp add: is_trivial_weight_def)

lemma add_arc_bits:
  defines "b \<equiv> \<lambda>p s a prev. bit (add_arc_properties p s a prev)"
  shows "b p s a prev 16 \<longleftrightarrow> bit p 16 \<and> ilabel a = olabel a"
    "b p s a prev 17 \<longleftrightarrow> bit p 17 \<or> ilabel a \<noteq> olabel a"
    "b p s a prev 18 \<longleftrightarrow> False" "b p s a prev 19 \<longleftrightarrow> bit p 19"
    "b p s a prev 20 \<longleftrightarrow> False" "b p s a prev 21 \<longleftrightarrow> bit p 21"
    "b p s a prev 22 \<longleftrightarrow> bit p 22 \<or> ilabel a = epsilon \<and> olabel a = epsilon"
    "b p s a prev 23 \<longleftrightarrow> bit p 23 \<and> \<not> (ilabel a = epsilon \<and> olabel a = epsilon)"
    "b p s a prev 24 \<longleftrightarrow> bit p 24 \<or> ilabel a = epsilon"
    "b p s a prev 25 \<longleftrightarrow> bit p 25 \<and> ilabel a \<noteq> epsilon"
    "b p s a prev 26 \<longleftrightarrow> bit p 26 \<or> olabel a = epsilon"
    "b p s a prev 27 \<longleftrightarrow> bit p 27 \<and> olabel a \<noteq> epsilon"
    "b p s a prev 28 \<longleftrightarrow> bit p 28 \<and> \<not> unsorted ilabel a prev"
    "b p s a prev 29 \<longleftrightarrow> bit p 29 \<or> unsorted ilabel a prev"
    "b p s a prev 30 \<longleftrightarrow> bit p 30 \<and> \<not> unsorted olabel a prev"
    "b p s a prev 31 \<longleftrightarrow> bit p 31 \<or> unsorted olabel a prev"
    "b p s a prev 32 \<longleftrightarrow> bit p 32 \<or> \<not> is_trivial_weight (weight a)"
    "b p s a prev 33 \<longleftrightarrow> bit p 33 \<and> is_trivial_weight (weight a)"
    "b p s a prev 34 \<longleftrightarrow> bit p 34" "b p s a prev 35 \<longleftrightarrow> bit p 38 \<and> s < nextstate a"
    "b p s a prev 36 \<longleftrightarrow> bit p 36" "b p s a prev 37 \<longleftrightarrow> bit p 38 \<and> s < nextstate a"
    "b p s a prev 38 \<longleftrightarrow> bit p 38 \<and> s < nextstate a"
    "b p s a prev 39 \<longleftrightarrow> bit p 39 \<or> nextstate a \<le> s"
    "b p s a prev 40 \<longleftrightarrow> bit p 40" "b p s a prev 41 \<longleftrightarrow> False"
    "b p s a prev 42 \<longleftrightarrow> bit p 42" "b p s a prev 43 \<longleftrightarrow> False"
    "b p s a prev 44 \<longleftrightarrow> False" "b p s a prev 45 \<longleftrightarrow> False"
    "b p s a prev 46 \<longleftrightarrow> bit p 46" "b p s a prev 47 \<longleftrightarrow> False"
    "b p s a prev 0 \<longleftrightarrow> bit p 0" "b p s a prev 1 \<longleftrightarrow> bit p 1"
  unfolding b_def add_arc_properties_def
  unfolding cond_masks
  unfolding cond_masks
  unfolding cond_option unsorted_def [symmetric]
  unfolding Let_def mask_defs nontrivial_iff
  by (simp add: word_bits bit_cond not_le split del: if_split; blast?)+

lemma set_arc_bits:
  defines "b \<equiv> \<lambda>p old new. bit (set_arc_properties p old new)"
  shows "b p old new 16 \<longleftrightarrow> bit p 16 \<and> ilabel new = olabel new"
    "b p old new 17 \<longleftrightarrow> bit p 17 \<and> ilabel old = olabel old \<or> ilabel new \<noteq> olabel new"
    "b p old new 22 \<longleftrightarrow> bit p 22 \<and> \<not> (ilabel old = epsilon \<and> olabel old = epsilon) \<or>
       ilabel new = epsilon \<and> olabel new = epsilon"
    "b p old new 23 \<longleftrightarrow> bit p 23 \<and> \<not> (ilabel new = epsilon \<and> olabel new = epsilon)"
    "b p old new 24 \<longleftrightarrow> bit p 24 \<and> ilabel old \<noteq> epsilon \<or> ilabel new = epsilon"
    "b p old new 25 \<longleftrightarrow> bit p 25 \<and> ilabel new \<noteq> epsilon"
    "b p old new 26 \<longleftrightarrow> bit p 26 \<and> olabel old \<noteq> epsilon \<or> olabel new = epsilon"
    "b p old new 27 \<longleftrightarrow> bit p 27 \<and> olabel new \<noteq> epsilon"
    "b p old new 32 \<longleftrightarrow> bit p 32 \<and> is_trivial_weight (weight old) \<or>
       \<not> is_trivial_weight (weight new)"
    "b p old new 33 \<longleftrightarrow> bit p 33 \<and> is_trivial_weight (weight new)"
    "b p old new 0 \<longleftrightarrow> bit p 0" "b p old new 1 \<longleftrightarrow> bit p 1" "b p old new 2 \<longleftrightarrow> bit p 2"
  unfolding b_def set_arc_properties_def
  unfolding cond_masks
  unfolding cond_masks
  unfolding Let_def mask_defs
  by (simp add: word_bits bit_cond split del: if_split; blast?)+

lemma set_arc_bits_dropped:
  defines "b \<equiv> \<lambda>p old new. bit (set_arc_properties p old new)"
  shows "\<not> b p old new 18" "\<not> b p old new 19" "\<not> b p old new 20" "\<not> b p old new 21"
    "\<not> b p old new 28" "\<not> b p old new 29" "\<not> b p old new 30" "\<not> b p old new 31"
    "\<not> b p old new 34" "\<not> b p old new 35" "\<not> b p old new 36" "\<not> b p old new 37"
    "\<not> b p old new 38" "\<not> b p old new 39" "\<not> b p old new 40" "\<not> b p old new 41"
    "\<not> b p old new 42" "\<not> b p old new 43" "\<not> b p old new 44" "\<not> b p old new 45"
    "\<not> b p old new 46" "\<not> b p old new 47"
  unfolding b_def set_arc_properties_def
  unfolding cond_masks
  unfolding cond_masks
  unfolding Let_def mask_defs
  by (simp add: word_bits bit_cond split del: if_split)+

end
