(* ===== verification/VectorFst.thy ===== *)
theory VectorFst
  imports Properties
begin

text \<open>
  The mutable FST of \<open>fsts/vector_fst.rs\<close>: its states, the operations of \<open>Fst\<close>,
  \<open>ExpandedFst\<close> and \<open>MutableFst\<close> on it, and the property bits each of them leaves in the
  \<open>PropertyCache\<close> of \<open>fst.rs\<close>.  The cache is one word; its atomicity only matters for
  \<open>discover\<close> through a shared reference, which is modelled as the update it makes.  Symbol
  tables are a type variable here: the operations only store and hand them back.
\<close>

section \<open>States\<close>

record 'w vector_state =
  vs_final :: 'w
  vs_arcs :: "'w arc list"
  vs_niepsilons :: nat
  vs_noepsilons :: nat

definition vs_new :: "'w::{zero,one} vector_state" where
  "vs_new = \<lparr>vs_final = 0, vs_arcs = [], vs_niepsilons = 0, vs_noepsilons = 0\<rparr>"

lemma vs_new_sel [simp]:
  "vs_final vs_new = 0" "vs_arcs vs_new = []" "vs_niepsilons vs_new = 0" "vs_noepsilons vs_new = 0"
  by (simp_all add: vs_new_def)

definition increment_num_epsilons :: "'w vector_state \<Rightarrow> 'w arc \<Rightarrow> 'w vector_state" where
  "increment_num_epsilons v arc =
     (let v = (if ilabel arc = epsilon then v\<lparr>vs_niepsilons := vs_niepsilons v + 1\<rparr> else v) in
      if olabel arc = epsilon then v\<lparr>vs_noepsilons := vs_noepsilons v + 1\<rparr> else v)"

definition vs_add_arc :: "'w vector_state \<Rightarrow> 'w arc \<Rightarrow> 'w vector_state" where
  "vs_add_arc v arc =
     (let v = increment_num_epsilons v arc in v\<lparr>vs_arcs := vs_arcs v @ [arc]\<rparr>)"

text \<open>One step of the loop of \<open>delete_arcs_n\<close>; the counters are unsigned, so taking one from
  zero is an overflow.\<close>

definition vs_pop_arc :: "'w vector_state \<Rightarrow> 'w vector_state option" where
  "vs_pop_arc v =
     (if vs_arcs v = [] then None
      else do {
        let arc = last (vs_arcs v);
        let v = v\<lparr>vs_arcs := butlast (vs_arcs v)\<rparr>;
        v \<leftarrow> (if ilabel arc = epsilon
             then (if vs_niepsilons v = 0 then None
                   else Some (v\<lparr>vs_niepsilons := vs_niepsilons v - 1\<rparr>))
             else Some v);
        (if olabel arc = epsilon
         then (if vs_noepsilons v = 0 then None
               else Some (v\<lparr>vs_noepsilons := vs_noepsilons v - 1\<rparr>))
         else Some v) })"

fun vs_pop_arcs :: "nat \<Rightarrow> 'w vector_state \<Rightarrow> 'w vector_state option" where
  "vs_pop_arcs 0 v = Some v"
| "vs_pop_arcs (Suc k) v = do { v \<leftarrow> vs_pop_arc v; vs_pop_arcs k v }"

definition vs_delete_arcs_n :: "'w vector_state \<Rightarrow> nat \<Rightarrow> 'w vector_state option" where
  "vs_delete_arcs_n v n = (let count = min n (length (vs_arcs v)) in vs_pop_arcs count v)"

definition vs_delete_all_arcs :: "'w vector_state \<Rightarrow> 'w vector_state" where
  "vs_delete_all_arcs v = v\<lparr>vs_arcs := [], vs_niepsilons := 0, vs_noepsilons := 0\<rparr>"

section \<open>The FST\<close>

record ('w, 'sym) vector_fst =
  vf_states :: "'w vector_state list"
  vf_start :: "state_id option"
  vf_properties :: "64 word"
  vf_isymbols :: "'sym option"
  vf_osymbols :: "'sym option"

definition static_properties :: "64 word" where
  "static_properties = K_EXPANDED OR K_MUTABLE"

definition vf_new :: "('w::{zero,one}, 'sym) vector_fst" where
  "vf_new = \<lparr>vf_states = [], vf_start = None,
     vf_properties = K_NULL_PROPERTIES OR static_properties,
     vf_isymbols = None, vf_osymbols = None\<rparr>"

text \<open>\<open>PropertyCache::modify\<close> on the FST's own cache.\<close>

definition modify_properties ::
  "(64 word \<Rightarrow> 64 word) \<Rightarrow> ('w, 'sym) vector_fst \<Rightarrow> ('w, 'sym) vector_fst" where
  "modify_properties g f = f\<lparr>vf_properties := g (vf_properties f)\<rparr>"

definition cache_get_masked :: "64 word \<Rightarrow> 64 word \<Rightarrow> 64 word" where
  "cache_get_masked cache m = cache AND m"

definition cache_mark_error :: "64 word \<Rightarrow> 64 word" where
  "cache_mark_error cache = cache OR K_ERROR"

definition cache_discover :: "64 word \<Rightarrow> 64 word \<Rightarrow> 64 word \<Rightarrow> 64 word" where
  "cache_discover cache props m =
     (let known = known_properties (cache AND m);
          discovered = props AND m AND NOT known
      in if discovered \<noteq> 0 then cache OR discovered else cache)"

subsection \<open>Reading\<close>

definition vf_final_weight :: "('w::{zero,one}, 'sym) vector_fst \<Rightarrow> state_id \<Rightarrow> 'w" where
  "vf_final_weight f s = (case vget (vf_states f) s of None \<Rightarrow> 0 | Some v \<Rightarrow> vs_final v)"

definition vf_num_arcs :: "('w, 'sym) vector_fst \<Rightarrow> state_id \<Rightarrow> nat" where
  "vf_num_arcs f s = (case vget (vf_states f) s of None \<Rightarrow> 0 | Some v \<Rightarrow> length (vs_arcs v))"

definition num_input_epsilons :: "('w, 'sym) vector_fst \<Rightarrow> state_id \<Rightarrow> nat" where
  "num_input_epsilons f s = (case vget (vf_states f) s of None \<Rightarrow> 0 | Some v \<Rightarrow> vs_niepsilons v)"

definition num_output_epsilons :: "('w, 'sym) vector_fst \<Rightarrow> state_id \<Rightarrow> nat" where
  "num_output_epsilons f s = (case vget (vf_states f) s of None \<Rightarrow> 0 | Some v \<Rightarrow> vs_noepsilons v)"

definition vf_num_states :: "('w, 'sym) vector_fst \<Rightarrow> nat" where
  "vf_num_states f = length (vf_states f)"

definition vf_arcs :: "('w, 'sym) vector_fst \<Rightarrow> state_id \<Rightarrow> 'w arc list" where
  "vf_arcs f s = (case vget (vf_states f) s of None \<Rightarrow> [] | Some v \<Rightarrow> vs_arcs v)"

subsection \<open>Writing\<close>

definition set_start :: "('w, 'sym) vector_fst \<Rightarrow> state_id \<Rightarrow> ('w, 'sym) vector_fst" where
  "set_start f s =
     (let f = f\<lparr>vf_start := (if s \<noteq> no_state then Some s else None)\<rparr>
      in modify_properties set_start_properties f)"

definition set_final ::
  "('w::{zero,one}, 'sym) vector_fst \<Rightarrow> state_id \<Rightarrow> 'w \<Rightarrow> ('w, 'sym) vector_fst" where
  "set_final f s w =
     (case vget (vf_states f) s of
        None \<Rightarrow> f
      | Some v \<Rightarrow>
          let f = modify_properties (\<lambda>props. set_final_properties props (vs_final v) w) f
          in f\<lparr>vf_states := (vf_states f)[s := v\<lparr>vs_final := w\<rparr>]\<rparr>)"

definition set_properties ::
  "('w, 'sym) vector_fst \<Rightarrow> 64 word \<Rightarrow> 64 word \<Rightarrow> ('w, 'sym) vector_fst" where
  "set_properties f props m =
     modify_properties (\<lambda>current. (current AND (NOT m OR K_ERROR)) OR (props AND m)) f"

definition add_state :: "('w::{zero,one}, 'sym) vector_fst \<Rightarrow> ('w, 'sym) vector_fst \<times> state_id" where
  "add_state f =
     (let new_id = length (vf_states f);
          f = f\<lparr>vf_states := vf_states f @ [vs_new]\<rparr>
      in (modify_properties add_state_properties f, new_id))"

definition add_states :: "('w::{zero,one}, 'sym) vector_fst \<Rightarrow> nat \<Rightarrow> ('w, 'sym) vector_fst" where
  "add_states f n =
     (let f = f\<lparr>vf_states := vresize (length (vf_states f) + n) vs_new (vf_states f)\<rparr>
      in modify_properties add_state_properties f)"

definition update_properties_after_add_arc ::
  "('w::{zero,one}, 'sym) vector_fst \<Rightarrow> state_id \<Rightarrow> ('w, 'sym) vector_fst" where
  "update_properties_after_add_arc f s =
     (case vget (vf_states f) s of
        None \<Rightarrow> f
      | Some v \<Rightarrow>
          let num_arcs = length (vs_arcs v) in
          if num_arcs > 0 then
            let arc = vs_arcs v ! (num_arcs - 1);
                prev_arc = (if num_arcs \<ge> 2 then Some (vs_arcs v ! (num_arcs - 2)) else None)
            in modify_properties (\<lambda>props. add_arc_properties props s arc prev_arc) f
          else f)"

definition add_arc ::
  "('w::{zero,one}, 'sym) vector_fst \<Rightarrow> state_id \<Rightarrow> 'w arc \<Rightarrow> ('w, 'sym) vector_fst" where
  "add_arc f s arc =
     (case vget (vf_states f) s of
        None \<Rightarrow> f
      | Some v \<Rightarrow>
          update_properties_after_add_arc
            (f\<lparr>vf_states := (vf_states f)[s := vs_add_arc v arc]\<rparr>) s)"

definition delete_arcs_n ::
  "('w, 'sym) vector_fst \<Rightarrow> state_id \<Rightarrow> nat \<Rightarrow> ('w, 'sym) vector_fst option" where
  "delete_arcs_n f s n =
     (case vget (vf_states f) s of
        None \<Rightarrow> Some f
      | Some v \<Rightarrow> do {
          v \<leftarrow> vs_delete_arcs_n v n;
          Some (modify_properties delete_arcs_properties
            (f\<lparr>vf_states := (vf_states f)[s := v]\<rparr>)) })"

definition delete_arcs :: "('w, 'sym) vector_fst \<Rightarrow> state_id \<Rightarrow> ('w, 'sym) vector_fst" where
  "delete_arcs f s =
     (case vget (vf_states f) s of
        None \<Rightarrow> f
      | Some v \<Rightarrow> modify_properties delete_arcs_properties
          (f\<lparr>vf_states := (vf_states f)[s := vs_delete_all_arcs v]\<rparr>))"

definition delete_all_states :: "('w, 'sym) vector_fst \<Rightarrow> ('w, 'sym) vector_fst" where
  "delete_all_states f =
     modify_properties (\<lambda>props. delete_all_states_properties props static_properties)
       (f\<lparr>vf_states := [], vf_start := None\<rparr>)"

text \<open>Rearranging the arcs of a state through the slice of \<open>arcs_mut\<close>: the caller writes
  \<open>g\<close> of the slice, and neither bits nor counters change.\<close>

definition write_arcs_mut ::
  "('w, 'sym) vector_fst \<Rightarrow> state_id \<Rightarrow> ('w arc list \<Rightarrow> 'w arc list) \<Rightarrow> ('w, 'sym) vector_fst"
where
  "write_arcs_mut f s g =
     (case vget (vf_states f) s of
        None \<Rightarrow> f
      | Some v \<Rightarrow> f\<lparr>vf_states := (vf_states f)[s := v\<lparr>vs_arcs := g (vs_arcs v)\<rparr>]\<rparr>)"

text \<open>The loop of \<open>mutate_arcs\<close>: it rewrites the arcs one by one and folds
  \<open>set_arc_properties\<close> over the pairs of old and new arc.\<close>

fun mutate_arcs_loop ::
  "('w::{zero,one} arc \<Rightarrow> 'w arc) \<Rightarrow> 'w arc list \<Rightarrow> 64 word \<Rightarrow> 'w arc list \<times> 64 word" where
  "mutate_arcs_loop mutator [] props = ([], props)"
| "mutate_arcs_loop mutator (old # arcs) props =
     (let arc = mutator old;
          (arcs, props) = mutate_arcs_loop mutator arcs (set_arc_properties props old arc)
      in (arc # arcs, props))"

definition mutate_arcs ::
  "('w::{zero,one}, 'sym) vector_fst \<Rightarrow> state_id \<Rightarrow> ('w arc \<Rightarrow> 'w arc) \<Rightarrow> ('w, 'sym) vector_fst"
where
  "mutate_arcs f s mutator =
     (case vget (vf_states f) s of
        None \<Rightarrow> f
      | Some v \<Rightarrow>
          let (arcs, props) = mutate_arcs_loop mutator (vs_arcs v) (vf_properties f)
          in f\<lparr>vf_states := (vf_states f)[s := v\<lparr>vs_arcs := arcs\<rparr>], vf_properties := props\<rparr>)"

definition set_input_symbols ::
  "('w, 'sym) vector_fst \<Rightarrow> 'sym option \<Rightarrow> ('w, 'sym) vector_fst" where
  "set_input_symbols f syms = f\<lparr>vf_isymbols := syms\<rparr>"

definition set_output_symbols ::
  "('w, 'sym) vector_fst \<Rightarrow> 'sym option \<Rightarrow> ('w, 'sym) vector_fst" where
  "set_output_symbols f syms = f\<lparr>vf_osymbols := syms\<rparr>"

subsection \<open>Deleting states\<close>

text \<open>The three loops of \<open>delete_states\<close>: marking the deleted ids with the sentinel, moving
  the surviving states to the front while numbering them, and rewriting the arcs of one
  state in place.  The first two index vectors within their length by construction; the
  third indexes \<open>newid\<close> with the destination of an arc, which may be out of range.\<close>

definition mark_deleted :: "nat list \<Rightarrow> state_id list \<Rightarrow> nat list" where
  "mark_deleted newid dstates =
     fold (\<lambda>dstate newid. if dstate < length newid then newid[dstate := usize_max] else newid)
       dstates newid"

definition list_swap :: "'a list \<Rightarrow> nat \<Rightarrow> nat \<Rightarrow> 'a list" where
  "list_swap xs i j = xs[i := xs ! j, j := xs ! i]"

definition compact_step ::
  "nat \<Rightarrow> nat list \<times> 'a list \<times> nat \<Rightarrow> nat list \<times> 'a list \<times> nat" where
  "compact_step i = (\<lambda>(newid, states, nstates).
     if newid ! i \<noteq> usize_max
     then (newid[i := nstates],
           if i \<noteq> nstates then list_swap states i nstates else states, nstates + 1)
     else (newid, states, nstates))"

definition remap_step ::
  "nat list \<Rightarrow> nat \<Rightarrow> 'w arc list \<times> nat \<times> nat \<times> nat \<Rightarrow> ('w arc list \<times> nat \<times> nat \<times> nat) option"
where
  "remap_step newid j = (\<lambda>(arcs, valid_arcs, nieps, noeps). do {
     arc \<leftarrow> vget arcs j;
     t \<leftarrow> vget newid (nextstate arc);
     if t \<noteq> usize_max then do {
       let arc = arc_new (ilabel arc) (olabel arc) (weight arc) t;
       let nieps = (if ilabel arc = epsilon then nieps + 1 else nieps);
       let noeps = (if olabel arc = epsilon then noeps + 1 else noeps);
       arcs \<leftarrow> (if j \<noteq> valid_arcs then vset arcs valid_arcs arc else vset arcs j arc);
       Some (arcs, valid_arcs + 1, nieps, noeps) }
     else Some (arcs, valid_arcs, nieps, noeps) })"

definition remap_state :: "nat list \<Rightarrow> 'w vector_state \<Rightarrow> 'w vector_state option" where
  "remap_state newid v = do {
     (arcs, valid_arcs, nieps, noeps) \<leftarrow>
       ofold (remap_step newid) [0..<length (vs_arcs v)] (vs_arcs v, 0, 0, 0);
     Some (v\<lparr>vs_arcs := take valid_arcs arcs, vs_niepsilons := nieps, vs_noepsilons := noeps\<rparr>) }"

definition delete_states ::
  "('w, 'sym) vector_fst \<Rightarrow> state_id list \<Rightarrow> ('w, 'sym) vector_fst option" where
  "delete_states f dstates =
     (if dstates = [] then Some f
      else do {
        let newid = mark_deleted (replicate (length (vf_states f)) 0) dstates;
        let (newid, states, nstates) =
          fold compact_step [0..<length (vf_states f)] (newid, vf_states f, 0);
        let states = take nstates states;
        states \<leftarrow> ofold (\<lambda>i states. do {
            v \<leftarrow> vget states i;
            v \<leftarrow> remap_state newid v;
            vset states i v }) [0..<length states] states;
        start \<leftarrow> (case vf_start f of
            None \<Rightarrow> Some None
          | Some start_id \<Rightarrow> do {
              new_start \<leftarrow> vget newid start_id;
              Some (if new_start \<noteq> usize_max then Some new_start else None) });
        Some (modify_properties delete_states_properties
          (f\<lparr>vf_states := states, vf_start := start\<rparr>)) })"

end
