(* ===== verification/DeleteStates.thy ===== *)
theory DeleteStates
  imports VectorFst
begin

text \<open>
  What the three in-place loops of \<open>delete_states\<close> compute: the survivors move to the front
  in their old order, each is numbered by the survivors below it, and a state keeps exactly
  its arcs into survivors, redirected, with the counters recomputed.
\<close>

definition survivors :: "(nat \<Rightarrow> bool) \<Rightarrow> nat \<Rightarrow> nat list" where
  "survivors alive n = filter alive [0..<n]"

definition new_id :: "(nat \<Rightarrow> bool) \<Rightarrow> nat \<Rightarrow> nat" where
  "new_id alive s = length (survivors alive s)"

lemma survivors_Suc:
  "survivors alive (Suc i) = survivors alive i @ (if alive i then [i] else [])"
  by (simp add: survivors_def)

lemma new_id_0 [simp]: "new_id alive 0 = 0"
  by (simp add: new_id_def survivors_def)

lemma new_id_Suc [simp]: "new_id alive (Suc i) = new_id alive i + (if alive i then 1 else 0)"
  by (simp add: new_id_def survivors_Suc)

lemma new_id_mono: "s \<le> t \<Longrightarrow> new_id alive s \<le> new_id alive t"
  by (induction t) (auto simp: le_Suc_eq)

lemma new_id_le: "new_id alive i \<le> i"
  by (induction i) auto

lemma new_id_less: "s < t \<Longrightarrow> alive s \<Longrightarrow> new_id alive s < new_id alive t"
  using new_id_mono [of "Suc s" t alive] by simp

lemma new_id_less_iff: "alive s \<Longrightarrow> alive t \<Longrightarrow> new_id alive s < new_id alive t \<longleftrightarrow> s < t"
  by (metis new_id_less not_less_iff_gr_or_eq)

lemma new_id_inj: "alive s \<Longrightarrow> alive t \<Longrightarrow> new_id alive s = new_id alive t \<longleftrightarrow> s = t"
  by (metis new_id_less less_irrefl linorder_neqE_nat)

lemma survivors_nth_new_id: "s < n \<Longrightarrow> alive s \<Longrightarrow> survivors alive n ! new_id alive s = s"
proof (induction n)
  case (Suc n)
  show ?case
  proof (cases "s = n")
    case True
    with Suc.prems show ?thesis by (simp add: survivors_Suc nth_append new_id_def)
  next
    case False
    with Suc.prems have "s < n" by simp
    moreover have "new_id alive s < length (survivors alive n)"
      using new_id_less [of s n alive] \<open>s < n\<close> Suc.prems(2) by (simp add: new_id_def)
    ultimately show ?thesis using Suc by (simp add: survivors_Suc nth_append)
  qed
qed simp

lemma survivors_nth:
  assumes "j < length (survivors alive n)"
  shows "survivors alive n ! j < n \<and> alive (survivors alive n ! j) \<and>
    new_id alive (survivors alive n ! j) = j"
  using assms
proof (induction n)
  case (Suc n)
  then show ?case
    by (cases "alive n") (auto simp: survivors_Suc nth_append less_Suc_eq new_id_def)
qed (simp add: survivors_def)

section \<open>The loops\<close>

lemma mark_deleted_nth:
  "length (mark_deleted newid ds) = length newid \<and>
   (\<forall>i < length newid. mark_deleted newid ds ! i = (if i \<in> set ds then usize_max else newid ! i))"
  unfolding mark_deleted_def
  by (induction ds arbitrary: newid) (auto simp: nth_list_update)

lemma list_swap_simps [simp]: "length (list_swap xs i j) = length xs"
  by (simp add: list_swap_def)

lemma list_swap_nth:
  "i < length xs \<Longrightarrow> j < length xs \<Longrightarrow> t < length xs \<Longrightarrow>
   list_swap xs i j ! t = (if t = j then xs ! i else if t = i then xs ! j else xs ! t)"
  by (auto simp: list_swap_def nth_list_update)

definition compacted ::
  "(nat \<Rightarrow> bool) \<Rightarrow> 'a list \<Rightarrow> nat \<Rightarrow> nat list \<times> 'a list \<times> nat \<Rightarrow> bool" where
  "compacted alive xs i = (\<lambda>(newid, ys, k).
     length newid = length xs \<and> length ys = length xs \<and> k = new_id alive i \<and>
     (\<forall>j < length xs. newid ! j =
        (if \<not> alive j then usize_max else if j < i then new_id alive j else 0)) \<and>
     (\<forall>j < length xs. i \<le> j \<longrightarrow> ys ! j = xs ! j) \<and>
     (\<forall>j < k. ys ! j = xs ! (survivors alive i ! j)))"

lemma compact_step_inv:
  assumes "i < length xs" "compacted alive xs i t"
  shows "compacted alive xs (Suc i) (compact_step i t)"
proof -
  obtain newid ys k where t: "t = (newid, ys, k)" by (cases t) auto
  have k: "k \<le> i" "k = new_id alive i" "length ys = length xs" "length newid = length xs"
    using assms(2) t by (auto simp: compacted_def new_id_le)
  have ids: "newid ! j = (if \<not> alive j then usize_max else if j < i then new_id alive j else 0)"
    if "j < length xs" for j using assms(2) t that by (auto simp: compacted_def)
  have later: "ys ! j = xs ! j" if "j < length xs" "i \<le> j" for j
    using assms(2) t that by (auto simp: compacted_def)
  have front: "ys ! j = xs ! (survivors alive i ! j)" if "j < k" for j
    using assms(2) t that by (auto simp: compacted_def)
  show ?thesis
  proof (cases "alive i")
    case False
    then show ?thesis using assms t ids [OF assms(1)]
      by (auto simp: compacted_def compact_step_def survivors_Suc less_Suc_eq)
  next
    case True
    let ?zs = "if i \<noteq> k then list_swap ys i k else ys"
    have swap: "?zs ! j = (if j = k then xs ! i else if j = i then ys ! k else ys ! j)"
      if "j < length xs" for j
      using that assms(1) k later [of i] by (auto simp: list_swap_nth)
    have len: "length (survivors alive i) = k" using k(2) by (simp add: new_id_def)
    have "compact_step i t = (newid[i := k], ?zs, k + 1)"
      using t True ids [OF assms(1)] by (auto simp: compact_step_def)
    moreover have "?zs ! j = xs ! (survivors alive (Suc i) ! j)" if "j < k + 1" for j
      using that swap [of j] assms(1) k front [of j] len True
      by (auto simp: survivors_Suc nth_append)
    moreover have "?zs ! j = xs ! j" if "Suc i \<le> j" "j < length xs" for j
      using that swap [of j] k later [of j] by auto
    moreover have "newid[i := k] ! j =
        (if \<not> alive j then usize_max else if j < Suc i then new_id alive j else 0)"
      if "j < length xs" for j
      using that assms(1) ids [of j] k True by (auto simp: nth_list_update)
    ultimately show ?thesis
      using k True assms(1) by (simp add: compacted_def)
  qed
qed

lemma compact_states:
  assumes "\<And>i. alive i \<longleftrightarrow> i \<notin> set ds"
    "fold compact_step [0..<length xs] (mark_deleted (replicate (length xs) 0) ds, xs, 0) =
       (newid, ys, k)"
  shows "k = new_id alive (length xs)" "length newid = length xs"
    "\<And>j. j < length xs \<Longrightarrow> newid ! j = (if alive j then new_id alive j else usize_max)"
    "take k ys = map ((!) xs) (survivors alive (length xs))"
proof -
  have "compacted alive xs 0 (mark_deleted (replicate (length xs) 0) ds, xs, 0)"
    using mark_deleted_nth [of "replicate (length xs) 0" ds] assms(1)
    by (auto simp: compacted_def)
  then have c: "compacted alive xs (length xs) (newid, ys, k)"
    unfolding assms(2) [symmetric] by (rule fold_upt_inv) (rule compact_step_inv)
  then show "k = new_id alive (length xs)" "length newid = length xs"
    "\<And>j. j < length xs \<Longrightarrow> newid ! j = (if alive j then new_id alive j else usize_max)"
    by (auto simp: compacted_def)
  show "take k ys = map ((!) xs) (survivors alive (length xs))"
    by (rule nth_equalityI)
       (use c new_id_le [of alive "length xs"] in \<open>auto simp: compacted_def new_id_def\<close>)
qed

definition retarget :: "(nat \<Rightarrow> nat) \<Rightarrow> 'w arc \<Rightarrow> 'w arc" where
  "retarget g a = arc_new (ilabel a) (olabel a) (weight a) (g (nextstate a))"

lemma retarget_sel [simp]:
  "ilabel (retarget g a) = ilabel a" "olabel (retarget g a) = olabel a"
  "weight (retarget g a) = weight a" "nextstate (retarget g a) = g (nextstate a)"
  by (simp_all add: retarget_def)

definition live_arcs :: "(nat \<Rightarrow> bool) \<Rightarrow> 'w arc list \<Rightarrow> 'w arc list" where
  "live_arcs alive arcs = map (retarget (new_id alive)) (filter (\<lambda>a. alive (nextstate a)) arcs)"

definition count_ieps :: "'w arc list \<Rightarrow> nat" where
  "count_ieps arcs = length (filter (\<lambda>a. ilabel a = epsilon) arcs)"

definition count_oeps :: "'w arc list \<Rightarrow> nat" where
  "count_oeps arcs = length (filter (\<lambda>a. olabel a = epsilon) arcs)"

lemma count_eps_append [simp]:
  "count_ieps (xs @ ys) = count_ieps xs + count_ieps ys"
  "count_oeps (xs @ ys) = count_oeps xs + count_oeps ys"
  by (simp_all add: count_ieps_def count_oeps_def)

lemma count_eps_Nil [simp]: "count_ieps [] = 0" "count_oeps [] = 0"
  by (simp_all add: count_ieps_def count_oeps_def)

lemma count_eps_single [simp]:
  "count_ieps [a] = (if ilabel a = epsilon then 1 else 0)"
  "count_oeps [a] = (if olabel a = epsilon then 1 else 0)"
  by (simp_all add: count_ieps_def count_oeps_def)

definition remapped ::
  "(nat \<Rightarrow> bool) \<Rightarrow> 'w arc list \<Rightarrow> nat \<Rightarrow> 'w arc list \<times> nat \<times> nat \<times> nat \<Rightarrow> bool" where
  "remapped alive arcs0 j = (\<lambda>(arcs, valid, nieps, noeps).
     let done = live_arcs alive (take j arcs0) in
     length arcs = length arcs0 \<and> valid = length done \<and> valid \<le> j \<and> take valid arcs = done \<and>
     drop j arcs = drop j arcs0 \<and> nieps = count_ieps done \<and> noeps = count_oeps done)"

lemma live_arcs_snoc:
  "live_arcs alive (xs @ [a]) = live_arcs alive xs @
     (if alive (nextstate a) then [retarget (new_id alive) a] else [])"
  by (simp add: live_arcs_def)

lemma remap_step_inv:
  assumes j: "j < length arcs0"
    and newid: "\<And>t. t < length newid \<Longrightarrow> newid ! t = (if alive t then new_id alive t else usize_max)"
    and small: "length newid < usize_max"
    and dest: "\<forall>a \<in> set arcs0. nextstate a < length newid"
    and inv: "remapped alive arcs0 j st"
  shows "\<exists>u. remap_step newid j st = Some u \<and> remapped alive arcs0 (Suc j) u"
proof -
  obtain arcs valid ni no where st: "st = (arcs, valid, ni, no)" by (cases st) auto
  let ?done = "live_arcs alive (take j arcs0)"
  have i: "length arcs = length arcs0" "valid = length ?done" "valid \<le> j" "take valid arcs = ?done"
    "drop j arcs = drop j arcs0" "ni = count_ieps ?done" "no = count_oeps ?done"
    using inv st by (auto simp: remapped_def Let_def)
  have a: "arcs ! j = arcs0 ! j"
    using i(1,5) j by (metis Cons_nth_drop_Suc list.inject)
  have rest: "drop (Suc j) arcs = drop (Suc j) arcs0"
    using i(5) by (metis drop_Suc tl_drop)
  define arc where "arc = arcs0 ! j"
  have d: "nextstate arc < length newid" using dest j by (simp add: arc_def)
  have snoc: "live_arcs alive (take (Suc j) arcs0) = ?done @
      (if alive (nextstate arc) then [retarget (new_id alive) arc] else [])"
    using j by (simp add: take_Suc_conv_app_nth live_arcs_snoc arc_def)
  show ?thesis
  proof (cases "alive (nextstate arc)")
    case False
    then show ?thesis
      using i a d newid [OF d] rest snoc j
      by (simp add: st remap_step_def remapped_def arc_def)
  next
    case True
    let ?b = "retarget (new_id alive) arc"
    have ne: "newid ! nextstate arc = new_id alive (nextstate arc)"
        "newid ! nextstate arc \<noteq> usize_max"
      using newid [OF d] True new_id_le [of alive "nextstate arc"] d small by auto
    have "remap_step newid j st = Some (arcs[valid := ?b], valid + 1,
        (if ilabel arc = epsilon then ni + 1 else ni), (if olabel arc = epsilon then no + 1 else no))"
      using a d ne j i(1,3)
      by (auto simp: st remap_step_def arc_def [symmetric] retarget_def Let_def)
    moreover have "take (Suc valid) (arcs[valid := ?b]) = ?done @ [?b]"
      using i j by (simp add: take_Suc_conv_app_nth)
    moreover have "drop (Suc j) (arcs[valid := ?b]) = drop (Suc j) arcs0"
      using rest i(3) by simp
    ultimately show ?thesis
      using snoc True i j by (simp add: remapped_def)
  qed
qed

lemma remap_state_run:
  assumes "\<And>t. t < length newid \<Longrightarrow> newid ! t = (if alive t then new_id alive t else usize_max)"
    and "length newid < usize_max"
    and "\<forall>a \<in> set (vs_arcs v). nextstate a < length newid"
  shows "remap_state newid v = Some (v\<lparr>vs_arcs := live_arcs alive (vs_arcs v),
    vs_niepsilons := count_ieps (live_arcs alive (vs_arcs v)),
    vs_noepsilons := count_oeps (live_arcs alive (vs_arcs v))\<rparr>)"
proof -
  have "remapped alive (vs_arcs v) 0 (vs_arcs v, 0, 0, 0)"
    by (simp add: remapped_def live_arcs_def)
  then have "\<exists>u. ofold (remap_step newid) [0..<length (vs_arcs v)] (vs_arcs v, 0, 0, 0) = Some u \<and>
      remapped alive (vs_arcs v) (length (vs_arcs v)) u"
    by (rule ofold_upt_inv) (rule remap_step_inv [OF _ assms])
  then show ?thesis by (auto simp: remap_state_def remapped_def Let_def)
qed

section \<open>The operation\<close>

text \<open>The well-formedness \<open>delete_states\<close> needs in order not to panic: arcs and the start
  lead to states that exist.\<close>

definition vf_closed :: "('w, 'sym) vector_fst \<Rightarrow> bool" where
  "vf_closed f \<longleftrightarrow> length (vf_states f) < usize_max \<and>
     (\<forall>v \<in> set (vf_states f). \<forall>a \<in> set (vs_arcs v). nextstate a < length (vf_states f)) \<and>
     (\<forall>s. vf_start f = Some s \<longrightarrow> s < length (vf_states f))"

definition live_state :: "(nat \<Rightarrow> bool) \<Rightarrow> 'w vector_state \<Rightarrow> 'w vector_state" where
  "live_state alive v = (let arcs = live_arcs alive (vs_arcs v) in
     v\<lparr>vs_arcs := arcs, vs_niepsilons := count_ieps arcs, vs_noepsilons := count_oeps arcs\<rparr>)"

text \<open>The reference: the induced sub-automaton on the survivors.\<close>

definition induced :: "(nat \<Rightarrow> bool) \<Rightarrow> ('w, 'sym) vector_fst \<Rightarrow> ('w, 'sym) vector_fst" where
  "induced alive f =
     f\<lparr>vf_states := map (\<lambda>s. live_state alive (vf_states f ! s))
          (survivors alive (length (vf_states f))),
       vf_start := (case vf_start f of None \<Rightarrow> None
          | Some s \<Rightarrow> if alive s then Some (new_id alive s) else None)\<rparr>"

lemma remap_all_run:
  assumes "\<And>v. v \<in> set xs \<Longrightarrow> remap_state newid v = Some (g v)"
  shows "ofold (\<lambda>i states. do {
            v \<leftarrow> vget states i;
            v \<leftarrow> remap_state newid v;
            vset states i v }) [0..<length xs] xs = Some (map g xs)"
proof -
  let ?P = "\<lambda>i ys. length ys = length xs \<and>
    (\<forall>j < length xs. ys ! j = (if j < i then g (xs ! j) else xs ! j))"
  let ?body = "\<lambda>i states. do {
            v \<leftarrow> vget states i;
            v \<leftarrow> remap_state newid v;
            vset states i v }"
  have step: "\<exists>u. ?body i t = Some u \<and> ?P (Suc i) u" if "i < length xs" "?P i t" for i t
    using that assms [of "xs ! i"] by (auto simp: nth_list_update)
  have "?P 0 xs" by simp
  then have "\<exists>t. ofold ?body [0..<length xs] xs = Some t \<and> ?P (length xs) t"
    by (rule ofold_upt_inv [where P = ?P]) (rule step)
  then obtain t where t: "ofold ?body [0..<length xs] xs = Some t" "?P (length xs) t" by blast
  have "t = map g xs" using t(2) by (intro nth_equalityI) simp_all
  with t(1) show ?thesis by (simp only:)
qed

lemma delete_states_run:
  assumes "vf_closed f" "dstates \<noteq> []"
  shows "delete_states f dstates =
    Some (modify_properties delete_states_properties (induced (\<lambda>s. s \<notin> set dstates) f))"
proof -
  let ?alive = "\<lambda>s. s \<notin> set dstates" and ?n = "length (vf_states f)"
  obtain newid ys k where fold:
    "fold compact_step [0..<?n] (mark_deleted (replicate ?n 0) dstates, vf_states f, 0) =
       (newid, ys, k)" by (metis surj_pair)
  note c = compact_states [of ?alive dstates "vf_states f", OF refl fold]
  have "remap_state newid v = Some (live_state ?alive v)" if "v \<in> set (take k ys)" for v
  proof -
    have "v \<in> set (vf_states f)"
      using that unfolding c(4) by (auto dest!: in_set_conv_nth [THEN iffD1] simp: survivors_def)
    then show ?thesis
      using remap_state_run [of newid ?alive v] c(2,3) assms(1)
      by (auto simp: vf_closed_def live_state_def Let_def)
  qed
  then have "ofold (\<lambda>i states. do {
            v \<leftarrow> vget states i;
            v \<leftarrow> remap_state newid v;
            vset states i v }) [0..<length (take k ys)] (take k ys) =
      Some (map (live_state ?alive) (take k ys))"
    by (rule remap_all_run)
  moreover have "map (live_state ?alive) (take k ys) =
      vf_states (induced ?alive f)"
    unfolding c(4) by (simp add: induced_def)
  moreover have "(case vf_start f of
            None \<Rightarrow> Some None
          | Some start_id \<Rightarrow> do {
              new_start \<leftarrow> vget newid start_id;
              Some (if new_start \<noteq> usize_max then Some new_start else None) }) =
      Some (vf_start (induced ?alive f))"
    using assms(1) c(2,3) new_id_le [of ?alive "the (vf_start f)"]
    by (auto simp: induced_def vf_closed_def split: option.splits)
  ultimately show ?thesis
    using assms(2) fold
    by (simp add: delete_states_def modify_properties_def induced_def del: length_take)
qed

end
