(* ===== verification/PropertySound.thy ===== *)
theory PropertySound
  imports DeleteStates "HOL-Library.Sublist"
begin

text \<open>
  What the property bits claim of an FST, and that the operations of \<open>VectorFst\<close> keep every
  claim of the cached word true.  The claims are those of the descriptions in
  \<open>properties.rs\<close> and of the scan in \<open>algorithms/test_properties.rs\<close>: a bit of a pair
  claims a property, its partner the negation.
\<close>

section \<open>The meaning of the bits\<close>

type_synonym 'w states = "'w vector_state list"

definition arcs_of :: "'w states \<Rightarrow> nat \<Rightarrow> 'w arc list" where
  "arcs_of ss s = (if s < length ss then vs_arcs (ss ! s) else [])"

definition edges :: "'w states \<Rightarrow> (nat \<times> nat) set" where
  "edges ss = {(s, nextstate a) |s a. a \<in> set (arcs_of ss s)}"

definition all_arcs :: "'w states \<Rightarrow> ('w arc \<Rightarrow> bool) \<Rightarrow> bool" where
  "all_arcs ss P \<longleftrightarrow> (\<forall>s. \<forall>a \<in> set (arcs_of ss s). P a)"

definition each_state :: "'w states \<Rightarrow> ('w arc list \<Rightarrow> bool) \<Rightarrow> bool" where
  "each_state ss P \<longleftrightarrow> (\<forall>s. P (arcs_of ss s))"

definition is_acceptor :: "'w states \<Rightarrow> bool" where
  "is_acceptor ss \<longleftrightarrow> all_arcs ss (\<lambda>a. ilabel a = olabel a)"

definition has_epsilons :: "'w states \<Rightarrow> bool" where
  "has_epsilons ss \<longleftrightarrow> \<not> all_arcs ss (\<lambda>a. \<not> (ilabel a = epsilon \<and> olabel a = epsilon))"

definition has_iepsilons :: "'w states \<Rightarrow> bool" where
  "has_iepsilons ss \<longleftrightarrow> \<not> all_arcs ss (\<lambda>a. ilabel a \<noteq> epsilon)"

definition has_oepsilons :: "'w states \<Rightarrow> bool" where
  "has_oepsilons ss \<longleftrightarrow> \<not> all_arcs ss (\<lambda>a. olabel a \<noteq> epsilon)"

definition i_deterministic :: "'w states \<Rightarrow> bool" where
  "i_deterministic ss \<longleftrightarrow> each_state ss (\<lambda>as. distinct (map ilabel as))"

definition o_deterministic :: "'w states \<Rightarrow> bool" where
  "o_deterministic ss \<longleftrightarrow> each_state ss (\<lambda>as. distinct (map olabel as))"

definition i_label_sorted :: "'w states \<Rightarrow> bool" where
  "i_label_sorted ss \<longleftrightarrow> each_state ss (\<lambda>as. sorted (map ilabel as))"

definition o_label_sorted :: "'w states \<Rightarrow> bool" where
  "o_label_sorted ss \<longleftrightarrow> each_state ss (\<lambda>as. sorted (map olabel as))"

definition is_weighted :: "'w::{zero,one} states \<Rightarrow> bool" where
  "is_weighted ss \<longleftrightarrow> \<not> (all_arcs ss (\<lambda>a. is_trivial_weight (weight a)) \<and>
     (\<forall>s < length ss. is_trivial_weight (vs_final (ss ! s))))"

definition is_cyclic :: "'w states \<Rightarrow> bool" where
  "is_cyclic ss \<longleftrightarrow> (\<exists>s. (s, s) \<in> (edges ss)\<^sup>+)"

definition is_initial_cyclic :: "'w states \<Rightarrow> nat option \<Rightarrow> bool" where
  "is_initial_cyclic ss start \<longleftrightarrow> (\<exists>s. start = Some s \<and> (s, s) \<in> (edges ss)\<^sup>+)"

definition is_top_sorted :: "'w states \<Rightarrow> bool" where
  "is_top_sorted ss \<longleftrightarrow> (\<forall>(s, t) \<in> edges ss. s < t)"

definition is_accessible :: "'w states \<Rightarrow> nat option \<Rightarrow> bool" where
  "is_accessible ss start \<longleftrightarrow>
     (\<forall>s < length ss. \<exists>q. start = Some q \<and> (q, s) \<in> (edges ss)\<^sup>*)"

definition is_coaccessible :: "'w::{zero,one} states \<Rightarrow> bool" where
  "is_coaccessible ss \<longleftrightarrow>
     (\<forall>s < length ss. \<exists>t < length ss. vs_final (ss ! t) \<noteq> 0 \<and> (s, t) \<in> (edges ss)\<^sup>*)"

definition is_string :: "'w::{zero,one} states \<Rightarrow> nat option \<Rightarrow> bool" where
  "is_string ss start \<longleftrightarrow>
     (start = None \<or> start = Some 0) \<and> (\<forall>(s, t) \<in> edges ss. t = Suc s) \<and>
     (\<forall>s < length ss. if vs_final (ss ! s) \<noteq> 0 then Suc s = length ss
                      else length (vs_arcs (ss ! s)) = 1)"

definition has_weighted_cycles :: "'w::{zero,one} states \<Rightarrow> bool" where
  "has_weighted_cycles ss \<longleftrightarrow>
     (\<exists>s. \<exists>a \<in> set (arcs_of ss s). (nextstate a, s) \<in> (edges ss)\<^sup>* \<and> \<not> is_trivial_weight (weight a))"

text \<open>The two bits of a pair, read as claims about the same property.\<close>

definition claims :: "64 word \<Rightarrow> 64 word \<Rightarrow> 64 word \<Rightarrow> bool \<Rightarrow> bool" where
  "claims p pos neg P \<longleftrightarrow> (p AND pos \<noteq> 0 \<longrightarrow> P) \<and> (p AND neg \<noteq> 0 \<longrightarrow> \<not> P)"

definition sound :: "64 word \<Rightarrow> 'w::{zero,one} states \<Rightarrow> nat option \<Rightarrow> bool" where
  "sound p ss start \<longleftrightarrow>
     claims p K_ACCEPTOR K_NOT_ACCEPTOR (is_acceptor ss) \<and>
     claims p K_I_DETERMINISTIC K_NON_I_DETERMINISTIC (i_deterministic ss) \<and>
     claims p K_O_DETERMINISTIC K_NON_O_DETERMINISTIC (o_deterministic ss) \<and>
     claims p K_EPSILONS K_NO_EPSILONS (has_epsilons ss) \<and>
     claims p K_I_EPSILONS K_NO_I_EPSILONS (has_iepsilons ss) \<and>
     claims p K_O_EPSILONS K_NO_O_EPSILONS (has_oepsilons ss) \<and>
     claims p K_I_LABEL_SORTED K_NOT_I_LABEL_SORTED (i_label_sorted ss) \<and>
     claims p K_O_LABEL_SORTED K_NOT_O_LABEL_SORTED (o_label_sorted ss) \<and>
     claims p K_WEIGHTED K_UNWEIGHTED (is_weighted ss) \<and>
     claims p K_CYCLIC K_ACYCLIC (is_cyclic ss) \<and>
     claims p K_INITIAL_CYCLIC K_INITIAL_ACYCLIC (is_initial_cyclic ss start) \<and>
     claims p K_TOP_SORTED K_NOT_TOP_SORTED (is_top_sorted ss) \<and>
     claims p K_ACCESSIBLE K_NOT_ACCESSIBLE (is_accessible ss start) \<and>
     claims p K_CO_ACCESSIBLE K_NOT_CO_ACCESSIBLE (is_coaccessible ss) \<and>
     claims p K_STRING K_NOT_STRING (is_string ss start) \<and>
     claims p K_WEIGHTED_CYCLES K_UNWEIGHTED_CYCLES (has_weighted_cycles ss)"

lemmas claim_bits = claims_def sound_def

definition vf_sound :: "('w::{zero,one}, 'sym) vector_fst \<Rightarrow> bool" where
  "vf_sound f \<longleftrightarrow> sound (vf_properties f) (vf_states f) (vf_start f)"

lemma arcs_of_simps [simp]:
  "s < length ss \<Longrightarrow> arcs_of ss s = vs_arcs (ss ! s)"
  "length ss \<le> s \<Longrightarrow> arcs_of ss s = []"
  by (simp_all add: arcs_of_def)

lemma arcs_of_update:
  "arcs_of (ss[s := v]) t = (if t = s \<and> s < length ss then vs_arcs v else arcs_of ss t)"
  by (auto simp: arcs_of_def nth_list_update)

lemma edges_iff: "(s, t) \<in> edges ss \<longleftrightarrow> (\<exists>a \<in> set (arcs_of ss s). nextstate a = t)"
  by (auto simp: edges_def)

lemma top_sorted_trancl: "(s, t) \<in> (edges ss)\<^sup>+ \<Longrightarrow> is_top_sorted ss \<Longrightarrow> s < t"
  by (induction rule: trancl_induct) (auto simp: is_top_sorted_def)

lemma top_sorted_acyclic: "is_top_sorted ss \<Longrightarrow> \<not> is_cyclic ss"
  using top_sorted_trancl by (auto simp: is_cyclic_def)

lemma acyclic_initial: "\<not> is_cyclic ss \<Longrightarrow> \<not> is_initial_cyclic ss start"
  by (auto simp: is_cyclic_def is_initial_cyclic_def)

lemma initial_cyclic_cyclic: "is_initial_cyclic ss start \<Longrightarrow> is_cyclic ss"
  by (auto simp: is_cyclic_def is_initial_cyclic_def)

section \<open>Sub-automata\<close>

text \<open>
  \<open>embeds h ss' ss\<close>: the automaton \<open>ss'\<close> is found inside \<open>ss\<close>, state \<open>s\<close> as \<open>h s\<close>, with a
  sublist of its arcs.  A claim that can only be refuted by something present survives in
  the smaller automaton.
\<close>

definition embeds :: "(nat \<Rightarrow> nat) \<Rightarrow> 'w states \<Rightarrow> 'w states \<Rightarrow> bool" where
  "embeds h ss' ss \<longleftrightarrow> mono h \<and>
     (\<forall>s < length ss'. h s < length ss \<and> vs_final (ss' ! s) = vs_final (ss ! h s)) \<and>
     (\<forall>s. subseq (map (retarget h) (arcs_of ss' s)) (arcs_of ss (h s)))"

lemma embeds_arc:
  assumes "embeds h ss' ss" "a \<in> set (arcs_of ss' s)"
  shows "retarget h a \<in> set (arcs_of ss (h s))"
proof -
  have "subseq (map (retarget h) (arcs_of ss' s)) (arcs_of ss (h s))"
    using assms(1) by (simp add: embeds_def)
  then have "set (map (retarget h) (arcs_of ss' s)) \<subseteq> set (arcs_of ss (h s))"
    unfolding subseq_conv_nths by (metis in_set_nthsD subsetI)
  with assms(2) show ?thesis by auto
qed

lemma embeds_edge: "embeds h ss' ss \<Longrightarrow> (s, t) \<in> edges ss' \<Longrightarrow> (h s, h t) \<in> edges ss"
  unfolding edges_iff by (auto dest!: embeds_arc intro!: bexI)

lemma embeds_trancl: "(s, t) \<in> (edges ss')\<^sup>+ \<Longrightarrow> embeds h ss' ss \<Longrightarrow> (h s, h t) \<in> (edges ss)\<^sup>+"
  by (induction rule: trancl_induct) (blast intro: embeds_edge trancl_into_trancl)+

lemma embeds_rtrancl: "(s, t) \<in> (edges ss')\<^sup>* \<Longrightarrow> embeds h ss' ss \<Longrightarrow> (h s, h t) \<in> (edges ss)\<^sup>*"
  by (induction rule: rtrancl_induct) (blast intro: embeds_edge rtrancl_into_rtrancl)+

lemma embeds_all_arcs:
  assumes "embeds h ss' ss" "all_arcs ss P" "\<And>a. P (retarget h a) \<Longrightarrow> P a"
  shows "all_arcs ss' P"
  using assms embeds_arc unfolding all_arcs_def by blast

lemma embeds_each_state:
  assumes "embeds h ss' ss" "each_state ss P"
    "\<And>as bs. subseq as bs \<Longrightarrow> P bs \<Longrightarrow> P as" "\<And>as. P (map (retarget h) as) \<Longrightarrow> P as"
  shows "each_state ss' P"
  using assms unfolding each_state_def embeds_def by meson

lemma comp_retarget [simp]:
  "ilabel \<circ> retarget h = ilabel" "olabel \<circ> retarget h = olabel"
  by (simp_all add: comp_def)

lemma sorted_subseq: "subseq xs ys \<Longrightarrow> sorted ys \<Longrightarrow> sorted (xs :: int list)"
  using sorted_nths by (auto simp: subseq_conv_nths)

lemma distinct_subseq: "subseq xs ys \<Longrightarrow> distinct ys \<Longrightarrow> distinct xs"
  using distinct_nthsI by (auto simp: subseq_conv_nths)

lemma embeds_down:
  assumes e: "embeds h ss' ss"
  shows "is_acceptor ss \<Longrightarrow> is_acceptor ss'"
    "i_deterministic ss \<Longrightarrow> i_deterministic ss'" "o_deterministic ss \<Longrightarrow> o_deterministic ss'"
    "\<not> has_epsilons ss \<Longrightarrow> \<not> has_epsilons ss'" "\<not> has_iepsilons ss \<Longrightarrow> \<not> has_iepsilons ss'"
    "\<not> has_oepsilons ss \<Longrightarrow> \<not> has_oepsilons ss'"
    "i_label_sorted ss \<Longrightarrow> i_label_sorted ss'" "o_label_sorted ss \<Longrightarrow> o_label_sorted ss'"
    "\<not> is_weighted ss \<Longrightarrow> \<not> is_weighted ss'"
    "\<not> is_cyclic ss \<Longrightarrow> \<not> is_cyclic ss'" "is_top_sorted ss \<Longrightarrow> is_top_sorted ss'"
    "\<not> has_weighted_cycles ss \<Longrightarrow> \<not> has_weighted_cycles ss'"
proof -
  note all = embeds_all_arcs [OF e] and each = embeds_each_state [OF e]
  show "is_acceptor ss \<Longrightarrow> is_acceptor ss'" unfolding is_acceptor_def by (rule all) auto
  show "i_deterministic ss \<Longrightarrow> i_deterministic ss'" unfolding i_deterministic_def
    by (rule each) (auto intro: distinct_subseq subseq_map)
  show "o_deterministic ss \<Longrightarrow> o_deterministic ss'" unfolding o_deterministic_def
    by (rule each) (auto intro: distinct_subseq subseq_map)
  show "i_label_sorted ss \<Longrightarrow> i_label_sorted ss'" unfolding i_label_sorted_def
    by (rule each) (auto intro: sorted_subseq subseq_map)
  show "o_label_sorted ss \<Longrightarrow> o_label_sorted ss'" unfolding o_label_sorted_def
    by (rule each) (auto intro: sorted_subseq subseq_map)
  show "\<not> has_epsilons ss \<Longrightarrow> \<not> has_epsilons ss'"
    unfolding has_epsilons_def not_not by (rule all) auto
  show "\<not> has_iepsilons ss \<Longrightarrow> \<not> has_iepsilons ss'"
    unfolding has_iepsilons_def not_not by (rule all) auto
  show "\<not> has_oepsilons ss \<Longrightarrow> \<not> has_oepsilons ss'"
    unfolding has_oepsilons_def not_not by (rule all) auto
  show "\<not> is_weighted ss \<Longrightarrow> \<not> is_weighted ss'"
    unfolding is_weighted_def not_not using e by (auto simp: embeds_def intro: all)
  show "\<not> is_cyclic ss \<Longrightarrow> \<not> is_cyclic ss'"
    using embeds_trancl [OF _ e] by (auto simp: is_cyclic_def)
  show "is_top_sorted ss \<Longrightarrow> is_top_sorted ss'"
    using embeds_edge [OF e] e unfolding is_top_sorted_def embeds_def
    by (metis (no_types, lifting) case_prodI2 case_prodD linorder_not_less monoD)
  show "\<not> has_weighted_cycles ss \<Longrightarrow> \<not> has_weighted_cycles ss'"
    using embeds_arc [OF e] embeds_rtrancl [OF _ e] unfolding has_weighted_cycles_def
    by (metis retarget_sel(3,4))
qed

lemma retarget_ident [simp]: "retarget (\<lambda>s. s) = (\<lambda>a. a)"
  by (auto simp: retarget_def arc_new_def)

lemma embeds_refl_arcs:
  assumes "length ss' = length ss" "\<And>s. s < length ss \<Longrightarrow> vs_final (ss' ! s) = vs_final (ss ! s)"
    "\<And>s. subseq (arcs_of ss' s) (arcs_of ss s)"
  shows "embeds (\<lambda>s. s) ss' ss"
  using assms by (simp add: embeds_def mono_def)

lemma claim_drop: "claims p pos neg P \<Longrightarrow> (\<And>i. bit q i \<Longrightarrow> bit p i) \<Longrightarrow> claims q pos neg P"
  unfolding claims_def and_zero_iff by metis

lemma initial_acyclic_embeds:
  "embeds h ss' ss \<Longrightarrow> (\<forall>q. start' = Some q \<longrightarrow> start = Some (h q)) \<Longrightarrow>
   \<not> is_initial_cyclic ss start \<Longrightarrow> \<not> is_initial_cyclic ss' start'"
  by (auto simp: is_initial_cyclic_def dest: embeds_trancl)

lemma edges_mono: "embeds (\<lambda>s. s) ss' ss \<Longrightarrow> edges ss' \<subseteq> edges ss"
  using embeds_edge by fastforce

lemma accessible_mono:
  assumes "embeds (\<lambda>s. s) ss' ss" "length ss' = length ss"
  shows "\<not> is_accessible ss start \<Longrightarrow> \<not> is_accessible ss' start"
    "\<not> is_coaccessible ss \<Longrightarrow> \<not> is_coaccessible ss'"
proof -
  have "(edges ss')\<^sup>* \<subseteq> (edges ss)\<^sup>*" using edges_mono [OF assms(1)] by (rule rtrancl_mono)
  then show "\<not> is_accessible ss start \<Longrightarrow> \<not> is_accessible ss' start"
    "\<not> is_coaccessible ss \<Longrightarrow> \<not> is_coaccessible ss'"
    using assms unfolding is_accessible_def is_coaccessible_def embeds_def by (metis subsetD)+
qed

section \<open>The operations keep the claims true\<close>

lemma set_start_sound [inv_intros]:
  assumes "vf_sound f"
  shows "vf_sound (set_start f s)"
  using assms acyclic_initial [of "vf_states f" "if s \<noteq> no_state then Some s else None"]
  unfolding vf_sound_def claim_bits set_start_def modify_properties_def set_start_properties_def
    Let_def mask_defs
  by (simp add: word_bits)

subsection \<open>Adding states\<close>

lemma arcs_of_append_new [simp]: "arcs_of (ss @ replicate n vs_new) s = arcs_of ss s"
  by (auto simp: arcs_of_def nth_append)

lemma edges_append_new [simp]: "edges (ss @ replicate n vs_new) = edges ss"
  by (simp add: edges_def)

lemma all_less_add: "(\<forall>s < m + n. P s) \<longleftrightarrow> (\<forall>s < m. P s) \<and> (\<forall>k < (n::nat). P (m + k))"
proof -
  have "P s" if "\<forall>s < m. P s" "\<forall>k < n. P (m + k)" "s < m + n" for s
    using that by (cases "s < m") (auto dest: le_Suc_ex simp: not_less)
  then show ?thesis by auto
qed

lemma append_new_final:
  "(\<forall>s < length ss + n. is_trivial_weight (vs_final ((ss @ replicate n vs_new) ! s))) \<longleftrightarrow>
   (\<forall>s < length ss. is_trivial_weight (vs_final (ss ! s)))"
  unfolding all_less_add by (simp add: nth_append is_trivial_weight_def)

lemma append_new_claims:
  fixes ss :: "'w::{zero,one} states" and n :: nat
  defines "ss' \<equiv> ss @ replicate n vs_new"
  shows "is_acceptor ss' = is_acceptor ss" "i_deterministic ss' = i_deterministic ss"
    "o_deterministic ss' = o_deterministic ss" "has_epsilons ss' = has_epsilons ss"
    "has_iepsilons ss' = has_iepsilons ss" "has_oepsilons ss' = has_oepsilons ss"
    "i_label_sorted ss' = i_label_sorted ss" "o_label_sorted ss' = o_label_sorted ss"
    "is_cyclic ss' = is_cyclic ss"
    "is_initial_cyclic ss' start = is_initial_cyclic ss start"
    "is_top_sorted ss' = is_top_sorted ss" "has_weighted_cycles ss' = has_weighted_cycles ss"
  unfolding ss'_def is_acceptor_def i_deterministic_def o_deterministic_def has_epsilons_def
    has_iepsilons_def has_oepsilons_def i_label_sorted_def o_label_sorted_def is_cyclic_def
    is_initial_cyclic_def is_top_sorted_def has_weighted_cycles_def all_arcs_def each_state_def
  by simp_all

lemma append_new_weighted: "is_weighted (ss @ replicate n vs_new) = is_weighted ss"
  unfolding is_weighted_def all_arcs_def length_append length_replicate append_new_final by simp

lemma append_new_negative:
  fixes ss :: "'w::{zero,one} states"
  shows "\<not> is_accessible ss start \<Longrightarrow> \<not> is_accessible (ss @ replicate n vs_new) start"
    "\<not> is_coaccessible ss \<Longrightarrow> \<not> is_coaccessible (ss @ replicate n vs_new)"
    "\<not> is_string ss start \<Longrightarrow> \<not> is_string (ss @ replicate n vs_new) start"
proof -
  let ?ss = "ss @ replicate n (vs_new :: 'w vector_state)"
  show "\<not> is_accessible ss start \<Longrightarrow> \<not> is_accessible ?ss start"
    unfolding is_accessible_def by (auto intro: trans_less_add1)
  have "vs_final (?ss ! t) = 0" if "length ss \<le> t" "t < length ?ss" for t
    using that by (simp add: nth_append)
  then show "\<not> is_coaccessible ss \<Longrightarrow> \<not> is_coaccessible ?ss"
    unfolding is_coaccessible_def
    by (metis (no_types, lifting) edges_append_new length_append not_le nth_append trans_less_add1)
  show "\<not> is_string ss start \<Longrightarrow> \<not> is_string ?ss start"
  proof (cases "n = 0")
    case False
    have "vs_final (?ss ! length ss) = 0" "vs_arcs (?ss ! length ss) = []"
      using False by (simp_all add: nth_append)
    then have "\<not> is_string ?ss start"
      using False unfolding is_string_def by (auto intro!: exI [of _ "length ss"])
    then show ?thesis by simp
  qed simp
qed

lemma add_states_sound [inv_intros]:
  assumes "vf_sound f"
  shows "vf_sound (add_states f n)"
proof -
  have "vresize (length (vf_states f) + n) vs_new (vf_states f) = vf_states f @ replicate n vs_new"
    by (simp add: vresize_def)
  then show ?thesis
    using assms append_new_negative [of "vf_states f"]
    unfolding vf_sound_def claim_bits add_states_def modify_properties_def
      add_state_properties_def Let_def mask_defs
    by (simp add: word_bits append_new_claims append_new_weighted)
qed

lemma add_state_sound [inv_intros]:
  assumes "vf_sound f"
  shows "vf_sound (fst (add_state f))"
proof -
  have "add_states f 1 = fst (add_state f)"
    by (simp add: add_states_def add_state_def vresize_def)
  with add_states_sound [OF assms, of 1] show ?thesis by simp
qed

subsection \<open>Final weights\<close>

lemma arcs_of_final [simp]:
  "s < length ss \<Longrightarrow> arcs_of (ss[s := (ss ! s)\<lparr>vs_final := w\<rparr>]) t = arcs_of ss t"
  by (auto simp: arcs_of_update)

lemma edges_final [simp]:
  "s < length ss \<Longrightarrow> edges (ss[s := (ss ! s)\<lparr>vs_final := w\<rparr>]) = edges ss"
  by (simp add: edges_def)

lemma final_claims:
  fixes w :: "'w::{zero,one}"
  assumes "s < length ss"
  defines "ss' \<equiv> ss[s := (ss ! s)\<lparr>vs_final := w\<rparr>]"
  shows "is_acceptor ss' = is_acceptor ss" "i_deterministic ss' = i_deterministic ss"
    "o_deterministic ss' = o_deterministic ss" "has_epsilons ss' = has_epsilons ss"
    "has_iepsilons ss' = has_iepsilons ss" "has_oepsilons ss' = has_oepsilons ss"
    "i_label_sorted ss' = i_label_sorted ss" "o_label_sorted ss' = o_label_sorted ss"
    "is_cyclic ss' = is_cyclic ss" "is_initial_cyclic ss' start = is_initial_cyclic ss start"
    "is_top_sorted ss' = is_top_sorted ss" "has_weighted_cycles ss' = has_weighted_cycles ss"
    "is_accessible ss' start = is_accessible ss start"
  using assms(1) unfolding ss'_def is_acceptor_def i_deterministic_def o_deterministic_def
    has_epsilons_def has_iepsilons_def has_oepsilons_def i_label_sorted_def o_label_sorted_def
    is_cyclic_def is_initial_cyclic_def is_top_sorted_def has_weighted_cycles_def all_arcs_def
    each_state_def is_accessible_def
  by simp_all

lemma final_weighted:
  fixes w :: "'w::{zero,one}"
  assumes "s < length ss"
  defines "ss' \<equiv> ss[s := (ss ! s)\<lparr>vs_final := w\<rparr>]"
  shows "\<not> is_weighted ss \<Longrightarrow> is_trivial_weight w \<Longrightarrow> \<not> is_weighted ss'"
    "\<not> is_trivial_weight w \<Longrightarrow> is_weighted ss'"
    "is_weighted ss \<Longrightarrow> is_trivial_weight (vs_final (ss ! s)) \<Longrightarrow> is_weighted ss'"
  using assms(1) unfolding ss'_def is_weighted_def all_arcs_def
  by (auto simp: nth_list_update split: if_splits)

lemma set_final_sound [inv_intros]:
  assumes "vf_sound f"
  shows "vf_sound (set_final f s w)"
proof (cases "s < length (vf_states f)")
  case True
  then show ?thesis
    using assms final_weighted [OF True, of w]
    unfolding vf_sound_def claim_bits set_final_def modify_properties_def
      set_final_properties_def Let_def mask_defs
    by (simp add: word_bits final_claims nontrivial_iff)
qed (use assms in \<open>simp add: set_final_def\<close>)

subsection \<open>Deleting arcs\<close>

lemma fewer_arcs_embeds:
  assumes "s < length ss" "subseq (vs_arcs v) (vs_arcs (ss ! s))" "vs_final v = vs_final (ss ! s)"
  shows "embeds (\<lambda>t. t) (ss[s := v]) ss"
  using assms by (intro embeds_refl_arcs) (auto simp: nth_list_update arcs_of_update)

lemma fewer_arcs_sound:
  assumes "sound p ss start" "embeds (\<lambda>t. t) ss' ss" "length ss' = length ss"
  shows "sound (delete_arcs_properties p) ss' start"
  using assms(1) embeds_down [OF assms(2)] accessible_mono [OF assms(2,3)]
    initial_acyclic_embeds [OF assms(2), of start start]
  unfolding claim_bits delete_arcs_properties_def mask_defs
  by (simp add: word_bits)

lemma delete_arcs_sound [inv_intros]: "vf_sound f \<Longrightarrow> vf_sound (delete_arcs f s)"
  unfolding vf_sound_def delete_arcs_def modify_properties_def
  by (auto simp: vget_def vs_delete_all_arcs_def intro!: fewer_arcs_sound fewer_arcs_embeds)

lemma vs_pop_arc_spec:
  "vs_pop_arc v = Some v' \<Longrightarrow> vs_arcs v' = butlast (vs_arcs v) \<and> vs_final v' = vs_final v"
  by (auto simp: vs_pop_arc_def Let_def split: if_splits)

lemma vs_pop_arcs_spec:
  "vs_pop_arcs k v = Some v' \<Longrightarrow>
   vs_arcs v' = take (length (vs_arcs v) - k) (vs_arcs v) \<and> vs_final v' = vs_final v"
proof (induction k arbitrary: v)
  case (Suc k)
  then obtain u where u: "vs_pop_arc v = Some u" "vs_pop_arcs k u = Some v'"
    by (auto simp: option_bind_eq_Some)
  then show ?case using Suc.IH [OF u(2)] vs_pop_arc_spec [OF u(1)]
    by (simp add: butlast_conv_take diff_right_commute min_def)
qed simp

lemma subseq_take: "subseq (take n xs) xs"
  by (metis append_take_drop_id subseq_rev_drop_many subseq_order.order_refl)

lemma delete_arcs_n_sound [inv_intros]:
  assumes "vf_sound f" "delete_arcs_n f s n = Some g"
  shows "vf_sound g"
proof (cases "s < length (vf_states f)")
  case True
  then obtain v where v: "vs_delete_arcs_n (vf_states f ! s) n = Some v"
    and g: "g = modify_properties delete_arcs_properties (f\<lparr>vf_states := (vf_states f)[s := v]\<rparr>)"
    using assms(2) by (auto simp: delete_arcs_n_def option_bind_eq_Some)
  have "embeds (\<lambda>t. t) ((vf_states f)[s := v]) (vf_states f)"
    using vs_pop_arcs_spec [OF v [unfolded vs_delete_arcs_n_def Let_def]] True
    by (intro fewer_arcs_embeds) (simp_all add: subseq_take)
  then show ?thesis
    using assms(1) fewer_arcs_sound unfolding g vf_sound_def modify_properties_def by fastforce
qed (use assms in \<open>simp add: delete_arcs_n_def\<close>)

lemma delete_all_states_sound [inv_intros]: "vf_sound (delete_all_states f)"
  unfolding vf_sound_def claim_bits delete_all_states_def modify_properties_def
    delete_all_states_properties_def static_properties_def Let_def mask_defs
  by (simp add: word_bits is_acceptor_def i_deterministic_def o_deterministic_def
    has_epsilons_def has_iepsilons_def has_oepsilons_def i_label_sorted_def o_label_sorted_def
    is_cyclic_def is_initial_cyclic_def is_top_sorted_def has_weighted_cycles_def all_arcs_def
    each_state_def is_accessible_def is_coaccessible_def is_string_def is_weighted_def edges_def)

subsection \<open>Adding an arc\<close>

lemma vs_add_arc_sel [simp]:
  "vs_arcs (vs_add_arc v a) = vs_arcs v @ [a]" "vs_final (vs_add_arc v a) = vs_final v"
  "vs_niepsilons (vs_add_arc v a) = vs_niepsilons v + count_ieps [a]"
  "vs_noepsilons (vs_add_arc v a) = vs_noepsilons v + count_oeps [a]"
  by (simp_all add: vs_add_arc_def increment_num_epsilons_def Let_def)

definition last_arc :: "'w arc list \<Rightarrow> 'w arc option" where
  "last_arc as = (if as = [] then None else Some (last as))"

lemma add_arc_run:
  assumes "s < length (vf_states f)"
  shows "add_arc f s a = f\<lparr>vf_states := (vf_states f)[s := vs_add_arc (vf_states f ! s) a],
    vf_properties := add_arc_properties (vf_properties f) s a (last_arc (vs_arcs (vf_states f ! s)))\<rparr>"
  using assms
  by (cases "vs_arcs (vf_states f ! s)" rule: rev_cases)
    (simp_all add: add_arc_def update_properties_after_add_arc_def modify_properties_def
      last_arc_def nth_append Let_def)

lemma embeds_up:
  assumes e: "embeds (\<lambda>t. t) ss ss'" "length ss = length ss'"
  shows "\<not> is_acceptor ss \<Longrightarrow> \<not> is_acceptor ss'"
    "\<not> i_deterministic ss \<Longrightarrow> \<not> i_deterministic ss'" "\<not> o_deterministic ss \<Longrightarrow> \<not> o_deterministic ss'"
    "has_epsilons ss \<Longrightarrow> has_epsilons ss'" "has_iepsilons ss \<Longrightarrow> has_iepsilons ss'"
    "has_oepsilons ss \<Longrightarrow> has_oepsilons ss'"
    "\<not> i_label_sorted ss \<Longrightarrow> \<not> i_label_sorted ss'" "\<not> o_label_sorted ss \<Longrightarrow> \<not> o_label_sorted ss'"
    "is_weighted ss \<Longrightarrow> is_weighted ss'"
    "is_cyclic ss \<Longrightarrow> is_cyclic ss'" "\<not> is_top_sorted ss \<Longrightarrow> \<not> is_top_sorted ss'"
    "has_weighted_cycles ss \<Longrightarrow> has_weighted_cycles ss'"
    "is_initial_cyclic ss start \<Longrightarrow> is_initial_cyclic ss' start"
    "is_accessible ss start \<Longrightarrow> is_accessible ss' start" "is_coaccessible ss \<Longrightarrow> is_coaccessible ss'"
  using embeds_down [OF e(1)] accessible_mono [OF e]
    initial_acyclic_embeds [OF e(1), of start start] by auto

lemma more_arcs_embeds:
  assumes "s < length ss"
  shows "embeds (\<lambda>t. t) ss (ss[s := vs_add_arc (ss ! s) a])"
  using assms by (intro embeds_refl_arcs) (auto simp: nth_list_update arcs_of_update
    subseq_order.order_refl)

lemma all_arcs_at: "all_arcs ss P \<Longrightarrow> s < length ss \<Longrightarrow> a \<in> set (vs_arcs (ss ! s)) \<Longrightarrow> P a"
  using arcs_of_simps(1) unfolding all_arcs_def by metis

lemma all_arcs_add:
  assumes "s < length ss"
  shows "all_arcs (ss[s := vs_add_arc (ss ! s) a]) P \<longleftrightarrow> all_arcs ss P \<and> P a"
proof -
  have "arcs_of (ss[s := vs_add_arc (ss ! s) a]) t = arcs_of ss t @ (if t = s then [a] else [])" for t
    using assms by (simp add: arcs_of_update)
  then show ?thesis by (auto simp: all_arcs_def)
qed

lemma finals_add:
  "s < length ss \<Longrightarrow> (\<forall>t < length ss. P (vs_final (ss[s := vs_add_arc (ss ! s) a] ! t))) \<longleftrightarrow>
     (\<forall>t < length ss. P (vs_final (ss ! t)))"
  by (metis nth_list_update_eq nth_list_update_neq vs_add_arc_sel(2))

lemma each_state_update:
  assumes "s < length ss" "each_state ss P"
  shows "each_state (ss[s := v]) P \<longleftrightarrow> P (vs_arcs v)" "P (vs_arcs (ss ! s))"
proof -
  show "each_state (ss[s := v]) P \<longleftrightarrow> P (vs_arcs v)"
    using assms by (auto simp: each_state_def arcs_of_update)
  have "P (arcs_of ss s)" using assms(2) by (simp add: each_state_def)
  then show "P (vs_arcs (ss ! s))" using assms(1) by simp
qed

lemma sorted_snoc: "sorted (xs @ [x]) \<longleftrightarrow> sorted xs \<and> (xs = [] \<or> last xs \<le> (x :: int))"
  by (cases xs rule: rev_cases) (auto simp: sorted_append dest: order_trans)

lemma top_sorted_add:
  assumes "s < length ss"
  shows "is_top_sorted (ss[s := vs_add_arc (ss ! s) a]) \<longleftrightarrow> is_top_sorted ss \<and> s < nextstate a"
  using assms by (fastforce simp: is_top_sorted_def edges_iff arcs_of_update split: if_splits)

lemma sorted_added:
  fixes ss :: "'w::{zero,one} states"
  assumes s: "s < length ss"
  shows "i_label_sorted (ss[s := vs_add_arc (ss ! s) a]) \<longleftrightarrow>
      i_label_sorted ss \<and> \<not> unsorted ilabel a (last_arc (vs_arcs (ss ! s)))"
    "o_label_sorted (ss[s := vs_add_arc (ss ! s) a]) \<longleftrightarrow>
      o_label_sorted ss \<and> \<not> unsorted olabel a (last_arc (vs_arcs (ss ! s)))"
proof -
  have "i_label_sorted (ss[s := vs_add_arc (ss ! s) a]) \<longleftrightarrow>
      \<not> unsorted ilabel a (last_arc (vs_arcs (ss ! s)))" if "i_label_sorted ss"
    using that each_state_update [OF s, of "\<lambda>as. sorted (map ilabel as)"]
    unfolding i_label_sorted_def unsorted_def
    by (simp add: sorted_snoc last_arc_def last_map not_less)
  then show "i_label_sorted (ss[s := vs_add_arc (ss ! s) a]) \<longleftrightarrow>
      i_label_sorted ss \<and> \<not> unsorted ilabel a (last_arc (vs_arcs (ss ! s)))"
    using embeds_down(7) [OF more_arcs_embeds [OF s]] by blast
  have "o_label_sorted (ss[s := vs_add_arc (ss ! s) a]) \<longleftrightarrow>
      \<not> unsorted olabel a (last_arc (vs_arcs (ss ! s)))" if "o_label_sorted ss"
    using that each_state_update [OF s, of "\<lambda>as. sorted (map olabel as)"]
    unfolding o_label_sorted_def unsorted_def
    by (simp add: sorted_snoc last_arc_def last_map not_less)
  then show "o_label_sorted (ss[s := vs_add_arc (ss ! s) a]) \<longleftrightarrow>
      o_label_sorted ss \<and> \<not> unsorted olabel a (last_arc (vs_arcs (ss ! s)))"
    using embeds_down(8) [OF more_arcs_embeds [OF s]] by blast
qed

lemma added_claims:
  fixes a :: "'w::{zero,one} arc"
  assumes s: "s < length ss"
  defines "ss' \<equiv> ss[s := vs_add_arc (ss ! s) a]"
  shows "is_acceptor ss' \<longleftrightarrow> is_acceptor ss \<and> ilabel a = olabel a"
    "has_epsilons ss' \<longleftrightarrow> has_epsilons ss \<or> ilabel a = epsilon \<and> olabel a = epsilon"
    "has_iepsilons ss' \<longleftrightarrow> has_iepsilons ss \<or> ilabel a = epsilon"
    "has_oepsilons ss' \<longleftrightarrow> has_oepsilons ss \<or> olabel a = epsilon"
    "is_weighted ss' \<longleftrightarrow> is_weighted ss \<or> \<not> is_trivial_weight (weight a)"
    "is_top_sorted ss' \<longleftrightarrow> is_top_sorted ss \<and> s < nextstate a"
  using s unfolding ss'_def is_acceptor_def has_epsilons_def has_iepsilons_def has_oepsilons_def
    is_weighted_def length_list_update finals_add [OF s] all_arcs_add [OF s] top_sorted_add [OF s]
  by auto

lemma add_arc_sound [inv_intros]:
  assumes "vf_sound f"
  shows "vf_sound (add_arc f s a)"
proof (cases "s < length (vf_states f)")
  case True
  let ?ss = "(vf_states f)[s := vs_add_arc (vf_states f ! s) a]"
  note up = embeds_up [OF more_arcs_embeds [OF True, of a] length_list_update [symmetric]]
  have acyclic: "is_top_sorted (vf_states f) \<Longrightarrow> s < nextstate a \<Longrightarrow> \<not> is_cyclic ?ss"
    "is_top_sorted (vf_states f) \<Longrightarrow> s < nextstate a \<Longrightarrow> \<not> is_initial_cyclic ?ss q" for q
    using top_sorted_acyclic acyclic_initial added_claims(6) [OF True] by blast+
  show ?thesis
    using assms
    unfolding vf_sound_def claim_bits add_arc_run [OF True]
    by (simp add: add_arc_bits up added_claims [OF True] sorted_added [OF True] acyclic not_le)
qed (use assms in \<open>simp add: add_arc_def\<close>)

end
