(* ===== verification/VectorFstOps.thy ===== *)
theory VectorFstOps
  imports PropertySound
begin

text \<open>
  The invariant of \<open>VectorFst\<close> over all of its operations: the counters are those of the
  arcs, every bit of the cached word is true of the FST, and the static bits are set.
  Deleting states and rewriting arcs in place come here; the latter is the one operation
  that breaks the counters.
\<close>

section \<open>Deleting states\<close>

text \<open>Where the \<open>k\<close>-th state of the remaining automaton was before.\<close>

definition old_id :: "(nat \<Rightarrow> bool) \<Rightarrow> nat \<Rightarrow> nat \<Rightarrow> nat" where
  "old_id alive n k = (if k < new_id alive n then survivors alive n ! k else n + k)"

lemma old_id_new_id: "s < n \<Longrightarrow> alive s \<Longrightarrow> old_id alive n (new_id alive s) = s"
  using new_id_less [of s n alive] by (simp add: old_id_def survivors_nth_new_id)

lemma mono_old_id: "mono (old_id alive n)"
proof (rule monoI)
  fix x y :: nat
  assume "x \<le> y"
  have lt: "survivors alive n ! k < n" "alive (survivors alive n ! k)"
      "new_id alive (survivors alive n ! k) = k" if "k < new_id alive n" for k
    using survivors_nth [of k alive n] that by (auto simp: new_id_def)
  show "old_id alive n x \<le> old_id alive n y"
  proof (cases "y < new_id alive n")
    case True
    then have "new_id alive (survivors alive n ! x) \<le> new_id alive (survivors alive n ! y)"
      using lt [of x] lt [of y] \<open>x \<le> y\<close> by simp
    then have "\<not> survivors alive n ! y < survivors alive n ! x"
      using lt(2) [of x] lt(2) [of y] True \<open>x \<le> y\<close> new_id_less_iff [of alive] by fastforce
    then show ?thesis using True \<open>x \<le> y\<close> by (simp add: old_id_def)
  qed (use lt(1) [of x] \<open>x \<le> y\<close> in \<open>auto simp: old_id_def\<close>)
qed

lemma arcs_of_induced:
  "arcs_of (vf_states (induced alive f)) k =
     (if k < new_id alive (length (vf_states f))
      then live_arcs alive (arcs_of (vf_states f) (survivors alive (length (vf_states f)) ! k)) else [])"
  using survivors_nth [of k alive "length (vf_states f)"]
  by (auto simp: arcs_of_def induced_def new_id_def live_state_def Let_def)

lemma induced_embeds:
  assumes "vf_closed f"
  shows "embeds (old_id alive (length (vf_states f))) (vf_states (induced alive f)) (vf_states f)"
  unfolding embeds_def
proof (intro conjI allI impI)
  let ?n = "length (vf_states f)"
  show "mono (old_id alive ?n)" by (rule mono_old_id)
  fix k
  show "old_id alive ?n k < ?n" if "k < length (vf_states (induced alive f))"
    using that survivors_nth [of k alive ?n] by (simp add: old_id_def induced_def new_id_def)
  show "vs_final (vf_states (induced alive f) ! k) = vs_final (vf_states f ! old_id alive ?n k)"
    if "k < length (vf_states (induced alive f))"
    using that by (simp add: old_id_def induced_def new_id_def live_state_def Let_def)
  show "subseq (map (retarget (old_id alive ?n)) (arcs_of (vf_states (induced alive f)) k))
      (arcs_of (vf_states f) (old_id alive ?n k))"
  proof (cases "k < new_id alive ?n")
    case True
    let ?as = "arcs_of (vf_states f) (survivors alive ?n ! k)"
    have "survivors alive ?n ! k < ?n" using survivors_nth [of k alive ?n] True by (simp add: new_id_def)
    then have "nextstate a < ?n" if "a \<in> set ?as" for a
      using that assms by (auto simp: vf_closed_def)
    then have "retarget (old_id alive ?n) (retarget (new_id alive) a) = a"
      if "a \<in> set ?as" "alive (nextstate a)" for a
      using that by (simp add: retarget_def old_id_new_id arc_new_def)
    then have "map (retarget (old_id alive ?n)) (live_arcs alive ?as) =
        filter (\<lambda>a. alive (nextstate a)) ?as"
      unfolding live_arcs_def map_map by (intro map_idI) simp
    then show ?thesis using True by (simp add: arcs_of_induced old_id_def)
  qed (simp add: arcs_of_induced)
qed

lemma delete_states_sound [inv_intros]:
  assumes "vf_sound f" "vf_closed f" "delete_states f ds = Some g"
  shows "vf_sound g"
proof (cases "ds = []")
  case False
  let ?alive = "\<lambda>s. s \<notin> set ds"
  note e = induced_embeds [OF assms(2), of ?alive]
  have "\<forall>q. vf_start (induced ?alive f) = Some q \<longrightarrow>
      vf_start f = Some (old_id ?alive (length (vf_states f)) q)"
    using assms(2) by (auto simp: induced_def vf_closed_def old_id_new_id split: option.splits if_splits)
  note down = embeds_down [OF e] initial_acyclic_embeds [OF e this]
  have "g = modify_properties delete_states_properties (induced ?alive f)"
    using delete_states_run [OF assms(2) False] assms(3) by simp
  then have g: "vf_states g = vf_states (induced ?alive f)" "vf_start g = vf_start (induced ?alive f)"
      "vf_properties g = delete_states_properties (vf_properties f)"
    by (simp_all add: modify_properties_def induced_def)
  show ?thesis
    using assms(1) unfolding vf_sound_def claim_bits g delete_states_properties_def mask_defs
    by (simp add: word_bits down)
qed (use assms in \<open>simp add: delete_states_def\<close>)

section \<open>Rewriting arcs in place\<close>

text \<open>One arc replaced: the claims that survive are about all arcs at once, so they follow
  from what the old arc no longer witnesses and the new one now does.\<close>

lemma all_arcs_replace:
  assumes "s < length ss"
  shows "all_arcs (ss[s := v\<lparr>vs_arcs := pre @ a # post\<rparr>]) P \<longleftrightarrow>
    (\<forall>t. t \<noteq> s \<longrightarrow> (\<forall>b \<in> set (arcs_of ss t). P b)) \<and> (\<forall>b \<in> set (pre @ post). P b) \<and> P a"
proof -
  have "(\<forall>t. \<forall>b \<in> set (arcs_of (ss[s := v\<lparr>vs_arcs := pre @ a # post\<rparr>]) t). P b) \<longleftrightarrow>
      (\<forall>t. t \<noteq> s \<longrightarrow> (\<forall>b \<in> set (arcs_of ss t). P b)) \<and> (\<forall>b \<in> set (pre @ a # post). P b)"
    using assms by (auto simp: arcs_of_update split: if_splits)
  then show ?thesis by (auto simp: all_arcs_def)
qed

lemma final_replace:
  "(\<forall>t < length ss. Q (vs_final (ss[s := v\<lparr>vs_arcs := as\<rparr>] ! t))) \<longleftrightarrow>
   (\<forall>t < length ss. Q (vs_final (ss[s := v\<lparr>vs_arcs := bs\<rparr>] ! t)))"
  by (cases "s < length ss") (simp_all add: nth_list_update)

lemma set_arc_sound:
  assumes s: "s < length ss" and "sound p (ss[s := v\<lparr>vs_arcs := pre @ old # post\<rparr>]) start"
  shows "sound (set_arc_properties p old new) (ss[s := v\<lparr>vs_arcs := pre @ new # post\<rparr>]) start"
  using assms(2)
  unfolding claim_bits is_acceptor_def has_epsilons_def has_iepsilons_def has_oepsilons_def
    is_weighted_def length_list_update all_arcs_replace [OF s]
    final_replace [where as = "pre @ old # post" and bs = "pre @ new # post"]
  by (simp add: set_arc_bits set_arc_bits_dropped) blast

lemma mutate_loop_sound:
  assumes s: "s < length ss"
  shows "sound p (ss[s := v\<lparr>vs_arcs := pre @ as\<rparr>]) start \<Longrightarrow>
    mutate_arcs_loop m as p = (bs, q) \<Longrightarrow>
    sound q (ss[s := v\<lparr>vs_arcs := pre @ bs\<rparr>]) start"
proof (induction as arbitrary: pre p bs)
  case (Cons a as)
  obtain cs where cs: "mutate_arcs_loop m as (set_arc_properties p a (m a)) = (cs, q)"
      "bs = m a # cs"
    using Cons.prems(2) by (auto simp: Let_def split: prod.splits)
  have "sound (set_arc_properties p a (m a)) (ss[s := v\<lparr>vs_arcs := (pre @ [m a]) @ as\<rparr>]) start"
    using set_arc_sound [OF s Cons.prems(1)] by simp
  from Cons.IH [OF this cs(1)] show ?case by (simp add: cs(2))
qed simp

lemma mutate_loop_arcs: "fst (mutate_arcs_loop m as p) = map m as"
  by (induction as arbitrary: p) (simp_all add: Let_def split: prod.splits, metis fst_conv)

lemma mutate_sound [inv_intros]:
  assumes "vf_sound f"
  shows "vf_sound (mutate_arcs f s m)"
proof (cases "s < length (vf_states f)")
  case True
  let ?v = "vf_states f ! s"
  obtain bs q where q: "mutate_arcs_loop m (vs_arcs ?v) (vf_properties f) = (bs, q)" by fastforce
  have "vf_states f = (vf_states f)[s := ?v\<lparr>vs_arcs := [] @ vs_arcs ?v\<rparr>]" by simp
  then have "sound (vf_properties f) ((vf_states f)[s := ?v\<lparr>vs_arcs := [] @ vs_arcs ?v\<rparr>]) (vf_start f)"
    using assms by (simp add: vf_sound_def)
  from mutate_loop_sound [OF True this q] show ?thesis
    using True by (simp add: mutate_arcs_def q vf_sound_def)
qed (use assms in \<open>simp add: mutate_arcs_def\<close>)

section \<open>The epsilon counters\<close>

definition counts_ok :: "'w vector_state \<Rightarrow> bool" where
  "counts_ok v \<longleftrightarrow> vs_niepsilons v = count_ieps (vs_arcs v) \<and> vs_noepsilons v = count_oeps (vs_arcs v)"

definition vf_counts :: "('w, 'sym) vector_fst \<Rightarrow> bool" where
  "vf_counts f \<longleftrightarrow> (\<forall>v \<in> set (vf_states f). counts_ok v)"

lemma counts_new [simp]: "counts_ok vs_new"
  by (simp add: counts_ok_def)

lemma counts_add_arc [simp]: "counts_ok v \<Longrightarrow> counts_ok (vs_add_arc v a)"
  by (simp add: counts_ok_def)

lemma counts_delete_all [simp]: "counts_ok (vs_delete_all_arcs v)"
  by (simp add: counts_ok_def vs_delete_all_arcs_def)

lemma counts_live [simp]: "counts_ok (live_state alive v)"
  by (simp add: counts_ok_def live_state_def Let_def)

lemma counts_pop_arc:
  assumes "counts_ok v" "vs_arcs v \<noteq> []"
  shows "\<exists>u. vs_pop_arc v = Some u \<and> counts_ok u \<and> vs_arcs u = butlast (vs_arcs v) \<and>
    vs_final u = vs_final v"
  using assms
  by (cases "vs_arcs v" rule: rev_cases)
    (auto simp: vs_pop_arc_def counts_ok_def Let_def)

lemma counts_pop_arcs:
  "counts_ok v \<Longrightarrow> k \<le> length (vs_arcs v) \<Longrightarrow>
   \<exists>u. vs_pop_arcs k v = Some u \<and> counts_ok u \<and>
     vs_arcs u = take (length (vs_arcs v) - k) (vs_arcs v) \<and> vs_final u = vs_final v"
proof (induction k arbitrary: v)
  case (Suc k)
  then have "vs_arcs v \<noteq> []" by auto
  with Suc.prems obtain w where w: "vs_pop_arc v = Some w" "counts_ok w"
      "vs_arcs w = butlast (vs_arcs v)" "vs_final w = vs_final v"
    using counts_pop_arc by blast
  moreover have "k \<le> length (vs_arcs w)" using Suc.prems(2) w(3) by simp
  then obtain u where "vs_pop_arcs k w = Some u" "counts_ok u"
      "vs_arcs u = take (length (vs_arcs w) - k) (vs_arcs w)" "vs_final u = vs_final w"
    using Suc.IH [OF w(2)] by blast
  ultimately show ?case
    by (simp add: butlast_conv_take diff_right_commute min_def)
qed simp

lemma delete_arcs_n_run:
  assumes "counts_ok v"
  shows "\<exists>u. vs_delete_arcs_n v n = Some u \<and> counts_ok u \<and>
    vs_arcs u = take (length (vs_arcs v) - n) (vs_arcs v) \<and> vs_final u = vs_final v"
proof -
  have "length (vs_arcs v) - min n (length (vs_arcs v)) = length (vs_arcs v) - n" by simp
  then show ?thesis
    using counts_pop_arcs [OF assms, of "min n (length (vs_arcs v))"]
    by (simp add: vs_delete_arcs_n_def)
qed

lemma counts_update: "vf_counts f \<Longrightarrow> counts_ok v \<Longrightarrow> vf_counts (f\<lparr>vf_states := (vf_states f)[s := v]\<rparr>)"
  using set_update_subset_insert [of "vf_states f" s v] by (auto simp: vf_counts_def)

lemma counts_list_update:
  "\<forall>u \<in> set ss. counts_ok u \<Longrightarrow> counts_ok v \<Longrightarrow> \<forall>u \<in> set (ss[s := v]). counts_ok u"
  using set_update_subset_insert [of ss s v] by auto

lemma counts_modify [simp]: "vf_counts (modify_properties g f) \<longleftrightarrow> vf_counts f"
  by (simp add: vf_counts_def modify_properties_def)

lemma counts_nth: "vf_counts f \<Longrightarrow> s < length (vf_states f) \<Longrightarrow> counts_ok (vf_states f ! s)"
  by (simp add: vf_counts_def)

section \<open>The invariant over every sequence of calls\<close>

definition vf_static :: "('w, 'sym) vector_fst \<Rightarrow> bool" where
  "vf_static f \<longleftrightarrow> bit (vf_properties f) 0 \<and> bit (vf_properties f) 1"

definition vf_inv :: "('w::{zero,one}, 'sym) vector_fst \<Rightarrow> bool" where
  "vf_inv f \<longleftrightarrow> vf_counts f \<and> vf_sound f \<and> vf_static f"

text \<open>The calls of \<open>MutableFst\<close> that change states, arcs, weights or the start.\<close>

datatype 'w call =
    SetStart state_id
  | SetFinal state_id 'w
  | AddState
  | AddStates nat
  | AddArc state_id "'w arc"
  | DeleteArcsN state_id nat
  | DeleteArcs state_id
  | DeleteAllStates
  | DeleteStates "state_id list"

fun exec_call :: "'w::{zero,one} call \<Rightarrow> ('w, 'sym) vector_fst \<Rightarrow> ('w, 'sym) vector_fst option" where
  "exec_call (SetStart s) f = Some (set_start f s)"
| "exec_call (SetFinal s w) f = Some (set_final f s w)"
| "exec_call AddState f = Some (fst (add_state f))"
| "exec_call (AddStates n) f = Some (add_states f n)"
| "exec_call (AddArc s a) f = Some (add_arc f s a)"
| "exec_call (DeleteArcsN s n) f = delete_arcs_n f s n"
| "exec_call (DeleteArcs s) f = Some (delete_arcs f s)"
| "exec_call DeleteAllStates f = Some (delete_all_states f)"
| "exec_call (DeleteStates ds) f = delete_states f ds"

text \<open>Deleting states indexes a vector with the destinations of the arcs, so a caller may only
  do it when they exist.\<close>

fun call_allowed :: "'w call \<Rightarrow> ('w, 'sym) vector_fst \<Rightarrow> bool" where
  "call_allowed (DeleteStates ds) f = vf_closed f"
| "call_allowed c f = True"

inductive vf_step :: "('w::{zero,one}, 'sym) vector_fst \<Rightarrow> ('w, 'sym) vector_fst \<Rightarrow> bool" where
  step: "call_allowed c f \<Longrightarrow> exec_call c f = Some g \<Longrightarrow> vf_step f g"

inductive vf_built :: "('w::{zero,one}, 'sym) vector_fst \<Rightarrow> bool" where
  new: "vf_built vf_new"
| call: "vf_built f \<Longrightarrow> vf_step f g \<Longrightarrow> vf_built g"

lemma new_inv [inv_intros]: "vf_inv vf_new"
  unfolding vf_inv_def vf_counts_def vf_static_def vf_sound_def claim_bits vf_new_def
    static_properties_def mask_defs
  by (simp add: word_bits is_acceptor_def i_deterministic_def o_deterministic_def
    has_epsilons_def has_iepsilons_def has_oepsilons_def i_label_sorted_def o_label_sorted_def
    is_cyclic_def is_initial_cyclic_def is_top_sorted_def has_weighted_cycles_def all_arcs_def
    each_state_def is_accessible_def is_coaccessible_def is_string_def is_weighted_def edges_def)

lemma static_masks [simp]:
  "bit (set_start_properties p) 0 = bit p 0" "bit (set_start_properties p) 1 = bit p 1"
  "bit (set_final_properties p u w) 0 = bit p 0" "bit (set_final_properties p u w) 1 = bit p 1"
  "bit (add_state_properties p) 0 = bit p 0" "bit (add_state_properties p) 1 = bit p 1"
  "bit (delete_arcs_properties p) 0 = bit p 0" "bit (delete_arcs_properties p) 1 = bit p 1"
  "bit (delete_states_properties p) 0 = bit p 0" "bit (delete_states_properties p) 1 = bit p 1"
  "bit (delete_all_states_properties p static_properties) 0"
  "bit (delete_all_states_properties p static_properties) 1"
  unfolding set_start_properties_def set_final_properties_def add_state_properties_def
    delete_arcs_properties_def delete_states_properties_def delete_all_states_properties_def
    static_properties_def Let_def mask_defs
  by (simp_all add: word_bits)

lemmas static_masks_Suc [simp] = static_masks [unfolded One_nat_def]

lemma add_arc_outside: "\<not> s < length (vf_states f) \<Longrightarrow> add_arc f s a = f"
  by (simp add: add_arc_def)

lemma delete_states_induced_run:
  assumes "vf_closed f" "delete_states f ds = Some g"
  shows "ds = [] \<and> g = f \<or>
    g = modify_properties delete_states_properties (induced (\<lambda>s. s \<notin> set ds) f)"
  using delete_states_run [OF assms(1), of ds] assms(2) by (cases "ds = []") (auto simp: delete_states_def)

lemma call_counts:
  assumes "vf_counts f" "call_allowed c f" "exec_call c f = Some g"
  shows "vf_counts g"
proof (cases c)
  case (SetFinal s w)
  have "counts_ok ((vf_states f ! s)\<lparr>vs_final := w\<rparr>)" if "s < length (vf_states f)"
    using counts_nth [OF assms(1) that] by (simp add: counts_ok_def)
  with SetFinal show ?thesis using assms counts_list_update [of "vf_states f" _ s]
    by (cases "s < length (vf_states f)")
      (auto simp: set_final_def Let_def modify_properties_def vf_counts_def simp del: Ball_set)
next
  case (AddArc s a)
  have "vf_counts (f\<lparr>vf_states := (vf_states f)[s := vs_add_arc (vf_states f ! s) a]\<rparr>)"
    if "s < length (vf_states f)"
    using counts_update [OF assms(1)] counts_nth [OF assms(1) that] by simp
  with AddArc show ?thesis using assms
    by (cases "s < length (vf_states f)") (auto simp: add_arc_run vf_counts_def add_arc_outside)
next
  case (DeleteArcsN s n)
  then show ?thesis
    using assms counts_update [OF assms(1), of _ s] delete_arcs_n_run [OF counts_nth [OF assms(1), of s], of n]
    by (cases "s < length (vf_states f)") (auto simp: delete_arcs_n_def option_bind_eq_Some)
next
  case (DeleteArcs s)
  then show ?thesis using assms counts_update [OF assms(1), of _ s]
    by (cases "s < length (vf_states f)") (auto simp: delete_arcs_def)
next
  case (DeleteStates ds)
  then show ?thesis using assms delete_states_induced_run [of f ds g]
    by (auto simp: vf_counts_def induced_def modify_properties_def)
qed (use assms in \<open>auto simp: set_start_def Let_def modify_properties_def vf_counts_def add_state_def
      add_states_def vresize_def delete_all_states_def\<close>)

lemma call_static:
  assumes "vf_static f" "call_allowed c f" "exec_call c f = Some g"
  shows "vf_static g"
proof (cases c)
  case (AddArc s a)
  then show ?thesis using assms
    by (cases "s < length (vf_states f)")
      (auto simp: add_arc_run vf_static_def add_arc_bits add_arc_bits [unfolded One_nat_def] add_arc_outside)
next
  case (DeleteStates ds)
  then show ?thesis using assms delete_states_induced_run [of f ds g]
    by (auto simp: vf_static_def induced_def modify_properties_def)
qed (use assms in \<open>auto simp: set_start_def Let_def modify_properties_def vf_static_def add_state_def
      add_states_def delete_all_states_def set_final_def delete_arcs_def delete_arcs_n_def
      option_bind_eq_Some split: option.splits\<close>)

lemma call_sound:
  assumes "vf_sound f" "call_allowed c f" "exec_call c f = Some g"
  shows "vf_sound g"
  using assms by (cases c) (auto intro: inv_intros)

lemma step_inv: "vf_step f g \<Longrightarrow> vf_inv f \<Longrightarrow> vf_inv g"
  by (induction rule: vf_step.induct) (auto simp: vf_inv_def intro: call_counts call_static call_sound)

lemma built_inv: "vf_built f \<Longrightarrow> vf_inv f"
  by (induction rule: vf_built.induct) (auto intro: new_inv step_inv)

lemma vf_arcs_of: "vf_arcs f s = arcs_of (vf_states f) s"
  by (simp add: vf_arcs_def arcs_of_def vget_def)

lemma num_epsilons_of:
  "vf_counts f \<Longrightarrow> num_input_epsilons f s = count_ieps (vf_arcs f s)"
  "vf_counts f \<Longrightarrow> num_output_epsilons f s = count_oeps (vf_arcs f s)"
  using counts_nth [of f s]
  by (auto simp: num_input_epsilons_def num_output_epsilons_def vf_arcs_def vget_def counts_ok_def)

lemma induced_closed: "vf_closed f \<Longrightarrow> vf_closed (induced alive f)"
proof -
  assume f: "vf_closed f"
  let ?n = "length (vf_states f)"
  have len: "length (vf_states (induced alive f)) = new_id alive ?n"
    by (simp add: induced_def new_id_def)
  have "nextstate a < new_id alive ?n"
    if v: "v \<in> set (vf_states (induced alive f))" and a: "a \<in> set (vs_arcs v)" for v a
  proof -
    obtain s where "s < ?n" "v = live_state alive (vf_states f ! s)"
      using v by (auto simp: induced_def survivors_def)
    with a obtain b where "b \<in> set (vs_arcs (vf_states f ! s))" "alive (nextstate b)"
        "nextstate a = new_id alive (nextstate b)"
      by (auto simp: live_state_def live_arcs_def Let_def)
    then show ?thesis using f \<open>s < ?n\<close> by (auto simp: vf_closed_def intro!: new_id_less)
  qed
  then show ?thesis
    using f new_id_le [of alive ?n] unfolding vf_closed_def len
    by (auto simp: induced_def intro!: new_id_less split: option.splits if_splits)
qed

section \<open>Properties\<close>

definition one_arc :: "(nat, unit) vector_fst" where
  "one_arc = add_arc (set_start (fst (add_state vf_new)) 0) 0 (arc_new 1 1 1 0)"

lemma one_arc_built: "vf_built one_arc"
proof -
  have "vf_built (fst (add_state vf_new))"
    by (rule vf_built.call [OF vf_built.new vf_step.step [of AddState]]) simp_all
  then have "vf_built (set_start (fst (add_state vf_new)) 0)"
    by (rule vf_built.call [OF _ vf_step.step [of "SetStart 0"]]) simp_all
  then show ?thesis unfolding one_arc_def
    by (rule vf_built.call [OF _ vf_step.step [of "AddArc 0 (arc_new 1 1 1 0)"]]) simp_all
qed

text \<open>
  C1. Every FST built by calls of the mutating interface (rewriting arcs in place apart) is
  consistent: the epsilon counters are the numbers of epsilon arcs, every property bit the
  cache holds is true of the FST, negative bits included, and the static bits are set.
\<close>

theorem built_fst_invariant:
  assumes "vf_built f"
  shows "num_input_epsilons f s = count_ieps (vf_arcs f s) \<and>
    num_output_epsilons f s = count_oeps (vf_arcs f s) \<and>
    sound (vf_properties f) (vf_states f) (vf_start f) \<and>
    vf_properties f AND static_properties = static_properties"
proof -
  have "vf_inv f" using assms by (rule built_inv)
  moreover from this have "bit (vf_properties f) 0" "bit (vf_properties f) 1"
    by (simp_all add: vf_inv_def vf_static_def)
  then have "vf_properties f AND static_properties = static_properties"
    by (intro bit_word_eqI) (auto simp: word_bits static_properties_def)
  ultimately show ?thesis
    by (simp add: vf_inv_def vf_sound_def num_epsilons_of)
qed

theorem built_fst_invariant_witness:
  "num_input_epsilons one_arc 0 = count_ieps (vf_arcs one_arc 0) \<and>
    num_output_epsilons one_arc 0 = count_oeps (vf_arcs one_arc 0) \<and>
    sound (vf_properties one_arc) (vf_states one_arc) (vf_start one_arc) \<and>
    vf_properties one_arc AND static_properties = static_properties"
  by (rule built_fst_invariant) (rule one_arc_built)

text \<open>
  C8. \<open>delete_states\<close> computes the induced sub-automaton: on an FST whose arcs and start
  lead to existing states its in-place loops never index out of range, the surviving states
  keep their order and final weights, each keeps exactly its arcs into surviving states,
  redirected to the new numbers, with recomputed counters, the start follows its state or
  disappears, and the result again only leads to existing states.
\<close>

theorem delete_states_is_induced:
  assumes "vf_closed f" "ds \<noteq> []"
  shows "delete_states f ds =
      Some (modify_properties delete_states_properties (induced (\<lambda>s. s \<notin> set ds) f)) \<and>
    vf_closed (induced (\<lambda>s. s \<notin> set ds) f)"
  using delete_states_run [OF assms] induced_closed [OF assms(1)] by simp

definition three_states :: "(nat, unit) vector_fst" where
  "three_states = add_arc (add_arc (add_states vf_new 3) 2 (arc_new 1 1 1 1)) 2 (arc_new 0 1 1 0)"

lemma three_states_closed: "vf_closed three_states"
proof -
  have "3 < usize_max" by (simp add: usize_max_def)
  then show ?thesis
    by (auto simp: three_states_def vf_closed_def add_arc_run vf_new_def
        add_states_def modify_properties_def vresize_def numeral_3_eq_3 less_Suc_eq)
qed

theorem delete_states_is_induced_witness:
  "delete_states three_states [1] =
      Some (modify_properties delete_states_properties (induced (\<lambda>s. s \<notin> set [1]) three_states)) \<and>
    vf_closed (induced (\<lambda>s. s \<notin> set [1]) three_states)"
  by (rule delete_states_is_induced) (simp_all add: three_states_closed)

text \<open>
  On an FST with exact counters \<open>delete_arcs_n\<close> always returns, its unsigned counters
  never going below zero; it drops the last \<open>n\<close> arcs of the state (all of them when there
  are fewer), touches no other state, and leaves the counters exact.
\<close>

theorem delete_arcs_n_drops_last:
  assumes "vf_counts f"
  shows "\<exists>g. delete_arcs_n f s n = Some g \<and> vf_counts g \<and>
    (\<forall>t. vf_arcs g t = (if t = s then take (length (vf_arcs f s) - n) (vf_arcs f s)
                        else vf_arcs f t))"
proof (cases "s < length (vf_states f)")
  case True
  obtain u where u: "vs_delete_arcs_n (vf_states f ! s) n = Some u" "counts_ok u"
      "vs_arcs u = take (length (vs_arcs (vf_states f ! s)) - n) (vs_arcs (vf_states f ! s))"
    using delete_arcs_n_run [OF counts_nth [OF assms True], of n] by blast
  then show ?thesis
    using True counts_update [OF assms u(2), of s]
    by (simp add: delete_arcs_n_def vf_arcs_of arcs_of_update modify_properties_def vf_counts_def)
qed (use assms in \<open>auto simp: delete_arcs_n_def vf_arcs_of\<close>)

theorem delete_arcs_n_drops_last_witness:
  "\<exists>g. delete_arcs_n one_arc 0 1 = Some g \<and> vf_counts g \<and>
    (\<forall>t. vf_arcs g t = (if t = 0 then take (length (vf_arcs one_arc 0) - 1) (vf_arcs one_arc 0)
                        else vf_arcs one_arc t))"
  by (rule delete_arcs_n_drops_last) (use built_inv [OF one_arc_built] in \<open>simp add: vf_inv_def\<close>)

text \<open>
  C26. Rewriting the arcs of a state with \<open>mutate_arcs\<close> maps the function over them and keeps
  every property bit true, whatever the function does.
\<close>

theorem mutate_arcs_keeps_bits_true:
  assumes "sound (vf_properties f) (vf_states f) (vf_start f)"
  shows "sound (vf_properties (mutate_arcs f s m)) (vf_states (mutate_arcs f s m))
      (vf_start (mutate_arcs f s m)) \<and>
    vf_arcs (mutate_arcs f s m) t = (if t = s then map m (vf_arcs f s) else vf_arcs f t)"
proof
  show "sound (vf_properties (mutate_arcs f s m)) (vf_states (mutate_arcs f s m))
      (vf_start (mutate_arcs f s m))"
    using mutate_sound [of f s m] assms by (simp add: vf_sound_def)
  show "vf_arcs (mutate_arcs f s m) t = (if t = s then map m (vf_arcs f s) else vf_arcs f t)"
    using mutate_loop_arcs [of m "vs_arcs (vf_states f ! s)" "vf_properties f"]
    by (cases "s < length (vf_states f)")
      (auto simp: mutate_arcs_def vf_arcs_of arcs_of_update split: prod.splits)
qed

definition erase_ilabel :: "nat arc \<Rightarrow> nat arc" where
  "erase_ilabel a = arc_new epsilon (olabel a) (weight a) (nextstate a)"

theorem mutate_arcs_keeps_bits_true_witness:
  "sound (vf_properties (mutate_arcs one_arc 0 erase_ilabel))
      (vf_states (mutate_arcs one_arc 0 erase_ilabel))
      (vf_start (mutate_arcs one_arc 0 erase_ilabel)) \<and>
    vf_arcs (mutate_arcs one_arc 0 erase_ilabel) 0 =
      (if (0::nat) = 0 then map erase_ilabel (vf_arcs one_arc 0) else vf_arcs one_arc 0)"
  by (rule mutate_arcs_keeps_bits_true)
    (use built_inv [OF one_arc_built] in \<open>simp add: vf_inv_def vf_sound_def\<close>)

text \<open>
  The counters are left out of the last theorem because \<open>mutate_arcs\<close> does not maintain them.  An instance:
  rewriting the only arc of a freshly built FST to an input epsilon leaves the input counter at zero, and deleting that
  arc again takes the unsigned counter below zero.
\<close>

lemma mutate_arcs_stale_counters:
  "vf_built one_arc \<and>
   num_input_epsilons (mutate_arcs one_arc 0 erase_ilabel) 0 = 0 \<and>
   count_ieps (vf_arcs (mutate_arcs one_arc 0 erase_ilabel) 0) = 1 \<and>
   delete_arcs_n (mutate_arcs one_arc 0 erase_ilabel) 0 1 = None"
proof -
  have "vf_states one_arc = [vs_add_arc vs_new (arc_new 1 1 1 0)]"
    by (simp add: one_arc_def add_arc_run set_start_def add_state_def vf_new_def
        modify_properties_def Let_def)
  then show ?thesis
    using one_arc_built
    by (simp add: num_input_epsilons_def vf_arcs_def mutate_arcs_def Let_def delete_arcs_n_def
        vs_delete_arcs_n_def vs_pop_arc_def erase_ilabel_def epsilon_def split: prod.splits)
qed

end
