(* ===== verification/ArcMap.thy ===== *)
theory ArcMap
  imports VectorFstOps
begin

text \<open>
  In-place arc mapping of \<open>algorithms/arc_map.rs\<close>, with the mappers of that file and the two
  operations built on it, \<open>algorithms/invert.rs\<close> and \<open>algorithms/project.rs\<close>.  A mapper is a
  record of its methods; the mappers of these files keep no state.  \<open>arc_map\<close> changes the
  FST also when it returns an error, so its result is the FST together with a sum.
\<close>

datatype map_final_action = NoSuperfinal | AllowSuperfinal | RequireSuperfinal

datatype map_symbols_action = ClearSymbols | CopySymbols | NoopSymbols

datatype fst_error = InvalidOperation string

record 'w arc_mapper =
  am_map :: "'w arc \<Rightarrow> 'w arc"
  am_final_action :: map_final_action
  am_input_symbols_action :: map_symbols_action
  am_output_symbols_action :: map_symbols_action
  am_properties :: "64 word \<Rightarrow> 64 word"

definition final_as_arc :: "'w \<Rightarrow> 'w arc" where
  "final_as_arc w = arc_new epsilon epsilon w no_state"

definition became_an_arc :: "'w arc \<Rightarrow> bool" where
  "became_an_arc a = (ilabel a \<noteq> epsilon \<or> olabel a \<noteq> epsilon)"

definition label_error :: fst_error where
  "label_error = InvalidOperation
     (''ArcMap: the mapper produced a labelled arc from a final weight, but said it '' @
      ''would not need a superfinal state'')"

section \<open>The loop over the states\<close>

text \<open>One iteration; \<open>Inl\<close> is the error the iteration returns with.\<close>

definition arc_map_step ::
  "'w::{zero,one} arc_mapper \<Rightarrow> state_id \<Rightarrow> ('w, 'sym) vector_fst \<times> state_id option \<Rightarrow>
   (('w, 'sym) vector_fst \<times> state_id option \<times> (fst_error + unit)) option" where
  "arc_map_step mapper s = (\<lambda>(f, superfinal).
     let f = mutate_arcs f s (am_map mapper) in
     if Some s = superfinal then Some (f, superfinal, Inr ())
     else
       let mapped = am_map mapper (final_as_arc (vf_final_weight f s)) in
       case am_final_action mapper of
         NoSuperfinal \<Rightarrow>
           if became_an_arc mapped then Some (f, superfinal, Inl label_error)
           else Some (set_final f s (weight mapped), superfinal, Inr ())
       | AllowSuperfinal \<Rightarrow>
           if became_an_arc mapped then
             let (f, superfinal, target) = (case superfinal of
                 Some t \<Rightarrow> (f, superfinal, t)
               | None \<Rightarrow> (let (f, t) = add_state f in (set_final f t 1, Some t, t)));
               f = add_arc f s (arc_new (ilabel mapped) (olabel mapped) (weight mapped) target)
             in Some (set_final f s 0, superfinal, Inr ())
           else Some (set_final f s (weight mapped), superfinal, Inr ())
       | RequireSuperfinal \<Rightarrow>
           (case superfinal of
              None \<Rightarrow> None
            | Some target \<Rightarrow>
                let f = (if became_an_arc mapped \<or> weight mapped \<noteq> 0
                  then add_arc f s (arc_new (ilabel mapped) (olabel mapped) (weight mapped) target)
                  else f)
                in Some (set_final f s 0, superfinal, Inr ())))"

fun arc_map_loop ::
  "'w::{zero,one} arc_mapper \<Rightarrow> state_id list \<Rightarrow> ('w, 'sym) vector_fst \<times> state_id option \<Rightarrow>
   (('w, 'sym) vector_fst \<times> (fst_error + unit)) option" where
  "arc_map_loop mapper [] (f, superfinal) = Some (f, Inr ())"
| "arc_map_loop mapper (s # states) (f, superfinal) = do {
     (f, superfinal, r) \<leftarrow> arc_map_step mapper s (f, superfinal);
     (case r of Inl e \<Rightarrow> Some (f, Inl e) | Inr _ \<Rightarrow> arc_map_loop mapper states (f, superfinal)) }"

definition arc_map ::
  "'w::{zero,one} arc_mapper \<Rightarrow> ('w, 'sym) vector_fst \<Rightarrow>
   (('w, 'sym) vector_fst \<times> (fst_error + unit)) option" where
  "arc_map mapper f =
     (let f = (if am_input_symbols_action mapper = ClearSymbols then set_input_symbols f None else f);
          f = (if am_output_symbols_action mapper = ClearSymbols then set_output_symbols f None else f)
      in if vf_start f = None then Some (f, Inr ())
      else
        let props = vf_properties f AND K_FST_PROPERTIES;
            (f, superfinal) = (if am_final_action mapper = RequireSuperfinal
              then (let (f, s) = add_state f in (set_final f s 1, Some s)) else (f, None))
        in do {
          (f, r) \<leftarrow> arc_map_loop mapper [0..<length (vf_states f)] (f, superfinal);
          (case r of Inl e \<Rightarrow> Some (f, Inl e)
           | Inr _ \<Rightarrow> Some (set_properties f (am_properties mapper props) K_FST_PROPERTIES, Inr ())) })"

section \<open>The mappers\<close>

definition identity_mapper :: "'w arc_mapper" where
  "identity_mapper = \<lparr>am_map = (\<lambda>a. a), am_final_action = NoSuperfinal,
     am_input_symbols_action = CopySymbols, am_output_symbols_action = CopySymbols,
     am_properties = (\<lambda>props. props)\<rparr>"

definition input_epsilon_mapper :: "'w arc_mapper" where
  "input_epsilon_mapper =
     \<lparr>am_map = (\<lambda>a. arc_new epsilon (olabel a) (weight a) (nextstate a)),
      am_final_action = NoSuperfinal, am_input_symbols_action = ClearSymbols,
      am_output_symbols_action = CopySymbols,
      am_properties = (\<lambda>props. (project_properties props False AND K_SET_ARC_PROPERTIES)
        OR K_I_EPSILONS OR K_I_LABEL_SORTED)\<rparr>"

definition output_epsilon_mapper :: "'w arc_mapper" where
  "output_epsilon_mapper =
     \<lparr>am_map = (\<lambda>a. arc_new (ilabel a) epsilon (weight a) (nextstate a)),
      am_final_action = NoSuperfinal, am_input_symbols_action = CopySymbols,
      am_output_symbols_action = ClearSymbols,
      am_properties = (\<lambda>props. (project_properties props True AND K_SET_ARC_PROPERTIES)
        OR K_O_EPSILONS OR K_O_LABEL_SORTED)\<rparr>"

definition super_final_mapper :: "'w arc_mapper" where
  "super_final_mapper = \<lparr>am_map = (\<lambda>a. a), am_final_action = RequireSuperfinal,
     am_input_symbols_action = CopySymbols, am_output_symbols_action = CopySymbols,
     am_properties = (\<lambda>props. props AND K_ADD_SUPER_FINAL_PROPERTIES)\<rparr>"

definition times_mapper :: "'w::times \<Rightarrow> 'w arc_mapper" where
  "times_mapper w =
     \<lparr>am_map = (\<lambda>a. arc_new (ilabel a) (olabel a) (w * weight a) (nextstate a)),
      am_final_action = NoSuperfinal, am_input_symbols_action = CopySymbols,
      am_output_symbols_action = CopySymbols,
      am_properties = (\<lambda>props. props AND K_WEIGHT_INVARIANT_PROPERTIES)\<rparr>"

definition plus_mapper :: "'w::plus \<Rightarrow> 'w arc_mapper" where
  "plus_mapper w =
     \<lparr>am_map = (\<lambda>a. arc_new (ilabel a) (olabel a) (w + weight a) (nextstate a)),
      am_final_action = NoSuperfinal, am_input_symbols_action = CopySymbols,
      am_output_symbols_action = CopySymbols,
      am_properties = (\<lambda>props. props AND K_WEIGHT_INVARIANT_PROPERTIES)\<rparr>"

definition rm_weight_mapper :: "'w::{zero,one} arc_mapper" where
  "rm_weight_mapper =
     \<lparr>am_map = (\<lambda>a. arc_new (ilabel a) (olabel a) (if weight a = 0 then 0 else 1) (nextstate a)),
      am_final_action = NoSuperfinal, am_input_symbols_action = CopySymbols,
      am_output_symbols_action = CopySymbols,
      am_properties = (\<lambda>props. (props AND K_WEIGHT_INVARIANT_PROPERTIES) OR K_UNWEIGHTED)\<rparr>"

definition invert_mapper :: "'w arc_mapper" where
  "invert_mapper =
     \<lparr>am_map = (\<lambda>a. arc_new (olabel a) (ilabel a) (weight a) (nextstate a)),
      am_final_action = NoSuperfinal, am_input_symbols_action = ClearSymbols,
      am_output_symbols_action = ClearSymbols, am_properties = invert_properties\<rparr>"

datatype project_type = ProjectInput | ProjectOutput

definition project_mapper :: "project_type \<Rightarrow> 'w arc_mapper" where
  "project_mapper t =
     \<lparr>am_map = (\<lambda>a. let l = (case t of ProjectInput \<Rightarrow> ilabel a | ProjectOutput \<Rightarrow> olabel a)
        in arc_new l l (weight a) (nextstate a)),
      am_final_action = NoSuperfinal,
      am_input_symbols_action = (case t of ProjectInput \<Rightarrow> CopySymbols | ProjectOutput \<Rightarrow> ClearSymbols),
      am_output_symbols_action = (case t of ProjectOutput \<Rightarrow> CopySymbols | ProjectInput \<Rightarrow> ClearSymbols),
      am_properties = (\<lambda>props. project_properties props (t = ProjectInput))\<rparr>"

section \<open>Invert and project\<close>

definition invert ::
  "('w::{zero,one}, 'sym) vector_fst \<Rightarrow> (('w, 'sym) vector_fst \<times> (fst_error + unit)) option" where
  "invert f = do {
     let input = vf_isymbols f;
     let output = vf_osymbols f;
     (f, r) \<leftarrow> arc_map invert_mapper f;
     (case r of Inl e \<Rightarrow> Some (f, Inl e)
      | Inr _ \<Rightarrow> Some (set_output_symbols (set_input_symbols f output) input, Inr ())) }"

definition project ::
  "project_type \<Rightarrow> ('w::{zero,one}, 'sym) vector_fst \<Rightarrow>
   (('w, 'sym) vector_fst \<times> (fst_error + unit)) option" where
  "project t f = do {
     (f, r) \<leftarrow> arc_map (project_mapper t) f;
     (case r of Inl e \<Rightarrow> Some (f, Inl e)
      | Inr _ \<Rightarrow> Some (case t of ProjectInput \<Rightarrow> set_output_symbols f (vf_isymbols f)
          | ProjectOutput \<Rightarrow> set_input_symbols f (vf_osymbols f), Inr ())) }"

section \<open>What the loop computes\<close>

text \<open>A mapper that keeps final weights final: it asks for no superfinal state and gives no
  labels to a final weight.\<close>

definition keeps_finals :: "'w arc_mapper \<Rightarrow> bool" where
  "keeps_finals mapper \<longleftrightarrow> am_final_action mapper = NoSuperfinal \<and>
     (\<forall>w. \<not> became_an_arc (am_map mapper (final_as_arc w)))"

definition map_final :: "'w arc_mapper \<Rightarrow> 'w \<Rightarrow> 'w" where
  "map_final mapper w = weight (am_map mapper (final_as_arc w))"

definition map_state :: "'w arc_mapper \<Rightarrow> 'w vector_state \<Rightarrow> 'w vector_state" where
  "map_state mapper v =
     v\<lparr>vs_arcs := map (am_map mapper) (vs_arcs v), vs_final := map_final mapper (vs_final v)\<rparr>"

lemma map_state_sel [simp]:
  "vs_arcs (map_state mapper v) = map (am_map mapper) (vs_arcs v)"
  "vs_final (map_state mapper v) = map_final mapper (vs_final v)"
  by (simp_all add: map_state_def)

text \<open>Everything but the bits, which the loop leaves to \<open>set_properties\<close>, and \<open>K_ERROR\<close>.\<close>

definition same_frame :: "('w, 'sym) vector_fst \<Rightarrow> ('w, 'sym) vector_fst \<Rightarrow> bool" where
  "same_frame f g \<longleftrightarrow> vf_start g = vf_start f \<and> vf_isymbols g = vf_isymbols f \<and>
     vf_osymbols g = vf_osymbols f \<and> bit (vf_properties g) 2 = bit (vf_properties f) 2"

lemma mutate_loop_error: "bit (snd (mutate_arcs_loop m as p)) 2 = bit p 2"
  by (induction as arbitrary: p) (simp_all add: Let_def set_arc_bits case_prod_unfold)

lemma mutate_frame: "same_frame f (mutate_arcs f s m)"
proof (cases "s < length (vf_states f)")
  case True
  then show ?thesis
    using mutate_loop_error [of m "vs_arcs (vf_states f ! s)" "vf_properties f"]
    by (simp add: mutate_arcs_def same_frame_def case_prod_unfold Let_def)
qed (simp add: mutate_arcs_def same_frame_def)

lemma set_final_frame: "same_frame f (set_final f s w)"
proof -
  have "bit (set_final_properties p u w) 2 = bit p 2" for p u
    unfolding set_final_properties_def Let_def mask_defs by (simp add: word_bits)
  then show ?thesis
    by (auto simp: set_final_def same_frame_def modify_properties_def Let_def split: option.splits)
qed

lemma frame_trans: "same_frame f g \<Longrightarrow> same_frame g h \<Longrightarrow> same_frame f h"
  by (simp add: same_frame_def)

lemma mutate_states:
  "s < length (vf_states f) \<Longrightarrow>
   vf_states (mutate_arcs f s m) =
     (vf_states f)[s := (vf_states f ! s)\<lparr>vs_arcs := map m (vs_arcs (vf_states f ! s))\<rparr>]"
  using mutate_loop_arcs [of m "vs_arcs (vf_states f ! s)" "vf_properties f"]
  by (auto simp: mutate_arcs_def split: prod.splits)

lemma set_final_states:
  "s < length (vf_states f) \<Longrightarrow>
   vf_states (set_final f s w) = (vf_states f)[s := (vf_states f ! s)\<lparr>vs_final := w\<rparr>]"
  by (simp add: set_final_def modify_properties_def Let_def)

lemma arc_map_step_run:
  assumes "keeps_finals mapper" "s < length (vf_states f)"
  shows "\<exists>g. arc_map_step mapper s (f, None) = Some (g, None, Inr ()) \<and> same_frame f g \<and>
    vf_states g = (vf_states f)[s := map_state mapper (vf_states f ! s)]"
proof -
  let ?g = "mutate_arcs f s (am_map mapper)"
  have g: "vf_states ?g = (vf_states f)[s := (vf_states f ! s)
      \<lparr>vs_arcs := map (am_map mapper) (vs_arcs (vf_states f ! s))\<rparr>]"
    by (rule mutate_states) (rule assms(2))
  then have "vf_final_weight ?g s = vs_final (vf_states f ! s)"
    using assms(2) by (simp add: vf_final_weight_def)
  then have "arc_map_step mapper s (f, None) =
      Some (set_final ?g s (map_final mapper (vs_final (vf_states f ! s))), None, Inr ())"
    using assms(1) by (simp add: arc_map_step_def keeps_finals_def map_final_def Let_def)
  moreover have "vf_states (set_final ?g s (map_final mapper (vs_final (vf_states f ! s)))) =
      (vf_states f)[s := map_state mapper (vf_states f ! s)]"
    using assms(2) g by (simp add: set_final_states map_state_def)
  ultimately show ?thesis
    using frame_trans [OF mutate_frame set_final_frame] by blast
qed

lemma arc_map_loop_run:
  assumes "keeps_finals mapper"
  shows "k \<le> length (vf_states f) \<Longrightarrow>
    \<exists>g. arc_map_loop mapper [k..<length (vf_states f)] (f, None) = Some (g, Inr ()) \<and>
      same_frame f g \<and>
      vf_states g = take k (vf_states f) @ map (map_state mapper) (drop k (vf_states f))"
proof (induction "length (vf_states f) - k" arbitrary: k f)
  case 0
  then show ?case by (simp add: same_frame_def)
next
  case (Suc n)
  then have k: "k < length (vf_states f)" by simp
  obtain g where g: "arc_map_step mapper k (f, None) = Some (g, None, Inr ())" "same_frame f g"
      "vf_states g = (vf_states f)[k := map_state mapper (vf_states f ! k)]"
    using arc_map_step_run [OF assms k] by blast
  have len: "length (vf_states g) = length (vf_states f)" by (simp add: g(3))
  have "n = length (vf_states g) - Suc k" "Suc k \<le> length (vf_states g)"
    using Suc.hyps(2) k by (simp_all add: len)
  from Suc.hyps(1) [OF this]
  obtain h where h: "arc_map_loop mapper [Suc k..<length (vf_states f)] (g, None) = Some (h, Inr ())"
      "same_frame g h"
      "vf_states h = take (Suc k) (vf_states g) @ map (map_state mapper) (drop (Suc k) (vf_states g))"
    by (auto simp: len)
  have "[k..<length (vf_states f)] = k # [Suc k..<length (vf_states f)]"
    using k by (simp add: upt_conv_Cons)
  moreover have "vf_states h = take k (vf_states f) @ map (map_state mapper) (drop k (vf_states f))"
    using k by (simp add: h(3) g(3) take_Suc_conv_app_nth Cons_nth_drop_Suc [symmetric])
  ultimately show ?case
    using g(1) h(1) frame_trans [OF g(2) h(2)] by simp
qed

text \<open>The whole of \<open>arc_map\<close> on an FST with a start state.\<close>

lemma arc_map_run:
  assumes "keeps_finals mapper" "vf_start f \<noteq> None"
  shows "\<exists>g. arc_map mapper f = Some (g, Inr ()) \<and>
    vf_states g = map (map_state mapper) (vf_states f) \<and> vf_start g = vf_start f \<and>
    vf_isymbols g = (if am_input_symbols_action mapper = ClearSymbols then None else vf_isymbols f) \<and>
    vf_osymbols g = (if am_output_symbols_action mapper = ClearSymbols then None else vf_osymbols f) \<and>
    (\<forall>i. 16 \<le> i \<longrightarrow> i < 48 \<longrightarrow>
       bit (vf_properties g) i = bit (am_properties mapper (vf_properties f AND K_FST_PROPERTIES)) i)"
proof -
  define f1 where "f1 = (if am_input_symbols_action mapper = ClearSymbols then set_input_symbols f None else f)"
  define f2 where "f2 = (if am_output_symbols_action mapper = ClearSymbols then set_output_symbols f1 None else f1)"
  have f2: "vf_states f2 = vf_states f" "vf_start f2 = vf_start f" "vf_properties f2 = vf_properties f"
    "vf_isymbols f2 = (if am_input_symbols_action mapper = ClearSymbols then None else vf_isymbols f)"
    "vf_osymbols f2 = (if am_output_symbols_action mapper = ClearSymbols then None else vf_osymbols f)"
    by (simp_all add: f2_def f1_def set_input_symbols_def set_output_symbols_def)
  obtain g where g: "arc_map_loop mapper [0..<length (vf_states f2)] (f2, None) = Some (g, Inr ())"
      "same_frame f2 g" "vf_states g = map (map_state mapper) (vf_states f2)"
    using arc_map_loop_run [OF assms(1), of 0 f2] by auto
  let ?h = "set_properties g (am_properties mapper (vf_properties f AND K_FST_PROPERTIES)) K_FST_PROPERTIES"
  obtain q where "vf_start f = Some q" using assms(2) by blast
  then have "arc_map mapper f = Some (?h, Inr ())"
    using assms(1) g(1) f2(1,2,3)
    by (simp add: arc_map_def f1_def [symmetric] f2_def [symmetric] keeps_finals_def)
  then show ?thesis
    using g f2 by (auto simp: set_properties_def modify_properties_def same_frame_def word_bits
        bit_fst_properties)
qed

section \<open>The claims of the mapped FST\<close>

lemma sound_cong:
  assumes "\<And>i. 16 \<le> i \<Longrightarrow> i < 48 \<Longrightarrow> bit q i = bit p i"
  shows "sound q ss start = sound p ss start"
  unfolding claim_bits using assms by simp

lemma sound_and: "sound p ss start \<Longrightarrow> sound (p AND m) ss start"
  unfolding claim_bits by (simp add: word_bits)

lemma arcs_of_mapped: "arcs_of (map (map_state mapper) ss) s = map (am_map mapper) (arcs_of ss s)"
  by (simp add: arcs_of_def)

lemma mapped_arcs:
  "all_arcs (map (map_state mapper) ss) P \<longleftrightarrow> all_arcs ss (\<lambda>a. P (am_map mapper a))"
  "each_state (map (map_state mapper) ss) Q \<longleftrightarrow> each_state ss (\<lambda>as. Q (map (am_map mapper) as))"
  by (auto simp: all_arcs_def each_state_def arcs_of_mapped)

lemma mapped_edges:
  assumes "\<And>a. nextstate (am_map mapper a) = nextstate a"
  shows "edges (map (map_state mapper) ss) = edges ss"
proof -
  have "(s, t) \<in> edges (map (map_state mapper) ss) \<longleftrightarrow> (s, t) \<in> edges ss" for s t
    by (auto simp: edges_iff arcs_of_mapped assms)
  then show ?thesis by auto
qed

lemma mapped_graph:
  assumes "\<And>a. nextstate (am_map mapper a) = nextstate a"
  defines "ss' \<equiv> \<lambda>ss. map (map_state mapper) ss"
  shows "is_cyclic (ss' ss) = is_cyclic ss" "is_initial_cyclic (ss' ss) start = is_initial_cyclic ss start"
    "is_top_sorted (ss' ss) = is_top_sorted ss" "is_accessible (ss' ss) start = is_accessible ss start"
  by (simp_all add: ss'_def is_cyclic_def is_initial_cyclic_def is_top_sorted_def is_accessible_def
      mapped_edges [OF assms(1)])

lemma mapped_finals:
  assumes "\<And>a. nextstate (am_map mapper a) = nextstate a" "\<And>w. map_final mapper w = 0 \<longleftrightarrow> w = 0"
  defines "ss' \<equiv> \<lambda>ss. map (map_state mapper) ss"
  shows "is_coaccessible (ss' ss) = is_coaccessible ss" "is_string (ss' ss) start = is_string ss start"
proof -
  have e: "edges (ss' ss) = edges ss" unfolding ss'_def by (rule mapped_edges) (rule assms(1))
  show "is_coaccessible (ss' ss) = is_coaccessible ss"
    unfolding is_coaccessible_def e by (simp add: ss'_def assms(2) cong: conj_cong)
  show "is_string (ss' ss) start = is_string ss start"
    unfolding is_string_def e by (simp add: ss'_def assms(2))
qed

lemma mapped_weights:
  assumes "\<And>a. nextstate (am_map mapper a) = nextstate a" "\<And>w. map_final mapper w = w"
    "\<And>a. weight (am_map mapper a) = weight a"
  defines "ss' \<equiv> \<lambda>ss. map (map_state mapper) ss"
  shows "is_weighted (ss' ss) = is_weighted ss" "has_weighted_cycles (ss' ss) = has_weighted_cycles ss"
proof -
  have e: "edges (ss' ss) = edges ss" unfolding ss'_def by (rule mapped_edges) (rule assms(1))
  show "is_weighted (ss' ss) = is_weighted ss"
    by (simp add: is_weighted_def ss'_def mapped_arcs assms(2,3))
  show "has_weighted_cycles (ss' ss) = has_weighted_cycles ss"
    unfolding has_weighted_cycles_def e by (simp add: ss'_def arcs_of_mapped assms(1,3))
qed

subsection \<open>Invert\<close>

lemma invert_mapper_sel [simp]:
  "ilabel (am_map invert_mapper a) = olabel a" "olabel (am_map invert_mapper a) = ilabel a"
  "weight (am_map invert_mapper a) = weight a" "nextstate (am_map invert_mapper a) = nextstate a"
  "map_final invert_mapper w = w" "am_properties invert_mapper = invert_properties"
  "keeps_finals invert_mapper"
  by (simp_all add: invert_mapper_def map_final_def final_as_arc_def keeps_finals_def became_an_arc_def)

lemma inverted_claims:
  defines "ss' \<equiv> \<lambda>ss. map (map_state invert_mapper) ss"
  shows "is_acceptor (ss' ss) = is_acceptor ss" "i_deterministic (ss' ss) = o_deterministic ss"
    "o_deterministic (ss' ss) = i_deterministic ss" "has_epsilons (ss' ss) = has_epsilons ss"
    "has_iepsilons (ss' ss) = has_oepsilons ss" "has_oepsilons (ss' ss) = has_iepsilons ss"
    "i_label_sorted (ss' ss) = o_label_sorted ss" "o_label_sorted (ss' ss) = i_label_sorted ss"
proof -
  have *: "ilabel \<circ> am_map invert_mapper = olabel" "olabel \<circ> am_map invert_mapper = ilabel" by auto
  show "is_acceptor (ss' ss) = is_acceptor ss" "i_deterministic (ss' ss) = o_deterministic ss"
    "o_deterministic (ss' ss) = i_deterministic ss" "has_epsilons (ss' ss) = has_epsilons ss"
    "has_iepsilons (ss' ss) = has_oepsilons ss" "has_oepsilons (ss' ss) = has_iepsilons ss"
    "i_label_sorted (ss' ss) = o_label_sorted ss" "o_label_sorted (ss' ss) = i_label_sorted ss"
    unfolding ss'_def is_acceptor_def i_deterministic_def o_deterministic_def has_epsilons_def
      has_iepsilons_def has_oepsilons_def i_label_sorted_def o_label_sorted_def mapped_arcs
    by (simp_all only: map_map * invert_mapper_sel eq_commute conj_commute)
qed

lemma invert_bits:
  defines "b \<equiv> \<lambda>p. bit (invert_properties p)"
  shows "b p 16 = bit p 16" "b p 17 = bit p 17" "b p 18 = bit p 20" "b p 19 = bit p 21"
    "b p 20 = bit p 18" "b p 21 = bit p 19" "b p 22 = bit p 22" "b p 23 = bit p 23"
    "b p 24 = bit p 26" "b p 25 = bit p 27" "b p 26 = bit p 24" "b p 27 = bit p 25"
    "b p 28 = bit p 30" "b p 29 = bit p 31" "b p 30 = bit p 28" "b p 31 = bit p 29"
    "b p 32 = bit p 32" "b p 33 = bit p 33" "b p 34 = bit p 34" "b p 35 = bit p 35"
    "b p 36 = bit p 36" "b p 37 = bit p 37" "b p 38 = bit p 38" "b p 39 = bit p 39"
    "b p 40 = bit p 40" "b p 41 = bit p 41" "b p 42 = bit p 42" "b p 43 = bit p 43"
    "b p 44 = bit p 44" "b p 45 = bit p 45" "b p 46 = bit p 46" "b p 47 = bit p 47"
  unfolding b_def invert_properties_def
  unfolding cond_masks
  unfolding Let_def
  by (simp add: word_bits bit_cond split del: if_split)+

lemma inverted_sound:
  assumes "sound p ss start"
  shows "sound (invert_properties p) (map (map_state invert_mapper) ss) start"
  using assms unfolding claim_bits
  by (simp add: invert_bits inverted_claims mapped_graph mapped_finals mapped_weights)

subsection \<open>Project\<close>

lemma project_input_bits:
  defines "b \<equiv> \<lambda>p. bit (project_properties p True)"
  shows "b p 16 = True" "b p 17 = False" "b p 18 = bit p 18" "b p 19 = bit p 19"
    "b p 20 = bit p 18" "b p 21 = bit p 19" "b p 22 = bit p 24" "b p 23 = bit p 25"
    "b p 24 = bit p 24" "b p 25 = bit p 25" "b p 26 = bit p 24" "b p 27 = bit p 25"
    "b p 28 = bit p 28" "b p 29 = bit p 29" "b p 30 = bit p 28" "b p 31 = bit p 29"
    "b p 32 = bit p 32" "b p 33 = bit p 33" "b p 34 = bit p 34" "b p 35 = bit p 35"
    "b p 36 = bit p 36" "b p 37 = bit p 37" "b p 38 = bit p 38" "b p 39 = bit p 39"
    "b p 40 = bit p 40" "b p 41 = bit p 41" "b p 42 = bit p 42" "b p 43 = bit p 43"
    "b p 44 = bit p 44" "b p 45 = bit p 45" "b p 46 = bit p 46" "b p 47 = bit p 47"
  unfolding b_def project_properties_def if_True if_False
  unfolding cond_masks
  unfolding Let_def
  by (simp add: word_bits bit_cond split del: if_split)+

lemma project_output_bits:
  defines "b \<equiv> \<lambda>p. bit (project_properties p False)"
  shows "b p 16 = True" "b p 17 = False" "b p 18 = bit p 20" "b p 19 = bit p 21"
    "b p 20 = bit p 20" "b p 21 = bit p 21" "b p 22 = bit p 26" "b p 23 = bit p 27"
    "b p 24 = bit p 26" "b p 25 = bit p 27" "b p 26 = bit p 26" "b p 27 = bit p 27"
    "b p 28 = bit p 30" "b p 29 = bit p 31" "b p 30 = bit p 30" "b p 31 = bit p 31"
    "b p 32 = bit p 32" "b p 33 = bit p 33" "b p 34 = bit p 34" "b p 35 = bit p 35"
    "b p 36 = bit p 36" "b p 37 = bit p 37" "b p 38 = bit p 38" "b p 39 = bit p 39"
    "b p 40 = bit p 40" "b p 41 = bit p 41" "b p 42 = bit p 42" "b p 43 = bit p 43"
    "b p 44 = bit p 44" "b p 45 = bit p 45" "b p 46 = bit p 46" "b p 47 = bit p 47"
  unfolding b_def project_properties_def if_True if_False
  unfolding cond_masks
  unfolding Let_def
  by (simp add: word_bits bit_cond split del: if_split)+

lemma project_mapper_sel [simp]:
  "ilabel (am_map (project_mapper t) a) = (case t of ProjectInput \<Rightarrow> ilabel a | ProjectOutput \<Rightarrow> olabel a)"
  "olabel (am_map (project_mapper t) a) = (case t of ProjectInput \<Rightarrow> ilabel a | ProjectOutput \<Rightarrow> olabel a)"
  "weight (am_map (project_mapper t) a) = weight a"
  "nextstate (am_map (project_mapper t) a) = nextstate a"
  "map_final (project_mapper t) w = w" "keeps_finals (project_mapper t)"
  "am_properties (project_mapper t) p = project_properties p (t = ProjectInput)"
  by (simp_all add: project_mapper_def map_final_def final_as_arc_def keeps_finals_def
      became_an_arc_def Let_def split: project_type.splits)

lemma projected_claims:
  defines "ss' \<equiv> \<lambda>t ss. map (map_state (project_mapper t)) ss"
  shows "is_acceptor (ss' t ss)"
    "i_deterministic (ss' ProjectInput ss) = i_deterministic ss"
    "o_deterministic (ss' ProjectInput ss) = i_deterministic ss"
    "i_label_sorted (ss' ProjectInput ss) = i_label_sorted ss"
    "o_label_sorted (ss' ProjectInput ss) = i_label_sorted ss"
    "has_epsilons (ss' ProjectInput ss) = has_iepsilons ss"
    "has_iepsilons (ss' ProjectInput ss) = has_iepsilons ss"
    "has_oepsilons (ss' ProjectInput ss) = has_iepsilons ss"
    "i_deterministic (ss' ProjectOutput ss) = o_deterministic ss"
    "o_deterministic (ss' ProjectOutput ss) = o_deterministic ss"
    "i_label_sorted (ss' ProjectOutput ss) = o_label_sorted ss"
    "o_label_sorted (ss' ProjectOutput ss) = o_label_sorted ss"
    "has_epsilons (ss' ProjectOutput ss) = has_oepsilons ss"
    "has_iepsilons (ss' ProjectOutput ss) = has_oepsilons ss"
    "has_oepsilons (ss' ProjectOutput ss) = has_oepsilons ss"
proof -
  have *: "ilabel \<circ> am_map (project_mapper ProjectInput) = ilabel"
    "olabel \<circ> am_map (project_mapper ProjectInput) = ilabel"
    "ilabel \<circ> am_map (project_mapper ProjectOutput) = olabel"
    "olabel \<circ> am_map (project_mapper ProjectOutput) = olabel" by auto
  note defs = ss'_def is_acceptor_def i_deterministic_def o_deterministic_def has_epsilons_def
    has_iepsilons_def has_oepsilons_def i_label_sorted_def o_label_sorted_def mapped_arcs map_map *
  show "is_acceptor (ss' t ss)" unfolding defs by (simp add: all_arcs_def)
  show "i_deterministic (ss' ProjectInput ss) = i_deterministic ss"
    "o_deterministic (ss' ProjectInput ss) = i_deterministic ss"
    "i_label_sorted (ss' ProjectInput ss) = i_label_sorted ss"
    "o_label_sorted (ss' ProjectInput ss) = i_label_sorted ss"
    "i_deterministic (ss' ProjectOutput ss) = o_deterministic ss"
    "o_deterministic (ss' ProjectOutput ss) = o_deterministic ss"
    "i_label_sorted (ss' ProjectOutput ss) = o_label_sorted ss"
    "o_label_sorted (ss' ProjectOutput ss) = o_label_sorted ss"
    unfolding defs by (rule refl)+
  show "has_epsilons (ss' ProjectInput ss) = has_iepsilons ss"
    "has_iepsilons (ss' ProjectInput ss) = has_iepsilons ss"
    "has_oepsilons (ss' ProjectInput ss) = has_iepsilons ss"
    "has_epsilons (ss' ProjectOutput ss) = has_oepsilons ss"
    "has_iepsilons (ss' ProjectOutput ss) = has_oepsilons ss"
    "has_oepsilons (ss' ProjectOutput ss) = has_oepsilons ss"
    unfolding defs by simp_all
qed

lemma projected_sound:
  assumes "sound p ss start"
  shows "sound (project_properties p (t = ProjectInput)) (map (map_state (project_mapper t)) ss) start"
proof (cases t)
  case ProjectInput
  then show ?thesis using assms unfolding claim_bits
    by (simp add: project_input_bits projected_claims mapped_graph mapped_finals mapped_weights)
next
  case ProjectOutput
  then show ?thesis using assms unfolding claim_bits
    by (simp add: project_output_bits projected_claims mapped_graph mapped_finals mapped_weights)
qed

section \<open>Properties\<close>

definition swap_labels :: "'w arc \<Rightarrow> 'w arc" where
  "swap_labels a = arc_new (olabel a) (ilabel a) (weight a) (nextstate a)"

lemma swap_swap: "swap_labels (swap_labels a) = a"
  by (simp add: swap_labels_def arc_new_def)

lemma invert_map_swap: "am_map invert_mapper = swap_labels"
  by (auto simp: invert_mapper_def swap_labels_def)

lemma map_state_invert: "map_state invert_mapper v = v\<lparr>vs_arcs := map swap_labels (vs_arcs v)\<rparr>"
  by (simp add: map_state_def invert_map_swap)

lemma invert_run:
  assumes "vf_start f \<noteq> None"
  shows "\<exists>g. invert f = Some (g, Inr ()) \<and>
    vf_states g = map (\<lambda>v. v\<lparr>vs_arcs := map swap_labels (vs_arcs v)\<rparr>) (vf_states f) \<and>
    vf_start g = vf_start f \<and> vf_isymbols g = vf_osymbols f \<and> vf_osymbols g = vf_isymbols f \<and>
    (vf_sound f \<longrightarrow> vf_sound g)"
proof -
  obtain g where g: "arc_map invert_mapper f = Some (g, Inr ())"
      "vf_states g = map (map_state invert_mapper) (vf_states f)" "vf_start g = vf_start f"
      "\<And>i. 16 \<le> i \<Longrightarrow> i < 48 \<Longrightarrow>
         bit (vf_properties g) i = bit (invert_properties (vf_properties f AND K_FST_PROPERTIES)) i"
    using arc_map_run [of invert_mapper f] assms by auto
  have "vf_sound g" if "vf_sound f"
  proof -
    have "sound (invert_properties (vf_properties f AND K_FST_PROPERTIES))
        (map (map_state invert_mapper) (vf_states f)) (vf_start f)"
      using that by (intro inverted_sound sound_and) (simp add: vf_sound_def)
    then show ?thesis unfolding vf_sound_def g(2,3) using sound_cong [OF g(4)] by blast
  qed
  then show ?thesis
    using g(1,2,3) by (auto simp: invert_def set_input_symbols_def set_output_symbols_def
        map_state_invert vf_sound_def)
qed

text \<open>
  C19. \<open>invert\<close> on an FST with a start state succeeds, swaps the labels of every arc and the
  symbol tables, keeps weights, destinations, final weights and the start, and the word it
  computes with \<open>invert_properties\<close> is true of the inverted FST.
\<close>

theorem invert_correct:
  assumes "vf_start f \<noteq> None" "sound (vf_properties f) (vf_states f) (vf_start f)"
  shows "\<exists>g. invert f = Some (g, Inr ()) \<and>
    (\<forall>s. vf_arcs g s = map swap_labels (vf_arcs f s) \<and> vf_final_weight g s = vf_final_weight f s) \<and>
    vf_start g = vf_start f \<and> vf_isymbols g = vf_osymbols f \<and> vf_osymbols g = vf_isymbols f \<and>
    sound (vf_properties g) (vf_states g) (vf_start g)"
proof -
  obtain g where "invert f = Some (g, Inr ())"
    "vf_states g = map (\<lambda>v. v\<lparr>vs_arcs := map swap_labels (vs_arcs v)\<rparr>) (vf_states f)"
    "vf_start g = vf_start f" "vf_isymbols g = vf_osymbols f" "vf_osymbols g = vf_isymbols f"
    "vf_sound g"
    using invert_run [OF assms(1)] assms(2) unfolding vf_sound_def by blast
  then show ?thesis
    by (simp add: vf_sound_def vf_arcs_def vf_final_weight_def vget_def)
qed

lemma one_arc_start: "vf_start one_arc = Some 0"
  by (simp add: one_arc_def add_arc_run set_start_def add_state_def vf_new_def
      modify_properties_def Let_def no_state_def)

lemma one_arc_sound: "sound (vf_properties one_arc) (vf_states one_arc) (vf_start one_arc)"
  using built_inv [OF one_arc_built] by (simp add: vf_inv_def vf_sound_def)

theorem invert_correct_witness:
  "\<exists>g. invert one_arc = Some (g, Inr ()) \<and>
    (\<forall>s. vf_arcs g s = map swap_labels (vf_arcs one_arc s) \<and>
       vf_final_weight g s = vf_final_weight one_arc s) \<and>
    vf_start g = vf_start one_arc \<and> vf_isymbols g = vf_osymbols one_arc \<and>
    vf_osymbols g = vf_isymbols one_arc \<and>
    sound (vf_properties g) (vf_states g) (vf_start g)"
  by (rule invert_correct [OF _ one_arc_sound]) (simp add: one_arc_start)

text \<open>
  Inverting twice gives back the states, the start and the symbol tables.
\<close>

theorem invert_twice:
  assumes "vf_start f \<noteq> None"
  shows "\<exists>g h. invert f = Some (g, Inr ()) \<and> invert g = Some (h, Inr ()) \<and>
    vf_states h = vf_states f \<and> vf_start h = vf_start f \<and>
    vf_isymbols h = vf_isymbols f \<and> vf_osymbols h = vf_osymbols f"
proof -
  obtain g where g: "invert f = Some (g, Inr ())"
    "vf_states g = map (\<lambda>v. v\<lparr>vs_arcs := map swap_labels (vs_arcs v)\<rparr>) (vf_states f)"
    "vf_start g = vf_start f" "vf_isymbols g = vf_osymbols f" "vf_osymbols g = vf_isymbols f"
    using invert_run [OF assms] by blast
  obtain h where h: "invert g = Some (h, Inr ())"
    "vf_states h = map (\<lambda>v. v\<lparr>vs_arcs := map swap_labels (vs_arcs v)\<rparr>) (vf_states g)"
    "vf_start h = vf_start g" "vf_isymbols h = vf_osymbols g" "vf_osymbols h = vf_isymbols g"
    using invert_run [of g] assms g(3) by auto
  have "vf_states h = vf_states f" by (simp add: h(2) g(2) comp_def swap_swap)
  with g h show ?thesis by auto
qed

theorem invert_twice_witness:
  "\<exists>g h. invert one_arc = Some (g, Inr ()) \<and> invert g = Some (h, Inr ()) \<and>
    vf_states h = vf_states one_arc \<and> vf_start h = vf_start one_arc \<and>
    vf_isymbols h = vf_isymbols one_arc \<and> vf_osymbols h = vf_osymbols one_arc"
  by (rule invert_twice) (simp add: one_arc_start)

text \<open>
  Without a start state \<open>invert\<close> still swaps the symbol tables but returns before it has
  touched an arc: the labels stay on their old sides while the tables that name them change
  places.
\<close>

theorem invert_without_start_keeps_labels:
  "\<exists>f g. vf_built f \<and> invert (set_input_symbols f (Some ())) = Some (g, Inr ()) \<and>
     vf_isymbols g = None \<and> vf_osymbols g = Some () \<and>
     vf_arcs g 0 = [arc_new 1 2 1 0] \<and> vf_arcs f 0 = [arc_new 1 2 (1::nat) 0]"
proof -
  define f :: "(nat, unit) vector_fst" where "f = add_arc (fst (add_state vf_new)) 0 (arc_new 1 2 1 0)"
  have "vf_built (fst (add_state vf_new) :: (nat, unit) vector_fst)"
    by (rule vf_built.call [OF vf_built.new vf_step.step [of AddState]]) simp_all
  then have "vf_built f" unfolding f_def
    by (rule vf_built.call [OF _ vf_step.step [of "AddArc 0 (arc_new 1 2 1 0)"]]) simp_all
  moreover have f: "vf_states f = [vs_add_arc vs_new (arc_new 1 2 1 0)]" "vf_start f = None"
    "vf_isymbols f = None" "vf_osymbols f = None"
    by (simp_all add: f_def add_arc_run add_state_def vf_new_def modify_properties_def Let_def)
  moreover have "invert (set_input_symbols f (Some ())) =
      Some (f\<lparr>vf_isymbols := None, vf_osymbols := Some ()\<rparr>, Inr ())"
    by (simp add: invert_def arc_map_def set_input_symbols_def set_output_symbols_def
        invert_mapper_def f)
  moreover have "vf_arcs f 0 = [arc_new 1 2 1 0]"
    "vf_arcs (f\<lparr>vf_isymbols := None, vf_osymbols := Some ()\<rparr>) 0 = [arc_new 1 2 1 0]"
    by (simp_all add: vf_arcs_def f)
  ultimately show ?thesis
    by (intro exI [of _ f] exI [of _ "f\<lparr>vf_isymbols := None, vf_osymbols := Some ()\<rparr>"]) simp
qed

definition side_label :: "project_type \<Rightarrow> 'w arc \<Rightarrow> label" where
  "side_label t a = (case t of ProjectInput \<Rightarrow> ilabel a | ProjectOutput \<Rightarrow> olabel a)"

lemma project_map_side:
  "am_map (project_mapper t) = (\<lambda>a. arc_new (side_label t a) (side_label t a) (weight a) (nextstate a))"
  by (auto simp: project_mapper_def side_label_def Let_def)

text \<open>
  C22. \<open>project\<close> on an FST with a start state succeeds and leaves an acceptor that carries the
  labels of the chosen side on both, with the same weights, destinations, final weights and
  start, one symbol table for both sides, and a word of property bits true of it.
\<close>

theorem project_correct:
  assumes "vf_start f \<noteq> None" "sound (vf_properties f) (vf_states f) (vf_start f)"
  shows "\<exists>g. project t f = Some (g, Inr ()) \<and> is_acceptor (vf_states g) \<and>
    (\<forall>s. vf_arcs g s = map (\<lambda>a. arc_new (side_label t a) (side_label t a) (weight a) (nextstate a)) (vf_arcs f s) \<and>
         vf_final_weight g s = vf_final_weight f s) \<and>
    vf_start g = vf_start f \<and> vf_isymbols g = vf_osymbols g \<and>
    sound (vf_properties g) (vf_states g) (vf_start g)"
proof -
  let ?m = "project_mapper t"
  obtain g where g: "arc_map ?m f = Some (g, Inr ())"
      "vf_states g = map (map_state ?m) (vf_states f)" "vf_start g = vf_start f"
      "\<And>i. 16 \<le> i \<Longrightarrow> i < 48 \<Longrightarrow> bit (vf_properties g) i =
         bit (project_properties (vf_properties f AND K_FST_PROPERTIES) (t = ProjectInput)) i"
    using arc_map_run [of ?m f] assms(1) by auto
  let ?h = "case t of ProjectInput \<Rightarrow> set_output_symbols g (vf_isymbols g)
      | ProjectOutput \<Rightarrow> set_input_symbols g (vf_osymbols g)"
  have h: "project t f = Some (?h, Inr ())" "vf_states ?h = vf_states g" "vf_start ?h = vf_start g"
      "vf_properties ?h = vf_properties g" "vf_isymbols ?h = vf_osymbols ?h"
    using g(1) by (simp_all add: project_def set_output_symbols_def set_input_symbols_def
        split: project_type.splits)
  have "sound (project_properties (vf_properties f AND K_FST_PROPERTIES) (t = ProjectInput))
      (vf_states g) (vf_start g)"
    unfolding g(2,3) by (intro projected_sound sound_and assms(2))
  then have "sound (vf_properties ?h) (vf_states ?h) (vf_start ?h)"
    unfolding h using sound_cong [OF g(4)] by blast
  moreover have "vf_arcs ?h s = map (\<lambda>a. arc_new (side_label t a) (side_label t a) (weight a) (nextstate a)) (vf_arcs f s)"
      "vf_final_weight ?h s = vf_final_weight f s" for s
    by (simp_all add: vf_arcs_def vf_final_weight_def vget_def h(2) g(2) project_map_side)
  moreover have "is_acceptor (vf_states ?h)" unfolding h(2) g(2) by (rule projected_claims(1))
  ultimately show ?thesis using h g(3) by metis
qed

theorem project_correct_witness:
  "\<exists>g. project ProjectOutput one_arc = Some (g, Inr ()) \<and> is_acceptor (vf_states g) \<and>
    (\<forall>s. vf_arcs g s =
         map (\<lambda>a. arc_new (side_label ProjectOutput a) (side_label ProjectOutput a) (weight a)
           (nextstate a)) (vf_arcs one_arc s) \<and>
         vf_final_weight g s = vf_final_weight one_arc s) \<and>
    vf_start g = vf_start one_arc \<and> vf_isymbols g = vf_osymbols g \<and>
    sound (vf_properties g) (vf_states g) (vf_start g)"
  by (rule project_correct [OF _ one_arc_sound]) (simp add: one_arc_start)

text \<open>
  \<open>PlusMapper\<close> adds its weight to the final weight zero of a state that is not final: the
  state becomes final, and a property word that was true, here \<open>K_NOT_CO_ACCESSIBLE\<close>, is
  copied to an FST it is false of.
\<close>

definition lone_state :: "(nat, unit) vector_fst" where
  "lone_state = set_properties (set_start (fst (add_state vf_new)) 0)
     K_NOT_CO_ACCESSIBLE K_FST_PROPERTIES"

theorem plus_mapper_makes_states_final:
  "sound (vf_properties lone_state) (vf_states lone_state) (vf_start lone_state) \<and>
   vf_final_weight lone_state 0 = 0 \<and>
   (\<exists>g. arc_map (plus_mapper 5) lone_state = Some (g, Inr ()) \<and> vf_final_weight g 0 = 5 \<and>
      \<not> sound (vf_properties g) (vf_states g) (vf_start g))"
proof -
  have l: "vf_states lone_state = [vs_new]" "vf_start lone_state = Some 0"
    by (simp_all add: lone_state_def set_properties_def modify_properties_def set_start_def
        add_state_def vf_new_def no_state_def)
  have p: "bit (vf_properties lone_state) i = (i = 43)" if "16 \<le> i" "i < 48" for i
    using that by (auto simp: lone_state_def set_properties_def modify_properties_def word_bits
        bit_fst_properties)
  have nco: "\<not> is_coaccessible [vs_new :: nat vector_state]" by (simp add: is_coaccessible_def)
  have "sound (vf_properties lone_state) (vf_states lone_state) (vf_start lone_state)"
    unfolding claim_bits l using nco by (simp add: p)
  moreover obtain g where g: "arc_map (plus_mapper 5) lone_state = Some (g, Inr ())"
      "vf_states g = map (map_state (plus_mapper 5)) (vf_states lone_state)"
      "bit (vf_properties g) 43 = bit (am_properties (plus_mapper (5::nat))
         (vf_properties lone_state AND K_FST_PROPERTIES)) 43"
    using arc_map_run [of "plus_mapper 5" lone_state] l
    by (auto simp: plus_mapper_def keeps_finals_def became_an_arc_def final_as_arc_def)
  have "bit (vf_properties g) 43"
    unfolding g(3) by (simp add: plus_mapper_def mask_defs word_bits p bit_fst_properties)
  moreover have "map_final (plus_mapper 5) 0 = (5::nat)"
    by (simp add: map_final_def plus_mapper_def final_as_arc_def)
  then have "is_coaccessible (vf_states g)" "vf_final_weight g 0 = 5"
    by (auto simp: g(2) l is_coaccessible_def vf_final_weight_def)
  ultimately show ?thesis
    using g(1) by (auto simp: l vf_final_weight_def claim_bits)
qed

end
