(* ===== verification/ComposeFilter.thy ===== *)
theory ComposeFilter
  imports VectorFstOps
begin

text \<open>
  The composition filters of \<open>algorithms/compose_filter.rs\<close> with the filter states of
  \<open>algorithms/filter_state.rs\<close>.  A filter also stores the two matchers it was built with and
  hands them back; they play no part in its decisions and are left out.  A composition
  offers the filter pairs of arcs: two arcs whose meeting labels agree, or an arc with an
  epsilon on the meeting side together with the loop arc that stands for staying put, whose
  meeting label is \<open>no_label\<close>.
\<close>

section \<open>The filters\<close>

type_synonym char_state = "8 word"

definition STATE_DEFAULT :: char_state where "STATE_DEFAULT = 0"
definition STATE_EPS1 :: char_state where "STATE_EPS1 = 1"
definition STATE_EPS2 :: char_state where "STATE_EPS2 = 2"

lemma char_states_distinct [simp]:
  "STATE_DEFAULT \<noteq> STATE_EPS1" "STATE_EPS1 \<noteq> STATE_DEFAULT" "STATE_DEFAULT \<noteq> STATE_EPS2"
  "STATE_EPS2 \<noteq> STATE_DEFAULT" "STATE_EPS1 \<noteq> STATE_EPS2" "STATE_EPS2 \<noteq> STATE_EPS1"
  by (simp_all add: STATE_DEFAULT_def STATE_EPS1_def STATE_EPS2_def)

definition null_filter_arc :: "'w arc \<Rightarrow> 'w arc \<Rightarrow> bool option" where
  "null_filter_arc arc1 arc2 =
     (if olabel arc1 = no_label \<or> ilabel arc2 = no_label then None else Some True)"

definition trivial_filter_arc :: "'w arc \<Rightarrow> 'w arc \<Rightarrow> bool option" where
  "trivial_filter_arc arc1 arc2 = Some True"

definition no_match_filter_arc :: "'w arc \<Rightarrow> 'w arc \<Rightarrow> bool option" where
  "no_match_filter_arc arc1 arc2 =
     (if olabel arc1 \<noteq> epsilon \<or> ilabel arc2 \<noteq> epsilon then Some True else None)"

record ('w, 'sym) sequence_filter =
  sf_fst1 :: "('w, 'sym) vector_fst"
  sf_s1 :: state_id
  sf_s2 :: state_id
  sf_fs :: char_state
  sf_alleps1 :: bool
  sf_noeps1 :: bool

definition sf_new :: "('w, 'sym) vector_fst \<Rightarrow> ('w, 'sym) sequence_filter" where
  "sf_new f1 = \<lparr>sf_fst1 = f1, sf_s1 = no_state, sf_s2 = no_state, sf_fs = STATE_DEFAULT,
     sf_alleps1 = False, sf_noeps1 = False\<rparr>"

definition sf_set_state ::
  "('w::{zero,one}, 'sym) sequence_filter \<Rightarrow> state_id \<Rightarrow> state_id \<Rightarrow> char_state \<Rightarrow>
   ('w, 'sym) sequence_filter" where
  "sf_set_state F s1 s2 fs =
     (if sf_s1 F = s1 \<and> sf_s2 F = s2 \<and> sf_fs F = fs then F
      else
        let F = F\<lparr>sf_s1 := s1, sf_s2 := s2, sf_fs := fs\<rparr>;
            na1 = vf_num_arcs (sf_fst1 F) s1;
            ne1 = num_output_epsilons (sf_fst1 F) s1;
            fin1 = (vf_final_weight (sf_fst1 F) s1 \<noteq> 0)
        in F\<lparr>sf_alleps1 := (na1 = ne1 \<and> \<not> fin1), sf_noeps1 := (ne1 = 0)\<rparr>)"

definition sf_filter_arc ::
  "('w, 'sym) sequence_filter \<Rightarrow> 'w arc \<Rightarrow> 'w arc \<Rightarrow> char_state option" where
  "sf_filter_arc F arc1 arc2 =
     (if olabel arc1 = no_label then
        (if sf_alleps1 F then None
         else if sf_noeps1 F then Some STATE_DEFAULT
         else Some STATE_EPS1)
      else if ilabel arc2 = no_label then
        (if sf_fs F \<noteq> STATE_DEFAULT then None else Some STATE_DEFAULT)
      else if olabel arc1 = epsilon then None
      else Some STATE_DEFAULT)"

record ('w, 'sym) alt_sequence_filter =
  af_fst2 :: "('w, 'sym) vector_fst"
  af_s1 :: state_id
  af_s2 :: state_id
  af_fs :: char_state
  af_alleps2 :: bool
  af_noeps2 :: bool

definition af_new :: "('w, 'sym) vector_fst \<Rightarrow> ('w, 'sym) alt_sequence_filter" where
  "af_new f2 = \<lparr>af_fst2 = f2, af_s1 = no_state, af_s2 = no_state, af_fs = STATE_DEFAULT,
     af_alleps2 = False, af_noeps2 = False\<rparr>"

definition af_set_state ::
  "('w::{zero,one}, 'sym) alt_sequence_filter \<Rightarrow> state_id \<Rightarrow> state_id \<Rightarrow> char_state \<Rightarrow>
   ('w, 'sym) alt_sequence_filter" where
  "af_set_state F s1 s2 fs =
     (if af_s1 F = s1 \<and> af_s2 F = s2 \<and> af_fs F = fs then F
      else
        let F = F\<lparr>af_s1 := s1, af_s2 := s2, af_fs := fs\<rparr>;
            na2 = vf_num_arcs (af_fst2 F) s2;
            ne2 = num_input_epsilons (af_fst2 F) s2;
            fin2 = (vf_final_weight (af_fst2 F) s2 \<noteq> 0)
        in F\<lparr>af_alleps2 := (na2 = ne2 \<and> \<not> fin2), af_noeps2 := (ne2 = 0)\<rparr>)"

definition af_filter_arc ::
  "('w, 'sym) alt_sequence_filter \<Rightarrow> 'w arc \<Rightarrow> 'w arc \<Rightarrow> char_state option" where
  "af_filter_arc F arc1 arc2 =
     (if ilabel arc2 = no_label then
        (if af_alleps2 F then None
         else if af_noeps2 F then Some STATE_DEFAULT
         else Some STATE_EPS1)
      else if olabel arc1 = no_label then
        (if af_fs F = STATE_EPS1 then None else Some STATE_DEFAULT)
      else if olabel arc1 = epsilon then None
      else Some STATE_DEFAULT)"

record ('w, 'sym) match_filter =
  mf_fst1 :: "('w, 'sym) vector_fst"
  mf_fst2 :: "('w, 'sym) vector_fst"
  mf_s1 :: state_id
  mf_s2 :: state_id
  mf_fs :: char_state
  mf_alleps1 :: bool
  mf_alleps2 :: bool
  mf_noeps1 :: bool
  mf_noeps2 :: bool

definition mf_new ::
  "('w, 'sym) vector_fst \<Rightarrow> ('w, 'sym) vector_fst \<Rightarrow> ('w, 'sym) match_filter" where
  "mf_new f1 f2 = \<lparr>mf_fst1 = f1, mf_fst2 = f2, mf_s1 = no_state, mf_s2 = no_state,
     mf_fs = STATE_DEFAULT, mf_alleps1 = False, mf_alleps2 = False, mf_noeps1 = False,
     mf_noeps2 = False\<rparr>"

definition mf_set_state ::
  "('w::{zero,one}, 'sym) match_filter \<Rightarrow> state_id \<Rightarrow> state_id \<Rightarrow> char_state \<Rightarrow>
   ('w, 'sym) match_filter" where
  "mf_set_state F s1 s2 fs =
     (if mf_s1 F = s1 \<and> mf_s2 F = s2 \<and> mf_fs F = fs then F
      else
        let F = F\<lparr>mf_s1 := s1, mf_s2 := s2, mf_fs := fs\<rparr>;
            na1 = vf_num_arcs (mf_fst1 F) s1;
            ne1 = num_output_epsilons (mf_fst1 F) s1;
            f1 = (vf_final_weight (mf_fst1 F) s1 \<noteq> 0);
            F = F\<lparr>mf_alleps1 := (na1 = ne1 \<and> \<not> f1), mf_noeps1 := (ne1 = 0)\<rparr>;
            na2 = vf_num_arcs (mf_fst2 F) s2;
            ne2 = num_input_epsilons (mf_fst2 F) s2;
            f2 = (vf_final_weight (mf_fst2 F) s2 \<noteq> 0)
        in F\<lparr>mf_alleps2 := (na2 = ne2 \<and> \<not> f2), mf_noeps2 := (ne2 = 0)\<rparr>)"

definition mf_filter_arc ::
  "('w, 'sym) match_filter \<Rightarrow> 'w arc \<Rightarrow> 'w arc \<Rightarrow> char_state option" where
  "mf_filter_arc F arc1 arc2 =
     (let state = mf_fs F in
      if ilabel arc2 = no_label then
        (if state = STATE_DEFAULT then
           (if mf_noeps2 F then Some STATE_DEFAULT
            else if mf_alleps2 F then None
            else Some STATE_EPS1)
         else if state = STATE_EPS1 then Some STATE_EPS1
         else None)
      else if olabel arc1 = no_label then
        (if state = STATE_DEFAULT then
           (if mf_noeps1 F then Some STATE_DEFAULT
            else if mf_alleps1 F then None
            else Some STATE_EPS2)
         else if state = STATE_EPS2 then Some STATE_EPS2
         else None)
      else if olabel arc1 = epsilon then
        (if state = STATE_DEFAULT then Some STATE_DEFAULT else None)
      else Some STATE_DEFAULT)"

text \<open>\<open>MultiEpsFilter\<close> wraps a filter: it relabels the loop arc after the wrapped filter has
  decided, and restricts the properties.  It returns the two arcs it may have rewritten.\<close>

definition multi_eps_filter_arc ::
  "('w arc \<Rightarrow> 'w arc \<Rightarrow> 'fs option) \<Rightarrow> bool \<Rightarrow> 'w arc \<Rightarrow> 'w arc \<Rightarrow> 'fs option \<times> 'w arc \<times> 'w arc" where
  "multi_eps_filter_arc filter_arc keep_multi_eps arc1 arc2 =
     (let fs = filter_arc arc1 arc2 in
      if keep_multi_eps then
        let arc1 = (if olabel arc1 = no_label
              then arc_new (ilabel arc2) (olabel arc1) (weight arc1) (nextstate arc1) else arc1);
            arc2 = (if ilabel arc2 = no_label
              then arc_new (ilabel arc2) (olabel arc1) (weight arc2) (nextstate arc2) else arc2)
        in (fs, arc1, arc2)
      else (fs, arc1, arc2))"

definition multi_eps_properties :: "(64 word \<Rightarrow> 64 word) \<Rightarrow> 64 word \<Rightarrow> 64 word" where
  "multi_eps_properties properties props =
     (let oprops = properties props
      in oprops AND K_I_LABEL_INVARIANT_PROPERTIES AND K_O_LABEL_INVARIANT_PROPERTIES)"

end
