(* ===== verification/Paths.thy ===== *)
theory Paths
  imports VectorFstOps
begin

text \<open>Paths through an FST, and the strings they read and write once epsilons are dropped.\<close>

fun path :: "(state_id \<Rightarrow> 'w arc list) \<Rightarrow> state_id \<Rightarrow> 'w arc list \<Rightarrow> state_id \<Rightarrow> bool" where
  "path arcs s [] t = (s = t)"
| "path arcs s (a # as) t = (a \<in> set (arcs s) \<and> path arcs (nextstate a) as t)"

definition accepting :: "('w::{zero,one}, 'sym) vector_fst \<Rightarrow> state_id \<Rightarrow> 'w arc list \<Rightarrow> bool" where
  "accepting f s p \<longleftrightarrow> (\<exists>t. path (vf_arcs f) s p t \<and> vf_final_weight f t \<noteq> 0)"

definition istring :: "'w arc list \<Rightarrow> label list" where
  "istring p = filter (\<lambda>l. l \<noteq> epsilon) (map ilabel p)"

definition ostring :: "'w arc list \<Rightarrow> label list" where
  "ostring p = filter (\<lambda>l. l \<noteq> epsilon) (map olabel p)"

lemma strings_simps [simp]:
  "istring [] = []" "ostring [] = []"
  "istring (a # p) = (if ilabel a = epsilon then istring p else ilabel a # istring p)"
  "ostring (a # p) = (if olabel a = epsilon then ostring p else olabel a # ostring p)"
  by (simp_all add: istring_def ostring_def)

lemma path_append: "path arcs s (p @ q) t \<longleftrightarrow> (\<exists>u. path arcs s p u \<and> path arcs u q t)"
  by (induction p arbitrary: s) auto

lemma accepting_simps [simp]:
  "accepting f s [] \<longleftrightarrow> vf_final_weight f s \<noteq> 0"
  "accepting f s (a # p) \<longleftrightarrow> a \<in> set (vf_arcs f s) \<and> accepting f (nextstate a) p"
  by (auto simp: accepting_def)

lemma vf_arcs_in: "a \<in> set (vf_arcs f s) \<Longrightarrow> s < length (vf_states f)"
  by (auto simp: vf_arcs_def vget_def split: option.splits if_splits)

lemma vf_final_in: "vf_final_weight f s \<noteq> 0 \<Longrightarrow> s < length (vf_states f)"
  by (auto simp: vf_final_weight_def vget_def split: option.splits if_splits)

lemma accepting_in: "accepting f s p \<Longrightarrow> s < length (vf_states f)"
  by (cases p) (auto dest: vf_arcs_in vf_final_in)

lemma vf_num_arcs_length: "vf_num_arcs f s = length (vf_arcs f s)"
  by (simp add: vf_num_arcs_def vf_arcs_def vget_def)

lemma count_eps_all:
  "length as = count_ieps as \<longleftrightarrow> (\<forall>a \<in> set as. ilabel a = epsilon)"
  "length as = count_oeps as \<longleftrightarrow> (\<forall>a \<in> set as. olabel a = epsilon)"
  "count_ieps as = 0 \<longleftrightarrow> (\<forall>a \<in> set as. ilabel a \<noteq> epsilon)"
  "count_oeps as = 0 \<longleftrightarrow> (\<forall>a \<in> set as. olabel a \<noteq> epsilon)"
proof -
  have *: "length as = length (filter P as) \<longleftrightarrow> (\<forall>a \<in> set as. P a)" for P :: "'a arc \<Rightarrow> bool"
    by (metis filter_True length_filter_less less_irrefl)
  show "length as = count_ieps as \<longleftrightarrow> (\<forall>a \<in> set as. ilabel a = epsilon)"
    "length as = count_oeps as \<longleftrightarrow> (\<forall>a \<in> set as. olabel a = epsilon)"
    "count_ieps as = 0 \<longleftrightarrow> (\<forall>a \<in> set as. ilabel a \<noteq> epsilon)"
    "count_oeps as = 0 \<longleftrightarrow> (\<forall>a \<in> set as. olabel a \<noteq> epsilon)"
    by (auto simp: count_ieps_def count_oeps_def * filter_empty_conv)
qed

end
