(* ===== verification/FilterUnique.thy ===== *)
theory FilterUnique
  imports ComposeFilter Paths
begin

text \<open>
  What a composition filter is for: among the ways of interleaving the epsilons of two
  matching paths it accepts exactly one.  The interface is a locale over the filter's
  decision as a function of the pair of states and the filter state, with the laws that
  make the accepted interleaving exist and be unique; the three epsilon-sequencing filters
  are its interpretations.
\<close>

section \<open>Alignments\<close>

definition loop1 :: "state_id \<Rightarrow> 'w::one arc" where
  "loop1 s = arc_new epsilon no_label 1 s"

definition loop2 :: "state_id \<Rightarrow> 'w::one arc" where
  "loop2 s = arc_new no_label epsilon 1 s"

lemma loop_sel [simp]:
  "olabel (loop1 s) = no_label" "ilabel (loop1 s) = epsilon" "nextstate (loop1 s) = s"
  "ilabel (loop2 s) = no_label" "olabel (loop2 s) = epsilon" "nextstate (loop2 s) = s"
  by (simp_all add: loop1_def loop2_def)

text \<open>The pairs of arcs a composition offers its filter in the pair of states \<open>(s1, s2)\<close>.\<close>

definition offered ::
  "('w::{zero,one}, 'sym) vector_fst \<Rightarrow> ('w, 'sym) vector_fst \<Rightarrow> state_id \<Rightarrow> state_id \<Rightarrow>
   'w arc \<times> 'w arc \<Rightarrow> bool" where
  "offered f1 f2 s1 s2 m \<longleftrightarrow>
     (fst m \<in> set (vf_arcs f1 s1) \<and> snd m \<in> set (vf_arcs f2 s2) \<and> olabel (fst m) = ilabel (snd m)) \<or>
     (fst m = loop1 s1 \<and> snd m \<in> set (vf_arcs f2 s2) \<and> ilabel (snd m) = epsilon) \<or>
     (fst m \<in> set (vf_arcs f1 s1) \<and> olabel (fst m) = epsilon \<and> snd m = loop2 s2)"

type_synonym ('w, 'sym, 'fs) decision =
  "('w, 'sym) vector_fst \<Rightarrow> ('w, 'sym) vector_fst \<Rightarrow> state_id \<Rightarrow> state_id \<Rightarrow> 'fs \<Rightarrow>
   'w arc \<Rightarrow> 'w arc \<Rightarrow> 'fs option"

fun accepts ::
  "('w::{zero,one}, 'sym, 'fs) decision \<Rightarrow> ('w, 'sym) vector_fst \<Rightarrow> ('w, 'sym) vector_fst \<Rightarrow>
   state_id \<Rightarrow> state_id \<Rightarrow> 'fs \<Rightarrow> ('w arc \<times> 'w arc) list \<Rightarrow> bool" where
  "accepts d f1 f2 s1 s2 fs [] = True"
| "accepts d f1 f2 s1 s2 fs (m # ms) =
     (offered f1 f2 s1 s2 m \<and>
      (case d f1 f2 s1 s2 fs (fst m) (snd m) of
         None \<Rightarrow> False
       | Some fs' \<Rightarrow> accepts d f1 f2 (nextstate (fst m)) (nextstate (snd m)) fs' ms))"

definition side1 :: "('w arc \<times> 'w arc) list \<Rightarrow> 'w arc list" where
  "side1 ms = filter (\<lambda>a. olabel a \<noteq> no_label) (map fst ms)"

definition side2 :: "('w arc \<times> 'w arc) list \<Rightarrow> 'w arc list" where
  "side2 ms = filter (\<lambda>a. ilabel a \<noteq> no_label) (map snd ms)"

lemma side_simps [simp]:
  "side1 [] = []" "side2 [] = []"
  "side1 (m # ms) = (if olabel (fst m) = no_label then side1 ms else fst m # side1 ms)"
  "side2 (m # ms) = (if ilabel (snd m) = no_label then side2 ms else snd m # side2 ms)"
  by (simp_all add: side1_def side2_def)

definition alignment ::
  "('w::{zero,one}, 'sym, 'fs) decision \<Rightarrow> ('w, 'sym) vector_fst \<Rightarrow> ('w, 'sym) vector_fst \<Rightarrow>
   state_id \<Rightarrow> state_id \<Rightarrow> 'fs \<Rightarrow> 'w arc list \<Rightarrow> 'w arc list \<Rightarrow> ('w arc \<times> 'w arc) list \<Rightarrow> bool" where
  "alignment d f1 f2 s1 s2 fs p1 p2 ms \<longleftrightarrow>
     accepts d f1 f2 s1 s2 fs ms \<and> side1 ms = p1 \<and> side2 ms = p2"

text \<open>Two FSTs a composition accepts: exact counters, state ids that fit, no reserved labels
  on the meeting side.\<close>

definition composable :: "('w::{zero,one}, 'sym) vector_fst \<Rightarrow> ('w, 'sym) vector_fst \<Rightarrow> bool" where
  "composable f1 f2 \<longleftrightarrow> vf_counts f1 \<and> vf_counts f2 \<and>
     length (vf_states f1) \<le> usize_max \<and> length (vf_states f2) \<le> usize_max \<and>
     (\<forall>s. \<forall>a \<in> set (vf_arcs f1 s). olabel a \<noteq> no_label) \<and>
     (\<forall>s. \<forall>a \<in> set (vf_arcs f2 s). ilabel a \<noteq> no_label)"

definition matched ::
  "('w::{zero,one}, 'sym) vector_fst \<Rightarrow> ('w, 'sym) vector_fst \<Rightarrow> state_id \<Rightarrow> state_id \<Rightarrow>
   'w arc list \<Rightarrow> 'w arc list \<Rightarrow> bool" where
  "matched f1 f2 s1 s2 p1 p2 \<longleftrightarrow> composable f1 f2 \<and> accepting f1 s1 p1 \<and> accepting f2 s2 p2 \<and>
     ostring p1 = istring p2"

text \<open>Accepted pairs always project to two paths whose meeting strings agree, whatever the
  filter decides.\<close>

lemma accepts_sound:
  assumes "composable f1 f2"
  shows "accepts d f1 f2 s1 s2 fs ms \<Longrightarrow>
    ostring (side1 ms) = istring (side2 ms) \<and>
    (\<exists>t1 t2. path (vf_arcs f1) s1 (side1 ms) t1 \<and> path (vf_arcs f2) s2 (side2 ms) t2)"
proof (induction ms arbitrary: s1 s2 fs)
  case (Cons m ms)
  have lab: "olabel a \<noteq> no_label" if "a \<in> set (vf_arcs f1 s1)" for a
    using that assms by (auto simp: composable_def)
  have lab2: "ilabel a \<noteq> no_label" if "a \<in> set (vf_arcs f2 s2)" for a
    using that assms by (auto simp: composable_def)
  from Cons.prems obtain fs' where "accepts d f1 f2 (nextstate (fst m)) (nextstate (snd m)) fs' ms"
      and o: "offered f1 f2 s1 s2 m" by (auto split: option.splits)
  from Cons.IH [OF this(1)] show ?case
    using o lab lab2 unfolding offered_def by (elim disjE conjE; simp; metis)
qed auto

section \<open>The interface\<close>

text \<open>The first pair of an alignment of \<open>p1\<close> with \<open>p2\<close>, and what it leaves of them.\<close>

inductive first_pair ::
  "state_id \<Rightarrow> state_id \<Rightarrow> 'w::one arc list \<Rightarrow> 'w arc list \<Rightarrow> 'w arc \<times> 'w arc \<Rightarrow>
   'w arc list \<Rightarrow> 'w arc list \<Rightarrow> bool" where
  both: "olabel a = ilabel b \<Longrightarrow> first_pair s1 s2 (a # p1) (b # p2) (a, b) p1 p2"
| stay1: "ilabel b = epsilon \<Longrightarrow> first_pair s1 s2 p1 (b # p2) (loop1 s1, b) p1 p2"
| stay2: "olabel a = epsilon \<Longrightarrow> first_pair s1 s2 (a # p1) p2 (a, loop2 s2) p1 p2"

inductive_simps first_pair_simps:
  "first_pair s1 s2 p1 p2 m q1 q2"

lemma first_pair_matched:
  assumes "first_pair s1 s2 p1 p2 m q1 q2" "matched f1 f2 s1 s2 p1 p2"
  shows "matched f1 f2 (nextstate (fst m)) (nextstate (snd m)) q1 q2 \<and>
    length q1 + length q2 < length p1 + length p2 \<and> offered f1 f2 s1 s2 m"
  using assms by (cases rule: first_pair.cases) (auto simp: matched_def offered_def split: if_splits)

lemma alignment_Nil: "alignment d f1 f2 s1 s2 fs p1 p2 [] \<longleftrightarrow> p1 = [] \<and> p2 = []"
  by (auto simp: alignment_def)

lemma alignment_Cons:
  assumes "matched f1 f2 s1 s2 p1 p2"
  shows "alignment d f1 f2 s1 s2 fs p1 p2 (m # ms) \<longleftrightarrow>
    (\<exists>q1 q2 fs'. first_pair s1 s2 p1 p2 m q1 q2 \<and> d f1 f2 s1 s2 fs (fst m) (snd m) = Some fs' \<and>
       alignment d f1 f2 (nextstate (fst m)) (nextstate (snd m)) fs' q1 q2 ms)"
    (is "?l \<longleftrightarrow> ?r")
proof
  assume ?l
  have lab: "olabel a \<noteq> no_label" if "a \<in> set (vf_arcs f1 s1)" for a
    using that assms by (auto simp: composable_def matched_def)
  have lab2: "ilabel a \<noteq> no_label" if "a \<in> set (vf_arcs f2 s2)" for a
    using that assms by (auto simp: composable_def matched_def)
  obtain fs' where fs': "d f1 f2 s1 s2 fs (fst m) (snd m) = Some fs'"
      "alignment d f1 f2 (nextstate (fst m)) (nextstate (snd m)) fs' (side1 ms) (side2 ms) ms"
    using \<open>?l\<close> by (auto simp: alignment_def split: option.splits)
  have "first_pair s1 s2 p1 p2 m (side1 ms) (side2 ms)"
    using \<open>?l\<close> lab lab2 by (cases m) (auto simp: alignment_def offered_def first_pair_simps)
  with fs' show ?r by blast
next
  assume ?r
  then obtain q1 q2 fs' where r: "first_pair s1 s2 p1 p2 m q1 q2"
      "d f1 f2 s1 s2 fs (fst m) (snd m) = Some fs'"
      "alignment d f1 f2 (nextstate (fst m)) (nextstate (snd m)) fs' q1 q2 ms" by blast
  have "offered f1 f2 s1 s2 m" using first_pair_matched [OF r(1) assms] by blast
  moreover have "olabel a \<noteq> no_label" if "a \<in> set (vf_arcs f1 s1)" for a
    using that assms by (auto simp: composable_def matched_def)
  moreover have "ilabel a \<noteq> no_label" if "a \<in> set (vf_arcs f2 s2)" for a
    using that assms by (auto simp: composable_def matched_def)
  ultimately show ?l
    using r assms by (auto simp: alignment_def first_pair_simps matched_def)
qed

locale epsilon_filter =
  fixes d :: "('w::{zero,one}, 'sym, 'fs) decision"
    and start :: 'fs
    and ok :: "'fs \<Rightarrow> 'w arc list \<Rightarrow> 'w arc list \<Rightarrow> bool"
  assumes ok_start: "ok start p1 p2"
    and ok_end: "ok fs [] []"
    and one_pair: "matched f1 f2 s1 s2 p1 p2 \<Longrightarrow> ok fs p1 p2 \<Longrightarrow> (p1, p2) \<noteq> ([], []) \<Longrightarrow>
      \<exists>!m. \<exists>q1 q2 fs'. first_pair s1 s2 p1 p2 m q1 q2 \<and>
        d f1 f2 s1 s2 fs (fst m) (snd m) = Some fs' \<and> ok fs' q1 q2"
    and not_ok: "matched f1 f2 s1 s2 p1 p2 \<Longrightarrow> \<not> ok fs p1 p2 \<Longrightarrow>
      first_pair s1 s2 p1 p2 m q1 q2 \<Longrightarrow> d f1 f2 s1 s2 fs (fst m) (snd m) = Some fs' \<Longrightarrow>
      \<not> ok fs' q1 q2"
begin

lemma not_ok_dead:
  "matched f1 f2 s1 s2 p1 p2 \<Longrightarrow> \<not> ok fs p1 p2 \<Longrightarrow> \<not> alignment d f1 f2 s1 s2 fs p1 p2 ms"
proof (induction ms arbitrary: s1 s2 fs p1 p2)
  case Nil
  then show ?case using ok_end by (auto simp: alignment_Nil)
next
  case (Cons m ms)
  show ?case
  proof
    assume "alignment d f1 f2 s1 s2 fs p1 p2 (m # ms)"
    then obtain q1 q2 fs' where q: "first_pair s1 s2 p1 p2 m q1 q2"
        "d f1 f2 s1 s2 fs (fst m) (snd m) = Some fs'"
        "alignment d f1 f2 (nextstate (fst m)) (nextstate (snd m)) fs' q1 q2 ms"
      using alignment_Cons [OF Cons.prems(1), of d fs m ms] by blast
    have "\<not> ok fs' q1 q2" using not_ok [OF Cons.prems q(1,2)] .
    with Cons.IH first_pair_matched [OF q(1) Cons.prems(1)] q(3) show False by blast
  qed
qed

lemma first_pair_functional:
  "first_pair s1 s2 p1 p2 m q1 q2 \<Longrightarrow> first_pair s1 s2 p1 p2 m r1 r2 \<Longrightarrow>
   matched f1 f2 s1 s2 p1 p2 \<Longrightarrow> q1 = r1 \<and> q2 = r2"
proof -
  assume a: "first_pair s1 s2 p1 p2 m q1 q2" "first_pair s1 s2 p1 p2 m r1 r2"
    and m: "matched f1 f2 s1 s2 p1 p2"
  have "olabel a \<noteq> no_label" if "a \<in> set (vf_arcs f1 s1)" for a
    using that m by (auto simp: composable_def matched_def)
  moreover have "ilabel a \<noteq> no_label" if "a \<in> set (vf_arcs f2 s2)" for a
    using that m by (auto simp: composable_def matched_def)
  ultimately show ?thesis
    using a m by (auto simp: first_pair_simps matched_def)
qed

lemma one_alignment:
  "matched f1 f2 s1 s2 p1 p2 \<Longrightarrow> ok fs p1 p2 \<Longrightarrow> \<exists>!ms. alignment d f1 f2 s1 s2 fs p1 p2 ms"
proof (induction "length p1 + length p2" arbitrary: s1 s2 fs p1 p2 rule: less_induct)
  case less
  show ?case
  proof (cases "(p1, p2) = ([], [])")
    case True
    moreover have "ms = []" if "alignment d f1 f2 s1 s2 fs [] [] ms" for ms
    proof (cases ms)
      case (Cons m ms')
      have "matched f1 f2 s1 s2 [] []" using less.prems(1) True by simp
      with Cons that show ?thesis by (auto simp: alignment_Cons first_pair_simps)
    qed
    ultimately show ?thesis by (intro ex1I [of _ "[]"]) (auto simp: alignment_Nil)
  next
    case False
    let ?P = "\<lambda>m. \<exists>q1 q2 fs'. first_pair s1 s2 p1 p2 m q1 q2 \<and>
        d f1 f2 s1 s2 fs (fst m) (snd m) = Some fs' \<and> ok fs' q1 q2"
    have "\<exists>!m. ?P m" using one_pair [OF less.prems False] .
    then obtain m where "?P m" and u: "\<And>n. ?P n \<Longrightarrow> n = m" by blast
    then obtain q1 q2 fs' where m: "first_pair s1 s2 p1 p2 m q1 q2"
        "d f1 f2 s1 s2 fs (fst m) (snd m) = Some fs'" "ok fs' q1 q2" by blast
    have unique: "n = m" if "first_pair s1 s2 p1 p2 n r1 r2"
        "d f1 f2 s1 s2 fs (fst n) (snd n) = Some gs" "ok gs r1 r2" for n r1 r2 gs
      using that u by blast
    note next_pair = first_pair_matched [OF m(1) less.prems(1)]
    obtain ms where ms: "alignment d f1 f2 (nextstate (fst m)) (nextstate (snd m)) fs' q1 q2 ms"
      and ms_unique: "\<And>ns. alignment d f1 f2 (nextstate (fst m)) (nextstate (snd m)) fs' q1 q2 ns \<Longrightarrow>
        ns = ms"
      using less.hyps [of q1 q2 "nextstate (fst m)" "nextstate (snd m)" fs'] next_pair m(3) by blast
    show ?thesis
    proof (rule ex1I)
      show "alignment d f1 f2 s1 s2 fs p1 p2 (m # ms)"
        using m ms alignment_Cons [OF less.prems(1), of d fs m ms] by blast
      fix ns
      assume ns: "alignment d f1 f2 s1 s2 fs p1 p2 ns"
      then obtain n ns' where c: "ns = n # ns'" using False by (cases ns) (auto simp: alignment_Nil)
      then obtain r1 r2 gs where n: "first_pair s1 s2 p1 p2 n r1 r2"
          "d f1 f2 s1 s2 fs (fst n) (snd n) = Some gs"
          "alignment d f1 f2 (nextstate (fst n)) (nextstate (snd n)) gs r1 r2 ns'"
        using ns alignment_Cons [OF less.prems(1), of d fs n ns'] by blast
      have "ok gs r1 r2"
        using not_ok_dead n(3) first_pair_matched [OF n(1) less.prems(1)] by blast
      then have "n = m" using unique [OF n(1,2)] by blast
      moreover have "gs = fs'" "r1 = q1" "r2 = q2"
        using n(1,2) m(1,2) \<open>n = m\<close> first_pair_functional [OF n(1) _ less.prems(1)] by auto
      ultimately show "ns = m # ms" using c n(3) ms_unique by blast
    qed
  qed
qed

lemma exactly_one:
  "matched f1 f2 s1 s2 p1 p2 \<Longrightarrow> \<exists>!ms. alignment d f1 f2 s1 s2 start p1 p2 ms"
  using one_alignment ok_start by blast

end

section \<open>The sequence filters\<close>

definition starts_oeps :: "'w arc list \<Rightarrow> bool" where
  "starts_oeps p \<longleftrightarrow> p \<noteq> [] \<and> olabel (hd p) = epsilon"

definition starts_ieps :: "'w arc list \<Rightarrow> bool" where
  "starts_ieps p \<longleftrightarrow> p \<noteq> [] \<and> ilabel (hd p) = epsilon"

lemma starts_simps [simp]:
  "\<not> starts_oeps []" "\<not> starts_ieps []"
  "starts_oeps (a # p) \<longleftrightarrow> olabel a = epsilon" "starts_ieps (a # p) \<longleftrightarrow> ilabel a = epsilon"
  by (simp_all add: starts_oeps_def starts_ieps_def)

definition sf_decide :: "('w::{zero,one}, 'sym, char_state) decision" where
  "sf_decide f1 f2 s1 s2 fs a1 a2 = sf_filter_arc (sf_set_state (sf_new f1) s1 s2 fs) a1 a2"

definition af_decide :: "('w::{zero,one}, 'sym, char_state) decision" where
  "af_decide f1 f2 s1 s2 fs a1 a2 = af_filter_arc (af_set_state (af_new f2) s1 s2 fs) a1 a2"

definition mf_decide :: "('w::{zero,one}, 'sym, char_state) decision" where
  "mf_decide f1 f2 s1 s2 fs a1 a2 = mf_filter_arc (mf_set_state (mf_new f1 f2) s1 s2 fs) a1 a2"

text \<open>The cached flags in a pair of states two matched paths start from.\<close>

lemma matched_states:
  assumes "matched f1 f2 s1 s2 p1 p2"
  shows "s1 \<noteq> no_state" "s2 \<noteq> no_state"
  using assms accepting_in [of f1 s1 p1] accepting_in [of f2 s2 p2]
  by (auto simp: matched_def composable_def no_state_def)

lemma matched_counts:
  assumes "matched f1 f2 s1 s2 p1 p2"
  shows "num_output_epsilons f1 s1 = count_oeps (vf_arcs f1 s1)"
    "num_input_epsilons f2 s2 = count_ieps (vf_arcs f2 s2)"
  using assms num_epsilons_of by (auto simp: matched_def composable_def)

lemma matched_flags:
  assumes "matched f1 f2 s1 s2 p1 p2"
  shows "starts_oeps p1 \<Longrightarrow> count_oeps (vf_arcs f1 s1) \<noteq> 0"
    "\<not> starts_oeps p1 \<Longrightarrow>
      \<not> (vf_num_arcs f1 s1 = count_oeps (vf_arcs f1 s1) \<and> \<not> vf_final_weight f1 s1 \<noteq> 0)"
    "starts_ieps p2 \<Longrightarrow> count_ieps (vf_arcs f2 s2) \<noteq> 0"
    "\<not> starts_ieps p2 \<Longrightarrow>
      \<not> (vf_num_arcs f2 s2 = count_ieps (vf_arcs f2 s2) \<and> \<not> vf_final_weight f2 s2 \<noteq> 0)"
  using assms unfolding vf_num_arcs_length count_eps_all matched_def
  by (cases p1; cases p2; auto)+

lemma sf_decisions:
  assumes "matched f1 f2 s1 s2 p1 p2"
  shows "olabel a = no_label \<Longrightarrow> \<not> starts_oeps p1 \<Longrightarrow>
      sf_decide f1 f2 s1 s2 fs a b = Some STATE_DEFAULT \<or> sf_decide f1 f2 s1 s2 fs a b = Some STATE_EPS1"
    "olabel a = no_label \<Longrightarrow> starts_oeps p1 \<Longrightarrow>
      sf_decide f1 f2 s1 s2 fs a b = None \<or> sf_decide f1 f2 s1 s2 fs a b = Some STATE_EPS1"
    "olabel a \<noteq> no_label \<Longrightarrow> ilabel b = no_label \<Longrightarrow>
      sf_decide f1 f2 s1 s2 fs a b = (if fs \<noteq> STATE_DEFAULT then None else Some STATE_DEFAULT)"
    "olabel a \<noteq> no_label \<Longrightarrow> ilabel b \<noteq> no_label \<Longrightarrow>
      sf_decide f1 f2 s1 s2 fs a b = (if olabel a = epsilon then None else Some STATE_DEFAULT)"
  using matched_states [OF assms] matched_counts [OF assms] matched_flags [OF assms]
  by (auto simp: sf_decide_def sf_filter_arc_def sf_set_state_def sf_new_def Let_def)

definition sf_ok :: "char_state \<Rightarrow> 'w arc list \<Rightarrow> 'w arc list \<Rightarrow> bool" where
  "sf_ok fs p1 p2 \<longleftrightarrow> fs = STATE_DEFAULT \<or> \<not> starts_oeps p1"

lemma af_decisions:
  assumes "matched f1 f2 s1 s2 p1 p2"
  shows "ilabel b = no_label \<Longrightarrow> \<not> starts_ieps p2 \<Longrightarrow>
      af_decide f1 f2 s1 s2 fs a b = Some STATE_DEFAULT \<or> af_decide f1 f2 s1 s2 fs a b = Some STATE_EPS1"
    "ilabel b = no_label \<Longrightarrow> starts_ieps p2 \<Longrightarrow>
      af_decide f1 f2 s1 s2 fs a b = None \<or> af_decide f1 f2 s1 s2 fs a b = Some STATE_EPS1"
    "ilabel b \<noteq> no_label \<Longrightarrow> olabel a = no_label \<Longrightarrow>
      af_decide f1 f2 s1 s2 fs a b = (if fs = STATE_EPS1 then None else Some STATE_DEFAULT)"
    "ilabel b \<noteq> no_label \<Longrightarrow> olabel a \<noteq> no_label \<Longrightarrow>
      af_decide f1 f2 s1 s2 fs a b = (if olabel a = epsilon then None else Some STATE_DEFAULT)"
  using matched_states [OF assms] matched_counts [OF assms] matched_flags [OF assms]
  by (auto simp: af_decide_def af_filter_arc_def af_set_state_def af_new_def Let_def)

definition af_ok :: "char_state \<Rightarrow> 'w arc list \<Rightarrow> 'w arc list \<Rightarrow> bool" where
  "af_ok fs p1 p2 \<longleftrightarrow> fs \<noteq> STATE_EPS1 \<or> \<not> starts_ieps p2"

lemma mf_decisions:
  assumes "matched f1 f2 s1 s2 p1 p2"
  shows "ilabel b = no_label \<Longrightarrow> \<not> starts_ieps p2 \<Longrightarrow> fs = STATE_DEFAULT \<Longrightarrow>
      mf_decide f1 f2 s1 s2 fs a b = Some STATE_DEFAULT \<or> mf_decide f1 f2 s1 s2 fs a b = Some STATE_EPS1"
    "ilabel b = no_label \<Longrightarrow> starts_ieps p2 \<Longrightarrow> fs = STATE_DEFAULT \<Longrightarrow>
      mf_decide f1 f2 s1 s2 fs a b = None \<or> mf_decide f1 f2 s1 s2 fs a b = Some STATE_EPS1"
    "ilabel b = no_label \<Longrightarrow> fs \<noteq> STATE_DEFAULT \<Longrightarrow>
      mf_decide f1 f2 s1 s2 fs a b = (if fs = STATE_EPS1 then Some STATE_EPS1 else None)"
    "ilabel b \<noteq> no_label \<Longrightarrow> olabel a = no_label \<Longrightarrow> \<not> starts_oeps p1 \<Longrightarrow> fs = STATE_DEFAULT \<Longrightarrow>
      mf_decide f1 f2 s1 s2 fs a b = Some STATE_DEFAULT \<or> mf_decide f1 f2 s1 s2 fs a b = Some STATE_EPS2"
    "ilabel b \<noteq> no_label \<Longrightarrow> olabel a = no_label \<Longrightarrow> starts_oeps p1 \<Longrightarrow> fs = STATE_DEFAULT \<Longrightarrow>
      mf_decide f1 f2 s1 s2 fs a b = None \<or> mf_decide f1 f2 s1 s2 fs a b = Some STATE_EPS2"
    "ilabel b \<noteq> no_label \<Longrightarrow> olabel a = no_label \<Longrightarrow> fs \<noteq> STATE_DEFAULT \<Longrightarrow>
      mf_decide f1 f2 s1 s2 fs a b = (if fs = STATE_EPS2 then Some STATE_EPS2 else None)"
    "ilabel b \<noteq> no_label \<Longrightarrow> olabel a \<noteq> no_label \<Longrightarrow>
      mf_decide f1 f2 s1 s2 fs a b =
        (if olabel a = epsilon \<and> fs \<noteq> STATE_DEFAULT then None else Some STATE_DEFAULT)"
  using matched_states [OF assms] matched_counts [OF assms] matched_flags [OF assms]
  by (auto simp: mf_decide_def mf_filter_arc_def mf_set_state_def mf_new_def Let_def)

definition mf_ok :: "char_state \<Rightarrow> 'w arc list \<Rightarrow> 'w arc list \<Rightarrow> bool" where
  "mf_ok fs p1 p2 \<longleftrightarrow> fs = STATE_DEFAULT \<or>
     (fs = STATE_EPS1 \<or> \<not> starts_oeps p1) \<and> (fs = STATE_EPS2 \<or> \<not> starts_ieps p2)"

text \<open>The heads of two matched paths.\<close>

lemma matched_heads:
  assumes "matched f1 f2 s1 s2 p1 p2"
  shows "p1 = a # q1 \<Longrightarrow> olabel a \<noteq> no_label" "p2 = b # q2 \<Longrightarrow> ilabel b \<noteq> no_label"
    "\<not> starts_oeps p1 \<Longrightarrow> \<not> starts_ieps p2 \<Longrightarrow> (p1, p2) \<noteq> ([], []) \<Longrightarrow>
       \<exists>a b q1 q2. p1 = a # q1 \<and> p2 = b # q2 \<and> olabel a = ilabel b"
  using assms by (cases p1; cases p2; auto simp: matched_def composable_def)+

lemma starts_cases:
  "starts_oeps p \<Longrightarrow> \<exists>a q. p = a # q \<and> olabel a = epsilon"
  "starts_ieps p \<Longrightarrow> \<exists>a q. p = a # q \<and> ilabel a = epsilon"
  by (cases p; simp)+

text \<open>A unique pair, from the pair itself and the rejection of every other one.\<close>

lemma one_pairI:
  assumes "first_pair s1 s2 p1 p2 m q1 q2" "d (fst m) (snd m) = Some fs'" "ok fs' q1 q2"
    "\<And>n r1 r2 gs. first_pair s1 s2 p1 p2 n r1 r2 \<Longrightarrow> d (fst n) (snd n) = Some gs \<Longrightarrow>
       ok gs r1 r2 \<Longrightarrow> n = m"
  shows "\<exists>!m. \<exists>q1 q2 fs'. first_pair s1 s2 p1 p2 m q1 q2 \<and> d (fst m) (snd m) = Some fs' \<and> ok fs' q1 q2"
  using assms by blast

lemma both_pair:
  assumes m: "matched f1 f2 s1 s2 p1 p2" and o: "\<not> starts_oeps p1" and i: "\<not> starts_ieps p2"
    and ne: "(p1, p2) \<noteq> ([], [])"
    and d: "\<And>a b. olabel a \<noteq> no_label \<Longrightarrow> ilabel b \<noteq> no_label \<Longrightarrow> olabel a \<noteq> epsilon \<Longrightarrow>
      \<exists>fs'. d a b = Some fs' \<and> (\<forall>q1 q2. ok fs' q1 q2)"
  shows "\<exists>!m. \<exists>q1 q2 fs'. first_pair s1 s2 p1 p2 m q1 q2 \<and> d (fst m) (snd m) = Some fs' \<and> ok fs' q1 q2"
proof -
  obtain a b q1 q2 where p: "p1 = a # q1" "p2 = b # q2" "olabel a = ilabel b"
    using matched_heads(3) [OF m o i ne] by blast
  have "olabel a \<noteq> no_label" "ilabel b \<noteq> no_label" "olabel a \<noteq> epsilon"
    using matched_heads(1) [OF m p(1)] matched_heads(2) [OF m p(2)] p(1) o by simp_all
  then obtain fs' where fs': "d a b = Some fs'" "\<forall>q1 q2. ok fs' q1 q2" using d by blast
  show ?thesis
  proof (rule one_pairI)
    show "first_pair s1 s2 p1 p2 (a, b) q1 q2" using p by (simp add: first_pair.both)
    show "d (fst (a, b)) (snd (a, b)) = Some fs'" "ok fs' q1 q2" using fs' by simp_all
    fix n r1 r2 gs
    assume "first_pair s1 s2 p1 p2 n r1 r2"
    then show "n = (a, b)" by cases (use p o i in simp_all)
  qed
qed

lemma sf_one_pair:
  assumes m: "matched f1 f2 s1 s2 p1 p2" and ok: "sf_ok fs p1 p2" and ne: "(p1, p2) \<noteq> ([], [])"
  shows "\<exists>!m. \<exists>q1 q2 fs'. first_pair s1 s2 p1 p2 m q1 q2 \<and>
    sf_decide f1 f2 s1 s2 fs (fst m) (snd m) = Some fs' \<and> sf_ok fs' q1 q2"
proof (cases "starts_oeps p1")
  case True
  then obtain a q where a: "p1 = a # q" "olabel a = epsilon" using starts_cases by blast
  have fs: "fs = STATE_DEFAULT" using ok True by (simp add: sf_ok_def)
  have al: "olabel a \<noteq> no_label" using a by simp
  have take: "sf_decide f1 f2 s1 s2 fs a (loop2 s2) = Some STATE_DEFAULT"
    using sf_decisions(3) [OF m al, of "loop2 s2" fs] fs by simp
  have stay: "sf_decide f1 f2 s1 s2 fs (loop1 s1) b \<in> {None, Some STATE_EPS1}" for b
    using sf_decisions(2) [OF m _ True, of "loop1 s1" fs b] by simp
  have pair: "sf_decide f1 f2 s1 s2 fs a b = None" if "p2 = b # r" for b r
    using sf_decisions(4) [OF m al, of b fs] matched_heads(2) [OF m that] a(2) by simp
  show ?thesis
  proof (rule ex1I [of _ "(a, loop2 s2)"])
    show "\<exists>q1 q2 fs'. first_pair s1 s2 p1 p2 (a, loop2 s2) q1 q2 \<and>
        sf_decide f1 f2 s1 s2 fs (fst (a, loop2 s2)) (snd (a, loop2 s2)) = Some fs' \<and> sf_ok fs' q1 q2"
      using a take by (auto simp: sf_ok_def intro: first_pair.stay2)
    fix n
    assume "\<exists>q1 q2 fs'. first_pair s1 s2 p1 p2 n q1 q2 \<and>
        sf_decide f1 f2 s1 s2 fs (fst n) (snd n) = Some fs' \<and> sf_ok fs' q1 q2"
    then obtain q1 q2 fs' where n: "first_pair s1 s2 p1 p2 n q1 q2"
        "sf_decide f1 f2 s1 s2 fs (fst n) (snd n) = Some fs'" "sf_ok fs' q1 q2" by blast
    from n(1) show "n = (a, loop2 s2)"
    proof cases
      case (stay1 b)
      then show ?thesis using n(2,3) stay [of b] True by (auto simp: sf_ok_def)
    qed (use a n(2) pair in auto)
  qed
next
  case o: False
  show ?thesis
  proof (cases "starts_ieps p2")
    case True
    then obtain b q where b: "p2 = b # q" "ilabel b = epsilon" using starts_cases by blast
    then show ?thesis
      using o sf_decisions(1) [OF m, of "loop1 s1" fs b]
      by (intro ex1I [of _ "(loop1 s1, b)"]) (auto simp: first_pair_simps sf_ok_def)
  next
    case False
    then show ?thesis
      by (rule both_pair [OF m o _ ne]) (simp add: sf_decisions(4) [OF m] sf_ok_def)
  qed
qed

lemma sf_not_ok:
  assumes m: "matched f1 f2 s1 s2 p1 p2" and "\<not> sf_ok fs p1 p2"
    "first_pair s1 s2 p1 p2 m q1 q2" "sf_decide f1 f2 s1 s2 fs (fst m) (snd m) = Some fs'"
  shows "\<not> sf_ok fs' q1 q2"
proof -
  have fs: "fs \<noteq> STATE_DEFAULT" and o: "starts_oeps p1" using assms(2) by (auto simp: sf_ok_def)
  obtain a q where a: "p1 = a # q" "olabel a = epsilon" using o starts_cases by blast
  have al: "olabel a \<noteq> no_label" using a by simp
  have take: "sf_decide f1 f2 s1 s2 fs a (loop2 s2) = None"
    using sf_decisions(3) [OF m al, of "loop2 s2" fs] fs by simp
  have stay: "sf_decide f1 f2 s1 s2 fs (loop1 s1) b \<in> {None, Some STATE_EPS1}" for b
    using sf_decisions(2) [OF m _ o, of "loop1 s1" fs b] by simp
  have pair: "sf_decide f1 f2 s1 s2 fs a b = None" if "p2 = b # r" for b r
    using sf_decisions(4) [OF m al, of b fs] matched_heads(2) [OF m that] a(2) by simp
  from assms(3) show ?thesis
  proof cases
    case (stay1 b)
    then show ?thesis using assms(4) stay [of b] o by (auto simp: sf_ok_def)
  qed (use a assms(4) take pair in auto)
qed

interpretation seqf: epsilon_filter sf_decide STATE_DEFAULT sf_ok
proof (unfold_locales, goal_cases)
  case (3 f1 f2 s1 s2 p1 p2 fs)
  then show ?case by (rule sf_one_pair)
next
  case (4 f1 f2 s1 s2 p1 p2 fs m q1 q2 fs')
  then show ?case by (rule sf_not_ok)
qed (simp_all add: sf_ok_def)

subsection \<open>The alternative sequence filter\<close>

lemma af_one_pair:
  assumes m: "matched f1 f2 s1 s2 p1 p2" and ok: "af_ok fs p1 p2" and ne: "(p1, p2) \<noteq> ([], [])"
  shows "\<exists>!m. \<exists>q1 q2 fs'. first_pair s1 s2 p1 p2 m q1 q2 \<and>
    af_decide f1 f2 s1 s2 fs (fst m) (snd m) = Some fs' \<and> af_ok fs' q1 q2"
proof (cases "starts_ieps p2")
  case True
  then obtain b q where b: "p2 = b # q" "ilabel b = epsilon" using starts_cases by blast
  have fs: "fs \<noteq> STATE_EPS1" using ok True by (simp add: af_ok_def)
  have bl: "ilabel b \<noteq> no_label" using b by simp
  have take: "af_decide f1 f2 s1 s2 fs (loop1 s1) b = Some STATE_DEFAULT"
    using af_decisions(3) [OF m bl, of "loop1 s1" fs] fs by simp
  have stay: "af_decide f1 f2 s1 s2 fs a (loop2 s2) \<in> {None, Some STATE_EPS1}" for a
    using af_decisions(2) [OF m _ True, of "loop2 s2" fs a] by simp
  have pair: "af_decide f1 f2 s1 s2 fs a b = None" if "p1 = a # r" "olabel a = epsilon" for a r
    using af_decisions(4) [OF m bl, of a fs] matched_heads(1) [OF m that(1)] that(2) by simp
  show ?thesis
  proof (rule one_pairI [where m = "(loop1 s1, b)"])
    show "first_pair s1 s2 p1 p2 (loop1 s1, b) p1 q" using b by (auto intro: first_pair.stay1)
    show "af_decide f1 f2 s1 s2 fs (fst (loop1 s1, b)) (snd (loop1 s1, b)) = Some STATE_DEFAULT"
      using take by simp
    show "af_ok STATE_DEFAULT p1 q" by (simp add: af_ok_def)
    fix n r1 r2 gs
    assume n: "first_pair s1 s2 p1 p2 n r1 r2"
      "af_decide f1 f2 s1 s2 fs (fst n) (snd n) = Some gs" "af_ok gs r1 r2"
    from n(1) show "n = (loop1 s1, b)"
    proof cases
      case (stay2 a)
      then show ?thesis using n(2,3) stay [of a] True by (auto simp: af_ok_def)
    qed (use b n(2) pair in auto)
  qed
next
  case i: False
  show ?thesis
  proof (cases "starts_oeps p1")
    case True
    then obtain a q where a: "p1 = a # q" "olabel a = epsilon" using starts_cases by blast
    then show ?thesis
      using i af_decisions(1) [OF m, of "loop2 s2" fs a]
      by (intro ex1I [of _ "(a, loop2 s2)"]) (auto simp: first_pair_simps af_ok_def)
  next
    case False
    then show ?thesis
      by (rule both_pair [OF m _ i ne]) (simp add: af_decisions(4) [OF m] af_ok_def)
  qed
qed

lemma af_not_ok:
  assumes m: "matched f1 f2 s1 s2 p1 p2" and "\<not> af_ok fs p1 p2"
    "first_pair s1 s2 p1 p2 m q1 q2" "af_decide f1 f2 s1 s2 fs (fst m) (snd m) = Some fs'"
  shows "\<not> af_ok fs' q1 q2"
proof -
  have fs: "fs = STATE_EPS1" and i: "starts_ieps p2" using assms(2) by (auto simp: af_ok_def)
  obtain b q where b: "p2 = b # q" "ilabel b = epsilon" using i starts_cases by blast
  have bl: "ilabel b \<noteq> no_label" using b by simp
  have take: "af_decide f1 f2 s1 s2 fs (loop1 s1) b = None"
    using af_decisions(3) [OF m bl, of "loop1 s1" fs] fs by simp
  have stay: "af_decide f1 f2 s1 s2 fs a (loop2 s2) \<in> {None, Some STATE_EPS1}" for a
    using af_decisions(2) [OF m _ i, of "loop2 s2" fs a] by simp
  have pair: "af_decide f1 f2 s1 s2 fs a b = None" if "p1 = a # r" "olabel a = epsilon" for a r
    using af_decisions(4) [OF m bl, of a fs] matched_heads(1) [OF m that(1)] that(2) by simp
  from assms(3) show ?thesis
  proof cases
    case (stay2 a)
    then show ?thesis using assms(4) stay [of a] i by (auto simp: af_ok_def)
  qed (use b assms(4) take pair in auto)
qed

interpretation altf: epsilon_filter af_decide STATE_DEFAULT af_ok
proof (unfold_locales, goal_cases)
  case (3 f1 f2 s1 s2 p1 p2 fs)
  then show ?case by (rule af_one_pair)
next
  case (4 f1 f2 s1 s2 p1 p2 fs m q1 q2 fs')
  then show ?case by (rule af_not_ok)
qed (simp_all add: af_ok_def)

subsection \<open>The match filter\<close>

lemma mf_one_pair:
  assumes m: "matched f1 f2 s1 s2 p1 p2" and ok: "mf_ok fs p1 p2" and ne: "(p1, p2) \<noteq> ([], [])"
  shows "\<exists>!m. \<exists>q1 q2 fs'. first_pair s1 s2 p1 p2 m q1 q2 \<and>
    mf_decide f1 f2 s1 s2 fs (fst m) (snd m) = Some fs' \<and> mf_ok fs' q1 q2"
proof (cases "starts_oeps p1")
  case o: True
  then obtain a q where a: "p1 = a # q" "olabel a = epsilon" using starts_cases by blast
  have al: "olabel a \<noteq> no_label" using a by simp
  show ?thesis
  proof (cases "starts_ieps p2")
    case i: True
    then obtain b r where b: "p2 = b # r" "ilabel b = epsilon" using starts_cases by blast
    have bl: "ilabel b \<noteq> no_label" using b by simp
    have fs: "fs = STATE_DEFAULT" using ok o i by (auto simp: mf_ok_def)
    have stay1: "mf_decide f1 f2 s1 s2 fs (loop1 s1) b \<in> {None, Some STATE_EPS2}"
      using mf_decisions(5) [OF m bl _ o fs, of "loop1 s1"] by simp
    have stay2: "mf_decide f1 f2 s1 s2 fs a (loop2 s2) \<in> {None, Some STATE_EPS1}"
      using mf_decisions(2) [OF m _ i fs, of "loop2 s2" a] by simp
    show ?thesis
    proof (rule one_pairI)
      show "first_pair s1 s2 p1 p2 (a, b) q r" using a b by (simp add: first_pair.both)
      show "mf_decide f1 f2 s1 s2 fs (fst (a, b)) (snd (a, b)) = Some STATE_DEFAULT"
        using mf_decisions(7) [OF m bl al, of fs] fs by simp
      show "mf_ok STATE_DEFAULT q r" by (simp add: mf_ok_def)
      fix n r1 r2 gs
      assume n: "first_pair s1 s2 p1 p2 n r1 r2"
        "mf_decide f1 f2 s1 s2 fs (fst n) (snd n) = Some gs" "mf_ok gs r1 r2"
      from n(1) show "n = (a, b)"
        by cases (use a b n(2,3) stay1 stay2 o i in \<open>auto simp: mf_ok_def\<close>)
    qed
  next
    case i: False
    have "\<exists>gs. mf_decide f1 f2 s1 s2 fs a (loop2 s2) = Some gs \<and> (gs = STATE_DEFAULT \<or> gs = STATE_EPS1)"
      using mf_decisions(1) [OF m _ i, of "loop2 s2" fs a] mf_decisions(3) [OF m, of "loop2 s2" fs a]
        ok o by (auto simp: mf_ok_def)
    then obtain gs where gs: "mf_decide f1 f2 s1 s2 fs a (loop2 s2) = Some gs"
        "gs = STATE_DEFAULT \<or> gs = STATE_EPS1" by blast
    show ?thesis
    proof (rule one_pairI)
      show "first_pair s1 s2 p1 p2 (a, loop2 s2) q p2" using a by (simp add: first_pair.stay2)
      show "mf_decide f1 f2 s1 s2 fs (fst (a, loop2 s2)) (snd (a, loop2 s2)) = Some gs"
        using gs by simp
      show "mf_ok gs q p2" using gs(2) i by (auto simp: mf_ok_def)
      fix n r1 r2 gs
      assume "first_pair s1 s2 p1 p2 n r1 r2"
      then show "n = (a, loop2 s2)" by cases (use a i in auto)
    qed
  qed
next
  case o: False
  show ?thesis
  proof (cases "starts_ieps p2")
    case i: True
    then obtain b r where b: "p2 = b # r" "ilabel b = epsilon" using starts_cases by blast
    have bl: "ilabel b \<noteq> no_label" using b by simp
    have "\<exists>gs. mf_decide f1 f2 s1 s2 fs (loop1 s1) b = Some gs \<and> (gs = STATE_DEFAULT \<or> gs = STATE_EPS2)"
      using mf_decisions(4) [OF m bl _ o, of "loop1 s1" fs] mf_decisions(6) [OF m bl, of "loop1 s1" fs]
        ok i by (auto simp: mf_ok_def)
    then obtain gs where gs: "mf_decide f1 f2 s1 s2 fs (loop1 s1) b = Some gs"
        "gs = STATE_DEFAULT \<or> gs = STATE_EPS2" by blast
    show ?thesis
    proof (rule one_pairI)
      show "first_pair s1 s2 p1 p2 (loop1 s1, b) p1 r" using b by (simp add: first_pair.stay1)
      show "mf_decide f1 f2 s1 s2 fs (fst (loop1 s1, b)) (snd (loop1 s1, b)) = Some gs"
        using gs by simp
      show "mf_ok gs p1 r" using gs(2) o by (auto simp: mf_ok_def)
      fix n r1 r2 gs
      assume "first_pair s1 s2 p1 p2 n r1 r2"
      then show "n = (loop1 s1, b)" by cases (use b o in auto)
    qed
  next
    case False
    then show ?thesis
      by (rule both_pair [OF m o _ ne]) (simp add: mf_decisions(7) [OF m] mf_ok_def)
  qed
qed

lemma mf_not_ok:
  assumes m: "matched f1 f2 s1 s2 p1 p2" and nok: "\<not> mf_ok fs p1 p2"
    "first_pair s1 s2 p1 p2 m q1 q2" "mf_decide f1 f2 s1 s2 fs (fst m) (snd m) = Some fs'"
  shows "\<not> mf_ok fs' q1 q2"
proof -
  have fs: "fs \<noteq> STATE_DEFAULT" using nok(1) by (auto simp: mf_ok_def)
  from nok(2) show ?thesis
  proof cases
    case (both a b)
    have "olabel a = epsilon" using nok(1) both by (auto simp: mf_ok_def)
    then show ?thesis
      using mf_decisions(7) [OF m, of b a fs] matched_heads(1) [OF m] matched_heads(2) [OF m]
        both nok(3) fs by simp
  next
    case (stay1 b)
    then show ?thesis
      using mf_decisions(6) [OF m, of b "loop1 s1" fs] matched_heads(2) [OF m] nok fs
      by (auto simp: mf_ok_def split: if_splits)
  next
    case (stay2 a)
    then show ?thesis
      using mf_decisions(3) [OF m, of "loop2 s2" fs a] nok fs
      by (auto simp: mf_ok_def split: if_splits)
  qed
qed

interpretation matchf: epsilon_filter mf_decide STATE_DEFAULT mf_ok
proof (unfold_locales, goal_cases)
  case (3 f1 f2 s1 s2 p1 p2 fs)
  then show ?case by (rule mf_one_pair)
next
  case (4 f1 f2 s1 s2 p1 p2 fs m q1 q2 fs')
  then show ?case by (rule mf_not_ok)
qed (simp_all add: mf_ok_def)

section \<open>The cached flags\<close>

text \<open>A composition keeps one filter and moves it from pair to pair with \<open>set_state\<close>, which
  returns early when nothing changed.  Whatever calls came before, the decision is that of
  a fresh filter.\<close>

definition sf_after :: "('w::{zero,one}, 'sym) vector_fst \<Rightarrow> (state_id \<times> state_id \<times> char_state) list \<Rightarrow>
  ('w, 'sym) sequence_filter" where
  "sf_after f1 calls = fold (\<lambda>(s1, s2, fs) F. sf_set_state F s1 s2 fs) calls (sf_new f1)"

definition af_after :: "('w::{zero,one}, 'sym) vector_fst \<Rightarrow> (state_id \<times> state_id \<times> char_state) list \<Rightarrow>
  ('w, 'sym) alt_sequence_filter" where
  "af_after f2 calls = fold (\<lambda>(s1, s2, fs) F. af_set_state F s1 s2 fs) calls (af_new f2)"

definition mf_after ::
  "('w::{zero,one}, 'sym) vector_fst \<Rightarrow> ('w, 'sym) vector_fst \<Rightarrow>
   (state_id \<times> state_id \<times> char_state) list \<Rightarrow> ('w, 'sym) match_filter" where
  "mf_after f1 f2 calls = fold (\<lambda>(s1, s2, fs) F. mf_set_state F s1 s2 fs) calls (mf_new f1 f2)"

definition all_oeps :: "('w::{zero,one}, 'sym) vector_fst \<Rightarrow> state_id \<Rightarrow> bool" where
  "all_oeps f s \<longleftrightarrow> vf_num_arcs f s = num_output_epsilons f s \<and> \<not> vf_final_weight f s \<noteq> 0"

definition all_ieps :: "('w::{zero,one}, 'sym) vector_fst \<Rightarrow> state_id \<Rightarrow> bool" where
  "all_ieps f s \<longleftrightarrow> vf_num_arcs f s = num_input_epsilons f s \<and> \<not> vf_final_weight f s \<noteq> 0"

definition sf_flags :: "('w::{zero,one}, 'sym) vector_fst \<Rightarrow> ('w, 'sym) sequence_filter \<Rightarrow> bool" where
  "sf_flags f1 F \<longleftrightarrow> sf_fst1 F = f1 \<and> (sf_s1 F \<noteq> no_state \<longrightarrow>
     sf_alleps1 F = all_oeps f1 (sf_s1 F) \<and> sf_noeps1 F = (num_output_epsilons f1 (sf_s1 F) = 0))"

definition af_flags :: "('w::{zero,one}, 'sym) vector_fst \<Rightarrow> ('w, 'sym) alt_sequence_filter \<Rightarrow> bool" where
  "af_flags f2 F \<longleftrightarrow> af_fst2 F = f2 \<and> (af_s2 F \<noteq> no_state \<longrightarrow>
     af_alleps2 F = all_ieps f2 (af_s2 F) \<and> af_noeps2 F = (num_input_epsilons f2 (af_s2 F) = 0))"

definition mf_flags ::
  "('w::{zero,one}, 'sym) vector_fst \<Rightarrow> ('w, 'sym) vector_fst \<Rightarrow> ('w, 'sym) match_filter \<Rightarrow> bool" where
  "mf_flags f1 f2 F \<longleftrightarrow> mf_fst1 F = f1 \<and> mf_fst2 F = f2 \<and>
     (mf_s1 F \<noteq> no_state \<longrightarrow>
       mf_alleps1 F = all_oeps f1 (mf_s1 F) \<and> mf_noeps1 F = (num_output_epsilons f1 (mf_s1 F) = 0)) \<and>
     (mf_s2 F \<noteq> no_state \<longrightarrow>
       mf_alleps2 F = all_ieps f2 (mf_s2 F) \<and> mf_noeps2 F = (num_input_epsilons f2 (mf_s2 F) = 0))"

lemma sf_set_state_flags:
  "sf_flags f1 F \<Longrightarrow> sf_flags f1 (sf_set_state F s1 s2 fs)"
  unfolding sf_set_state_def by (simp add: sf_flags_def all_oeps_def Let_def)

lemma af_set_state_flags:
  "af_flags f2 F \<Longrightarrow> af_flags f2 (af_set_state F s1 s2 fs)"
  unfolding af_set_state_def by (simp add: af_flags_def all_ieps_def Let_def)

lemma mf_set_state_flags:
  "mf_flags f1 f2 F \<Longrightarrow> mf_flags f1 f2 (mf_set_state F s1 s2 fs)"
  unfolding mf_set_state_def by (simp add: mf_flags_def all_ieps_def all_oeps_def Let_def)

lemma sf_set_state_at [simp]:
  "sf_s1 (sf_set_state F s1 s2 fs) = s1" "sf_fs (sf_set_state F s1 s2 fs) = fs"
  by (simp_all add: sf_set_state_def Let_def)

lemma af_set_state_at [simp]:
  "af_s2 (af_set_state F s1 s2 fs) = s2" "af_fs (af_set_state F s1 s2 fs) = fs"
  by (simp_all add: af_set_state_def Let_def)

lemma mf_set_state_at [simp]:
  "mf_s1 (mf_set_state F s1 s2 fs) = s1" "mf_s2 (mf_set_state F s1 s2 fs) = s2"
  "mf_fs (mf_set_state F s1 s2 fs) = fs"
  by (simp_all add: mf_set_state_def Let_def)

lemma sf_after_flags: "sf_flags f1 (sf_after f1 calls)"
  by (induction calls rule: rev_induct)
    (auto simp: sf_after_def sf_set_state_flags, simp add: sf_flags_def sf_new_def)

lemma af_after_flags: "af_flags f2 (af_after f2 calls)"
  by (induction calls rule: rev_induct)
    (auto simp: af_after_def af_set_state_flags, simp add: af_flags_def af_new_def)

lemma mf_after_flags: "mf_flags f1 f2 (mf_after f1 f2 calls)"
  by (induction calls rule: rev_induct)
    (auto simp: mf_after_def mf_set_state_flags, simp add: mf_flags_def mf_new_def)

lemma sf_cache_transparent:
  assumes "s1 \<noteq> no_state"
  shows "sf_filter_arc (sf_set_state (sf_after f1 calls) s1 s2 fs) a b = sf_decide f1 f2 s1 s2 fs a b"
  using sf_set_state_flags [OF sf_after_flags [of f1 calls], of s1 s2 fs]
    sf_set_state_flags [OF sf_after_flags [of f1 "[]"], of s1 s2 fs] assms
  by (simp add: sf_filter_arc_def sf_decide_def sf_flags_def sf_after_def)

lemma af_cache_transparent:
  assumes "s2 \<noteq> no_state"
  shows "af_filter_arc (af_set_state (af_after f2 calls) s1 s2 fs) a b = af_decide f1 f2 s1 s2 fs a b"
  using af_set_state_flags [OF af_after_flags [of f2 calls], of s1 s2 fs]
    af_set_state_flags [OF af_after_flags [of f2 "[]"], of s1 s2 fs] assms
  by (simp add: af_filter_arc_def af_decide_def af_flags_def af_after_def)

lemma mf_filter_arc_cong:
  assumes "mf_fs F = mf_fs G" "mf_alleps1 F = mf_alleps1 G" "mf_noeps1 F = mf_noeps1 G"
    "mf_alleps2 F = mf_alleps2 G" "mf_noeps2 F = mf_noeps2 G"
  shows "mf_filter_arc F a b = mf_filter_arc G a b"
  by (simp only: mf_filter_arc_def assms)

lemma mf_cache_transparent:
  assumes "s1 \<noteq> no_state" "s2 \<noteq> no_state"
  shows "mf_filter_arc (mf_set_state (mf_after f1 f2 calls) s1 s2 fs) a b = mf_decide f1 f2 s1 s2 fs a b"
  unfolding mf_decide_def
  using mf_set_state_flags [OF mf_after_flags [of f1 f2 calls], of s1 s2 fs]
    mf_set_state_flags [OF mf_after_flags [of f1 f2 "[]"], of s1 s2 fs] assms
  by (intro mf_filter_arc_cong) (simp_all add: mf_flags_def mf_after_def)

section \<open>Properties\<close>

text \<open>
  C12. The sequence filter, the default of composition, accepts exactly one alignment of two
  accepting paths whose meeting strings agree: every such pair of paths is found, and it is
  found once, whatever epsilons the two paths carry.
\<close>

theorem sequence_filter_one_alignment:
  assumes "matched f1 f2 s1 s2 p1 p2"
  shows "\<exists>!ms. alignment sf_decide f1 f2 s1 s2 STATE_DEFAULT p1 p2 ms"
  using assms by (rule seqf.exactly_one)

definition two_eps :: "(nat, unit) vector_fst" where
  "two_eps = set_final (add_arc (add_states vf_new 2) 0 (arc_new 0 0 1 1)) 1 1"

lemma two_eps_built: "vf_built two_eps"
proof -
  have "vf_built (add_states vf_new 2 :: (nat, unit) vector_fst)"
    by (rule vf_built.call [OF vf_built.new vf_step.step [of "AddStates 2"]]) simp_all
  then have "vf_built (add_arc (add_states vf_new 2) 0 (arc_new 0 0 1 1) :: (nat, unit) vector_fst)"
    by (rule vf_built.call [OF _ vf_step.step [of "AddArc 0 (arc_new 0 0 1 1)"]]) simp_all
  then show ?thesis unfolding two_eps_def
    by (rule vf_built.call [OF _ vf_step.step [of "SetFinal 1 1"]]) simp_all
qed

lemma two_eps_states: "vf_states two_eps =
  [vs_add_arc vs_new (arc_new 0 0 1 1), vs_new\<lparr>vs_final := 1\<rparr>]"
  by (simp add: two_eps_def set_final_def add_arc_run add_states_def modify_properties_def
      vf_new_def vresize_def numeral_2_eq_2)

lemma two_eps_matched: "matched two_eps two_eps 0 0 [arc_new 0 0 1 1] [arc_new 0 0 1 1]"
proof -
  have "vf_counts two_eps" using built_inv [OF two_eps_built] by (simp add: vf_inv_def)
  moreover have "vf_arcs two_eps s = (if s = 0 then [arc_new 0 0 1 1] else [])" for s
    by (auto simp: vf_arcs_def two_eps_states vget_def nth_Cons' less_Suc_eq)
  moreover have "vf_final_weight two_eps 1 = 1"
    by (simp add: vf_final_weight_def two_eps_states)
  moreover have "length (vf_states two_eps) \<le> usize_max"
    by (simp add: two_eps_states usize_max_def)
  moreover have "(0::int) \<noteq> no_label" by (simp add: no_label_def)
  ultimately show ?thesis
    by (simp add: matched_def composable_def epsilon_def)
qed

theorem sequence_filter_one_alignment_witness:
  "\<exists>!ms. alignment sf_decide two_eps two_eps 0 0 STATE_DEFAULT [arc_new 0 0 1 1] [arc_new 0 0 1 1] ms"
  by (rule sequence_filter_one_alignment) (rule two_eps_matched)

text \<open>
  C27. The alternative sequence filter, which takes the epsilons of the second FST first, also
  accepts exactly one alignment of two matching paths.
\<close>

theorem alt_sequence_filter_one_alignment:
  assumes "matched f1 f2 s1 s2 p1 p2"
  shows "\<exists>!ms. alignment af_decide f1 f2 s1 s2 STATE_DEFAULT p1 p2 ms"
  using assms by (rule altf.exactly_one)

theorem alt_sequence_filter_one_alignment_witness:
  "\<exists>!ms. alignment af_decide two_eps two_eps 0 0 STATE_DEFAULT [arc_new 0 0 1 1] [arc_new 0 0 1 1] ms"
  by (rule alt_sequence_filter_one_alignment) (rule two_eps_matched)

text \<open>
  C17. The match filter, which pairs epsilons with epsilons as long as both sides have them,
  accepts exactly one alignment of two matching paths.
\<close>

theorem match_filter_one_alignment:
  assumes "matched f1 f2 s1 s2 p1 p2"
  shows "\<exists>!ms. alignment mf_decide f1 f2 s1 s2 STATE_DEFAULT p1 p2 ms"
  using assms by (rule matchf.exactly_one)

theorem match_filter_one_alignment_witness:
  "\<exists>!ms. alignment mf_decide two_eps two_eps 0 0 STATE_DEFAULT [arc_new 0 0 1 1] [arc_new 0 0 1 1] ms"
  by (rule match_filter_one_alignment) (rule two_eps_matched)

text \<open>
  C32. The flags a filter caches between calls never change its decision: after any calls of
  \<open>set_state\<close>, moving the filter to an existing pair of states and asking it gives what a
  fresh filter gives.
\<close>

theorem filter_cache_is_transparent:
  assumes "s1 \<noteq> no_state" "s2 \<noteq> no_state"
  shows "sf_filter_arc (sf_set_state (sf_after f1 calls) s1 s2 fs) a b = sf_decide f1 f2 s1 s2 fs a b \<and>
    af_filter_arc (af_set_state (af_after f2 calls) s1 s2 fs) a b = af_decide f1 f2 s1 s2 fs a b \<and>
    mf_filter_arc (mf_set_state (mf_after f1 f2 calls) s1 s2 fs) a b = mf_decide f1 f2 s1 s2 fs a b"
  using assms by (simp add: sf_cache_transparent af_cache_transparent mf_cache_transparent)

theorem filter_cache_is_transparent_witness:
  "mf_filter_arc (mf_set_state (mf_after two_eps two_eps [(1, 0, 2), (0, 0, 0)]) 0 0 0)
     (arc_new 0 0 1 1) (loop2 0) =
    mf_decide two_eps two_eps 0 0 0 (arc_new 0 0 1 1) (loop2 0)"
  using filter_cache_is_transparent [of 0 0 two_eps "[(1, 0, 2), (0, 0, 0)]" 0 "arc_new 0 0 1 1"
      "loop2 0" two_eps]
  by (simp add: no_state_def usize_max_def)

end
