(* ===== verification/PropertyScan.thy ===== *)
theory PropertyScan
  imports VectorFstOps
begin

text \<open>
  The scan of \<open>algorithms/test_properties.rs\<close>: what one pass over the states and arcs of an
  FST settles, every bit exactly.  The bits that need a depth-first search are left to the
  search; the scan is given its components.
\<close>

section \<open>The scan\<close>

text \<open>\<open>props |= set; props &= !clear\<close> under a condition.\<close>

definition refute :: "bool \<Rightarrow> 64 word \<Rightarrow> 64 word \<Rightarrow> 64 word \<Rightarrow> 64 word" where
  "refute c on off props = (if c then (props OR on) AND NOT off else props)"

record 'w arc_scan =
  sc_props :: "64 word"
  sc_ilabels :: "label set"
  sc_olabels :: "label set"
  sc_prev :: "'w arc option"
  sc_narcs :: nat

definition same_component :: "state_id list \<Rightarrow> state_id \<Rightarrow> state_id \<Rightarrow> bool" where
  "same_component scc s t =
     (case vget scc s of None \<Rightarrow> False
      | Some from \<Rightarrow> (case vget scc t of None \<Rightarrow> False | Some to \<Rightarrow> from = to))"

definition scan_order :: "'w arc option \<Rightarrow> 'w arc \<Rightarrow> 64 word \<Rightarrow> 64 word" where
  "scan_order prev a props =
     (case prev of None \<Rightarrow> props
      | Some prev \<Rightarrow>
          let props = refute (ilabel a < ilabel prev) K_NOT_I_LABEL_SORTED K_I_LABEL_SORTED props
          in refute (olabel a < olabel prev) K_NOT_O_LABEL_SORTED K_O_LABEL_SORTED props)"

definition scan_weight ::
  "state_id list \<Rightarrow> state_id \<Rightarrow> 'w::{zero,one} arc \<Rightarrow> 64 word \<Rightarrow> 64 word" where
  "scan_weight scc s a props =
     (if weight a \<noteq> 1 \<and> weight a \<noteq> 0 then
        let props = (props OR K_WEIGHTED) AND NOT K_UNWEIGHTED
        in refute ((props AND K_UNWEIGHTED_CYCLES) \<noteq> 0 \<and> same_component scc s (nextstate a))
             K_WEIGHTED_CYCLES K_UNWEIGHTED_CYCLES props
      else props)"

definition scan_arc ::
  "bool \<Rightarrow> bool \<Rightarrow> state_id list \<Rightarrow> state_id \<Rightarrow> 'w::{zero,one} arc \<Rightarrow> 'w arc_scan \<Rightarrow> 'w arc_scan" where
  "scan_arc check_ideterministic check_odeterministic scc s a sc =
     (let props = sc_props sc;
          props = refute (check_ideterministic \<and> ilabel a \<in> sc_ilabels sc)
            K_NON_I_DETERMINISTIC K_I_DETERMINISTIC props;
          props = refute (check_odeterministic \<and> olabel a \<in> sc_olabels sc)
            K_NON_O_DETERMINISTIC K_O_DETERMINISTIC props;
          props = refute (ilabel a \<noteq> olabel a) K_NOT_ACCEPTOR K_ACCEPTOR props;
          props = refute (ilabel a = epsilon \<and> olabel a = epsilon) K_EPSILONS K_NO_EPSILONS props;
          props = refute (ilabel a = epsilon) K_I_EPSILONS K_NO_I_EPSILONS props;
          props = refute (olabel a = epsilon) K_O_EPSILONS K_NO_O_EPSILONS props;
          props = scan_order (sc_prev sc) a props;
          props = scan_weight scc s a props;
          props = refute (nextstate a \<le> s) K_NOT_TOP_SORTED K_TOP_SORTED props;
          props = refute (nextstate a \<noteq> s + 1) K_NOT_STRING K_STRING props
      in \<lparr>sc_props = props,
          sc_ilabels = (if check_ideterministic then insert (ilabel a) (sc_ilabels sc) else sc_ilabels sc),
          sc_olabels = (if check_odeterministic then insert (olabel a) (sc_olabels sc) else sc_olabels sc),
          sc_prev = Some a, sc_narcs = sc_narcs sc + 1\<rparr>)"

definition scan_state ::
  "bool \<Rightarrow> bool \<Rightarrow> state_id list \<Rightarrow> ('w::{zero,one}, 'sym) vector_fst \<Rightarrow> state_id \<Rightarrow>
   64 word \<times> nat \<Rightarrow> 64 word \<times> nat" where
  "scan_state ci co scc f s = (\<lambda>(props, nfinal).
     let sc = fold (scan_arc ci co scc s) (vf_arcs f s)
           \<lparr>sc_props = props, sc_ilabels = {}, sc_olabels = {}, sc_prev = None, sc_narcs = 0\<rparr>;
         props = refute (nfinal > 0) K_NOT_STRING K_STRING (sc_props sc);
         final_weight = vf_final_weight f s
     in if final_weight \<noteq> 0 then
          (refute (final_weight \<noteq> 1) K_WEIGHTED K_UNWEIGHTED props, nfinal + 1)
        else (refute (sc_narcs sc \<noteq> 1) K_NOT_STRING K_STRING props, nfinal))"

definition K_DFS_PROPERTIES :: "64 word" where
  "K_DFS_PROPERTIES = K_CYCLIC OR K_ACYCLIC OR K_INITIAL_CYCLIC OR K_INITIAL_ACYCLIC OR
     K_ACCESSIBLE OR K_NOT_ACCESSIBLE OR K_CO_ACCESSIBLE OR K_NOT_CO_ACCESSIBLE"

definition K_CYCLE_PROPERTIES :: "64 word" where
  "K_CYCLE_PROPERTIES = K_DFS_PROPERTIES OR K_WEIGHTED_CYCLES OR K_UNWEIGHTED_CYCLES"

text \<open>What every FST has until an arc or a state disproves it.\<close>

definition scan_initial :: "64 word \<Rightarrow> 64 word \<Rightarrow> 64 word" where
  "scan_initial m props =
     (let props = props OR (K_ACCEPTOR OR K_NO_EPSILONS OR K_NO_I_EPSILONS OR K_NO_O_EPSILONS OR
            K_I_LABEL_SORTED OR K_O_LABEL_SORTED OR K_UNWEIGHTED OR K_TOP_SORTED OR K_STRING);
          props = (if m AND (K_I_DETERMINISTIC OR K_NON_I_DETERMINISTIC) \<noteq> 0
            then props OR K_I_DETERMINISTIC else props);
          props = (if m AND (K_O_DETERMINISTIC OR K_NON_O_DETERMINISTIC) \<noteq> 0
            then props OR K_O_DETERMINISTIC else props)
      in if m AND K_CYCLE_PROPERTIES \<noteq> 0 then props OR K_UNWEIGHTED_CYCLES else props)"

definition scan_properties ::
  "64 word \<Rightarrow> state_id list \<Rightarrow> 64 word \<Rightarrow> ('w::{zero,one}, 'sym) vector_fst \<Rightarrow> 64 word" where
  "scan_properties m scc props f =
     (if m AND NOT (K_BINARY_PROPERTIES OR K_DFS_PROPERTIES) \<noteq> 0 then
        let check_ideterministic = (m AND (K_I_DETERMINISTIC OR K_NON_I_DETERMINISTIC) \<noteq> 0);
            check_odeterministic = (m AND (K_O_DETERMINISTIC OR K_NON_O_DETERMINISTIC) \<noteq> 0);
            (props, nfinal) =
              fold (scan_state check_ideterministic check_odeterministic scc f)
                [0..<vf_num_states f] (scan_initial m props, 0)
        in (case vf_start f of None \<Rightarrow> props
            | Some start \<Rightarrow> refute (start \<noteq> 0) K_NOT_STRING K_STRING props)
      else props)"

section \<open>The bits after one arc\<close>

lemma bit_refute:
  fixes p :: "64 word"
  assumes "i < 64"
  shows "bit (refute c on off p) i \<longleftrightarrow> (bit p i \<or> c \<and> bit on i) \<and> \<not> (c \<and> bit off i)"
  using assms by (simp add: refute_def word_bits)

definition weighted_arc :: "'w::{zero,one} arc \<Rightarrow> bool" where
  "weighted_arc a \<longleftrightarrow> weight a \<noteq> 1 \<and> weight a \<noteq> 0"

lemma weighted_arc_trivial: "weighted_arc a \<longleftrightarrow> \<not> is_trivial_weight (weight a)"
  by (auto simp: weighted_arc_def is_trivial_weight_def)

lemma bit_scan_order:
  assumes "i < 64"
  shows "bit (scan_order prev a p) i \<longleftrightarrow>
    (bit p i \<or> i = 29 \<and> (\<exists>b. prev = Some b \<and> ilabel a < ilabel b) \<or>
       i = 31 \<and> (\<exists>b. prev = Some b \<and> olabel a < olabel b)) \<and>
    \<not> (i = 28 \<and> (\<exists>b. prev = Some b \<and> ilabel a < ilabel b)) \<and>
    \<not> (i = 30 \<and> (\<exists>b. prev = Some b \<and> olabel a < olabel b))"
  using assms by (cases prev) (auto simp: scan_order_def bit_refute)

lemma bit_scan_weight:
  assumes "i < 64"
  shows "bit (scan_weight scc s a p) i \<longleftrightarrow>
    (bit p i \<or> i = 32 \<and> weighted_arc a \<or>
       i = 46 \<and> bit p 47 \<and> weighted_arc a \<and> same_component scc s (nextstate a)) \<and>
    \<not> (i = 33 \<and> weighted_arc a) \<and>
    \<not> (i = 47 \<and> weighted_arc a \<and> same_component scc s (nextstate a))"
  using assms unfolding scan_weight_def weighted_arc_def Let_def
  by (cases "weight a \<noteq> 1 \<and> weight a \<noteq> 0") (auto simp: bit_refute word_bits)

lemma scan_arc_bits:
  fixes sc :: "'w::{zero,one} arc_scan" and a :: "'w arc" and s :: state_id and scc :: "state_id list"
    and ci co :: bool
  defines "b \<equiv> \<lambda>sc :: 'w arc_scan. bit (sc_props sc)" and "n \<equiv> scan_arc ci co scc s a sc"
  shows "b n 19 \<longleftrightarrow> b sc 19 \<or> ci \<and> ilabel a \<in> sc_ilabels sc"
    "b n 18 \<longleftrightarrow> b sc 18 \<and> \<not> (ci \<and> ilabel a \<in> sc_ilabels sc)"
    "b n 21 \<longleftrightarrow> b sc 21 \<or> co \<and> olabel a \<in> sc_olabels sc"
    "b n 20 \<longleftrightarrow> b sc 20 \<and> \<not> (co \<and> olabel a \<in> sc_olabels sc)"
    "b n 17 \<longleftrightarrow> b sc 17 \<or> ilabel a \<noteq> olabel a"
    "b n 16 \<longleftrightarrow> b sc 16 \<and> \<not> ilabel a \<noteq> olabel a"
    "b n 22 \<longleftrightarrow> b sc 22 \<or> ilabel a = epsilon \<and> olabel a = epsilon"
    "b n 23 \<longleftrightarrow> b sc 23 \<and> \<not> (ilabel a = epsilon \<and> olabel a = epsilon)"
    "b n 24 \<longleftrightarrow> b sc 24 \<or> ilabel a = epsilon"
    "b n 25 \<longleftrightarrow> b sc 25 \<and> \<not> ilabel a = epsilon"
    "b n 26 \<longleftrightarrow> b sc 26 \<or> olabel a = epsilon"
    "b n 27 \<longleftrightarrow> b sc 27 \<and> \<not> olabel a = epsilon"
    "b n 29 \<longleftrightarrow> b sc 29 \<or> (\<exists>prev. sc_prev sc = Some prev \<and> ilabel a < ilabel prev)"
    "b n 28 \<longleftrightarrow> b sc 28 \<and> \<not> (\<exists>prev. sc_prev sc = Some prev \<and> ilabel a < ilabel prev)"
    "b n 31 \<longleftrightarrow> b sc 31 \<or> (\<exists>prev. sc_prev sc = Some prev \<and> olabel a < olabel prev)"
    "b n 30 \<longleftrightarrow> b sc 30 \<and> \<not> (\<exists>prev. sc_prev sc = Some prev \<and> olabel a < olabel prev)"
    "b n 32 \<longleftrightarrow> b sc 32 \<or> weighted_arc a"
    "b n 33 \<longleftrightarrow> b sc 33 \<and> \<not> weighted_arc a"
    "b n 46 \<longleftrightarrow> b sc 46 \<or> b sc 47 \<and> weighted_arc a \<and> same_component scc s (nextstate a)"
    "b n 47 \<longleftrightarrow> b sc 47 \<and> \<not> (weighted_arc a \<and> same_component scc s (nextstate a))"
    "b n 39 \<longleftrightarrow> b sc 39 \<or> nextstate a \<le> s"
    "b n 38 \<longleftrightarrow> b sc 38 \<and> \<not> nextstate a \<le> s"
    "b n 45 \<longleftrightarrow> b sc 45 \<or> nextstate a \<noteq> s + 1"
    "b n 44 \<longleftrightarrow> b sc 44 \<and> \<not> nextstate a \<noteq> s + 1"
  unfolding b_def n_def scan_arc_def Let_def
  by (simp_all add: bit_refute bit_scan_order bit_scan_weight)

lemma scan_arc_rest:
  "sc_ilabels (scan_arc ci co scc s a sc) = (if ci then insert (ilabel a) (sc_ilabels sc) else sc_ilabels sc)"
  "sc_olabels (scan_arc ci co scc s a sc) = (if co then insert (olabel a) (sc_olabels sc) else sc_olabels sc)"
  "sc_prev (scan_arc ci co scc s a sc) = Some a"
  "sc_narcs (scan_arc ci co scc s a sc) = sc_narcs sc + 1"
  by (simp_all add: scan_arc_def Let_def)

section \<open>One state\<close>

lemma fold_sets:
  assumes "\<And>a x. R (step a x) \<longleftrightarrow> R x \<or> Q a"
  shows "R (fold step as x) \<longleftrightarrow> R x \<or> (\<exists>a \<in> set as. Q a)"
  using assms by (induction as arbitrary: x) auto

lemma fold_clears:
  assumes "\<And>a x. R (step a x) \<longleftrightarrow> R x \<and> \<not> Q a"
  shows "R (fold step as x) \<longleftrightarrow> R x \<and> \<not> (\<exists>a \<in> set as. Q a)"
  using assms by (induction as arbitrary: x) auto

text \<open>Properties an arc breaks together with the arcs before it.\<close>

lemma fold_repeats:
  assumes "\<And>a x. R (step a x) \<longleftrightarrow> (if pos then R x \<or> c \<and> g a \<in> seen x else R x \<and> \<not> (c \<and> g a \<in> seen x))"
    "\<And>a x. seen (step a x) = (if c then insert (g a) (seen x) else seen x)"
  shows "R (fold step as x) \<longleftrightarrow>
    (if pos then R x \<or> c \<and> \<not> (distinct (map g as) \<and> set (map g as) \<inter> seen x = {})
     else R x \<and> (c \<longrightarrow> distinct (map g as) \<and> set (map g as) \<inter> seen x = {}))"
proof (induction as arbitrary: x)
  case (Cons a as)
  show ?case by (cases pos; cases c) (auto simp: Cons.IH assms)
qed auto

lemma fold_ordered:
  fixes g :: "'a \<Rightarrow> 'b::linorder"
  assumes "\<And>a x. R (step a x) \<longleftrightarrow>
      (if pos then R x \<or> (\<exists>b. prev x = Some b \<and> g a < g b) else R x \<and> \<not> (\<exists>b. prev x = Some b \<and> g a < g b))"
    "\<And>a x. prev (step a x) = Some a"
  shows "R (fold step as x) \<longleftrightarrow>
    (let ok = sorted (map g (case prev x of None \<Rightarrow> as | Some b \<Rightarrow> b # as))
     in if pos then R x \<or> \<not> ok else R x \<and> ok)"
proof (induction as arbitrary: x)
  case Nil
  show ?case by (simp split: option.split)
next
  case (Cons a as)
  have s: "sorted (map g (b # a # as)) \<longleftrightarrow> \<not> g a < g b \<and> sorted (map g (a # as))" for b
    by (auto simp: not_less intro: order_trans)
  show ?case
    by (cases "prev x"; cases pos; simp add: Cons.IH assms Let_def s del: list.map)
qed

definition scan_start :: "64 word \<Rightarrow> 'w arc_scan" where
  "scan_start p = \<lparr>sc_props = p, sc_ilabels = {}, sc_olabels = {}, sc_prev = None, sc_narcs = 0\<rparr>"

lemma scan_start_sel [simp]:
  "sc_props (scan_start p) = p" "sc_ilabels (scan_start p) = {}" "sc_olabels (scan_start p) = {}"
  "sc_prev (scan_start p) = None" "sc_narcs (scan_start p) = 0"
  by (simp_all add: scan_start_def)

lemma scan_narcs: "sc_narcs (fold (scan_arc ci co scc s) as sc) = sc_narcs sc + length as"
  by (induction as arbitrary: sc) (simp_all add: scan_arc_rest)

definition bad_cycle :: "state_id list \<Rightarrow> state_id \<Rightarrow> 'w::{zero,one} arc list \<Rightarrow> bool" where
  "bad_cycle scc s as \<longleftrightarrow> (\<exists>a \<in> set as. weighted_arc a \<and> same_component scc s (nextstate a))"

lemma scan_cycles:
  "bit (sc_props (fold (scan_arc ci co scc s) as sc)) 46 \<longleftrightarrow>
     bit (sc_props sc) 46 \<or> bit (sc_props sc) 47 \<and> bad_cycle scc s as"
  "bit (sc_props (fold (scan_arc ci co scc s) as sc)) 47 \<longleftrightarrow>
     bit (sc_props sc) 47 \<and> \<not> bad_cycle scc s as"
  by (induction as arbitrary: sc) (auto simp: scan_arc_bits bad_cycle_def)

lemma scan_repeats:
  fixes sc :: "'w::{zero,one} arc_scan" and scc :: "state_id list" and ci co :: bool and s :: state_id
  defines "b \<equiv> \<lambda>as. bit (sc_props (fold (scan_arc ci co scc s) as sc))"
  assumes "sc_ilabels sc = {}" "sc_olabels sc = {}"
  shows "b as 19 \<longleftrightarrow> bit (sc_props sc) 19 \<or> ci \<and> \<not> distinct (map ilabel as)"
    "b as 18 \<longleftrightarrow> bit (sc_props sc) 18 \<and> \<not> (ci \<and> \<not> distinct (map ilabel as))"
    "b as 21 \<longleftrightarrow> bit (sc_props sc) 21 \<or> co \<and> \<not> distinct (map olabel as)"
    "b as 20 \<longleftrightarrow> bit (sc_props sc) 20 \<and> \<not> (co \<and> \<not> distinct (map olabel as))"
  unfolding b_def using assms(2-)
  by (simp_all add: scan_arc_bits scan_arc_rest
      fold_repeats [where R = "\<lambda>x. bit (sc_props x) 19" and pos = True and g = ilabel and c = ci and seen = sc_ilabels]
      fold_repeats [where R = "\<lambda>x. bit (sc_props x) 18" and pos = False and g = ilabel and c = ci and seen = sc_ilabels]
      fold_repeats [where R = "\<lambda>x. bit (sc_props x) 21" and pos = True and g = olabel and c = co and seen = sc_olabels]
      fold_repeats [where R = "\<lambda>x. bit (sc_props x) 20" and pos = False and g = olabel and c = co and seen = sc_olabels])

lemma scan_ordered:
  fixes sc :: "'w::{zero,one} arc_scan" and scc :: "state_id list" and ci co :: bool and s :: state_id
  defines "b \<equiv> \<lambda>as. bit (sc_props (fold (scan_arc ci co scc s) as sc))"
  assumes "sc_prev sc = None"
  shows "b as 29 \<longleftrightarrow> bit (sc_props sc) 29 \<or> \<not> sorted (map ilabel as)"
    "b as 28 \<longleftrightarrow> bit (sc_props sc) 28 \<and> \<not> \<not> sorted (map ilabel as)"
    "b as 31 \<longleftrightarrow> bit (sc_props sc) 31 \<or> \<not> sorted (map olabel as)"
    "b as 30 \<longleftrightarrow> bit (sc_props sc) 30 \<and> \<not> \<not> sorted (map olabel as)"
  unfolding b_def using assms(2-)
  by (simp_all add: scan_arc_bits scan_arc_rest Let_def
      fold_ordered [where R = "\<lambda>x. bit (sc_props x) 29" and pos = True and g = ilabel and prev = sc_prev]
      fold_ordered [where R = "\<lambda>x. bit (sc_props x) 28" and pos = False and g = ilabel and prev = sc_prev]
      fold_ordered [where R = "\<lambda>x. bit (sc_props x) 31" and pos = True and g = olabel and prev = sc_prev]
      fold_ordered [where R = "\<lambda>x. bit (sc_props x) 30" and pos = False and g = olabel and prev = sc_prev])

lemma scan_arcs_bits:
  fixes as :: "'w::{zero,one} arc list" and scc :: "state_id list" and ci co :: bool and s :: state_id
  defines "b \<equiv> \<lambda>p. bit (sc_props (fold (scan_arc ci co scc s) as (scan_start p)))"
  shows "b p 19 \<longleftrightarrow> bit p 19 \<or> ci \<and> \<not> distinct (map ilabel as)"
    "b p 18 \<longleftrightarrow> bit p 18 \<and> \<not> (ci \<and> \<not> distinct (map ilabel as))"
    "b p 21 \<longleftrightarrow> bit p 21 \<or> co \<and> \<not> distinct (map olabel as)"
    "b p 20 \<longleftrightarrow> bit p 20 \<and> \<not> (co \<and> \<not> distinct (map olabel as))"
    "b p 17 \<longleftrightarrow> bit p 17 \<or> (\<exists>a \<in> set as. ilabel a \<noteq> olabel a)"
    "b p 16 \<longleftrightarrow> bit p 16 \<and> \<not> (\<exists>a \<in> set as. ilabel a \<noteq> olabel a)"
    "b p 22 \<longleftrightarrow> bit p 22 \<or> (\<exists>a \<in> set as. ilabel a = epsilon \<and> olabel a = epsilon)"
    "b p 23 \<longleftrightarrow> bit p 23 \<and> \<not> (\<exists>a \<in> set as. ilabel a = epsilon \<and> olabel a = epsilon)"
    "b p 24 \<longleftrightarrow> bit p 24 \<or> (\<exists>a \<in> set as. ilabel a = epsilon)"
    "b p 25 \<longleftrightarrow> bit p 25 \<and> \<not> (\<exists>a \<in> set as. ilabel a = epsilon)"
    "b p 26 \<longleftrightarrow> bit p 26 \<or> (\<exists>a \<in> set as. olabel a = epsilon)"
    "b p 27 \<longleftrightarrow> bit p 27 \<and> \<not> (\<exists>a \<in> set as. olabel a = epsilon)"
    "b p 29 \<longleftrightarrow> bit p 29 \<or> \<not> sorted (map ilabel as)"
    "b p 28 \<longleftrightarrow> bit p 28 \<and> \<not> \<not> sorted (map ilabel as)"
    "b p 31 \<longleftrightarrow> bit p 31 \<or> \<not> sorted (map olabel as)"
    "b p 30 \<longleftrightarrow> bit p 30 \<and> \<not> \<not> sorted (map olabel as)"
    "b p 32 \<longleftrightarrow> bit p 32 \<or> (\<exists>a \<in> set as. weighted_arc a)"
    "b p 33 \<longleftrightarrow> bit p 33 \<and> \<not> (\<exists>a \<in> set as. weighted_arc a)"
    "b p 46 \<longleftrightarrow> bit p 46 \<or> bit p 47 \<and> bad_cycle scc s as"
    "b p 47 \<longleftrightarrow> bit p 47 \<and> \<not> bad_cycle scc s as"
    "b p 39 \<longleftrightarrow> bit p 39 \<or> (\<exists>a \<in> set as. nextstate a \<le> s)"
    "b p 38 \<longleftrightarrow> bit p 38 \<and> \<not> (\<exists>a \<in> set as. nextstate a \<le> s)"
    "b p 45 \<longleftrightarrow> bit p 45 \<or> (\<exists>a \<in> set as. nextstate a \<noteq> s + 1)"
    "b p 44 \<longleftrightarrow> bit p 44 \<and> \<not> (\<exists>a \<in> set as. nextstate a \<noteq> s + 1)"
  unfolding b_def
  by (simp_all add: scan_cycles scan_repeats scan_ordered
      fold_sets [where R = "\<lambda>x. bit (sc_props x) 17" and Q = "\<lambda>a. ilabel a \<noteq> olabel a"]
      fold_clears [where R = "\<lambda>x. bit (sc_props x) 16" and Q = "\<lambda>a. ilabel a \<noteq> olabel a"]
      fold_sets [where R = "\<lambda>x. bit (sc_props x) 22" and Q = "\<lambda>a. ilabel a = epsilon \<and> olabel a = epsilon"]
      fold_clears [where R = "\<lambda>x. bit (sc_props x) 23" and Q = "\<lambda>a. ilabel a = epsilon \<and> olabel a = epsilon"]
      fold_sets [where R = "\<lambda>x. bit (sc_props x) 24" and Q = "\<lambda>a. ilabel a = epsilon"]
      fold_clears [where R = "\<lambda>x. bit (sc_props x) 25" and Q = "\<lambda>a. ilabel a = epsilon"]
      fold_sets [where R = "\<lambda>x. bit (sc_props x) 26" and Q = "\<lambda>a. olabel a = epsilon"]
      fold_clears [where R = "\<lambda>x. bit (sc_props x) 27" and Q = "\<lambda>a. olabel a = epsilon"]
      fold_sets [where R = "\<lambda>x. bit (sc_props x) 32" and Q = weighted_arc]
      fold_clears [where R = "\<lambda>x. bit (sc_props x) 33" and Q = weighted_arc]
      fold_sets [where R = "\<lambda>x. bit (sc_props x) 39" and Q = "\<lambda>a. nextstate a \<le> s"]
      fold_clears [where R = "\<lambda>x. bit (sc_props x) 38" and Q = "\<lambda>a. nextstate a \<le> s"]
      fold_sets [where R = "\<lambda>x. bit (sc_props x) 45" and Q = "\<lambda>a. nextstate a \<noteq> s + 1"]
      fold_clears [where R = "\<lambda>x. bit (sc_props x) 44" and Q = "\<lambda>a. nextstate a \<noteq> s + 1"]
      scan_arc_bits)

section \<open>All states\<close>

definition bad_final :: "('w::{zero,one}, 'sym) vector_fst \<Rightarrow> state_id \<Rightarrow> bool" where
  "bad_final f s \<longleftrightarrow> vf_final_weight f s \<noteq> 0 \<and> vf_final_weight f s \<noteq> 1"

definition bad_chain :: "('w::{zero,one}, 'sym) vector_fst \<Rightarrow> state_id \<Rightarrow> bool" where
  "bad_chain f s \<longleftrightarrow> (\<exists>a \<in> set (vf_arcs f s). nextstate a \<noteq> s + 1) \<or>
     vf_final_weight f s = 0 \<and> length (vf_arcs f s) \<noteq> 1"

lemma scan_state_run:
  "scan_state ci co scc f s (p, k) =
     (let q = sc_props (fold (scan_arc ci co scc s) (vf_arcs f s) (scan_start p))
      in (if vf_final_weight f s \<noteq> 0
          then (refute (bad_final f s) K_WEIGHTED K_UNWEIGHTED
                  (refute (k > 0) K_NOT_STRING K_STRING q), k + 1)
          else (refute (length (vf_arcs f s) \<noteq> 1) K_NOT_STRING K_STRING
                  (refute (k > 0) K_NOT_STRING K_STRING q), k)))"
  by (simp add: scan_state_def scan_start_def [symmetric] scan_narcs Let_def bad_final_def)

lemma scan_state_bits:
  fixes f :: "('w::{zero,one}, 'sym) vector_fst" and scc :: "state_id list"
    and ci co :: bool and s :: state_id
  defines "b \<equiv> \<lambda>x. bit (fst (scan_state ci co scc f s x))" and "as \<equiv> vf_arcs f s"
  shows "b x 19 \<longleftrightarrow> bit (fst x) 19 \<or> ci \<and> \<not> distinct (map ilabel as)"
    "b x 18 \<longleftrightarrow> bit (fst x) 18 \<and> \<not> (ci \<and> \<not> distinct (map ilabel as))"
    "b x 21 \<longleftrightarrow> bit (fst x) 21 \<or> co \<and> \<not> distinct (map olabel as)"
    "b x 20 \<longleftrightarrow> bit (fst x) 20 \<and> \<not> (co \<and> \<not> distinct (map olabel as))"
    "b x 17 \<longleftrightarrow> bit (fst x) 17 \<or> (\<exists>a \<in> set as. ilabel a \<noteq> olabel a)"
    "b x 16 \<longleftrightarrow> bit (fst x) 16 \<and> \<not> (\<exists>a \<in> set as. ilabel a \<noteq> olabel a)"
    "b x 22 \<longleftrightarrow> bit (fst x) 22 \<or> (\<exists>a \<in> set as. ilabel a = epsilon \<and> olabel a = epsilon)"
    "b x 23 \<longleftrightarrow> bit (fst x) 23 \<and> \<not> (\<exists>a \<in> set as. ilabel a = epsilon \<and> olabel a = epsilon)"
    "b x 24 \<longleftrightarrow> bit (fst x) 24 \<or> (\<exists>a \<in> set as. ilabel a = epsilon)"
    "b x 25 \<longleftrightarrow> bit (fst x) 25 \<and> \<not> (\<exists>a \<in> set as. ilabel a = epsilon)"
    "b x 26 \<longleftrightarrow> bit (fst x) 26 \<or> (\<exists>a \<in> set as. olabel a = epsilon)"
    "b x 27 \<longleftrightarrow> bit (fst x) 27 \<and> \<not> (\<exists>a \<in> set as. olabel a = epsilon)"
    "b x 29 \<longleftrightarrow> bit (fst x) 29 \<or> \<not> sorted (map ilabel as)"
    "b x 28 \<longleftrightarrow> bit (fst x) 28 \<and> \<not> \<not> sorted (map ilabel as)"
    "b x 31 \<longleftrightarrow> bit (fst x) 31 \<or> \<not> sorted (map olabel as)"
    "b x 30 \<longleftrightarrow> bit (fst x) 30 \<and> \<not> \<not> sorted (map olabel as)"
    "b x 32 \<longleftrightarrow> bit (fst x) 32 \<or> (\<exists>a \<in> set as. weighted_arc a) \<or> bad_final f s"
    "b x 33 \<longleftrightarrow> bit (fst x) 33 \<and> \<not> ((\<exists>a \<in> set as. weighted_arc a) \<or> bad_final f s)"
    "b x 46 \<longleftrightarrow> bit (fst x) 46 \<or> bit (fst x) 47 \<and> bad_cycle scc s as"
    "b x 47 \<longleftrightarrow> bit (fst x) 47 \<and> \<not> bad_cycle scc s as"
    "b x 39 \<longleftrightarrow> bit (fst x) 39 \<or> (\<exists>a \<in> set as. nextstate a \<le> s)"
    "b x 38 \<longleftrightarrow> bit (fst x) 38 \<and> \<not> (\<exists>a \<in> set as. nextstate a \<le> s)"
    "b x 45 \<longleftrightarrow> bit (fst x) 45 \<or> bad_chain f s \<or> snd x > 0"
    "b x 44 \<longleftrightarrow> bit (fst x) 44 \<and> \<not> (bad_chain f s \<or> snd x > 0)"
  unfolding b_def as_def
  by (cases x; simp add: scan_state_run Let_def bit_refute scan_arcs_bits bad_chain_def;
      auto simp: bad_final_def)+

lemma scan_state_count:
  "snd (scan_state ci co scc f s x) = (if vf_final_weight f s \<noteq> 0 then snd x + 1 else snd x)"
  by (cases x) (simp add: scan_state_run Let_def)

lemma fold_upt_sets:
  assumes "\<And>s x. R (step s x) \<longleftrightarrow> R x \<or> V s"
  shows "R (fold step [0..<n] x) \<longleftrightarrow> R x \<or> (\<exists>s < n. V s)"
  using fold_sets [where R = R and step = step and Q = V, OF assms, of "[0..<n]" x] by auto

lemma fold_upt_clears:
  assumes "\<And>s x. R (step s x) \<longleftrightarrow> R x \<and> \<not> V s"
  shows "R (fold step [0..<n] x) \<longleftrightarrow> R x \<and> \<not> (\<exists>s < n. V s)"
  using fold_clears [where R = R and step = step and Q = V, OF assms, of "[0..<n]" x] by auto

lemma scan_count:
  "0 < snd (fold (scan_state ci co scc f) [0..<n] (p, 0)) \<longleftrightarrow> (\<exists>s < n. vf_final_weight f s \<noteq> 0)"
  by (induction n) (auto simp: scan_state_count less_Suc_eq)

lemma scan_string:
  "bit (fst (fold (scan_state ci co scc f) [0..<n] (p, 0))) 45 \<longleftrightarrow> bit p 45 \<or>
     (\<exists>s < n. bad_chain f s \<or> (\<exists>t < s. vf_final_weight f t \<noteq> 0))"
  "bit (fst (fold (scan_state ci co scc f) [0..<n] (p, 0))) 44 \<longleftrightarrow> bit p 44 \<and>
     \<not> (\<exists>s < n. bad_chain f s \<or> (\<exists>t < s. vf_final_weight f t \<noteq> 0))"
  by (induction n) (auto simp: scan_state_bits scan_count less_Suc_eq)

lemma scan_cycle_bits:
  "bit (fst (fold (scan_state ci co scc f) [0..<n] x)) 46 \<longleftrightarrow> bit (fst x) 46 \<or>
     bit (fst x) 47 \<and> (\<exists>s < n. bad_cycle scc s (vf_arcs f s))"
  "bit (fst (fold (scan_state ci co scc f) [0..<n] x)) 47 \<longleftrightarrow> bit (fst x) 47 \<and>
     \<not> (\<exists>s < n. bad_cycle scc s (vf_arcs f s))"
  by (induction n) (auto simp: scan_state_bits less_Suc_eq)

lemma scan_bits:
  fixes f :: "('w::{zero,one}, 'sym) vector_fst" and scc :: "state_id list" and ci co :: bool
    and n :: nat and x :: "64 word \<times> nat"
  defines "b \<equiv> bit (fst (fold (scan_state ci co scc f) [0..<n] x))"
  shows "b 19 \<longleftrightarrow> bit (fst x) 19 \<or> (\<exists>s < n. ci \<and> \<not> distinct (map ilabel (vf_arcs f s)))"
    "b 18 \<longleftrightarrow> bit (fst x) 18 \<and> \<not> (\<exists>s < n. ci \<and> \<not> distinct (map ilabel (vf_arcs f s)))"
    "b 21 \<longleftrightarrow> bit (fst x) 21 \<or> (\<exists>s < n. co \<and> \<not> distinct (map olabel (vf_arcs f s)))"
    "b 20 \<longleftrightarrow> bit (fst x) 20 \<and> \<not> (\<exists>s < n. co \<and> \<not> distinct (map olabel (vf_arcs f s)))"
    "b 17 \<longleftrightarrow> bit (fst x) 17 \<or> (\<exists>s < n. \<exists>a \<in> set (vf_arcs f s). ilabel a \<noteq> olabel a)"
    "b 16 \<longleftrightarrow> bit (fst x) 16 \<and> \<not> (\<exists>s < n. \<exists>a \<in> set (vf_arcs f s). ilabel a \<noteq> olabel a)"
    "b 22 \<longleftrightarrow> bit (fst x) 22 \<or> (\<exists>s < n. \<exists>a \<in> set (vf_arcs f s). ilabel a = epsilon \<and> olabel a = epsilon)"
    "b 23 \<longleftrightarrow> bit (fst x) 23 \<and> \<not> (\<exists>s < n. \<exists>a \<in> set (vf_arcs f s). ilabel a = epsilon \<and> olabel a = epsilon)"
    "b 24 \<longleftrightarrow> bit (fst x) 24 \<or> (\<exists>s < n. \<exists>a \<in> set (vf_arcs f s). ilabel a = epsilon)"
    "b 25 \<longleftrightarrow> bit (fst x) 25 \<and> \<not> (\<exists>s < n. \<exists>a \<in> set (vf_arcs f s). ilabel a = epsilon)"
    "b 26 \<longleftrightarrow> bit (fst x) 26 \<or> (\<exists>s < n. \<exists>a \<in> set (vf_arcs f s). olabel a = epsilon)"
    "b 27 \<longleftrightarrow> bit (fst x) 27 \<and> \<not> (\<exists>s < n. \<exists>a \<in> set (vf_arcs f s). olabel a = epsilon)"
    "b 29 \<longleftrightarrow> bit (fst x) 29 \<or> (\<exists>s < n. \<not> sorted (map ilabel (vf_arcs f s)))"
    "b 28 \<longleftrightarrow> bit (fst x) 28 \<and> \<not> (\<exists>s < n. \<not> sorted (map ilabel (vf_arcs f s)))"
    "b 31 \<longleftrightarrow> bit (fst x) 31 \<or> (\<exists>s < n. \<not> sorted (map olabel (vf_arcs f s)))"
    "b 30 \<longleftrightarrow> bit (fst x) 30 \<and> \<not> (\<exists>s < n. \<not> sorted (map olabel (vf_arcs f s)))"
    "b 32 \<longleftrightarrow> bit (fst x) 32 \<or> (\<exists>s < n. (\<exists>a \<in> set (vf_arcs f s). weighted_arc a) \<or> bad_final f s)"
    "b 33 \<longleftrightarrow> bit (fst x) 33 \<and> \<not> (\<exists>s < n. (\<exists>a \<in> set (vf_arcs f s). weighted_arc a) \<or> bad_final f s)"
    "b 39 \<longleftrightarrow> bit (fst x) 39 \<or> (\<exists>s < n. \<exists>a \<in> set (vf_arcs f s). nextstate a \<le> s)"
    "b 38 \<longleftrightarrow> bit (fst x) 38 \<and> \<not> (\<exists>s < n. \<exists>a \<in> set (vf_arcs f s). nextstate a \<le> s)"
  unfolding b_def
  by (simp_all add: scan_state_bits
      fold_upt_sets [where R = "\<lambda>x. bit (fst x) 19" and V = "\<lambda>s. ci \<and> \<not> distinct (map ilabel (vf_arcs f s))"]
      fold_upt_clears [where R = "\<lambda>x. bit (fst x) 18" and V = "\<lambda>s. ci \<and> \<not> distinct (map ilabel (vf_arcs f s))"]
      fold_upt_sets [where R = "\<lambda>x. bit (fst x) 21" and V = "\<lambda>s. co \<and> \<not> distinct (map olabel (vf_arcs f s))"]
      fold_upt_clears [where R = "\<lambda>x. bit (fst x) 20" and V = "\<lambda>s. co \<and> \<not> distinct (map olabel (vf_arcs f s))"]
      fold_upt_sets [where R = "\<lambda>x. bit (fst x) 17" and V = "\<lambda>s. \<exists>a \<in> set (vf_arcs f s). ilabel a \<noteq> olabel a"]
      fold_upt_clears [where R = "\<lambda>x. bit (fst x) 16" and V = "\<lambda>s. \<exists>a \<in> set (vf_arcs f s). ilabel a \<noteq> olabel a"]
      fold_upt_sets [where R = "\<lambda>x. bit (fst x) 22" and V = "\<lambda>s. \<exists>a \<in> set (vf_arcs f s). ilabel a = epsilon \<and> olabel a = epsilon"]
      fold_upt_clears [where R = "\<lambda>x. bit (fst x) 23" and V = "\<lambda>s. \<exists>a \<in> set (vf_arcs f s). ilabel a = epsilon \<and> olabel a = epsilon"]
      fold_upt_sets [where R = "\<lambda>x. bit (fst x) 24" and V = "\<lambda>s. \<exists>a \<in> set (vf_arcs f s). ilabel a = epsilon"]
      fold_upt_clears [where R = "\<lambda>x. bit (fst x) 25" and V = "\<lambda>s. \<exists>a \<in> set (vf_arcs f s). ilabel a = epsilon"]
      fold_upt_sets [where R = "\<lambda>x. bit (fst x) 26" and V = "\<lambda>s. \<exists>a \<in> set (vf_arcs f s). olabel a = epsilon"]
      fold_upt_clears [where R = "\<lambda>x. bit (fst x) 27" and V = "\<lambda>s. \<exists>a \<in> set (vf_arcs f s). olabel a = epsilon"]
      fold_upt_sets [where R = "\<lambda>x. bit (fst x) 29" and V = "\<lambda>s. \<not> sorted (map ilabel (vf_arcs f s))"]
      fold_upt_clears [where R = "\<lambda>x. bit (fst x) 28" and V = "\<lambda>s. \<not> sorted (map ilabel (vf_arcs f s))"]
      fold_upt_sets [where R = "\<lambda>x. bit (fst x) 31" and V = "\<lambda>s. \<not> sorted (map olabel (vf_arcs f s))"]
      fold_upt_clears [where R = "\<lambda>x. bit (fst x) 30" and V = "\<lambda>s. \<not> sorted (map olabel (vf_arcs f s))"]
      fold_upt_sets [where R = "\<lambda>x. bit (fst x) 32" and V = "\<lambda>s. (\<exists>a \<in> set (vf_arcs f s). weighted_arc a) \<or> bad_final f s"]
      fold_upt_clears [where R = "\<lambda>x. bit (fst x) 33" and V = "\<lambda>s. (\<exists>a \<in> set (vf_arcs f s). weighted_arc a) \<or> bad_final f s"]
      fold_upt_sets [where R = "\<lambda>x. bit (fst x) 39" and V = "\<lambda>s. \<exists>a \<in> set (vf_arcs f s). nextstate a \<le> s"]
      fold_upt_clears [where R = "\<lambda>x. bit (fst x) 38" and V = "\<lambda>s. \<exists>a \<in> set (vf_arcs f s). nextstate a \<le> s"])

section \<open>What the scan settles\<close>

text \<open>Both bits of a pair are known, and they tell the truth.\<close>

definition decided :: "64 word \<Rightarrow> 64 word \<Rightarrow> 64 word \<Rightarrow> bool \<Rightarrow> bool" where
  "decided p pos neg P \<longleftrightarrow> (p AND pos \<noteq> 0) = P \<and> (p AND neg \<noteq> 0) = (\<not> P)"

definition scan_settled :: "64 word \<Rightarrow> 'w::{zero,one} states \<Rightarrow> nat option \<Rightarrow> bool" where
  "scan_settled p ss start \<longleftrightarrow>
     decided p K_ACCEPTOR K_NOT_ACCEPTOR (is_acceptor ss) \<and>
     decided p K_EPSILONS K_NO_EPSILONS (has_epsilons ss) \<and>
     decided p K_I_EPSILONS K_NO_I_EPSILONS (has_iepsilons ss) \<and>
     decided p K_O_EPSILONS K_NO_O_EPSILONS (has_oepsilons ss) \<and>
     decided p K_I_LABEL_SORTED K_NOT_I_LABEL_SORTED (i_label_sorted ss) \<and>
     decided p K_O_LABEL_SORTED K_NOT_O_LABEL_SORTED (o_label_sorted ss) \<and>
     decided p K_WEIGHTED K_UNWEIGHTED (is_weighted ss) \<and>
     decided p K_TOP_SORTED K_NOT_TOP_SORTED (is_top_sorted ss) \<and>
     decided p K_STRING K_NOT_STRING (is_string ss start)"

lemma arcs_of_ex: "(\<exists>s. \<exists>a \<in> set (arcs_of ss s). Q s a) \<longleftrightarrow> (\<exists>s < length ss. \<exists>a \<in> set (arcs_of ss s). Q s a)"
  by (auto simp: arcs_of_def split: if_splits)

lemma each_state_ex:
  "P [] \<Longrightarrow> each_state ss P \<longleftrightarrow> \<not> (\<exists>s < length ss. \<not> P (arcs_of ss s))"
  unfolding each_state_def by (metis arcs_of_simps(2) not_le)

lemma all_arcs_ex:
  "all_arcs ss P \<longleftrightarrow> \<not> (\<exists>s < length ss. \<exists>a \<in> set (arcs_of ss s). \<not> P a)"
  using arcs_of_ex [of ss "\<lambda>s a. \<not> P a"] unfolding all_arcs_def by blast

lemma is_weighted_ex:
  "is_weighted (vf_states f) \<longleftrightarrow>
    (\<exists>s < length (vf_states f). (\<exists>a \<in> set (vf_arcs f s). weighted_arc a) \<or> bad_final f s)"
proof -
  have "bad_final f s \<longleftrightarrow> \<not> is_trivial_weight (vs_final (vf_states f ! s))"
    if "s < length (vf_states f)" for s
    using that by (auto simp: bad_final_def vf_final_weight_def is_trivial_weight_def)
  then show ?thesis
    unfolding is_weighted_def all_arcs_ex vf_arcs_of weighted_arc_trivial by blast
qed

lemma is_top_sorted_ex:
  "is_top_sorted ss \<longleftrightarrow> \<not> (\<exists>s < length ss. \<exists>a \<in> set (arcs_of ss s). nextstate a \<le> s)"
proof -
  have "is_top_sorted ss \<longleftrightarrow> \<not> (\<exists>s. \<exists>a \<in> set (arcs_of ss s). nextstate a \<le> s)"
    unfolding is_top_sorted_def edges_def by (auto simp del: arcs_of_simps simp: not_le)
  then show ?thesis using arcs_of_ex [of ss "\<lambda>s a. nextstate a \<le> s"] by simp
qed

lemma last_final_iff:
  fixes n :: nat
  shows "(\<forall>s < n. \<forall>t < s. \<not> P t) \<longleftrightarrow> (\<forall>s < n. P s \<longrightarrow> Suc s = n)"
proof (intro iffI allI impI)
  fix s assume "\<forall>s < n. \<forall>t < s. \<not> P t" "s < n" "P s"
  then show "Suc s = n" using Suc_lessI by blast
next
  fix s t assume a: "\<forall>s < n. P s \<longrightarrow> Suc s = n" "s < n" "t < s"
  show "\<not> P t"
  proof
    assume "P t"
    then have "Suc t = n" using a by simp
    then show False using a(2,3) by simp
  qed
qed

lemma is_string_ex:
  fixes f :: "('w::{zero,one}, 'sym) vector_fst"
  shows "is_string (vf_states f) start \<longleftrightarrow> (start = None \<or> start = Some 0) \<and>
    \<not> (\<exists>s < length (vf_states f). bad_chain f s \<or> (\<exists>t < s. vf_final_weight f t \<noteq> 0))"
proof -
  let ?ss = "vf_states f"
  let ?fin = "\<lambda>s. vf_final_weight f s \<noteq> 0"
  have f: "vs_final (?ss ! s) = vf_final_weight f s" "vs_arcs (?ss ! s) = vf_arcs f s"
    if "s < length ?ss" for s
    using that by (simp_all add: vf_final_weight_def vf_arcs_def)
  have "(\<forall>(s, t) \<in> edges ?ss. t = Suc s) \<longleftrightarrow> \<not> (\<exists>s. \<exists>a \<in> set (arcs_of ?ss s). nextstate a \<noteq> Suc s)"
    unfolding edges_def by (auto simp del: arcs_of_simps)
  then have e: "(\<forall>(s, t) \<in> edges ?ss. t = Suc s) \<longleftrightarrow>
      (\<forall>s < length ?ss. \<forall>a \<in> set (vf_arcs f s). nextstate a = Suc s)"
    using arcs_of_ex [of ?ss "\<lambda>s a. nextstate a \<noteq> Suc s"] by (simp add: vf_arcs_of)
  have "(\<forall>s < length ?ss. if vs_final (?ss ! s) \<noteq> 0 then Suc s = length ?ss
                      else length (vs_arcs (?ss ! s)) = 1) \<longleftrightarrow>
      (\<forall>s < length ?ss. ?fin s \<longrightarrow> Suc s = length ?ss) \<and>
      (\<forall>s < length ?ss. vf_final_weight f s = 0 \<longrightarrow> length (vf_arcs f s) = 1)"
    using f by auto
  also have "(\<forall>s < length ?ss. ?fin s \<longrightarrow> Suc s = length ?ss) \<longleftrightarrow>
      (\<forall>s < length ?ss. \<forall>t < s. \<not> ?fin t)"
    by (rule last_final_iff [symmetric])
  finally show ?thesis
    unfolding is_string_def e bad_chain_def Suc_eq_plus1 [symmetric] by blast
qed

lemma scan_string_start:
  "bit (case start of None \<Rightarrow> p | Some q \<Rightarrow> refute (q \<noteq> 0) K_NOT_STRING K_STRING p) i \<longleftrightarrow>
    (bit p i \<or> i = 45 \<and> \<not> (start = None \<or> start = Some 0)) \<and> \<not> (i = 44 \<and> \<not> (start = None \<or> start = Some 0))"
  if "i < 64" for p :: "64 word"
  using that by (cases start) (auto simp: bit_refute)

lemma bit_scan_initial:
  assumes "i < 64"
  shows "bit (scan_initial m p) i \<longleftrightarrow> bit p i \<or> i \<in> {16, 23, 25, 27, 28, 30, 33, 38, 44} \<or>
    i = 18 \<and> (bit m 18 \<or> bit m 19) \<or> i = 20 \<and> (bit m 20 \<or> bit m 21) \<or>
    i = 47 \<and> m AND K_CYCLE_PROPERTIES \<noteq> 0"
  using assms by (auto simp: scan_initial_def Let_def word_bits and_zero_iff)

text \<open>The word the scan starts from holds only bits the scan does not touch.\<close>

definition unscanned :: "64 word \<Rightarrow> bool" where
  "unscanned p \<longleftrightarrow> p AND NOT (K_BINARY_PROPERTIES OR K_DFS_PROPERTIES) = 0"

lemma unscanned_bits:
  assumes "unscanned p"
  shows "\<not> bit p 16" "\<not> bit p 17" "\<not> bit p 18" "\<not> bit p 19" "\<not> bit p 20" "\<not> bit p 21"
    "\<not> bit p 22" "\<not> bit p 23" "\<not> bit p 24" "\<not> bit p 25" "\<not> bit p 26" "\<not> bit p 27"
    "\<not> bit p 28" "\<not> bit p 29" "\<not> bit p 30" "\<not> bit p 31" "\<not> bit p 32" "\<not> bit p 33"
    "\<not> bit p 38" "\<not> bit p 39" "\<not> bit p 44" "\<not> bit p 45" "\<not> bit p 46" "\<not> bit p 47"
proof -
  have "\<not> (bit p i \<and> bit (NOT (K_BINARY_PROPERTIES OR K_DFS_PROPERTIES)) i)" for i
    using assms by (simp add: unscanned_def and_zero_iff)
  note * = this
  have b: "bit (K_BINARY_PROPERTIES :: 64 word) i \<longleftrightarrow> i < 3" for i
    using bit_mask_iff [of 3 i, where 'a = "64 word"] by (auto simp: K_BINARY_PROPERTIES_def mask_eq_exp_minus_1)
  show "\<not> bit p 16" "\<not> bit p 17" "\<not> bit p 18" "\<not> bit p 19" "\<not> bit p 20" "\<not> bit p 21"
    "\<not> bit p 22" "\<not> bit p 23" "\<not> bit p 24" "\<not> bit p 25" "\<not> bit p 26" "\<not> bit p 27"
    "\<not> bit p 28" "\<not> bit p 29" "\<not> bit p 30" "\<not> bit p 31" "\<not> bit p 32" "\<not> bit p 33"
    "\<not> bit p 38" "\<not> bit p 39" "\<not> bit p 44" "\<not> bit p 45" "\<not> bit p 46" "\<not> bit p 47"
    using *[of 16] *[of 17] *[of 18] *[of 19] *[of 20] *[of 21] *[of 22] *[of 23] *[of 24] *[of 25]
      *[of 26] *[of 27] *[of 28] *[of 29] *[of 30] *[of 31] *[of 32] *[of 33] *[of 38] *[of 39]
      *[of 44] *[of 45] *[of 46] *[of 47]
    by (simp_all add: word_bits b K_DFS_PROPERTIES_def)
qed

definition scan_asked :: "64 word \<Rightarrow> bool" where
  "scan_asked m \<longleftrightarrow> m AND NOT (K_BINARY_PROPERTIES OR K_DFS_PROPERTIES) \<noteq> 0"

lemma mask_asks_det:
  "m AND (K_I_DETERMINISTIC OR K_NON_I_DETERMINISTIC) \<noteq> 0 \<longleftrightarrow> bit m 18 \<or> bit m 19"
  "m AND (K_O_DETERMINISTIC OR K_NON_O_DETERMINISTIC) \<noteq> 0 \<longleftrightarrow> bit m 20 \<or> bit m 21"
  by (auto simp: and_zero_iff word_bits)

lemma scan_properties_run:
  assumes "scan_asked m"
  shows "scan_properties m scc p f =
    (case vf_start f of
       None \<Rightarrow> fst (fold (scan_state (bit m 18 \<or> bit m 19) (bit m 20 \<or> bit m 21) scc f)
          [0..<length (vf_states f)] (scan_initial m p, 0))
     | Some start \<Rightarrow> refute (start \<noteq> 0) K_NOT_STRING K_STRING
          (fst (fold (scan_state (bit m 18 \<or> bit m 19) (bit m 20 \<or> bit m 21) scc f)
            [0..<length (vf_states f)] (scan_initial m p, 0))))"
  using assms
  by (auto simp: scan_properties_def scan_asked_def vf_num_states_def mask_asks_det Let_def
      split: prod.split option.split)

lemma scan_result_bits:
  fixes f :: "('w::{zero,one}, 'sym) vector_fst" and scc :: "state_id list" and m p :: "64 word"
  assumes "scan_asked m" "unscanned p"
  defines "r \<equiv> scan_properties m scc p f"
  shows "bit r 16 \<longleftrightarrow> is_acceptor (vf_states f)" "bit r 17 \<longleftrightarrow> \<not> is_acceptor (vf_states f)"
    "bit r 22 \<longleftrightarrow> has_epsilons (vf_states f)" "bit r 23 \<longleftrightarrow> \<not> has_epsilons (vf_states f)"
    "bit r 24 \<longleftrightarrow> has_iepsilons (vf_states f)" "bit r 25 \<longleftrightarrow> \<not> has_iepsilons (vf_states f)"
    "bit r 26 \<longleftrightarrow> has_oepsilons (vf_states f)" "bit r 27 \<longleftrightarrow> \<not> has_oepsilons (vf_states f)"
    "bit r 28 \<longleftrightarrow> i_label_sorted (vf_states f)" "bit r 29 \<longleftrightarrow> \<not> i_label_sorted (vf_states f)"
    "bit r 30 \<longleftrightarrow> o_label_sorted (vf_states f)" "bit r 31 \<longleftrightarrow> \<not> o_label_sorted (vf_states f)"
    "bit r 32 \<longleftrightarrow> is_weighted (vf_states f)" "bit r 33 \<longleftrightarrow> \<not> is_weighted (vf_states f)"
    "bit r 38 \<longleftrightarrow> is_top_sorted (vf_states f)" "bit r 39 \<longleftrightarrow> \<not> is_top_sorted (vf_states f)"
    "bit r 44 \<longleftrightarrow> is_string (vf_states f) (vf_start f)"
    "bit r 45 \<longleftrightarrow> \<not> is_string (vf_states f) (vf_start f)"
    "bit r 18 \<longleftrightarrow> (bit m 18 \<or> bit m 19) \<and> i_deterministic (vf_states f)"
    "bit r 19 \<longleftrightarrow> (bit m 18 \<or> bit m 19) \<and> \<not> i_deterministic (vf_states f)"
    "bit r 20 \<longleftrightarrow> (bit m 20 \<or> bit m 21) \<and> o_deterministic (vf_states f)"
    "bit r 21 \<longleftrightarrow> (bit m 20 \<or> bit m 21) \<and> \<not> o_deterministic (vf_states f)"
    "bit r 46 \<longleftrightarrow> m AND K_CYCLE_PROPERTIES \<noteq> 0 \<and>
       (\<exists>s < length (vf_states f). bad_cycle scc s (vf_arcs f s))"
    "bit r 47 \<longleftrightarrow> m AND K_CYCLE_PROPERTIES \<noteq> 0 \<and>
       \<not> (\<exists>s < length (vf_states f). bad_cycle scc s (vf_arcs f s))"
  unfolding r_def scan_properties_run [OF assms(1)] is_acceptor_def has_epsilons_def
    has_iepsilons_def has_oepsilons_def all_arcs_ex is_weighted_ex is_top_sorted_ex
    is_string_ex i_label_sorted_def o_label_sorted_def i_deterministic_def o_deterministic_def
  by ((simp add: each_state_ex scan_string_start scan_bits scan_string
        scan_cycle_bits bit_scan_initial unscanned_bits [OF assms(2)] vf_arcs_of [symmetric]
        del: not_None_eq not_ex; fail) | (simp add: each_state_ex scan_string_start scan_bits scan_string
        scan_cycle_bits bit_scan_initial unscanned_bits [OF assms(2)] vf_arcs_of [symmetric]
        del: not_None_eq not_ex; blast))+

section \<open>Properties\<close>

text \<open>
  One pass over the states and arcs settles every pair of bits a mask can ask of the scan,
  and settles it exactly: of each pair just the true bit is in the result, whether the FST is
  an acceptor, has epsilons, is sorted by label, weighted, top-sorted or a string.  Determinism
  is settled when the mask asks for it.
\<close>

theorem scan_is_exact:
  assumes "scan_asked m" "unscanned p"
  shows "let r = scan_properties m scc p f; ss = vf_states f in
    scan_settled r ss (vf_start f) \<and>
    (r AND K_I_DETERMINISTIC \<noteq> 0) =
      (m AND (K_I_DETERMINISTIC OR K_NON_I_DETERMINISTIC) \<noteq> 0 \<and> i_deterministic ss) \<and>
    (r AND K_NON_I_DETERMINISTIC \<noteq> 0) =
      (m AND (K_I_DETERMINISTIC OR K_NON_I_DETERMINISTIC) \<noteq> 0 \<and> \<not> i_deterministic ss) \<and>
    (r AND K_O_DETERMINISTIC \<noteq> 0) =
      (m AND (K_O_DETERMINISTIC OR K_NON_O_DETERMINISTIC) \<noteq> 0 \<and> o_deterministic ss) \<and>
    (r AND K_NON_O_DETERMINISTIC \<noteq> 0) =
      (m AND (K_O_DETERMINISTIC OR K_NON_O_DETERMINISTIC) \<noteq> 0 \<and> \<not> o_deterministic ss)"
  unfolding Let_def mask_asks_det scan_settled_def decided_def
  by (simp add: scan_result_bits [OF assms])

theorem scan_is_exact_witness:
  "let r = scan_properties K_ACCEPTOR [] K_MUTABLE one_arc; ss = vf_states one_arc in
    scan_settled r ss (vf_start one_arc) \<and>
    (r AND K_I_DETERMINISTIC \<noteq> 0) =
      (K_ACCEPTOR AND (K_I_DETERMINISTIC OR K_NON_I_DETERMINISTIC) \<noteq> 0 \<and> i_deterministic ss) \<and>
    (r AND K_NON_I_DETERMINISTIC \<noteq> 0) =
      (K_ACCEPTOR AND (K_I_DETERMINISTIC OR K_NON_I_DETERMINISTIC) \<noteq> 0 \<and> \<not> i_deterministic ss) \<and>
    (r AND K_O_DETERMINISTIC \<noteq> 0) =
      (K_ACCEPTOR AND (K_O_DETERMINISTIC OR K_NON_O_DETERMINISTIC) \<noteq> 0 \<and> o_deterministic ss) \<and>
    (r AND K_NON_O_DETERMINISTIC \<noteq> 0) =
      (K_ACCEPTOR AND (K_O_DETERMINISTIC OR K_NON_O_DETERMINISTIC) \<noteq> 0 \<and> \<not> o_deterministic ss)"
  by (rule scan_is_exact)
    (simp_all add: scan_asked_def unscanned_def K_ACCEPTOR_def K_MUTABLE_def K_BINARY_PROPERTIES_def
      K_DFS_PROPERTIES_def K_CYCLIC_def K_ACYCLIC_def K_INITIAL_CYCLIC_def K_INITIAL_ACYCLIC_def
      K_ACCESSIBLE_def K_NOT_ACCESSIBLE_def K_CO_ACCESSIBLE_def K_NOT_CO_ACCESSIBLE_def)

end
