(* ===== verification/IndexedHeap.thy ===== *)
theory IndexedHeap
  imports Prelude "HOL-Library.Multiset"
begin

text \<open>
  The binary heap with keys of \<open>data_structures/indexed_heap.rs\<close>.  Keys and the entries of the
  position table are \<open>u32\<close> words as in the code: a freed key's entry carries \<open>FREE_FLAG\<close> over the
  next free key.  Sifting works through a hole: while an element is lifted out its slot is stale,
  and reading it is a failed run.  Debug assertions are part of the runs.
\<close>

section \<open>Data\<close>

type_synonym key = "32 word"

definition K_NO_KEY :: nat where
  "K_NO_KEY = usize_max"

definition FREE_FLAG :: key where
  "FREE_FLAG = push_bit 31 1"

definition NO_FREE :: key where
  "NO_FREE = FREE_FLAG - 1"

record 'a node =
  nd_value :: 'a
  nd_key :: key

record 'a indexed_heap =
  ih_elements :: "'a node list"
  ih_pos :: "key list"
  ih_free_head :: key
  ih_comp :: "'a \<Rightarrow> 'a \<Rightarrow> bool"

definition ih_new :: "('a \<Rightarrow> 'a \<Rightarrow> bool) \<Rightarrow> 'a indexed_heap" where
  "ih_new cmp = \<lparr>ih_elements = [], ih_pos = [], ih_free_head = NO_FREE, ih_comp = cmp\<rparr>"

section \<open>The hole\<close>

record 'a hole =
  ho_elements :: "'a node list"
  ho_pos :: "key list"
  ho_node :: "'a node"
  ho_index :: nat

definition hole_new :: "'a node list \<Rightarrow> key list \<Rightarrow> nat \<Rightarrow> 'a hole option" where
  "hole_new es pos i = do {
     assert_run (i < length es);
     n \<leftarrow> vget es i;
     Some \<lparr>ho_elements = es, ho_pos = pos, ho_node = n, ho_index = i\<rparr> }"

definition hole_element :: "'a hole \<Rightarrow> nat \<Rightarrow> 'a option" where
  "hole_element h i = do {
     assert_run (i < length (ho_elements h) \<and> i \<noteq> ho_index h);
     n \<leftarrow> vget (ho_elements h) i;
     Some (nd_value n) }"

definition hole_move_to :: "'a hole \<Rightarrow> nat \<Rightarrow> 'a hole option" where
  "hole_move_to h target = do {
     assert_run (target < length (ho_elements h) \<and> target \<noteq> ho_index h);
     n \<leftarrow> vget (ho_elements h) target;
     es \<leftarrow> vset (ho_elements h) (ho_index h) n;
     pos \<leftarrow> vset (ho_pos h) (unat (nd_key n)) (of_nat (ho_index h));
     Some (h\<lparr>ho_elements := es, ho_pos := pos, ho_index := target\<rparr>) }"

definition hole_drop :: "'a hole \<Rightarrow> ('a node list \<times> key list) option" where
  "hole_drop h = do {
     es \<leftarrow> vset (ho_elements h) (ho_index h) (ho_node h);
     pos \<leftarrow> vset (ho_pos h) (unat (nd_key (ho_node h))) (of_nat (ho_index h));
     Some (es, pos) }"

lemma hole_move_to_index:
  "hole_move_to h t = Some h' \<Longrightarrow> ho_index h' = t \<and> t < length (ho_elements h) \<and>
    length (ho_elements h') = length (ho_elements h)"
  by (auto simp: hole_move_to_def run_simps)

section \<open>Sifting\<close>

text \<open>\<open>par\<close> is \<open>parent\<close>, the place above \<open>i\<close>.\<close>

definition par :: "nat \<Rightarrow> nat" where
  "par i = (i - 1) div 2"

function sift_up_loop :: "('a \<Rightarrow> 'a \<Rightarrow> bool) \<Rightarrow> 'a hole \<Rightarrow> 'a hole option" where
  "sift_up_loop cmp h =
     (if ho_index h > 0 then do {
        let parent = par (ho_index h);
        e \<leftarrow> hole_element h parent;
        (if \<not> cmp (nd_value (ho_node h)) e then Some h
         else do { h \<leftarrow> hole_move_to h parent; sift_up_loop cmp h }) }
      else Some h)"
  by pat_completeness auto
termination
  by (relation "measure (ho_index \<circ> snd)") (auto simp: par_def dest!: hole_move_to_index)

declare sift_up_loop.simps [simp del]

definition sift_up :: "'a indexed_heap \<Rightarrow> nat \<Rightarrow> 'a indexed_heap option" where
  "sift_up H index =
     (if index = 0 then Some H
      else do {
        h \<leftarrow> hole_new (ih_elements H) (ih_pos H) index;
        h \<leftarrow> sift_up_loop (ih_comp H) h;
        (es, pos) \<leftarrow> hole_drop h;
        Some (H\<lparr>ih_elements := es, ih_pos := pos\<rparr>) })"

definition best_child :: "('a \<Rightarrow> 'a \<Rightarrow> bool) \<Rightarrow> 'a hole \<Rightarrow> nat \<Rightarrow> nat option" where
  "best_child cmp h len =
     (let left = 2 * ho_index h + 1; right = left + 1 in
      if right < len then do {
        r \<leftarrow> hole_element h right;
        l \<leftarrow> hole_element h left;
        Some (if cmp r l then right else left) }
      else Some left)"

lemma best_child_above: "best_child cmp h len = Some b \<Longrightarrow> ho_index h < b"
  by (auto simp: best_child_def Let_def run_simps split: if_splits)

function sift_down_loop :: "('a \<Rightarrow> 'a \<Rightarrow> bool) \<Rightarrow> nat \<Rightarrow> 'a hole \<Rightarrow> 'a hole option" where
  "sift_down_loop cmp len h =
     (let left = 2 * ho_index h + 1 in
      if left \<ge> len then Some h
      else do {
        best \<leftarrow> best_child cmp h len;
        e \<leftarrow> hole_element h best;
        (if \<not> cmp e (nd_value (ho_node h)) then Some h
         else do { h \<leftarrow> hole_move_to h best; sift_down_loop cmp len h }) })"
  by pat_completeness auto
termination
  by (relation "measure (\<lambda>(cmp, len, h). length (ho_elements h) - ho_index h)")
    (auto dest!: hole_move_to_index best_child_above)

declare sift_down_loop.simps [simp del]

definition sift_down :: "'a indexed_heap \<Rightarrow> nat \<Rightarrow> 'a indexed_heap option" where
  "sift_down H index =
     (let len = length (ih_elements H) in
      if index \<ge> len then Some H
      else do {
        h \<leftarrow> hole_new (ih_elements H) (ih_pos H) index;
        h \<leftarrow> sift_down_loop (ih_comp H) len h;
        (es, pos) \<leftarrow> hole_drop h;
        Some (H\<lparr>ih_elements := es, ih_pos := pos\<rparr>) })"

section \<open>Operations\<close>

definition ih_release :: "'a indexed_heap \<Rightarrow> key \<Rightarrow> 'a indexed_heap option" where
  "ih_release H k = do {
     pos \<leftarrow> vset (ih_pos H) (unat k) (FREE_FLAG OR ih_free_head H);
     Some (H\<lparr>ih_pos := pos, ih_free_head := k\<rparr>) }"

definition ih_insert :: "'a indexed_heap \<Rightarrow> 'a \<Rightarrow> ('a indexed_heap \<times> nat) option" where
  "ih_insert H value = do {
     let index = length (ih_elements H);
     assert_run (index < unat NO_FREE);
     (H, k) \<leftarrow> (if ih_free_head H \<noteq> NO_FREE then do {
         let k = ih_free_head H;
         p \<leftarrow> vget (ih_pos H) (unat k);
         pos \<leftarrow> vset (ih_pos H) (unat k) (of_nat index);
         Some (H\<lparr>ih_free_head := p AND NOT FREE_FLAG, ih_pos := pos\<rparr>, k) }
       else do {
         let pos = ih_pos H @ [of_nat index];
         Some (H\<lparr>ih_pos := pos\<rparr>, of_nat (length pos - 1)) });
     let H = H\<lparr>ih_elements := ih_elements H @ [\<lparr>nd_value = value, nd_key = k\<rparr>]\<rparr>;
     H \<leftarrow> sift_up H index;
     Some (H, unat k) }"

definition ih_update :: "'a indexed_heap \<Rightarrow> nat \<Rightarrow> 'a \<Rightarrow> 'a indexed_heap option" where
  "ih_update H k value = do {
     p \<leftarrow> vget (ih_pos H) k;
     let index = unat p;
     assert_run (index < length (ih_elements H));
     n \<leftarrow> vget (ih_elements H) index;
     es \<leftarrow> vset (ih_elements H) index (n\<lparr>nd_value := value\<rparr>);
     let H = H\<lparr>ih_elements := es\<rparr>;
     outranks_parent \<leftarrow> (if index > 0 then do {
         let parent = par index;
         a \<leftarrow> vget es index;
         b \<leftarrow> vget es parent;
         Some (ih_comp H (nd_value a) (nd_value b)) }
       else Some False);
     (if outranks_parent then sift_up H index else sift_down H index) }"

definition ih_pop :: "'a indexed_heap \<Rightarrow> ('a option \<times> 'a indexed_heap) option" where
  "ih_pop H =
     (if ih_elements H = [] then Some (None, H)
      else
        let last = last (ih_elements H);
            H = H\<lparr>ih_elements := butlast (ih_elements H)\<rparr>
        in if ih_elements H = [] then do {
             H \<leftarrow> ih_release H (nd_key last);
             Some (Some (nd_value last), H) }
           else do {
             root \<leftarrow> vget (ih_elements H) 0;
             es \<leftarrow> vset (ih_elements H) 0 last;
             pos \<leftarrow> vset (ih_pos H) (unat (nd_key last)) 0;
             let H = H\<lparr>ih_elements := es, ih_pos := pos\<rparr>;
             H \<leftarrow> ih_release H (nd_key root);
             H \<leftarrow> sift_down H 0;
             Some (Some (nd_value root), H) })"

definition ih_top :: "'a indexed_heap \<Rightarrow> 'a option" where
  "ih_top H = (case ih_elements H of [] \<Rightarrow> None | n # _ \<Rightarrow> Some (nd_value n))"

definition index_of :: "'a indexed_heap \<Rightarrow> nat \<Rightarrow> nat option" where
  "index_of H k =
     (case vget (ih_pos H) k of
        Some index \<Rightarrow> if index AND FREE_FLAG = 0 then Some (unat index) else None
      | None \<Rightarrow> None)"

definition ih_get :: "'a indexed_heap \<Rightarrow> nat \<Rightarrow> 'a option option" where
  "ih_get H k =
     (case index_of H k of
        None \<Rightarrow> Some None
      | Some index \<Rightarrow> do { n \<leftarrow> vget (ih_elements H) index; Some (Some (nd_value n)) })"

definition ih_is_empty :: "'a indexed_heap \<Rightarrow> bool" where
  "ih_is_empty H = (ih_elements H = [])"

definition ih_len :: "'a indexed_heap \<Rightarrow> nat" where
  "ih_len H = length (ih_elements H)"

fun ih_clear_loop :: "'a node list \<Rightarrow> 'a indexed_heap \<Rightarrow> 'a indexed_heap option" where
  "ih_clear_loop [] H = Some (H\<lparr>ih_elements := []\<rparr>)"
| "ih_clear_loop (n # ns) H = do { H \<leftarrow> ih_release H (nd_key n); ih_clear_loop ns H }"

text \<open>\<open>clear\<close> pops the elements from the back.\<close>

definition ih_clear :: "'a indexed_heap \<Rightarrow> 'a indexed_heap option" where
  "ih_clear H = ih_clear_loop (rev (ih_elements H)) H"

section \<open>Elements and their recorded positions\<close>

definition keyed :: "'a node list \<Rightarrow> key list \<Rightarrow> bool" where
  "keyed es pos \<longleftrightarrow> length es < 2 ^ 31 \<and>
     (\<forall>i < length es. unat (nd_key (es ! i)) < length pos \<and> pos ! unat (nd_key (es ! i)) = of_nat i)"

definition node_keys :: "'a node list \<Rightarrow> nat set" where
  "node_keys es = (unat \<circ> nd_key) ` set es"

lemma unat_of_nat_key: "i < 2 ^ 31 \<Longrightarrow> unat (of_nat i :: key) = i"
  by (simp add: unat_of_nat)

lemma of_nat_key_inj:
  "i < 2 ^ 31 \<Longrightarrow> j < 2 ^ 31 \<Longrightarrow> (of_nat i :: key) = of_nat j \<longleftrightarrow> i = j"
  by (metis unat_of_nat_key)

lemma unat_key_eq [simp]: "unat (a :: key) = unat b \<longleftrightarrow> a = b"
  by (rule word_eq_iff_unsigned [symmetric])

lemma keyed_inj:
  assumes "keyed es pos" "i < length es" "j < length es" "nd_key (es ! i) = nd_key (es ! j)"
  shows "i = j"
proof -
  have "(of_nat i :: key) = of_nat j" "i < 2 ^ 31" "j < 2 ^ 31"
    using assms unfolding keyed_def by (metis, linarith+)
  then show ?thesis by (simp only: of_nat_key_inj)
qed

definition exchange :: "'b list \<Rightarrow> nat \<Rightarrow> nat \<Rightarrow> 'b list" where
  "exchange xs i j = xs[i := xs ! j, j := xs ! i]"

lemma exchange_simps [simp]:
  "length (exchange xs i j) = length xs"
  "i < length xs \<Longrightarrow> j < length xs \<Longrightarrow> mset (exchange xs i j) = mset xs"
  "i < length xs \<Longrightarrow> j < length xs \<Longrightarrow> set (exchange xs i j) = set xs"
  by (simp_all add: exchange_def mset_swap set_swap)

lemma exchange_nth:
  assumes "a < length xs" "b < length xs" "c < length xs"
  shows "exchange xs a b ! c = (if c = b then xs ! a else if c = a then xs ! b else xs ! c)"
  using assms
  by (auto simp: exchange_def nth_list_update)

lemma keyed_swap:
  assumes k: "keyed es pos" and i: "i < length es" and j: "j < length es" and "i \<noteq> j"
  shows "keyed (exchange es i j)
    (pos[unat (nd_key (es ! j)) := of_nat i, unat (nd_key (es ! i)) := of_nat j])"
proof -
  have b: "unat (nd_key (es ! l)) < length pos" "pos ! unat (nd_key (es ! l)) = of_nat l"
    if "l < length es" for l
    using k that by (simp_all add: keyed_def)
  have d: "nd_key (es ! l) \<noteq> nd_key (es ! i)" if "l < length es" "l \<noteq> i" for l
    using keyed_inj [OF k that(1) i] that(2) by blast
  have e: "nd_key (es ! l) \<noteq> nd_key (es ! j)" if "l < length es" "l \<noteq> j" for l
    using keyed_inj [OF k that(1) j] that(2) by blast
  let ?pos = "pos[unat (nd_key (es ! j)) := of_nat i, unat (nd_key (es ! i)) := of_nat j]"
  have "?pos ! unat (nd_key (exchange es i j ! l)) = of_nat l" if l: "l < length es" for l
  proof -
    consider "l = i" | "l = j" | "l \<noteq> i" "l \<noteq> j" by blast
    then show ?thesis
    proof cases
      case 1
      then show ?thesis using i j b(1) e [OF i \<open>i \<noteq> j\<close>] by (simp add: exchange_nth)
    next
      case 2
      then show ?thesis using i j b(1) \<open>i \<noteq> j\<close> by (simp add: exchange_nth)
    next
      case 3
      then show ?thesis using i j l b d [OF l 3(1)] e [OF l 3(2)] by (simp add: exchange_nth)
    qed
  qed
  moreover have "unat (nd_key (exchange es i j ! l)) < length ?pos" if "l < length es" for l
    using i j b(1) that by (simp add: exchange_nth)
  moreover have "length es < 2 ^ 31" using k by (simp add: keyed_def)
  ultimately show ?thesis by (simp add: keyed_def)
qed

text \<open>What sifting may change: the order of the elements and the positions of their keys.\<close>

definition resifted :: "'a node list \<Rightarrow> key list \<Rightarrow> 'a node list \<Rightarrow> key list \<Rightarrow> bool" where
  "resifted es pos es' pos' \<longleftrightarrow> keyed es' pos' \<and> mset es' = mset es \<and> length pos' = length pos \<and>
     (\<forall>k. k \<notin> node_keys es \<longrightarrow> pos' ! k = pos ! k)"

lemma resifted_same: "keyed es pos \<Longrightarrow> resifted es pos es pos"
  by (simp add: resifted_def)

lemma resifted_length: "resifted es pos es' pos' \<Longrightarrow> length es' = length es \<and> set es' = set es"
  by (metis mset_eq_length mset_eq_setD resifted_def)

lemma resifted_trans:
  "resifted es pos es' pos' \<Longrightarrow> resifted es' pos' es'' pos'' \<Longrightarrow> resifted es pos es'' pos''"
  using resifted_length [of es pos es' pos'] by (auto simp: resifted_def node_keys_def)

text \<open>The heap a hole stands for.\<close>

definition filled :: "'a hole \<Rightarrow> 'a node list" where
  "filled h = (ho_elements h)[ho_index h := ho_node h]"

definition filled_pos :: "'a hole \<Rightarrow> key list" where
  "filled_pos h = (ho_pos h)[unat (nd_key (ho_node h)) := of_nat (ho_index h)]"

definition hole_ok :: "'a hole \<Rightarrow> bool" where
  "hole_ok h \<longleftrightarrow> ho_index h < length (ho_elements h) \<and> keyed (filled h) (filled_pos h)"

lemma filled_simps [simp]:
  "length (filled h) = length (ho_elements h)" "length (filled_pos h) = length (ho_pos h)"
  "hole_ok h \<Longrightarrow> filled h ! ho_index h = ho_node h"
  "i \<noteq> ho_index h \<Longrightarrow> filled h ! i = ho_elements h ! i"
  by (simp_all add: filled_def filled_pos_def hole_ok_def)

lemma hole_element_run:
  "hole_ok h \<Longrightarrow> i < length (ho_elements h) \<Longrightarrow> i \<noteq> ho_index h \<Longrightarrow>
   hole_element h i = Some (nd_value (filled h ! i))"
  by (simp add: hole_element_def)

lemma hole_new_run:
  assumes "keyed es pos" "i < length es"
  shows "\<exists>h. hole_new es pos i = Some h \<and> hole_ok h \<and> filled h = es \<and> filled_pos h = pos \<and>
    ho_index h = i \<and> length (ho_elements h) = length es"
proof -
  let ?h = "\<lparr>ho_elements = es, ho_pos = pos, ho_node = es ! i, ho_index = i\<rparr>"
  have "filled ?h = es" by (simp add: filled_def)
  moreover have "filled_pos ?h = pos"
    using assms by (metis filled_pos_def hole.select_convs keyed_def list_update_id)
  ultimately show ?thesis using assms by (simp add: hole_new_def hole_ok_def)
qed

lemma hole_drop_run:
  assumes "hole_ok h"
  shows "hole_drop h = Some (filled h, filled_pos h)"
proof -
  have i: "ho_index h < length (ho_elements h)" and k: "keyed (filled h) (filled_pos h)"
    using assms by (simp_all add: hole_ok_def)
  have "unat (nd_key (ho_node h)) < length (ho_pos h)"
    using k i filled_simps(3) [OF assms] unfolding keyed_def
    by (metis filled_simps(1,2))
  then show ?thesis using i by (simp add: hole_drop_def filled_def filled_pos_def)
qed

lemma hole_move_run:
  assumes h: "hole_ok h" and t: "t < length (ho_elements h)" "t \<noteq> ho_index h"
  shows "\<exists>h'. hole_move_to h t = Some h' \<and> hole_ok h' \<and> filled h' = exchange (filled h) (ho_index h) t \<and>
    resifted (filled h) (filled_pos h) (filled h') (filled_pos h') \<and>
    ho_index h' = t \<and> length (ho_elements h') = length (ho_elements h) \<and> ho_node h' = ho_node h"
proof -
  let ?i = "ho_index h" and ?n = "ho_elements h ! t"
  have i: "?i < length (ho_elements h)" and k: "keyed (filled h) (filled_pos h)"
    using h by (simp_all add: hole_ok_def)
  have f: "filled h ! t = ?n" "filled h ! ?i = ho_node h" using t h by simp_all
  have kt: "unat (nd_key ?n) < length (ho_pos h)" and ki: "unat (nd_key (ho_node h)) < length (ho_pos h)"
    using k t(1) i f by (metis filled_simps(1,2) keyed_def)+
  have ne: "unat (nd_key ?n) \<noteq> unat (nd_key (ho_node h))"
    using keyed_inj [OF k, of t ?i] t i f by auto
  let ?h' = "h\<lparr>ho_elements := (ho_elements h)[?i := ?n],
      ho_pos := (ho_pos h)[unat (nd_key ?n) := of_nat ?i], ho_index := t\<rparr>"
  have run: "hole_move_to h t = Some ?h'" using t i kt by (simp add: hole_move_to_def)
  have fl: "filled ?h' = exchange (filled h) ?i t"
    using t i f by (simp add: filled_def exchange_def nth_list_update)
  have fp: "filled_pos ?h' = (filled_pos h)[unat (nd_key (filled h ! t)) := of_nat ?i,
      unat (nd_key (filled h ! ?i)) := of_nat t]"
    unfolding f filled_pos_def using ne by (simp add: list_update_swap)
  have "keyed (filled ?h') (filled_pos ?h')"
    unfolding fl fp by (rule keyed_swap [OF k]) (use t i in simp_all)
  moreover from this have "hole_ok ?h'" using t by (simp add: hole_ok_def)
  moreover have "filled_pos ?h' ! l = filled_pos h ! l" if "l \<notin> node_keys (filled h)" for l
  proof -
    have "filled h ! t \<in> set (filled h)" "filled h ! ?i \<in> set (filled h)"
      by (rule nth_mem, use t i in simp)+
    then have "l \<noteq> unat (nd_key (filled h ! t))" "l \<noteq> unat (nd_key (filled h ! ?i))"
      using that by (auto simp: node_keys_def)
    then show ?thesis unfolding fp by simp
  qed
  ultimately show ?thesis
    using run fl t i by (simp add: resifted_def fp)
qed

section \<open>Heap order\<close>

text \<open>What the comparison function has to be: \<open>cmp a b\<close> says that \<open>a\<close> goes before \<open>b\<close>.\<close>

definition ranks :: "('a \<Rightarrow> 'a \<Rightarrow> bool) \<Rightarrow> bool" where
  "ranks cmp \<longleftrightarrow> (\<forall>a b. cmp a b \<longrightarrow> \<not> cmp b a) \<and>
     (\<forall>a b c. \<not> cmp a b \<longrightarrow> \<not> cmp b c \<longrightarrow> \<not> cmp a c)"

lemma ranks_asym:
  assumes "ranks cmp" "cmp a b"
  shows "\<not> cmp b a"
  using conjunct1 [OF assms(1) [unfolded ranks_def], rule_format, OF assms(2)] .

lemma ranks_trans:
  assumes "ranks cmp" "\<not> cmp a b" "\<not> cmp b c"
  shows "\<not> cmp a c"
  using conjunct2 [OF assms(1) [unfolded ranks_def], rule_format, OF assms(2,3)] .

lemma par_less: "0 < i \<Longrightarrow> par i < i"
  by (simp add: par_def)

lemma par_children: "0 < i \<Longrightarrow> par i = k \<longleftrightarrow> i = 2 * k + 1 \<or> i = 2 * k + 2"
  unfolding par_def by (auto simp: less_eq_Suc_le dest!: gr0_implies_Suc)

definition below :: "('a \<Rightarrow> 'a \<Rightarrow> bool) \<Rightarrow> 'a node list \<Rightarrow> nat \<Rightarrow> nat \<Rightarrow> bool" where
  "below cmp es i j \<longleftrightarrow> \<not> cmp (nd_value (es ! i)) (nd_value (es ! j))"

lemma below_trans: "ranks cmp \<Longrightarrow> below cmp es i j \<Longrightarrow> below cmp es j k \<Longrightarrow> below cmp es i k"
  unfolding below_def by (rule ranks_trans)

definition heap_order :: "('a \<Rightarrow> 'a \<Rightarrow> bool) \<Rightarrow> 'a node list \<Rightarrow> bool" where
  "heap_order cmp es \<longleftrightarrow> (\<forall>i < length es. 0 < i \<longrightarrow> below cmp es i (par i))"

text \<open>The order everywhere but between \<open>k\<close> and its parent, or between \<open>k\<close> and its children.\<close>

definition up_order :: "('a \<Rightarrow> 'a \<Rightarrow> bool) \<Rightarrow> 'a node list \<Rightarrow> nat \<Rightarrow> bool" where
  "up_order cmp es k \<longleftrightarrow> (\<forall>i < length es. 0 < i \<longrightarrow> i \<noteq> k \<longrightarrow> below cmp es i (par i)) \<and>
     (\<forall>i < length es. 0 < i \<longrightarrow> par i = k \<longrightarrow> 0 < k \<longrightarrow> below cmp es i (par k))"

definition down_order :: "('a \<Rightarrow> 'a \<Rightarrow> bool) \<Rightarrow> 'a node list \<Rightarrow> nat \<Rightarrow> bool" where
  "down_order cmp es k \<longleftrightarrow> (\<forall>i < length es. 0 < i \<longrightarrow> par i \<noteq> k \<longrightarrow> below cmp es i (par i)) \<and>
     (\<forall>i < length es. 0 < i \<longrightarrow> par i = k \<longrightarrow> 0 < k \<longrightarrow> below cmp es i (par k))"

lemma below_swap:
  assumes "i < length es" "j < length es" "k < length es" "l < length es"
  shows "below cmp (exchange es k l) i j \<longleftrightarrow>
    below cmp es (if i = k then l else if i = l then k else i) (if j = k then l else if j = l then k else j)"
  using assms by (simp add: below_def exchange_nth)

lemma up_order_step:
  assumes r: "ranks cmp" and u: "up_order cmp es k" and k: "0 < k" "k < length es"
    and c: "\<not> below cmp es k (par k)"
  shows "up_order cmp (exchange es k (par k)) (par k)"
proof -
  define p where "p = par k"
  have p: "p < k" "p < length es" using k par_less [OF k(1)] by (simp_all add: p_def)
  have u1: "below cmp es i (par i)" if "i < length es" "0 < i" "i \<noteq> k" for i
    using u that by (simp add: up_order_def)
  have u2: "below cmp es i p" if "i < length es" "0 < i" "par i = k" for i
    using u that k unfolding up_order_def p_def by blast
  have pk: "below cmp es p k" using c ranks_asym [OF r] by (auto simp: below_def p_def)
  have "below cmp (exchange es k p) i (par i)" if i: "i < length es" "0 < i" "i \<noteq> p" for i
  proof -
    have pi: "par i < i" "par i < length es" using par_less [OF i(2)] i(1) by linarith+
    consider "i = k" | "i \<noteq> k" "par i = k" | "i \<noteq> k" "par i = p" | "i \<noteq> k" "par i \<noteq> k" "par i \<noteq> p"
      by blast
    then show ?thesis
    proof cases
      case 1
      then show ?thesis using pk p k by (simp add: below_swap p_def [symmetric])
    next
      case 2
      then show ?thesis using u2 [OF i(1,2) 2(2)] i p k pi by (simp add: below_swap)
    next
      case 3
      have "below cmp es i k" using below_trans [OF r u1 [OF i(1,2) 3(1)]] 3(2) pk by simp
      then show ?thesis using 3 i p k pi by (simp add: below_swap)
    next
      case 4
      then show ?thesis using u1 [OF i(1,2)] i p k pi by (simp add: below_swap)
    qed
  qed
  moreover have "below cmp (exchange es k p) i (par p)"
    if i: "i < length es" "0 < i" "par i = p" "0 < p" for i
  proof -
    have pp: "par p < p" "par p < length es" using par_less [OF i(4)] p by simp_all
    have ip: "i \<noteq> p" using par_less [OF i(2)] i(3) by simp
    have up: "below cmp es p (par p)" using u1 [OF p(2) i(4)] p by simp
    show ?thesis
    proof (cases "i = k")
      case True
      then show ?thesis using up p k pp by (simp add: below_swap)
    next
      case False
      have "below cmp es i (par p)" using below_trans [OF r u1 [OF i(1,2) False]] up i(3) by simp
      then show ?thesis using False ip i p k pp by (simp add: below_swap)
    qed
  qed
  ultimately show ?thesis unfolding up_order_def p_def [symmetric] by simp
qed

lemma up_order_done:
  "up_order cmp es k \<Longrightarrow> k = 0 \<or> below cmp es k (par k) \<Longrightarrow> heap_order cmp es"
  unfolding up_order_def heap_order_def by blast

lemma down_order_step:
  assumes r: "ranks cmp" and d: "down_order cmp es k" and b: "0 < b" "par b = k" "b < length es"
    and best: "\<And>i. i < length es \<Longrightarrow> 0 < i \<Longrightarrow> par i = k \<Longrightarrow> below cmp es i b"
    and c: "\<not> below cmp es b k"
  shows "down_order cmp (exchange es k b) b"
proof -
  have k: "k < b" "k < length es" using par_less [OF b(1)] b(2,3) by simp_all
  have d1: "below cmp es i (par i)" if "i < length es" "0 < i" "par i \<noteq> k" for i
    using d that by (simp add: down_order_def)
  have d2: "below cmp es i (par k)" if "i < length es" "0 < i" "par i = k" "0 < k" for i
    using d that unfolding down_order_def by blast
  have kb: "below cmp es k b" using c ranks_asym [OF r] by (auto simp: below_def)
  have "below cmp (exchange es k b) i (par i)" if i: "i < length es" "0 < i" "par i \<noteq> b" for i
  proof -
    have pi: "par i < i" "par i < length es" using par_less [OF i(2)] i(1) by linarith+
    consider "i = b" | "i \<noteq> b" "par i = k" | "i = k" "par i \<noteq> k" | "i \<noteq> b" "par i \<noteq> k" "i \<noteq> k"
      by blast
    then show ?thesis
    proof cases
      case 1
      then show ?thesis using kb k b by (simp add: below_swap)
    next
      case 2
      then show ?thesis using best [OF i(1,2) 2(2)] i k b pi by (auto simp: below_swap)
    next
      case 3
      then show ?thesis using d2 [OF b(3,1,2)] i k b pi by (simp add: below_swap)
    next
      case 4
      then show ?thesis using d1 [OF i(1,2)] i k b pi by (simp add: below_swap)
    qed
  qed
  moreover have "below cmp (exchange es k b) i k" if i: "i < length es" "0 < i" "par i = b" for i
  proof -
    have "i \<noteq> b" "i \<noteq> k" using par_less [OF i(2)] i(3) k by auto
    moreover have "below cmp es i b" using d1 [OF i(1,2)] i(3) k by simp
    ultimately show ?thesis using i k b by (simp add: below_swap)
  qed
  ultimately show ?thesis unfolding down_order_def using b(2) by simp
qed

lemma down_order_done:
  "down_order cmp es k \<Longrightarrow> (\<And>i. i < length es \<Longrightarrow> 0 < i \<Longrightarrow> par i = k \<Longrightarrow> below cmp es i k) \<Longrightarrow>
   heap_order cmp es"
  unfolding down_order_def heap_order_def by blast

lemma heap_order_top:
  assumes r: "ranks cmp" and h: "heap_order cmp es"
  shows "i < length es \<Longrightarrow> below cmp es i 0"
proof (induction i rule: less_induct)
  case (less i)
  show ?case
  proof (cases "i = 0")
    case True
    then show ?thesis using ranks_asym [OF r] by (auto simp: below_def)
  next
    case False
    then have "par i < i" "below cmp es i (par i)"
      using h less.prems by (auto simp: heap_order_def par_less)
    then show ?thesis using below_trans [OF r] less.IH [of "par i"] less.prems by simp
  qed
qed

section \<open>Sifting restores the heap\<close>

lemma sift_up_loop_run:
  assumes r: "ranks cmp"
  shows "hole_ok h \<Longrightarrow> up_order cmp (filled h) (ho_index h) \<Longrightarrow>
    \<exists>h'. sift_up_loop cmp h = Some h' \<and> hole_ok h' \<and> heap_order cmp (filled h') \<and>
      resifted (filled h) (filled_pos h) (filled h') (filled_pos h')"
proof (induction "ho_index h" arbitrary: h rule: less_induct)
  case less
  note ok = less.prems(1) and up = less.prems(2)
  have same: "resifted (filled h) (filled_pos h) (filled h) (filled_pos h)"
    using ok by (simp add: hole_ok_def resifted_same)
  show ?case
  proof (cases "ho_index h = 0")
    case True
    then show ?thesis
      using ok up same up_order_done [OF up] by (subst sift_up_loop.simps) auto
  next
    case False
    let ?p = "par (ho_index h)"
    have p: "?p < ho_index h" "?p < length (ho_elements h)"
      using par_less [of "ho_index h"] False ok by (auto simp: hole_ok_def)
    have e: "hole_element h ?p = Some (nd_value (filled h ! ?p))"
      using hole_element_run [OF ok p(2)] p(1) by simp
    have b: "below cmp (filled h) (ho_index h) ?p \<longleftrightarrow> \<not> cmp (nd_value (ho_node h)) (nd_value (filled h ! ?p))"
      using ok by (simp add: below_def)
    show ?thesis
    proof (cases "below cmp (filled h) (ho_index h) ?p")
      case True
      then show ?thesis
        using ok same up_order_done [OF up] e b by (subst sift_up_loop.simps) auto
    next
      case out: False
      obtain g where g: "hole_move_to h ?p = Some g" "hole_ok g"
          "filled g = exchange (filled h) (ho_index h) ?p" "ho_index g = ?p"
          "resifted (filled h) (filled_pos h) (filled g) (filled_pos g)"
        using hole_move_run [OF ok p(2) less_imp_neq [OF p(1)]] by blast
      have "up_order cmp (filled g) (ho_index g)"
        unfolding g(3,4) by (rule up_order_step [OF r up _ _ out])
          (use False ok in \<open>simp_all add: hole_ok_def\<close>)
      then obtain h' where "sift_up_loop cmp g = Some h'" "hole_ok h'" "heap_order cmp (filled h')"
          "resifted (filled g) (filled_pos g) (filled h') (filled_pos h')"
        using less.hyps [of g] g(2,4) p(1) by metis
      then show ?thesis
        using e b out False g(1) resifted_trans [OF g(5)] by (subst sift_up_loop.simps) auto
    qed
  qed
qed

lemma best_child_run:
  assumes ok: "hole_ok h" and r: "ranks cmp"
    and left: "2 * ho_index h + 1 < length (ho_elements h)"
  shows "\<exists>b. best_child cmp h (length (ho_elements h)) = Some b \<and> 0 < b \<and> par b = ho_index h \<and>
    b < length (ho_elements h) \<and>
    (\<forall>i < length (ho_elements h). 0 < i \<longrightarrow> par i = ho_index h \<longrightarrow> below cmp (filled h) i b)"
proof -
  let ?l = "2 * ho_index h + 1" and ?n = "length (ho_elements h)"
  have refl: "below cmp (filled h) i i" for i
    using ranks_asym [OF r] by (auto simp: below_def)
  have el: "hole_element h ?l = Some (nd_value (filled h ! ?l))"
    using hole_element_run [OF ok left] by simp
  have child: "i = ?l \<or> i = ?l + 1" if "0 < i" "par i = ho_index h" for i
    using that par_children [of i "ho_index h"] by auto
  have parent: "par ?l = ho_index h" "par (?l + 1) = ho_index h" by (simp_all add: par_def)
  show ?thesis
  proof (cases "?l + 1 < ?n")
    case True
    have er: "hole_element h (?l + 1) = Some (nd_value (filled h ! (?l + 1)))"
      using hole_element_run [OF ok True] by simp
    show ?thesis
    proof (cases "cmp (nd_value (filled h ! (?l + 1))) (nd_value (filled h ! ?l))")
      case c: True
      then have "below cmp (filled h) ?l (?l + 1)" using ranks_asym [OF r] unfolding below_def by blast
      then have "\<forall>i < ?n. 0 < i \<longrightarrow> par i = ho_index h \<longrightarrow> below cmp (filled h) i (?l + 1)"
        using child refl by blast
      moreover have "best_child cmp h ?n = Some (?l + 1)"
        using True c el er by (simp add: best_child_def Let_def)
      ultimately show ?thesis using True parent by (intro exI [of _ "?l + 1"]) simp
    next
      case c: False
      then have "below cmp (filled h) (?l + 1) ?l" unfolding below_def by blast
      then have "\<forall>i < ?n. 0 < i \<longrightarrow> par i = ho_index h \<longrightarrow> below cmp (filled h) i ?l"
        using child refl by blast
      moreover have "best_child cmp h ?n = Some ?l"
        using True c el er by (simp add: best_child_def Let_def)
      ultimately show ?thesis using left parent by (intro exI [of _ "?l"]) simp
    qed
  next
    case False
    then have "best_child cmp h ?n = Some ?l" by (simp add: best_child_def Let_def)
    moreover have "\<forall>i < ?n. 0 < i \<longrightarrow> par i = ho_index h \<longrightarrow> below cmp (filled h) i ?l"
      using child refl False by blast
    ultimately show ?thesis using left parent by (intro exI [of _ "?l"]) simp
  qed
qed

lemma sift_down_loop_run:
  assumes r: "ranks cmp"
  shows "hole_ok h \<Longrightarrow> down_order cmp (filled h) (ho_index h) \<Longrightarrow>
    \<exists>h'. sift_down_loop cmp (length (ho_elements h)) h = Some h' \<and> hole_ok h' \<and>
      heap_order cmp (filled h') \<and> resifted (filled h) (filled_pos h) (filled h') (filled_pos h')"
proof (induction "length (ho_elements h) - ho_index h" arbitrary: h rule: less_induct)
  case less
  note ok = less.prems(1) and down = less.prems(2)
  let ?n = "length (ho_elements h)"
  have same: "resifted (filled h) (filled_pos h) (filled h) (filled_pos h)"
    using ok by (simp add: hole_ok_def resifted_same)
  show ?case
  proof (cases "2 * ho_index h + 1 < ?n")
    case False
    have "heap_order cmp (filled h)"
      by (rule down_order_done [OF down]) (use False par_children in force)
    then show ?thesis using ok same False by (subst sift_down_loop.simps) (auto simp: Let_def)
  next
    case True
    obtain b where b: "best_child cmp h ?n = Some b" "0 < b" "par b = ho_index h" "b < ?n"
        "\<And>i. i < ?n \<Longrightarrow> 0 < i \<Longrightarrow> par i = ho_index h \<Longrightarrow> below cmp (filled h) i b"
      using best_child_run [OF ok r True] by blast
    have bi: "ho_index h < b" using par_less [OF b(2)] b(3) by simp
    have e: "hole_element h b = Some (nd_value (filled h ! b))"
      using hole_element_run [OF ok b(4)] bi by simp
    have c: "below cmp (filled h) b (ho_index h) \<longleftrightarrow> \<not> cmp (nd_value (filled h ! b)) (nd_value (ho_node h))"
      using ok by (simp add: below_def)
    show ?thesis
    proof (cases "below cmp (filled h) b (ho_index h)")
      case stop: True
      have "heap_order cmp (filled h)"
        by (rule down_order_done [OF down]) (use b(5) below_trans [OF r _ stop] in auto)
      then show ?thesis
        using ok same b(1) e c stop by (subst sift_down_loop.simps) (auto simp: Let_def)
    next
      case go: False
      obtain g where g: "hole_move_to h b = Some g" "hole_ok g"
          "filled g = exchange (filled h) (ho_index h) b" "ho_index g = b"
          "resifted (filled h) (filled_pos h) (filled g) (filled_pos g)" "length (ho_elements g) = ?n"
        using hole_move_run [OF ok b(4) less_imp_neq [OF bi, symmetric]] by blast
      have "down_order cmp (filled g) (ho_index g)"
        unfolding g(3,4) by (rule down_order_step [OF r down b(2,3) _ _ go])
          (use b(4,5) in simp_all)
      then obtain h' where "sift_down_loop cmp ?n g = Some h'" "hole_ok h'" "heap_order cmp (filled h')"
          "resifted (filled g) (filled_pos g) (filled h') (filled_pos h')"
        using less.hyps [of g] g(2,4,6) bi b(4) by force
      then show ?thesis
        using True b(1) e c go g(1) resifted_trans [OF g(5)]
        by (subst sift_down_loop.simps) (auto simp: Let_def)
    qed
  qed
qed

lemma sift_up_run:
  assumes "ranks (ih_comp H)" "keyed (ih_elements H) (ih_pos H)" "i < length (ih_elements H)"
    "up_order (ih_comp H) (ih_elements H) i"
  shows "\<exists>es pos. sift_up H i = Some (H\<lparr>ih_elements := es, ih_pos := pos\<rparr>) \<and>
    heap_order (ih_comp H) es \<and> resifted (ih_elements H) (ih_pos H) es pos"
proof (cases "i = 0")
  case True
  have "sift_up H i = Some (H\<lparr>ih_elements := ih_elements H, ih_pos := ih_pos H\<rparr>)"
    using True by (simp add: sift_up_def)
  then show ?thesis
    using up_order_done [OF assms(4)] resifted_same [OF assms(2)] True by blast
next
  case False
  obtain h where h: "hole_new (ih_elements H) (ih_pos H) i = Some h" "hole_ok h"
      "filled h = ih_elements H" "filled_pos h = ih_pos H" "ho_index h = i"
    using hole_new_run [OF assms(2,3)] by blast
  obtain g where g: "sift_up_loop (ih_comp H) h = Some g" "hole_ok g" "heap_order (ih_comp H) (filled g)"
      "resifted (filled h) (filled_pos h) (filled g) (filled_pos g)"
    using sift_up_loop_run [OF assms(1) h(2)] assms(4) h(3,5) by auto
  have "sift_up H i = Some (H\<lparr>ih_elements := filled g, ih_pos := filled_pos g\<rparr>)"
    using False h g(1) hole_drop_run [OF g(2)] by (simp add: sift_up_def)
  then show ?thesis using g(3,4) h(3,4) by auto
qed

lemma sift_down_run:
  assumes "ranks (ih_comp H)" "keyed (ih_elements H) (ih_pos H)" "i < length (ih_elements H)"
    "down_order (ih_comp H) (ih_elements H) i"
  shows "\<exists>es pos. sift_down H i = Some (H\<lparr>ih_elements := es, ih_pos := pos\<rparr>) \<and>
    heap_order (ih_comp H) es \<and> resifted (ih_elements H) (ih_pos H) es pos"
proof -
  obtain h where h: "hole_new (ih_elements H) (ih_pos H) i = Some h" "hole_ok h"
      "filled h = ih_elements H" "filled_pos h = ih_pos H" "ho_index h = i"
      "length (ho_elements h) = length (ih_elements H)"
    using hole_new_run [OF assms(2,3)] by blast
  obtain g where g: "sift_down_loop (ih_comp H) (length (ih_elements H)) h = Some g" "hole_ok g"
      "heap_order (ih_comp H) (filled g)"
      "resifted (filled h) (filled_pos h) (filled g) (filled_pos g)"
    using sift_down_loop_run [OF assms(1) h(2)] assms(4) h(3,5,6) by auto
  have "sift_down H i = Some (H\<lparr>ih_elements := filled g, ih_pos := filled_pos g\<rparr>)"
    using assms(3) h g(1) hole_drop_run [OF g(2)] by (simp add: sift_down_def Let_def)
  then show ?thesis using g(3,4) h(3,4) by auto
qed

section \<open>Keys and the free list\<close>

lemma bit_FREE_FLAG [simp]: "bit FREE_FLAG i \<longleftrightarrow> i = 31"
  unfolding FREE_FLAG_def bit_push_bit_iff bit_1_iff by auto

lemma unat_NO_FREE [simp]: "unat NO_FREE = 2 ^ 31 - 1"
  by (simp add: NO_FREE_def FREE_FLAG_def)

lemma small_key_bit:
  assumes "unat (k :: key) < 2 ^ 31"
  shows "\<not> bit k 31"
proof -
  have "\<not> bit (unat k) 31" unfolding bit_iff_odd using assms by simp
  then show ?thesis by (simp add: bit_unsigned_iff)
qed

lemma of_nat_key_bit: "i < 2 ^ 31 \<Longrightarrow> \<not> bit (of_nat i :: key) 31"
  by (rule small_key_bit) (simp add: unat_of_nat_key)

lemma flagged_key: "bit (k :: key) 31 \<Longrightarrow> 2 ^ 31 \<le> unat k"
  using small_key_bit [of k] by (meson not_le)

lemma unflag:
  assumes "unat (k :: key) < 2 ^ 31"
  shows "(FREE_FLAG OR k) AND NOT FREE_FLAG = k" "bit (FREE_FLAG OR k) 31"
  using small_key_bit [OF assms] by (auto intro!: bit_eqI simp: bit_simps)

fun free_chain :: "key list \<Rightarrow> key \<Rightarrow> nat list \<Rightarrow> bool" where
  "free_chain pos head [] = (head = NO_FREE)"
| "free_chain pos head (k # ks) = (head \<noteq> NO_FREE \<and> unat head = k \<and> k < length pos \<and>
     bit (pos ! k) 31 \<and> free_chain pos (pos ! k AND NOT FREE_FLAG) ks)"

lemma free_chain_cong:
  "length pos' = length pos \<Longrightarrow> (\<And>k. k \<in> set ks \<Longrightarrow> pos' ! k = pos ! k) \<Longrightarrow>
   free_chain pos' head ks \<longleftrightarrow> free_chain pos head ks"
  by (induction ks arbitrary: head) auto

lemma free_chain_head: "length pos < 2 ^ 31 \<Longrightarrow> free_chain pos head ks \<Longrightarrow> unat head < 2 ^ 31"
  by (cases ks) auto

lemma free_chain_flag: "free_chain pos head ks \<Longrightarrow> k \<in> set ks \<Longrightarrow> bit (pos ! k) 31"
  by (induction ks arbitrary: head) auto

definition free_keys :: "'a node list \<Rightarrow> key list \<Rightarrow> key \<Rightarrow> nat list \<Rightarrow> nat set \<Rightarrow> bool" where
  "free_keys es pos head ks taken \<longleftrightarrow> distinct ks \<and> free_chain pos head ks \<and>
     node_keys es \<inter> set ks = {} \<and> taken \<inter> (node_keys es \<union> set ks) = {} \<and>
     node_keys es \<union> set ks \<union> taken = {..<length pos}"

text \<open>The invariant.\<close>

definition heap_ok :: "'a indexed_heap \<Rightarrow> bool" where
  "heap_ok H \<longleftrightarrow> ranks (ih_comp H) \<and> keyed (ih_elements H) (ih_pos H) \<and>
     heap_order (ih_comp H) (ih_elements H) \<and> length (ih_pos H) < 2 ^ 31 \<and>
     (\<exists>ks. free_keys (ih_elements H) (ih_pos H) (ih_free_head H) ks {})"

text \<open>What the heap holds: a map from live keys to values.\<close>

definition contents :: "'a indexed_heap \<Rightarrow> nat \<rightharpoonup> 'a" where
  "contents H = map_of (map (\<lambda>n. (unat (nd_key n), nd_value n)) (ih_elements H))"

lemma contents_in_elements:
  "contents H k = Some v \<Longrightarrow> \<exists>n \<in> set (ih_elements H). unat (nd_key n) = k \<and> nd_value n = v"
  unfolding contents_def by (drule map_of_SomeD) auto

lemma dom_contents: "dom (contents H) = node_keys (ih_elements H)"
  by (simp add: contents_def node_keys_def dom_map_of_conv_image_fst image_image comp_def)

lemma contents_iff:
  assumes "keyed (ih_elements H) (ih_pos H)"
  shows "contents H k = Some v \<longleftrightarrow>
    (\<exists>n \<in> set (ih_elements H). unat (nd_key n) = k \<and> nd_value n = v)"
proof
  assume "\<exists>n \<in> set (ih_elements H). unat (nd_key n) = k \<and> nd_value n = v"
  then obtain n where n: "n \<in> set (ih_elements H)" "unat (nd_key n) = k" "nd_value n = v" by blast
  have "distinct (map (unat \<circ> nd_key) (ih_elements H))"
    unfolding distinct_conv_nth using keyed_inj [OF assms] by auto
  then show "contents H k = Some v"
    unfolding contents_def using n by (intro map_of_is_SomeI) (auto simp: comp_def)
qed (rule contents_in_elements)

lemma contents_nth:
  assumes "keyed (ih_elements H) (ih_pos H)"
  shows "contents H k = Some v \<longleftrightarrow>
    (\<exists>i < length (ih_elements H). unat (nd_key (ih_elements H ! i)) = k \<and> nd_value (ih_elements H ! i) = v)"
  unfolding contents_iff [OF assms] by (metis in_set_conv_nth)

lemma contents_cong:
  assumes "keyed (ih_elements H) (ih_pos H)" "keyed (ih_elements G) (ih_pos G)"
    "set (ih_elements H) = set (ih_elements G)"
  shows "contents H = contents G"
proof (rule ext)
  fix k
  have "contents H k = Some v \<longleftrightarrow> contents G k = Some v" for v
    using assms by (simp add: contents_iff)
  then show "contents H k = contents G k" by (metis not_None_eq)
qed

lemma node_keys_mset: "mset es = mset es' \<Longrightarrow> node_keys es = node_keys es'"
  by (metis node_keys_def mset_eq_setD)

lemma free_keys_resifted:
  assumes "resifted es pos es' pos'" "free_keys es pos head ks taken"
    and "taken = {}"
  shows "free_keys es' pos' head ks taken"
proof -
  have "node_keys es' = node_keys es" "length pos' = length pos"
    using assms(1) node_keys_mset by (auto simp: resifted_def)
  moreover have "free_chain pos' head ks"
    using free_chain_cong [of pos' pos ks head] assms(1,2) calculation(2)
    by (auto simp: resifted_def free_keys_def)
  ultimately show ?thesis using assms(2) by (simp add: free_keys_def)
qed

lemma sifted_ok:
  assumes "ranks (ih_comp H)" "length (ih_pos H) < 2 ^ 31" "keyed (ih_elements H) (ih_pos H)"
    and "free_keys (ih_elements H) (ih_pos H) (ih_free_head H) ks {}"
    and "heap_order (ih_comp H) es" "resifted (ih_elements H) (ih_pos H) es pos"
  shows "heap_ok (H\<lparr>ih_elements := es, ih_pos := pos\<rparr>)"
    "contents (H\<lparr>ih_elements := es, ih_pos := pos\<rparr>) = contents H"
proof -
  show "heap_ok (H\<lparr>ih_elements := es, ih_pos := pos\<rparr>)"
    using assms free_keys_resifted [OF assms(6,4)] by (auto simp: heap_ok_def resifted_def)
  show "contents (H\<lparr>ih_elements := es, ih_pos := pos\<rparr>) = contents H"
    using assms(3,6) resifted_length [OF assms(6)]
    by (intro contents_cong) (simp_all add: resifted_def)
qed

section \<open>The operations\<close>

lemma heap_new_ok: "ranks cmp \<Longrightarrow> heap_ok (ih_new cmp) \<and> contents (ih_new cmp) = Map.empty"
  by (auto simp: heap_ok_def ih_new_def keyed_def heap_order_def free_keys_def node_keys_def contents_def
      intro!: exI [of _ "[]"])

lemma node_keys_simps [simp]:
  "node_keys [] = {}" "node_keys (n # es) = insert (unat (nd_key n)) (node_keys es)"
  "node_keys (es @ fs) = node_keys es \<union> node_keys fs"
  by (auto simp: node_keys_def)

lemma keyed_card:
  assumes "keyed es pos"
  shows "card (node_keys es) = length es"
proof -
  have "distinct (map (unat \<circ> nd_key) es)"
    unfolding distinct_conv_nth using keyed_inj [OF assms] by auto
  then have "card (set (map (unat \<circ> nd_key) es)) = length es"
    by (metis distinct_card length_map)
  then show ?thesis by (simp add: node_keys_def)
qed

lemma keyed_bound: "keyed es pos \<Longrightarrow> k \<in> node_keys es \<Longrightarrow> k < length pos"
  by (auto simp: keyed_def node_keys_def in_set_conv_nth)

text \<open>Taking a key: from the free list, or a new one at the end of the table.\<close>

definition take_key :: "'a indexed_heap \<Rightarrow> ('a indexed_heap \<times> key) option" where
  "take_key H =
     (let index = length (ih_elements H) in
      if ih_free_head H \<noteq> NO_FREE then do {
        let k = ih_free_head H;
        p \<leftarrow> vget (ih_pos H) (unat k);
        pos \<leftarrow> vset (ih_pos H) (unat k) (of_nat index);
        Some (H\<lparr>ih_free_head := p AND NOT FREE_FLAG, ih_pos := pos\<rparr>, k) }
      else do {
        let pos = ih_pos H @ [of_nat index];
        Some (H\<lparr>ih_pos := pos\<rparr>, of_nat (length pos - 1)) })"

lemma take_key_run:
  assumes ok: "heap_ok H" and len: "length (ih_elements H) < 2 ^ 31 - 1"
  shows "\<exists>pos head k ks. take_key H = Some (H\<lparr>ih_pos := pos, ih_free_head := head\<rparr>, k) \<and>
    length pos < 2 ^ 31 \<and> unat k \<notin> node_keys (ih_elements H) \<and> unat k < length pos \<and>
    pos ! unat k = of_nat (length (ih_elements H)) \<and>
    (\<forall>j \<in> node_keys (ih_elements H). pos ! j = ih_pos H ! j) \<and> length (ih_pos H) \<le> length pos \<and>
    free_keys (ih_elements H) pos head ks {unat k}"
proof -
  let ?es = "ih_elements H" and ?pos = "ih_pos H"
  obtain ks where ks: "free_keys ?es ?pos (ih_free_head H) ks {}" using ok by (auto simp: heap_ok_def)
  have k: "keyed ?es ?pos" and lp: "length ?pos < 2 ^ 31" using ok by (simp_all add: heap_ok_def)
  show ?thesis
  proof (cases ks)
    case Nil
    then have h: "ih_free_head H = NO_FREE" and all: "node_keys ?es = {..<length ?pos}"
      using ks by (simp_all add: free_keys_def)
    have l: "length ?pos = length ?es" using keyed_card [OF k] all by simp
    let ?p = "?pos @ [of_nat (length ?es)]" and ?k = "of_nat (length ?pos) :: key"
    have uk: "unat ?k = length ?pos" using lp by (simp add: unat_of_nat_key)
    have "take_key H = Some (H\<lparr>ih_pos := ?p, ih_free_head := NO_FREE\<rparr>, ?k)"
      using h by (simp add: take_key_def)
    moreover have "free_keys ?es ?p NO_FREE [] {unat ?k}"
      unfolding uk by (simp add: free_keys_def all lessThan_Suc)
    moreover have "length ?p < 2 ^ 31" "length ?pos \<le> length ?p" using l len by simp_all
    moreover have "unat ?k \<notin> node_keys ?es" "unat ?k < length ?p" "?p ! unat ?k = of_nat (length ?es)"
      unfolding uk all by simp_all
    moreover have "\<forall>j \<in> node_keys ?es. ?p ! j = ?pos ! j" by (simp add: all nth_append)
    ultimately show ?thesis by blast
  next
    case (Cons j js)
    let ?k = "ih_free_head H" and ?h = "?pos ! unat (ih_free_head H) AND NOT FREE_FLAG"
    let ?p = "?pos[unat (ih_free_head H) := of_nat (length ?es)]"
    have c: "?k \<noteq> NO_FREE" "unat ?k = j" "j < length ?pos" "free_chain ?pos ?h js"
        "j \<notin> node_keys ?es" "j \<notin> set js" "distinct js" "node_keys ?es \<inter> set js = {}"
        "node_keys ?es \<union> set js \<union> {j} = {..<length ?pos}"
      using ks Cons by (auto simp: free_keys_def)
    have "take_key H = Some (H\<lparr>ih_pos := ?p, ih_free_head := ?h\<rparr>, ?k)"
      using c by (simp add: take_key_def)
    have keep: "?p ! i = ?pos ! i" if "i \<noteq> j" for i using c(2) that by simp
    have "free_chain ?p ?h js"
      using free_chain_cong [of ?p ?pos js ?h] c(4,6) keep by (metis length_list_update)
    then have "free_keys ?es ?p ?h js {unat ?k}"
      unfolding c(2) free_keys_def using c(5-9) by simp
    moreover have "length ?p < 2 ^ 31" "unat ?k \<notin> node_keys ?es" "unat ?k < length ?p"
        "?p ! unat ?k = of_nat (length ?es)" "length ?pos \<le> length ?p"
      using lp c(3,5) unfolding c(2) by simp_all
    moreover have "\<forall>i \<in> node_keys ?es. ?p ! i = ?pos ! i"
    proof
      fix i assume "i \<in> node_keys ?es"
      then show "?p ! i = ?pos ! i" using c(5) by (intro keep) auto
    qed
    ultimately show ?thesis using \<open>take_key H = _\<close> by blast
  qed
qed

lemma insert_alt:
  "ih_insert H value = do {
     assert_run (length (ih_elements H) < unat NO_FREE);
     (G, k) \<leftarrow> take_key H;
     let G = G\<lparr>ih_elements := ih_elements G @ [\<lparr>nd_value = value, nd_key = k\<rparr>]\<rparr>;
     G \<leftarrow> sift_up G (length (ih_elements H));
     Some (G, unat k) }"
  by (simp add: ih_insert_def take_key_def Let_def)

lemma insert_run:
  assumes ok: "heap_ok H" and len: "length (ih_elements H) < 2 ^ 31 - 1"
  shows "\<exists>G k. ih_insert H v = Some (G, k) \<and> heap_ok G \<and> contents H k = None \<and>
    contents G = (contents H)(k \<mapsto> v) \<and> ih_comp G = ih_comp H"
proof -
  let ?es = "ih_elements H" and ?n = "length (ih_elements H)"
  obtain pos head k ks where t: "take_key H = Some (H\<lparr>ih_pos := pos, ih_free_head := head\<rparr>, k)"
      "length pos < 2 ^ 31" "unat k \<notin> node_keys ?es" "unat k < length pos" "pos ! unat k = of_nat ?n"
      "\<forall>j \<in> node_keys ?es. pos ! j = ih_pos H ! j" "length (ih_pos H) \<le> length pos"
      "free_keys ?es pos head ks {unat k}"
    using take_key_run [OF ok len] by blast
  define G where "G = H\<lparr>ih_pos := pos, ih_free_head := head,
    ih_elements := ?es @ [\<lparr>nd_value = v, nd_key = k\<rparr>]\<rparr>"
  have r: "ranks (ih_comp H)" and ord: "heap_order (ih_comp H) ?es" and kd: "keyed ?es (ih_pos H)"
    using ok by (simp_all add: heap_ok_def)
  have old: "unat (nd_key (?es ! i)) < length (ih_pos H)" "ih_pos H ! unat (nd_key (?es ! i)) = of_nat i"
      "unat (nd_key (?es ! i)) \<in> node_keys ?es" if "i < ?n" for i
    using kd that by (auto simp: keyed_def node_keys_def)
  have kG: "keyed (ih_elements G) (ih_pos G)"
    unfolding keyed_def
  proof (intro conjI allI impI)
    show "length (ih_elements G) < 2 ^ 31" using len by (simp add: G_def)
  next
    fix i assume "i < length (ih_elements G)"
    then have "i < ?n \<or> i = ?n" by (auto simp: G_def)
    then show "unat (nd_key (ih_elements G ! i)) < length (ih_pos G)"
      "ih_pos G ! unat (nd_key (ih_elements G ! i)) = of_nat i"
      using old [of i] t(4-7) by (auto simp: G_def nth_append)
  qed
  have fG: "free_keys (ih_elements G) (ih_pos G) (ih_free_head G) ks {}"
    using t(8) by (auto simp: G_def free_keys_def)
  have "up_order (ih_comp G) (ih_elements G) ?n"
    unfolding up_order_def
  proof (intro conjI allI impI)
    fix i assume "i < length (ih_elements G)" "0 < i" "i \<noteq> ?n"
    then have "i < ?n" "par i < ?n" using par_less [of i] by (simp_all add: G_def)
    then show "below (ih_comp G) (ih_elements G) i (par i)"
      using ord \<open>0 < i\<close> by (simp add: G_def heap_order_def below_def nth_append)
  next
    fix i assume "i < length (ih_elements G)" "0 < i" "par i = ?n"
    then show "below (ih_comp G) (ih_elements G) i (par ?n)"
      using par_less [of i] by (simp add: G_def)
  qed
  then obtain es' pos' where s: "sift_up G ?n = Some (G\<lparr>ih_elements := es', ih_pos := pos'\<rparr>)"
      "heap_order (ih_comp G) es'" "resifted (ih_elements G) (ih_pos G) es' pos'"
    using sift_up_run [of G ?n] r kG by (auto simp: G_def)
  have rG: "ranks (ih_comp G)" "length (ih_pos G) < 2 ^ 31" using r t(2) by (simp_all add: G_def)
  note fin = sifted_ok [OF rG kG fG s(2,3)]
  have "ih_insert H v = Some (G\<lparr>ih_elements := es', ih_pos := pos'\<rparr>, unat k)"
    unfolding insert_alt using t(1) s(1) len by (simp add: G_def)
  moreover have none: "contents H (unat k) = None"
    using t(3) dom_contents [of H] by (metis domIff)
  moreover have "contents G = (contents H)(unat k \<mapsto> v)"
  proof -
    have "contents G = [unat k \<mapsto> v] ++ contents H" by (simp add: contents_def G_def)
    also have "\<dots> = contents H ++ [unat k \<mapsto> v]" by (rule map_add_comm) (use none in auto)
    finally show ?thesis by simp
  qed
  ultimately show ?thesis using fin by (auto simp: G_def)
qed

lemma free_keys_release:
  assumes "free_keys es pos head ks {k}" "free_chain pos' head' (k # ks)" "length pos' = length pos"
  shows "free_keys es pos' head' (k # ks) {}"
proof -
  have "set (k # ks) = set ks \<union> {k}" by simp
  then show ?thesis using assms unfolding free_keys_def by (simp only: distinct.simps) blast
qed

lemma free_keys_drop:
  assumes "free_keys (n # es) pos head ks {}" "unat (nd_key n) \<notin> node_keys es"
  shows "free_keys es pos head ks {unat (nd_key n)}"
  using assms unfolding free_keys_def node_keys_simps by blast

lemma release_run:
  assumes k: "unat k < length (ih_pos H)" and lp: "length (ih_pos H) < 2 ^ 31"
    and kd: "keyed (ih_elements H) (ih_pos H)"
    and f: "free_keys (ih_elements H) (ih_pos H) (ih_free_head H) ks {unat k}"
  shows "\<exists>pos. ih_release H k = Some (H\<lparr>ih_pos := pos, ih_free_head := k\<rparr>) \<and>
    keyed (ih_elements H) pos \<and> length pos = length (ih_pos H) \<and>
    free_keys (ih_elements H) pos k (unat k # ks) {}"
proof -
  let ?p = "(ih_pos H)[unat k := FREE_FLAG OR ih_free_head H]"
  have c: "free_chain (ih_pos H) (ih_free_head H) ks" "unat k \<notin> set ks" "distinct ks"
      "unat k \<notin> node_keys (ih_elements H)" "node_keys (ih_elements H) \<inter> set ks = {}"
      "node_keys (ih_elements H) \<union> set ks \<union> {unat k} = {..<length (ih_pos H)}"
    using f by (auto simp: free_keys_def)
  have keep: "?p ! i = ih_pos H ! i" if "i \<noteq> unat k" for i using that by simp
  have "free_chain ?p (ih_free_head H) ks"
    using free_chain_cong [of ?p "ih_pos H" ks "ih_free_head H"] c(1,2) keep by (metis length_list_update)
  moreover have "k \<noteq> NO_FREE"
  proof
    assume "k = NO_FREE"
    then have "unat k = 2 ^ 31 - 1" by simp
    then show False using k lp by simp
  qed
  ultimately have "free_chain ?p k (unat k # ks)"
    using k unflag [OF free_chain_head [OF lp c(1)]] by simp
  then have "free_keys (ih_elements H) ?p k (unat k # ks) {}"
    by (rule free_keys_release [OF f]) simp
  moreover have "keyed (ih_elements H) ?p"
    unfolding keyed_def
  proof (intro conjI allI impI)
    show "length (ih_elements H) < 2 ^ 31" using kd by (simp add: keyed_def)
  next
    fix i assume i: "i < length (ih_elements H)"
    then have "unat (nd_key (ih_elements H ! i)) \<in> node_keys (ih_elements H)"
      by (auto simp: node_keys_def)
    then have "unat (nd_key (ih_elements H ! i)) \<noteq> unat k" using c(4) by metis
    then show "unat (nd_key (ih_elements H ! i)) < length ?p"
      "?p ! unat (nd_key (ih_elements H ! i)) = of_nat i"
      using i kd keep by (simp_all add: keyed_def)
  qed
  ultimately show ?thesis using k by (auto simp: ih_release_def)
qed

lemma pop_empty: "ih_elements H = [] \<Longrightarrow> ih_pop H = Some (None, H)"
  by (simp add: ih_pop_def)

lemma contents_remove:
  assumes "keyed es pos" "es = n # ms"
  shows "map_of (map (\<lambda>n. (unat (nd_key n), nd_value n)) ms) =
    (map_of (map (\<lambda>n. (unat (nd_key n), nd_value n)) es))(unat (nd_key n) := None)"
proof -
  let ?f = "map (\<lambda>n. (unat (nd_key n), nd_value n))"
  have "unat (nd_key n) \<notin> node_keys ms"
  proof
    assume "unat (nd_key n) \<in> node_keys ms"
    then obtain i where "i < length ms" "nd_key (ms ! i) = nd_key n"
      by (auto simp: node_keys_def in_set_conv_nth)
    then show False using keyed_inj [OF assms(1), of 0 "Suc i"] assms(2) by simp
  qed
  then have "map_of (?f ms) (unat (nd_key n)) = None"
    by (auto simp: map_of_eq_None_iff node_keys_def image_image)
  then show ?thesis by (simp add: assms(2) fun_eq_iff)
qed

text \<open>The elements once the root is gone and the last one has taken its place.\<close>

lemma keyed_pop:
  assumes k: "keyed (r # ms @ [l]) pos"
  shows "keyed (l # ms) (pos[unat (nd_key l) := 0])"
proof -
  let ?es = "r # ms @ [l]" and ?p = "pos[unat (nd_key l) := 0]"
  have l: "?es ! Suc (length ms) = l" by simp
  have d: "unat (nd_key (?es ! i)) \<noteq> unat (nd_key l)" if "i < Suc (length ms)" for i
    using keyed_inj [OF k, of i "Suc (length ms)"] that l by auto
  have at: "unat (nd_key (?es ! i)) < length pos" "pos ! unat (nd_key (?es ! i)) = of_nat i"
    if "i < Suc (Suc (length ms))" for i
    using k that by (simp_all add: keyed_def)
  have "unat (nd_key ((l # ms) ! i)) < length ?p \<and> ?p ! unat (nd_key ((l # ms) ! i)) = of_nat i"
    if i: "i < length (l # ms)" for i
  proof (cases i)
    case 0
    then show ?thesis using at(1) [of "Suc (length ms)"] l by simp
  next
    case (Suc j)
    then have "(l # ms) ! i = ?es ! i" using i by (simp add: nth_append)
    then show ?thesis using at [of i] d [of i] i by simp
  qed
  then show ?thesis using k by (simp add: keyed_def)
qed

lemma down_order_pop:
  assumes "heap_order cmp (r # ms @ [l])"
  shows "down_order cmp (l # ms) 0"
  unfolding down_order_def
proof (intro conjI allI impI)
  fix i assume i: "i < length (l # ms)" "0 < i" "par i \<noteq> 0"
  then have eq: "(l # ms) ! i = (r # ms @ [l]) ! i" "(l # ms) ! par i = (r # ms @ [l]) ! par i"
    using par_less [OF i(2)] by (auto simp: nth_Cons' nth_append)
  have "below cmp (r # ms @ [l]) i (par i)"
    using assms i(1,2) by (simp add: heap_order_def)
  then show "below cmp (l # ms) i (par i)" unfolding below_def eq .
qed simp

lemma top_is_first:
  assumes "heap_ok H" "ih_elements H = r # ms" "contents H k = Some v"
  shows "\<not> ih_comp H v (nd_value r)"
proof -
  have "\<exists>i < length (ih_elements H). nd_value (ih_elements H ! i) = v"
    using contents_in_elements [OF assms(3)] by (metis in_set_conv_nth)
  then obtain i where "i < length (ih_elements H)" "nd_value (ih_elements H ! i) = v" by blast
  moreover have "below (ih_comp H) (ih_elements H) i 0"
    using heap_order_top calculation(1) assms(1) by (auto simp: heap_ok_def)
  ultimately show ?thesis using assms(2) by (simp add: below_def)
qed

lemma contents_root:
  assumes "heap_ok H" "ih_elements H = r # ms"
  shows "contents H (unat (nd_key r)) = Some (nd_value r)"
  using assms by (auto simp: heap_ok_def contents_iff)

lemma pop_run:
  assumes ok: "heap_ok H" and es: "ih_elements H = r # rest"
  shows "\<exists>G. ih_pop H = Some (Some (nd_value r), G) \<and> heap_ok G \<and>
    contents G = (contents H)(unat (nd_key r) := None) \<and> ih_comp G = ih_comp H \<and>
    length (ih_elements G) = length rest"
proof -
  obtain ks where ks: "free_keys (r # rest) (ih_pos H) (ih_free_head H) ks {}"
    using ok es by (auto simp: heap_ok_def)
  have rk: "ranks (ih_comp H)" and kd: "keyed (r # rest) (ih_pos H)"
      and ord: "heap_order (ih_comp H) (r # rest)" and lp: "length (ih_pos H) < 2 ^ 31"
    using ok es by (auto simp: heap_ok_def)
  have fresh: "unat (nd_key r) \<notin> node_keys rest"
  proof
    assume "unat (nd_key r) \<in> node_keys rest"
    then obtain i where "i < length rest" "nd_key (rest ! i) = nd_key r"
      by (auto simp: node_keys_def in_set_conv_nth)
    then show False using keyed_inj [OF kd, of 0 "Suc i"] by simp
  qed
  have rb: "unat (nd_key r) < length (ih_pos H)" using keyed_bound [OF kd] by simp
  have f: "free_keys rest (ih_pos H) (ih_free_head H) ks {unat (nd_key r)}"
    using ks fresh by (auto simp: free_keys_def)
  have c: "contents H = map_of (map (\<lambda>n. (unat (nd_key n), nd_value n)) (r # rest))"
    by (simp add: contents_def es)
  show ?thesis
  proof (cases rest rule: rev_cases)
    case Nil
    let ?H = "H\<lparr>ih_elements := []\<rparr>"
    have "keyed ([] :: 'a node list) (ih_pos H)" by (simp add: keyed_def)
    then have "\<exists>pos. ih_release ?H (nd_key r) = Some (?H\<lparr>ih_pos := pos, ih_free_head := nd_key r\<rparr>) \<and>
        keyed (ih_elements ?H) pos \<and> length pos = length (ih_pos ?H) \<and>
        free_keys (ih_elements ?H) pos (nd_key r) (unat (nd_key r) # ks) {}"
      using rb lp f Nil by (intro release_run) simp_all
    then obtain pos where q: "ih_release ?H (nd_key r) = Some (?H\<lparr>ih_pos := pos, ih_free_head := nd_key r\<rparr>) \<and>
        keyed (ih_elements ?H) pos \<and> length pos = length (ih_pos ?H) \<and>
        free_keys (ih_elements ?H) pos (nd_key r) (unat (nd_key r) # ks) {}"
      by (elim exE)
    then have p: "ih_release ?H (nd_key r) = Some (?H\<lparr>ih_pos := pos, ih_free_head := nd_key r\<rparr>)"
        "length pos = length (ih_pos H)" "free_keys (ih_elements ?H) pos (nd_key r) (unat (nd_key r) # ks) {}"
      by simp_all
    let ?G = "?H\<lparr>ih_pos := pos, ih_free_head := nd_key r\<rparr>"
    have "ih_pop H = Some (Some (nd_value r), ?G)"
      using p(1) es Nil by (simp add: ih_pop_def Let_def)
    moreover have "heap_ok ?G"
      using p(2,3) rk lp by (auto simp: heap_ok_def keyed_def heap_order_def)
    moreover have "contents ?G = (contents H)(unat (nd_key r) := None)"
      unfolding c by (simp add: contents_def Nil)
    ultimately show ?thesis using Nil by auto
  next
    case (snoc ms l)
    let ?pos = "(ih_pos H)[unat (nd_key l) := 0]"
    let ?H = "H\<lparr>ih_elements := l # ms, ih_pos := ?pos\<rparr>"
    have k1: "keyed (l # ms) ?pos" using keyed_pop kd snoc by metis
    have nk: "node_keys (l # ms) = node_keys rest" by (auto simp: snoc)
    have "\<not> unat (nd_key l) \<in> set ks" "unat (nd_key l) < length (ih_pos H)"
      using f keyed_bound [OF kd] by (auto simp: free_keys_def snoc)
    then have "free_chain ?pos (ih_free_head H) ks"
      using free_chain_cong [of ?pos "ih_pos H" ks "ih_free_head H"] f
      by (metis free_keys_def length_list_update nth_list_update_neq)
    then have f1: "free_keys (l # ms) ?pos (ih_free_head H) ks {unat (nd_key r)}"
      using f unfolding free_keys_def nk by simp
    obtain pos where p: "ih_release ?H (nd_key r) = Some (?H\<lparr>ih_pos := pos, ih_free_head := nd_key r\<rparr>)"
        "keyed (l # ms) pos" "length pos = length (ih_pos H)"
        "free_keys (l # ms) pos (nd_key r) (unat (nd_key r) # ks) {}"
      using release_run [of "nd_key r" ?H ks] rb lp f1 k1 by auto
    define K where "K = ?H\<lparr>ih_pos := pos, ih_free_head := nd_key r\<rparr>"
    have K: "ranks (ih_comp K)" "keyed (ih_elements K) (ih_pos K)" "length (ih_pos K) < 2 ^ 31"
        "free_keys (ih_elements K) (ih_pos K) (ih_free_head K) (unat (nd_key r) # ks) {}"
        "ih_elements K = l # ms" "ih_comp K = ih_comp H"
      using p rk lp by (simp_all add: K_def)
    have "down_order (ih_comp K) (ih_elements K) 0"
      unfolding K(5,6) by (rule down_order_pop) (use ord snoc in simp)
    then obtain es' pos' where s: "sift_down K 0 = Some (K\<lparr>ih_elements := es', ih_pos := pos'\<rparr>)"
        "heap_order (ih_comp K) es'" "resifted (ih_elements K) (ih_pos K) es' pos'"
      using sift_down_run [OF K(1,2), of 0] K(5) by auto
    note fin = sifted_ok [OF K(1,3,2,4) s(2,3)]
    have len: "length es' = length rest" using resifted_length [OF s(3)] K(5) snoc by simp
    have lk: "unat (nd_key l) < length (ih_pos H)" using keyed_bound [OF kd] by (simp add: snoc)
    have "ih_pop H = Some (Some (nd_value r), K\<lparr>ih_elements := es', ih_pos := pos'\<rparr>)"
      using p(1) s(1) lk es snoc by (simp add: ih_pop_def Let_def K_def butlast_append)
    moreover have "contents K = (contents H)(unat (nd_key r) := None)"
    proof -
      have "map_of (map (\<lambda>n. (unat (nd_key n), nd_value n)) rest) =
          (contents H)(unat (nd_key r) := None)"
        unfolding c by (rule contents_remove [OF kd refl])
      moreover have "contents K = map_of (map (\<lambda>n. (unat (nd_key n), nd_value n)) rest)"
      proof -
        have "unat (nd_key l) \<notin> node_keys ms"
        proof
          assume "unat (nd_key l) \<in> node_keys ms"
          then obtain i where "i < length ms" "nd_key (ms ! i) = nd_key l"
            by (auto simp: node_keys_def in_set_conv_nth)
          then show False using keyed_inj [OF k1, of 0 "Suc i"] by simp
        qed
        then have "map_of (map (\<lambda>n. (unat (nd_key n), nd_value n)) ms) (unat (nd_key l)) = None"
          by (auto simp: map_of_eq_None_iff node_keys_def image_image)
        then show ?thesis
          by (simp add: contents_def K(5) snoc map_of_append map_add_upd_left map_add_def fun_eq_iff
              split: option.split)
      qed
      ultimately show ?thesis by simp
    qed
    ultimately show ?thesis using fin len K(6) by auto
  qed
qed

text \<open>An update works even when the comparison reads a store that has changed since the heap was
  last put in order, as long as it has only changed for the updated element.\<close>

definition agrees_except :: "('a \<Rightarrow> 'a \<Rightarrow> bool) \<Rightarrow> 'a indexed_heap \<Rightarrow> nat \<Rightarrow> bool" where
  "agrees_except cmp H k \<longleftrightarrow> (\<forall>j l u v. j \<noteq> k \<longrightarrow> l \<noteq> k \<longrightarrow> contents H j = Some u \<longrightarrow>
     contents H l = Some v \<longrightarrow> ih_comp H u v = cmp u v)"

lemma update_moves:
  assumes ok: "heap_ok (H\<lparr>ih_comp := cmp\<rparr>)" and rk: "ranks (ih_comp H)"
    and agree: "agrees_except cmp H k" and old: "contents H k = Some u"
  shows "\<exists>G. ih_update H k v = Some G \<and> heap_ok G \<and> contents G = (contents H)(k \<mapsto> v) \<and>
    ih_comp G = ih_comp H \<and> length (ih_elements G) = length (ih_elements H)"
proof -
  let ?es = "ih_elements H" and ?cmp = "ih_comp H"
  have rk0: "ranks cmp" and kd: "keyed ?es (ih_pos H)" and ord: "heap_order cmp ?es"
      and lp: "length (ih_pos H) < 2 ^ 31"
    using ok by (simp_all add: heap_ok_def)
  obtain ks where ks: "free_keys ?es (ih_pos H) (ih_free_head H) ks {}" using ok by (auto simp: heap_ok_def)
  obtain i where i: "i < length ?es" "unat (nd_key (?es ! i)) = k"
    using contents_in_elements [OF old] by (metis in_set_conv_nth)
  have lb: "length ?es < 2 ^ 31" using kd by (simp add: keyed_def)
  have p: "k < length (ih_pos H)" "unat (ih_pos H ! k) = i"
    using kd i lb unat_of_nat_key [of i] unfolding keyed_def by (metis, metis less_trans)
  let ?new = "?es[i := (?es ! i)\<lparr>nd_value := v\<rparr>]"
  define K where "K = H\<lparr>ih_elements := ?new\<rparr>"
  have key: "nd_key (?new ! j) = nd_key (?es ! j)" if "j < length ?es" for j
    by (cases "j = i") (use that in simp_all)
  have nk: "node_keys ?new = node_keys ?es"
  proof -
    have "map nd_key ?new = map nd_key ?es" by (rule nth_equalityI) (simp_all add: key)
    then have "nd_key ` set ?new = nd_key ` set ?es" by (metis set_map)
    then show ?thesis unfolding node_keys_def image_comp [symmetric] by simp
  qed
  have K: "ranks (ih_comp K)" "length (ih_pos K) < 2 ^ 31" "keyed (ih_elements K) (ih_pos K)"
      "free_keys (ih_elements K) (ih_pos K) (ih_free_head K) ks {}" "i < length (ih_elements K)"
    using rk lp kd ks i(1) by (simp_all add: K_def keyed_def key free_keys_def nk)
  have cK: "contents K = (contents H)(k \<mapsto> v)"
  proof (rule ext)
    fix j
    have inK: "contents K j = Some w \<longleftrightarrow> (\<exists>l < length ?es. unat (nd_key (?new ! l)) = j \<and> nd_value (?new ! l) = w)" for w
      unfolding contents_nth [OF K(3)] by (simp add: K_def)
    have inH: "contents H j = Some w \<longleftrightarrow> (\<exists>l < length ?es. unat (nd_key (?es ! l)) = j \<and> nd_value (?es ! l) = w)" for w
      by (rule contents_nth [OF kd])
    have other: "l \<noteq> i" if "unat (nd_key (?es ! l)) = j" "j \<noteq> k" for l using that i(2) by auto
    have same: "l = i" if "unat (nd_key (?es ! l)) = k" "l < length ?es" for l
      using keyed_inj [OF kd that(2) i(1)] unat_key_eq that(1) i(2) by metis
    show "contents K j = ((contents H)(k \<mapsto> v)) j"
    proof (cases "j = k")
      case True
      have "contents K k = Some v"
        using inK [of v] i key [OF i(1)] by (auto simp: True)
      then show ?thesis by (simp add: True)
    next
      case False
      have "contents K j = Some w \<longleftrightarrow> contents H j = Some w" for w
        unfolding inK inH using key other False by (metis nth_list_update_neq)
      then show ?thesis using False by (metis fun_upd_other not_None_eq)
    qed
  qed
  have there: "contents H (unat (nd_key (?es ! a))) = Some (nd_value (?es ! a)) \<and>
      unat (nd_key (?es ! a)) \<noteq> k" if "a < length ?es" "a \<noteq> i" for a
    using contents_nth [OF kd] keyed_inj [OF kd that(1) i(1)] that i(2) unat_key_eq by metis
  have new_below: "below ?cmp ?new a b \<longleftrightarrow> below cmp ?es a b"
    if "a \<noteq> i" "b \<noteq> i" "a < length ?es" "b < length ?es" for a b
    using agree there [OF that(3,1)] there [OF that(4,2)] that(1,2)
    unfolding agrees_except_def below_def by (metis nth_list_update_neq)
  have ordD: "below cmp ?es a (par a)" if "a < length ?es" "0 < a" for a
    using ord that by (simp add: heap_order_def)
  have grand: "below ?cmp ?new a (par i)" if "a < length ?es" "0 < a" "par a = i" "0 < i" for a
  proof -
    have "below cmp ?es a (par i)"
      using below_trans [OF rk0 ordD [OF that(1,2)]] ordD [OF i(1) that(4)] that(3) by simp
    then show ?thesis
      using new_below [of a "par i"] par_less [OF that(2)] par_less [OF that(4)] that(1,3) i(1) by simp
  qed
  define out where "out \<longleftrightarrow> 0 < i \<and> \<not> below ?cmp ?new i (par i)"
  have run: "ih_update H k v = (if out then sift_up K i else sift_down K i)"
  proof -
    have "par i < length ?es" if "0 < i" using par_less [OF that] i(1) by simp
    then show ?thesis
      using p i(1) by (simp add: ih_update_def K_def out_def below_def Let_def)
  qed
  have "\<exists>es pos. ih_update H k v = Some (K\<lparr>ih_elements := es, ih_pos := pos\<rparr>) \<and>
    heap_order (ih_comp K) es \<and> resifted (ih_elements K) (ih_pos K) es pos"
  proof (cases out)
    case True
    then have o: "0 < i" "\<not> below ?cmp ?new i (par i)" by (simp_all add: out_def)
    have pn: "below ?cmp ?new (par i) i"
      using o(2) ranks_asym [OF rk] unfolding below_def by blast
    have "up_order (ih_comp K) (ih_elements K) i"
      unfolding up_order_def
    proof (intro conjI allI impI)
      fix a assume a: "a < length (ih_elements K)" "0 < a" "a \<noteq> i"
      show "below (ih_comp K) (ih_elements K) a (par a)"
      proof (cases "par a = i")
        case True
        have "below ?cmp ?new a (par i)" using grand [OF _ a(2) True o(1)] a(1) by (simp add: K_def)
        then show ?thesis using below_trans [OF rk _ pn] True by (simp add: K_def)
      next
        case False
        then show ?thesis
          using ordD [of a] new_below [of a "par a"] par_less [OF a(2)] a by (simp add: K_def)
      qed
    next
      fix a assume "a < length (ih_elements K)" "0 < a" "par a = i" "0 < i"
      then show "below (ih_comp K) (ih_elements K) a (par i)" using grand by (simp add: K_def)
    qed
    then show ?thesis using sift_up_run [OF K(1,3,5)] run True by simp
  next
    case False
    have "down_order (ih_comp K) (ih_elements K) i"
      unfolding down_order_def
    proof (intro conjI allI impI)
      fix a assume a: "a < length (ih_elements K)" "0 < a" "par a \<noteq> i"
      show "below (ih_comp K) (ih_elements K) a (par a)"
      proof (cases "a = i")
        case True
        then show ?thesis using False a by (simp add: K_def out_def)
      next
        case False
        then show ?thesis
          using ordD [of a] new_below [of a "par a"] par_less [OF a(2)] a by (simp add: K_def)
      qed
    next
      fix a assume "a < length (ih_elements K)" "0 < a" "par a = i" "0 < i"
      then show "below (ih_comp K) (ih_elements K) a (par i)" using grand by (simp add: K_def)
    qed
    then show ?thesis using sift_down_run [OF K(1,3,5)] run False by simp
  qed
  then obtain es pos where s: "ih_update H k v = Some (K\<lparr>ih_elements := es, ih_pos := pos\<rparr>)"
      "heap_order (ih_comp K) es" "resifted (ih_elements K) (ih_pos K) es pos" by blast
  note fin = sifted_ok [OF K(1-4) s(2,3)]
  have "length es = length ?es" using resifted_length [OF s(3)] by (simp add: K_def)
  then show ?thesis using s(1) fin cK by (simp add: K_def)
qed

lemma update_live:
  assumes "heap_ok H" "contents H k = Some u"
  shows "\<exists>G. ih_update H k v = Some G \<and> heap_ok G \<and> contents G = (contents H)(k \<mapsto> v) \<and>
    ih_comp G = ih_comp H \<and> length (ih_elements G) = length (ih_elements H)"
  using assms by (intro update_moves [where cmp = "ih_comp H"]) (simp_all add: agrees_except_def heap_ok_def)

lemma update_stale:
  assumes ok: "heap_ok H" and none: "contents H k = None"
  shows "ih_update H k v = None"
proof (cases "k < length (ih_pos H)")
  case True
  have kd: "keyed (ih_elements H) (ih_pos H)" using ok by (simp add: heap_ok_def)
  obtain ks where ks: "free_keys (ih_elements H) (ih_pos H) (ih_free_head H) ks {}"
    using ok by (auto simp: heap_ok_def)
  have "k \<notin> node_keys (ih_elements H)" using none dom_contents [of H] by (metis domIff)
  then have "k \<in> set ks" using ks True by (auto simp: free_keys_def)
  then have "bit (ih_pos H ! k) 31"
    using ks free_chain_flag [of "ih_pos H" "ih_free_head H" ks k] by (simp add: free_keys_def)
  from flagged_key [OF this] have "\<not> unat (ih_pos H ! k) < length (ih_elements H)"
    using kd by (simp add: keyed_def)
  then show ?thesis using True by (simp add: ih_update_def Let_def)
qed (simp add: ih_update_def)

lemma get_run:
  assumes ok: "heap_ok H"
  shows "ih_get H k = Some (contents H k)"
proof -
  have kd: "keyed (ih_elements H) (ih_pos H)" using ok by (simp add: heap_ok_def)
  have lb: "length (ih_elements H) < 2 ^ 31" using kd by (simp add: keyed_def)
  obtain ks where ks: "free_keys (ih_elements H) (ih_pos H) (ih_free_head H) ks {}"
    using ok by (auto simp: heap_ok_def)
  show ?thesis
  proof (cases "contents H k")
    case None
    have "index_of H k = None"
    proof (cases "k < length (ih_pos H)")
      case True
      have "k \<notin> node_keys (ih_elements H)" using None dom_contents [of H] by (metis domIff)
      then have "bit (ih_pos H ! k) 31"
        using ks True free_chain_flag [of "ih_pos H" "ih_free_head H" ks k] by (auto simp: free_keys_def)
      then have "bit (ih_pos H ! k AND FREE_FLAG) 31" by (simp add: bit_and_iff)
      then show ?thesis using True by (auto simp: index_of_def)
    qed (simp add: index_of_def)
    then show ?thesis using None by (simp add: ih_get_def)
  next
    case (Some v)
    then obtain i where i: "i < length (ih_elements H)" "unat (nd_key (ih_elements H ! i)) = k"
        "nd_value (ih_elements H ! i) = v"
      using contents_nth [OF kd] by blast
    then have p: "k < length (ih_pos H)" "ih_pos H ! k = of_nat i" using kd by (auto simp: keyed_def)
    have "\<not> bit (ih_pos H ! k) 31" unfolding p(2) using i(1) lb by (intro of_nat_key_bit) simp
    then have "ih_pos H ! k AND FREE_FLAG = 0" by (intro bit_eqI) (auto simp: bit_and_iff)
    moreover have "unat (of_nat i :: key) = i" using i(1) lb by (intro unat_of_nat_key) simp
    ultimately have "index_of H k = Some i" using p by (simp add: index_of_def)
    then show ?thesis using i Some by (simp add: ih_get_def)
  qed
qed

lemma clear_loop_run:
  "free_keys es (ih_pos H) (ih_free_head H) ks {} \<Longrightarrow>
   distinct (map nd_key es) \<and> node_keys es \<subseteq> {..<length (ih_pos H)} \<Longrightarrow> length (ih_pos H) < 2 ^ 31 \<Longrightarrow>
   \<exists>G js. ih_clear_loop es H = Some G \<and> ih_elements G = [] \<and> length (ih_pos G) = length (ih_pos H) \<and>
     free_keys (ih_elements G) (ih_pos G) (ih_free_head G) js {} \<and> ih_comp G = ih_comp H"
proof (induction es arbitrary: H ks)
  case (Cons n es)
  have nk: "unat (nd_key n) \<notin> node_keys es" using Cons.prems(2) by (auto simp: node_keys_def)
  have c: "free_chain (ih_pos H) (ih_free_head H) ks" "distinct ks" "unat (nd_key n) \<notin> set ks"
    using Cons.prems(1) by (auto simp: free_keys_def)
  let ?pos = "(ih_pos H)[unat (nd_key n) := FREE_FLAG OR ih_free_head H]"
  let ?G = "H\<lparr>ih_pos := ?pos, ih_free_head := nd_key n\<rparr>"
  have b: "unat (nd_key n) < length (ih_pos H)" using Cons.prems(2) by simp
  have r: "ih_release H (nd_key n) = Some ?G" using b by (simp add: ih_release_def)
  have "free_chain ?pos (ih_free_head H) ks"
    using free_chain_cong [of ?pos "ih_pos H" ks "ih_free_head H"] c by (metis length_list_update nth_list_update_neq)
  moreover have "nd_key n \<noteq> NO_FREE"
  proof
    assume "nd_key n = NO_FREE"
    then have "unat (nd_key n) = 2 ^ 31 - 1" by simp
    then show False using b Cons.prems(3) by simp
  qed
  ultimately have "free_chain ?pos (nd_key n) (unat (nd_key n) # ks)"
    using b unflag [OF free_chain_head [OF Cons.prems(3) c(1)]] by simp
  then have "free_keys es ?pos (nd_key n) (unat (nd_key n) # ks) {}"
    by (rule free_keys_release [OF free_keys_drop [OF Cons.prems(1) nk]]) simp
  then have "free_keys es (ih_pos ?G) (ih_free_head ?G) (unat (nd_key n) # ks) {}"
    by (simp del: free_chain.simps)
  moreover have "distinct (map nd_key es) \<and> node_keys es \<subseteq> {..<length (ih_pos ?G)}"
    using Cons.prems(2) by simp
  ultimately obtain K js where "ih_clear_loop es ?G = Some K" "ih_elements K = []"
      "length (ih_pos K) = length (ih_pos ?G)" "free_keys (ih_elements K) (ih_pos K) (ih_free_head K) js {}"
      "ih_comp K = ih_comp ?G"
    using Cons.IH [of ?G "unat (nd_key n) # ks"] Cons.prems(3) by auto
  then show ?case using r by auto
qed (auto simp: free_keys_def)

lemma clear_run:
  assumes ok: "heap_ok H"
  shows "\<exists>G. ih_clear H = Some G \<and> heap_ok G \<and> contents G = Map.empty \<and> ih_comp G = ih_comp H"
proof -
  have kd: "keyed (ih_elements H) (ih_pos H)" using ok by (simp add: heap_ok_def)
  obtain ks where ks: "free_keys (ih_elements H) (ih_pos H) (ih_free_head H) ks {}"
    using ok by (auto simp: heap_ok_def)
  have "distinct (map nd_key (ih_elements H))"
    unfolding distinct_conv_nth using keyed_inj [OF kd] by auto
  then have d: "distinct (map nd_key (rev (ih_elements H)))" by (simp add: rev_map [symmetric])
  have n: "node_keys (rev (ih_elements H)) = node_keys (ih_elements H)" by (simp add: node_keys_def)
  have f: "free_keys (rev (ih_elements H)) (ih_pos H) (ih_free_head H) ks {}"
    using ks by (simp add: free_keys_def n)
  have s: "node_keys (rev (ih_elements H)) \<subseteq> {..<length (ih_pos H)}"
    unfolding n using ks by (auto simp: free_keys_def)
  have "length (ih_pos H) < 2 ^ 31" using ok by (simp add: heap_ok_def)
  from clear_loop_run [OF f conjI [OF d s] this] ok
  show ?thesis
    by (auto simp: ih_clear_def heap_ok_def keyed_def heap_order_def contents_def)
qed

section \<open>The interface\<close>

text \<open>A priority queue whose elements can be reached by key: \<open>items\<close> is the map from live keys
  to elements, \<open>before\<close> the order it serves them in, \<open>room\<close> says that one more fits.\<close>

definition items_bag :: "(nat \<rightharpoonup> 'a) \<Rightarrow> 'a multiset" where
  "items_bag m = image_mset (\<lambda>k. the (m k)) (mset_set (dom m))"

text \<open>Taking until nothing is left.\<close>

fun drain :: "('h \<Rightarrow> ('a option \<times> 'h) option) \<Rightarrow> nat \<Rightarrow> 'h \<Rightarrow> 'a list option" where
  "drain serve 0 h = None"
| "drain serve (Suc n) h =
     (case serve h of
        None \<Rightarrow> None
      | Some (None, g) \<Rightarrow> Some []
      | Some (Some v, g) \<Rightarrow> map_option (Cons v) (drain serve n g))"

locale keyed_queue =
  fixes inv :: "'h \<Rightarrow> bool"
    and items :: "'h \<Rightarrow> nat \<rightharpoonup> 'a"
    and before :: "'h \<Rightarrow> 'a \<Rightarrow> 'a \<Rightarrow> bool"
    and room :: "'h \<Rightarrow> bool"
    and put :: "'h \<Rightarrow> 'a \<Rightarrow> ('h \<times> nat) option"
    and change :: "'h \<Rightarrow> nat \<Rightarrow> 'a \<Rightarrow> 'h option"
    and serve :: "'h \<Rightarrow> ('a option \<times> 'h) option"
  assumes finite_items: "inv h \<Longrightarrow> finite (dom (items h))"
    and order: "inv h \<Longrightarrow> ranks (before h)"
    and put_ok: "inv h \<Longrightarrow> room h \<Longrightarrow> \<exists>g k. put h v = Some (g, k) \<and> inv g \<and> items h k = None \<and>
      items g = (items h)(k \<mapsto> v) \<and> before g = before h"
    and change_ok: "inv h \<Longrightarrow> items h k = Some u \<Longrightarrow> \<exists>g. change h k v = Some g \<and> inv g \<and>
      items g = (items h)(k \<mapsto> v) \<and> before g = before h"
    and serve_none: "inv h \<Longrightarrow> items h = Map.empty \<Longrightarrow> serve h = Some (None, h)"
    and serve_some: "inv h \<Longrightarrow> items h \<noteq> Map.empty \<Longrightarrow> \<exists>k v g. serve h = Some (Some v, g) \<and> inv g \<and>
      items h k = Some v \<and> items g = (items h)(k := None) \<and> before g = before h \<and>
      (\<forall>l w. items h l = Some w \<longrightarrow> \<not> before h w v)"
begin

abbreviation bag :: "'h \<Rightarrow> 'a multiset" where
  "bag h \<equiv> items_bag (items h)"

lemma bag_remove:
  assumes "inv h" "items h k = Some v" "items g = (items h)(k := None)"
  shows "bag h = add_mset v (bag g)"
proof -
  let ?D = "dom (items h)"
  have f: "finite ?D" using assms(1) by (rule finite_items)
  have d: "dom (items g) = ?D - {k}" using assms(3) by auto
  have k: "k \<in> ?D" using assms(2) by auto
  have "mset_set ?D = add_mset k (mset_set (?D - {k}))"
    using f k by (metis mset_set.remove)
  moreover have "image_mset (\<lambda>j. the (items g j)) (mset_set (?D - {k})) =
      image_mset (\<lambda>j. the (items h j)) (mset_set (?D - {k}))"
    using f assms(3) by (intro image_mset_cong) auto
  ultimately show ?thesis using assms(2) by (simp add: items_bag_def d)
qed

lemma bag_put:
  assumes "inv g" "items h k = None" "items g = (items h)(k \<mapsto> v)"
  shows "bag g = add_mset v (bag h)"
proof (rule bag_remove [OF assms(1)])
  show "items g k = Some v" using assms(3) by simp
  show "items h = (items g)(k := None)" using assms(2,3) by (auto simp: fun_eq_iff)
qed

lemma drain_in_order:
  "inv h \<Longrightarrow> size (bag h) < n \<Longrightarrow>
   \<exists>vs. drain serve n h = Some vs \<and> mset vs = bag h \<and> sorted_wrt (\<lambda>a b. \<not> before h b a) vs"
proof (induction n arbitrary: h)
  case (Suc n)
  show ?case
  proof (cases "items h = Map.empty")
    case True
    then show ?thesis using serve_none [OF Suc.prems(1)] by (simp add: items_bag_def)
  next
    case False
    then obtain k v g where t: "serve h = Some (Some v, g)" "inv g" "items h k = Some v"
        "items g = (items h)(k := None)" "before g = before h"
        "\<forall>l w. items h l = Some w \<longrightarrow> \<not> before h w v"
      using serve_some [OF Suc.prems(1)] by blast
    have b: "bag h = add_mset v (bag g)" by (rule bag_remove [OF Suc.prems(1) t(3,4)])
    then obtain vs where vs: "drain serve n g = Some vs" "mset vs = bag g"
        "sorted_wrt (\<lambda>a b. \<not> before g b a) vs"
      using Suc.IH [OF t(2)] Suc.prems(2) by auto
    have "\<not> before h w v" if "w \<in> set vs" for w
    proof -
      have "w \<in># bag g" using that vs(2) by (metis set_mset_mset)
      then obtain l where "l \<in> dom (items g)" "w = the (items g l)"
        using finite_items [OF t(2)] by (auto simp: items_bag_def)
      then have "items h l = Some w" using t(4) by (auto split: if_splits)
      then show ?thesis using t(6) by blast
    qed
    then show ?thesis using t(1,5) vs b by auto
  qed
qed simp

end

definition heap_room :: "'a indexed_heap \<Rightarrow> bool" where
  "heap_room H \<longleftrightarrow> length (ih_elements H) < 2 ^ 31 - 1"

lemma contents_empty: "contents H = Map.empty \<longleftrightarrow> ih_elements H = []"
  using dom_contents [of H] by (cases "ih_elements H") auto

lemma pop_some:
  assumes ok: "heap_ok H" and ne: "contents H \<noteq> Map.empty"
  shows "\<exists>k v G. ih_pop H = Some (Some v, G) \<and> heap_ok G \<and> contents H k = Some v \<and>
    contents G = (contents H)(k := None) \<and> ih_comp G = ih_comp H \<and>
    (\<forall>l w. contents H l = Some w \<longrightarrow> \<not> ih_comp H w v)"
proof -
  obtain r rest where es: "ih_elements H = r # rest"
    using ne contents_empty by (metis neq_Nil_conv)
  obtain G where "ih_pop H = Some (Some (nd_value r), G)" "heap_ok G"
      "contents G = (contents H)(unat (nd_key r) := None)" "ih_comp G = ih_comp H"
    using pop_run [OF ok es] by blast
  moreover have "\<forall>l w. contents H l = Some w \<longrightarrow> \<not> ih_comp H w (nd_value r)"
    using top_is_first [OF ok es] by blast
  ultimately show ?thesis using contents_root [OF ok es] by blast
qed

interpretation heapq: keyed_queue heap_ok contents ih_comp heap_room ih_insert ih_update ih_pop
proof (unfold_locales, goal_cases)
  case (1 h)
  have "finite (node_keys (ih_elements h))" by (simp add: node_keys_def)
  then show ?case by (simp only: dom_contents)
next
  case (2 h)
  then show ?case by (simp add: heap_ok_def)
next
  case (3 h v)
  show ?case by (rule insert_run) (use 3 in \<open>simp_all add: heap_room_def\<close>)
next
  case (4 h k u v)
  obtain g where "ih_update h k v = Some g" "heap_ok g" "contents g = (contents h)(k \<mapsto> v)"
      "ih_comp g = ih_comp h"
    using update_live [OF 4] by blast
  then show ?case by blast
next
  case (5 h)
  show ?case by (rule pop_empty) (use 5 contents_empty [of h] in simp)
next
  case (6 h)
  then show ?case by (rule pop_some)
qed

section \<open>Properties\<close>

text \<open>Inserting a list of values, one after the other.\<close>

primrec heap_of :: "('a \<Rightarrow> 'a \<Rightarrow> bool) \<Rightarrow> 'a list \<Rightarrow> 'a indexed_heap option" where
  "heap_of cmp [] = Some (ih_new cmp)"
| "heap_of cmp (x # xs) = do { H \<leftarrow> heap_of cmp xs; (H, k) \<leftarrow> ih_insert H x; Some H }"

lemma heap_of_run:
  assumes "ranks cmp"
  shows "length xs < 2 ^ 31 \<Longrightarrow> \<exists>H. heap_of cmp xs = Some H \<and> heap_ok H \<and> ih_comp H = cmp \<and>
    items_bag (contents H) = mset xs \<and> length (ih_elements H) = length xs"
proof (induction xs)
  case Nil
  then show ?case using heap_new_ok [OF assms] by (simp add: items_bag_def) (simp add: ih_new_def)
next
  case (Cons x xs)
  then obtain H where H: "heap_of cmp xs = Some H" "heap_ok H" "ih_comp H = cmp"
      "items_bag (contents H) = mset xs" "length (ih_elements H) = length xs" by auto
  obtain G k where G: "ih_insert H x = Some (G, k)" "heap_ok G" "contents H k = None"
      "contents G = (contents H)(k \<mapsto> x)" "ih_comp G = ih_comp H"
    using insert_run [OF H(2), of x] H(5) Cons.prems by auto
  have b: "items_bag (contents G) = mset (x # xs)"
    using heapq.bag_put [OF G(2-4)] H(4) by simp
  have "length (ih_elements G) = card (node_keys (ih_elements G))"
    using keyed_card G(2) by (metis heap_ok_def)
  also have "\<dots> = card (dom (contents G))" by (simp only: dom_contents)
  also have "\<dots> = size (items_bag (contents G))" by (simp add: items_bag_def)
  finally show ?case using H(1,3) G b by simp
qed

text \<open>
  C28. Inserting any values and popping until the heap is empty returns: every value comes back
  exactly once, and none comes before one that the comparison puts ahead of it.
\<close>

theorem heap_sorts:
  assumes "ranks cmp" "length xs < 2 ^ 31"
  shows "\<exists>H vs. heap_of cmp xs = Some H \<and> drain ih_pop (Suc (length xs)) H = Some vs \<and>
    mset vs = mset xs \<and> sorted_wrt (\<lambda>a b. \<not> cmp b a) vs"
proof -
  obtain H where H: "heap_of cmp xs = Some H" "heap_ok H" "ih_comp H = cmp"
      "items_bag (contents H) = mset xs"
    using heap_of_run [OF assms] by blast
  then show ?thesis using heapq.drain_in_order [OF H(2), of "Suc (length xs)"] by auto
qed

lemma ranks_nat: "ranks ((<) :: nat \<Rightarrow> nat \<Rightarrow> bool)"
  unfolding ranks_def by auto

theorem heap_sorts_witness:
  "\<exists>H vs. heap_of (<) [3, 1, 2 :: nat] = Some H \<and>
    drain ih_pop (Suc (length [3, 1, 2 :: nat])) H = Some vs \<and>
    mset vs = mset [3, 1, 2] \<and> sorted_wrt (\<lambda>a b. \<not> b < a) vs"
  by (rule heap_sorts) (simp_all add: ranks_nat)

text \<open>
  C18. The heap is a map from live keys to values: insertion returns a key that was not in use and
  maps it, a lookup reads the map, an update changes it when the key is live and panics when it is
  not, clearing empties it, and popping takes out a value that nothing else goes before, or reports
  that the heap is empty.
\<close>

theorem heap_is_a_map:
  assumes "heap_ok H" "heap_room H"
  shows "(\<exists>G j. ih_insert H v = Some (G, j) \<and> heap_ok G \<and> contents H j = None \<and>
      contents G = (contents H)(j \<mapsto> v)) \<and>
    ih_get H k = Some (contents H k) \<and>
    (case contents H k of
       None \<Rightarrow> ih_update H k v = None
     | Some u \<Rightarrow> \<exists>G. ih_update H k v = Some G \<and> heap_ok G \<and> contents G = (contents H)(k \<mapsto> v)) \<and>
    (\<exists>G. ih_clear H = Some G \<and> heap_ok G \<and> contents G = Map.empty) \<and>
    (if contents H = Map.empty then ih_pop H = Some (None, H)
     else \<exists>j u G. ih_pop H = Some (Some u, G) \<and> heap_ok G \<and> contents H j = Some u \<and>
       contents G = (contents H)(j := None) \<and> (\<forall>w \<in> ran (contents H). \<not> ih_comp H w u))"
proof (intro conjI)
  show "\<exists>G j. ih_insert H v = Some (G, j) \<and> heap_ok G \<and> contents H j = None \<and>
      contents G = (contents H)(j \<mapsto> v)"
    using heapq.put_ok [OF assms, of v] by blast
  show "ih_get H k = Some (contents H k)" using assms(1) by (rule get_run)
  show "case contents H k of None \<Rightarrow> ih_update H k v = None
     | Some u \<Rightarrow> \<exists>G. ih_update H k v = Some G \<and> heap_ok G \<and> contents G = (contents H)(k \<mapsto> v)"
    using update_stale [OF assms(1), of k v] heapq.change_ok [OF assms(1), of k _ v]
    by (cases "contents H k") auto
  show "\<exists>G. ih_clear H = Some G \<and> heap_ok G \<and> contents G = Map.empty"
    using clear_run [OF assms(1)] by blast
  show "if contents H = Map.empty then ih_pop H = Some (None, H)
     else \<exists>j u G. ih_pop H = Some (Some u, G) \<and> heap_ok G \<and> contents H j = Some u \<and>
       contents G = (contents H)(j := None) \<and> (\<forall>w \<in> ran (contents H). \<not> ih_comp H w u)"
  proof (cases "contents H = Map.empty")
    case False
    then obtain j u G where "ih_pop H = Some (Some u, G)" "heap_ok G" "contents H j = Some u"
        "contents G = (contents H)(j := None)" "\<forall>l w. contents H l = Some w \<longrightarrow> \<not> ih_comp H w u"
      using heapq.serve_some [OF assms(1)] by blast
    moreover from this(5) have "\<forall>w \<in> ran (contents H). \<not> ih_comp H w u" unfolding ran_def by blast
    ultimately show ?thesis using False by auto
  qed (use heapq.serve_none [OF assms(1)] in simp)
qed

theorem heap_is_a_map_witness:
  "let H = ih_new ((<) :: nat \<Rightarrow> nat \<Rightarrow> bool) in
    (\<exists>G j. ih_insert H 5 = Some (G, j) \<and> contents G j = Some 5) \<and> ih_get H 0 = Some None"
  using heap_is_a_map [of "ih_new ((<) :: nat \<Rightarrow> nat \<Rightarrow> bool)" 5 0] heap_new_ok [OF ranks_nat]
  by (auto simp: Let_def heap_room_def ih_new_def)

text \<open>
  C30. The comparison of a queue reads a table of distances that the search changes under it.  When
  it has changed for one queued element only, updating that element puts the heap back in order:
  whatever the new comparison puts first is popped first from then on.
\<close>

theorem update_repairs_the_order:
  assumes "heap_ok (H\<lparr>ih_comp := old\<rparr>)" "ranks (ih_comp H)" "agrees_except old H k"
    "contents H k = Some v"
  shows "\<exists>G. ih_update H k v = Some G \<and> heap_ok G \<and> contents G = contents H \<and> ih_comp G = ih_comp H \<and>
    (\<exists>vs. drain ih_pop (Suc (length (ih_elements G))) G = Some vs \<and>
      mset vs = items_bag (contents H) \<and> sorted_wrt (\<lambda>a b. \<not> ih_comp H b a) vs)"
proof -
  obtain G where G: "ih_update H k v = Some G" "heap_ok G" "contents G = (contents H)(k \<mapsto> v)"
      "ih_comp G = ih_comp H"
    using update_moves [OF assms] by blast
  have c: "contents G = contents H" using G(3) assms(4) by (auto simp: fun_eq_iff)
  have "card (node_keys (ih_elements G)) = length (ih_elements G)"
    using keyed_card G(2) by (metis heap_ok_def)
  then have "size (items_bag (contents G)) = length (ih_elements G)"
    by (simp add: items_bag_def dom_contents)
  then obtain vs where "drain ih_pop (Suc (length (ih_elements G))) G = Some vs"
      "mset vs = items_bag (contents G)" "sorted_wrt (\<lambda>a b. \<not> ih_comp G b a) vs"
    using heapq.drain_in_order [OF G(2), of "Suc (length (ih_elements G))"] by (auto simp del: drain.simps)
  then show ?thesis using G(1,2,4) c by (auto simp del: drain.simps)
qed

theorem update_repairs_the_order_witness:
  "\<exists>H G. heap_of (<) [1, 2 :: nat] = Some H \<and> ih_update (H\<lparr>ih_comp := (>)\<rparr>) 0 2 = Some G \<and>
    heap_ok G \<and> ih_comp G = (>)"
proof -
  define H :: "nat indexed_heap" where "H = \<lparr>ih_elements =
      [\<lparr>nd_value = 1, nd_key = 1\<rparr>, \<lparr>nd_value = 2, nd_key = 0\<rparr>], ih_pos = [1, 0], ih_free_head = NO_FREE,
      ih_comp = (<)\<rparr>"
  have h: "heap_of (<) [1, 2 :: nat] = Some H"
    by (simp add: H_def ih_insert_def ih_new_def sift_up_def hole_new_def sift_up_loop.simps
        hole_element_def hole_move_to_def hole_drop_def par_def Let_def)
  have "heap_ok H" using heap_of_run [OF ranks_nat, of "[1, 2]"] h by auto
  then have "heap_ok (H\<lparr>ih_comp := (>), ih_comp := (<)\<rparr>)" by (simp add: H_def)
  moreover have "ranks ((>) :: nat \<Rightarrow> nat \<Rightarrow> bool)" unfolding ranks_def by auto
  moreover have "contents (H\<lparr>ih_comp := (>)\<rparr>) = [0 \<mapsto> 2, 1 \<mapsto> 1]"
    by (auto simp: contents_def H_def)
  moreover from this have "agrees_except (<) (H\<lparr>ih_comp := (>)\<rparr>) 0"
    by (auto simp: agrees_except_def split: if_splits)
  ultimately show ?thesis
    using update_repairs_the_order [where H = "H\<lparr>ih_comp := (>)\<rparr>" and old = "(<)" and k = 0 and v = 2] h by auto
qed

end
