(* ===== verification/BitSet.thy ===== *)
theory BitSet
  imports Prelude
begin

text \<open>
  The bit sets of \<open>data_structures/bit_set.rs\<close>: sets of indices packed into 64-bit words, the
  fixed one and the one that grows, and the iterator over the members.  \<open>members\<close> is the set a
  bit set stands for.
\<close>

section \<open>Words\<close>

definition WORD_BITS :: nat where
  "WORD_BITS = 64"

text \<open>\<open>1 << n\<close>.\<close>

definition one_bit :: "nat \<Rightarrow> 64 word" where
  "one_bit n = push_bit n 1"

definition num_words :: "nat \<Rightarrow> nat" where
  "num_words domain_size = (domain_size + WORD_BITS - 1) div WORD_BITS"

definition word_index_and_mask :: "nat \<Rightarrow> nat \<times> 64 word" where
  "word_index_and_mask index = (index div WORD_BITS, one_bit (index mod WORD_BITS))"

definition clear_excess_bits_in_final_word :: "nat \<Rightarrow> 64 word list \<Rightarrow> 64 word list" where
  "clear_excess_bits_in_final_word domain_size words =
     (let num_bits_in_final_word = domain_size mod WORD_BITS in
      if num_bits_in_final_word > 0 \<and> words \<noteq> []
      then butlast words @ [last words AND (one_bit num_bits_in_final_word - 1)]
      else words)"

text \<open>The words updated, and whether any of them changed.\<close>

definition update_words ::
  "64 word list \<Rightarrow> 64 word list \<Rightarrow> (64 word \<Rightarrow> 64 word \<Rightarrow> 64 word) \<Rightarrow>
   (64 word list \<times> bool) option" where
  "update_words lhs rhs opr = do {
     assert_run (length lhs = length rhs);
     let changed = fold (\<lambda>(old, r) changed. changed OR (old XOR opr old r)) (zip lhs rhs) 0;
     Some (map2 opr lhs rhs, changed \<noteq> 0) }"

definition count_ones :: "64 word \<Rightarrow> nat" where
  "count_ones w = length (filter (bit w) [0..<64])"

definition trailing_zeros :: "64 word \<Rightarrow> nat" where
  "trailing_zeros w = length (takeWhile (\<lambda>i. \<not> bit w i) [0..<64])"

section \<open>The fixed bit set\<close>

record bit_set =
  bs_domain_size :: nat
  bs_words :: "64 word list"

definition bs_new_empty :: "nat \<Rightarrow> bit_set" where
  "bs_new_empty domain_size =
     \<lparr>bs_domain_size = domain_size, bs_words = replicate (num_words domain_size) 0\<rparr>"

definition bs_new_filled :: "nat \<Rightarrow> bit_set" where
  "bs_new_filled domain_size =
     \<lparr>bs_domain_size = domain_size,
      bs_words = clear_excess_bits_in_final_word domain_size (replicate (num_words domain_size) (NOT 0))\<rparr>"

definition bs_count :: "bit_set \<Rightarrow> nat" where
  "bs_count b = sum_list (map count_ones (bs_words b))"

definition bs_is_empty :: "bit_set \<Rightarrow> bool" where
  "bs_is_empty b = list_all (\<lambda>w. w = 0) (bs_words b)"

definition bs_clear :: "bit_set \<Rightarrow> bit_set" where
  "bs_clear b = b\<lparr>bs_words := replicate (length (bs_words b)) 0\<rparr>"

definition bs_contains :: "bit_set \<Rightarrow> nat \<Rightarrow> bool option" where
  "bs_contains b index = do {
     assert_run (index < bs_domain_size b);
     let (word_index, mask) = word_index_and_mask index;
     w \<leftarrow> vget (bs_words b) word_index;
     Some (w AND mask \<noteq> 0) }"

definition bs_insert :: "bit_set \<Rightarrow> nat \<Rightarrow> (bit_set \<times> bool) option" where
  "bs_insert b index = do {
     assert_run (index < bs_domain_size b);
     let (word_index, mask) = word_index_and_mask index;
     old \<leftarrow> vget (bs_words b) word_index;
     let w = old OR mask;
     ws \<leftarrow> vset (bs_words b) word_index w;
     Some (b\<lparr>bs_words := ws\<rparr>, old \<noteq> w) }"

definition bs_remove :: "bit_set \<Rightarrow> nat \<Rightarrow> (bit_set \<times> bool) option" where
  "bs_remove b index = do {
     assert_run (index < bs_domain_size b);
     let (word_index, mask) = word_index_and_mask index;
     old \<leftarrow> vget (bs_words b) word_index;
     let w = old AND NOT mask;
     ws \<leftarrow> vset (bs_words b) word_index w;
     Some (b\<lparr>bs_words := ws\<rparr>, old \<noteq> w) }"

definition bs_combine ::
  "(64 word \<Rightarrow> 64 word \<Rightarrow> 64 word) \<Rightarrow> bit_set \<Rightarrow> bit_set \<Rightarrow> (bit_set \<times> bool) option" where
  "bs_combine opr b other = do {
     assert_run (bs_domain_size b = bs_domain_size other);
     (ws, changed) \<leftarrow> update_words (bs_words b) (bs_words other) opr;
     Some (b\<lparr>bs_words := ws\<rparr>, changed) }"

definition bs_union :: "bit_set \<Rightarrow> bit_set \<Rightarrow> (bit_set \<times> bool) option" where
  "bs_union = bs_combine (\<lambda>a b. a OR b)"

definition bs_subtract :: "bit_set \<Rightarrow> bit_set \<Rightarrow> (bit_set \<times> bool) option" where
  "bs_subtract = bs_combine (\<lambda>a b. a AND NOT b)"

definition bs_intersect :: "bit_set \<Rightarrow> bit_set \<Rightarrow> (bit_set \<times> bool) option" where
  "bs_intersect = bs_combine (\<lambda>a b. a AND b)"

section \<open>The growing bit set\<close>

text \<open>A \<open>GrowableBitSet\<close> is a wrapped \<open>DenseBitSet\<close>.\<close>

definition gbs_new :: bit_set where
  "gbs_new = bs_new_empty 0"

definition gbs_ensure :: "bit_set \<Rightarrow> nat \<Rightarrow> bit_set" where
  "gbs_ensure b min_domain_size =
     (if bs_domain_size b < min_domain_size then
        let b = b\<lparr>bs_domain_size := min_domain_size\<rparr>;
            required_words = num_words min_domain_size
        in if length (bs_words b) < required_words
           then b\<lparr>bs_words := vresize required_words 0 (bs_words b)\<rparr> else b
      else b)"

definition gbs_insert :: "bit_set \<Rightarrow> nat \<Rightarrow> (bit_set \<times> bool) option" where
  "gbs_insert b index = bs_insert (gbs_ensure b (index + 1)) index"

definition gbs_remove :: "bit_set \<Rightarrow> nat \<Rightarrow> (bit_set \<times> bool) option" where
  "gbs_remove b index =
     (if index \<ge> bs_domain_size b then Some (b, False) else bs_remove b index)"

definition gbs_contains :: "bit_set \<Rightarrow> nat \<Rightarrow> bool option" where
  "gbs_contains b index =
     (if index \<ge> bs_domain_size b then Some False else bs_contains b index)"

text \<open>An operation on the first \<open>n\<close> words of both; slicing past the end panics.\<close>

definition on_prefix ::
  "nat \<Rightarrow> (64 word \<Rightarrow> 64 word \<Rightarrow> 64 word) \<Rightarrow> bit_set \<Rightarrow> bit_set \<Rightarrow> (bit_set \<times> bool) option" where
  "on_prefix n opr b other = do {
     assert_run (n \<le> length (bs_words b) \<and> n \<le> length (bs_words other));
     (ws, changed) \<leftarrow> update_words (take n (bs_words b)) (take n (bs_words other)) opr;
     Some (b\<lparr>bs_words := ws @ drop n (bs_words b)\<rparr>, changed) }"

definition gbs_union :: "bit_set \<Rightarrow> bit_set \<Rightarrow> (bit_set \<times> bool) option" where
  "gbs_union b other =
     (let b = gbs_ensure b (bs_domain_size other); min_words = length (bs_words other)
      in on_prefix min_words (\<lambda>a b. a OR b) b other)"

definition gbs_subtract :: "bit_set \<Rightarrow> bit_set \<Rightarrow> (bit_set \<times> bool) option" where
  "gbs_subtract b other =
     (let min_words = min (length (bs_words b)) (length (bs_words other))
      in on_prefix min_words (\<lambda>a b. a AND NOT b) b other)"

definition gbs_intersect :: "bit_set \<Rightarrow> bit_set \<Rightarrow> (bit_set \<times> bool) option" where
  "gbs_intersect b other = do {
     let min_words = min (length (bs_words b)) (length (bs_words other));
     (b, changed) \<leftarrow> on_prefix min_words (\<lambda>a b. a AND b) b other;
     let cleared = list_ex (\<lambda>w. w \<noteq> 0) (drop min_words (bs_words b));
     let b = (if cleared
       then b\<lparr>bs_words := take min_words (bs_words b) @
              replicate (length (bs_words b) - min_words) 0\<rparr>
       else b);
     Some (b, changed \<or> cleared) }"

section \<open>The iterator\<close>

record bit_iter =
  it_word :: "64 word"
  it_offset :: "64 word"
  it_words :: "64 word list"

definition iter_new :: "64 word list \<Rightarrow> bit_iter" where
  "iter_new words = \<lparr>it_word = 0, it_offset = (- 1) - (of_nat WORD_BITS - 1), it_words = words\<rparr>"

fun iter_next :: "64 word \<Rightarrow> 64 word \<Rightarrow> 64 word list \<Rightarrow> (nat option \<times> bit_iter)" where
  "iter_next w offset ws =
     (if w \<noteq> 0 then
        let bit_pos = trailing_zeros w
        in (Some (unat (of_nat bit_pos + offset)),
            \<lparr>it_word = w XOR one_bit bit_pos, it_offset = offset, it_words = ws\<rparr>)
      else
        (case ws of
           [] \<Rightarrow> (None, \<lparr>it_word = w, it_offset = offset, it_words = []\<rparr>)
         | v # vs \<Rightarrow> iter_next v (offset + of_nat WORD_BITS) vs))"

section \<open>The set a bit set stands for\<close>

definition wbit :: "64 word list \<Rightarrow> nat \<Rightarrow> bool" where
  "wbit ws i \<longleftrightarrow> i div 64 < length ws \<and> bit (ws ! (i div 64)) (i mod 64)"

definition members :: "bit_set \<Rightarrow> nat set" where
  "members b = {i. wbit (bs_words b) i}"

definition bs_ok :: "bit_set \<Rightarrow> bool" where
  "bs_ok b \<longleftrightarrow> length (bs_words b) = num_words (bs_domain_size b) \<and> members b \<subseteq> {..<bs_domain_size b}"

lemma in_members: "i \<in> members b \<longleftrightarrow> wbit (bs_words b) i"
  by (simp add: members_def)

lemma num_words_bound: "i < d \<Longrightarrow> i div 64 < num_words d"
  unfolding num_words_def WORD_BITS_def by linarith

lemma num_words_mono: "d \<le> e \<Longrightarrow> num_words d \<le> num_words e"
  unfolding num_words_def by (intro div_le_mono) simp

lemma wbit_bound: "wbit ws i \<Longrightarrow> i < 64 * length ws"
  unfolding wbit_def by (metis div_less_iff_less_mult mult.commute zero_less_numeral)

lemma finite_members [simp]: "finite (members b)"
  by (rule finite_subset [of _ "{..<64 * length (bs_words b)}"]) (auto simp: in_members wbit_bound)

lemma bit_one_bit: "k < 64 \<Longrightarrow> bit (one_bit k) j \<longleftrightarrow> j = k"
  unfolding one_bit_def bit_push_bit_iff bit_1_iff by auto

lemma mask_bit: "bit (one_bit (i mod 64)) j \<longleftrightarrow> j = i mod 64"
  by (simp add: bit_one_bit)

lemma test_mask: "w AND one_bit (i mod 64) \<noteq> (0 :: 64 word) \<longleftrightarrow> bit w (i mod 64)"
proof
  assume "bit w (i mod 64)"
  then have "bit (w AND one_bit (i mod 64)) (i mod 64)" by (simp add: bit_and_iff mask_bit)
  then show "w AND one_bit (i mod 64) \<noteq> 0" by auto
next
  assume "w AND one_bit (i mod 64) \<noteq> 0"
  then obtain j where "bit (w AND one_bit (i mod 64)) j" by (auto simp: bit_eq_iff)
  then show "bit w (i mod 64)" by (auto simp: bit_and_iff mask_bit)
qed

lemma or_mask: "w OR one_bit (i mod 64) = (w :: 64 word) \<longleftrightarrow> bit w (i mod 64)"
proof
  assume "w OR one_bit (i mod 64) = w"
  then show "bit w (i mod 64)" by (metis bit_or_iff mask_bit)
next
  assume "bit w (i mod 64)"
  then show "w OR one_bit (i mod 64) = w" by (intro bit_word_eqI) (auto simp: bit_or_iff mask_bit)
qed

lemma and_not_mask: "w AND NOT (one_bit (i mod 64)) = (w :: 64 word) \<longleftrightarrow> \<not> bit w (i mod 64)"
proof
  assume "w AND NOT (one_bit (i mod 64)) = w"
  then show "\<not> bit w (i mod 64)" by (metis bit_and_iff bit_not_iff mask_bit)
next
  assume "\<not> bit w (i mod 64)"
  then show "w AND NOT (one_bit (i mod 64)) = w"
    by (intro bit_word_eqI) (auto simp: bit_and_iff bit_not_iff mask_bit)
qed

lemma div_mod_eq: "i div 64 = j div 64 \<and> i mod 64 = j mod 64 \<longleftrightarrow> i = (j :: nat)"
  by (metis div_mult_mod_eq)

lemma wbit_set:
  assumes "i div 64 < length ws"
  shows "wbit (ws[i div 64 := ws ! (i div 64) OR one_bit (i mod 64)]) j \<longleftrightarrow> j = i \<or> wbit ws j"
proof (cases "j div 64 = i div 64")
  case True
  then show ?thesis using assms div_mod_eq [of j i] by (auto simp: wbit_def bit_or_iff mask_bit)
next
  case False
  then show ?thesis by (auto simp: wbit_def)
qed

lemma wbit_clear:
  assumes "i div 64 < length ws"
  shows "wbit (ws[i div 64 := ws ! (i div 64) AND NOT (one_bit (i mod 64))]) j \<longleftrightarrow> j \<noteq> i \<and> wbit ws j"
proof (cases "j div 64 = i div 64")
  case True
  then show ?thesis using assms div_mod_eq [of j i]
    by (auto simp: wbit_def bit_and_iff bit_not_iff mask_bit)
next
  case False
  then show ?thesis by (auto simp: wbit_def)
qed

section \<open>Single indices\<close>

lemma bs_contains_run: "bs_ok b \<Longrightarrow> i < bs_domain_size b \<Longrightarrow> bs_contains b i = Some (i \<in> members b)"
  using num_words_bound [of i "bs_domain_size b"]
  by (simp add: bs_contains_def word_index_and_mask_def WORD_BITS_def bs_ok_def test_mask in_members wbit_def)

lemma bs_insert_run:
  assumes "bs_ok b" "i < bs_domain_size b"
  shows "\<exists>c. bs_insert b i = Some (c, i \<notin> members b) \<and> bs_ok c \<and> members c = insert i (members b) \<and>
    bs_domain_size c = bs_domain_size b"
proof -
  let ?ws = "bs_words b"
  let ?c = "b\<lparr>bs_words := ?ws[i div 64 := ?ws ! (i div 64) OR one_bit (i mod 64)]\<rparr>"
  have i: "i div 64 < length ?ws" using assms num_words_bound by (simp add: bs_ok_def)
  have "bs_insert b i = Some (?c, i \<notin> members b)"
    using assms(2) i or_mask [of "?ws ! (i div 64)" i]
    by (auto simp: bs_insert_def word_index_and_mask_def WORD_BITS_def in_members wbit_def)
  moreover have "members ?c = insert i (members b)" by (rule set_eqI) (simp add: in_members wbit_set [OF i])
  moreover have "bs_ok ?c"
    unfolding bs_ok_def calculation(2) using assms by (simp add: bs_ok_def subset_iff)
  moreover have "bs_domain_size ?c = bs_domain_size b" by simp
  ultimately show ?thesis by blast
qed

lemma bs_remove_run:
  assumes "bs_ok b" "i < bs_domain_size b"
  shows "\<exists>c. bs_remove b i = Some (c, i \<in> members b) \<and> bs_ok c \<and> members c = members b - {i} \<and>
    bs_domain_size c = bs_domain_size b"
proof -
  let ?ws = "bs_words b"
  let ?c = "b\<lparr>bs_words := ?ws[i div 64 := ?ws ! (i div 64) AND NOT (one_bit (i mod 64))]\<rparr>"
  have i: "i div 64 < length ?ws" using assms num_words_bound by (simp add: bs_ok_def)
  have "bs_remove b i = Some (?c, i \<in> members b)"
    using assms(2) i and_not_mask [of "?ws ! (i div 64)" i]
    by (auto simp: bs_remove_def word_index_and_mask_def WORD_BITS_def in_members wbit_def)
  moreover have "members ?c = members b - {i}" by (rule set_eqI) (auto simp: in_members wbit_clear [OF i])
  moreover have "bs_ok ?c"
    unfolding bs_ok_def calculation(2) using assms by (simp add: bs_ok_def subset_iff)
  moreover have "bs_domain_size ?c = bs_domain_size b" by simp
  ultimately show ?thesis by blast
qed

lemma out_of_domain:
  assumes "bs_domain_size b \<le> i"
  shows "bs_contains b i = None" "bs_insert b i = None" "bs_remove b i = None"
  using assms by (simp_all add: bs_contains_def bs_insert_def bs_remove_def)

lemma new_empty_run: "bs_ok (bs_new_empty n) \<and> members (bs_new_empty n) = {} \<and> bs_domain_size (bs_new_empty n) = n"
  by (auto simp: bs_ok_def bs_new_empty_def members_def wbit_def)

lemma bs_clear_run: "bs_ok b \<Longrightarrow> bs_ok (bs_clear b) \<and> members (bs_clear b) = {} \<and>
    bs_domain_size (bs_clear b) = bs_domain_size b"
  by (auto simp: bs_ok_def bs_clear_def members_def wbit_def)

lemma ensure_run:
  assumes "bs_ok b"
  shows "bs_ok (gbs_ensure b n)" "members (gbs_ensure b n) = members b"
    "bs_domain_size (gbs_ensure b n) = max (bs_domain_size b) n"
proof -
  have m: "members (gbs_ensure b n) = members b"
    by (auto simp: gbs_ensure_def Let_def members_def wbit_def nth_vresize split: if_splits)
  have d: "bs_domain_size (gbs_ensure b n) = max (bs_domain_size b) n"
    by (simp add: gbs_ensure_def Let_def)
  have "length (bs_words (gbs_ensure b n)) = num_words (max (bs_domain_size b) n)"
    using assms num_words_mono [of "bs_domain_size b" n]
    by (auto simp: bs_ok_def gbs_ensure_def Let_def max_def)
  with m d assms show "bs_ok (gbs_ensure b n)" by (auto simp: bs_ok_def)
  show "members (gbs_ensure b n) = members b" by (rule m)
  show "bs_domain_size (gbs_ensure b n) = max (bs_domain_size b) n" by (rule d)
qed

lemma gbs_insert_run:
  assumes "bs_ok b"
  shows "\<exists>c. gbs_insert b i = Some (c, i \<notin> members b) \<and> bs_ok c \<and> members c = insert i (members b) \<and>
    bs_domain_size c = max (bs_domain_size b) (i + 1)"
  using bs_insert_run [OF ensure_run(1) [OF assms, of "i + 1"], of i] ensure_run [OF assms, of "i + 1"]
  by (auto simp: gbs_insert_def)

lemma outside_members: "bs_ok b \<Longrightarrow> bs_domain_size b \<le> i \<Longrightarrow> i \<notin> members b"
  by (meson bs_ok_def lessThan_iff not_le subsetD)

lemma gbs_remove_run:
  assumes "bs_ok b"
  shows "\<exists>c. gbs_remove b i = Some (c, i \<in> members b) \<and> bs_ok c \<and> members c = members b - {i} \<and>
    bs_domain_size c = bs_domain_size b"
  using bs_remove_run [OF assms, of i] outside_members [OF assms, of i] assms
  by (cases "i < bs_domain_size b") (auto simp: gbs_remove_def)

lemma gbs_contains_run: "bs_ok b \<Longrightarrow> gbs_contains b i = Some (i \<in> members b)"
  using bs_contains_run [of b i] outside_members [of b i]
  by (cases "i < bs_domain_size b") (auto simp: gbs_contains_def)

section \<open>Whole sets\<close>

lemma xor_zero_iff: "(a XOR b :: 64 word) = 0 \<longleftrightarrow> b = a"
  by (auto simp: bit_eq_iff bit_xor_iff)

lemma fold_changed:
  "fold (\<lambda>(old, r) changed. changed OR (old XOR opr old r)) ps (c :: 64 word) \<noteq> 0 \<longleftrightarrow>
   c \<noteq> 0 \<or> (\<exists>(old, r) \<in> set ps. opr old r \<noteq> old)"
proof (induction ps arbitrary: c)
  case (Cons p ps)
  obtain old r where p: "p = (old, r)" by fastforce
  have "c OR (old XOR opr old r) = 0 \<longleftrightarrow> c = 0 \<and> opr old r = old"
    by (auto simp: or_eq_0_iff xor_zero_iff)
  then show ?case using Cons.IH [of "c OR (old XOR opr old r)"] by (auto simp: p)
qed simp

text \<open>A word operation that acts on each bit by itself.\<close>

definition bitwise :: "(64 word \<Rightarrow> 64 word \<Rightarrow> 64 word) \<Rightarrow> (bool \<Rightarrow> bool \<Rightarrow> bool) \<Rightarrow> bool" where
  "bitwise opr g \<longleftrightarrow> (\<forall>a b n. n < 64 \<longrightarrow> bit (opr a b) n = g (bit a n) (bit b n))"

lemma bitwise_ops:
  "bitwise (\<lambda>a b. a OR b) (\<or>)" "bitwise (\<lambda>a b. a AND NOT b) (\<lambda>x y. x \<and> \<not> y)"
  "bitwise (\<lambda>a b. a AND b) (\<and>)"
  by (simp_all add: bitwise_def bit_or_iff bit_and_iff bit_not_iff)

lemma bit_bitwise: "bitwise opr g \<Longrightarrow> bit (opr a b) (i mod 64) = g (bit a (i mod 64)) (bit b (i mod 64))"
  by (simp add: bitwise_def)

lemma wbit_map2:
  assumes "bitwise opr g" "length xs = length ys"
  shows "wbit (map2 opr xs ys) i \<longleftrightarrow> i div 64 < length xs \<and> g (wbit xs i) (wbit ys i)"
  using assms(2) by (auto simp: wbit_def bit_bitwise [OF assms(1)])

lemma word_neq_bit: "(a :: 64 word) \<noteq> b \<longleftrightarrow> (\<exists>n < 64. bit a n \<noteq> bit b n)"
  using bit_word_eqI [of a b] by auto

lemma changed_iff:
  assumes "bitwise opr g" "length xs = length ys"
  shows "(\<exists>(old, r) \<in> set (zip xs ys). opr old r \<noteq> old) \<longleftrightarrow>
    (\<exists>i. i div 64 < length xs \<and> g (wbit xs i) (wbit ys i) \<noteq> wbit xs i)"
proof
  assume "\<exists>(old, r) \<in> set (zip xs ys). opr old r \<noteq> old"
  then obtain k where k: "k < length xs" "opr (xs ! k) (ys ! k) \<noteq> xs ! k"
    using assms(2) by (auto simp: set_zip)
  then obtain n where n: "n < 64" "bit (opr (xs ! k) (ys ! k)) n \<noteq> bit (xs ! k) n"
    using word_neq_bit by blast
  have d: "(64 * k + n) div 64 = k" "(64 * k + n) mod 64 = n" using n(1) by simp_all
  have "bit (opr (xs ! k) (ys ! k)) n = g (bit (xs ! k) n) (bit (ys ! k) n)"
    using assms(1) n(1) by (simp add: bitwise_def)
  then have "g (wbit xs (64 * k + n)) (wbit ys (64 * k + n)) \<noteq> wbit xs (64 * k + n)"
    using k n assms(2) by (simp add: wbit_def d)
  then show "\<exists>i. i div 64 < length xs \<and> g (wbit xs i) (wbit ys i) \<noteq> wbit xs i"
    using k(1) d(1) by metis
next
  assume "\<exists>i. i div 64 < length xs \<and> g (wbit xs i) (wbit ys i) \<noteq> wbit xs i"
  then obtain i where i: "i div 64 < length xs" "g (wbit xs i) (wbit ys i) \<noteq> wbit xs i" by blast
  let ?k = "i div 64"
  have "bit (opr (xs ! ?k) (ys ! ?k)) (i mod 64) \<noteq> bit (xs ! ?k) (i mod 64)"
    using i assms(2) by (simp add: wbit_def bit_bitwise [OF assms(1)])
  then have "opr (xs ! ?k) (ys ! ?k) \<noteq> xs ! ?k" by auto
  moreover have "(xs ! ?k, ys ! ?k) \<in> set (zip xs ys)" using i(1) assms(2) by (auto simp: set_zip)
  ultimately show "\<exists>(old, r) \<in> set (zip xs ys). opr old r \<noteq> old" by blast
qed

lemma on_prefix_run:
  assumes g: "bitwise opr g" and n: "n \<le> length (bs_words b)" "n \<le> length (bs_words c)"
  shows "\<exists>d. on_prefix n opr b c =
      Some (d, \<exists>i < 64 * n. g (i \<in> members b) (i \<in> members c) \<noteq> (i \<in> members b)) \<and>
    bs_domain_size d = bs_domain_size b \<and> length (bs_words d) = length (bs_words b) \<and>
    (\<forall>i. i \<in> members d \<longleftrightarrow> (if i < 64 * n then g (i \<in> members b) (i \<in> members c) else i \<in> members b)) \<and>
    drop n (bs_words d) = drop n (bs_words b)"
proof -
  let ?xs = "take n (bs_words b)" and ?ys = "take n (bs_words c)"
  have l: "length ?xs = length ?ys" "length ?xs = n" using n by simp_all
  have i64: "i div 64 < n \<longleftrightarrow> i < 64 * n" for i by (simp add: div_less_iff_less_mult mult.commute)
  have w: "wbit ?xs i \<longleftrightarrow> i < 64 * n \<and> i \<in> members b" "wbit ?ys i \<longleftrightarrow> i < 64 * n \<and> i \<in> members c" for i
    using n i64 [of i] by (auto simp: wbit_def in_members)
  let ?d = "b\<lparr>bs_words := map2 opr ?xs ?ys @ drop n (bs_words b)\<rparr>"
  have "on_prefix n opr b c = Some (?d, \<exists>(old, r) \<in> set (zip ?xs ?ys). opr old r \<noteq> old)"
    using n l(1) fold_changed [of opr "zip ?xs ?ys" 0] by (simp add: on_prefix_def update_words_def)
  moreover have "(\<exists>(old, r) \<in> set (zip ?xs ?ys). opr old r \<noteq> old) \<longleftrightarrow>
      (\<exists>i < 64 * n. g (i \<in> members b) (i \<in> members c) \<noteq> (i \<in> members b))"
    unfolding changed_iff [OF g l(1)] l(2) using i64 w by auto
  moreover have "i \<in> members ?d \<longleftrightarrow> (if i < 64 * n then g (i \<in> members b) (i \<in> members c) else i \<in> members b)" for i
  proof (cases "i < 64 * n")
    case True
    have "i div 64 < length (bs_words b)" using True i64 [of i] n(1) by (meson less_le_trans)
    moreover from this have "i \<in> members ?d \<longleftrightarrow> wbit (map2 opr ?xs ?ys) i"
      using True l n i64 [of i] by (simp add: in_members wbit_def nth_append)
    ultimately show ?thesis using True l i64 [of i] by (simp add: wbit_map2 [OF g l(1)] w)
  next
    case False
    then show ?thesis using l n i64 [of i] by (auto simp: in_members wbit_def nth_append)
  qed
  moreover have "length (bs_words ?d) = length (bs_words b)" "drop n (bs_words ?d) = drop n (bs_words b)"
    using n by simp_all
  moreover have "bs_domain_size ?d = bs_domain_size b" by simp
  ultimately show ?thesis by (intro exI [of _ ?d] conjI allI) (assumption | simp only:)+
qed

lemma words_cover: "bs_ok b \<Longrightarrow> i \<in> members b \<Longrightarrow> i < 64 * length (bs_words b)"
  by (simp add: in_members wbit_bound)

lemma gbs_union_run:
  assumes b: "bs_ok b" and c: "bs_ok c"
  shows "\<exists>d. gbs_union b c = Some (d, \<not> members c \<subseteq> members b) \<and> bs_ok d \<and> members d = members b \<union> members c"
proof -
  let ?e = "gbs_ensure b (bs_domain_size c)" and ?n = "length (bs_words c)"
  note e = ensure_run [OF b, of "bs_domain_size c"]
  have n: "?n \<le> length (bs_words ?e)"
    using e(1,3) c num_words_mono [of "bs_domain_size c" "max (bs_domain_size b) (bs_domain_size c)"]
    by (simp add: bs_ok_def)
  obtain d where d: "gbs_union b c = Some (d, \<exists>i < 64 * ?n. (i \<in> members ?e \<or> i \<in> members c) \<noteq> (i \<in> members ?e))"
      "bs_domain_size d = bs_domain_size ?e" "length (bs_words d) = length (bs_words ?e)"
      "\<And>i. i \<in> members d \<longleftrightarrow> (if i < 64 * ?n then i \<in> members ?e \<or> i \<in> members c else i \<in> members ?e)"
    using on_prefix_run [OF bitwise_ops(1) n order_refl] unfolding gbs_union_def Let_def by blast
  have m: "members d = members b \<union> members c"
    using d(4) words_cover [OF c] unfolding e(2) by (intro set_eqI) auto
  have ch: "(\<exists>i < 64 * ?n. (i \<in> members ?e \<or> i \<in> members c) \<noteq> (i \<in> members ?e)) \<longleftrightarrow> \<not> members c \<subseteq> members b"
    using words_cover [OF c] unfolding e(2) by blast
  have "bs_ok d"
    using d(2,3) e(1,3) b c unfolding bs_ok_def m by auto
  then show ?thesis using d(1) m unfolding ch by blast
qed

lemma gbs_subtract_run:
  assumes b: "bs_ok b" and c: "bs_ok c"
  shows "\<exists>d. gbs_subtract b c = Some (d, members b \<inter> members c \<noteq> {}) \<and> bs_ok d \<and> members d = members b - members c"
proof -
  define n where "n = min (length (bs_words b)) (length (bs_words c))"
  have n: "n \<le> length (bs_words b)" "n \<le> length (bs_words c)" by (simp_all add: n_def)
  obtain d where d: "gbs_subtract b c = Some (d, \<exists>i < 64 * n. (i \<in> members b \<and> i \<notin> members c) \<noteq> (i \<in> members b))"
      "bs_domain_size d = bs_domain_size b" "length (bs_words d) = length (bs_words b)"
      "\<And>i. i \<in> members d \<longleftrightarrow> (if i < 64 * n then i \<in> members b \<and> i \<notin> members c else i \<in> members b)"
    using on_prefix_run [OF bitwise_ops(2) n] unfolding gbs_subtract_def Let_def n_def [symmetric] by blast
  have low: "i < 64 * n" if "i \<in> members b" "i \<in> members c" for i
    using words_cover [OF b that(1)] words_cover [OF c that(2)] by (simp add: n_def min_def)
  have m: "members d = members b - members c"
    using d(4) low by (intro set_eqI) auto
  have ch: "(\<exists>i < 64 * n. (i \<in> members b \<and> i \<notin> members c) \<noteq> (i \<in> members b)) \<longleftrightarrow> members b \<inter> members c \<noteq> {}"
    using low by blast
  have "bs_ok d" using d(2,3) b unfolding bs_ok_def m by auto
  then show ?thesis using d(1) m unfolding ch by blast
qed

lemma div_mod_64: "j < 64 \<Longrightarrow> (64 * m + j) div 64 = m" "j < 64 \<Longrightarrow> (64 * m + j) mod 64 = (j :: nat)"
  by simp_all

lemma high_words:
  "list_ex (\<lambda>w. w \<noteq> 0) (drop n ws) \<longleftrightarrow> (\<exists>i. wbit ws i \<and> \<not> i < 64 * n)"
proof
  assume "list_ex (\<lambda>w. w \<noteq> 0) (drop n ws)"
  then obtain w where "w \<in> set (drop n ws)" "w \<noteq> 0" unfolding list_ex_iff by blast
  then obtain k where k: "n + k < length ws" "ws ! (n + k) \<noteq> 0"
    by (auto simp: in_set_conv_nth less_diff_conv add.commute)
  then obtain j where j: "j < 64" "bit (ws ! (n + k)) j"
    using word_neq_bit [of "ws ! (n + k)" 0] by auto
  have e: "(64 * (n + k) + j) div 64 = n + k" "(64 * (n + k) + j) mod 64 = j" by (rule div_mod_64 [OF j(1)])+
  then have "wbit ws (64 * (n + k) + j)" using j k(1) unfolding wbit_def e by simp
  moreover have "\<not> 64 * (n + k) + j < 64 * n" by simp
  ultimately show "\<exists>i. wbit ws i \<and> \<not> i < 64 * n" by blast
next
  assume "\<exists>i. wbit ws i \<and> \<not> i < 64 * n"
  then obtain i where i: "i div 64 < length ws" "bit (ws ! (i div 64)) (i mod 64)" "64 * n \<le> i"
    by (auto simp: wbit_def)
  then have "n \<le> i div 64" by linarith
  then have "ws ! (i div 64) = drop n ws ! (i div 64 - n)" "i div 64 - n < length (drop n ws)"
    using i(1) by simp_all
  then have "ws ! (i div 64) \<in> set (drop n ws)" by (metis nth_mem)
  moreover have "ws ! (i div 64) \<noteq> 0" using i(2) by auto
  ultimately show "list_ex (\<lambda>w. w \<noteq> 0) (drop n ws)" unfolding list_ex_iff by blast
qed

lemma gbs_intersect_run:
  assumes b: "bs_ok b" and c: "bs_ok c"
  shows "\<exists>d. gbs_intersect b c = Some (d, \<not> members b \<subseteq> members c) \<and> bs_ok d \<and> members d = members b \<inter> members c"
proof -
  define n where "n = min (length (bs_words b)) (length (bs_words c))"
  have n: "n \<le> length (bs_words b)" "n \<le> length (bs_words c)" by (simp_all add: n_def)
  let ?ch = "\<exists>i < 64 * n. (i \<in> members b \<and> i \<in> members c) \<noteq> (i \<in> members b)"
  obtain d where d: "on_prefix n (\<lambda>a b. a AND b) b c = Some (d, ?ch)"
      "bs_domain_size d = bs_domain_size b" "length (bs_words d) = length (bs_words b)"
      "\<And>i. i \<in> members d \<longleftrightarrow> (if i < 64 * n then i \<in> members b \<and> i \<in> members c else i \<in> members b)"
      "drop n (bs_words d) = drop n (bs_words b)"
    using on_prefix_run [OF bitwise_ops(3) n] by blast
  define cl where "cl \<longleftrightarrow> list_ex (\<lambda>w. w \<noteq> 0) (drop n (bs_words d))"
  define e where "e = (if cl then d\<lparr>bs_words := take n (bs_words d) @ replicate (length (bs_words d) - n) 0\<rparr> else d)"
  have run: "gbs_intersect b c = Some (e, ?ch \<or> cl)"
    using d(1) by (simp add: gbs_intersect_def Let_def n_def [symmetric] e_def cl_def)
  have i64: "i div 64 < n \<longleftrightarrow> i < 64 * n" for i by linarith
  have cl: "cl \<longleftrightarrow> (\<exists>i \<in> members b. \<not> i < 64 * n)"
    unfolding cl_def high_words using d(4) by (auto simp: in_members)
  have low: "i < 64 * n" if "i \<in> members b" "i \<in> members c" for i
    using words_cover [OF b that(1)] words_cover [OF c that(2)] by (simp add: n_def min_def)
  have nd: "n \<le> length (bs_words d)" using n d(3) by simp
  have me: "i \<in> members e \<longleftrightarrow> i \<in> members d \<and> (cl \<longrightarrow> i < 64 * n)" for i
    using i64 [of i] nd by (auto simp: e_def in_members wbit_def nth_append)
  have m: "members e = members b \<inter> members c"
    using me d(4) cl low by (intro set_eqI) auto
  have ch: "?ch \<or> cl \<longleftrightarrow> \<not> members b \<subseteq> members c" unfolding cl using low by blast
  have "length (bs_words e) = length (bs_words b)" "bs_domain_size e = bs_domain_size b"
    using d(2,3) nd by (simp_all add: e_def)
  then have "bs_ok e" using b unfolding bs_ok_def m by auto
  then show ?thesis using run m unfolding ch by blast
qed

section \<open>Counting and iterating\<close>

definition set_bits_of :: "64 word \<Rightarrow> nat list" where
  "set_bits_of w = filter (bit w) [0..<64]"

lemma count_ones_length: "count_ones w = length (set_bits_of w)"
  by (simp add: count_ones_def set_bits_of_def)

definition word_members :: "64 word list \<Rightarrow> nat list" where
  "word_members ws = filter (wbit ws) [0..<64 * length ws]"

lemma set_word_members: "set (word_members ws) = {i. wbit ws i}"
  by (auto simp: word_members_def wbit_bound)

lemma wbit_Cons: "wbit (w # ws) i \<longleftrightarrow> (if i < 64 then bit w i else wbit ws (i - 64))"
proof (cases "i < 64")
  case False
  then have "i div 64 = Suc ((i - 64) div 64)" "i mod 64 = (i - 64) mod 64"
    by (simp_all add: le_div_geq le_mod_geq)
  then show ?thesis using False by (simp add: wbit_def)
qed (simp add: wbit_def)

lemma word_members_Cons:
  "word_members (w # ws) = set_bits_of w @ map (\<lambda>i. i + 64) (word_members ws)"
proof -
  have "[0..<64 * length (w # ws)] = [0..<64] @ map (\<lambda>i. i + 64) [0..<64 * length ws]"
    by (simp add: map_add_upt upt_add_eq_append [of 0 64, simplified] add.commute)
  moreover have "filter (wbit (w # ws)) [0..<64] = set_bits_of w"
    unfolding set_bits_of_def by (rule filter_cong) (simp_all add: wbit_Cons)
  moreover have "filter (wbit (w # ws)) (map (\<lambda>i. i + 64) xs) = map (\<lambda>i. i + 64) (filter (wbit ws) xs)" for xs
    by (simp add: filter_map comp_def wbit_Cons)
  ultimately show ?thesis by (simp only: word_members_def filter_append)
qed

lemma count_run: "bs_count b = card (members b)"
proof -
  have "length (word_members ws) = sum_list (map count_ones ws)" for ws
    by (induction ws) (simp_all add: word_members_Cons count_ones_length, simp add: word_members_def)
  moreover have "length (word_members (bs_words b)) = card (members b)"
    by (metis distinct_card distinct_filter distinct_upt members_def set_word_members word_members_def)
  ultimately show ?thesis by (simp add: bs_count_def)
qed

lemma is_empty_run: "bs_is_empty b \<longleftrightarrow> members b = {}"
proof -
  have "\<not> bs_is_empty b \<longleftrightarrow> list_ex (\<lambda>w. w \<noteq> 0) (drop 0 (bs_words b))"
    by (auto simp: bs_is_empty_def list_all_iff list_ex_iff)
  then show ?thesis unfolding high_words by (auto simp: members_def)
qed

lemma trailing_zeros_split:
  assumes "w \<noteq> 0"
  shows "trailing_zeros w < 64" "set_bits_of w = trailing_zeros w # set_bits_of (w XOR one_bit (trailing_zeros w))"
proof -
  let ?z = "trailing_zeros w"
  obtain n where n: "n < 64" "bit w n" using assms word_neq_bit [of w 0] by auto
  have "takeWhile (\<lambda>i. \<not> bit w i) [0..<64] \<noteq> [0..<64]"
    using n takeWhile_eq_all_conv [of "\<lambda>i. \<not> bit w i" "[0..<64]"] by auto
  then have z: "?z < 64"
    unfolding trailing_zeros_def using length_takeWhile_le [of "\<lambda>i. \<not> bit w i" "[0..<64]"]
    by (metis diff_zero le_neq_implies_less length_upt takeWhile_eq_take take_all_iff order_refl)
  then show "?z < 64" .
  have at: "bit w ?z"
    using nth_length_takeWhile [of "\<lambda>i. \<not> bit w i" "[0..<64]"] z by (simp add: trailing_zeros_def)
  have below: "\<not> bit w i" if "i < ?z" for i
    using takeWhile_nth [of i "\<lambda>i. \<not> bit w i" "[0..<64]"] that z nth_mem [of i "takeWhile (\<lambda>i. \<not> bit w i) [0..<64]"]
    by (auto simp: trailing_zeros_def dest!: set_takeWhileD)
  have s: "[0..<64] = [0..<?z] @ ?z # [Suc ?z..<64]"
    using z upt_add_eq_append [of 0 ?z "64 - ?z"] upt_conv_Cons [of ?z 64] by simp
  have x: "bit (w XOR one_bit ?z) i \<longleftrightarrow> bit w i \<and> i \<noteq> ?z" for i
    using z at by (auto simp: bit_xor_iff bit_one_bit)
  have "filter (bit w) [0..<?z] = []" using below by (simp add: filter_empty_conv)
  moreover have "filter (bit (w XOR one_bit ?z)) [0..<?z] = []" using below x by (simp add: filter_empty_conv)
  moreover have "filter (bit (w XOR one_bit ?z)) [Suc ?z..<64] = filter (bit w) [Suc ?z..<64]"
    by (rule filter_cong) (simp_all add: x)
  ultimately show "set_bits_of w = ?z # set_bits_of (w XOR one_bit ?z)"
    unfolding set_bits_of_def s using at x by simp
qed

text \<open>All that an iterator still yields.\<close>

fun iter_list :: "nat \<Rightarrow> bit_iter \<Rightarrow> nat list option" where
  "iter_list 0 it = None"
| "iter_list (Suc k) it =
     (case iter_next (it_word it) (it_offset it) (it_words it) of
        (None, _) \<Rightarrow> Some []
      | (Some i, it) \<Rightarrow> map_option (Cons i) (iter_list k it))"

fun offset_members :: "64 word \<Rightarrow> 64 word \<Rightarrow> 64 word list \<Rightarrow> nat list" where
  "offset_members w offset [] = map (\<lambda>k. unat (of_nat k + offset)) (set_bits_of w)"
| "offset_members w offset (v # vs) =
     map (\<lambda>k. unat (of_nat k + offset)) (set_bits_of w) @ offset_members v (offset + of_nat WORD_BITS) vs"

lemma set_bits_of_0 [simp]: "set_bits_of 0 = []"
  by (simp add: set_bits_of_def)

declare iter_next.simps [simp del]

lemma iter_next_members:
  "(case iter_next w offset ws of
      (None, _) \<Rightarrow> offset_members w offset ws = []
    | (Some i, it) \<Rightarrow> offset_members w offset ws = i # offset_members (it_word it) (it_offset it) (it_words it))"
proof (induction ws arbitrary: w offset)
  case Nil
  then show ?case using trailing_zeros_split [of w]
    by (cases "w = 0") (simp_all add: iter_next.simps [of _ _ "[]"] Let_def)
next
  case (Cons v vs)
  show ?case
  proof (cases "w = 0")
    case True
    have "iter_next w offset (v # vs) = iter_next v (offset + of_nat WORD_BITS) vs"
      using True by (subst iter_next.simps) simp
    moreover have "offset_members w offset (v # vs) = offset_members v (offset + of_nat WORD_BITS) vs"
      using True by simp
    ultimately show ?thesis using Cons.IH [of v "offset + of_nat WORD_BITS"] by (simp only:)
  next
    case False
    then show ?thesis using trailing_zeros_split [of w]
      by (simp add: iter_next.simps [of w] Let_def)
  qed
qed

lemma iter_list_run:
  "length (offset_members (it_word it) (it_offset it) (it_words it)) < k \<Longrightarrow>
   iter_list k it = Some (offset_members (it_word it) (it_offset it) (it_words it))"
proof (induction k arbitrary: it)
  case (Suc k)
  show ?case
  proof (cases "iter_next (it_word it) (it_offset it) (it_words it)")
    case (Pair r it')
    then show ?thesis
      using iter_next_members [of "it_word it" "it_offset it" "it_words it"] Suc.IH [of it'] Suc.prems
      by (cases r) auto
  qed
qed simp

lemma offset_members_words:
  "64 * (j + length ws) \<le> 2 ^ 64 \<Longrightarrow>
   offset_members 0 (of_nat (64 * j) - of_nat WORD_BITS) ws = map (\<lambda>i. i + 64 * j) (word_members ws)"
proof (induction ws arbitrary: j)
  case Nil
  show ?case by (simp add: word_members_def)
next
  case (Cons w ws)
  have tail: "offset_members w off ws = map (\<lambda>k. unat (of_nat k + off)) (set_bits_of w) @
      offset_members 0 off ws" for off
    by (cases ws) simp_all
  have head: "map (\<lambda>k. unat (of_nat k + of_nat (64 * j) :: 64 word)) (set_bits_of w) =
      map (\<lambda>k. k + 64 * j) (set_bits_of w)"
  proof (rule map_cong [OF refl])
    fix k assume "k \<in> set (set_bits_of w)"
    then have "k + 64 * j < 2 ^ 64" using Cons.prems by (auto simp: set_bits_of_def)
    then have "unat (of_nat (k + 64 * j) :: 64 word) = k + 64 * j"
      by (simp only: unat_of_nat) simp
    then show "unat (of_nat k + of_nat (64 * j) :: 64 word) = k + 64 * j" by (simp only: of_nat_add)
  qed
  have "of_nat (64 * Suc j) - of_nat WORD_BITS = (of_nat (64 * j) :: 64 word)"
    by (simp add: WORD_BITS_def algebra_simps)
  then have "offset_members 0 (of_nat (64 * j)) ws = map (\<lambda>i. i + 64 * Suc j) (word_members ws)"
    using Cons.IH [of "Suc j"] Cons.prems by simp
  then show ?case
    using head by (simp add: tail word_members_Cons comp_def add.assoc add.commute [of 64])
qed

lemma dense_as_prefix:
  assumes "bs_ok b" "bs_ok c" "bs_domain_size b = bs_domain_size c"
  shows "bs_combine opr b c = on_prefix (length (bs_words b)) opr b c"
proof -
  have "length (bs_words b) = length (bs_words c)" using assms by (simp add: bs_ok_def)
  then show ?thesis using assms(3) by (simp add: bs_combine_def on_prefix_def)
qed

lemma dense_subtract_run:
  assumes "bs_ok b" "bs_ok c" "bs_domain_size b = bs_domain_size c"
  shows "\<exists>d. bs_subtract b c = Some (d, members b \<inter> members c \<noteq> {}) \<and> bs_ok d \<and> members d = members b - members c"
proof -
  have "length (bs_words b) = length (bs_words c)" using assms by (simp add: bs_ok_def)
  then have "bs_subtract b c = gbs_subtract b c"
    by (simp add: bs_subtract_def gbs_subtract_def dense_as_prefix [OF assms])
  then show ?thesis using gbs_subtract_run [OF assms(1,2)] by simp
qed

lemma dense_union_run:
  assumes "bs_ok b" "bs_ok c" "bs_domain_size b = bs_domain_size c"
  shows "\<exists>d. bs_union b c = Some (d, \<not> members c \<subseteq> members b) \<and> bs_ok d \<and> members d = members b \<union> members c"
proof -
  have "length (bs_words b) = length (bs_words c)" using assms by (simp add: bs_ok_def)
  moreover have "gbs_ensure b (bs_domain_size c) = b" using assms(3) by (simp add: gbs_ensure_def)
  ultimately have "bs_union b c = gbs_union b c"
    by (simp add: bs_union_def gbs_union_def dense_as_prefix [OF assms])
  then show ?thesis using gbs_union_run [OF assms(1,2)] by simp
qed

lemma dense_intersect_run:
  assumes "bs_ok b" "bs_ok c" "bs_domain_size b = bs_domain_size c"
  shows "\<exists>d. bs_intersect b c = Some (d, \<not> members b \<subseteq> members c) \<and> bs_ok d \<and> members d = members b \<inter> members c"
proof -
  have l: "length (bs_words b) = length (bs_words c)" using assms by (simp add: bs_ok_def)
  obtain d x where d: "on_prefix (length (bs_words b)) (\<lambda>a b. a AND b) b c = Some (d, x)"
      "length (bs_words d) = length (bs_words b)"
    using on_prefix_run [OF bitwise_ops(3) order_refl, of b c] l by auto
  then have "gbs_intersect b c = Some (d, x)" using l by (simp add: gbs_intersect_def Let_def)
  then have "bs_intersect b c = gbs_intersect b c"
    using d(1) by (simp add: bs_intersect_def dense_as_prefix [OF assms])
  then show ?thesis using gbs_intersect_run [OF assms(1,2)] by simp
qed

lemma bit_low_bits: "k < 64 \<Longrightarrow> bit (one_bit k - 1) j \<longleftrightarrow> j < k"
  by (auto simp: one_bit_def mask_eq_exp_minus_1 [symmetric] bit_mask_iff)

lemma new_filled_run:
  "bs_ok (bs_new_filled n) \<and> members (bs_new_filled n) = {..<n} \<and> bs_domain_size (bs_new_filled n) = n"
proof -
  let ?ws = "bs_words (bs_new_filled n)"
  have at: "length ?ws = num_words n \<and> (\<forall>k < num_words n. \<forall>j < 64. bit (?ws ! k) j \<longleftrightarrow> 64 * k + j < n)"
  proof (cases "n mod 64 = 0")
    case True
    then obtain m where m: "n = 64 * m" by auto
    have "num_words (64 * m) = m" unfolding num_words_def WORD_BITS_def by linarith
    moreover have "?ws = replicate m (NOT 0)"
      by (simp add: bs_new_filled_def clear_excess_bits_in_final_word_def WORD_BITS_def calculation m)
    ultimately show ?thesis by (auto simp: m bit_not_iff)
  next
    case False
    define m r where "m = n div 64" and "r = n mod 64"
    have n: "n = 64 * m + r" "0 < r" "r < 64" using False by (simp_all add: m_def r_def)
    have nw: "num_words n = Suc m"
      unfolding num_words_def WORD_BITS_def n(1) using n(2,3) by (simp add: div_nat_eqI)
    have "replicate (Suc m) x = replicate m x @ [x]" for x :: "64 word"
      by (simp add: replicate_append_same)
    then have "?ws = replicate m (NOT 0) @ [one_bit r - 1]"
      unfolding bs_new_filled_def clear_excess_bits_in_final_word_def nw Let_def WORD_BITS_def r_def [symmetric]
      using n(2) by simp
    then show ?thesis
      using n by (auto simp: nw [unfolded n(1)] nth_append bit_not_iff bit_low_bits less_Suc_eq)
  qed
  have "i \<in> members (bs_new_filled n) \<longleftrightarrow> i < n" for i
  proof -
    have "64 * (i div 64) + i mod 64 = i" by simp
    then show ?thesis using at num_words_bound [of i n] by (auto simp: in_members wbit_def)
  qed
  then have "members (bs_new_filled n) = {..<n}" by auto
  then show ?thesis using at by (auto simp: bs_ok_def) (simp_all add: bs_new_filled_def)
qed

section \<open>Properties\<close>

text \<open>
  C34. A growable bit set is a set of indices: inserting, removing and asking do what they say for
  every index and report whether the set changed, clearing empties it, and the counts agree.  The
  fixed set does the same below its domain size and panics for every other index.
\<close>

theorem bit_set_is_a_set:
  assumes "bs_ok b"
  shows "(\<exists>c. gbs_insert b i = Some (c, i \<notin> members b) \<and> bs_ok c \<and> members c = insert i (members b)) \<and>
    (\<exists>c. gbs_remove b i = Some (c, i \<in> members b) \<and> bs_ok c \<and> members c = members b - {i}) \<and>
    gbs_contains b i = Some (i \<in> members b) \<and>
    bs_contains b i = (if i < bs_domain_size b then Some (i \<in> members b) else None) \<and>
    (if i < bs_domain_size b
     then (\<exists>c. bs_insert b i = Some (c, i \<notin> members b) \<and> bs_ok c \<and> members c = insert i (members b)) \<and>
       (\<exists>c. bs_remove b i = Some (c, i \<in> members b) \<and> bs_ok c \<and> members c = members b - {i})
     else bs_insert b i = None \<and> bs_remove b i = None) \<and>
    members (bs_clear b) = {} \<and> bs_count b = card (members b) \<and> bs_is_empty b = (members b = {}) \<and>
    members (bs_new_filled i) = {..<i}"
proof (intro conjI)
  show "\<exists>c. gbs_insert b i = Some (c, i \<notin> members b) \<and> bs_ok c \<and> members c = insert i (members b)"
    using gbs_insert_run [OF assms, of i] by blast
  show "\<exists>c. gbs_remove b i = Some (c, i \<in> members b) \<and> bs_ok c \<and> members c = members b - {i}"
    using gbs_remove_run [OF assms, of i] by blast
  show "if i < bs_domain_size b
     then (\<exists>c. bs_insert b i = Some (c, i \<notin> members b) \<and> bs_ok c \<and> members c = insert i (members b)) \<and>
       (\<exists>c. bs_remove b i = Some (c, i \<in> members b) \<and> bs_ok c \<and> members c = members b - {i})
     else bs_insert b i = None \<and> bs_remove b i = None"
  proof (cases "i < bs_domain_size b")
    case True
    have "\<exists>c. bs_insert b i = Some (c, i \<notin> members b) \<and> bs_ok c \<and> members c = insert i (members b)"
      "\<exists>c. bs_remove b i = Some (c, i \<in> members b) \<and> bs_ok c \<and> members c = members b - {i}"
      using bs_insert_run [OF assms True] bs_remove_run [OF assms True] by blast+
    then show ?thesis using True by (simp only: if_True simp_thms)
  next
    case False
    then show ?thesis by (simp add: out_of_domain)
  qed
  show "bs_contains b i = (if i < bs_domain_size b then Some (i \<in> members b) else None)"
    using bs_contains_run [OF assms, of i] out_of_domain(1) [of b i] by simp
qed (simp_all add: gbs_contains_run [OF assms] bs_clear_run [OF assms] count_run is_empty_run new_filled_run)

theorem bit_set_is_a_set_witness:
  "\<exists>c. gbs_insert gbs_new 70 = Some (c, True) \<and> members c = {70}"
  using bit_set_is_a_set [of gbs_new 70] new_empty_run [of 0] by (auto simp: gbs_new_def)

text \<open>
  Union, difference and intersection of bit sets are those of the sets, between growable sets
  of different sizes as well as between fixed sets of one size, and each reports exactly whether
  the left set changed.
\<close>

theorem bit_set_relations:
  assumes "bs_ok b" "bs_ok c"
  shows "(\<exists>d. gbs_union b c = Some (d, \<not> members c \<subseteq> members b) \<and> bs_ok d \<and> members d = members b \<union> members c) \<and>
    (\<exists>d. gbs_subtract b c = Some (d, members b \<inter> members c \<noteq> {}) \<and> bs_ok d \<and> members d = members b - members c) \<and>
    (\<exists>d. gbs_intersect b c = Some (d, \<not> members b \<subseteq> members c) \<and> bs_ok d \<and> members d = members b \<inter> members c) \<and>
    (if bs_domain_size b = bs_domain_size c
     then (\<exists>d. bs_union b c = Some (d, \<not> members c \<subseteq> members b) \<and> bs_ok d \<and> members d = members b \<union> members c) \<and>
       (\<exists>d. bs_subtract b c = Some (d, members b \<inter> members c \<noteq> {}) \<and> bs_ok d \<and> members d = members b - members c) \<and>
       (\<exists>d. bs_intersect b c = Some (d, \<not> members b \<subseteq> members c) \<and> bs_ok d \<and> members d = members b \<inter> members c)
     else bs_union b c = None \<and> bs_subtract b c = None \<and> bs_intersect b c = None)"
proof (cases "bs_domain_size b = bs_domain_size c")
  case True
  then show ?thesis
    using gbs_union_run [OF assms] gbs_subtract_run [OF assms] gbs_intersect_run [OF assms]
      dense_union_run [OF assms True] dense_subtract_run [OF assms True] dense_intersect_run [OF assms True]
    by simp
next
  case False
  then show ?thesis
    using gbs_union_run [OF assms] gbs_subtract_run [OF assms] gbs_intersect_run [OF assms]
    by (simp add: bs_union_def bs_subtract_def bs_intersect_def bs_combine_def)
qed

theorem bit_set_relations_witness:
  "\<exists>d. gbs_union (bs_new_empty 5) (bs_new_empty 100) = Some (d, False) \<and> members d = {}"
  using bit_set_relations [of "bs_new_empty 5" "bs_new_empty 100"] new_empty_run [of 5] new_empty_run [of 100]
  by auto

text \<open>
  C35. The iterator, whose offset starts below zero and wraps around, yields every member once, in
  ascending order, and then ends.
\<close>

theorem bit_iter_ascending:
  assumes "64 * length (bs_words b) \<le> 2 ^ 64"
  shows "iter_list (Suc (bs_count b)) (iter_new (bs_words b)) = Some (sorted_list_of_set (members b))"
proof -
  have off: "it_offset (iter_new (bs_words b)) = of_nat (64 * 0) - of_nat WORD_BITS"
    by (simp add: iter_new_def WORD_BITS_def)
  have m: "offset_members 0 (of_nat (64 * 0) - of_nat WORD_BITS) (bs_words b) = word_members (bs_words b)"
    using offset_members_words [of 0 "bs_words b"] assms by simp
  have "sorted_list_of_set (members b) = word_members (bs_words b)"
    unfolding members_def set_word_members [symmetric]
    by (rule sorted_list_of_set.idem_if_sorted_distinct)
      (simp_all add: word_members_def sorted_wrt_filter)
  moreover have "length (word_members (bs_words b)) = bs_count b"
  proof -
    have "distinct (word_members (bs_words b))" by (simp add: word_members_def)
    from distinct_card [OF this] show ?thesis
      by (simp only: count_run members_def set_word_members)
  qed
  ultimately show ?thesis
    using iter_list_run [of "iter_new (bs_words b)" "Suc (bs_count b)"] m off
    by (simp add: iter_new_def del: iter_list.simps)
qed

theorem bit_iter_ascending_witness:
  "iter_list (Suc (bs_count \<lparr>bs_domain_size = 70, bs_words = [5, 1]\<rparr>)) (iter_new [5, 1]) =
    Some (sorted_list_of_set (members \<lparr>bs_domain_size = 70, bs_words = [5, 1]\<rparr>))"
  using bit_iter_ascending [of "\<lparr>bs_domain_size = 70, bs_words = [5, 1]\<rparr>"] by (simp del: iter_list.simps)

end
