(* ===== verification/Queues.thy ===== *)
theory Queues
  imports IndexedHeap BitSet Arc
begin

text \<open>
  The queue disciplines of \<open>queue.rs\<close>.  A queue operation is a run: \<open>None\<close> is a panic.  The
  interface every discipline keeps is the locale \<open>discipline\<close>; a search that takes states out of
  a queue relies on nothing else.
\<close>

section \<open>Queue types\<close>

datatype queue_type = QTrivial | QFifo | QLifo | QShortestFirst | QTopOrder | QStateOrder | QScc | QAuto | QOther

section \<open>The plain disciplines\<close>

text \<open>A \<open>TrivialQueue\<close> is the state at its front, a \<open>FifoQueue\<close> and a \<open>LifoQueue\<close> are the
  lists of their states.\<close>

type_synonym trivial_queue = "state_id option"

definition tq_enqueue :: "trivial_queue \<Rightarrow> state_id \<Rightarrow> trivial_queue option" where
  "tq_enqueue q state = Some (Some state)"

definition tq_dequeue :: "trivial_queue \<Rightarrow> (state_id option \<times> trivial_queue) option" where
  "tq_dequeue q = Some (q, None)"

definition fifo_head :: "state_id list \<Rightarrow> state_id option" where
  "fifo_head q = (case q of [] \<Rightarrow> None | s # _ \<Rightarrow> Some s)"

definition fifo_enqueue :: "state_id list \<Rightarrow> state_id \<Rightarrow> state_id list option" where
  "fifo_enqueue q state = Some (q @ [state])"

definition fifo_dequeue :: "state_id list \<Rightarrow> (state_id option \<times> state_id list) option" where
  "fifo_dequeue q = Some (case q of [] \<Rightarrow> (None, []) | s # q \<Rightarrow> (Some s, q))"

definition lifo_head :: "state_id list \<Rightarrow> state_id option" where
  "lifo_head q = (if q = [] then None else Some (last q))"

definition lifo_enqueue :: "state_id list \<Rightarrow> state_id \<Rightarrow> state_id list option" where
  "lifo_enqueue q state = Some (q @ [state])"

definition lifo_dequeue :: "state_id list \<Rightarrow> (state_id option \<times> state_id list) option" where
  "lifo_dequeue q = Some (if q = [] then (None, []) else (Some (last q), butlast q))"

section \<open>Lightest first\<close>

record shortest_queue =
  sq_heap :: "state_id indexed_heap"
  sq_keys :: "nat option list"

definition sq_new :: "(state_id \<Rightarrow> state_id \<Rightarrow> bool) \<Rightarrow> shortest_queue" where
  "sq_new cmp = \<lparr>sq_heap = ih_new cmp, sq_keys = []\<rparr>"

definition sq_head :: "shortest_queue \<Rightarrow> state_id option" where
  "sq_head q = ih_top (sq_heap q)"

text \<open>The flag is the const parameter \<open>UPDATE\<close>.\<close>

definition sq_enqueue :: "bool \<Rightarrow> shortest_queue \<Rightarrow> state_id \<Rightarrow> shortest_queue option" where
  "sq_enqueue upd q state = do {
     (h, key) \<leftarrow> ih_insert (sq_heap q) state;
     let q = q\<lparr>sq_heap := h\<rparr>;
     (if upd then do {
        let keys = (if length (sq_keys q) \<le> state then vresize (state + 1) None (sq_keys q) else sq_keys q);
        keys \<leftarrow> vset keys state (Some key);
        Some (q\<lparr>sq_keys := keys\<rparr>) }
      else Some q) }"

definition sq_dequeue :: "bool \<Rightarrow> shortest_queue \<Rightarrow> (state_id option \<times> shortest_queue) option" where
  "sq_dequeue upd q = do {
     (r, h) \<leftarrow> ih_pop (sq_heap q);
     let q = q\<lparr>sq_heap := h\<rparr>;
     (case r of
        None \<Rightarrow> Some (None, q)
      | Some state \<Rightarrow>
          if upd then do {
            keys \<leftarrow> vset (sq_keys q) state None;
            Some (Some state, q\<lparr>sq_keys := keys\<rparr>) }
          else Some (Some state, q)) }"

definition sq_update :: "bool \<Rightarrow> shortest_queue \<Rightarrow> state_id \<Rightarrow> shortest_queue option" where
  "sq_update upd q state =
     (if \<not> upd then Some q
      else
        (case vget (sq_keys q) state of
           Some (Some key) \<Rightarrow> do {
             h \<leftarrow> ih_update (sq_heap q) key state;
             Some (q\<lparr>sq_heap := h\<rparr>) }
         | _ \<Rightarrow> sq_enqueue upd q state))"

definition sq_clear :: "shortest_queue \<Rightarrow> shortest_queue option" where
  "sq_clear q = do { h \<leftarrow> ih_clear (sq_heap q); Some (q\<lparr>sq_heap := h, sq_keys := []\<rparr>) }"

section \<open>Orders on states\<close>

definition state_weight_compare :: "'w list \<Rightarrow> ('w \<Rightarrow> 'w \<Rightarrow> bool) \<Rightarrow> state_id \<Rightarrow> state_id \<Rightarrow> bool" where
  "state_weight_compare distance lt x y =
     (case (vget distance x, vget distance y) of
        (Some wx, Some wy) \<Rightarrow> lt wx wy
      | (Some _, None) \<Rightarrow> True
      | _ \<Rightarrow> False)"

definition natural_less_unchecked :: "('w \<Rightarrow> 'w \<Rightarrow> 'w) \<Rightarrow> 'w \<Rightarrow> 'w \<Rightarrow> bool" where
  "natural_less_unchecked pl lhs rhs = (lhs \<noteq> rhs \<and> pl lhs rhs = lhs)"

definition distance_estimate :: "'w::zero list \<Rightarrow> state_id \<Rightarrow> 'w" where
  "distance_estimate beta s = (case vget beta s of Some w \<Rightarrow> w | None \<Rightarrow> 0)"

definition trivial_estimate :: "state_id \<Rightarrow> 'w::one" where
  "trivial_estimate s = 1"

definition a_star_compare ::
  "'w list \<Rightarrow> ('w \<Rightarrow> 'w \<Rightarrow> 'w) \<Rightarrow> ('w \<Rightarrow> 'w \<Rightarrow> bool) \<Rightarrow> (state_id \<Rightarrow> 'w) \<Rightarrow> state_id \<Rightarrow> state_id \<Rightarrow> bool" where
  "a_star_compare distance tm lt estimate x y =
     (case (vget distance x, vget distance y) of
        (Some wx, Some wy) \<Rightarrow> lt (tm wx (estimate x)) (tm wy (estimate y))
      | (Some _, None) \<Rightarrow> True
      | _ \<Rightarrow> False)"


section \<open>The interface\<close>

text \<open>\<open>bag\<close> is the multiset of queued states, \<open>ok q s\<close> says that \<open>s\<close> may be given to \<open>q\<close>.  A
  discipline may keep one copy of a state that is given to it twice; taking serves the head.\<close>

fun serve_all :: "('q \<Rightarrow> (state_id option \<times> 'q) option) \<Rightarrow> nat \<Rightarrow> 'q \<Rightarrow> (state_id list \<times> 'q) option" where
  "serve_all deq 0 q = None"
| "serve_all deq (Suc n) q =
     (case deq q of
        None \<Rightarrow> None
      | Some (None, r) \<Rightarrow> Some ([], r)
      | Some (Some s, r) \<Rightarrow> map_option (\<lambda>(ss, t). (s # ss, t)) (serve_all deq n r))"

locale discipline =
  fixes inv :: "'q \<Rightarrow> bool"
    and bag :: "'q \<Rightarrow> state_id multiset"
    and ok :: "'q \<Rightarrow> state_id \<Rightarrow> bool"
    and hd_of :: "'q \<Rightarrow> state_id option option"
    and enq :: "'q \<Rightarrow> state_id \<Rightarrow> 'q option"
    and deq :: "'q \<Rightarrow> (state_id option \<times> 'q) option"
  assumes enq_law: "inv q \<Longrightarrow> ok q s \<Longrightarrow> \<exists>r. enq q s = Some r \<and> inv r \<and>
      (bag r = add_mset s (bag q) \<or> s \<in># bag q \<and> bag r = bag q)"
    and deq_empty: "inv q \<Longrightarrow> bag q = {#} \<Longrightarrow>
      \<exists>r. hd_of q = Some None \<and> deq q = Some (None, r) \<and> inv r \<and> bag r = {#}"
    and deq_some: "inv q \<Longrightarrow> bag q \<noteq> {#} \<Longrightarrow>
      \<exists>s r. hd_of q = Some (Some s) \<and> deq q = Some (Some s, r) \<and> inv r \<and> s \<in># bag q \<and>
        bag r = bag q - {#s#}"
begin

lemma head_is_next: "inv q \<Longrightarrow> \<exists>r. deq q = Some (the (hd_of q), r)"
  using deq_empty deq_some by fastforce

lemma serve_all_run:
  "inv q \<Longrightarrow> size (bag q) < n \<Longrightarrow>
     \<exists>ss r. serve_all deq n q = Some (ss, r) \<and> mset ss = bag q \<and> inv r \<and> bag r = {#}"
proof (induction n arbitrary: q)
  case (Suc n)
  show ?case
  proof (cases "bag q = {#}")
    case True
    then show ?thesis using deq_empty [OF Suc.prems(1)] by auto
  next
    case False
    obtain s r where r: "deq q = Some (Some s, r)" "inv r" "s \<in># bag q" "bag r = bag q - {#s#}"
      using deq_some [OF Suc.prems(1) False] by blast
    moreover have "0 < size (bag q)" using False by (simp add: nonempty_has_size)
    ultimately have "size (bag r) < n" using Suc.prems(2) by (simp add: size_Diff_singleton)
    from Suc.IH [OF r(2) this] r show ?thesis by auto
  qed
qed simp

lemma enqueue_all_run:
  assumes "inv q" "I q" "\<And>q s. inv q \<Longrightarrow> I q \<Longrightarrow> s \<in> set ss \<Longrightarrow> ok q s"
    "\<And>q s r. inv q \<Longrightarrow> I q \<Longrightarrow> enq q s = Some r \<Longrightarrow> I r"
  shows "\<exists>r. ofold (\<lambda>s q. enq q s) ss q = Some r \<and> inv r \<and> I r \<and>
    set_mset (bag r) = set_mset (bag q) \<union> set ss \<and> bag r \<subseteq># bag q + mset ss"
  using assms(1,2,3)
proof (induction ss arbitrary: q)
  case (Cons s ss)
  obtain r where r: "enq q s = Some r" "inv r" "bag r = add_mset s (bag q) \<or> s \<in># bag q \<and> bag r = bag q"
    using enq_law [OF Cons.prems(1) Cons.prems(3) [OF Cons.prems(1,2) list.set_intros(1)]] by blast
  have "I r" using assms(4) [OF Cons.prems(1,2) r(1)] .
  with Cons.IH [OF r(2)] Cons.prems(3) obtain t where t: "ofold (\<lambda>s q. enq q s) ss r = Some t" "inv t" "I t"
      "set_mset (bag t) = set_mset (bag r) \<union> set ss" "bag t \<subseteq># bag r + mset ss"
    by auto
  have "set_mset (bag t) = set_mset (bag q) \<union> set (s # ss)" using t(4) r(3) by (elim disjE) (simp_all add: insert_absorb)
  moreover have "bag r + mset ss \<subseteq># bag q + mset (s # ss)"
    using r(3) by (auto simp: subseteq_mset_def)
  then have "bag t \<subseteq># bag q + mset (s # ss)" using t(5) subset_mset.order_trans by blast
  moreover have "ofold (\<lambda>s q. enq q s) (s # ss) q = Some t" using r(1) t(1) by simp
  ultimately show ?case using t(2,3) by blast
qed simp

end

text \<open>A discipline that serves in an order.\<close>

locale ordered_discipline = discipline +
  fixes before :: "'a \<Rightarrow> state_id \<Rightarrow> state_id \<Rightarrow> bool"
  assumes first_law: "inv q \<Longrightarrow> deq q = Some (Some s, r) \<Longrightarrow>
      before r = before q \<and> (\<forall>t \<in># bag q. \<not> before q t s)"
begin

lemma serves_in_order:
  "inv q \<Longrightarrow> size (bag q) < n \<Longrightarrow> \<exists>ss r. serve_all deq n q = Some (ss, r) \<and> mset ss = bag q \<and>
     sorted_wrt (\<lambda>a b. \<not> before q b a) ss"
proof (induction n arbitrary: q)
  case (Suc n)
  show ?case
  proof (cases "bag q = {#}")
    case True
    then show ?thesis using deq_empty [OF Suc.prems(1)] by auto
  next
    case False
    obtain s r where r: "deq q = Some (Some s, r)" "inv r" "s \<in># bag q" "bag r = bag q - {#s#}"
      using deq_some [OF Suc.prems(1) False] by blast
    note first = first_law [OF Suc.prems(1) r(1)]
    have "0 < size (bag q)" using False by (simp add: nonempty_has_size)
    then have "size (bag r) < n" using Suc.prems(2) r(3,4) by (simp add: size_Diff_singleton)
    from Suc.IH [OF r(2) this] obtain ss t where
      ss: "serve_all deq n r = Some (ss, t)" "mset ss = bag r" "sorted_wrt (\<lambda>a b. \<not> before q b a) ss"
      using first by auto
    have "set ss \<subseteq> set_mset (bag q)"
      using ss(2) r(4) by (metis diff_subset_eq_self set_mset_mono set_mset_mset)
    then have "\<forall>t \<in> set ss. \<not> before q t s" using first by blast
    moreover have "mset (s # ss) = bag q" using ss(2) r(3,4) by simp
    ultimately show ?thesis using r(1) ss by auto
  qed
qed simp

end

section \<open>The plain disciplines keep it\<close>

definition front_bag :: "trivial_queue \<Rightarrow> state_id multiset" where
  "front_bag q = (case q of None \<Rightarrow> {#} | Some s \<Rightarrow> {#s#})"

interpretation trivialq: discipline "\<lambda>_. True" front_bag "\<lambda>q s. q = None \<or> q = Some s" Some
    tq_enqueue tq_dequeue
  by unfold_locales (auto simp: front_bag_def tq_enqueue_def tq_dequeue_def split: option.splits)

interpretation fifoq: discipline "\<lambda>_. True" mset "\<lambda>_ _. True" "\<lambda>q. Some (fifo_head q)"
    fifo_enqueue fifo_dequeue
  by unfold_locales (auto simp: fifo_enqueue_def fifo_dequeue_def fifo_head_def split: list.splits)

interpretation lifoq: discipline "\<lambda>_. True" mset "\<lambda>_ _. True" "\<lambda>q. Some (lifo_head q)"
    lifo_enqueue lifo_dequeue
proof (unfold_locales, goal_cases)
  case (3 q)
  then obtain xs x where "q = xs @ [x]" by (metis mset_zero_iff rev_exhaust)
  then show ?case by (simp add: lifo_dequeue_def lifo_head_def)
qed (auto simp: lifo_enqueue_def lifo_dequeue_def lifo_head_def)

section \<open>Lightest first keeps it\<close>

definition sq_bag :: "shortest_queue \<Rightarrow> state_id multiset" where
  "sq_bag q = items_bag (contents (sq_heap q))"

text \<open>What the key vector says is true: the key it has for a state is live and the state is there;
  and it has room for every queued state.\<close>

definition keys_true :: "(nat \<rightharpoonup> state_id) \<Rightarrow> nat option list \<Rightarrow> bool" where
  "keys_true m keys \<longleftrightarrow>
     (\<forall>s < length keys. \<forall>k. keys ! s = Some k \<longrightarrow> m k = Some s) \<and>
     (\<forall>k s. m k = Some s \<longrightarrow> s < length keys)"

lemma keys_trueD:
  "keys_true m keys \<Longrightarrow> s < length keys \<Longrightarrow> keys ! s = Some k \<Longrightarrow> m k = Some s"
  "keys_true m keys \<Longrightarrow> m k = Some s \<Longrightarrow> s < length keys"
  unfolding keys_true_def by blast+

lemma keys_trueI:
  "(\<And>s k. s < length keys \<Longrightarrow> keys ! s = Some k \<Longrightarrow> m k = Some s) \<Longrightarrow>
   (\<And>k s. m k = Some s \<Longrightarrow> s < length keys) \<Longrightarrow> keys_true m keys"
  unfolding keys_true_def by blast

definition sq_ok :: "bool \<Rightarrow> shortest_queue \<Rightarrow> bool" where
  "sq_ok upd q \<longleftrightarrow> heap_ok (sq_heap q) \<and> (upd \<longrightarrow> keys_true (contents (sq_heap q)) (sq_keys q))"

definition sq_room :: "shortest_queue \<Rightarrow> bool" where
  "sq_room q \<longleftrightarrow> heap_room (sq_heap q)"

definition put_at :: "shortest_queue \<Rightarrow> state_id \<Rightarrow> nat \<Rightarrow> shortest_queue \<Rightarrow> bool" where
  "put_at q s k r \<longleftrightarrow> contents (sq_heap r) = (contents (sq_heap q))(k \<mapsto> s) \<and>
     vget (sq_keys r) s = Some (Some k) \<and>
     (\<forall>t \<noteq> s. t < length (sq_keys q) \<longrightarrow> vget (sq_keys r) t = vget (sq_keys q) t)"

lemma sq_enqueue_run:
  assumes ok: "sq_ok upd q" and room: "sq_room q"
  shows "\<exists>r. sq_enqueue upd q s = Some r \<and> sq_ok upd r \<and> sq_bag r = add_mset s (sq_bag q) \<and>
    ih_comp (sq_heap r) = ih_comp (sq_heap q) \<and>
    (upd \<longrightarrow> (\<exists>k. contents (sq_heap q) k = None \<and> put_at q s k r))"
proof -
  have h: "heap_ok (sq_heap q)" using ok by (simp add: sq_ok_def)
  obtain G k where G: "ih_insert (sq_heap q) s = Some (G, k)" "heap_ok G" "contents (sq_heap q) k = None"
      "contents G = (contents (sq_heap q))(k \<mapsto> s)" "ih_comp G = ih_comp (sq_heap q)"
    using heapq.put_ok [OF h, of s] room by (auto simp: sq_room_def)
  let ?ks = "if length (sq_keys q) \<le> s then vresize (s + 1) None (sq_keys q) else sq_keys q"
  define r where "r = (if upd then q\<lparr>sq_heap := G, sq_keys := ?ks[s := Some k]\<rparr> else q\<lparr>sq_heap := G\<rparr>)"
  have len: "s < length ?ks" by simp
  have run: "sq_enqueue upd q s = Some r"
    using G(1) len by (auto simp: sq_enqueue_def Let_def r_def)
  have "items_bag (contents G) = add_mset s (items_bag (contents (sq_heap q)))"
    by (rule heapq.bag_put [OF G(2,3,4)])
  then have "sq_bag r = add_mset s (sq_bag q)" by (simp add: sq_bag_def r_def)
  moreover have "sq_ok upd r"
  proof (cases upd)
    case True
    have heap_r: "sq_heap r = G" by (simp add: r_def)
    have c: "contents (sq_heap r) = (contents (sq_heap q))(k \<mapsto> s)"
      unfolding heap_r by (rule G(4))
    have ks: "sq_keys r = ?ks[s := Some k]" using True by (simp add: r_def)
    have kt: "keys_true (contents (sq_heap q)) (sq_keys q)" using ok True by (simp add: sq_ok_def)
    have "keys_true (contents (sq_heap r)) (sq_keys r)"
    proof (rule keys_trueI)
      fix t j assume t: "t < length (sq_keys r)" "sq_keys r ! t = Some j"
      show "contents (sq_heap r) j = Some t"
      proof (cases "t = s")
        case False
        then have "t < length (sq_keys q) \<and> sq_keys q ! t = Some j"
          using t by (auto simp: ks nth_vresize split: if_splits)
        then show ?thesis using keys_trueD(1) [OF kt] G(3) by (auto simp: c)
      qed (use t len in \<open>auto simp: ks c\<close>)
    next
      fix t j assume t: "contents (sq_heap r) j = Some t"
      show "t < length (sq_keys r)"
      proof (cases "j = k")
        case False
        then show ?thesis using keys_trueD(2) [OF kt, of j t] t by (auto simp: ks c)
      qed (use t len in \<open>auto simp: ks c\<close>)
    qed
    then show ?thesis using G(2) heap_r by (simp add: sq_ok_def)
  qed (use G(2) in \<open>simp add: sq_ok_def r_def\<close>)
  moreover have "put_at q s k r" if upd
  proof -
    have heap_r: "sq_heap r = G" by (simp add: r_def)
    have ks: "sq_keys r = ?ks[s := Some k]" using that by (simp add: r_def)
    show ?thesis
      unfolding put_at_def heap_r using G(4) len by (auto simp: ks vget_def nth_vresize)
  qed
  moreover have "ih_comp (sq_heap r) = ih_comp (sq_heap q)" using G(5) by (simp add: r_def)
  ultimately show ?thesis using run G(3) by blast
qed

lemma sq_empty: "sq_ok upd q \<Longrightarrow> sq_bag q = {#} \<longleftrightarrow> ih_elements (sq_heap q) = []"
proof -
  assume "sq_ok upd q"
  then have "finite (dom (contents (sq_heap q)))" by (simp add: sq_ok_def heapq.finite_items)
  then have "sq_bag q = {#} \<longleftrightarrow> dom (contents (sq_heap q)) = {}"
    by (simp add: sq_bag_def items_bag_def mset_set_empty_iff)
  then show ?thesis using contents_empty [of "sq_heap q"] by simp
qed

lemma sq_dequeue_none:
  assumes "sq_ok upd q" "sq_bag q = {#}"
  shows "sq_head q = None \<and> sq_dequeue upd q = Some (None, q)"
  using assms sq_empty [OF assms(1)] by (simp add: sq_head_def ih_top_def sq_dequeue_def pop_empty)

lemma sq_dequeue_run:
  assumes ok: "sq_ok upd q" and ne: "sq_bag q \<noteq> {#}"
  shows "\<exists>s r. sq_head q = Some s \<and> sq_dequeue upd q = Some (Some s, r) \<and> sq_ok upd r \<and> s \<in># sq_bag q \<and>
    sq_bag r = sq_bag q - {#s#} \<and> ih_comp (sq_heap r) = ih_comp (sq_heap q) \<and>
    (\<forall>t \<in># sq_bag q. \<not> ih_comp (sq_heap q) t s)"
proof -
  let ?H = "sq_heap q"
  have h: "heap_ok ?H" using ok by (simp add: sq_ok_def)
  obtain e es where es: "ih_elements ?H = e # es"
    using ne sq_empty [OF ok] by (meson neq_Nil_conv)
  define s where "s = nd_value e"
  have "contents ?H \<noteq> Map.empty" using es contents_empty [of ?H] by simp
  from pop_some [OF h this] pop_run [OF h es] obtain k G where
    G: "ih_pop ?H = Some (Some s, G)" "heap_ok G" "contents ?H k = Some s"
      "contents G = (contents ?H)(k := None)" "ih_comp G = ih_comp ?H"
      "\<forall>l w. contents ?H l = Some w \<longrightarrow> \<not> ih_comp ?H w s"
    by (auto simp: s_def)
  define r where "r = (if upd then q\<lparr>sq_heap := G, sq_keys := (sq_keys q)[s := None]\<rparr> else q\<lparr>sq_heap := G\<rparr>)"
  have heap_r: "sq_heap r = G" by (simp add: r_def)
  have len: "upd \<Longrightarrow> s < length (sq_keys q)" using ok G(3) keys_trueD(2) unfolding sq_ok_def by blast
  have run: "sq_dequeue upd q = Some (Some s, r)" using G(1) len by (simp add: sq_dequeue_def r_def)
  have top: "sq_head q = Some s" using es by (simp add: sq_head_def ih_top_def s_def)
  have bag: "sq_bag q = add_mset s (sq_bag r)"
    unfolding sq_bag_def heap_r by (rule heapq.bag_remove [OF h G(3,4)])
  have "sq_ok upd r"
  proof (cases upd)
    case True
    have ks: "sq_keys r = (sq_keys q)[s := None]" using True by (simp add: r_def)
    have kt: "keys_true (contents ?H) (sq_keys q)" using ok True by (simp add: sq_ok_def)
    have "keys_true (contents G) (sq_keys r)"
    proof (rule keys_trueI)
      fix t j assume t: "t < length (sq_keys r)" "sq_keys r ! t = Some j"
      then have "t \<noteq> s" by (auto simp: ks)
      moreover from this t have "contents ?H j = Some t" using keys_trueD(1) [OF kt] by (simp add: ks)
      ultimately show "contents G j = Some t" using G(3) by (auto simp: G(4))
    next
      fix t j assume "contents G j = Some t"
      then have "contents ?H j = Some t" by (auto simp: G(4) split: if_splits)
      then show "t < length (sq_keys r)" using keys_trueD(2) [OF kt] by (simp add: ks)
    qed
    then show ?thesis using G(2) heap_r by (simp add: sq_ok_def)
  qed (use G(2) in \<open>simp add: sq_ok_def r_def\<close>)
  moreover have "\<not> ih_comp ?H t s" if "t \<in># sq_bag q" for t
  proof -
    from that obtain k where "k \<in> dom (contents ?H)" "t = the (contents ?H k)"
      using heapq.finite_items [OF h] by (auto simp: sq_bag_def items_bag_def)
    then show ?thesis using G(6) by auto
  qed
  ultimately show ?thesis using run top bag G(5) heap_r by auto
qed

interpretation shortq: ordered_discipline "sq_ok upd" sq_bag "\<lambda>q _. sq_room q" "\<lambda>q. Some (sq_head q)"
    "sq_enqueue upd" "sq_dequeue upd" "\<lambda>q. ih_comp (sq_heap q)" for upd
proof (unfold_locales, goal_cases)
  case (1 q s)
  then show ?case using sq_enqueue_run by blast
next
  case (2 q)
  then show ?case using sq_dequeue_none by blast
next
  case (3 q)
  then show ?case using sq_dequeue_run by blast
next
  case (4 q s r)
  then have "sq_bag q \<noteq> {#}" using sq_dequeue_none by force
  from sq_dequeue_run [OF 4(1) this] 4(2) show ?case by auto
qed

lemma sq_bag_iff: "sq_ok upd q \<Longrightarrow> s \<in># sq_bag q \<longleftrightarrow> (\<exists>k. contents (sq_heap q) k = Some s)"
proof -
  assume "sq_ok upd q"
  then have "finite (dom (contents (sq_heap q)))" by (simp add: sq_ok_def heapq.finite_items)
  then have "s \<in># sq_bag q \<longleftrightarrow> (\<exists>k \<in> dom (contents (sq_heap q)). s = the (contents (sq_heap q) k))"
    unfolding sq_bag_def items_bag_def by auto
  then show ?thesis by (metis domI domIff option.exhaust_sel option.sel)
qed

text \<open>Every queued state is held once, under the key that is on record.\<close>

definition keys_whole :: "(nat \<rightharpoonup> state_id) \<Rightarrow> nat option list \<Rightarrow> bool" where
  "keys_whole m keys \<longleftrightarrow> (\<forall>k s. m k = Some s \<longrightarrow> vget keys s = Some (Some k))"

lemma keys_wholeD: "keys_whole m keys \<Longrightarrow> m k = Some s \<Longrightarrow> vget keys s = Some (Some k)"
  unfolding keys_whole_def by blast

definition sq_tracked :: "shortest_queue \<Rightarrow> bool" where
  "sq_tracked q \<longleftrightarrow> keys_whole (contents (sq_heap q)) (sq_keys q)"

text \<open>The order of the heap only matters on what is in it.\<close>

lemma heap_ok_reorder:
  assumes ok: "heap_ok (H\<lparr>ih_comp := old\<rparr>)" and rk: "ranks (ih_comp H)"
    and agree: "\<And>k l u v. contents H k = Some u \<Longrightarrow> contents H l = Some v \<Longrightarrow> ih_comp H u v = old u v"
  shows "heap_ok H"
proof -
  have kd: "keyed (ih_elements H) (ih_pos H)" and ord: "heap_order old (ih_elements H)"
    using ok by (simp_all add: heap_ok_def)
  have at: "contents H (unat (nd_key (ih_elements H ! i))) = Some (nd_value (ih_elements H ! i))"
    if "i < length (ih_elements H)" for i using that contents_nth [OF kd] by blast
  have "heap_order (ih_comp H) (ih_elements H)"
    unfolding heap_order_def
  proof (intro allI impI)
    fix i assume i: "i < length (ih_elements H)" "0 < i"
    then have "par i < length (ih_elements H)" using par_less [of i] by simp
    from agree [OF at [OF i(1)] at [OF this]] ord i show "below (ih_comp H) (ih_elements H) i (par i)"
      by (simp add: heap_order_def below_def)
  qed
  then show ?thesis using ok rk by (simp add: heap_ok_def)
qed

text \<open>\<open>moved q cmp\<close>: the queue after the distances it compares by have changed.\<close>

abbreviation moved :: "shortest_queue \<Rightarrow> (state_id \<Rightarrow> state_id \<Rightarrow> bool) \<Rightarrow> shortest_queue" where
  "moved q cmp \<equiv> q\<lparr>sq_heap := (sq_heap q)\<lparr>ih_comp := cmp\<rparr>\<rparr>"

lemma contents_comp [simp]: "contents (H\<lparr>ih_comp := cmp\<rparr>) = contents H"
  by (simp add: contents_def)

lemma sq_update_run:
  assumes ok: "sq_ok True q" and tr: "sq_tracked q" and rk: "ranks cmp"
    and agree: "\<And>x y. x \<noteq> s \<Longrightarrow> y \<noteq> s \<Longrightarrow> cmp x y = ih_comp (sq_heap q) x y"
    and room: "s \<in># sq_bag q \<or> sq_room q"
  shows "\<exists>r. sq_update True (moved q cmp) s = Some r \<and> sq_ok True r \<and> sq_tracked r \<and>
    ih_comp (sq_heap r) = cmp \<and> sq_bag r = (if s \<in># sq_bag q then sq_bag q else add_mset s (sq_bag q))"
proof -
  let ?H = "(sq_heap q)\<lparr>ih_comp := cmp\<rparr>"
  have h: "heap_ok (sq_heap q)" using ok by (simp add: sq_ok_def)
  then have h_old: "heap_ok (?H\<lparr>ih_comp := ih_comp (sq_heap q)\<rparr>)" by simp
  show ?thesis
  proof (cases "s \<in># sq_bag q")
    case True
    then obtain k where k: "contents (sq_heap q) k = Some s" using sq_bag_iff [OF ok] by blast
    then have key: "vget (sq_keys q) s = Some (Some k)" using keys_wholeD tr unfolding sq_tracked_def by blast
    have only: "u \<noteq> s" if "contents (sq_heap q) j = Some u" "j \<noteq> k" for j u
      using keys_wholeD [OF tr [unfolded sq_tracked_def] that(1)] key that(2) by auto
    have "agrees_except (ih_comp (sq_heap q)) ?H k"
      unfolding agrees_except_def using only agree by simp
    from update_moves [OF h_old _ this, of s s] rk k obtain G where
      G: "ih_update ?H k s = Some G" "heap_ok G" "contents G = (contents ?H)(k \<mapsto> s)" "ih_comp G = cmp"
      by auto
    have c: "contents G = contents (sq_heap q)" using G(3) k by (auto simp: fun_eq_iff)
    have "sq_update True (moved q cmp) s = Some (q\<lparr>sq_heap := G\<rparr>)"
      using G(1) key by (simp add: sq_update_def)
    moreover have "sq_ok True (q\<lparr>sq_heap := G\<rparr>)" using ok G(2) c by (simp add: sq_ok_def)
    moreover have "sq_tracked (q\<lparr>sq_heap := G\<rparr>)" using tr c by (simp add: sq_tracked_def)
    moreover have "sq_bag (q\<lparr>sq_heap := G\<rparr>) = sq_bag q" using c by (simp add: sq_bag_def)
    ultimately show ?thesis using True G(4) by simp
  next
    case False
    then have none: "contents (sq_heap q) j \<noteq> Some s" for j using sq_bag_iff [OF ok] by blast
    have "ih_comp ?H u v = ih_comp (sq_heap q) u v"
      if "contents ?H k = Some u" "contents ?H l = Some v" for k l u v
      using that none [of k] none [of l] agree [of u v] by auto
    then have "heap_ok ?H" using heap_ok_reorder [OF h_old] rk by simp
    then have ok': "sq_ok True (moved q cmp)" using ok by (simp add: sq_ok_def)
    have bag': "sq_bag (moved q cmp) = sq_bag q" by (simp add: sq_bag_def)
    have room': "sq_room (moved q cmp)" using room False by (simp add: sq_room_def heap_room_def)
    from sq_enqueue_run [OF ok' this, of s] obtain r where
      r: "sq_enqueue True (moved q cmp) s = Some r" "sq_ok True r" "sq_bag r = add_mset s (sq_bag q)"
        "ih_comp (sq_heap r) = cmp"
      using bag' by auto
    from sq_enqueue_run [OF ok' room', of s] r(1) obtain k where put: "put_at q s k r"
      by (auto simp: put_at_def)
    have "vget (sq_keys q) s \<noteq> Some (Some k)" for k
      using ok none keys_trueD(1) unfolding sq_ok_def by (metis vget_eq_Some)
    then have "sq_update True (moved q cmp) s = Some r"
      using r(1) by (auto simp: sq_update_def split: option.split)
    moreover have "sq_tracked r"
      unfolding sq_tracked_def keys_whole_def
    proof (intro allI impI)
      fix j t assume t: "contents (sq_heap r) j = Some t"
      show "vget (sq_keys r) t = Some (Some j)"
      proof (cases "j = k")
        case False
        then have "contents (sq_heap q) j = Some t" using t put by (simp add: put_at_def)
        moreover from this have "t \<noteq> s" "vget (sq_keys q) t = Some (Some j)"
          using none keys_wholeD tr unfolding sq_tracked_def by blast+
        ultimately show ?thesis using put by (auto simp: put_at_def vget_eq_Some)
      qed (use t put in \<open>simp add: put_at_def\<close>)
    qed
    ultimately show ?thesis using r False by auto
  qed
qed

section \<open>What the orders promise\<close>

text \<open>Ordering by a measure that may be missing, the missing last.\<close>

lemma ranks_partial:
  assumes rk: "ranks lt"
    and c: "\<And>x y. cmp x y = (case (f x, f y) of (Some a, Some b) \<Rightarrow> lt a b | (Some _, None) \<Rightarrow> True | _ \<Rightarrow> False)"
  shows "ranks cmp"
  unfolding ranks_def
proof (intro conjI allI impI)
  fix x y assume "cmp x y"
  then show "\<not> cmp y x" using ranks_asym [OF rk] by (cases "f x"; cases "f y") (simp_all add: c)
next
  fix x y z assume "\<not> cmp x y" "\<not> cmp y z"
  then show "\<not> cmp x z"
    by (cases "f x"; cases "f y"; cases "f z") (simp_all add: c, metis rk ranks_trans)
qed

lemma ranks_state_weight: "ranks lt \<Longrightarrow> ranks (state_weight_compare d lt)"
  by (rule ranks_partial [where f = "vget d"]) (simp_all add: state_weight_compare_def)

lemma ranks_a_star:
  assumes "ranks lt"
  shows "ranks (a_star_compare d tm lt est)"
proof (rule ranks_partial [OF assms, where f = "\<lambda>x. map_option (\<lambda>w. tm w (est x)) (vget d x)"])
  show "a_star_compare d tm lt est x y =
    (case (map_option (\<lambda>w. tm w (est x)) (vget d x), map_option (\<lambda>w. tm w (est y)) (vget d y)) of
       (Some a, Some b) \<Rightarrow> lt a b | (Some _, None) \<Rightarrow> True | _ \<Rightarrow> False)" for x y
    by (cases "vget d x"; cases "vget d y") (simp_all add: a_star_compare_def)
qed

text \<open>A first-in first-out queue serves the states in the order they came, a last-in first-out
  queue in the reverse order.\<close>

lemma fifo_and_lifo_serve_all:
  "(do { q \<leftarrow> ofold (\<lambda>s q. fifo_enqueue q s) ss []; serve_all fifo_dequeue (Suc (length ss)) q }) = Some (ss, []) \<and>
   (do { q \<leftarrow> ofold (\<lambda>s q. lifo_enqueue q s) ss []; serve_all lifo_dequeue (Suc (length ss)) q }) = Some (rev ss, [])"
proof -
  have "ofold (\<lambda>s q. fifo_enqueue q s) ss q = Some (q @ ss)"
    "ofold (\<lambda>s q. lifo_enqueue q s) ss q = Some (q @ ss)" for q
    by (induction ss arbitrary: q) (simp_all add: fifo_enqueue_def lifo_enqueue_def)
  moreover have "serve_all fifo_dequeue (Suc (length q)) q = Some (q, [])" for q
    by (induction q) (simp_all add: fifo_dequeue_def)
  moreover have "serve_all lifo_dequeue (Suc (length q)) q = Some (rev q, [])" for q
    by (induction q rule: rev_induct) (simp_all add: lifo_dequeue_def)
  ultimately show ?thesis by simp
qed

text \<open>C20. When the distance of one state has changed, whether that state is queued or not, telling a
  tracking lightest-first queue of it with \<open>update\<close> leaves every state in it once, and
  everything is then served lightest first by the new distances.\<close>

theorem shortest_update_reorders:
  assumes "sq_ok True q" "sq_tracked q" "ih_comp (sq_heap q) = state_weight_compare d lt" "ranks lt"
    "s < length d" "s \<in># sq_bag q \<or> sq_room q"
  shows "\<exists>r. sq_update True (moved q (state_weight_compare (d[s := w]) lt)) s = Some r \<and> sq_ok True r \<and>
    sq_tracked r \<and> sq_bag r = (if s \<in># sq_bag q then sq_bag q else add_mset s (sq_bag q)) \<and>
    (\<exists>ss e. serve_all (sq_dequeue True) (Suc (size (sq_bag r))) r = Some (ss, e) \<and> mset ss = sq_bag r \<and>
      sorted_wrt (\<lambda>a b. \<not> state_weight_compare (d[s := w]) lt b a) ss)"
proof -
  let ?cmp = "state_weight_compare (d[s := w]) lt"
  have "?cmp x y = ih_comp (sq_heap q) x y" if "x \<noteq> s" "y \<noteq> s" for x y
    using that by (auto simp: assms(3) state_weight_compare_def vget_def)
  from sq_update_run [OF assms(1,2) ranks_state_weight [OF assms(4)] this assms(6)] obtain r where
    r: "sq_update True (moved q ?cmp) s = Some r" "sq_ok True r" "sq_tracked r" "ih_comp (sq_heap r) = ?cmp"
      "sq_bag r = (if s \<in># sq_bag q then sq_bag q else add_mset s (sq_bag q))" by blast
  from shortq.serves_in_order [OF r(2) lessI] r show ?thesis by metis
qed

lemma sq_new_ok:
  assumes "ranks cmp"
  shows "sq_ok upd (sq_new cmp) \<and> sq_tracked (sq_new cmp) \<and> sq_bag (sq_new cmp) = {#} \<and> sq_room (sq_new cmp) \<and>
    ih_comp (sq_heap (sq_new cmp)) = cmp"
  using heap_new_ok [OF assms]
  by (simp add: sq_new_def sq_ok_def keys_true_def sq_tracked_def keys_whole_def sq_bag_def items_bag_def
      sq_room_def heap_room_def ih_new_def)

theorem shortest_update_reorders_witness:
  "\<exists>q r. sq_bag q = {#1#} \<and> ih_comp (sq_heap q) = state_weight_compare [3, 2 :: nat] (<) \<and>
    sq_update True (moved q (state_weight_compare [3, 1 :: nat] (<))) 1 = Some r \<and> sq_bag r = {#1#}"
proof -
  let ?cmp = "state_weight_compare [3, 2 :: nat] (<)"
  note rk = ranks_state_weight [OF ranks_nat, of "[3, 2]"]
  note new = sq_new_ok [OF rk]
  have "\<exists>q. sq_ok True q \<and> sq_tracked q \<and> ih_comp (sq_heap q) = ?cmp \<and> sq_bag q = {#1#}"
    using sq_update_run [of "sq_new ?cmp" ?cmp 1] new rk by fastforce
  then obtain q where q: "sq_ok True q" "sq_tracked q" "ih_comp (sq_heap q) = ?cmp" "sq_bag q = {#1#}" by blast
  have d: "[3, 2 :: nat][1 := 1] = [3, 1]" by simp
  show ?thesis
    using shortest_update_reorders [OF q(1,2,3) ranks_nat, of 1 1] q(3,4) unfolding d by auto
qed

end
