(* ===== verification/OrderQueues.thy ===== *)
theory OrderQueues
  imports Queues
begin

text \<open>
  The disciplines of \<open>queue.rs\<close> whose order is fixed: topological order and state order.  Both keep a
  window \<open>front..back\<close> that the first queued position opens.
\<close>

section \<open>Topological and state order\<close>

record top_order_queue =
  to_order :: "nat list"
  to_at :: "state_id option list"
  to_front :: nat
  to_back :: nat

definition to_with_order :: "nat list \<Rightarrow> top_order_queue" where
  "to_with_order order = \<lparr>to_order = order, to_at = replicate (length order) None, to_front = 0, to_back = 0\<rparr>"

definition to_head :: "top_order_queue \<Rightarrow> state_id option option" where
  "to_head q = (if to_front q < to_back q then vget (to_at q) (to_front q) else Some None)"

definition to_enqueue :: "top_order_queue \<Rightarrow> state_id \<Rightarrow> top_order_queue option" where
  "to_enqueue q state = do {
     position \<leftarrow> vget (to_order q) state;
     let q = (if to_front q \<ge> to_back q
       then q\<lparr>to_front := position, to_back := position + 1\<rparr>
       else q\<lparr>to_front := min (to_front q) position, to_back := max (to_back q) (position + 1)\<rparr>);
     at \<leftarrow> vset (to_at q) position (Some state);
     Some (q\<lparr>to_at := at\<rparr>) }"

definition to_dequeue :: "top_order_queue \<Rightarrow> (state_id option \<times> top_order_queue) option" where
  "to_dequeue q = do {
     h \<leftarrow> to_head q;
     (case h of
        None \<Rightarrow> Some (None, q)
      | Some state \<Rightarrow> do {
          at \<leftarrow> vset (to_at q) (to_front q) None;
          front \<leftarrow> advance (\<lambda>i. map_option (\<lambda>s. s = None) (vget at i)) (to_front q) (to_back q);
          Some (Some state, q\<lparr>to_at := at, to_front := front\<rparr>) }) }"

definition to_is_empty :: "top_order_queue \<Rightarrow> bool" where
  "to_is_empty q = (to_front q \<ge> to_back q)"

definition to_clear :: "top_order_queue \<Rightarrow> top_order_queue" where
  "to_clear q =
     (let back = min (to_back q) (length (to_at q));
          at = fold (\<lambda>i at. at[i := None]) [min (to_front q) back..<back] (to_at q)
      in q\<lparr>to_at := at, to_front := 0, to_back := 0\<rparr>)"

record state_order_queue =
  so_queued :: bit_set
  so_front :: nat
  so_back :: nat

definition so_new :: state_order_queue where
  "so_new = \<lparr>so_queued = gbs_new, so_front = 0, so_back = 0\<rparr>"

definition so_head :: "state_order_queue \<Rightarrow> state_id option" where
  "so_head q = (if so_front q < so_back q then Some (so_front q) else None)"

definition so_enqueue :: "state_order_queue \<Rightarrow> state_id \<Rightarrow> state_order_queue option" where
  "so_enqueue q state = do {
     let q = (if so_front q \<ge> so_back q
       then q\<lparr>so_front := state, so_back := state + 1\<rparr>
       else q\<lparr>so_front := min (so_front q) state, so_back := max (so_back q) (state + 1)\<rparr>);
     (queued, _) \<leftarrow> gbs_insert (so_queued q) state;
     Some (q\<lparr>so_queued := queued\<rparr>) }"

definition so_dequeue :: "state_order_queue \<Rightarrow> (state_id option \<times> state_order_queue) option" where
  "so_dequeue q =
     (case so_head q of
        None \<Rightarrow> Some (None, q)
      | Some state \<Rightarrow> do {
          (queued, _) \<leftarrow> gbs_remove (so_queued q) (so_front q);
          front \<leftarrow> advance (\<lambda>i. map_option Not (gbs_contains queued i)) (so_front q) (so_back q);
          Some (Some state, q\<lparr>so_queued := queued, so_front := front\<rparr>) })"

definition so_is_empty :: "state_order_queue \<Rightarrow> bool" where
  "so_is_empty q = (so_front q \<ge> so_back q)"

definition so_clear :: "state_order_queue \<Rightarrow> state_order_queue option" where
  "so_clear q = do {
     queued \<leftarrow> ofold (\<lambda>i b. map_option fst (gbs_remove b i)) [so_front q..<so_back q] (so_queued q);
     Some (q\<lparr>so_queued := queued, so_front := 0, so_back := 0\<rparr>) }"


section \<open>Both keep the interface\<close>

lemma mset_set_insert: "finite S \<Longrightarrow>
  mset_set (insert s S) = add_mset s (mset_set S) \<or> s \<in># mset_set S \<and> mset_set (insert s S) = mset_set S"
  by (cases "s \<in> S") (auto simp: insert_absorb)

lemma mset_set_Diff1: "finite S \<Longrightarrow> s \<in> S \<Longrightarrow> mset_set (S - {s}) = mset_set S - {#s#}"
  by (simp add: mset_set_Diff)

subsection \<open>State order\<close>

definition so_ok :: "state_order_queue \<Rightarrow> bool" where
  "so_ok q \<longleftrightarrow> bs_ok (so_queued q) \<and> members (so_queued q) \<subseteq> {so_front q..<so_back q} \<and>
     (so_front q < so_back q \<longrightarrow> so_front q \<in> members (so_queued q))"

definition so_bag :: "state_order_queue \<Rightarrow> state_id multiset" where
  "so_bag q = mset_set (members (so_queued q))"

lemma so_finite: "so_ok q \<Longrightarrow> finite (members (so_queued q))"
  unfolding so_ok_def using finite_subset by blast

lemma so_new_ok: "so_ok so_new \<and> so_bag so_new = {#}"
  using new_empty_run [of 0] by (simp add: so_new_def so_ok_def so_bag_def gbs_new_def)

lemma so_enqueue_run:
  assumes ok: "so_ok q"
  shows "\<exists>r. so_enqueue q s = Some r \<and> so_ok r \<and> members (so_queued r) = insert s (members (so_queued q))"
proof -
  let ?q = "if so_front q \<ge> so_back q then q\<lparr>so_front := s, so_back := s + 1\<rparr>
    else q\<lparr>so_front := min (so_front q) s, so_back := max (so_back q) (s + 1)\<rparr>"
  have q: "so_queued ?q = so_queued q" by simp
  obtain c where c: "gbs_insert (so_queued q) s = Some (c, s \<notin> members (so_queued q))" "bs_ok c"
      "members c = insert s (members (so_queued q))"
    using gbs_insert_run [of "so_queued q" s] ok by (auto simp: so_ok_def)
  have run: "so_enqueue q s = Some (?q\<lparr>so_queued := c\<rparr>)"
    unfolding so_enqueue_def Let_def q c(1) by simp
  have "so_ok (?q\<lparr>so_queued := c\<rparr>)"
  proof (cases "so_front q \<ge> so_back q")
    case True
    then show ?thesis using ok c(2,3) by (simp add: so_ok_def)
  next
    case False
    then have "so_front q \<in> members (so_queued q)" using ok by (simp add: so_ok_def)
    moreover have "x < max (so_back q) (s + 1) \<and> min (so_front q) s \<le> x" if "x \<in> members (so_queued q)" for x
      using that ok by (auto simp: so_ok_def min_def max_def)
    ultimately show ?thesis using False ok c(2,3) by (auto simp: so_ok_def min_def)
  qed
  then show ?thesis using run c(3) by simp
qed

lemma so_dequeue_none:
  assumes "so_ok q" "members (so_queued q) = {}"
  shows "so_head q = None \<and> so_dequeue q = Some (None, q)"
  using assms by (auto simp: so_ok_def so_head_def so_dequeue_def)

lemma so_dequeue_run:
  assumes ok: "so_ok q" and ne: "members (so_queued q) \<noteq> {}"
  shows "\<exists>r. so_head q = Some (so_front q) \<and> so_dequeue q = Some (Some (so_front q), r) \<and> so_ok r \<and>
    so_front q \<in> members (so_queued q) \<and> members (so_queued r) = members (so_queued q) - {so_front q}"
proof -
  have lt: "so_front q < so_back q" using ok ne by (auto simp: so_ok_def)
  then have hd: "so_head q = Some (so_front q)" by (simp add: so_head_def)
  obtain c where c: "gbs_remove (so_queued q) (so_front q) = Some (c, so_front q \<in> members (so_queued q))"
      "bs_ok c" "members c = members (so_queued q) - {so_front q}"
    using gbs_remove_run ok by (metis so_ok_def)
  obtain f where f: "advance (\<lambda>i. map_option Not (gbs_contains c i)) (so_front q) (so_back q) = Some f"
      "so_front q \<le> f" "f \<le> max (so_front q) (so_back q)"
      "\<forall>i. so_front q \<le> i \<and> i < f \<longrightarrow> i \<notin> members c" "f < so_back q \<longrightarrow> f \<in> members c"
    using advance_run [of "so_front q" "so_back q" "\<lambda>i. map_option Not (gbs_contains c i)" "\<lambda>i. i \<notin> members c"]
      gbs_contains_run [OF c(2)] by auto
  have "so_ok (q\<lparr>so_queued := c, so_front := f\<rparr>)"
    using ok c(2,3) f(4,5) unfolding so_ok_def by (auto simp: not_less [symmetric])
  then show ?thesis
    using hd c f(1) lt ok by (simp add: so_dequeue_def so_ok_def)
qed

interpretation stateq: ordered_discipline so_ok so_bag "\<lambda>_ _. True" "\<lambda>q. Some (so_head q)"
    so_enqueue so_dequeue "\<lambda>_. (<)"
proof (unfold_locales, goal_cases)
  case (1 q s)
  obtain r where r: "so_enqueue q s = Some r" "so_ok r"
      "members (so_queued r) = insert s (members (so_queued q))"
    using so_enqueue_run [OF 1(1)] by blast
  then show ?case using mset_set_insert [OF so_finite [OF 1(1)]] by (auto simp: so_bag_def)
next
  case (2 q)
  then have "members (so_queued q) = {}" by (simp add: so_bag_def mset_set_empty_iff so_finite)
  then show ?case using so_dequeue_none [OF 2(1)] 2 by simp
next
  case (3 q)
  then have "members (so_queued q) \<noteq> {}" by (auto simp: so_bag_def)
  from so_dequeue_run [OF 3(1) this] show ?case
    using mset_set_Diff1 [OF so_finite [OF 3(1)]] so_finite [OF 3(1)] by (auto simp: so_bag_def)
next
  case (4 q s r)
  then have "members (so_queued q) \<noteq> {}" using so_dequeue_none by force
  from so_dequeue_run [OF 4(1) this] 4(2) have "s = so_front q" by auto
  then show ?case using 4(1) so_finite [OF 4(1)] by (auto simp: so_bag_def so_ok_def)
qed

lemma so_clear_run:
  assumes ok: "so_ok q"
  shows "\<exists>r. so_clear q = Some r \<and> so_ok r \<and> so_bag r = {#}"
proof -
  let ?f = "\<lambda>i b. map_option fst (gbs_remove b i)"
  have "bs_ok b \<Longrightarrow> \<exists>c. ofold ?f is b = Some c \<and> bs_ok c \<and> members c = members b - set is" for b "is"
  proof (induction "is" arbitrary: b)
    case (Cons i "is")
    obtain c where "gbs_remove b i = Some (c, i \<in> members b)" "bs_ok c" "members c = members b - {i}"
      using gbs_remove_run [OF Cons.prems] by blast
    with Cons.IH [OF this(2)] show ?case by fastforce
  qed simp
  from this [of "so_queued q" "[so_front q..<so_back q]"] ok obtain c where
    c: "ofold ?f [so_front q..<so_back q] (so_queued q) = Some c" "bs_ok c"
      "members c = members (so_queued q) - {so_front q..<so_back q}"
    by (auto simp: so_ok_def)
  then have "members c = {}" using ok by (auto simp: so_ok_def)
  then show ?thesis using c(1,2) by (simp add: so_clear_def so_ok_def so_bag_def)
qed

subsection \<open>Topological order\<close>

text \<open>The states queued, and the invariant: the order gives every state its own position, a slot
  holds the state of its position, and the filled slots lie in the window, the first of it among
  them.\<close>

definition to_held :: "top_order_queue \<Rightarrow> state_id set" where
  "to_held q = {s. s < length (to_order q) \<and> to_at q ! (to_order q ! s) = Some s}"

definition to_ok :: "top_order_queue \<Rightarrow> bool" where
  "to_ok q \<longleftrightarrow> distinct (to_order q) \<and> (\<forall>p \<in> set (to_order q). p < length (to_at q)) \<and>
     (\<forall>p < length (to_at q). \<forall>s. to_at q ! p = Some s \<longrightarrow>
       s < length (to_order q) \<and> to_order q ! s = p \<and> to_front q \<le> p \<and> p < to_back q) \<and>
     (to_front q < to_back q \<longrightarrow> to_back q \<le> length (to_at q) \<and> to_at q ! to_front q \<noteq> None)"

definition to_bag :: "top_order_queue \<Rightarrow> state_id multiset" where
  "to_bag q = mset_set (to_held q)"

lemma to_finite [simp]: "finite (to_held q)"
  by (simp add: to_held_def)

lemma to_slot:
  assumes "to_ok q" "p < length (to_at q)" "to_at q ! p = Some s"
  shows "s \<in> to_held q" "to_order q ! s = p" "to_front q \<le> p" "p < to_back q" "s < length (to_order q)"
  using assms unfolding to_ok_def to_held_def by blast+

lemma to_okI:
  assumes "distinct (to_order q)" "\<forall>p \<in> set (to_order q). p < length (to_at q)"
    "\<And>p s. p < length (to_at q) \<Longrightarrow> to_at q ! p = Some s \<Longrightarrow>
       s < length (to_order q) \<and> to_order q ! s = p \<and> to_front q \<le> p \<and> p < to_back q"
    "to_front q < to_back q \<Longrightarrow> to_back q \<le> length (to_at q)"
    "to_front q < to_back q \<Longrightarrow> to_at q ! to_front q \<noteq> None"
  shows "to_ok q"
  unfolding to_ok_def using assms by blast

lemma to_with_order_ok:
  assumes "distinct order" "\<forall>p \<in> set order. p < length order"
  shows "to_ok (to_with_order order) \<and> to_bag (to_with_order order) = {#}"
  using assms by (simp add: to_with_order_def to_ok_def to_bag_def to_held_def mset_set_empty_iff)

lemma to_enqueue_run:
  assumes ok: "to_ok q" and s: "s < length (to_order q)"
  shows "\<exists>r. to_enqueue q s = Some r \<and> to_ok r \<and> to_order r = to_order q \<and> to_held r = insert s (to_held q)"
proof -
  define p where "p = to_order q ! s"
  define q1 where "q1 = (if to_front q \<ge> to_back q then q\<lparr>to_front := p, to_back := p + 1\<rparr>
    else q\<lparr>to_front := min (to_front q) p, to_back := max (to_back q) (p + 1)\<rparr>)"
  define r where "r = q1\<lparr>to_at := (to_at q)[p := Some s]\<rparr>"
  have q1: "to_at q1 = to_at q" "to_order q1 = to_order q" by (simp_all add: q1_def)
  have p: "p < length (to_at q)" using ok s by (simp add: to_ok_def p_def)
  have run: "to_enqueue q s = Some r"
    using s p by (simp add: to_enqueue_def Let_def q1 r_def q1_def flip: p_def)
  have r: "to_order r = to_order q" "to_at r = (to_at q)[p := Some s]" "to_front r = to_front q1" "to_back r = to_back q1"
    by (simp_all add: r_def q1)
  have inj: "t = s" if "t < length (to_order q)" "to_order q ! t = p" for t
    using that s ok nth_eq_iff_index_eq [of "to_order q" t s] by (simp add: p_def to_ok_def)
  have held: "to_held r = insert s (to_held q)"
    using inj s p by (auto simp: to_held_def r nth_list_update p_def split: if_splits)
  have win: "to_front q1 \<le> p" "p < to_back q1" by (auto simp: q1_def)
  have old: "to_front q1 \<le> j \<and> j < to_back q1" if "to_front q \<le> j" "j < to_back q" for j
    using that by (auto simp: q1_def)
  have slots: "t < length (to_order r) \<and> to_order r ! t = j \<and> to_front r \<le> j \<and> j < to_back r"
    if j: "j < length (to_at r)" "to_at r ! j = Some t" for j t
  proof (cases "j = p")
    case False
    then have "to_at q ! j = Some t" "j < length (to_at q)" using j by (simp_all add: r)
    from to_slot [OF ok this(2,1)] old [of j] show ?thesis by (simp add: r)
  qed (use j s p win in \<open>simp add: r p_def\<close>)
  have "to_at r ! to_front r \<noteq> None"
  proof (cases "to_front q1 = p")
    case False
    then have "to_front q < to_back q" "to_front q1 = to_front q" by (auto simp: q1_def min_def split: if_splits)
    then show ?thesis using False ok by (simp add: r to_ok_def)
  qed (use p in \<open>simp add: r\<close>)
  moreover have "to_back r \<le> length (to_at r)"
    using ok p by (auto simp: r q1_def to_ok_def)
  ultimately have "to_ok r"
    using ok by (intro to_okI slots) (simp_all add: to_ok_def r)
  then show ?thesis using run r(1) held by blast
qed

lemma to_window:
  assumes "to_ok q"
  shows "to_held q = {} \<longleftrightarrow> to_front q \<ge> to_back q"
proof
  assume "to_held q = {}"
  show "to_front q \<ge> to_back q"
  proof (rule ccontr)
    assume "\<not> to_front q \<ge> to_back q"
    then have "to_front q < length (to_at q)" "to_at q ! to_front q \<noteq> None"
      using assms by (auto simp: to_ok_def)
    then show False using to_slot(1) [OF assms] \<open>to_held q = {}\<close> by blast
  qed
next
  assume "to_front q \<ge> to_back q"
  show "to_held q = {}"
  proof (rule ccontr)
    assume "to_held q \<noteq> {}"
    then obtain s where s: "s < length (to_order q)" "to_at q ! (to_order q ! s) = Some s"
      by (auto simp: to_held_def)
    then have "to_order q ! s < length (to_at q)" using assms by (simp add: to_ok_def)
    from to_slot(3,4) [OF assms this s(2)] \<open>to_front q \<ge> to_back q\<close> show False by simp
  qed
qed

lemma to_dequeue_none:
  assumes "to_ok q" "to_held q = {}"
  shows "to_head q = Some None \<and> to_dequeue q = Some (None, q)"
  using assms to_window [OF assms(1)] by (simp add: to_head_def to_dequeue_def)

lemma to_dequeue_run:
  assumes ok: "to_ok q" and ne: "to_held q \<noteq> {}"
  shows "\<exists>s r. to_head q = Some (Some s) \<and> to_dequeue q = Some (Some s, r) \<and> to_ok r \<and> s \<in> to_held q \<and>
    to_order r = to_order q \<and> to_held r = to_held q - {s} \<and> to_order q ! s = to_front q"
proof -
  let ?f = "to_front q" and ?b = "to_back q"
  have lt: "?f < ?b" using to_window [OF ok] ne by auto
  then have len: "?b \<le> length (to_at q)" and "to_at q ! ?f \<noteq> None" using ok by (simp_all add: to_ok_def)
  then obtain s where s: "to_at q ! ?f = Some s" by auto
  have fl: "?f < length (to_at q)" using lt len by simp
  note slot = to_slot [OF ok fl s]
  let ?at = "(to_at q)[?f := None]"
  obtain g where g: "advance (\<lambda>i. map_option (\<lambda>s. s = None) (vget ?at i)) ?f ?b = Some g"
      "?f \<le> g" "g \<le> max ?f ?b" "\<forall>i. ?f \<le> i \<and> i < g \<longrightarrow> ?at ! i = None" "g < ?b \<longrightarrow> ?at ! g \<noteq> None"
    using advance_run [of ?f ?b "\<lambda>i. map_option (\<lambda>s. s = None) (vget ?at i)" "\<lambda>i. ?at ! i = None"] len
    by auto
  define r where "r = q\<lparr>to_at := ?at, to_front := g\<rparr>"
  have hd: "to_head q = Some (Some s)" using lt fl s by (simp add: to_head_def)
  have run: "to_dequeue q = Some (Some s, r)" using hd fl g(1) by (simp add: to_dequeue_def r_def)
  have inj: "t = s" if "t < length (to_order q)" "to_order q ! t = ?f" for t
    using that slot ok nth_eq_iff_index_eq [of "to_order q" t s] by (simp add: to_ok_def)
  have held: "to_held r = to_held q - {s}"
  proof (rule set_eqI)
    fix t
    have "to_order q ! t < length (to_at q)" if "t < length (to_order q)"
      using that ok by (simp add: to_ok_def)
    moreover have "t < length (to_order q) \<and> to_order q ! t = ?f \<longleftrightarrow> t = s" using inj slot(2,5) by blast
    ultimately show "t \<in> to_held r \<longleftrightarrow> t \<in> to_held q - {s}"
      by (cases "to_order q ! t = ?f") (auto simp: to_held_def r_def)
  qed
  have slots: "t < length (to_order r) \<and> to_order r ! t = j \<and> to_front r \<le> j \<and> j < to_back r"
    if j: "j < length (to_at r)" "to_at r ! j = Some t" for j t
  proof -
    have "j \<noteq> ?f" using j fl by (auto simp: r_def)
    then have old: "to_at q ! j = Some t" "j < length (to_at q)" using j by (simp_all add: r_def)
    note s' = to_slot [OF ok old(2,1)]
    have "g \<le> j" using g(4) s'(3) j(2) by (auto simp: r_def not_less [symmetric])
    then show ?thesis using s' by (simp add: r_def)
  qed
  have "to_ok r"
  proof (rule to_okI)
    show "distinct (to_order r)" "\<forall>p \<in> set (to_order r). p < length (to_at r)"
      using ok by (simp_all add: to_ok_def r_def)
    show "to_back r \<le> length (to_at r)" using len by (simp add: r_def)
    show "to_front r < to_back r \<Longrightarrow> to_at r ! to_front r \<noteq> None" using g(5) by (simp add: r_def)
  qed (use slots in blast)+
  then show ?thesis using hd run slot held by (auto simp: r_def)
qed

interpretation topq: ordered_discipline to_ok to_bag "\<lambda>q s. s < length (to_order q)" to_head
    to_enqueue to_dequeue "\<lambda>q s t. to_order q ! s < to_order q ! t"
proof (unfold_locales, goal_cases)
  case (1 q s)
  obtain r where r: "to_enqueue q s = Some r" "to_ok r" "to_held r = insert s (to_held q)"
    using to_enqueue_run [OF 1] by blast
  then show ?case using mset_set_insert [of "to_held q" s] by (auto simp: to_bag_def)
next
  case (2 q)
  then have "to_held q = {}" by (simp add: to_bag_def mset_set_empty_iff)
  then show ?case using to_dequeue_none [OF 2(1)] 2 by simp
next
  case (3 q)
  then have "to_held q \<noteq> {}" by (auto simp: to_bag_def)
  from to_dequeue_run [OF 3(1) this] show ?case by (auto simp: to_bag_def mset_set_Diff1)
next
  case (4 q s r)
  then have "to_held q \<noteq> {}" using to_dequeue_none by force
  from to_dequeue_run [OF 4(1) this] 4(2) have s: "to_order r = to_order q" "to_order q ! s = to_front q" by auto
  have "to_front q \<le> to_order q ! t" if "t \<in> to_held q" for t
    using that 4(1) to_slot(3) [of q "to_order q ! t" t] by (auto simp: to_held_def to_ok_def)
  then show ?case using s by (fastforce simp: to_bag_def)
qed

lemma to_clear_run:
  assumes ok: "to_ok q"
  shows "to_ok (to_clear q) \<and> to_bag (to_clear q) = {#} \<and> to_order (to_clear q) = to_order q"
proof -
  let ?f = "\<lambda>i at. at[i := None :: state_id option]"
  have fold_len: "length (fold ?f is at) = length at" for "is" and at :: "state_id option list"
    by (induction "is" arbitrary: at) simp_all
  have fold_nth: "fold ?f is at ! j = (if j \<in> set is then None else at ! j)" if "j < length at"
    for "is" j and at :: "state_id option list"
    using that by (induction "is" arbitrary: at) (auto simp: nth_list_update)
  let ?hi = "min (to_back q) (length (to_at q))"
  have none: "to_at (to_clear q) ! j = None" if j: "j < length (to_at q)" for j
  proof (cases "to_at q ! j")
    case (Some t)
    from to_slot(3,4) [OF ok j Some] j
    have "j \<in> set [min (to_front q) ?hi..<?hi]" by auto
    then show ?thesis using j by (simp add: to_clear_def Let_def fold_nth)
  qed (use j in \<open>simp add: to_clear_def Let_def fold_nth\<close>)
  have len: "length (to_at (to_clear q)) = length (to_at q)" and ord: "to_order (to_clear q) = to_order q"
    and win: "to_front (to_clear q) = 0" "to_back (to_clear q) = 0"
    by (simp_all add: to_clear_def Let_def fold_len)
  have inside: "to_order q ! s < length (to_at q)" if "s < length (to_order q)" for s
    using that ok by (simp add: to_ok_def)
  have "to_held (to_clear q) = {}"
    using none inside by (auto simp: to_held_def ord)
  moreover have "to_ok (to_clear q)"
    using ok none by (intro to_okI) (auto simp: len ord win to_ok_def)
  ultimately show ?thesis using ord by (simp add: to_bag_def)
qed

section \<open>What the orders promise\<close>

lemma distinct_mset_set: "mset xs = mset_set S \<Longrightarrow> distinct xs"
proof -
  assume xs: "mset xs = mset_set S"
  have "count (mset_set S) a \<le> 1" for a by (cases "finite S"; cases "a \<in> S") simp_all
  then show ?thesis
    unfolding distinct_count_atmost_1 xs [symmetric]
    by (metis xs count_mset_0_iff count_mset_set(2) count_mset_set(1,3) finite_set_mset_mset_set)
qed

text \<open>C36. States put into a topological-order queue, in any order and any number of times, come out
  once each, in the order of their positions.\<close>

theorem top_order_serves_by_position:
  assumes "distinct order" "set order \<subseteq> {..<length order}" "set ss \<subseteq> {..<length order}"
  shows "\<exists>q xs e. ofold (\<lambda>s q. to_enqueue q s) ss (to_with_order order) = Some q \<and>
    serve_all to_dequeue (Suc (length ss)) q = Some (xs, e) \<and> set xs = set ss \<and> distinct xs \<and>
    sorted_wrt (\<lambda>s t. order ! s \<le> order ! t) xs"
proof -
  have new: "to_ok (to_with_order order)" "to_bag (to_with_order order) = {#}"
    using to_with_order_ok assms(1,2) by auto
  have "to_order r = order" if "to_ok q" "to_order q = order" "to_enqueue q s = Some r" for q s r
    using that by (auto simp: to_enqueue_def Let_def option_bind_eq_Some split: if_splits)
  note keep = this
  have "\<exists>q. ofold (\<lambda>s q. to_enqueue q s) ss (to_with_order order) = Some q \<and> to_ok q \<and>
      to_order q = order \<and> set_mset (to_bag q) = set_mset (to_bag (to_with_order order)) \<union> set ss \<and>
      to_bag q \<subseteq># to_bag (to_with_order order) + mset ss"
    using assms(3) keep by (intro topq.enqueue_all_run new) (auto simp: to_with_order_def)
  then obtain q where q: "ofold (\<lambda>s q. to_enqueue q s) ss (to_with_order order) = Some q" "to_ok q"
      "to_order q = order" "set_mset (to_bag q) = set ss" "to_bag q \<subseteq># mset ss"
    using new(2) by auto
  have "size (to_bag q) < Suc (length ss)" using size_mset_mono [OF q(5)] by simp
  from topq.serves_in_order [OF q(2) this] obtain xs e where xs:
    "serve_all to_dequeue (Suc (length ss)) q = Some (xs, e)" "mset xs = to_bag q"
    "sorted_wrt (\<lambda>a b. \<not> order ! b < order ! a) xs"
    using q(3) by blast
  have "distinct xs" using distinct_mset_set xs(2) by (metis to_bag_def)
  moreover have "set xs = set ss" using xs(2) q(4) by (metis set_mset_mset)
  ultimately show ?thesis using q(1) xs(1,3) by (auto simp: not_less)
qed

theorem top_order_serves_by_position_witness:
  "\<exists>q xs e. ofold (\<lambda>s q. to_enqueue q s) [0, 2, 0] (to_with_order [2, 0, 1]) = Some q \<and>
    serve_all to_dequeue 4 q = Some (xs, e) \<and> set xs = {0, 2} \<and> sorted_wrt (\<lambda>s t. [2, 0, 1] ! s \<le> [2, 0, 1 :: nat] ! t) xs"
  using top_order_serves_by_position [of "[2, 0, 1]" "[0, 2, 0]"] by (auto simp: numeral_eq_Suc insert_commute)

text \<open>C37. States put into a state-order queue come out once each, in ascending order, and no call
  fails.\<close>

theorem state_order_serves_ascending:
  "\<exists>q e. ofold (\<lambda>s q. so_enqueue q s) ss so_new = Some q \<and>
    serve_all so_dequeue (Suc (length ss)) q = Some (sorted_list_of_set (set ss), e)"
proof -
  obtain q where q: "ofold (\<lambda>s q. so_enqueue q s) ss so_new = Some q" "so_ok q"
      "set_mset (so_bag q) = set ss" "so_bag q \<subseteq># mset ss"
    using stateq.enqueue_all_run [of so_new "\<lambda>_. True" ss] so_new_ok by auto
  have "size (so_bag q) < Suc (length ss)" using size_mset_mono [OF q(4)] by simp
  from stateq.serves_in_order [OF q(2) this] obtain xs e where xs:
    "serve_all so_dequeue (Suc (length ss)) q = Some (xs, e)" "mset xs = so_bag q"
    "sorted_wrt (\<lambda>a b. \<not> b < a) xs"
    by blast
  have "distinct xs" using distinct_mset_set xs(2) by (metis so_bag_def)
  moreover have "sorted xs" using xs(3) by (simp add: not_less)
  moreover have "set xs = set ss" using xs(2) q(3) by (metis set_mset_mset)
  ultimately have "xs = sorted_list_of_set (set ss)" using sorted_list_of_set.idem_if_sorted_distinct by metis
  then show ?thesis using q(1) xs(1) by blast
qed

end
