(* ===== verification/SccQueue.thy ===== *)
theory SccQueue
  imports OrderQueues
begin

text \<open>
  The queue of \<open>queue.rs\<close> that runs a discipline of its own inside each strongly connected
  component, and the choice of these disciplines.
\<close>

section \<open>The discipline inside a component\<close>

datatype scc_inner =
    ITrivial trivial_queue
  | IFifo "state_id list"
  | ILifo "state_id list"
  | IShortest shortest_queue

definition si_head :: "scc_inner \<Rightarrow> state_id option" where
  "si_head i = (case i of ITrivial q \<Rightarrow> q | IFifo q \<Rightarrow> fifo_head q | ILifo q \<Rightarrow> lifo_head q | IShortest q \<Rightarrow> sq_head q)"

definition si_enqueue :: "scc_inner \<Rightarrow> state_id \<Rightarrow> scc_inner option" where
  "si_enqueue i state = (case i of
     ITrivial q \<Rightarrow> map_option ITrivial (tq_enqueue q state)
   | IFifo q \<Rightarrow> map_option IFifo (fifo_enqueue q state)
   | ILifo q \<Rightarrow> map_option ILifo (lifo_enqueue q state)
   | IShortest q \<Rightarrow> map_option IShortest (sq_enqueue False q state))"

definition si_dequeue :: "scc_inner \<Rightarrow> (state_id option \<times> scc_inner) option" where
  "si_dequeue i = (case i of
     ITrivial q \<Rightarrow> map_option (apsnd ITrivial) (tq_dequeue q)
   | IFifo q \<Rightarrow> map_option (apsnd IFifo) (fifo_dequeue q)
   | ILifo q \<Rightarrow> map_option (apsnd ILifo) (lifo_dequeue q)
   | IShortest q \<Rightarrow> map_option (apsnd IShortest) (sq_dequeue False q))"

text \<open>Only the lightest-first queue does anything on \<open>update\<close>, and without its key vector not even
  that one.\<close>

definition si_update :: "scc_inner \<Rightarrow> state_id \<Rightarrow> scc_inner option" where
  "si_update i state = (case i of
     IShortest q \<Rightarrow> map_option IShortest (sq_update False q state)
   | _ \<Rightarrow> Some i)"

definition si_is_empty :: "scc_inner \<Rightarrow> bool" where
  "si_is_empty i = (case i of
     ITrivial q \<Rightarrow> q = None | IFifo q \<Rightarrow> q = [] | ILifo q \<Rightarrow> q = [] | IShortest q \<Rightarrow> ih_is_empty (sq_heap q))"

definition si_clear :: "scc_inner \<Rightarrow> scc_inner option" where
  "si_clear i = (case i of
     ITrivial q \<Rightarrow> Some (ITrivial None)
   | IFifo q \<Rightarrow> Some (IFifo [])
   | ILifo q \<Rightarrow> Some (ILifo [])
   | IShortest q \<Rightarrow> map_option IShortest (sq_clear q))"

definition si_queue_type :: "scc_inner \<Rightarrow> queue_type" where
  "si_queue_type i = (case i of
     ITrivial _ \<Rightarrow> QTrivial | IFifo _ \<Rightarrow> QFifo | ILifo _ \<Rightarrow> QLifo | IShortest _ \<Rightarrow> QShortestFirst)"

section \<open>The queue over the components\<close>

text \<open>\<open>front\<close> is a cell: \<open>head\<close> and \<open>is_empty\<close> move it too, so they return the queue.\<close>

record scc_queue =
  cq_queues :: "scc_inner list"
  cq_scc :: "nat list"
  cq_front :: nat
  cq_back :: nat

definition cq_new :: "nat list \<Rightarrow> scc_inner list \<Rightarrow> scc_queue" where
  "cq_new scc queues = \<lparr>cq_queues = queues, cq_scc = scc, cq_front = 0, cq_back = 0\<rparr>"

definition cq_skip_empty :: "scc_queue \<Rightarrow> (nat option \<times> scc_queue) option" where
  "cq_skip_empty q = do {
     front \<leftarrow> advance (\<lambda>i. map_option si_is_empty (vget (cq_queues q) i)) (cq_front q) (cq_back q);
     Some (if front < cq_back q then Some front else None, q\<lparr>cq_front := front\<rparr>) }"

definition cq_head :: "scc_queue \<Rightarrow> (state_id option \<times> scc_queue) option" where
  "cq_head q = do {
     (front, q) \<leftarrow> cq_skip_empty q;
     (case front of
        None \<Rightarrow> Some (None, q)
      | Some f \<Rightarrow> do { inner \<leftarrow> vget (cq_queues q) f; Some (si_head inner, q) }) }"

definition cq_enqueue :: "scc_queue \<Rightarrow> state_id \<Rightarrow> scc_queue option" where
  "cq_enqueue q state = do {
     scc \<leftarrow> vget (cq_scc q) state;
     let front = cq_front q;
     let q = (if front \<ge> cq_back q
       then q\<lparr>cq_front := scc, cq_back := scc + 1\<rparr>
       else q\<lparr>cq_front := min front scc, cq_back := max (cq_back q) (scc + 1)\<rparr>);
     inner \<leftarrow> vget (cq_queues q) scc;
     inner \<leftarrow> si_enqueue inner state;
     Some (q\<lparr>cq_queues := (cq_queues q)[scc := inner]\<rparr>) }"

definition cq_dequeue :: "scc_queue \<Rightarrow> (state_id option \<times> scc_queue) option" where
  "cq_dequeue q = do {
     (front, q) \<leftarrow> cq_skip_empty q;
     (case front of
        None \<Rightarrow> Some (None, q)
      | Some f \<Rightarrow> do {
          inner \<leftarrow> vget (cq_queues q) f;
          (state, inner) \<leftarrow> si_dequeue inner;
          Some (state, q\<lparr>cq_queues := (cq_queues q)[f := inner]\<rparr>) }) }"

definition cq_update :: "scc_queue \<Rightarrow> state_id \<Rightarrow> scc_queue option" where
  "cq_update q state = do {
     scc \<leftarrow> vget (cq_scc q) state;
     inner \<leftarrow> vget (cq_queues q) scc;
     inner \<leftarrow> si_update inner state;
     Some (q\<lparr>cq_queues := (cq_queues q)[scc := inner]\<rparr>) }"

definition cq_is_empty :: "scc_queue \<Rightarrow> (bool \<times> scc_queue) option" where
  "cq_is_empty q = do { (front, q) \<leftarrow> cq_skip_empty q; Some (front = None, q) }"

text \<open>The slice \<open>queues[min(front, back)..back]\<close> panics when it ends past the last queue.\<close>

definition cq_clear :: "scc_queue \<Rightarrow> scc_queue option" where
  "cq_clear q =
     (if cq_back q > length (cq_queues q) then None
      else do {
        queues \<leftarrow> ofold (\<lambda>i queues. do {
            inner \<leftarrow> vget queues i; inner \<leftarrow> si_clear inner; vset queues i inner })
          [min (cq_front q) (cq_back q)..<cq_back q] (cq_queues q);
        Some (q\<lparr>cq_queues := queues, cq_front := 0, cq_back := 0\<rparr>) })"

definition cq_inner_types :: "scc_queue \<Rightarrow> queue_type list" where
  "cq_inner_types q = map si_queue_type (cq_queues q)"

section \<open>Choosing the disciplines\<close>

record scc_analysis =
  sa_queue_types :: "queue_type list"
  sa_all_trivial :: bool
  sa_unweighted :: bool

text \<open>The weight's \<open>IDEMPOTENT\<close> property is the flag \<open>idem\<close>; \<open>lt\<close> is the optional order on
  weights.\<close>

definition next_type :: "bool \<Rightarrow> ('w::{zero,one} \<Rightarrow> 'w \<Rightarrow> bool) option \<Rightarrow> 'w \<Rightarrow> queue_type \<Rightarrow> queue_type" where
  "next_type idem lt w ty =
     (let plain = idem \<and> (w = 0 \<or> w = 1) in
      case lt of
        None \<Rightarrow> QFifo
      | Some lt \<Rightarrow>
          if lt w 1 then QFifo
          else if ty = QTrivial \<or> ty = QLifo then (if plain then QLifo else QShortestFirst)
          else ty)"

definition sa_arc :: "bool \<Rightarrow> ('w::{zero,one} \<Rightarrow> 'w \<Rightarrow> bool) option \<Rightarrow> nat list \<Rightarrow> nat \<Rightarrow> 'w arc \<Rightarrow>
    scc_analysis \<Rightarrow> scc_analysis option" where
  "sa_arc idem lt scc from a sa = do {
     let plain = idem \<and> (weight a = 0 \<or> weight a = 1);
     sa \<leftarrow> (if vget scc (nextstate a) = Some from then do {
              ty \<leftarrow> vget (sa_queue_types sa) from;
              let ty = next_type idem lt (weight a) ty;
              let sa = sa\<lparr>sa_queue_types := (sa_queue_types sa)[from := ty]\<rparr>;
              Some (if ty \<noteq> QTrivial then sa\<lparr>sa_all_trivial := False\<rparr> else sa) }
            else Some sa);
     Some (if \<not> plain then sa\<lparr>sa_unweighted := False\<rparr> else sa) }"

definition scc_queue_types :: "bool \<Rightarrow> state_id list \<Rightarrow> (state_id \<Rightarrow> 'w arc list) \<Rightarrow> nat list \<Rightarrow> nat \<Rightarrow>
    ('w::{zero,one} \<Rightarrow> 'w \<Rightarrow> bool) option \<Rightarrow> scc_analysis option" where
  "scc_queue_types idem states arcs scc nscc lt =
     ofold (\<lambda>state sa.
        case vget scc state of
          None \<Rightarrow> Some sa
        | Some from \<Rightarrow> ofold (sa_arc idem lt scc from) (arcs state) sa)
       states
       \<lparr>sa_queue_types = replicate nscc QTrivial, sa_all_trivial = True, sa_unweighted = idem\<rparr>"

section \<open>Inside a component\<close>

definition si_ok :: "scc_inner \<Rightarrow> bool" where
  "si_ok i = (case i of IShortest q \<Rightarrow> sq_ok False q | _ \<Rightarrow> True)"

definition si_bag :: "scc_inner \<Rightarrow> state_id multiset" where
  "si_bag i = (case i of ITrivial q \<Rightarrow> front_bag q | IFifo q \<Rightarrow> mset q | ILifo q \<Rightarrow> mset q | IShortest q \<Rightarrow> sq_bag q)"

definition si_takes :: "scc_inner \<Rightarrow> state_id \<Rightarrow> bool" where
  "si_takes i s = (case i of ITrivial q \<Rightarrow> q = None \<or> q = Some s | IShortest q \<Rightarrow> sq_room q | _ \<Rightarrow> True)"

definition is_trivial :: "scc_inner \<Rightarrow> bool" where
  "is_trivial i = (si_queue_type i = QTrivial)"

lemmas si_defs = si_ok_def si_bag_def si_takes_def si_head_def si_enqueue_def si_dequeue_def is_trivial_def
  si_queue_type_def

text \<open>What an operation does to an inner queue, it does to the one of the four it is.\<close>

interpretation innerq: discipline si_ok si_bag si_takes "\<lambda>i. Some (si_head i)" si_enqueue si_dequeue
proof (unfold_locales, goal_cases)
  case (1 i s)
  then show ?case
  proof (cases i)
    case (ITrivial q)
    then show ?thesis using 1 trivialq.enq_law [of q s] by (auto simp: si_defs)
  next
    case (IFifo q)
    then show ?thesis using 1 fifoq.enq_law [of q s] by (auto simp: si_defs)
  next
    case (ILifo q)
    then show ?thesis using 1 lifoq.enq_law [of q s] by (auto simp: si_defs)
  next
    case (IShortest q)
    then show ?thesis using 1 shortq.enq_law [of False q s] by (auto simp: si_defs)
  qed
next
  case (2 i)
  then show ?case
  proof (cases i)
    case (ITrivial q)
    then show ?thesis using 2 trivialq.deq_empty [of q] by (auto simp: si_defs)
  next
    case (IFifo q)
    then show ?thesis using 2 fifoq.deq_empty [of q] by (auto simp: si_defs)
  next
    case (ILifo q)
    then show ?thesis using 2 lifoq.deq_empty [of q] by (auto simp: si_defs)
  next
    case (IShortest q)
    then show ?thesis using 2 shortq.deq_empty [of False q] by (auto simp: si_defs)
  qed
next
  case (3 i)
  then show ?case
  proof (cases i)
    case (ITrivial q)
    then show ?thesis using 3 trivialq.deq_some [of q] by (auto simp: si_defs)
  next
    case (IFifo q)
    then show ?thesis using 3 fifoq.deq_some [of q] by (auto simp: si_defs)
  next
    case (ILifo q)
    then show ?thesis using 3 lifoq.deq_some [of q] by (auto simp: si_defs)
  next
    case (IShortest q)
    then show ?thesis using 3 shortq.deq_some [of False q] by (auto simp: si_defs)
  qed
qed

lemma si_empty: "si_ok i \<Longrightarrow> si_is_empty i \<longleftrightarrow> si_bag i = {#}"
  by (cases i) (auto simp: si_is_empty_def si_ok_def si_bag_def front_bag_def sq_empty ih_is_empty_def
      split: option.splits)

lemma si_type_kept:
  "si_enqueue i s = Some j \<Longrightarrow> si_queue_type j = si_queue_type i"
  "si_dequeue i = Some (h, j) \<Longrightarrow> si_queue_type j = si_queue_type i"
  by (cases i; auto simp: si_defs)+

lemma trivial_takes: "is_trivial i \<Longrightarrow> si_takes i s \<longleftrightarrow> (\<forall>t \<in># si_bag i. t = s)"
  by (cases i) (auto simp: si_defs front_bag_def split: option.splits)

definition inner_room :: "scc_inner \<Rightarrow> bool" where
  "inner_room i = (case i of IShortest q \<Rightarrow> sq_room q | _ \<Rightarrow> True)"

lemma other_takes: "\<not> is_trivial i \<Longrightarrow> si_takes i s \<longleftrightarrow> inner_room i"
  by (cases i) (auto simp: si_defs inner_room_def)

section \<open>Over the components\<close>

text \<open>A queued state is in the queue of its component, the components that hold one lie in the
  window, and a trivial queue has a component of one state.\<close>

definition cq_ok :: "scc_queue \<Rightarrow> bool" where
  "cq_ok q \<longleftrightarrow> cq_front q \<le> cq_back q \<and> cq_back q \<le> length (cq_queues q) \<and>
     (\<forall>c \<in> set (cq_scc q). c < length (cq_queues q)) \<and>
     (\<forall>c < length (cq_queues q). si_ok (cq_queues q ! c) \<and>
        (\<forall>s \<in># si_bag (cq_queues q ! c). vget (cq_scc q) s = Some c \<and> cq_front q \<le> c \<and> c < cq_back q) \<and>
        (is_trivial (cq_queues q ! c) \<longrightarrow>
          (\<forall>s t. vget (cq_scc q) s = Some c \<longrightarrow> vget (cq_scc q) t = Some c \<longrightarrow> s = t)))"

definition cq_bag :: "scc_queue \<Rightarrow> state_id multiset" where
  "cq_bag q = sum_list (map si_bag (cq_queues q))"

definition cq_takes :: "scc_queue \<Rightarrow> state_id \<Rightarrow> bool" where
  "cq_takes q s \<longleftrightarrow> s < length (cq_scc q) \<and> inner_room (cq_queues q ! (cq_scc q ! s))"

lemma sum_list_swap:
  fixes f :: "'a \<Rightarrow> 'b multiset"
  shows "c < length xs \<Longrightarrow> sum_list (map f (xs[c := y])) + f (xs ! c) = sum_list (map f xs) + f y"
proof (induction xs arbitrary: c)
  case (Cons x xs)
  show ?case
  proof (cases c)
    case 0
    then show ?thesis by (simp add: ac_simps)
  next
    case (Suc d)
    then have "sum_list (map f (xs[d := y])) + f (xs ! d) = sum_list (map f xs) + f y"
      using Cons by simp
    then show ?thesis using Suc by (simp add: add.assoc)
  qed
qed simp

lemma in_sum_list:
  fixes f :: "'a \<Rightarrow> 'b multiset"
  shows "s \<in># sum_list (map f xs) \<longleftrightarrow> (\<exists>c < length xs. s \<in># f (xs ! c))"
proof -
  have "s \<in># sum_list (map f xs) \<longleftrightarrow> (\<exists>x \<in> set xs. s \<in># f x)" by (induction xs) simp_all
  then show ?thesis by (metis in_set_conv_nth)
qed

lemma cq_bag_iff: "s \<in># cq_bag q \<longleftrightarrow> (\<exists>c < length (cq_queues q). s \<in># si_bag (cq_queues q ! c))"
  unfolding cq_bag_def by (rule in_sum_list)

lemma cq_okD:
  assumes "cq_ok q" "c < length (cq_queues q)"
  shows "si_ok (cq_queues q ! c)"
    "s \<in># si_bag (cq_queues q ! c) \<Longrightarrow> vget (cq_scc q) s = Some c \<and> cq_front q \<le> c \<and> c < cq_back q"
    "is_trivial (cq_queues q ! c) \<Longrightarrow> vget (cq_scc q) s = Some c \<Longrightarrow> vget (cq_scc q) t = Some c \<Longrightarrow> s = t"
  using assms unfolding cq_ok_def by blast+

lemma cq_okI:
  assumes "cq_front q \<le> cq_back q" "cq_back q \<le> length (cq_queues q)"
    "\<And>c. c \<in> set (cq_scc q) \<Longrightarrow> c < length (cq_queues q)"
    "\<And>c. c < length (cq_queues q) \<Longrightarrow> si_ok (cq_queues q ! c)"
    "\<And>c s. c < length (cq_queues q) \<Longrightarrow> s \<in># si_bag (cq_queues q ! c) \<Longrightarrow>
       vget (cq_scc q) s = Some c \<and> cq_front q \<le> c \<and> c < cq_back q"
    "\<And>c s t. c < length (cq_queues q) \<Longrightarrow> is_trivial (cq_queues q ! c) \<Longrightarrow> vget (cq_scc q) s = Some c \<Longrightarrow>
       vget (cq_scc q) t = Some c \<Longrightarrow> s = t"
  shows "cq_ok q"
  unfolding cq_ok_def using assms by blast

lemma cq_enqueue_run:
  assumes ok: "cq_ok q" and tk: "cq_takes q s"
  shows "\<exists>r. cq_enqueue q s = Some r \<and> cq_ok r \<and> cq_scc r = cq_scc q \<and>
    (cq_bag r = add_mset s (cq_bag q) \<or> s \<in># cq_bag q \<and> cq_bag r = cq_bag q)"
proof -
  define c where "c = cq_scc q ! s"
  have s: "vget (cq_scc q) s = Some c" using tk by (simp add: cq_takes_def c_def)
  then have c: "c < length (cq_queues q)"
    using ok tk by (auto simp: cq_ok_def cq_takes_def c_def)
  let ?i = "cq_queues q ! c"
  have "si_takes ?i s"
  proof (cases "is_trivial ?i")
    case True
    then show ?thesis using trivial_takes cq_okD(2,3) [OF ok c] s by blast
  qed (use tk other_takes in \<open>simp add: cq_takes_def c_def\<close>)
  with cq_okD(1) [OF ok c] obtain j where j: "si_enqueue ?i s = Some j" "si_ok j"
      "si_bag j = add_mset s (si_bag ?i) \<or> s \<in># si_bag ?i \<and> si_bag j = si_bag ?i"
    using innerq.enq_law by blast
  define q1 where "q1 = (if cq_front q \<ge> cq_back q then q\<lparr>cq_front := c, cq_back := c + 1\<rparr>
    else q\<lparr>cq_front := min (cq_front q) c, cq_back := max (cq_back q) (c + 1)\<rparr>)"
  have q1: "cq_queues q1 = cq_queues q" "cq_scc q1 = cq_scc q" by (simp_all add: q1_def)
  have win: "cq_front q1 \<le> c" "c < cq_back q1" by (auto simp: q1_def)
  have old: "cq_front q1 \<le> d \<and> d < cq_back q1" if "cq_front q \<le> d" "d < cq_back q" for d
    using that by (auto simp: q1_def)
  have bounds: "cq_front q1 \<le> cq_back q1" "cq_back q1 \<le> length (cq_queues q)"
    using c ok by (auto simp: q1_def cq_ok_def)
  define r where "r = q1\<lparr>cq_queues := (cq_queues q)[c := j]\<rparr>"
  have r: "cq_queues r = (cq_queues q)[c := j]" "cq_scc r = cq_scc q" "cq_front r = cq_front q1" "cq_back r = cq_back q1"
    by (simp_all add: r_def q1)
  have run: "cq_enqueue q s = Some r"
    using s c j(1) by (simp add: cq_enqueue_def Let_def q1 r_def flip: q1_def)
  have kind: "is_trivial j = is_trivial ?i" using si_type_kept(1) [OF j(1)] by (simp add: is_trivial_def)
  have "cq_ok r"
  proof (rule cq_okI)
    fix d t assume d: "d < length (cq_queues r)" "t \<in># si_bag (cq_queues r ! d)"
    show "vget (cq_scc r) t = Some d \<and> cq_front r \<le> d \<and> d < cq_back r"
    proof (cases "d = c \<and> t = s")
      case False
      then have "t \<in># si_bag (cq_queues q ! d)" using d j(3) c by (cases "d = c") (auto simp: r)
      then show ?thesis using cq_okD(2) [OF ok] d(1) old [of d] by (simp add: r)
    qed (use s win in \<open>simp add: r\<close>)
  next
    fix d t u assume "d < length (cq_queues r)" "is_trivial (cq_queues r ! d)"
      "vget (cq_scc r) t = Some d" "vget (cq_scc r) u = Some d"
    then show "t = u" using cq_okD(3) [OF ok, of d t u] kind by (cases "d = c") (simp_all add: r)
  next
    fix d assume "d < length (cq_queues r)"
    then show "si_ok (cq_queues r ! d)" using cq_okD(1) [OF ok] j(2) by (cases "d = c") (simp_all add: r)
  qed (use bounds ok in \<open>simp_all add: r cq_ok_def\<close>)
  moreover have "cq_bag r = add_mset s (cq_bag q) \<or> s \<in># cq_bag q \<and> cq_bag r = cq_bag q"
  proof -
    have swap: "cq_bag r + si_bag ?i = cq_bag q + si_bag j"
      using sum_list_swap [OF c, of si_bag j] by (simp add: cq_bag_def r)
    from j(3) show ?thesis
    proof
      assume "si_bag j = add_mset s (si_bag ?i)"
      then show ?thesis using swap by simp
    next
      assume "s \<in># si_bag ?i \<and> si_bag j = si_bag ?i"
      then show ?thesis using swap c cq_bag_iff by auto
    qed
  qed
  ultimately show ?thesis using run r(2) by blast
qed

lemma cq_skip_run:
  assumes ok: "cq_ok q"
  shows "\<exists>f. cq_skip_empty q = Some (if f < cq_back q then Some f else None, q\<lparr>cq_front := f\<rparr>) \<and>
    cq_ok (q\<lparr>cq_front := f\<rparr>) \<and> (f < cq_back q \<longrightarrow> si_bag (cq_queues q ! f) \<noteq> {#}) \<and>
    (cq_bag q = {#} \<longleftrightarrow> \<not> f < cq_back q)"
proof -
  have "cq_back q \<le> length (cq_queues q)" using ok by (simp add: cq_ok_def)
  then have "map_option si_is_empty (vget (cq_queues q) i) = Some (si_bag (cq_queues q ! i) = {#})"
    if "cq_front q \<le> i" "i < cq_back q" for i
    using that cq_okD(1) [OF ok] si_empty by simp
  from advance_run [of "cq_front q" "cq_back q" "\<lambda>i. map_option si_is_empty (vget (cq_queues q) i)", OF this]
  obtain f where
    f: "advance (\<lambda>i. map_option si_is_empty (vget (cq_queues q) i)) (cq_front q) (cq_back q) = Some f"
      "f \<le> cq_back q" "\<forall>i. cq_front q \<le> i \<and> i < f \<longrightarrow> si_bag (cq_queues q ! i) = {#}"
      "f < cq_back q \<longrightarrow> si_bag (cq_queues q ! f) \<noteq> {#}"
    using ok by (auto simp: cq_ok_def max_def)
  have le: "f \<le> c \<and> c < cq_back q" if "c < length (cq_queues q)" "s \<in># si_bag (cq_queues q ! c)" for c s
    using cq_okD(2) [OF ok that] f(3) that(2) by (metis empty_iff not_le set_mset_empty)
  have "cq_ok (q\<lparr>cq_front := f\<rparr>)"
    using ok f(2) le cq_okD [OF ok] by (intro cq_okI) (auto simp: cq_ok_def)
  moreover have "cq_bag q = {#} \<longleftrightarrow> \<not> f < cq_back q"
  proof
    assume "cq_bag q = {#}"
    then have "\<forall>c < length (cq_queues q). si_bag (cq_queues q ! c) = {#}"
      using cq_bag_iff [of _ q] by (metis empty_iff multiset_nonemptyE set_mset_empty)
    then show "\<not> f < cq_back q" using f(4) ok by (auto simp: cq_ok_def)
  next
    assume "\<not> f < cq_back q"
    then have "s \<notin># cq_bag q" for s using cq_bag_iff [of s q] le by force
    then show "cq_bag q = {#}" by (metis multiset_nonemptyE)
  qed
  ultimately show ?thesis using f(1,4) by (auto simp: cq_skip_empty_def)
qed

lemma cq_dequeue_none:
  assumes "cq_ok q" "cq_bag q = {#}"
  shows "\<exists>r. cq_head q = Some (None, r) \<and> cq_dequeue q = Some (None, r) \<and> cq_ok r \<and> cq_bag r = {#}"
proof -
  obtain f where "cq_skip_empty q = Some (None, q\<lparr>cq_front := f\<rparr>)" "cq_ok (q\<lparr>cq_front := f\<rparr>)"
    using cq_skip_run [OF assms(1)] assms(2) by auto
  then show ?thesis using assms(2) by (simp add: cq_head_def cq_dequeue_def cq_bag_def)
qed

lemma cq_dequeue_run:
  assumes ok: "cq_ok q" and ne: "cq_bag q \<noteq> {#}"
  shows "\<exists>s p r. cq_head q = Some (Some s, p) \<and> cq_dequeue q = Some (Some s, r) \<and> cq_ok r \<and> s \<in># cq_bag q \<and>
    cq_bag r = cq_bag q - {#s#} \<and> cq_scc r = cq_scc q \<and>
    (\<forall>t \<in># cq_bag q. \<not> cq_scc q ! t < cq_scc q ! s)"
proof -
  obtain f where f: "cq_skip_empty q = Some (Some f, q\<lparr>cq_front := f\<rparr>)" "cq_ok (q\<lparr>cq_front := f\<rparr>)"
      "f < cq_back q" "si_bag (cq_queues q ! f) \<noteq> {#}"
    using cq_skip_run [OF ok] ne by auto
  let ?q = "q\<lparr>cq_front := f\<rparr>" and ?i = "cq_queues q ! f"
  have fl: "f < length (cq_queues ?q)" using f(3) ok by (simp add: cq_ok_def)
  obtain s j where j: "si_head ?i = Some s" "si_dequeue ?i = Some (Some s, j)" "si_ok j" "s \<in># si_bag ?i"
      "si_bag j = si_bag ?i - {#s#}"
    using innerq.deq_some [OF _ f(4)] cq_okD(1) [OF f(2) fl] by auto
  define r where "r = ?q\<lparr>cq_queues := (cq_queues q)[f := j]\<rparr>"
  have r: "cq_queues r = (cq_queues q)[f := j]" "cq_scc r = cq_scc q" "cq_front r = f" "cq_back r = cq_back q"
    by (simp_all add: r_def)
  have hd: "cq_head q = Some (Some s, ?q)" using f(1) fl j(1) by (simp add: cq_head_def)
  have run: "cq_dequeue q = Some (Some s, r)" using f(1) fl j(2) by (simp add: cq_dequeue_def r_def)
  have kind: "is_trivial j = is_trivial ?i" using si_type_kept(2) [OF j(2)] by (simp add: is_trivial_def)
  have "cq_ok r"
  proof (rule cq_okI)
    fix d t assume d: "d < length (cq_queues r)" "t \<in># si_bag (cq_queues r ! d)"
    then have "t \<in># si_bag (cq_queues ?q ! d)" using fl j(5) by (cases "d = f") (auto simp: r dest: in_diffD)
    then show "vget (cq_scc r) t = Some d \<and> cq_front r \<le> d \<and> d < cq_back r"
      using cq_okD(2) [OF f(2), of d t] d(1) by (simp add: r)
  next
    fix d t u assume "d < length (cq_queues r)" "is_trivial (cq_queues r ! d)"
      "vget (cq_scc r) t = Some d" "vget (cq_scc r) u = Some d"
    then show "t = u" using cq_okD(3) [OF f(2), of d t u] kind by (cases "d = f") (simp_all add: r)
  next
    fix d assume "d < length (cq_queues r)"
    then show "si_ok (cq_queues r ! d)" using cq_okD(1) [OF f(2)] j(3) by (cases "d = f") (simp_all add: r)
  qed (use f(2) in \<open>simp_all add: r cq_ok_def\<close>)
  moreover have "s \<in># cq_bag q" using cq_bag_iff fl j(4) by auto
  moreover have "cq_bag r = cq_bag q - {#s#}"
  proof -
    have "cq_bag r + si_bag ?i = cq_bag q + si_bag j"
      using sum_list_swap [of f "cq_queues q" si_bag j] fl by (simp add: cq_bag_def r)
    moreover have "si_bag ?i = add_mset s (si_bag j)" using j(4,5) by simp
    ultimately have "add_mset s (cq_bag r) = cq_bag q" by simp
    then show ?thesis by (metis add_mset_remove_trivial)
  qed
  moreover have "\<not> cq_scc q ! t < cq_scc q ! s" if t: "t \<in># cq_bag q" for t
  proof -
    obtain c where c: "c < length (cq_queues q)" "t \<in># si_bag (cq_queues q ! c)" using t unfolding cq_bag_iff by blast
    then have "vget (cq_scc q) t = Some c \<and> f \<le> c" using cq_okD(2) [OF f(2), of c t] by simp
    moreover have "vget (cq_scc q) s = Some f" using cq_okD(2) [OF f(2) fl, of s] j(4) by simp
    ultimately show ?thesis by (auto simp: vget_eq_Some)
  qed
  ultimately show ?thesis using hd run r(2) by blast
qed

interpretation sccq: ordered_discipline cq_ok cq_bag cq_takes "\<lambda>q. map_option fst (cq_head q)"
    cq_enqueue cq_dequeue "\<lambda>q s t. cq_scc q ! s < cq_scc q ! t"
proof (unfold_locales, goal_cases)
  case (1 q s)
  then show ?case using cq_enqueue_run by blast
next
  case (2 q)
  then show ?case using cq_dequeue_none by fastforce
next
  case (3 q)
  then show ?case using cq_dequeue_run [of q] by fastforce
next
  case (4 q s r)
  then have "cq_bag q \<noteq> {#}" using cq_dequeue_none by force
  from cq_dequeue_run [OF 4(1) this] 4(2) show ?case by auto
qed

text \<open>C23. What a component queue holds it serves component by component, in the order of their
  numbers, whatever disciplines run inside; what is given to a component that has been passed
  already is served before anything later.\<close>

theorem components_served_in_order:
  assumes "cq_ok q" "cq_takes q s"
  shows "\<exists>r ss e. cq_enqueue q s = Some r \<and> cq_ok r \<and>
    serve_all cq_dequeue (Suc (size (cq_bag r))) r = Some (ss, e) \<and> set ss = insert s (set_mset (cq_bag q)) \<and>
    sorted_wrt (\<lambda>a b. cq_scc q ! a \<le> cq_scc q ! b) ss"
proof -
  obtain r where r: "cq_enqueue q s = Some r" "cq_ok r" "cq_scc r = cq_scc q"
      "cq_bag r = add_mset s (cq_bag q) \<or> s \<in># cq_bag q \<and> cq_bag r = cq_bag q"
    using cq_enqueue_run [OF assms] by blast
  obtain ss e where ss: "serve_all cq_dequeue (Suc (size (cq_bag r))) r = Some (ss, e)" "mset ss = cq_bag r"
      "sorted_wrt (\<lambda>a b. \<not> cq_scc q ! b < cq_scc q ! a) ss"
    using sccq.serves_in_order [OF r(2) lessI] r(3) by auto
  have "set ss = insert s (set_mset (cq_bag q))"
    using r(4) ss(2) by (metis insert_absorb set_mset_add_mset_insert set_mset_mset)
  then show ?thesis using r(1,2) ss(1,3) by (auto simp: not_less)
qed

lemma cq_new_ok:
  assumes "\<forall>c \<in> set scc. c < length qs" "\<forall>i \<in> set qs. si_ok i \<and> si_bag i = {#}"
    "\<And>c s t. c < length qs \<Longrightarrow> is_trivial (qs ! c) \<Longrightarrow> vget scc s = Some c \<Longrightarrow> vget scc t = Some c \<Longrightarrow> s = t"
  shows "cq_ok (cq_new scc qs) \<and> cq_bag (cq_new scc qs) = {#}"
proof
  show "cq_ok (cq_new scc qs)"
    using assms(1,2) by (intro cq_okI) (auto simp: cq_new_def dest: assms(3))
  have "s \<notin># cq_bag (cq_new scc qs)" for s using assms(2) cq_bag_iff by (auto simp: cq_new_def)
  then show "cq_bag (cq_new scc qs) = {#}" by (metis multiset_nonemptyE)
qed

theorem components_served_in_order_witness:
  "\<exists>r ss e. cq_enqueue (cq_new [1, 0, 1] [ITrivial None, ILifo []]) 2 = Some r \<and>
    serve_all cq_dequeue (Suc (size (cq_bag r))) r = Some (ss, e) \<and> set ss = {2}"
proof -
  let ?q = "cq_new [1, 0, 1] [ITrivial None, ILifo []]"
  have one: "vget [Suc 0, 0, Suc 0] s = Some 0 \<longleftrightarrow> s = 1" for s
    by (auto simp: vget_def nth_Cons less_Suc_eq split: nat.splits)
  have "cq_ok ?q \<and> cq_bag ?q = {#}"
    by (rule cq_new_ok) (auto simp: si_defs front_bag_def less_Suc_eq one)
  moreover have "cq_takes ?q 2" by (simp add: cq_takes_def cq_new_def inner_room_def)
  ultimately show ?thesis using components_served_in_order [of ?q 2] by auto
qed

section \<open>Which discipline a component gets\<close>

definition chosen_type :: "bool \<Rightarrow> ('w::{zero,one} \<Rightarrow> 'w \<Rightarrow> bool) option \<Rightarrow> 'w list \<Rightarrow> queue_type" where
  "chosen_type idem lt ws =
     (if ws = [] then QTrivial
      else case lt of
        None \<Rightarrow> QFifo
      | Some lt \<Rightarrow>
          if \<exists>w \<in> set ws. lt w 1 then QFifo
          else if idem \<and> (\<forall>w \<in> set ws. w = 0 \<or> w = 1) then QLifo else QShortestFirst)"

lemma chosen_snoc: "chosen_type idem lt (ws @ [w]) = next_type idem lt w (chosen_type idem lt ws)"
  by (cases lt) (auto simp: chosen_type_def next_type_def Let_def)

lemma chosen_trivial: "chosen_type idem lt ws = QTrivial \<longleftrightarrow> ws = []"
  by (cases lt) (auto simp: chosen_type_def)

text \<open>The weights of the arcs inside a component, and of all arcs that are looked at.\<close>

definition inside :: "nat list \<Rightarrow> (state_id \<Rightarrow> 'w arc list) \<Rightarrow> state_id list \<Rightarrow> nat \<Rightarrow> 'w list" where
  "inside scc arcs states c = concat (map (\<lambda>s.
     if vget scc s = Some c then map weight (filter (\<lambda>a. vget scc (nextstate a) = Some c) (arcs s)) else []) states)"

definition looked_at :: "nat list \<Rightarrow> (state_id \<Rightarrow> 'w arc list) \<Rightarrow> state_id list \<Rightarrow> 'w list" where
  "looked_at scc arcs states = concat (map (\<lambda>s. if vget scc s = None then [] else map weight (arcs s)) states)"

definition analysed ::
  "bool \<Rightarrow> ('w::{zero,one} \<Rightarrow> 'w \<Rightarrow> bool) option \<Rightarrow> nat \<Rightarrow> (nat \<Rightarrow> 'w list) \<Rightarrow> 'w list \<Rightarrow> scc_analysis \<Rightarrow> bool" where
  "analysed idem lt nscc ws us sa \<longleftrightarrow>
     sa_queue_types sa = map (\<lambda>c. chosen_type idem lt (ws c)) [0..<nscc] \<and>
     sa_all_trivial sa = (\<forall>c < nscc. ws c = []) \<and>
     sa_unweighted sa = (idem \<and> (\<forall>w \<in> set us. w = 0 \<or> w = 1))"

lemma sa_arc_run:
  assumes sa: "analysed idem lt nscc ws us sa" and fr: "fr < nscc"
  shows "\<exists>sb. sa_arc idem lt scc fr a sa = Some sb \<and>
    analysed idem lt nscc
      (if vget scc (nextstate a) = Some fr then ws(fr := ws fr @ [weight a]) else ws) (us @ [weight a]) sb"
proof -
  let ?in = "vget scc (nextstate a) = Some fr" and ?t = "next_type idem lt (weight a) (chosen_type idem lt (ws fr))"
  define sm where "sm = (if ?in then let sa = sa\<lparr>sa_queue_types := (sa_queue_types sa)[fr := ?t]\<rparr> in
    if ?t \<noteq> QTrivial then sa\<lparr>sa_all_trivial := False\<rparr> else sa else sa)"
  define sb where "sb = (if \<not> (idem \<and> (weight a = 0 \<or> weight a = 1)) then sm\<lparr>sa_unweighted := False\<rparr> else sm)"
  have ty: "vget (sa_queue_types sa) fr = Some (chosen_type idem lt (ws fr))"
    using sa fr by (simp add: analysed_def)
  have run: "sa_arc idem lt scc fr a sa = Some sb"
    by (cases ?in; cases "?t = QTrivial"; cases "idem \<and> (weight a = 0 \<or> weight a = 1)")
      (simp_all only: sa_arc_def sb_def sm_def Let_def ty if_True if_False bind.bind_lunit not_True_eq_False
        not_False_eq_True simp_thms)
  have t: "?t = chosen_type idem lt (ws fr @ [weight a])" "?t \<noteq> QTrivial"
    using chosen_snoc [of idem lt "ws fr" "weight a"] chosen_trivial by (metis snoc_eq_iff_butlast)+
  have types: "sa_queue_types sb = map (\<lambda>c. chosen_type idem lt
      ((if ?in then ws(fr := ws fr @ [weight a]) else ws) c)) [0..<nscc]"
  proof (cases ?in)
    case True
    then have "sa_queue_types sb = (sa_queue_types sa)[fr := ?t]" using t(2) by (simp add: sb_def sm_def Let_def)
    moreover have "sa_queue_types sa = map (\<lambda>c. chosen_type idem lt (ws c)) [0..<nscc]"
      using sa by (simp add: analysed_def)
    moreover have "(map f [0..<nscc])[fr := y] = map (f(fr := y)) [0..<nscc]" for f :: "nat \<Rightarrow> queue_type" and y
      using fr by (auto simp: list_eq_iff_nth_eq nth_list_update)
    moreover have "(\<lambda>c. chosen_type idem lt ((if ?in then ws(fr := ws fr @ [weight a]) else ws) c)) =
        (\<lambda>c. chosen_type idem lt (ws c))(fr := ?t)"
      using True t(1) by (simp add: fun_eq_iff)
    ultimately show ?thesis by simp
  qed (use sa in \<open>simp add: sb_def sm_def analysed_def\<close>)
  have "sa_all_trivial sm = (if ?in then False else sa_all_trivial sa)"
    using t(2) by (simp add: sm_def Let_def)
  moreover have "sa_all_trivial sb = sa_all_trivial sm" unfolding sb_def by simp
  ultimately have triv: "sa_all_trivial sb = (\<forall>c < nscc. (if ?in then ws(fr := ws fr @ [weight a]) else ws) c = [])"
    using sa fr by (auto simp: analysed_def)
  have "sa_unweighted sm = sa_unweighted sa" by (simp add: sm_def Let_def)
  then have "sa_unweighted sb = (idem \<and> (\<forall>w \<in> set (us @ [weight a]). w = 0 \<or> w = 1))"
    using sa by (auto simp: sb_def analysed_def)
  then show ?thesis using run types triv by (simp add: analysed_def)
qed

lemma sa_arcs_run:
  assumes "analysed idem lt nscc ws us sa" "fr < nscc"
  shows "\<exists>sb. ofold (sa_arc idem lt scc fr) xs sa = Some sb \<and>
    analysed idem lt nscc
      (ws(fr := ws fr @ map weight (filter (\<lambda>a. vget scc (nextstate a) = Some fr) xs)))
      (us @ map weight xs) sb"
  using assms(1)
proof (induction xs arbitrary: ws us sa)
  case (Cons a xs)
  let ?ws = "if vget scc (nextstate a) = Some fr then ws(fr := ws fr @ [weight a]) else ws"
  obtain sm where sm: "sa_arc idem lt scc fr a sa = Some sm" "analysed idem lt nscc ?ws (us @ [weight a]) sm"
    using sa_arc_run [OF Cons.prems assms(2)] by blast
  have "?ws(fr := ?ws fr @ map weight (filter (\<lambda>a. vget scc (nextstate a) = Some fr) xs)) =
      ws(fr := ws fr @ map weight (filter (\<lambda>a. vget scc (nextstate a) = Some fr) (a # xs)))"
    by simp
  then show ?case using Cons.IH [OF sm(2)] sm(1) by simp
qed simp

lemma sa_states_run:
  assumes scc: "\<forall>c \<in> set scc. c < nscc" and sa: "analysed idem lt nscc ws us sa"
  shows "\<exists>sb. ofold (\<lambda>state sa. case vget scc state of None \<Rightarrow> Some sa
      | Some fr \<Rightarrow> ofold (sa_arc idem lt scc fr) (arcs state) sa) states sa = Some sb \<and>
    analysed idem lt nscc (\<lambda>c. ws c @ inside scc arcs states c) (us @ looked_at scc arcs states) sb"
  using sa
proof (induction states arbitrary: ws us sa)
  case (Cons s states)
  show ?case
  proof (cases "vget scc s")
    case None
    then show ?thesis using Cons.IH [OF Cons.prems] by (simp add: inside_def looked_at_def)
  next
    case (Some fr)
    then have "fr < nscc" using scc by (auto simp: vget_eq_Some)
    from sa_arcs_run [OF Cons.prems this] obtain sm where
      sm: "ofold (sa_arc idem lt scc fr) (arcs s) sa = Some sm"
      "analysed idem lt nscc (ws(fr := ws fr @ map weight (filter (\<lambda>a. vget scc (nextstate a) = Some fr) (arcs s))))
        (us @ map weight (arcs s)) sm"
      by blast
    have "(\<lambda>c. (ws(fr := ws fr @ map weight (filter (\<lambda>a. vget scc (nextstate a) = Some fr) (arcs s)))) c @
        inside scc arcs states c) = (\<lambda>c. ws c @ inside scc arcs (s # states) c)"
      using Some by (auto simp: inside_def fun_eq_iff)
    then show ?thesis using Cons.IH [OF sm(2)] sm(1) Some by (simp add: looked_at_def)
  qed
qed (simp add: inside_def looked_at_def)

text \<open>C24. The discipline of a component follows fr the weights of the arcs inside it alone:
  trivial when there is none; first-in first-out without an order on weights or with an arc lighter
  than one; last-in first-out when every arc weighs zero or one over an idempotent semiring;
  lightest first otherwise.  The two summary flags are exact.\<close>

theorem scc_queue_types_exact:
  fixes lt :: "('w::{zero,one} \<Rightarrow> 'w \<Rightarrow> bool) option"
  assumes "\<forall>c \<in> set scc. c < nscc"
  shows "scc_queue_types idem states arcs scc nscc lt = Some
    \<lparr>sa_queue_types = map (\<lambda>c. chosen_type idem lt (inside scc arcs states c)) [0..<nscc],
     sa_all_trivial = (\<forall>c < nscc. inside scc arcs states c = []),
     sa_unweighted = (idem \<and> (\<forall>w \<in> set (looked_at scc arcs states). w = 0 \<or> w = 1))\<rparr>"
proof -
  let ?s0 = "\<lparr>sa_queue_types = replicate nscc QTrivial, sa_all_trivial = True, sa_unweighted = idem\<rparr>"
  have "analysed idem lt nscc (\<lambda>_. []) [] ?s0"
    by (simp add: analysed_def chosen_type_def map_replicate_const)
  from sa_states_run [OF assms this, of arcs states] obtain sb where
    sb: "scc_queue_types idem states arcs scc nscc lt = Some sb"
      "analysed idem lt nscc (inside scc arcs states) (looked_at scc arcs states) sb"
    by (auto simp: scc_queue_types_def)
  then show ?thesis by (cases sb) (simp add: analysed_def)
qed

theorem scc_queue_types_exact_witness:
  "scc_queue_types True [0, 1] (\<lambda>s. if s = 0 then [arc_new 1 1 (5 :: nat) 0, arc_new 1 1 0 1] else []) [0, 1] 2 (Some (<)) =
   Some \<lparr>sa_queue_types = [QShortestFirst, QTrivial], sa_all_trivial = False, sa_unweighted = False\<rparr>"
  by (subst scc_queue_types_exact) (simp_all add: inside_def looked_at_def chosen_type_def upt_rec less_Suc_eq numeral_2_eq_2)

end
