(* ===== verification/PruneQueue.thy ===== *)
theory PruneQueue
  imports Queues
begin

text \<open>
  The queues of \<open>queue.rs\<close> that refuse states: lightest first with a bound on the arcs of a path, a
  threshold on the distance within a class, and a filter in front of another queue.
\<close>

section \<open>Lightest first within a number of arcs\<close>

text \<open>\<open>head_steps\<close> and \<open>max_head_steps\<close> are cells that \<open>head\<close> writes.\<close>

record prune_shortest =
  ps_inner :: shortest_queue
  ps_steps :: "nat list"
  ps_arc_threshold :: "nat option"
  ps_state_limit :: "nat option"
  ps_head_steps :: nat
  ps_max_head_steps :: nat

definition ps_new :: "(state_id \<Rightarrow> state_id \<Rightarrow> bool) \<Rightarrow> nat option \<Rightarrow> nat option \<Rightarrow> prune_shortest" where
  "ps_new cmp arc_threshold state_limit =
     \<lparr>ps_inner = sq_new cmp, ps_steps = [], ps_arc_threshold = arc_threshold, ps_state_limit = state_limit,
      ps_head_steps = 0, ps_max_head_steps = 0\<rparr>"

definition ps_len :: "prune_shortest \<Rightarrow> nat" where
  "ps_len q = ih_len (sq_heap (ps_inner q))"

definition ps_head :: "prune_shortest \<Rightarrow> state_id option \<times> prune_shortest" where
  "ps_head q =
     (case sq_head (ps_inner q) of
        None \<Rightarrow> (None, q)
      | Some h \<Rightarrow>
          (Some h,
           case vget (ps_steps q) h of
             Some steps \<Rightarrow> q\<lparr>ps_max_head_steps := max (ps_max_head_steps q) steps, ps_head_steps := steps\<rparr>
           | None \<Rightarrow> q))"

definition ps_adjusted :: "prune_shortest \<Rightarrow> nat \<Rightarrow> nat" where
  "ps_adjusted q arc_threshold =
     (case ps_state_limit q of
        Some limit \<Rightarrow>
          if limit > 0 \<and> ps_len q > limit then arc_threshold - (ps_len q div limit + 1) else arc_threshold
      | None \<Rightarrow> arc_threshold)"

definition ps_enqueue :: "prune_shortest \<Rightarrow> state_id \<Rightarrow> prune_shortest option" where
  "ps_enqueue q state = do {
     let state_steps = ps_head_steps q + 1;
     let steps = (if state \<ge> length (ps_steps q) then vresize (state + 1) state_steps (ps_steps q) else ps_steps q);
     steps \<leftarrow> vset steps state state_steps;
     let q = q\<lparr>ps_steps := steps\<rparr>;
     (case ps_arc_threshold q of
        None \<Rightarrow> do { inner \<leftarrow> sq_enqueue True (ps_inner q) state; Some (q\<lparr>ps_inner := inner\<rparr>) }
      | Some arc_threshold \<Rightarrow> do {
          let adjusted = ps_adjusted q arc_threshold;
          (if state_steps > ps_max_head_steps q - adjusted then do {
             inner \<leftarrow> (if adjusted = 0 \<and> (case ps_state_limit q of Some limit \<Rightarrow> limit > 0 | None \<Rightarrow> False)
                      then sq_clear (ps_inner q) else Some (ps_inner q));
             inner \<leftarrow> sq_enqueue True inner state;
             Some (q\<lparr>ps_inner := inner\<rparr>) }
           else Some q) }) }"

definition ps_dequeue :: "prune_shortest \<Rightarrow> (state_id option \<times> prune_shortest) option" where
  "ps_dequeue q =
     (case ps_head q of
        (None, q) \<Rightarrow> Some (None, q)
      | (Some _, q) \<Rightarrow> do {
          (s, inner) \<leftarrow> sq_dequeue True (ps_inner q);
          Some (s, q\<lparr>ps_inner := inner\<rparr>) })"

definition ps_update :: "prune_shortest \<Rightarrow> state_id \<Rightarrow> prune_shortest option" where
  "ps_update q state = do { inner \<leftarrow> sq_update True (ps_inner q) state; Some (q\<lparr>ps_inner := inner\<rparr>) }"

definition ps_clear :: "prune_shortest \<Rightarrow> prune_shortest option" where
  "ps_clear q = do {
     inner \<leftarrow> sq_clear (ps_inner q);
     Some (q\<lparr>ps_inner := inner, ps_steps := [], ps_head_steps := 0, ps_max_head_steps := 0\<rparr>) }"

section \<open>A threshold within a class\<close>

text \<open>The queue underneath is \<open>'q\<close>; the distance vector is shared with the caller, so the operations
  take it as it stands.\<close>

record ('q, 'w) prune_queue =
  pq_queue :: 'q
  pq_threshold :: 'w
  pq_class_distance :: "'w list"

definition pq_new :: "'q \<Rightarrow> 'w \<Rightarrow> ('q, 'w) prune_queue" where
  "pq_new queue threshold = \<lparr>pq_queue = queue, pq_threshold = threshold, pq_class_distance = []\<rparr>"

definition pq_note ::
  "('w::zero \<Rightarrow> 'w \<Rightarrow> bool) \<Rightarrow> (state_id \<Rightarrow> nat) \<Rightarrow> 'w list \<Rightarrow> ('q, 'w) prune_queue \<Rightarrow> state_id \<Rightarrow>
   ('w option \<times> ('q, 'w) prune_queue) option" where
  "pq_note lt class_fnc distance q state = do {
     let cls = class_fnc state;
     let q = (if cls \<ge> length (pq_class_distance q)
       then q\<lparr>pq_class_distance := vresize (cls + 1) 0 (pq_class_distance q)\<rparr> else q);
     (case vget distance state of
        None \<Rightarrow> Some (None, q)
      | Some d \<Rightarrow> do {
          best \<leftarrow> vget (pq_class_distance q) cls;
          (if lt d best then do {
             cd \<leftarrow> vset (pq_class_distance q) cls d;
             Some (Some d, q\<lparr>pq_class_distance := cd\<rparr>) }
           else Some (Some d, q)) }) }"

definition pq_enqueue ::
  "('q \<Rightarrow> state_id \<Rightarrow> 'q option) \<Rightarrow> ('w \<Rightarrow> 'w \<Rightarrow> 'w) \<Rightarrow> ('w::zero \<Rightarrow> 'w \<Rightarrow> bool) \<Rightarrow> (state_id \<Rightarrow> nat) \<Rightarrow> 'w list \<Rightarrow>
   ('q, 'w) prune_queue \<Rightarrow> state_id \<Rightarrow> ('q, 'w) prune_queue option" where
  "pq_enqueue enq tm lt class_fnc distance q state = do {
     (d, q) \<leftarrow> pq_note lt class_fnc distance q state;
     (case d of
        None \<Rightarrow> Some q
      | Some d \<Rightarrow> do {
          best \<leftarrow> vget (pq_class_distance q) (class_fnc state);
          (if lt d (tm best (pq_threshold q))
           then do { inner \<leftarrow> enq (pq_queue q) state; Some (q\<lparr>pq_queue := inner\<rparr>) }
           else Some q) }) }"

definition pq_update ::
  "('q \<Rightarrow> state_id \<Rightarrow> 'q option) \<Rightarrow> ('w::zero \<Rightarrow> 'w \<Rightarrow> bool) \<Rightarrow> (state_id \<Rightarrow> nat) \<Rightarrow> 'w list \<Rightarrow>
   ('q, 'w) prune_queue \<Rightarrow> state_id \<Rightarrow> ('q, 'w) prune_queue option" where
  "pq_update upd lt class_fnc distance q state = do {
     (_, q) \<leftarrow> pq_note lt class_fnc distance q state;
     inner \<leftarrow> upd (pq_queue q) state;
     Some (q\<lparr>pq_queue := inner\<rparr>) }"

definition pq_dequeue :: "('q \<Rightarrow> (state_id option \<times> 'q) option) \<Rightarrow> ('q, 'w) prune_queue \<Rightarrow>
    (state_id option \<times> ('q, 'w) prune_queue) option" where
  "pq_dequeue deq q = do { (s, inner) \<leftarrow> deq (pq_queue q); Some (s, q\<lparr>pq_queue := inner\<rparr>) }"

section \<open>A filter\<close>

text \<open>A \<open>FilterQueue\<close> has the state of the queue underneath.  It does not override \<open>update\<close>, whose
  default does nothing.\<close>

definition fq_enqueue :: "('q \<Rightarrow> state_id \<Rightarrow> 'q option) \<Rightarrow> (state_id \<Rightarrow> bool) \<Rightarrow> 'q \<Rightarrow> state_id \<Rightarrow> 'q option" where
  "fq_enqueue enq flt q state = (if flt state then enq q state else Some q)"

definition fq_update :: "'q \<Rightarrow> state_id \<Rightarrow> 'q option" where
  "fq_update q state = Some q"

section \<open>What they keep and what they refuse\<close>

lemma sq_clear_run:
  assumes "sq_ok upd q"
  shows "\<exists>r. sq_clear q = Some r \<and> sq_ok upd r \<and> sq_bag r = {#} \<and> sq_room r \<and>
    ih_comp (sq_heap r) = ih_comp (sq_heap q)"
proof -
  have h: "heap_ok (sq_heap q)" using assms by (simp add: sq_ok_def)
  obtain G where G: "ih_clear (sq_heap q) = Some G" "heap_ok G" "contents G = Map.empty"
      "ih_comp G = ih_comp (sq_heap q)"
    using clear_run [OF h] by blast
  then have "ih_elements G = []" using contents_empty by blast
  then show ?thesis using G
    by (simp add: sq_clear_def sq_ok_def keys_true_def sq_bag_def items_bag_def sq_room_def heap_room_def)
qed

text \<open>The invariant: every queued state has its number of arcs on record.\<close>

definition ps_ok :: "prune_shortest \<Rightarrow> bool" where
  "ps_ok q \<longleftrightarrow> sq_ok True (ps_inner q) \<and> (\<forall>s \<in># sq_bag (ps_inner q). s < length (ps_steps q))"

text \<open>How far the head is behind the longest path, and what the queue tolerates: a lag within the threshold and, once more
  states are queued than the limit, fewer queued than the limit times the arcs the lag leaves of the threshold.\<close>

definition ps_lag :: "prune_shortest \<Rightarrow> nat" where
  "ps_lag q = ps_max_head_steps q - ps_head_steps q"

definition ps_tolerates :: "prune_shortest \<Rightarrow> nat \<Rightarrow> bool" where
  "ps_tolerates q lag = (case ps_arc_threshold q of
     None \<Rightarrow> True
   | Some t \<Rightarrow> lag \<le> t \<and>
       (let queued = size (sq_bag (ps_inner q)) in
        case ps_state_limit q of
          None \<Rightarrow> True
        | Some limit \<Rightarrow> 0 < limit \<and> limit < queued \<longrightarrow> queued < limit * (t - lag)))"

lemma ps_len_size:
  assumes "ps_ok q"
  shows "ps_len q = size (sq_bag (ps_inner q))"
proof -
  have "keyed (ih_elements (sq_heap (ps_inner q))) (ih_pos (sq_heap (ps_inner q)))"
    using assms by (auto simp: ps_ok_def sq_ok_def heap_ok_def)
  then show ?thesis using keyed_card by (fastforce simp: ps_len_def ih_len_def sq_bag_def items_bag_def dom_contents)
qed

lemma less_div_iff: "0 < (limit :: nat) \<Longrightarrow> n div limit < k \<longleftrightarrow> n < limit * k"
  by (simp add: div_less_iff_less_mult mult.commute)

lemma ps_tolerates_adjusted:
  assumes ok: "ps_ok q" and "ps_arc_threshold q = Some t" "0 < lag"
  shows "ps_tolerates q lag \<longleftrightarrow> lag \<le> ps_adjusted q t"
proof -
  have "lag \<le> t \<and> size (sq_bag (ps_inner q)) < limit * (t - lag) \<longleftrightarrow> lag \<le> t - (size (sq_bag (ps_inner q)) div limit + 1)"
    if "0 < limit" for limit
    using less_div_iff [OF that, of "size (sq_bag (ps_inner q))" "t - lag"] assms(3) by linarith
  then show ?thesis
    using assms(2,3) by (auto simp: ps_tolerates_def ps_adjusted_def ps_len_size [OF ok] Let_def split: option.splits)
qed

text \<open>C38. What \<open>enqueue\<close> of the arc-bounded queue does, exactly, from any state of the queue.  The state is recorded one
  arc beyond the head.  It is queued when the head is on a longest path or its lag is tolerated, and refused otherwise.
  Only when a limit on the states is set and not even one arc of lag is tolerated does it drop what was queued; a queue
  without a threshold refuses nothing and drops nothing.\<close>

theorem prune_enqueue_exact:
  assumes "ps_ok q" "sq_room (ps_inner q)"
  shows "\<exists>r. ps_enqueue q s = Some r \<and> ps_ok r \<and> vget (ps_steps r) s = Some (ps_head_steps q + 1) \<and>
    (\<forall>t. t \<noteq> s \<longrightarrow> t < length (ps_steps q) \<longrightarrow> vget (ps_steps r) t = vget (ps_steps q) t) \<and>
    sq_bag (ps_inner r) = (if 0 < ps_lag q \<and> \<not> ps_tolerates q (ps_lag q) then sq_bag (ps_inner q)
      else if (\<exists>limit > 0. ps_state_limit q = Some limit) \<and> \<not> ps_tolerates q 1 then {#s#}
      else add_mset s (sq_bag (ps_inner q)))"
proof -
  let ?n = "ps_head_steps q + 1" and ?i = "ps_inner q"
  define st where "st = (if s \<ge> length (ps_steps q) then vresize (s + 1) ?n (ps_steps q) else ps_steps q)[s := ?n]"
  have st: "s < length st" "st ! s = ?n" "length (ps_steps q) \<le> length st"
    by (auto simp: st_def)
  have setst: "vset (if s \<ge> length (ps_steps q) then vresize (s + 1) ?n (ps_steps q) else ps_steps q) s ?n = Some st"
    by (simp add: st_def)
  have ok: "sq_ok True ?i" and in_steps: "\<forall>t \<in># sq_bag ?i. t < length st"
    using assms(1) st(3) by (auto simp: ps_ok_def)
  have "ps_len (q\<lparr>ps_steps := st\<rparr>) = ps_len q" by (simp add: ps_len_def)
  then have adj: "ps_adjusted (q\<lparr>ps_steps := st\<rparr>) t = ps_adjusted q t" for t
    by (simp add: ps_adjusted_def split: option.split)
  obtain i1 where i1: "sq_enqueue True ?i s = Some i1" "sq_ok True i1" "sq_bag i1 = add_mset s (sq_bag ?i)"
    using sq_enqueue_run [OF ok assms(2)] by blast
  obtain c where c: "sq_clear ?i = Some c" "sq_ok True c" "sq_bag c = {#}" "sq_room c"
    using sq_clear_run [OF ok] by blast
  obtain i2 where i2: "sq_enqueue True c s = Some i2" "sq_ok True i2" "sq_bag i2 = {#s#}"
    using sq_enqueue_run [OF c(2,4)] c(3) by auto
  let ?refused = "0 < ps_lag q \<and> \<not> ps_tolerates q (ps_lag q)"
    and ?drops = "(\<exists>limit > 0. ps_state_limit q = Some limit) \<and> \<not> ps_tolerates q 1"
  define i where "i = (if ?refused then ?i else if ?drops then i2 else i1)"
  have "ps_enqueue q s = Some (q\<lparr>ps_steps := st, ps_inner := i\<rparr>)"
  proof (cases "ps_arc_threshold q")
    case None
    then show ?thesis
      unfolding ps_enqueue_def Let_def setst by (simp add: i_def ps_tolerates_def i1(1))
  next
    case (Some t)
    have refused: "?refused \<longleftrightarrow> \<not> ?n > ps_max_head_steps q - ps_adjusted q t"
      using ps_tolerates_adjusted [OF assms(1) Some, of "ps_lag q"] by (cases "0 < ps_lag q") (auto simp: ps_lag_def)
    have drops: "?drops \<longleftrightarrow> ps_adjusted q t = 0 \<and> (case ps_state_limit q of Some limit \<Rightarrow> limit > 0 | None \<Rightarrow> False)"
      using ps_tolerates_adjusted [OF assms(1) Some, of 1] by (auto split: option.splits)
    show ?thesis
      unfolding ps_enqueue_def Let_def setst i_def refused drops using Some by (simp add: adj i1(1) c(1) i2(1))
  qed
  moreover have "ps_ok (q\<lparr>ps_steps := st, ps_inner := i\<rparr>)"
    using ok i1 i2 in_steps st(1) by (simp add: ps_ok_def i_def)
  moreover have "vget st u = vget (ps_steps q) u" if "u \<noteq> s" "u < length (ps_steps q)" for u
    using that by (auto simp: st_def vget_def nth_vresize)
  moreover have "sq_bag i = (if ?refused then sq_bag ?i else if ?drops then {#s#} else add_mset s (sq_bag ?i))"
    unfolding i_def by (simp only: i1(3) i2(3) split: if_split) blast
  ultimately show ?thesis using st by (intro exI [of _ "q\<lparr>ps_steps := st, ps_inner := i\<rparr>"]) simp
qed

text \<open>A queue whose head is two arcs behind the longest path, with a threshold of one.\<close>

definition far_behind :: prune_shortest where
  "far_behind = (ps_new (<) (Some 1) (Some 3))\<lparr>ps_head_steps := 4, ps_max_head_steps := 6\<rparr>"

theorem prune_enqueue_exact_witness:
  "\<exists>r. ps_enqueue far_behind 2 = Some r \<and> sq_bag (ps_inner r) = {#} \<and> vget (ps_steps r) 2 = Some 5"
  using prune_enqueue_exact [of far_behind 2] sq_new_ok [OF ranks_nat, of True]
  by (auto simp: far_behind_def ps_new_def ps_ok_def ps_lag_def ps_tolerates_def)

text \<open>Taking the head makes its number of arcs the one that the next states are counted from.\<close>

lemma prune_dequeue_counts:
  assumes ok: "ps_ok q" and ne: "sq_bag (ps_inner q) \<noteq> {#}"
  shows "\<exists>s r. ps_dequeue q = Some (Some s, r) \<and> ps_ok r \<and> sq_bag (ps_inner r) = sq_bag (ps_inner q) - {#s#} \<and>
    ps_head_steps r = ps_steps q ! s \<and> ps_steps r = ps_steps q \<and>
    ps_max_head_steps r = max (ps_max_head_steps q) (ps_steps q ! s) \<and>
    (\<forall>t \<in># sq_bag (ps_inner q). \<not> ih_comp (sq_heap (ps_inner q)) t s)"
proof -
  have "sq_ok True (ps_inner q)" using ok by (simp add: ps_ok_def)
  from sq_dequeue_run [OF this ne] obtain s i where
    i: "sq_head (ps_inner q) = Some s" "sq_dequeue True (ps_inner q) = Some (Some s, i)" "sq_ok True i"
      "s \<in># sq_bag (ps_inner q)" "sq_bag i = sq_bag (ps_inner q) - {#s#}"
      "\<forall>t \<in># sq_bag (ps_inner q). \<not> ih_comp (sq_heap (ps_inner q)) t s"
    by blast
  have "s < length (ps_steps q)" using ok i(4) by (simp add: ps_ok_def)
  then have "ps_dequeue q = Some (Some s, q\<lparr>ps_max_head_steps := max (ps_max_head_steps q) (ps_steps q ! s),
      ps_head_steps := ps_steps q ! s, ps_inner := i\<rparr>)"
    using i(1,2) by (simp add: ps_dequeue_def ps_head_def)
  moreover have "\<forall>t \<in># sq_bag i. t < length (ps_steps q)"
    using ok i(5) by (auto simp: ps_ok_def dest: in_diffD)
  ultimately show ?thesis using i(3,5,6) by (simp add: ps_ok_def)
qed

text \<open>The record of a class is never heavier than a distance noted in it, and never gets heavier.\<close>

lemma pq_note_run:
  "\<exists>r. pq_note lt cf d q s = Some (vget d s, r) \<and> pq_queue r = pq_queue q \<and> pq_threshold r = pq_threshold q \<and>
     cf s < length (pq_class_distance r) \<and> length (pq_class_distance q) \<le> length (pq_class_distance r) \<and>
     (\<forall>c < length (pq_class_distance r). pq_class_distance r ! c =
       (let old = (if c < length (pq_class_distance q) then pq_class_distance q ! c else 0) in
        case vget d s of Some w \<Rightarrow> if c = cf s \<and> lt w old then w else old | None \<Rightarrow> old))"
proof -
  define cd where "cd = (if cf s \<ge> length (pq_class_distance q)
    then vresize (cf s + 1) 0 (pq_class_distance q) else pq_class_distance q)"
  have q: "(if cf s \<ge> length (pq_class_distance q)
      then q\<lparr>pq_class_distance := vresize (cf s + 1) 0 (pq_class_distance q)\<rparr> else q) = q\<lparr>pq_class_distance := cd\<rparr>"
    by (simp add: cd_def)
  have len: "cf s < length cd" "length (pq_class_distance q) \<le> length cd" by (auto simp: cd_def)
  have nth: "cd ! c = (if c < length (pq_class_distance q) then pq_class_distance q ! c else 0)" if "c < length cd" for c
    using that by (auto simp: cd_def nth_vresize split: if_splits)
  define r where "r = q\<lparr>pq_class_distance :=
    (case vget d s of Some w \<Rightarrow> if lt w (cd ! cf s) then cd[cf s := w] else cd | None \<Rightarrow> cd)\<rparr>"
  have "pq_note lt cf d q s = Some (vget d s, r)"
    unfolding pq_note_def Let_def q using len(1) by (cases "vget d s") (simp_all add: r_def)
  moreover have "pq_class_distance r ! c =
      (let old = (if c < length (pq_class_distance q) then pq_class_distance q ! c else 0) in
       case vget d s of Some w \<Rightarrow> if c = cf s \<and> lt w old then w else old | None \<Rightarrow> old)"
    if "c < length (pq_class_distance r)" for c
  proof -
    have c: "c < length cd" using that by (simp add: r_def split: option.splits if_splits)
    show ?thesis
      unfolding Let_def nth [OF c, symmetric] using c by (cases "vget d s") (auto simp: r_def)
  qed
  moreover have "length (pq_class_distance r) = length cd" by (simp add: r_def split: option.splits)
  ultimately show ?thesis using len by (simp add: r_def)
qed

text \<open>C40. A state is let through exactly when its distance is lighter than the threshold beyond the best
  of its class, its own distance counted; a state with no distance never is; and no distance the
  class has on record gets heavier.\<close>

theorem prune_queue_refuses_exactly:
  assumes "ranks lt" "enq (pq_queue q) s = Some i"
  shows "\<exists>r. pq_enqueue enq tm lt cf d q s = Some r \<and> cf s < length (pq_class_distance r) \<and>
    pq_queue r = (case vget d s of
        Some w \<Rightarrow> if lt w (tm (pq_class_distance r ! cf s) (pq_threshold q)) then i else pq_queue q
      | None \<Rightarrow> pq_queue q) \<and>
    (\<forall>w. vget d s = Some w \<longrightarrow> \<not> lt w (pq_class_distance r ! cf s)) \<and>
    (\<forall>c < length (pq_class_distance q). \<not> lt (pq_class_distance q ! c) (pq_class_distance r ! c))"
proof -
  obtain r where r: "pq_note lt cf d q s = Some (vget d s, r)" "pq_queue r = pq_queue q"
      "pq_threshold r = pq_threshold q" "cf s < length (pq_class_distance r)"
      "length (pq_class_distance q) \<le> length (pq_class_distance r)"
      "\<forall>c < length (pq_class_distance r). pq_class_distance r ! c =
         (let old = (if c < length (pq_class_distance q) then pq_class_distance q ! c else 0) in
          case vget d s of Some w \<Rightarrow> if c = cf s \<and> lt w old then w else old | None \<Rightarrow> old)"
    using pq_note_run [of lt cf d q s] by blast
  have irr: "\<not> lt a a" for a using ranks_asym [OF assms(1)] by blast
  define p where "p = (case vget d s of
      Some w \<Rightarrow> if lt w (tm (pq_class_distance r ! cf s) (pq_threshold q)) then r\<lparr>pq_queue := i\<rparr> else r
    | None \<Rightarrow> r)"
  have "pq_enqueue enq tm lt cf d q s = Some p"
    using r(1,2,3,4) assms(2) by (cases "vget d s") (simp_all add: pq_enqueue_def p_def)
  moreover have cd: "pq_class_distance p = pq_class_distance r" by (simp add: p_def split: option.split)
  moreover have "pq_queue p = (case vget d s of
        Some w \<Rightarrow> if lt w (tm (pq_class_distance r ! cf s) (pq_threshold q)) then i else pq_queue q
      | None \<Rightarrow> pq_queue q)"
    using r(2) by (simp add: p_def split: option.split)
  moreover have "\<forall>w. vget d s = Some w \<longrightarrow> \<not> lt w (pq_class_distance r ! cf s)"
  proof (intro allI impI)
    fix w assume "vget d s = Some w"
    with r(4,6) have "pq_class_distance r ! cf s = (let old = (if cf s < length (pq_class_distance q)
        then pq_class_distance q ! cf s else 0) in if lt w old then w else old)" by simp
    then show "\<not> lt w (pq_class_distance r ! cf s)" using irr by (simp add: Let_def)
  qed
  moreover have "\<not> lt (pq_class_distance q ! c) (pq_class_distance r ! c)" if "c < length (pq_class_distance q)" for c
  proof -
    have "pq_class_distance r ! c = (case vget d s of
        Some w \<Rightarrow> if c = cf s \<and> lt w (pq_class_distance q ! c) then w else pq_class_distance q ! c
      | None \<Rightarrow> pq_class_distance q ! c)"
      using r(5,6) that by (simp add: Let_def)
    then show ?thesis using irr ranks_asym [OF assms(1), of _ "pq_class_distance q ! c"]
      by (cases "vget d s") auto
  qed
  ultimately show ?thesis using r(4) by (intro exI [of _ p]) (simp split: option.split)
qed

theorem prune_queue_refuses_exactly_witness:
  "\<exists>r. pq_enqueue fifo_enqueue (+) (<) (\<lambda>s. 0) [3] \<lparr>pq_queue = [], pq_threshold = 2, pq_class_distance = [2 :: nat]\<rparr> 0 = Some r \<and>
    \<not> 2 < pq_class_distance r ! 0"
  using prune_queue_refuses_exactly [OF ranks_nat, where enq = fifo_enqueue and q = "\<lparr>pq_queue = [], pq_threshold = 2, pq_class_distance = [2 :: nat]\<rparr>"
      and s = 0 and i = "[0]" and tm = "(+)" and cf = "\<lambda>s. 0" and d = "[3]"]
  by (auto simp: fifo_enqueue_def)

end
