(* ===== verification/DfsVisit.thy ===== *)
theory DfsVisit
  imports Arc
begin

text \<open>
  Depth-first visitation, \<open>algorithms/dfs_visit.rs\<close>.  A visitor is a record of its callbacks, each of
  which may panic; an FST is what the search asks of it.  The search over an arbitrary FST may run for
  ever (states can be made on demand), so its loops are partial functions; over an FST whose states
  are known to be finitely many they return.  The interface of the visitor is the locale
  \<open>dfs_visitor\<close>: what its callbacks have to keep, in terms of which states are grey, which are black
  and which arcs have been walked.
\<close>

section \<open>The search\<close>

record 'w fst_view =
  fv_start :: "state_id option"
  fv_num_states :: "nat option"
  fv_expanded :: bool
  fv_states :: "state_id list"
  fv_arcs :: "state_id \<Rightarrow> 'w arc list"

text \<open>The callbacks of \<open>DfsVisitor\<close>; the booleans they return say whether to go on.\<close>

record ('w, 'v) visitor =
  v_init_visit :: "'v \<Rightarrow> 'v option"
  v_init_state :: "'v \<Rightarrow> state_id \<Rightarrow> state_id \<Rightarrow> ('v \<times> bool) option"
  v_tree_arc :: "'v \<Rightarrow> state_id \<Rightarrow> 'w arc \<Rightarrow> ('v \<times> bool) option"
  v_back_arc :: "'v \<Rightarrow> state_id \<Rightarrow> 'w arc \<Rightarrow> ('v \<times> bool) option"
  v_forward_or_cross_arc :: "'v \<Rightarrow> state_id \<Rightarrow> 'w arc \<Rightarrow> ('v \<times> bool) option"
  v_finish_state :: "'v \<Rightarrow> state_id \<Rightarrow> (state_id \<times> 'w arc) option \<Rightarrow> 'v option"
  v_finish_visit :: "'v \<Rightarrow> 'v option"

datatype state_color = White | Grey | Black

text \<open>\<open>fr_arcs\<close> is what the frame's arc iterator has yet to yield.\<close>

record 'w dfs_state =
  fr_state :: state_id
  fr_arcs :: "'w arc list"
  fr_entered_by :: "(state_id \<times> 'w arc) option"

text \<open>The local variables of \<open>dfs_visit\<close>, with the visitor it drives; the top of the stack is its
  head.\<close>

record ('w, 'v) search =
  d_color :: "state_color list"
  d_stack :: "'w dfs_state list"
  d_nstates :: nat
  d_dfs :: bool
  d_root :: state_id
  d_siter :: "state_id list"
  d_visitor :: 'v

definition grow_colors :: "state_id \<Rightarrow> ('w, 'v) search \<Rightarrow> ('w, 'v) search" where
  "grow_colors s D =
     (if s \<ge> length (d_color D)
      then D\<lparr>d_nstates := s + 1, d_color := vresize (s + 1) White (d_color D)\<rparr> else D)"

text \<open>Leaving the frame on top, which has no more arcs or is being unwound.\<close>

definition leave_frame :: "('w, 'v) visitor \<Rightarrow> 'w dfs_state \<Rightarrow> 'w dfs_state list \<Rightarrow> ('w, 'v) search \<Rightarrow>
    ('w, 'v) search option" where
  "leave_frame V frame rest D = do {
     let s = fr_state frame;
     let D = grow_colors s D;
     color \<leftarrow> vset (d_color D) s Black;
     let D = D\<lparr>d_color := color, d_stack := rest\<rparr>;
     v \<leftarrow> v_finish_state V (d_visitor D) s (fr_entered_by frame);
     Some (D\<lparr>d_visitor := v\<rparr>) }"

definition enter_frame :: "('w, 'v) visitor \<Rightarrow> 'w fst_view \<Rightarrow> state_id \<Rightarrow> (state_id \<times> 'w arc) option \<Rightarrow>
    ('w, 'v) search \<Rightarrow> ('w, 'v) search option" where
  "enter_frame V f s entered_by D = do {
     color \<leftarrow> vset (d_color D) s Grey;
     let D = D\<lparr>d_color := color,
       d_stack := \<lparr>fr_state = s, fr_arcs = fv_arcs f s, fr_entered_by = entered_by\<rparr> # d_stack D\<rparr>;
     (v, go) \<leftarrow> v_init_state V (d_visitor D) s (d_root D);
     Some (D\<lparr>d_visitor := v, d_dfs := go\<rparr>) }"

definition walk_arc :: "('w, 'v) visitor \<Rightarrow> 'w fst_view \<Rightarrow> ('w arc \<Rightarrow> bool) \<Rightarrow> state_id \<Rightarrow> 'w arc \<Rightarrow>
    ('w, 'v) search \<Rightarrow> ('w, 'v) search option" where
  "walk_arc V f flt s arc D = do {
     let t = nextstate arc;
     let D = grow_colors t D;
     (if \<not> flt arc then Some D
      else do {
        color \<leftarrow> vget (d_color D) t;
        (case color of
           White \<Rightarrow> do {
             (v, go) \<leftarrow> v_tree_arc V (d_visitor D) s arc;
             let D = D\<lparr>d_visitor := v, d_dfs := go\<rparr>;
             (if go then enter_frame V f t (Some (s, arc)) D else Some D) }
         | Grey \<Rightarrow> do {
             (v, go) \<leftarrow> v_back_arc V (d_visitor D) s arc;
             Some (D\<lparr>d_visitor := v, d_dfs := go\<rparr>) }
         | Black \<Rightarrow> do {
             (v, go) \<leftarrow> v_forward_or_cross_arc V (d_visitor D) s arc;
             Some (D\<lparr>d_visitor := v, d_dfs := go\<rparr>) }) }) }"

text \<open>One turn of the loop over the stack.\<close>

definition dfs_step :: "('w, 'v) visitor \<Rightarrow> 'w fst_view \<Rightarrow> ('w arc \<Rightarrow> bool) \<Rightarrow> 'w dfs_state \<Rightarrow>
    'w dfs_state list \<Rightarrow> ('w, 'v) search \<Rightarrow> ('w, 'v) search option" where
  "dfs_step V f flt frame rest D =
     (case (if d_dfs D then fr_arcs frame else []) of
        [] \<Rightarrow> leave_frame V frame rest D
      | arc # arcs \<Rightarrow>
          walk_arc V f flt (fr_state frame) arc (D\<lparr>d_stack := frame\<lparr>fr_arcs := arcs\<rparr> # rest\<rparr>))"

partial_function (option) dfs_tree ::
  "('w, 'v) visitor \<Rightarrow> 'w fst_view \<Rightarrow> ('w arc \<Rightarrow> bool) \<Rightarrow> ('w, 'v) search \<Rightarrow> ('w, 'v) search option" where
  "dfs_tree V f flt D =
     (case d_stack D of
        [] \<Rightarrow> Some D
      | frame # rest \<Rightarrow> Option.bind (dfs_step V f flt frame rest D) (dfs_tree V f flt))"

text \<open>The state past everything seen so far, for an FST that does not know how many it has.\<close>

definition find_more_states :: "('w, 'v) search \<Rightarrow> ('w, 'v) search" where
  "find_more_states D =
     (case dropWhile (\<lambda>s. s \<noteq> d_nstates D) (d_siter D) of
        [] \<Rightarrow> D\<lparr>d_siter := []\<rparr>
      | _ # siter \<Rightarrow> D\<lparr>d_nstates := d_nstates D + 1, d_color := d_color D @ [White], d_siter := siter\<rparr>)"

definition next_root :: "'w fst_view \<Rightarrow> state_id \<Rightarrow> nat \<Rightarrow> ('w, 'v) search \<Rightarrow> (nat \<times> ('w, 'v) search) option" where
  "next_root f start root_idx D = do {
     let root_idx = (if root_idx = start then 0 else root_idx + 1);
     root_idx \<leftarrow> advance (\<lambda>i. map_option (\<lambda>c. c \<noteq> White) (vget (d_color D) i)) root_idx (d_nstates D);
     Some (root_idx, if \<not> fv_expanded f \<and> root_idx = d_nstates D then find_more_states D else D) }"

partial_function (option) dfs_forest ::
  "('w, 'v) visitor \<Rightarrow> 'w fst_view \<Rightarrow> ('w arc \<Rightarrow> bool) \<Rightarrow> bool \<Rightarrow> state_id \<Rightarrow> nat \<Rightarrow> ('w, 'v) search \<Rightarrow>
   ('w, 'v) search option" where
  "dfs_forest V f flt access_only start root_idx D =
     (if d_dfs D \<and> root_idx < d_nstates D then do {
        D \<leftarrow> enter_frame V f root_idx None (D\<lparr>d_root := root_idx\<rparr>);
        D \<leftarrow> dfs_tree V f flt D;
        (if access_only then Some D
         else do {
           (root_idx, D) \<leftarrow> next_root f start root_idx D;
           dfs_forest V f flt access_only start root_idx D }) }
      else Some D)"

definition dfs_visit :: "('w, 'v) visitor \<Rightarrow> 'w fst_view \<Rightarrow> ('w arc \<Rightarrow> bool) \<Rightarrow> bool \<Rightarrow> 'v \<Rightarrow> 'v option" where
  "dfs_visit V f flt access_only v = do {
     v \<leftarrow> v_init_visit V v;
     (case fv_start f of
        None \<Rightarrow> v_finish_visit V v
      | Some start \<Rightarrow> do {
          let nstates = (case fv_num_states f of Some n \<Rightarrow> n | None \<Rightarrow> start + 1);
          D \<leftarrow> dfs_forest V f flt access_only start start
            \<lparr>d_color = replicate nstates White, d_stack = [], d_nstates = nstates, d_dfs = True,
             d_root = start, d_siter = fv_states f, d_visitor = v\<rparr>;
          v_finish_visit V (d_visitor D) }) }"

definition dfs_visit_any :: "('w, 'v) visitor \<Rightarrow> 'w fst_view \<Rightarrow> 'v \<Rightarrow> 'v option" where
  "dfs_visit_any V f v = dfs_visit V f (\<lambda>_. True) False v"

section \<open>What a visitor sees\<close>

text \<open>The search as its visitor can know it: the grey states from the deepest up, the black states, and
  the pairs of states between which an accepted arc has been walked.\<close>

record view =
  grey :: "state_id list"
  black :: "state_id set"
  walked :: "(state_id \<times> state_id) set"

definition empty_view :: view where
  "empty_view = \<lparr>grey = [], black = {}, walked = {}\<rparr>"

definition seen :: "view \<Rightarrow> state_id set" where
  "seen w = set (grey w) \<union> black w"

definition steps :: "'w fst_view \<Rightarrow> ('w arc \<Rightarrow> bool) \<Rightarrow> (state_id \<times> state_id) set" where
  "steps f flt = {(s, nextstate a) | s a. a \<in> set (fv_arcs f s) \<and> flt a}"

text \<open>Every grey state but the root was entered from the one below it; arcs of black states have all
  been walked, and no arc that was walked leads to an undiscovered state.\<close>

fun linked :: "(state_id \<times> state_id) set \<Rightarrow> state_id list \<Rightarrow> bool" where
  "linked W (t # s # gs) \<longleftrightarrow> (s, t) \<in> W \<and> linked W (s # gs)"
| "linked W gs \<longleftrightarrow> True"

definition view_ok :: "nat \<Rightarrow> (state_id \<times> state_id) set \<Rightarrow> view \<Rightarrow> bool" where
  "view_ok n E w \<longleftrightarrow> distinct (grey w) \<and> set (grey w) \<inter> black w = {} \<and> seen w \<subseteq> {..<n} \<and>
     walked w \<subseteq> E \<and> walked w \<subseteq> seen w \<times> seen w \<and> linked (walked w) (grey w) \<and>
     (\<forall>s \<in> black w. E `` {s} \<subseteq> walked w `` {s})"

lemma linked_mono: "linked W gs \<Longrightarrow> W \<subseteq> X \<Longrightarrow> linked X gs"
  by (induction W gs rule: linked.induct) auto

lemma linked_tl: "linked W (t # gs) \<Longrightarrow> linked W gs"
  by (cases gs) auto

lemma view_okD:
  assumes "view_ok n E w"
  shows "distinct (grey w)" "set (grey w) \<inter> black w = {}" "s \<in> seen w \<Longrightarrow> s < n" "walked w \<subseteq> E"
    "(s, t) \<in> walked w \<Longrightarrow> s \<in> seen w \<and> t \<in> seen w" "linked (walked w) (grey w)"
    "s \<in> black w \<Longrightarrow> (s, t) \<in> E \<Longrightarrow> (s, t) \<in> walked w"
  using assms unfolding view_ok_def by blast+

lemma view_ok_empty: "view_ok n E empty_view"
  by (simp add: view_ok_def empty_view_def seen_def)

lemma view_ok_root:
  "view_ok n E w \<Longrightarrow> grey w = [] \<Longrightarrow> r < n \<Longrightarrow> r \<notin> black w \<Longrightarrow> view_ok n E (w\<lparr>grey := [r]\<rparr>)"
  by (auto simp: view_ok_def seen_def)

lemma view_ok_walk:
  "view_ok n E w \<Longrightarrow> grey w = s # gs \<Longrightarrow> (s, t) \<in> E \<Longrightarrow> t \<in> seen w \<Longrightarrow>
     view_ok n E (w\<lparr>walked := insert (s, t) (walked w)\<rparr>)"
  using linked_mono [of "walked w" "grey w" "insert (s, t) (walked w)"]
  by (auto simp: view_ok_def seen_def)

lemma view_ok_tree:
  "view_ok n E w \<Longrightarrow> grey w = s # gs \<Longrightarrow> (s, t) \<in> E \<Longrightarrow> t < n \<Longrightarrow> t \<notin> seen w \<Longrightarrow>
     view_ok n E (w\<lparr>grey := t # s # gs, walked := insert (s, t) (walked w)\<rparr>)"
  using linked_mono [of "walked w" "grey w" "insert (s, t) (walked w)"]
  by (auto simp: view_ok_def seen_def)

lemma view_ok_finish:
  "view_ok n E w \<Longrightarrow> grey w = s # gs \<Longrightarrow> E `` {s} \<subseteq> walked w `` {s} \<Longrightarrow>
     view_ok n E (w\<lparr>grey := gs, black := insert s (black w)\<rparr>)"
  using linked_tl [of "walked w" s gs] by (auto simp: view_ok_def seen_def)

text \<open>An FST with finitely many states, all known, whether or not its property bits say that it is expanded.\<close>

definition finite_fst :: "nat \<Rightarrow> 'w fst_view \<Rightarrow> bool" where
  "finite_fst n f \<longleftrightarrow> fv_num_states f = Some n \<and> set (fv_states f) \<subseteq> {..<n} \<and>
     (\<forall>s < n. \<forall>a \<in> set (fv_arcs f s). nextstate a < n) \<and>
     (case fv_start f of Some s \<Rightarrow> s < n | None \<Rightarrow> True)"

text \<open>\<open>kept\<close> is what the visitor keeps while the search goes on, \<open>stopped\<close> what it keeps once it has
  asked for the search to stop; then only \<open>finish_state\<close> is called.\<close>

locale dfs_visitor =
  fixes V :: "('w, 'v) visitor"
    and f :: "'w fst_view"
    and flt :: "'w arc \<Rightarrow> bool"
    and n :: nat
    and kept :: "view \<Rightarrow> 'v \<Rightarrow> bool"
    and stopped :: "'v \<Rightarrow> bool"
  assumes root_law: "\<And>w v r. view_ok n (steps f flt) w \<Longrightarrow> kept w v \<Longrightarrow> grey w = [] \<Longrightarrow> r < n \<Longrightarrow> r \<notin> black w \<Longrightarrow>
      (if black w = {} then fv_start f = Some r else \<exists>s \<in> black w. fv_start f = Some s) \<Longrightarrow>
      \<exists>u b. v_init_state V v r r = Some (u, b) \<and>
        (if b then kept (w\<lparr>grey := [r]\<rparr>) u else stopped u)"
    and tree_law: "\<And>w v s gs a. view_ok n (steps f flt) w \<Longrightarrow> kept w v \<Longrightarrow> grey w = s # gs \<Longrightarrow>
      a \<in> set (fv_arcs f s) \<Longrightarrow> flt a \<Longrightarrow> nextstate a < n \<Longrightarrow> nextstate a \<notin> seen w \<Longrightarrow>
      \<exists>u b. v_tree_arc V v s a = Some (u, b) \<and>
        (if b then \<exists>x c. v_init_state V u (nextstate a) (last (grey w)) = Some (x, c) \<and>
            (if c then kept (w\<lparr>grey := nextstate a # s # gs, walked := insert (s, nextstate a) (walked w)\<rparr>) x
             else stopped x)
         else stopped u)"
    and back_law: "\<And>w v s gs a. view_ok n (steps f flt) w \<Longrightarrow> kept w v \<Longrightarrow> grey w = s # gs \<Longrightarrow>
      a \<in> set (fv_arcs f s) \<Longrightarrow> flt a \<Longrightarrow> nextstate a \<in> set (grey w) \<Longrightarrow>
      \<exists>u b. v_back_arc V v s a = Some (u, b) \<and>
        (if b then kept (w\<lparr>walked := insert (s, nextstate a) (walked w)\<rparr>) u else stopped u)"
    and cross_law: "\<And>w v s gs a. view_ok n (steps f flt) w \<Longrightarrow> kept w v \<Longrightarrow> grey w = s # gs \<Longrightarrow>
      a \<in> set (fv_arcs f s) \<Longrightarrow> flt a \<Longrightarrow> nextstate a \<in> black w \<Longrightarrow>
      \<exists>u b. v_forward_or_cross_arc V v s a = Some (u, b) \<and>
        (if b then kept (w\<lparr>walked := insert (s, nextstate a) (walked w)\<rparr>) u else stopped u)"
    and finish_law: "\<And>w v s gs e. view_ok n (steps f flt) w \<Longrightarrow> kept w v \<Longrightarrow> grey w = s # gs \<Longrightarrow>
      steps f flt `` {s} \<subseteq> walked w `` {s} \<Longrightarrow>
      (case gs of [] \<Rightarrow> e = None
       | p # _ \<Rightarrow> \<exists>a. e = Some (p, a) \<and> a \<in> set (fv_arcs f p) \<and> flt a \<and> nextstate a = s) \<Longrightarrow>
      \<exists>u. v_finish_state V v s e = Some u \<and> kept (w\<lparr>grey := gs, black := insert s (black w)\<rparr>) u"
    and stopped_law: "\<And>v s e. stopped v \<Longrightarrow> s < n \<Longrightarrow> \<exists>u. v_finish_state V v s e = Some u \<and> stopped u"
begin

abbreviation E :: "(state_id \<times> state_id) set" where
  "E \<equiv> steps f flt"

text \<open>How the local variables show the view.\<close>

definition walked_by :: "'w dfs_state \<Rightarrow> 'w arc list" where
  "walked_by fr = take (length (fv_arcs f (fr_state fr)) - length (fr_arcs fr)) (fv_arcs f (fr_state fr))"

definition frame_ok :: "'w dfs_state \<Rightarrow> bool" where
  "frame_ok fr \<longleftrightarrow> fv_arcs f (fr_state fr) = walked_by fr @ fr_arcs fr"

fun entered :: "'w dfs_state list \<Rightarrow> bool" where
  "entered (fr # gr # frs) \<longleftrightarrow>
     (\<exists>a. fr_entered_by fr = Some (fr_state gr, a) \<and> a \<in> set (fv_arcs f (fr_state gr)) \<and> flt a \<and>
        nextstate a = fr_state fr) \<and> entered (gr # frs)"
| "entered [fr] \<longleftrightarrow> fr_entered_by fr = None"
| "entered [] \<longleftrightarrow> True"

definition walked_pairs :: "'w dfs_state list \<Rightarrow> state_id set \<Rightarrow> (state_id \<times> state_id) set" where
  "walked_pairs frs bl = {(s, t). (s, t) \<in> E \<and> s \<in> bl} \<union>
     {(fr_state fr, nextstate a) | fr a. fr \<in> set frs \<and> a \<in> set (walked_by fr) \<and> flt a}"

definition colored :: "('w, 'v) search \<Rightarrow> state_color \<Rightarrow> state_id set" where
  "colored D c = {s. s < n \<and> d_color D ! s = c}"

definition view_of :: "('w, 'v) search \<Rightarrow> view" where
  "view_of D = \<lparr>grey = map fr_state (d_stack D), black = colored D Black,
     walked = walked_pairs (d_stack D) (colored D Black)\<rparr>"

definition sound :: "('w, 'v) search \<Rightarrow> bool" where
  "sound D \<longleftrightarrow> length (d_color D) = n \<and> d_nstates D = n \<and> colored D Grey = set (map fr_state (d_stack D)) \<and>
     (\<forall>fr \<in> set (d_stack D). frame_ok fr) \<and> entered (d_stack D) \<and> set (d_siter D) \<subseteq> {..<n} \<and>
     (d_stack D \<noteq> [] \<longrightarrow> d_root D = fr_state (last (d_stack D)))"

definition going :: "('w, 'v) search \<Rightarrow> bool" where
  "going D \<longleftrightarrow> (if d_dfs D then view_ok n E (view_of D) \<and> kept (view_of D) (d_visitor D)
     else distinct (map fr_state (d_stack D)) \<and> stopped (d_visitor D))"

text \<open>What is left to do: the arcs and states that have not been met, and the frames to leave.\<close>

definition work :: "('w, 'v) search \<Rightarrow> nat" where
  "work D = (\<Sum>s \<in> colored D White. length (fv_arcs f s) + 2) + (\<Sum>fr \<leftarrow> d_stack D. length (fr_arcs fr) + 1)"

lemma arcs_in_range: "finite_fst n f \<Longrightarrow> s < n \<Longrightarrow> a \<in> set (fv_arcs f s) \<Longrightarrow> nextstate a < n"
  unfolding finite_fst_def by blast

lemma colored_finite [simp]: "finite (colored D c)"
  by (simp add: colored_def)

lemma colored_iff: "s \<in> colored D c \<longleftrightarrow> s < n \<and> d_color D ! s = c"
  by (simp add: colored_def)

lemma no_growth: "sound D \<Longrightarrow> s < n \<Longrightarrow> grow_colors s D = D"
  by (simp add: grow_colors_def sound_def)

lemma entered_tl: "entered (fr # frs) \<Longrightarrow> entered frs"
  by (cases frs) auto

lemma entered_advance: "entered (fr # frs) \<Longrightarrow> entered (fr\<lparr>fr_arcs := arcs\<rparr> # frs)"
  by (cases frs) auto

lemma sum_frames: "(\<Sum>fr \<leftarrow> fr # frs. length (fr_arcs fr) + 1) = length (fr_arcs fr) + 1 + (\<Sum>fr \<leftarrow> frs. length (fr_arcs fr) + 1)"
  by simp

lemma soundD:
  assumes "sound D"
  shows "length (d_color D) = n" "d_nstates D = n" "colored D Grey = set (map fr_state (d_stack D))"
    "fr \<in> set (d_stack D) \<Longrightarrow> frame_ok fr" "fr \<in> set (d_stack D) \<Longrightarrow> fr_state fr < n" "entered (d_stack D)"
    "set (d_siter D) \<subseteq> {..<n}"
  using assms unfolding sound_def colored_def by force+

lemma going_distinct: "going D \<Longrightarrow> distinct (map fr_state (d_stack D))"
  by (auto simp: going_def view_ok_def view_of_def split: if_splits)

lemma recolor:
  assumes "sound D" "s < n"
  shows "colored (D\<lparr>d_color := (d_color D)[s := c], d_stack := frs, d_visitor := v, d_dfs := b\<rparr>) k =
    (if c = k then insert s (colored D k) else colored D k - {s})"
  using assms by (auto simp: colored_def nth_list_update soundD)

lemma walked_pairs_Cons:
  "walked_pairs (fr # frs) bl = walked_pairs frs bl \<union> {(fr_state fr, nextstate a) | a. a \<in> set (walked_by fr) \<and> flt a}"
  unfolding walked_pairs_def by auto

lemma walked_pairs_insert:
  "walked_pairs frs (insert s bl) = walked_pairs frs bl \<union> {(s, nextstate a) | a. a \<in> set (fv_arcs f s) \<and> flt a}"
  unfolding walked_pairs_def steps_def by auto

lemma leave_run:
  assumes sd: "sound D" and go: "going D" and st: "d_stack D = fr # rest"
    and drained: "d_dfs D \<Longrightarrow> fr_arcs fr = []"
  shows "\<exists>u. leave_frame V fr rest D =
      Some (D\<lparr>d_color := (d_color D)[fr_state fr := Black], d_stack := rest, d_visitor := u\<rparr>) \<and>
    sound (D\<lparr>d_color := (d_color D)[fr_state fr := Black], d_stack := rest, d_visitor := u\<rparr>) \<and>
    going (D\<lparr>d_color := (d_color D)[fr_state fr := Black], d_stack := rest, d_visitor := u\<rparr>)"
proof -
  let ?s = "fr_state fr"
  let ?D = "\<lambda>u. D\<lparr>d_color := (d_color D)[?s := Black], d_stack := rest, d_visitor := u\<rparr>"
  have s: "?s < n" and fr: "frame_ok fr" using soundD(4,5) [OF sd] st by simp_all
  have dist: "distinct (map fr_state (fr # rest))" using going_distinct [OF go] st by simp
  have col: "colored (?D u) k = (if k = Black then insert ?s (colored D k) else colored D k - {?s})" for u k
    using s by (auto simp: colored_def nth_list_update soundD [OF sd])
  have "entered (fr # rest)" using soundD(6) [OF sd] st by simp
  then have sound: "sound (?D u)" for u
    using sd st dist col [of u Grey] entered_tl by (auto simp: sound_def)
  have run: "leave_frame V fr rest D = map_option ?D (v_finish_state V (d_visitor D) ?s (fr_entered_by fr))"
    using s no_growth [OF sd s] by (cases "v_finish_state V (d_visitor D) ?s (fr_entered_by fr)")
      (simp_all add: leave_frame_def Let_def soundD [OF sd])
  show ?thesis
  proof (cases "d_dfs D")
    case False
    then obtain u where "v_finish_state V (d_visitor D) ?s (fr_entered_by fr) = Some u" "stopped u"
      using stopped_law [OF _ s] go by (auto simp: going_def)
    then show ?thesis using run sound dist False by (auto simp: going_def)
  next
    case True
    let ?w = "view_of D"
    have w: "view_ok n E ?w" "kept ?w (d_visitor D)" "grey ?w = ?s # map fr_state rest"
      using go True st by (simp_all add: going_def view_of_def)
    have all: "walked_by fr = fv_arcs f ?s" using drained [OF True] fr by (simp add: frame_ok_def)
    have new: "view_of (?D u) = ?w\<lparr>grey := map fr_state rest, black := insert ?s (black ?w)\<rparr>" for u
      using all col [of u Black]
      by (simp add: view_of_def st walked_pairs_Cons walked_pairs_insert)
    have closed: "E `` {?s} \<subseteq> walked ?w `` {?s}"
      using all by (auto simp: view_of_def st walked_pairs_Cons steps_def)
    have "case map fr_state rest of [] \<Rightarrow> fr_entered_by fr = None
       | p # _ \<Rightarrow> \<exists>a. fr_entered_by fr = Some (p, a) \<and> a \<in> set (fv_arcs f p) \<and> flt a \<and> nextstate a = ?s"
      using \<open>entered (fr # rest)\<close> by (cases rest) auto
    from finish_law [OF w closed this] obtain u where
      u: "v_finish_state V (d_visitor D) ?s (fr_entered_by fr) = Some u"
        "kept (?w\<lparr>grey := map fr_state rest, black := insert ?s (black ?w)\<rparr>) u" by blast
    have "going (?D u)"
      using True u(2) view_ok_finish [OF w(1,3) closed] by (simp add: going_def new)
    then show ?thesis using run u(1) sound by auto
  qed
qed

text \<open>Entering a state.\<close>

abbreviation new_frame :: "state_id \<Rightarrow> (state_id \<times> 'w arc) option \<Rightarrow> 'w dfs_state" where
  "new_frame t e \<equiv> \<lparr>fr_state = t, fr_arcs = fv_arcs f t, fr_entered_by = e\<rparr>"

definition pushed :: "('w, 'v) search \<Rightarrow> state_id \<Rightarrow> (state_id \<times> 'w arc) option \<Rightarrow> 'v \<Rightarrow> bool \<Rightarrow> ('w, 'v) search" where
  "pushed D t e v b = D\<lparr>d_color := (d_color D)[t := Grey], d_stack := new_frame t e # d_stack D,
     d_visitor := v, d_dfs := b\<rparr>"

lemma enter_frame_run:
  "sound D \<Longrightarrow> t < n \<Longrightarrow> v_init_state V (d_visitor D) t (d_root D) = Some (v, b) \<Longrightarrow>
     enter_frame V f t e D = Some (pushed D t e v b)"
  by (simp add: enter_frame_def pushed_def soundD)

lemma pushed_colored:
  assumes "sound D" "t < n"
  shows "colored (pushed D t e v b) k = (if k = Grey then insert t (colored D k) else colored D k - {t})"
  using assms by (auto simp: pushed_def colored_def nth_list_update soundD)

lemma pushed_sound:
  assumes sd: "sound D" and t: "t \<in> colored D White" and e: "entered (new_frame t e # d_stack D)"
    and root: "d_stack D = [] \<Longrightarrow> d_root D = t"
  shows "sound (pushed D t e v b)"
proof -
  have tn: "t < n" using t by (simp add: colored_iff)
  have "frame_ok (new_frame t e)" by (simp add: frame_ok_def walked_by_def)
  then show ?thesis
    using sd e root pushed_colored [OF sd tn, of e v b Grey]
    by (auto simp: sound_def pushed_def)
qed

lemma pushed_view:
  assumes sd: "sound D" and t: "t \<in> colored D White"
  shows "view_of (pushed D t e v b) = (view_of D)\<lparr>grey := t # grey (view_of D)\<rparr>"
proof -
  have tn: "t < n" and "colored D Black - {t} = colored D Black" using t by (auto simp: colored_iff)
  then show ?thesis
    using pushed_colored [OF sd tn, of e v b Black]
    by (simp add: view_of_def walked_pairs_Cons walked_by_def) (simp add: pushed_def walked_pairs_Cons walked_by_def)
qed

lemma pushed_work:
  assumes sd: "sound D" and t: "t \<in> colored D White"
  shows "work (pushed D t e v b) + 1 = work D"
proof -
  have tn: "t < n" using t by (simp add: colored_iff)
  have "(\<Sum>s \<in> colored D White. length (fv_arcs f s) + 2) =
      length (fv_arcs f t) + 2 + (\<Sum>s \<in> colored D White - {t}. length (fv_arcs f s) + 2)"
    using t by (simp add: sum.remove)
  then show ?thesis
    using pushed_colored [OF sd tn, of e v b White] by (simp add: work_def) (simp add: pushed_def)
qed

text \<open>Moving the iterator of the frame on top.\<close>

abbreviation advanced :: "('w, 'v) search \<Rightarrow> 'w dfs_state \<Rightarrow> 'w arc list \<Rightarrow> 'w dfs_state list \<Rightarrow> ('w, 'v) search" where
  "advanced D fr arcs rest \<equiv> D\<lparr>d_stack := fr\<lparr>fr_arcs := arcs\<rparr> # rest\<rparr>"

lemma walked_by_advance:
  assumes "frame_ok fr" "fr_arcs fr = a # arcs"
  shows "walked_by (fr\<lparr>fr_arcs := arcs\<rparr>) = walked_by fr @ [a]" "frame_ok (fr\<lparr>fr_arcs := arcs\<rparr>)"
proof -
  have eq: "fv_arcs f (fr_state fr) = walked_by fr @ a # arcs" using assms by (simp add: frame_ok_def)
  then have "walked_by (fr\<lparr>fr_arcs := arcs\<rparr>) = take (length (walked_by fr) + 1) (walked_by fr @ a # arcs)"
    by (simp add: walked_by_def [of "fr\<lparr>fr_arcs := arcs\<rparr>"])
  then show "walked_by (fr\<lparr>fr_arcs := arcs\<rparr>) = walked_by fr @ [a]" by simp
  then show "frame_ok (fr\<lparr>fr_arcs := arcs\<rparr>)" using eq by (simp add: frame_ok_def)
qed

lemma advanced_sound:
  assumes sd: "sound D" and st: "d_stack D = fr # rest" and a: "fr_arcs fr = a # arcs"
  shows "sound ((advanced D fr arcs rest)\<lparr>d_visitor := v, d_dfs := b\<rparr>)"
proof -
  have "frame_ok fr" "entered (fr # rest)" using soundD(4,6) [OF sd] st by simp_all
  then show ?thesis
    using sd st walked_by_advance(2) [OF _ a] entered_advance by (auto simp: sound_def colored_def)
qed

lemma advanced_view:
  assumes sd: "sound D" and st: "d_stack D = fr # rest" and a: "fr_arcs fr = a # arcs"
  shows "view_of ((advanced D fr arcs rest)\<lparr>d_visitor := v, d_dfs := b\<rparr>) =
    (view_of D)\<lparr>walked := (if flt a then insert (fr_state fr, nextstate a) (walked (view_of D)) else walked (view_of D))\<rparr>"
proof -
  have "frame_ok fr" using soundD(4) [OF sd] st by simp
  from walked_by_advance(1) [OF this a] show ?thesis
    by (auto simp: view_of_def st walked_pairs_Cons colored_def)
qed

lemma advanced_work:
  assumes "d_stack D = fr # rest" "fr_arcs fr = a # arcs"
  shows "work ((advanced D fr arcs rest)\<lparr>d_visitor := v, d_dfs := b\<rparr>) + 1 = work D"
  using assms by (simp add: work_def colored_def)

lemma walk_run:
  assumes fin: "finite_fst n f" and sd: "sound D" and go: "going D" and on: "d_dfs D" and st: "d_stack D = fr # rest"
    and a: "fr_arcs fr = a # arcs"
  shows "\<exists>D'. walk_arc V f flt (fr_state fr) a (advanced D fr arcs rest) = Some D' \<and> sound D' \<and> going D' \<and>
    work D' < work D \<and> colored D' White \<subseteq> colored D White"
proof -
  let ?s = "fr_state fr" and ?t = "nextstate a" and ?w = "view_of D"
  let ?D1 = "advanced D fr arcs rest"
  let ?D2 = "\<lambda>v b. ?D1\<lparr>d_visitor := v, d_dfs := b\<rparr>"
  have w: "view_ok n E ?w" "kept ?w (d_visitor D)" "grey ?w = ?s # map fr_state rest"
    using go on st by (simp_all add: going_def view_of_def)
  have fr: "frame_ok fr" and s: "?s < n" and ent: "entered (fr # rest)"
    using soundD(4,5,6) [OF sd] st by simp_all
  have arc: "a \<in> set (fv_arcs f ?s)" using fr a by (metis frame_ok_def in_set_conv_decomp)
  have t: "?t < n" using arcs_in_range [OF fin s arc] .
  note sound2 = advanced_sound [OF sd st a]
  note view2 = advanced_view [OF sd st a]
  have work2: "work (?D2 v b) < work D" for v b using advanced_work [OF st a, of b v] by simp
  have white2: "colored (?D2 v b) White = colored D White" for v b by (simp add: colored_def)
  have same: "?D2 (d_visitor D) True = ?D1" using on by simp
  have sd1: "sound ?D1" using sound2 [of True "d_visitor D"] unfolding same .
  have grow: "grow_colors ?t ?D1 = ?D1" using no_growth [OF sd1 t] .
  have col: "d_color ?D1 ! ?t = d_color D ! ?t" "?t < length (d_color ?D1)"
    using t soundD(1) [OF sd] by simp_all
  have dist: "distinct (map fr_state (d_stack ?D1))" using going_distinct [OF go] st by simp
  have going2: "going (?D2 v b)"
    if "if b then view_ok n E (view_of (?D2 v b)) \<and> kept (view_of (?D2 v b)) v else stopped v" for v b
    using that dist by (simp add: going_def split: if_splits)
  show ?thesis
  proof (cases "flt a")
    case False
    have "going ?D1" using going2 [of True "d_visitor D"] view2 [of True "d_visitor D"] w(1,2) False
      unfolding same by simp
    moreover have "work ?D1 < work D" using work2 [of True "d_visitor D"] unfolding same .
    moreover have "colored ?D1 White = colored D White" by (simp add: colored_def)
    ultimately show ?thesis using sd1 grow False by (simp add: walk_arc_def Let_def)
  next
    case True
    have step: "(?s, ?t) \<in> E" using arc True by (auto simp: steps_def)
    let ?w2 = "?w\<lparr>walked := insert (?s, ?t) (walked ?w)\<rparr>"
    have w2: "view_of (?D2 v b) = ?w2" for v b using view2 [of b v] True by simp
    have grey_iff: "?t \<in> set (grey ?w) \<longleftrightarrow> d_color D ! ?t = Grey"
      using soundD(3) [OF sd] t by (auto simp: view_of_def colored_def)
    have black_iff: "?t \<in> black ?w \<longleftrightarrow> d_color D ! ?t = Black"
      using t by (auto simp: view_of_def colored_def)
    have keep: "?thesis" if call: "walk_arc V f flt ?s a ?D1 = Some (?D2 v b)" and seen: "?t \<in> seen ?w"
        and res: "if b then kept ?w2 v else stopped v" for v b
    proof -
      have ok: "view_ok n E ?w2" using view_ok_walk [OF w(1,3) step seen] .
      have "going (?D2 v b)" by (rule going2) (use ok res w2 in \<open>simp split: if_splits\<close>)
      then show ?thesis using call sound2 work2 white2 by blast
    qed
    show ?thesis
    proof (cases "d_color D ! ?t")
      case Grey
      obtain u b where u: "v_back_arc V (d_visitor D) ?s a = Some (u, b)" "if b then kept ?w2 u else stopped u"
        using back_law [OF w arc True] grey_iff Grey by blast
      have "walk_arc V f flt ?s a ?D1 = Some (?D2 u b)"
        using grow True col Grey u(1) by (simp add: walk_arc_def Let_def)
      then show ?thesis using keep u(2) grey_iff Grey by (simp add: seen_def)
    next
      case Black
      obtain u b where u: "v_forward_or_cross_arc V (d_visitor D) ?s a = Some (u, b)"
          "if b then kept ?w2 u else stopped u"
        using cross_law [OF w arc True] black_iff Black by blast
      have "walk_arc V f flt ?s a ?D1 = Some (?D2 u b)"
        using grow True col Black u(1) by (simp add: walk_arc_def Let_def)
      then show ?thesis using keep u(2) black_iff Black by (simp add: seen_def)
    next
      case White
      have new: "?t \<notin> seen ?w" using grey_iff black_iff White by (simp add: seen_def)
      obtain u b where u: "v_tree_arc V (d_visitor D) ?s a = Some (u, b)"
          "if b then \<exists>x c. v_init_state V u ?t (last (grey ?w)) = Some (x, c) \<and>
            (if c then kept (?w\<lparr>grey := ?t # ?s # map fr_state rest, walked := insert (?s, ?t) (walked ?w)\<rparr>) x
             else stopped x) else stopped u"
        using tree_law [OF w arc True t new] by blast
      show ?thesis
      proof (cases b)
        case False
        have "walk_arc V f flt ?s a ?D1 = Some (?D2 u b)"
          using grow True col White u(1) False by (simp add: walk_arc_def Let_def)
        moreover have "going (?D2 u b)" using going2 [of b u] u(2) False by simp
        ultimately show ?thesis using sound2 work2 white2 by blast
      next
        case b: True
        let ?D = "?D2 u True"
        have root: "d_root ?D = last (grey ?w)"
          using sd st by (simp add: sound_def view_of_def last_map)
        obtain x c where x: "v_init_state V u ?t (d_root ?D) = Some (x, c)"
            "if c then kept (?w\<lparr>grey := ?t # ?s # map fr_state rest, walked := insert (?s, ?t) (walked ?w)\<rparr>) x
             else stopped x"
          using u(2) b unfolding root by auto
        have sdD: "sound ?D" using sound2 .
        have white: "?t \<in> colored ?D White" using t White by (simp add: colored_def)
        let ?e = "Some (?s, a)"
        have "enter_frame V f ?t ?e ?D = Some (pushed ?D ?t ?e x c)"
          using enter_frame_run [OF sdD t] x(1) by simp
        then have "walk_arc V f flt ?s a ?D1 = Some (pushed ?D ?t ?e x c)"
          using grow True col White u(1) b by (simp add: walk_arc_def Let_def)
        moreover have "sound (pushed ?D ?t ?e x c)"
        proof (rule pushed_sound [OF sdD white])
          have "entered (fr\<lparr>fr_arcs := arcs\<rparr> # rest)" using entered_advance [OF ent] .
          then show "entered (new_frame ?t ?e # d_stack ?D)" using arc True by simp
        qed simp
        moreover have "going (pushed ?D ?t ?e x c)"
        proof -
          have view: "view_of (pushed ?D ?t ?e x c) =
              ?w\<lparr>grey := ?t # ?s # map fr_state rest, walked := insert (?s, ?t) (walked ?w)\<rparr>"
            using pushed_view [OF sdD white, of ?e x c] w2 w(3) by simp
          have "view_ok n E (view_of (pushed ?D ?t ?e x c))"
            unfolding view using view_ok_tree [OF w(1,3) step t new] .
          moreover have "distinct (map fr_state (d_stack (pushed ?D ?t ?e x c)))"
            using view_okD(1) [OF calculation] by (simp add: view_of_def)
          moreover have "d_dfs (pushed ?D ?t ?e x c) = c" "d_visitor (pushed ?D ?t ?e x c) = x"
            by (simp_all add: pushed_def)
          ultimately show ?thesis
            using x(2) unfolding going_def view by (simp split: if_splits)
        qed
        moreover have "work (pushed ?D ?t ?e x c) < work D"
          using pushed_work [OF sdD white, of ?e x c] work2 [of True u] by simp
        moreover have "colored (pushed ?D ?t ?e x c) White \<subseteq> colored D White"
          using pushed_colored [OF sdD t, of ?e x c White] white2 [of True u] by auto
        ultimately show ?thesis by blast
      qed
    qed
  qed
qed

lemma step_run:
  assumes fin: "finite_fst n f" and sd: "sound D" and go: "going D" and st: "d_stack D = fr # rest"
  shows "\<exists>D'. dfs_step V f flt fr rest D = Some D' \<and> sound D' \<and> going D' \<and> work D' < work D \<and>
    colored D' White \<subseteq> colored D White"
proof (cases "if d_dfs D then fr_arcs fr else []")
  case Nil
  then have drained: "d_dfs D \<Longrightarrow> fr_arcs fr = []" by simp
  let ?D = "\<lambda>u. D\<lparr>d_color := (d_color D)[fr_state fr := Black], d_stack := rest, d_visitor := u\<rparr>"
  obtain u where u: "leave_frame V fr rest D = Some (?D u)" "sound (?D u)" "going (?D u)"
    using leave_run [OF sd go st drained] by blast
  have s: "fr_state fr < n" "fr_state fr \<in> colored D Grey" using soundD(3,5) [OF sd] st by simp_all
  then have white: "colored (?D u) White = colored D White"
    by (auto simp: colored_def nth_list_update soundD [OF sd])
  then have "work (?D u) < work D" using st by (simp add: work_def)
  then show ?thesis using u Nil white by (auto simp: dfs_step_def)
next
  case (Cons a arcs)
  then have "d_dfs D" "fr_arcs fr = a # arcs" by (simp_all split: if_splits)
  from walk_run [OF fin sd go this(1) st this(2)] show ?thesis using Cons by (simp add: dfs_step_def)
qed

lemma tree_run:
  "finite_fst n f \<Longrightarrow> sound D \<Longrightarrow> going D \<Longrightarrow> \<exists>D'. dfs_tree V f flt D = Some D' \<and> sound D' \<and> going D' \<and> d_stack D' = [] \<and>
     work D' \<le> work D \<and> colored D' White \<subseteq> colored D White"
proof (induction "work D" arbitrary: D rule: less_induct)
  case less
  show ?case
  proof (cases "d_stack D")
    case Nil
    then show ?thesis using less.prems by (subst dfs_tree.simps) simp
  next
    case (Cons fr rest)
    obtain D1 where D1: "dfs_step V f flt fr rest D = Some D1" "sound D1" "going D1" "work D1 < work D"
        "colored D1 White \<subseteq> colored D White"
      using step_run [OF less.prems Cons] by blast
    obtain D' where "dfs_tree V f flt D1 = Some D'" "sound D'" "going D'" "d_stack D' = []"
        "work D' \<le> work D1" "colored D' White \<subseteq> colored D1 White"
      using less.hyps [OF D1(4) less.prems(1) D1(2,3)] by blast
    then show ?thesis using D1 Cons by (subst dfs_tree.simps) auto
  qed
qed

lemma idle:
  assumes "sound D" "d_stack D = []"
  shows "grey (view_of D) = []" "colored D Grey = {}" "{..<n} - colored D White = colored D Black"
proof -
  show "grey (view_of D) = []" using assms(2) by (simp add: view_of_def)
  show grey: "colored D Grey = {}" using soundD(3) [OF assms(1)] assms(2) by simp
  show "{..<n} - colored D White = colored D Black"
  proof (rule set_eqI)
    fix s
    have "s < n \<Longrightarrow> d_color D ! s \<noteq> Grey" using grey by (auto simp: colored_def)
    then show "s \<in> {..<n} - colored D White \<longleftrightarrow> s \<in> colored D Black"
      by (cases "d_color D ! s") (auto simp: colored_def)
  qed
qed

text \<open>Looking for more states exhausts the state iterator, and changes nothing else.\<close>

lemma exhausted:
  "sound D \<Longrightarrow> sound (D\<lparr>d_siter := []\<rparr>)" "going D \<Longrightarrow> going (D\<lparr>d_siter := []\<rparr>)"
  "work (D\<lparr>d_siter := []\<rparr>) = work D" "colored (D\<lparr>d_siter := []\<rparr>) = colored D"
  by (auto simp: sound_def going_def view_of_def work_def colored_def fun_eq_iff)

lemma find_more_states_run: "sound D \<Longrightarrow> find_more_states D = D\<lparr>d_siter := []\<rparr>"
proof -
  assume sd: "sound D"
  have "\<forall>s \<in> set (d_siter D). s \<noteq> d_nstates D" using soundD(2,7) [OF sd] by auto
  then have "dropWhile (\<lambda>s. s \<noteq> d_nstates D) (d_siter D) = []" by (simp only: dropWhile_eq_Nil_conv)
  then show ?thesis by (simp only: find_more_states_def list.case)
qed

lemma next_root_run:
  assumes fin: "finite_fst n f" and sd: "sound D"
  shows "\<exists>r D'. next_root f start root D = Some (r, D') \<and> (D' = D \<or> D' = D\<lparr>d_siter := []\<rparr>) \<and>
    (\<forall>j. (if root = start then 0 else root + 1) \<le> j \<and> j < r \<longrightarrow> j < n \<longrightarrow> j \<notin> colored D White) \<and>
    (r < n \<longrightarrow> r \<in> colored D White) \<and> (if root = start then 0 else root + 1) \<le> r"
proof -
  let ?from = "if root = start then 0 else root + 1"
  let ?test = "\<lambda>i. map_option (\<lambda>c. c \<noteq> White) (vget (d_color D) i)"
  have "?test i = Some (d_color D ! i \<noteq> White)" if "?from \<le> i" "i < n" for i
    using that soundD(1) [OF sd] by simp
  from advance_run [of ?from n ?test, OF this] obtain r where
    r: "advance ?test ?from n = Some r" "?from \<le> r" "\<forall>i. ?from \<le> i \<and> i < r \<longrightarrow> d_color D ! i \<noteq> White"
      "r < n \<longrightarrow> \<not> d_color D ! r \<noteq> White" by blast
  have "next_root f start root D = Some (r, D) \<or> next_root f start root D = Some (r, D\<lparr>d_siter := []\<rparr>)"
    using r(1) soundD(2) [OF sd] find_more_states_run [OF sd]
    by (cases "\<not> fv_expanded f \<and> r = n") (simp_all add: next_root_def Let_def)
  then show ?thesis using r(2,3,4) by (auto simp: colored_def)
qed

lemma root_run:
  assumes fin: "finite_fst n f" and sd: "sound D" and go: "going D" and on: "d_dfs D" and st: "d_stack D = []"
    and start: "fv_start f = Some start" and r: "r \<in> colored D White"
    and first: "if colored D Black = {} then r = start else start \<in> colored D Black"
  shows "\<exists>D1 D'. enter_frame V f r None (D\<lparr>d_root := r\<rparr>) = Some D1 \<and> dfs_tree V f flt D1 = Some D' \<and>
    sound D' \<and> going D' \<and> d_stack D' = [] \<and> work D' < work D \<and> colored D' White \<subseteq> colored D White - {r}"
proof -
  let ?D = "D\<lparr>d_root := r\<rparr>" and ?w = "view_of D"
  have rn: "r < n" using r by (simp add: colored_def)
  have sd1: "sound ?D" using sd st by (simp add: sound_def colored_def)
  have same: "view_of ?D = ?w" "colored ?D = colored D" "work ?D = work D"
    by (simp_all add: view_of_def colored_def work_def fun_eq_iff)
  have w: "view_ok n E ?w" "kept ?w (d_visitor D)" "grey ?w = []"
    using go on st by (simp_all add: going_def view_of_def)
  have "r \<notin> black ?w" using r by (simp add: view_of_def colored_def)
  moreover have "if black ?w = {} then fv_start f = Some r else \<exists>s \<in> black ?w. fv_start f = Some s"
    using first start by (simp add: view_of_def split: if_splits)
  ultimately obtain u b where u: "v_init_state V (d_visitor D) r r = Some (u, b)"
      "if b then kept (?w\<lparr>grey := [r]\<rparr>) u else stopped u"
    using root_law [OF w rn] by blast
  let ?P = "pushed ?D r None u b"
  have white: "r \<in> colored ?D White" using r same(2) by simp
  have "enter_frame V f r None ?D = Some ?P" using enter_frame_run [OF sd1 rn] u(1) by simp
  moreover have "sound ?P" by (rule pushed_sound [OF sd1 white]) (simp_all add: st)
  moreover have "going ?P"
  proof -
    have view: "view_of ?P = ?w\<lparr>grey := [r]\<rparr>" using pushed_view [OF sd1 white] same(1) w(3) by simp
    have "d_dfs ?P = b" "d_visitor ?P = u" "distinct (map fr_state (d_stack ?P))"
      by (simp_all add: pushed_def st)
    then show ?thesis
      using u(2) view_ok_root [OF w(1,3) rn] \<open>r \<notin> black ?w\<close> unfolding going_def view by (simp split: if_splits)
  qed
  moreover have "work ?P < work D" using pushed_work [OF sd1 white, of None u b] same(3) by simp
  moreover have "colored ?P White = colored D White - {r}"
    using pushed_colored [OF sd1 rn, of None u b White] same(2) by simp
  ultimately show ?thesis using tree_run [OF fin, of ?P] by fastforce
qed

lemma forest_run:
  assumes fin: "finite_fst n f" and start: "fv_start f = Some start"
  shows "sound D \<Longrightarrow> going D \<Longrightarrow> d_stack D = [] \<Longrightarrow>
    (if colored D Black = {} then r = start \<and> start \<in> colored D White
     else start \<in> colored D Black \<and> (r < n \<longrightarrow> r \<in> colored D White) \<and> (\<forall>j < r. j < n \<longrightarrow> j \<notin> colored D White)) \<Longrightarrow>
    \<exists>D'. dfs_forest V f flt False start r D = Some D' \<and> sound D' \<and> going D' \<and> d_stack D' = [] \<and>
      (d_dfs D' \<longrightarrow> colored D' White = {})"
proof (induction "work D" arbitrary: D r rule: less_induct)
  case less
  note sd = less.prems(1)
  show ?case
  proof (cases "d_dfs D \<and> r < n")
    case False
    have "start < n" using fin start by (simp add: finite_fst_def)
    have "colored D White = {}" if "d_dfs D"
    proof -
      have "n \<le> r" using that False by simp
      then have "r \<noteq> start" using \<open>start < n\<close> by simp
      then have "\<forall>j < r. j < n \<longrightarrow> j \<notin> colored D White" using less.prems(4) by (simp split: if_splits)
      then show ?thesis using \<open>n \<le> r\<close> by (auto simp: colored_def)
    qed
    then show ?thesis using False less.prems soundD(2) [OF sd] by (subst dfs_forest.simps) auto
  next
    case True
    then have white: "r \<in> colored D White" using less.prems(4) by (auto split: if_splits)
    have "if colored D Black = {} then r = start else start \<in> colored D Black"
      using less.prems(4) by (simp split: if_splits)
    from root_run [OF fin sd less.prems(2) _ less.prems(3) start white this] True obtain D1 D2 where
      D: "enter_frame V f r None (D\<lparr>d_root := r\<rparr>) = Some D1" "dfs_tree V f flt D1 = Some D2" "sound D2"
        "going D2" "d_stack D2 = []" "work D2 < work D" "colored D2 White \<subseteq> colored D White - {r}" by blast
    obtain q D3 where q: "next_root f start r D2 = Some (q, D3)"
        "\<forall>j. (if r = start then 0 else r + 1) \<le> j \<and> j < q \<longrightarrow> j < n \<longrightarrow> j \<notin> colored D2 White"
        "q < n \<longrightarrow> q \<in> colored D2 White" and D3: "D3 = D2 \<or> D3 = D2\<lparr>d_siter := []\<rparr>"
      using next_root_run [OF fin D(3)] by blast
    have kept3: "work D3 < work D" "sound D3" "going D3" "d_stack D3 = []" "colored D3 = colored D2"
        "d_nstates D3 = n"
      using D3 D(3-6) exhausted soundD(2) [OF D(3)] by auto
    have "start < n" using fin start by (simp add: finite_fst_def)
    moreover have "start \<notin> colored D2 White"
    proof (cases "r = start")
      case False
      then have "start \<in> colored D Black" using less.prems(4) by (simp split: if_splits)
      then have "start \<notin> colored D White" by (auto simp: colored_def)
      then show ?thesis using D(7) by blast
    qed (use D(7) in blast)
    ultimately have black: "start \<in> colored D2 Black" using idle(3) [OF D(3,5)] by blast
    have "j \<notin> colored D2 White" if j: "j < q" "j < n" for j
    proof (cases "r = start")
      case True
      then show ?thesis using q(2) j by simp
    next
      case False
      then have "\<forall>j < r. j < n \<longrightarrow> j \<notin> colored D White" using less.prems(4) by (simp split: if_splits)
      then have "j < r \<Longrightarrow> j \<notin> colored D2 White" using D(7) j(2) by blast
      moreover have "j = r \<Longrightarrow> j \<notin> colored D2 White" using D(7) by blast
      moreover have "r + 1 \<le> j \<Longrightarrow> j \<notin> colored D2 White" using q(2) False j by simp
      ultimately show ?thesis by linarith
    qed
    then have "if colored D3 Black = {} then q = start \<and> start \<in> colored D3 White
       else start \<in> colored D3 Black \<and> (q < n \<longrightarrow> q \<in> colored D3 White) \<and> (\<forall>j < q. j < n \<longrightarrow> j \<notin> colored D3 White)"
      using black q(3) kept3(5) by auto
    from less.hyps [OF kept3(1-4) this] D(1,2) q(1) True soundD(2) [OF sd] show ?thesis
      by (subst dfs_forest.simps) simp
  qed
qed

lemma visit_run:
  assumes fin: "finite_fst n f" and start: "fv_start f = Some start" and init: "v_init_visit V v0 = Some v" "kept empty_view v"
  shows "\<exists>u. dfs_visit V f flt False v0 = v_finish_visit V u \<and>
    (stopped u \<or> (\<exists>w. view_ok n E w \<and> kept w u \<and> grey w = [] \<and> black w = {..<n}))"
proof -
  let ?D = "\<lparr>d_color = replicate n White, d_stack = [], d_nstates = n, d_dfs = True,
    d_root = start, d_siter = fv_states f, d_visitor = v\<rparr>"
  have sn: "start < n" and known: "fv_num_states f = Some n" using fin start by (simp_all add: finite_fst_def)
  have col: "colored ?D White = {..<n}" "colored ?D Grey = {}" "colored ?D Black = {}"
    by (auto simp: colored_def)
  have sd: "sound ?D" using col(2) fin by (simp add: sound_def finite_fst_def)
  have "view_of ?D = empty_view" by (simp add: view_of_def col(3) walked_pairs_def empty_view_def)
  then have "going ?D" using init(2) view_ok_empty by (simp add: going_def)
  with forest_run [OF fin start sd] col sn obtain D' where
    D': "dfs_forest V f flt False start start ?D = Some D'" "sound D'" "going D'" "d_stack D' = []"
      "d_dfs D' \<longrightarrow> colored D' White = {}"
    by auto
  have run: "dfs_visit V f flt False v0 = v_finish_visit V (d_visitor D')"
    using init(1) start known D'(1) by (simp add: dfs_visit_def Let_def)
  show ?thesis
  proof (cases "d_dfs D'")
    case True
    have "black (view_of D') = {..<n}" using idle(3) [OF D'(2,4)] D'(5) True by (simp add: view_of_def)
    then show ?thesis using run D'(3) True idle(1) [OF D'(2,4)] by (auto simp: going_def)
  next
    case False
    then show ?thesis using run D'(3) by (auto simp: going_def)
  qed
qed

end

end
