(* ===== verification/TopOrder.thy ===== *)
theory TopOrder
  imports DfsVisit OrderQueues
begin

text \<open>
  The visitor of \<open>algorithms/topsort.rs\<close> that collects a topological order, and the topological-order
  queue of \<open>queue.rs\<close> built on it.
\<close>

section \<open>The visitor\<close>

record top_order_visitor =
  tv_finish :: "state_id list"
  tv_acyclic :: bool

definition tv_new :: top_order_visitor where
  "tv_new = \<lparr>tv_finish = [], tv_acyclic = True\<rparr>"

definition top_visitor :: "('w, top_order_visitor) visitor" where
  "top_visitor = \<lparr>
     v_init_visit = (\<lambda>v. Some (v\<lparr>tv_finish := [], tv_acyclic := True\<rparr>)),
     v_init_state = (\<lambda>v _ _. Some (v, True)),
     v_tree_arc = (\<lambda>v _ _. Some (v, True)),
     v_back_arc = (\<lambda>v _ _. Some (v\<lparr>tv_acyclic := False\<rparr>, False)),
     v_forward_or_cross_arc = (\<lambda>v _ _. Some (v, True)),
     v_finish_state = (\<lambda>v s _. Some (v\<lparr>tv_finish := tv_finish v @ [s]\<rparr>)),
     v_finish_visit = Some\<rparr>"

lemma top_finish_visit [simp]: "v_finish_visit top_visitor v = Some v"
  by (simp add: top_visitor_def)

text \<open>\<open>None\<close> inside is the missing order of a cyclic FST.\<close>

definition tv_order :: "top_order_visitor \<Rightarrow> nat list option option" where
  "tv_order v =
     (if \<not> tv_acyclic v then Some None
      else map_option Some (ofold (\<lambda>(position, state) order. vset order state position)
        (enumerate 0 (rev (tv_finish v))) (replicate (length (tv_finish v)) no_state)))"

definition to_new :: "'w fst_view \<Rightarrow> top_order_queue option option" where
  "to_new f = do {
     v \<leftarrow> dfs_visit_any top_visitor f tv_new;
     order \<leftarrow> tv_order v;
     Some (map_option to_with_order order) }"

section \<open>What the search shows it\<close>

lemma linked_reach: "linked W (s # gs) \<Longrightarrow> t \<in> set (s # gs) \<Longrightarrow> (t, s) \<in> W\<^sup>*"
proof (induction gs arbitrary: s)
  case (Cons g gs)
  then show ?case
    by (cases "t = s") (auto intro: rtrancl.rtrancl_into_rtrancl)
qed simp

text \<open>A walked arc of a grey state leads to a black state or to the grey state entered from it.\<close>

definition tree_or_black :: "view \<Rightarrow> bool" where
  "tree_or_black w \<longleftrightarrow> (\<forall>s t. (s, t) \<in> walked w \<longrightarrow> s \<in> set (grey w) \<longrightarrow>
     t \<in> black w \<or> (\<exists>xs ys. grey w = xs @ t # s # ys))"

definition finished_after :: "(state_id \<times> state_id) set \<Rightarrow> state_id list \<Rightarrow> bool" where
  "finished_after R L \<longleftrightarrow> (\<forall>i < length L. \<forall>t. (L ! i, t) \<in> R \<longrightarrow> t \<in> set (take i L))"

lemma finished_after_snoc:
  "finished_after R L \<Longrightarrow> R `` {s} \<subseteq> set L \<Longrightarrow> finished_after R (L @ [s])"
  by (auto simp: finished_after_def nth_append less_Suc_eq)

lemma tree_or_black_tree:
  assumes ok: "tree_or_black w" and g: "grey w = s # gs" and t: "t \<notin> seen w" "walked w \<subseteq> seen w \<times> seen w"
  shows "tree_or_black (w\<lparr>grey := t # s # gs, walked := insert (s, t) (walked w)\<rparr>)"
  unfolding tree_or_black_def
proof (intro allI impI)
  fix u x assume ux: "(u, x) \<in> walked (w\<lparr>grey := t # s # gs, walked := insert (s, t) (walked w)\<rparr>)"
    "u \<in> set (grey (w\<lparr>grey := t # s # gs, walked := insert (s, t) (walked w)\<rparr>))"
  show "x \<in> black (w\<lparr>grey := t # s # gs, walked := insert (s, t) (walked w)\<rparr>) \<or>
    (\<exists>xs ys. grey (w\<lparr>grey := t # s # gs, walked := insert (s, t) (walked w)\<rparr>) = xs @ x # u # ys)"
  proof (cases "(u, x) = (s, t)")
    case True
    then show ?thesis by (auto intro: exI [of _ "[]"])
  next
    case False
    then have old: "(u, x) \<in> walked w" using ux(1) by auto
    then have "u \<noteq> t" using t by auto
    then have "u \<in> set (grey w)" using ux(2) g by simp
    with old ok have "x \<in> black w \<or> (\<exists>xs ys. grey w = xs @ x # u # ys)" by (simp add: tree_or_black_def)
    then show ?thesis
    proof
      assume "\<exists>xs ys. grey w = xs @ x # u # ys"
      then obtain xs ys where "s # gs = xs @ x # u # ys" unfolding g by blast
      then have "grey (w\<lparr>grey := t # s # gs, walked := insert (s, t) (walked w)\<rparr>) = (t # xs) @ x # u # ys" by simp
      then show ?thesis by blast
    qed simp
  qed
qed

lemma tree_or_black_finish:
  assumes ok: "tree_or_black w" and g: "grey w = s # gs" and d: "s \<notin> set gs"
  shows "tree_or_black (w\<lparr>grey := gs, black := insert s (black w)\<rparr>)"
  unfolding tree_or_black_def
proof (intro allI impI)
  fix u x assume ux: "(u, x) \<in> walked (w\<lparr>grey := gs, black := insert s (black w)\<rparr>)"
    "u \<in> set (grey (w\<lparr>grey := gs, black := insert s (black w)\<rparr>))"
  then have "x \<in> black w \<or> (\<exists>xs ys. s # gs = xs @ x # u # ys)"
    using ok g by (auto simp: tree_or_black_def)
  then show "x \<in> black (w\<lparr>grey := gs, black := insert s (black w)\<rparr>) \<or>
    (\<exists>xs ys. grey (w\<lparr>grey := gs, black := insert s (black w)\<rparr>) = xs @ x # u # ys)"
  proof
    assume "\<exists>xs ys. s # gs = xs @ x # u # ys"
    then obtain xs ys where eq: "s # gs = xs @ x # u # ys" by blast
    then show ?thesis by (cases xs) auto
  qed simp
qed

text \<open>On top of the stack the second case is impossible.\<close>

lemma tree_or_black_top:
  assumes "tree_or_black w" "grey w = s # gs" "distinct (grey w)" "(s, t) \<in> walked w"
  shows "t \<in> black w"
proof -
  have "t \<in> black w \<or> (\<exists>xs ys. s # gs = xs @ t # s # ys)" using assms by (auto simp: tree_or_black_def)
  moreover have "s # gs \<noteq> xs @ t # s # ys" for xs ys
  proof
    assume eq: "s # gs = xs @ t # s # ys"
    then show False using assms(2,3) by (cases xs) auto
  qed
  ultimately show ?thesis by blast
qed

definition tv_kept :: "(state_id \<times> state_id) set \<Rightarrow> view \<Rightarrow> top_order_visitor \<Rightarrow> bool" where
  "tv_kept R w v \<longleftrightarrow> tv_acyclic v \<and> distinct (tv_finish v) \<and> set (tv_finish v) = black w \<and>
     finished_after R (tv_finish v) \<and> tree_or_black w"

definition tv_stopped :: "(state_id \<times> state_id) set \<Rightarrow> top_order_visitor \<Rightarrow> bool" where
  "tv_stopped R v \<longleftrightarrow> \<not> tv_acyclic v \<and> \<not> acyclic R"

interpretation topvis: dfs_visitor top_visitor f flt n "tv_kept (steps f flt)" "tv_stopped (steps f flt)" for f flt n
proof (unfold_locales, goal_cases)
  case (1 w v r)
  then show ?case by (simp add: top_visitor_def tv_kept_def tree_or_black_def view_ok_def seen_def) blast
next
  case (2 w v s gs a)
  have "walked w \<subseteq> seen w \<times> seen w" using 2(1) by (simp add: view_ok_def)
  then show ?case using tree_or_black_tree [OF _ 2(3,7)] 2(2) by (auto simp: top_visitor_def tv_kept_def)
next
  case (3 w v s gs a)
  have "(nextstate a, s) \<in> (walked w)\<^sup>*"
    using linked_reach [of "walked w" s gs] view_okD(6) [OF 3(1)] 3(3,6) by simp
  then have "(nextstate a, s) \<in> (steps f flt)\<^sup>*"
    using view_okD(4) [OF 3(1)] by (meson rtrancl_mono subsetD)
  moreover have "(s, nextstate a) \<in> steps f flt" using 3(4,5) by (auto simp: steps_def)
  ultimately have "(s, s) \<in> (steps f flt)\<^sup>+" by (meson r_into_trancl trancl_rtrancl_trancl)
  then show ?case by (auto simp: top_visitor_def tv_stopped_def acyclic_def)
next
  case (4 w v s gs a)
  then show ?case by (auto simp: top_visitor_def tv_kept_def tree_or_black_def)
next
  case (5 w v s gs e)
  have d: "distinct (s # gs)" "s \<notin> black w" using view_okD(1,2) [OF 5(1)] 5(3) by auto
  have "t \<in> black w" if "(s, t) \<in> steps f flt" for t
    using tree_or_black_top [OF _ 5(3) view_okD(1) [OF 5(1)], of t] 5(2,4) that by (auto simp: tv_kept_def)
  then have "finished_after (steps f flt) (tv_finish v @ [s])"
    using 5(2) by (intro finished_after_snoc) (auto simp: tv_kept_def)
  then show ?case
    using 5(2) tree_or_black_finish [OF _ 5(3)] d by (auto simp: top_visitor_def tv_kept_def)
next
  case (6 v s e)
  then show ?case by (auto simp: top_visitor_def tv_stopped_def)
qed

section \<open>The order\<close>

lemma finished_after_acyclic:
  assumes fa: "finished_after R L" and d: "distinct L" and dom: "Domain R \<subseteq> set L"
  shows "acyclic R"
proof -
  define ix where "ix s = (THE i. i < length L \<and> L ! i = s)" for s
  have ix: "ix (L ! i) = i" if "i < length L" for i
    unfolding ix_def using that d by (auto intro!: the_equality simp: nth_eq_iff_index_eq)
  have "ix t < ix s" if st: "(s, t) \<in> R" for s t
  proof -
    obtain i where i: "i < length L" "L ! i = s" using dom st by (meson DomainI in_set_conv_nth subsetD)
    then have "t \<in> set (take i L)" using fa st by (auto simp: finished_after_def)
    then obtain j where j: "j < i" "L ! j = t" using i(1) by (auto simp: in_set_conv_nth)
    then show ?thesis using i ix by fastforce
  qed
  then have "R \<subseteq> (measure ix)\<inverse>" by auto
  moreover have "acyclic ((measure ix)\<inverse>)" by (simp add: wf_acyclic)
  ultimately show ?thesis by (rule acyclic_subset [rotated])
qed

lemma write_positions:
  assumes "distinct (map snd xs)" "\<forall>s \<in> snd ` set xs. s < length o0"
  shows "\<exists>o1. ofold (\<lambda>(position, state) order. vset order state position) xs o0 = Some o1 \<and>
    length o1 = length o0 \<and> (\<forall>(p, s) \<in> set xs. o1 ! s = p) \<and> (\<forall>s. s \<notin> snd ` set xs \<longrightarrow> o1 ! s = o0 ! s)"
  using assms
proof (induction xs arbitrary: o0)
  case (Cons x xs)
  obtain p s where x: "x = (p, s)" by force
  have s: "s < length o0" "s \<notin> snd ` set xs" using Cons.prems x by auto
  obtain o1 where o1: "ofold (\<lambda>(position, state) order. vset order state position) xs (o0[s := p]) = Some o1"
      "length o1 = length o0" "\<forall>(p, s) \<in> set xs. o1 ! s = p" "\<forall>t. t \<notin> snd ` set xs \<longrightarrow> o1 ! t = o0[s := p] ! t"
    using Cons.IH [of "o0[s := p]"] Cons.prems by auto
  have "ofold (\<lambda>(position, state) order. vset order state position) (x # xs) o0 = Some o1"
    using o1(1) s(1) by (simp add: x)
  moreover have "o1 ! s = p" using o1(4) s by simp
  ultimately show ?case using o1(2,3,4) x by auto
qed simp

lemma tv_order_run:
  assumes "tv_acyclic v" "distinct (tv_finish v)" "set (tv_finish v) = {..<n}"
  shows "\<exists>order. tv_order v = Some (Some order) \<and> length order = n \<and>
    (\<forall>i < n. order ! (tv_finish v ! i) = n - 1 - i)"
proof -
  let ?L = "tv_finish v" and ?xs = "enumerate 0 (rev (tv_finish v))"
  have len: "length ?L = n" using distinct_card [OF assms(2)] assms(3) by simp
  have snd: "map snd ?xs = rev ?L" by simp
  have "snd ` set ?xs = {..<n}" using assms(3) by (metis snd set_map set_rev)
  with write_positions [of ?xs "replicate n no_state"] snd assms(2) obtain order where
    order: "ofold (\<lambda>(position, state) order. vset order state position) ?xs (replicate n no_state) = Some order"
      "length order = n" "\<forall>(p, s) \<in> set ?xs. order ! s = p"
    by auto
  have "order ! (?L ! i) = n - 1 - i" if "i < n" for i
  proof -
    have j: "n - 1 - i < length (rev ?L)" using that len by simp
    then have "?xs ! (n - 1 - i) = (n - 1 - i, rev ?L ! (n - 1 - i))" by (simp add: nth_enumerate_eq)
    moreover have "rev ?L ! (n - 1 - i) = ?L ! i" using that len by (simp add: rev_nth)
    moreover have "?xs ! (n - 1 - i) \<in> set ?xs" using j by (intro nth_mem) simp
    ultimately show ?thesis using order(3) by auto
  qed
  then show ?thesis using order(1,2) assms(1) len by (simp add: tv_order_def)
qed

definition is_topological :: "nat \<Rightarrow> (state_id \<times> state_id) set \<Rightarrow> nat list \<Rightarrow> bool" where
  "is_topological n R order \<longleftrightarrow> length order = n \<and> distinct order \<and> set order = {..<n} \<and>
     (\<forall>(s, t) \<in> R. s < n \<longrightarrow> order ! s < order ! t)"

lemma positions_topological:
  assumes d: "distinct L" and L: "set L = {..<n}" and fa: "finished_after R L"
    and len_o: "length order = n" and pos: "\<forall>i < n. order ! (L ! i) = n - 1 - i"
  shows "is_topological n R order"
  unfolding is_topological_def
proof (intro conjI)
  have len: "length L = n" using distinct_card [OF d] L by simp
  have at: "\<exists>i < n. L ! i = s" if "s < n" for s
    using that L len by (metis in_set_conv_nth lessThan_iff)
  show "length order = n" by (rule len_o)
  have inj: "inj_on (\<lambda>s. order ! s) {..<n}"
  proof (rule inj_onI)
    fix s t assume st: "s \<in> {..<n}" "t \<in> {..<n}" "order ! s = order ! t"
    obtain i j where ij: "i < n" "L ! i = s" "j < n" "L ! j = t" using at st by (meson lessThan_iff)
    then have "n - 1 - i = n - 1 - j" using pos st(3) by auto
    then have "i = j" using ij(1,3) by linarith
    then show "s = t" using ij by simp
  qed
  show "distinct order"
    unfolding distinct_conv_nth
  proof (intro allI impI)
    fix s t assume "s < length order" "t < length order" "s \<noteq> t"
    then show "order ! s \<noteq> order ! t" using inj_onD [OF inj, of s t] len_o by auto
  qed
  then have "card (set order) = n" using len_o by (simp add: distinct_card)
  moreover have "set order \<subseteq> {..<n}"
  proof
    fix p assume "p \<in> set order"
    then obtain s where "s < n" "p = order ! s" using len_o by (metis in_set_conv_nth)
    then show "p \<in> {..<n}" using at [of s] pos by fastforce
  qed
  ultimately show "set order = {..<n}" by (metis card_lessThan card_subset_eq finite_lessThan)
  show "\<forall>(s, t) \<in> R. s < n \<longrightarrow> order ! s < order ! t"
  proof clarify
    fix s t assume st: "(s, t) \<in> R" "s < n"
    obtain i where i: "i < n" "L ! i = s" using at [OF st(2)] by blast
    then have "t \<in> set (take i L)" using fa st(1) len by (auto simp: finished_after_def)
    then obtain j where "j < i" "L ! j = t" using i(1) len by (auto simp: in_set_conv_nth)
    then show "order ! s < order ! t" using pos i by fastforce
  qed
qed

lemma steps_domain:
  assumes "finite_fst n f" "\<And>s. n \<le> s \<Longrightarrow> fv_arcs f s = []"
  shows "Domain (steps f flt) \<subseteq> {..<n}"
  using assms(2) by (force simp: steps_def not_less [symmetric])

text \<open>C11. Over an FST with a start state and finitely many states the search returns, and the visitor has
  an order exactly when the FST is acyclic, unreachable states included: a permutation of the states
  in which every arc goes forward.\<close>

theorem top_order_exact:
  assumes "finite_fst n f" "fv_start f = Some start" "\<And>s. n \<le> s \<Longrightarrow> fv_arcs f s = []"
  shows "\<exists>v. dfs_visit_any top_visitor f v0 = Some v \<and>
    (if acyclic (steps f (\<lambda>_. True)) then \<exists>order. tv_order v = Some (Some order) \<and> is_topological n (steps f (\<lambda>_. True)) order
     else tv_order v = Some None)"
proof -
  let ?R = "steps f (\<lambda>_. True)"
  have init: "v_init_visit top_visitor v0 = Some (v0\<lparr>tv_finish := [], tv_acyclic := True\<rparr>)"
    by (simp add: top_visitor_def)
  have kept: "tv_kept ?R empty_view (v0\<lparr>tv_finish := [], tv_acyclic := True\<rparr>)"
    by (simp add: tv_kept_def empty_view_def finished_after_def tree_or_black_def)
  obtain v where v: "dfs_visit top_visitor f (\<lambda>_. True) False v0 = Some v"
      "tv_stopped ?R v \<or> (\<exists>w. view_ok n ?R w \<and> tv_kept ?R w v \<and> grey w = [] \<and> black w = {..<n})"
    using topvis.visit_run [OF assms(1,2) init kept] unfolding top_finish_visit by blast
  have run: "dfs_visit_any top_visitor f v0 = Some v"
    using v(1) by (simp add: dfs_visit_any_def)
  from v(2) show ?thesis
  proof
    assume "tv_stopped ?R v"
    then show ?thesis using run by (simp add: tv_stopped_def tv_order_def)
  next
    assume "\<exists>w. view_ok n ?R w \<and> tv_kept ?R w v \<and> grey w = [] \<and> black w = {..<n}"
    then have L: "tv_acyclic v" "distinct (tv_finish v)" "set (tv_finish v) = {..<n}"
        "finished_after ?R (tv_finish v)" by (auto simp: tv_kept_def)
    have "acyclic ?R"
      using finished_after_acyclic [OF L(4,2)] steps_domain [OF assms(1,3)] L(3) by simp
    moreover obtain order where order: "tv_order v = Some (Some order)" "length order = n"
        "\<forall>i < n. order ! (tv_finish v ! i) = n - 1 - i"
      using tv_order_run [OF L(1-3)] by blast
    moreover have "is_topological n ?R order"
      using positions_topological [OF L(2-4) order(2,3)] .
    ultimately show ?thesis using run order(1) by auto
  qed
qed

definition small_fst :: "nat fst_view" where
  "small_fst = \<lparr>fv_start = Some 0, fv_num_states = Some 2, fv_expanded = True, fv_states = [0, 1],
     fv_arcs = (\<lambda>s. if s = 0 then [arc_new 1 1 1 1] else [])\<rparr>"

lemma small_fst_ok: "finite_fst 2 small_fst" "fv_start small_fst = Some 0" "2 \<le> s \<Longrightarrow> fv_arcs small_fst s = []"
  by (auto simp: small_fst_def finite_fst_def)

lemma small_fst_steps: "steps small_fst (\<lambda>_. True) = {(0, 1)}"
  by (auto simp: small_fst_def steps_def split: if_splits)

theorem top_order_exact_witness:
  "\<exists>v order. dfs_visit_any top_visitor small_fst tv_new = Some v \<and> tv_order v = Some (Some order) \<and>
     order ! 0 < order ! 1"
proof -
  have "acyclic ({} :: (state_id \<times> state_id) set)" by (simp add: acyclic_def)
  then have ac: "acyclic {(0 :: state_id, 1 :: state_id)}" by (simp add: acyclic_insert)
  have "is_topological 2 {(0, 1)} order \<Longrightarrow> order ! 0 < order ! 1" for order
    by (auto simp: is_topological_def)
  then show ?thesis using top_order_exact [OF small_fst_ok, of tv_new] ac unfolding small_fst_steps by auto
qed

end
