(* ===== verification/SccInvariant.thy ===== *)
theory SccInvariant
  imports TopOrder
begin

text \<open>
  Why one depth-first search finds the strongly connected components: the invariants of the search of
  \<open>algorithms/cc_visitors.rs\<close>, stated over what a visitor sees and over numbers in place of the
  visitor's vectors.
\<close>

record tarjan =
  tj_d :: "state_id \<Rightarrow> nat"
  tj_low :: "state_id \<Rightarrow> nat"
  tj_stack :: "state_id list"
  tj_comp :: "state_id \<Rightarrow> nat"
  tj_k :: nat

text \<open>The states whose component is known.\<close>

definition closed_off :: "view \<Rightarrow> tarjan \<Rightarrow> state_id set" where
  "closed_off w t = seen w - set (tj_stack t)"

definition falling :: "(state_id \<Rightarrow> nat) \<Rightarrow> state_id list \<Rightarrow> bool" where
  "falling d ss \<longleftrightarrow> sorted_wrt (\<lambda>a b. d b < d a) ss"

definition tj_shape :: "view \<Rightarrow> tarjan \<Rightarrow> bool" where
  "tj_shape w t \<longleftrightarrow> set (grey w) \<subseteq> set (tj_stack t) \<and> set (tj_stack t) \<subseteq> seen w \<and>
     falling (tj_d t) (tj_stack t) \<and> falling (tj_d t) (grey w) \<and> (\<forall>s \<in> seen w. tj_d t s < card (seen w))"

text \<open>A state on the stack reaches a grey state that is no younger, and is reached from every grey state
  that is no younger.\<close>

definition tj_reach :: "(state_id \<times> state_id) set \<Rightarrow> view \<Rightarrow> tarjan \<Rightarrow> bool" where
  "tj_reach E w t \<longleftrightarrow>
     (\<forall>s \<in> set (tj_stack t). \<exists>g \<in> set (grey w). tj_d t g \<le> tj_d t s \<and> (s, g) \<in> E\<^sup>*) \<and>
     (\<forall>g \<in> set (grey w). \<forall>s \<in> set (tj_stack t). tj_d t g \<le> tj_d t s \<longrightarrow> (g, s) \<in> E\<^sup>*)"

definition tj_low_sound :: "(state_id \<times> state_id) set \<Rightarrow> view \<Rightarrow> tarjan \<Rightarrow> bool" where
  "tj_low_sound E w t \<longleftrightarrow> (\<forall>g \<in> set (grey w). \<exists>u \<in> set (tj_stack t).
     tj_low t g = tj_d t u \<and> tj_d t u \<le> tj_d t g \<and> (g, u) \<in> E\<^sup>*)"

text \<open>The youngest grey state that is no younger than \<open>s\<close> is the one in whose part of the search \<open>s\<close>
  lies.\<close>

definition owner :: "(state_id \<Rightarrow> nat) \<Rightarrow> state_id list \<Rightarrow> state_id \<Rightarrow> state_id \<Rightarrow> bool" where
  "owner d gs g s \<longleftrightarrow> g \<in> set gs \<and> d g \<le> d s \<and> (\<forall>h \<in> set gs. d h \<le> d s \<longrightarrow> d h \<le> d g)"

definition tj_low_complete :: "view \<Rightarrow> tarjan \<Rightarrow> bool" where
  "tj_low_complete w t \<longleftrightarrow> (\<forall>s \<in> set (tj_stack t). \<forall>u \<in> set (tj_stack t). \<forall>g.
     (s, u) \<in> walked w \<longrightarrow> owner (tj_d t) (grey w) g s \<longrightarrow> tj_low t g \<le> tj_d t u)"

text \<open>An arc walked from a state older than a grey state leads to one older than it too, but for the arc
  that the grey state was entered by.\<close>

definition tj_old :: "view \<Rightarrow> tarjan \<Rightarrow> bool" where
  "tj_old w t \<longleftrightarrow> (\<forall>g \<in> set (grey w). \<forall>s \<in> set (tj_stack t). \<forall>u \<in> set (tj_stack t).
     (s, u) \<in> walked w \<longrightarrow> tj_d t s < tj_d t g \<longrightarrow>
     tj_d t u < tj_d t g \<or> u = g \<and> (\<exists>xs ys. grey w = xs @ g # s # ys))"

definition tj_comps :: "(state_id \<times> state_id) set \<Rightarrow> view \<Rightarrow> tarjan \<Rightarrow> bool" where
  "tj_comps E w t \<longleftrightarrow> E `` closed_off w t \<subseteq> closed_off w t \<and>
     tj_comp t ` closed_off w t = {..<tj_k t} \<and>
     (\<forall>s \<in> closed_off w t. \<forall>u \<in> closed_off w t. tj_comp t s = tj_comp t u \<longleftrightarrow> (s, u) \<in> E\<^sup>* \<and> (u, s) \<in> E\<^sup>*) \<and>
     (\<forall>s \<in> closed_off w t. \<forall>u. (s, u) \<in> E \<longrightarrow> tj_comp t u \<le> tj_comp t s)"

definition tj_ok :: "(state_id \<times> state_id) set \<Rightarrow> view \<Rightarrow> tarjan \<Rightarrow> bool" where
  "tj_ok E w t \<longleftrightarrow> tj_shape w t \<and> tj_reach E w t \<and> tj_low_sound E w t \<and> tj_low_complete w t \<and>
     tj_old w t \<and> tj_comps E w t"

section \<open>Facts about the shape\<close>

lemma falling_Nil [simp]: "falling d []"
  by (simp add: falling_def)

lemma falling_Cons: "falling d (s # ss) \<longleftrightarrow> (\<forall>t \<in> set ss. d t < d s) \<and> falling d ss"
  by (simp add: falling_def)

lemma falling_distinct: "falling d ss \<Longrightarrow> distinct ss"
  by (induction ss) (auto simp: falling_Cons)

lemma falling_inj: "falling d ss \<Longrightarrow> s \<in> set ss \<Longrightarrow> t \<in> set ss \<Longrightarrow> d s = d t \<Longrightarrow> s = t"
  by (induction ss) (auto simp: falling_Cons)

lemma falling_cong: "(\<And>s. s \<in> set ss \<Longrightarrow> d s = e s) \<Longrightarrow> falling d ss \<Longrightarrow> falling e ss"
  by (induction ss) (auto simp: falling_Cons)

lemma falling_append: "falling d (xs @ ys) \<longleftrightarrow> falling d xs \<and> falling d ys \<and> (\<forall>x \<in> set xs. \<forall>y \<in> set ys. d y < d x)"
  by (simp add: falling_def sorted_wrt_append)

lemma shapeD:
  assumes "tj_shape w t"
  shows "g \<in> set (grey w) \<Longrightarrow> g \<in> set (tj_stack t)" "s \<in> set (tj_stack t) \<Longrightarrow> s \<in> seen w"
    "falling (tj_d t) (tj_stack t)" "falling (tj_d t) (grey w)" "s \<in> seen w \<Longrightarrow> tj_d t s < card (seen w)"
  using assms unfolding tj_shape_def by blast+

lemma owner_exists:
  assumes "\<exists>g \<in> set gs. d g \<le> d s"
  shows "\<exists>g. owner d gs g s"
proof -
  let ?M = "{d g | g. g \<in> set gs \<and> d g \<le> d s}"
  have "finite ?M" by simp
  moreover have "?M \<noteq> {}" using assms by blast
  ultimately have "Max ?M \<in> ?M" by (rule Max_in)
  then obtain g where g: "g \<in> set gs" "d g \<le> d s" "d g = Max ?M" by auto
  have "d h \<le> d g" if "h \<in> set gs" "d h \<le> d s" for h
    using that \<open>finite ?M\<close> unfolding g(3) by (intro Max_ge) auto
  then show ?thesis using g unfolding owner_def by blast
qed

text \<open>The top of the grey states owns everything that is no older.\<close>

lemma owner_top: "falling d (s # gs) \<Longrightarrow> d s \<le> d t \<Longrightarrow> owner d (s # gs) g t \<longleftrightarrow> g = s"
  by (auto simp: owner_def falling_Cons dest: leD)

lemma owner_below: "d t < d s \<Longrightarrow> owner d (s # gs) g t \<longleftrightarrow> owner d gs g t"
  by (auto simp: owner_def)

lemma finite_seen: "view_ok n E w \<Longrightarrow> finite (seen w)"
  unfolding view_ok_def by (meson finite_lessThan finite_subset)

section \<open>A state is discovered\<close>

definition tj_discover :: "view \<Rightarrow> state_id \<Rightarrow> tarjan \<Rightarrow> tarjan" where
  "tj_discover w r t = t\<lparr>tj_d := (tj_d t)(r := card (seen w)), tj_low := (tj_low t)(r := card (seen w)),
     tj_stack := r # tj_stack t\<rparr>"

text \<open>\<open>parent\<close> is the arc it is entered by, if any.\<close>

definition discovered :: "view \<Rightarrow> state_id \<Rightarrow> view" where
  "discovered w r = w\<lparr>grey := r # grey w,
     walked := (case grey w of [] \<Rightarrow> walked w | s # _ \<Rightarrow> insert (s, r) (walked w))\<rparr>"

lemma discovered_simps [simp]:
  "grey (discovered w r) = r # grey w" "black (discovered w r) = black w"
  "seen (discovered w r) = insert r (seen w)"
  by (auto simp: discovered_def seen_def)

lemma tj_ok_discover:
  assumes v: "view_ok n E w" and ok: "tj_ok E w t" and r: "r \<notin> seen w"
    and e: "\<And>s gs. grey w = s # gs \<Longrightarrow> (s, r) \<in> E"
  shows "tj_ok E (discovered w r) (tj_discover w r t)"
proof -
  let ?w = "discovered w r" and ?t = "tj_discover w r t" and ?c = "card (seen w)"
  note sh = shapeD [OF ok [unfolded tj_ok_def, THEN conjunct1]]
  have rT: "r \<notin> set (tj_stack t)" using sh(2) r by blast
  have old: "tj_d ?t s = tj_d t s" "tj_low ?t s = tj_low t s" if "s \<noteq> r" for s
    using that by (simp_all add: tj_discover_def)
  have new: "tj_d ?t r = ?c" "tj_low ?t r = ?c" "tj_stack ?t = r # tj_stack t" "tj_comp ?t = tj_comp t" "tj_k ?t = tj_k t"
    by (simp_all add: tj_discover_def)
  have keep: "s \<in> seen w \<Longrightarrow> tj_d ?t s = tj_d t s \<and> tj_low ?t s = tj_low t s \<and> tj_d t s < ?c" for s
    using old r sh(5) by metis
  have T: "s \<in> set (tj_stack t) \<Longrightarrow> tj_d ?t s = tj_d t s \<and> tj_low ?t s = tj_low t s \<and> tj_d t s < ?c" for s
    using keep sh(2) by blast
  have G: "g \<in> set (grey w) \<Longrightarrow> tj_d ?t g = tj_d t g \<and> tj_low ?t g = tj_low t g \<and> tj_d t g < ?c" for g
    using T sh(1) by blast
  have walk: "(s, u) \<in> walked ?w \<longleftrightarrow> (s, u) \<in> walked w \<or> u = r \<and> (\<exists>gs. grey w = s # gs)" for s u
    by (auto simp: discovered_def split: list.splits)
  have walked_seen: "(s, u) \<in> walked w \<Longrightarrow> s \<in> seen w \<and> u \<in> seen w" for s u
    using view_okD(5) [OF v] .
  have top: "(s, r) \<in> E\<^sup>*" if "s \<in> set (grey w)" for s
  proof (cases "grey w")
    case (Cons g gs)
    then have "(s, g) \<in> (walked w)\<^sup>*" using linked_reach view_okD(6) [OF v] that by metis
    then have "(s, g) \<in> E\<^sup>*" using view_okD(4) [OF v] by (meson rtrancl_mono subsetD)
    then show ?thesis using e [OF Cons] by (rule rtrancl_into_rtrancl)
  qed (use that in simp)
  have off: "closed_off ?w ?t = closed_off w t" using r by (auto simp: closed_off_def new)
  have shape: "tj_shape ?w ?t"
  proof -
    have "falling (tj_d ?t) (tj_stack t)" "falling (tj_d ?t) (grey w)"
      using falling_cong [OF _ sh(3)] falling_cong [OF _ sh(4)] T G by metis+
    moreover have "card (insert r (seen w)) = Suc ?c" using r finite_seen [OF v] by simp
    ultimately show ?thesis
      using sh(1,2) T G keep unfolding tj_shape_def by (auto simp: new falling_Cons less_Suc_eq)
  qed
  have "tj_reach E w t" "tj_low_sound E w t" "tj_low_complete w t" "tj_old w t" "tj_comps E w t"
    using ok by (simp_all add: tj_ok_def)
  note inv = this
  have "tj_reach E ?w ?t"
    unfolding tj_reach_def
  proof (intro conjI ballI impI)
    fix s assume s: "s \<in> set (tj_stack ?t)"
    show "\<exists>g \<in> set (grey ?w). tj_d ?t g \<le> tj_d ?t s \<and> (s, g) \<in> E\<^sup>*"
    proof (cases "s = r")
      case False
      then obtain g where "g \<in> set (grey w)" "tj_d t g \<le> tj_d t s" "(s, g) \<in> E\<^sup>*"
        using s inv(1) unfolding tj_reach_def new by auto
      then show ?thesis using G [of g] old(1) [OF False] by auto
    qed simp
  next
    fix g s assume g: "g \<in> set (grey ?w)" and s: "s \<in> set (tj_stack ?t)" and le: "tj_d ?t g \<le> tj_d ?t s"
    show "(g, s) \<in> E\<^sup>*"
    proof (cases "s = r")
      case True
      then show ?thesis using top g by auto
    next
      case False
      then have sT: "s \<in> set (tj_stack t)" using s by (simp add: new)
      then have "g \<noteq> r" using le T [OF sT] by (auto simp: new)
      then have "g \<in> set (grey w)" using g by simp
      then show ?thesis using inv(1) sT le T [OF sT] G unfolding tj_reach_def by auto
    qed
  qed
  moreover have "tj_low_sound E ?w ?t"
    unfolding tj_low_sound_def
  proof
    fix g assume g: "g \<in> set (grey ?w)"
    show "\<exists>u \<in> set (tj_stack ?t). tj_low ?t g = tj_d ?t u \<and> tj_d ?t u \<le> tj_d ?t g \<and> (g, u) \<in> E\<^sup>*"
    proof (cases "g = r")
      case False
      then have gw: "g \<in> set (grey w)" using g by simp
      then obtain u where "u \<in> set (tj_stack t)" "tj_low t g = tj_d t u" "tj_d t u \<le> tj_d t g" "(g, u) \<in> E\<^sup>*"
        using inv(2) unfolding tj_low_sound_def by blast
      then show ?thesis using T [of u] G [OF gw] by (intro bexI [of _ u]) (auto simp: new)
    qed (simp add: new)
  qed
  moreover have "tj_low_complete ?w ?t"
    unfolding tj_low_complete_def
  proof (intro ballI allI impI)
    fix s u g assume s: "s \<in> set (tj_stack ?t)" and u: "u \<in> set (tj_stack ?t)" and su: "(s, u) \<in> walked ?w"
      and own: "owner (tj_d ?t) (grey ?w) g s"
    from su have "s \<in> seen w" using walk walked_seen sh(2) by (auto simp: seen_def)
    then have sr: "s \<noteq> r" using r by blast
    then have sT: "s \<in> set (tj_stack t)" using s by (simp add: new)
    then have "tj_d ?t s < tj_d ?t r" using T by (simp add: new)
    then have "owner (tj_d ?t) (grey w) g s" using own owner_below by simp
    then have own': "owner (tj_d t) (grey w) g s" and g: "g \<in> set (grey w)"
      using G T [OF sT] unfolding owner_def by auto
    show "tj_low ?t g \<le> tj_d ?t u"
    proof (cases "u = r")
      case True
      have "tj_low t g \<le> tj_d t g" using inv(2) g unfolding tj_low_sound_def by auto
      then show ?thesis using True G [OF g] by (simp add: new)
    next
      case False
      then have "(s, u) \<in> walked w" "u \<in> set (tj_stack t)" using su walk u by (auto simp: new)
      then show ?thesis using inv(3) own' sT T G [OF g] unfolding tj_low_complete_def by metis
    qed
  qed
  moreover have "tj_old ?w ?t"
    unfolding tj_old_def
  proof (intro ballI impI)
    fix g s u assume g: "g \<in> set (grey ?w)" and s: "s \<in> set (tj_stack ?t)" and u: "u \<in> set (tj_stack ?t)"
      and su: "(s, u) \<in> walked ?w" and lt: "tj_d ?t s < tj_d ?t g"
    show "tj_d ?t u < tj_d ?t g \<or> u = g \<and> (\<exists>xs ys. grey ?w = xs @ g # s # ys)"
    proof (cases "g = r")
      case True
      show ?thesis
      proof (cases "u = r")
        case u: True
        then have "(s, u) \<notin> walked w" using walked_seen r by blast
        then obtain gs where "grey w = s # gs" using su walk by auto
        then have "grey ?w = [] @ g # s # gs" using True by simp
        then show ?thesis using u True by blast
      next
        case False
        then show ?thesis using True u T by (simp add: new)
      qed
    next
      case False
      then have gw: "g \<in> set (grey w)" using g by simp
      have "s \<noteq> r" using lt G [OF gw] new(1) by auto
      then have sT: "s \<in> set (tj_stack t)" using s by (simp add: new)
      have lt': "tj_d t s < tj_d t g" using lt T [OF sT] G [OF gw] by simp
      have "u \<noteq> r"
      proof
        assume "u = r"
        then have "(s, u) \<notin> walked w" using walked_seen r by blast
        then obtain gs where gs: "grey w = s # gs" using su walk by auto
        then show False using lt' gw sh(4) by (auto simp: falling_Cons)
      qed
      then have "(s, u) \<in> walked w" "u \<in> set (tj_stack t)" using su walk u by (auto simp: new)
      with inv(4) gw sT lt' have "tj_d t u < tj_d t g \<or> u = g \<and> (\<exists>xs ys. grey w = xs @ g # s # ys)"
        unfolding tj_old_def by blast
      then show ?thesis
      proof
        assume "tj_d t u < tj_d t g"
        then show ?thesis using T [OF \<open>u \<in> set (tj_stack t)\<close>] G [OF gw] by simp
      next
        assume "u = g \<and> (\<exists>xs ys. grey w = xs @ g # s # ys)"
        then obtain xs ys where "u = g" "grey ?w = (r # xs) @ g # s # ys" by auto
        then show ?thesis by blast
      qed
    qed
  qed
  moreover have "tj_comps E ?w ?t"
    using inv(5) unfolding tj_comps_def off by (simp add: new)
  ultimately show ?thesis using shape by (simp add: tj_ok_def)
qed

section \<open>An arc is walked to a state seen before\<close>

definition tj_lower :: "state_id \<Rightarrow> state_id \<Rightarrow> tarjan \<Rightarrow> tarjan" where
  "tj_lower s u t = (if u \<in> set (tj_stack t) \<and> tj_d t u < tj_low t s then t\<lparr>tj_low := (tj_low t)(s := tj_d t u)\<rparr> else t)"

lemma tj_lower_simps [simp]:
  "tj_d (tj_lower s u t) = tj_d t" "tj_stack (tj_lower s u t) = tj_stack t" "tj_comp (tj_lower s u t) = tj_comp t"
  "tj_k (tj_lower s u t) = tj_k t"
  "tj_low (tj_lower s u t) g = (if g = s \<and> u \<in> set (tj_stack t) then min (tj_low t s) (tj_d t u) else tj_low t g)"
  by (auto simp: tj_lower_def)

lemma tj_ok_walk:
  assumes v: "view_ok n E w" and ok: "tj_ok E w t" and g: "grey w = s # gs" and e: "(s, u) \<in> E" and u: "u \<in> seen w"
  shows "tj_ok E (w\<lparr>walked := insert (s, u) (walked w)\<rparr>) (tj_lower s u t)"
proof -
  let ?w = "w\<lparr>walked := insert (s, u) (walked w)\<rparr>" and ?t = "tj_lower s u t"
  have sh: "tj_shape w t" and inv: "tj_reach E w t" "tj_low_sound E w t" "tj_low_complete w t" "tj_old w t" "tj_comps E w t"
    using ok by (simp_all add: tj_ok_def)
  note shp = shapeD [OF sh]
  have same: "seen ?w = seen w" "grey ?w = grey w" "black ?w = black w" by (simp_all add: seen_def)
  have off: "closed_off ?w ?t = closed_off w t" by (simp add: closed_off_def same)
  have shape: "tj_shape ?w ?t" using sh by (simp add: tj_shape_def same)
  have reach: "tj_reach E ?w ?t" using inv(1) by (simp add: tj_reach_def)
  have comps: "tj_comps E ?w ?t" using inv(5) by (simp add: tj_comps_def off)
  have sG: "s \<in> set (grey w)" using g by simp
  have top: "tj_d t h \<le> tj_d t s" if "h \<in> set (grey w)" for h
    using that shp(4) g by (auto simp: falling_Cons)
  have "tj_low_sound E ?w ?t"
    unfolding tj_low_sound_def
  proof
    fix h assume "h \<in> set (grey ?w)"
    then have h: "h \<in> set (grey w)" by simp
    then obtain x where x: "x \<in> set (tj_stack t)" "tj_low t h = tj_d t x" "tj_d t x \<le> tj_d t h" "(h, x) \<in> E\<^sup>*"
      using inv(2) unfolding tj_low_sound_def by blast
    show "\<exists>x \<in> set (tj_stack ?t). tj_low ?t h = tj_d ?t x \<and> tj_d ?t x \<le> tj_d ?t h \<and> (h, x) \<in> E\<^sup>*"
    proof (cases "h = s \<and> u \<in> set (tj_stack t) \<and> tj_d t u < tj_low t s")
      case True
      then have "tj_low ?t h = tj_d t u" "tj_d t u \<le> tj_d t h" using x(2,3) by auto
      then show ?thesis using True e by (intro bexI [of _ u]) auto
    next
      case False
      then have "tj_low ?t h = tj_low t h" by auto
      then show ?thesis using x by (intro bexI [of _ x]) auto
    qed
  qed
  moreover have "tj_low_complete ?w ?t"
    unfolding tj_low_complete_def
  proof (intro ballI allI impI)
    fix x y h assume x: "x \<in> set (tj_stack ?t)" and y: "y \<in> set (tj_stack ?t)" and xy: "(x, y) \<in> walked ?w"
      and own: "owner (tj_d ?t) (grey ?w) h x"
    have le: "tj_low ?t h \<le> tj_low t h" by auto
    show "tj_low ?t h \<le> tj_d ?t y"
    proof (cases "(x, y) = (s, u)")
      case True
      then have "h = s" using own owner_top [of "tj_d t" s gs s h] shp(4) g by simp
      then show ?thesis using True y by simp
    next
      case False
      then have "tj_low t h \<le> tj_d t y" using inv(3) x y xy own unfolding tj_low_complete_def by auto
      then show ?thesis using le by (metis tj_lower_simps(1) order_trans)
    qed
  qed
  moreover have "tj_old ?w ?t"
    unfolding tj_old_def
  proof (intro ballI impI)
    fix h x y assume h: "h \<in> set (grey ?w)" and x: "x \<in> set (tj_stack ?t)" and y: "y \<in> set (tj_stack ?t)"
      and xy: "(x, y) \<in> walked ?w" and lt: "tj_d ?t x < tj_d ?t h"
    have "(x, y) \<noteq> (s, u)" using lt top h by (auto dest: leD)
    then have "(x, y) \<in> walked w" using xy by auto
    with inv(4) have "tj_d t y < tj_d t h \<or> y = h \<and> (\<exists>xs ys. grey w = xs @ h # x # ys)"
      unfolding tj_old_def using h x y lt unfolding same tj_lower_simps by blast
    then show "tj_d ?t y < tj_d ?t h \<or> y = h \<and> (\<exists>xs ys. grey ?w = xs @ h # x # ys)"
      unfolding same tj_lower_simps .
  qed
  ultimately show ?thesis using shape reach comps by (simp add: tj_ok_def)
qed

section \<open>A state is finished\<close>

text \<open>What lies on the stack down to \<open>s\<close> is what is no older than \<open>s\<close>.\<close>

definition above :: "state_id \<Rightarrow> tarjan \<Rightarrow> state_id set" where
  "above s t = {u \<in> set (tj_stack t). tj_d t s \<le> tj_d t u}"

text \<open>While \<open>s\<close> is the top grey state and all its arcs have been walked, no path leaves what lies
  above it but into closed components, unless the low link of \<open>s\<close> says so.\<close>

lemma above_walked:
  assumes v: "view_ok n E w" and ok: "tj_ok E w t" and g: "grey w = s # gs" and all: "E `` {s} \<subseteq> walked w `` {s}"
    and x: "x \<in> above s t"
  shows "x \<in> black w \<or> x = s" "(x, y) \<in> E \<Longrightarrow> (x, y) \<in> walked w"
proof -
  have "tj_shape w t" using ok by (simp add: tj_ok_def)
  note shp = shapeD [OF this]
  have xT: "x \<in> set (tj_stack t)" "tj_d t s \<le> tj_d t x" using x by (simp_all add: above_def)
  show old: "x \<in> black w \<or> x = s"
  proof (cases "x \<in> set (grey w)")
    case True
    then show ?thesis using xT(2) shp(4) g by (auto simp: falling_Cons dest: leD)
  qed (use xT shp(2) in \<open>auto simp: seen_def\<close>)
  then show "(x, y) \<in> E \<Longrightarrow> (x, y) \<in> walked w" using all view_okD(7) [OF v] by auto
qed

lemma above_closed:
  assumes v: "view_ok n E w" and ok: "tj_ok E w t" and g: "grey w = s # gs" and all: "E `` {s} \<subseteq> walked w `` {s}"
    and low: "tj_low t s = tj_d t s" and x: "x \<in> above s t" and xy: "(x, y) \<in> E"
  shows "y \<in> above s t \<union> closed_off w t"
proof -
  have sh: "tj_shape w t" and inv: "tj_reach E w t" "tj_low_complete w t" using ok by (simp_all add: tj_ok_def)
  note shp = shapeD [OF sh]
  have xT: "x \<in> set (tj_stack t)" "tj_d t s \<le> tj_d t x" using x by (simp_all add: above_def)
  have walk: "(x, y) \<in> walked w" using above_walked(2) [OF v ok g all x xy] .
  then have ys: "y \<in> seen w" using view_okD(5) [OF v] by blast
  have own: "owner (tj_d t) (grey w) s x"
    using owner_top [of "tj_d t" s gs x s] shp(4) xT(2) g by simp
  have "tj_d t s \<le> tj_d t y" if "y \<in> set (tj_stack t)"
    using inv(2) xT(1) that walk own low unfolding tj_low_complete_def by fastforce
  then show ?thesis using ys by (auto simp: above_def closed_off_def)
qed

lemma closed_off_closed:
  assumes "tj_comps E w t" "x \<in> closed_off w t" "(x, y) \<in> E\<^sup>*"
  shows "y \<in> closed_off w t"
  using assms(3,2) by (induction rule: rtrancl_induct) (use assms(1) in \<open>auto simp: tj_comps_def\<close>)

lemma above_paths:
  assumes "view_ok n E w" "tj_ok E w t" "grey w = s # gs" "E `` {s} \<subseteq> walked w `` {s}" "tj_low t s = tj_d t s"
    and "(x, y) \<in> E\<^sup>*" "x \<in> above s t"
  shows "y \<in> above s t \<union> closed_off w t"
  using assms(6,7)
proof (induction rule: rtrancl_induct)
  case (step y z)
  then show ?case
    using above_closed [OF assms(1-5)] closed_off_closed [of E w t y z] assms(2) by (auto simp: tj_ok_def)
qed simp

text \<open>So what lies above it is a strongly connected component.\<close>

lemma above_component:
  assumes v: "view_ok n E w" and ok: "tj_ok E w t" and g: "grey w = s # gs" and all: "E `` {s} \<subseteq> walked w `` {s}"
    and low: "tj_low t s = tj_d t s"
  shows "above s t = {u. (s, u) \<in> E\<^sup>* \<and> (u, s) \<in> E\<^sup>*}"
proof -
  have sh: "tj_shape w t" and inv: "tj_reach E w t" "tj_comps E w t" using ok by (simp_all add: tj_ok_def)
  note shp = shapeD [OF sh] and paths = above_paths [OF assms]
  have sT: "s \<in> set (tj_stack t)" using g shp(1) by simp
  have sA: "s \<in> above s t" using sT by (simp add: above_def)
  have off: "s \<notin> closed_off w t" using sT by (simp add: closed_off_def)
  show ?thesis
  proof (intro set_eqI iffI)
    fix u assume u: "u \<in> above s t"
    then have uT: "u \<in> set (tj_stack t)" "tj_d t s \<le> tj_d t u" by (simp_all add: above_def)
    then have "(s, u) \<in> E\<^sup>*" using inv(1) g unfolding tj_reach_def by auto
    moreover obtain h where h: "h \<in> set (grey w)" "(u, h) \<in> E\<^sup>*"
      using inv(1) uT(1) unfolding tj_reach_def by blast
    have "h \<in> above s t" using paths [OF h(2) u] h(1) shp(1) by (auto simp: closed_off_def)
    then have "h = s" using h(1) shp(4) g by (auto simp: above_def falling_Cons dest: leD)
    ultimately show "u \<in> {u. (s, u) \<in> E\<^sup>* \<and> (u, s) \<in> E\<^sup>*}" using h(2) by simp
  next
    fix u assume "u \<in> {u. (s, u) \<in> E\<^sup>* \<and> (u, s) \<in> E\<^sup>*}"
    then have "(s, u) \<in> E\<^sup>*" "(u, s) \<in> E\<^sup>*" by simp_all
    then show "u \<in> above s t" using paths [OF _ sA] closed_off_closed [OF inv(2)] off by blast
  qed
qed

definition tj_close :: "state_id \<Rightarrow> tarjan \<Rightarrow> tarjan" where
  "tj_close s t = t\<lparr>tj_stack := tl (dropWhile (\<lambda>u. u \<noteq> s) (tj_stack t)),
     tj_comp := (\<lambda>u. if u \<in> above s t then tj_k t else tj_comp t u), tj_k := tj_k t + 1\<rparr>"

lemma split_stack:
  assumes f: "falling (tj_d t) (tj_stack t)" and s: "s \<in> set (tj_stack t)"
  shows "\<exists>xs. tj_stack t = xs @ s # tl (dropWhile (\<lambda>u. u \<noteq> s) (tj_stack t)) \<and> s \<notin> set xs \<and>
    above s t = insert s (set xs) \<and>
    set (tl (dropWhile (\<lambda>u. u \<noteq> s) (tj_stack t))) = {u \<in> set (tj_stack t). tj_d t u < tj_d t s}"
proof -
  obtain xs ys where e: "tj_stack t = xs @ s # ys" "s \<notin> set xs" using split_list_first [OF s] by blast
  then have "dropWhile (\<lambda>u. u \<noteq> s) (tj_stack t) = s # ys" by (induction xs arbitrary: t) (auto simp: dropWhile_append)
  moreover have "\<forall>x \<in> set xs. tj_d t s < tj_d t x" "\<forall>y \<in> set ys. tj_d t y < tj_d t s"
    using f unfolding e by (auto simp: falling_append falling_Cons)
  ultimately show ?thesis using e by (intro exI [of _ xs]) (auto simp: above_def dest: leD less_asym)
qed

abbreviation finished :: "view \<Rightarrow> state_id \<Rightarrow> state_id list \<Rightarrow> view" where
  "finished w s gs \<equiv> w\<lparr>grey := gs, black := insert s (black w)\<rparr>"

lemma seen_finished: "grey w = s # gs \<Longrightarrow> seen (finished w s gs) = seen w"
  by (auto simp: seen_def)

lemma old_finished:
  assumes old: "tj_old w t" and sh: "tj_shape w t" and g: "grey w = s # gs"
    and h: "h \<in> set gs" "x \<in> set (tj_stack t)" "u \<in> set (tj_stack t)" "(x, u) \<in> walked w" "tj_d t x < tj_d t h"
  shows "tj_d t u < tj_d t h \<or> u = h \<and> (\<exists>xs ys. gs = xs @ h # x # ys)"
proof -
  have hg: "h \<in> set (grey w)" using h(1) g by simp
  have "tj_d t u < tj_d t h \<or> u = h \<and> (\<exists>xs ys. grey w = xs @ h # x # ys)"
    using old [unfolded tj_old_def] hg h(2-5) by blast
  then show ?thesis
  proof
    assume "u = h \<and> (\<exists>xs ys. grey w = xs @ h # x # ys)"
    then obtain xs ys where e: "u = h" "s # gs = xs @ h # x # ys" using g by auto
    have "h \<noteq> s" using falling_distinct [OF shapeD(4) [OF sh]] g h(1) by auto
    then obtain zs where "xs = s # zs" using e(2) by (cases xs) auto
    then show ?thesis using e by auto
  qed simp
qed

lemma tj_ok_close:
  assumes v: "view_ok n E w" and ok: "tj_ok E w t" and g: "grey w = s # gs" and all: "E `` {s} \<subseteq> walked w `` {s}"
    and low: "tj_low t s = tj_d t s"
  shows "tj_ok E (finished w s gs) (tj_close s t)"
proof -
  let ?w = "finished w s gs" and ?t = "tj_close s t"
  have sh: "tj_shape w t" and inv: "tj_reach E w t" "tj_low_sound E w t" "tj_low_complete w t" "tj_old w t" "tj_comps E w t"
    using ok by (simp_all add: tj_ok_def)
  note shp = shapeD [OF sh]
  have sT: "s \<in> set (tj_stack t)" using g shp(1) by simp
  obtain xs where xs: "tj_stack t = xs @ s # tj_stack ?t" "above s t = insert s (set xs)"
      "set (tj_stack ?t) = {u \<in> set (tj_stack t). tj_d t u < tj_d t s}"
    using split_stack [OF shp(3) sT] by (auto simp: tj_close_def)
  have T: "u \<in> set (tj_stack ?t) \<longleftrightarrow> u \<in> set (tj_stack t) \<and> tj_d t u < tj_d t s" for u using xs(3) by simp
  have d: "tj_d ?t = tj_d t" "tj_low ?t = tj_low t" "tj_k ?t = tj_k t + 1"
    "tj_comp ?t u = (if u \<in> above s t then tj_k t else tj_comp t u)" for u
    by (simp_all add: tj_close_def)
  have G: "h \<in> set gs \<Longrightarrow> h \<in> set (tj_stack t) \<and> tj_d t h < tj_d t s \<and> h \<in> set (grey w)" for h
    using shp(1,4) g by (auto simp: falling_Cons)
  have seen: "seen ?w = seen w" using seen_finished [OF g] .
  have off: "closed_off ?w ?t = closed_off w t \<union> above s t"
    using shp(2) by (auto simp: closed_off_def seen T above_def)
  have disj: "closed_off w t \<inter> above s t = {}" by (auto simp: closed_off_def above_def)
  have "falling (tj_d t) (xs @ s # tj_stack ?t)" using shp(3) unfolding xs(1) [symmetric] .
  then have "tj_shape ?w ?t"
    using shp(2,4,5) G g unfolding tj_shape_def seen by (auto simp: d T falling_append falling_Cons)
  moreover have "tj_reach E ?w ?t"
    unfolding tj_reach_def
  proof (intro conjI ballI impI)
    fix u assume "u \<in> set (tj_stack ?t)"
    then have u: "u \<in> set (tj_stack t)" "tj_d t u < tj_d t s" using T by simp_all
    then obtain h where "h \<in> set (grey w)" "tj_d t h \<le> tj_d t u" "(u, h) \<in> E\<^sup>*"
      using inv(1) unfolding tj_reach_def by blast
    moreover from this u(2) have "h \<noteq> s" by auto
    ultimately show "\<exists>h \<in> set (grey ?w). tj_d ?t h \<le> tj_d ?t u \<and> (u, h) \<in> E\<^sup>*" using g by (auto simp: d)
  next
    fix h u assume "h \<in> set (grey ?w)" "u \<in> set (tj_stack ?t)" "tj_d ?t h \<le> tj_d ?t u"
    then show "(h, u) \<in> E\<^sup>*" using inv(1) G T unfolding tj_reach_def d by auto
  qed
  moreover have "tj_low_sound E ?w ?t"
    unfolding tj_low_sound_def
  proof
    fix h assume h: "h \<in> set (grey ?w)"
    then obtain u where "u \<in> set (tj_stack t)" "tj_low t h = tj_d t u" "tj_d t u \<le> tj_d t h" "(h, u) \<in> E\<^sup>*"
      using inv(2) G unfolding tj_low_sound_def by auto
    then show "\<exists>u \<in> set (tj_stack ?t). tj_low ?t h = tj_d ?t u \<and> tj_d ?t u \<le> tj_d ?t h \<and> (h, u) \<in> E\<^sup>*"
      using G [of h] h by (intro bexI [of _ u]) (auto simp: d T)
  qed
  moreover have "tj_low_complete ?w ?t"
    unfolding tj_low_complete_def
  proof (intro ballI allI impI)
    fix x u h assume x: "x \<in> set (tj_stack ?t)" and u: "u \<in> set (tj_stack ?t)" and xu: "(x, u) \<in> walked ?w"
      and own: "owner (tj_d ?t) (grey ?w) h x"
    have "owner (tj_d t) (grey w) h x" using own owner_below [of "tj_d t" x s gs h] T x g by (simp add: d)
    then show "tj_low ?t h \<le> tj_d ?t u"
      using inv(3) x u xu T unfolding tj_low_complete_def d by auto
  qed
  moreover have "tj_old ?w ?t"
    unfolding tj_old_def
  proof (intro ballI impI)
    fix h x u assume "h \<in> set (grey ?w)" "x \<in> set (tj_stack ?t)" "u \<in> set (tj_stack ?t)" "(x, u) \<in> walked ?w"
      "tj_d ?t x < tj_d ?t h"
    then show "tj_d ?t u < tj_d ?t h \<or> u = h \<and> (\<exists>xs ys. grey ?w = xs @ h # x # ys)"
      using old_finished [OF inv(4) sh g, of h x u] T by (simp add: d)
  qed
  moreover have "tj_comps E ?w ?t"
  proof -
    note comp = above_component [OF v ok g all low]
    have closed: "E `` closed_off w t \<subseteq> closed_off w t" and img: "tj_comp t ` closed_off w t = {..<tj_k t}"
      and mutual: "\<forall>x \<in> closed_off w t. \<forall>u \<in> closed_off w t. tj_comp t x = tj_comp t u \<longleftrightarrow> (x, u) \<in> E\<^sup>* \<and> (u, x) \<in> E\<^sup>*"
      and mono: "\<forall>x \<in> closed_off w t. \<forall>u. (x, u) \<in> E \<longrightarrow> tj_comp t u \<le> tj_comp t x"
      using inv(5) by (simp_all add: tj_comps_def)
    have small: "x \<in> closed_off w t \<Longrightarrow> tj_comp t x < tj_k t" for x using img by auto
    have step: "x \<in> above s t \<Longrightarrow> (x, u) \<in> E \<Longrightarrow> u \<in> above s t \<union> closed_off w t" for x u
      using above_closed [OF v ok g all low] .
    have in_off: "x \<in> closed_off w t \<Longrightarrow> x \<notin> above s t" for x using disj by blast
    have "E `` closed_off ?w ?t \<subseteq> closed_off ?w ?t" using closed step unfolding off by blast
    moreover have "tj_comp ?t ` closed_off ?w ?t = {..<tj_k ?t}"
    proof -
      have "tj_comp ?t ` closed_off w t = {..<tj_k t}" using img in_off by (auto simp: d image_iff)
      moreover have "tj_comp ?t ` above s t = {tj_k t}" using sT by (auto simp: d above_def image_iff)
      ultimately show ?thesis unfolding off image_Un by (auto simp: d)
    qed
    moreover have "tj_comp ?t x = tj_comp ?t u \<longleftrightarrow> (x, u) \<in> E\<^sup>* \<and> (u, x) \<in> E\<^sup>*"
      if xu: "x \<in> closed_off ?w ?t" "u \<in> closed_off ?w ?t" for x u
    proof (cases "x \<in> above s t")
      case x: True
      show ?thesis
      proof (cases "u \<in> above s t")
        case True
        then have "(x, s) \<in> E\<^sup>*" "(s, u) \<in> E\<^sup>*" "(u, s) \<in> E\<^sup>*" "(s, x) \<in> E\<^sup>*" using x comp by auto
        then show ?thesis using x True by (auto simp: d)
      next
        case False
        then have u: "u \<in> closed_off w t" using xu(2) off by blast
        then have "(u, x) \<notin> E\<^sup>*" using closed_off_closed [OF inv(5) u] in_off x by blast
        then show ?thesis using x False small [OF u] by (auto simp: d)
      qed
    next
      case x: False
      then have xo: "x \<in> closed_off w t" using xu(1) off by blast
      show ?thesis
      proof (cases "u \<in> above s t")
        case True
        then have "(x, u) \<notin> E\<^sup>*" using closed_off_closed [OF inv(5) xo] in_off by blast
        then show ?thesis using x True small [OF xo] by (auto simp: d)
      next
        case False
        then show ?thesis using mutual xo x xu(2) off by (simp add: d)
      qed
    qed
    moreover have "tj_comp ?t u \<le> tj_comp ?t x" if xu: "x \<in> closed_off ?w ?t" "(x, u) \<in> E" for x u
    proof (cases "x \<in> above s t")
      case True
      then show ?thesis using step [OF True xu(2)] small by (auto simp: d intro: less_imp_le)
    next
      case False
      then have x: "x \<in> closed_off w t" using xu(1) off by blast
      then have "u \<in> closed_off w t" using closed xu(2) by blast
      then show ?thesis using mono x xu(2) in_off False by (simp add: d)
    qed
    ultimately show ?thesis unfolding tj_comps_def by blast
  qed
  ultimately show ?thesis by (simp add: tj_ok_def)
qed

text \<open>When the low link is older than the state itself the component is still open, and the parent
  inherits it.\<close>

definition tj_pass :: "state_id \<Rightarrow> state_id \<Rightarrow> tarjan \<Rightarrow> tarjan" where
  "tj_pass s p t = t\<lparr>tj_low := (tj_low t)(p := min (tj_low t p) (tj_low t s))\<rparr>"

lemma tj_pass_simps [simp]:
  "tj_d (tj_pass s p t) = tj_d t" "tj_stack (tj_pass s p t) = tj_stack t" "tj_comp (tj_pass s p t) = tj_comp t"
  "tj_k (tj_pass s p t) = tj_k t"
  "tj_low (tj_pass s p t) g = (if g = p then min (tj_low t p) (tj_low t s) else tj_low t g)"
  by (simp_all add: tj_pass_def)

lemma open_parent:
  assumes ok: "tj_ok E w t" and g: "grey w = s # gs" and low: "tj_low t s \<noteq> tj_d t s"
  shows "gs \<noteq> [] \<and> tj_low t s < tj_d t s \<and> (\<exists>h \<in> set gs. tj_d t h \<le> tj_low t s \<and> (s, h) \<in> E\<^sup>*)"
proof -
  have inv: "tj_reach E w t" "tj_low_sound E w t" using ok by (simp_all add: tj_ok_def)
  obtain x where x: "x \<in> set (tj_stack t)" "tj_low t s = tj_d t x" "tj_d t x \<le> tj_d t s" "(s, x) \<in> E\<^sup>*"
    using inv(2) g unfolding tj_low_sound_def by auto
  obtain h where h: "h \<in> set (grey w)" "tj_d t h \<le> tj_d t x" "(x, h) \<in> E\<^sup>*"
    using inv(1) x(1) unfolding tj_reach_def by blast
  have "h \<noteq> s" using x(2,3) h(2) low by auto
  then have "h \<in> set gs" using h(1) g by simp
  moreover have "(s, h) \<in> E\<^sup>*" using x(4) h(3) by simp
  ultimately show ?thesis using x(2,3) h(2) low by auto
qed

lemma tj_ok_pass:
  assumes v: "view_ok n E w" and ok: "tj_ok E w t" and g: "grey w = s # p # gs" and low: "tj_low t s \<noteq> tj_d t s"
  shows "tj_ok E (finished w s (p # gs)) (tj_pass s p t)"
proof -
  let ?w = "finished w s (p # gs)" and ?t = "tj_pass s p t"
  have sh: "tj_shape w t" and inv: "tj_reach E w t" "tj_low_sound E w t" "tj_low_complete w t" "tj_old w t" "tj_comps E w t"
    using ok by (simp_all add: tj_ok_def)
  note shp = shapeD [OF sh] and open' = open_parent [OF ok g low]
  have G: "h \<in> set (p # gs) \<Longrightarrow> h \<in> set (tj_stack t) \<and> tj_d t h < tj_d t s \<and> tj_d t h \<le> tj_d t p \<and> h \<in> set (grey w)" for h
    using shp(1,4) g by (auto simp: falling_Cons)
  have seen: "seen ?w = seen w" using seen_finished [OF g] .
  have off: "closed_off ?w ?t = closed_off w t" unfolding closed_off_def seen by simp
  have ps: "(p, s) \<in> E" using view_okD(4,6) [OF v] g by auto
  have "tj_shape ?w ?t"
    using shp G g unfolding tj_shape_def seen by (auto simp: falling_Cons)
  moreover have "tj_reach E ?w ?t"
    unfolding tj_reach_def
  proof (intro conjI ballI impI)
    fix u assume "u \<in> set (tj_stack ?t)"
    then have u: "u \<in> set (tj_stack t)" by simp
    then obtain h where h: "h \<in> set (grey w)" "tj_d t h \<le> tj_d t u" "(u, h) \<in> E\<^sup>*"
      using inv(1) unfolding tj_reach_def by blast
    show "\<exists>h \<in> set (grey ?w). tj_d ?t h \<le> tj_d ?t u \<and> (u, h) \<in> E\<^sup>*"
    proof (cases "h = s")
      case True
      obtain k where "k \<in> set (p # gs)" "tj_d t k \<le> tj_low t s" "(s, k) \<in> E\<^sup>*" using open' by blast
      then show ?thesis using True h open' by (intro bexI [of _ k]) (auto intro: rtrancl_trans)
    next
      case False
      then show ?thesis using h g by (intro bexI [of _ h]) auto
    qed
  next
    fix h u assume "h \<in> set (grey ?w)" "u \<in> set (tj_stack ?t)" "tj_d ?t h \<le> tj_d ?t u"
    then show "(h, u) \<in> E\<^sup>*" using inv(1) G [of h] unfolding tj_reach_def by auto
  qed
  moreover have "tj_low_sound E ?w ?t"
    unfolding tj_low_sound_def
  proof
    fix h assume "h \<in> set (grey ?w)"
    then have h: "h \<in> set (p # gs)" by simp
    obtain u where u: "u \<in> set (tj_stack t)" "tj_low t h = tj_d t u" "tj_d t u \<le> tj_d t h" "(h, u) \<in> E\<^sup>*"
      using inv(2) G [OF h] unfolding tj_low_sound_def by blast
    obtain x where x: "x \<in> set (tj_stack t)" "tj_low t s = tj_d t x" "(s, x) \<in> E\<^sup>*"
      using inv(2) g unfolding tj_low_sound_def by auto
    show "\<exists>u \<in> set (tj_stack ?t). tj_low ?t h = tj_d ?t u \<and> tj_d ?t u \<le> tj_d ?t h \<and> (h, u) \<in> E\<^sup>*"
    proof (cases "h = p \<and> tj_low t s < tj_low t p")
      case True
      then show ?thesis using x u ps by (intro bexI [of _ x]) (auto intro: converse_rtrancl_into_rtrancl)
    next
      case False
      then have "tj_low ?t h = tj_low t h" by auto
      then show ?thesis using u by (intro bexI [of _ u]) auto
    qed
  qed
  moreover have "tj_low_complete ?w ?t"
    unfolding tj_low_complete_def
  proof (intro ballI allI impI)
    fix x u h assume "x \<in> set (tj_stack ?t)" "u \<in> set (tj_stack ?t)" "(x, u) \<in> walked ?w"
      and own': "owner (tj_d ?t) (grey ?w) h x"
    then have xu: "x \<in> set (tj_stack t)" "u \<in> set (tj_stack t)" "(x, u) \<in> walked w" by simp_all
    have own: "owner (tj_d t) (p # gs) h x" using own' by simp
    have le: "tj_low ?t h \<le> tj_low t h" by auto
    show "tj_low ?t h \<le> tj_d ?t u"
    proof (cases "tj_d t x < tj_d t s")
      case True
      then have "owner (tj_d t) (grey w) h x" using own owner_below [of "tj_d t" x s "p # gs" h] g by simp
      then have "tj_low t h \<le> tj_d t u" using inv(3) xu unfolding tj_low_complete_def by blast
      then show ?thesis using le by (metis tj_pass_simps(1) order_trans)
    next
      case False
      then have "owner (tj_d t) (grey w) s x" using owner_top [of "tj_d t" s "p # gs" x s] shp(4) g by simp
      then have "tj_low t s \<le> tj_d t u" using inv(3) xu unfolding tj_low_complete_def by blast
      moreover have "tj_d t p \<le> tj_d t x" using False G [of p] by simp
      then have "h = p" using own owner_top [of "tj_d t" p gs x h] shp(4) g by (simp add: falling_Cons)
      ultimately show ?thesis by simp
    qed
  qed
  moreover have "tj_old ?w ?t"
    unfolding tj_old_def
  proof (intro ballI impI)
    fix h x u assume "h \<in> set (grey ?w)" "x \<in> set (tj_stack ?t)" "u \<in> set (tj_stack ?t)" "(x, u) \<in> walked ?w"
      "tj_d ?t x < tj_d ?t h"
    then show "tj_d ?t u < tj_d ?t h \<or> u = h \<and> (\<exists>xs ys. grey ?w = xs @ h # x # ys)"
      using old_finished [OF inv(4) sh g, of h x u] by simp
  qed
  moreover have "tj_comps E ?w ?t" using inv(5) unfolding tj_comps_def off by simp
  ultimately show ?thesis by (simp add: tj_ok_def)
qed

section \<open>Which states reach a final state\<close>

definition reaches :: "(state_id \<times> state_id) set \<Rightarrow> state_id set \<Rightarrow> state_id \<Rightarrow> bool" where
  "reaches E F s \<longleftrightarrow> (\<exists>f \<in> F. (s, f) \<in> E\<^sup>*)"

lemma reaches_step: "(s, u) \<in> E \<Longrightarrow> reaches E F u \<Longrightarrow> reaches E F s"
  unfolding reaches_def by (meson converse_rtrancl_into_rtrancl)

lemma reaches_path: "(s, u) \<in> E\<^sup>* \<Longrightarrow> reaches E F u \<Longrightarrow> reaches E F s"
  unfolding reaches_def by (meson rtrancl_trans)

definition co_ok :: "(state_id \<times> state_id) set \<Rightarrow> state_id set \<Rightarrow> view \<Rightarrow> tarjan \<Rightarrow> state_id set \<Rightarrow> bool" where
  "co_ok E F w t co \<longleftrightarrow> (\<forall>s \<in> co. reaches E F s) \<and> (\<forall>s \<in> closed_off w t. reaches E F s \<longrightarrow> s \<in> co) \<and>
     black w \<inter> F \<subseteq> co \<and>
     (\<forall>s \<in> set (tj_stack t). \<forall>u. (s, u) \<in> walked w \<longrightarrow> u \<in> closed_off w t \<longrightarrow> u \<in> co \<longrightarrow> s \<in> co)"

lemma co_okD:
  assumes "co_ok E F w t co"
  shows "s \<in> co \<Longrightarrow> reaches E F s" "s \<in> closed_off w t \<Longrightarrow> reaches E F s \<Longrightarrow> s \<in> co"
    "s \<in> black w \<Longrightarrow> s \<in> F \<Longrightarrow> s \<in> co"
    "s \<in> set (tj_stack t) \<Longrightarrow> (s, u) \<in> walked w \<Longrightarrow> u \<in> closed_off w t \<Longrightarrow> u \<in> co \<Longrightarrow> s \<in> co"
  using assms unfolding co_ok_def by blast+

lemma co_ok_discover:
  assumes v: "view_ok n E w" and ok: "tj_ok E w t" and co: "co_ok E F w t co" and r: "r \<notin> seen w"
  shows "co_ok E F (discovered w r) (tj_discover w r t) co"
proof -
  have "closed_off (discovered w r) (tj_discover w r t) = closed_off w t"
    using r by (auto simp: closed_off_def tj_discover_def)
  moreover have "(s, u) \<in> walked (discovered w r) \<longleftrightarrow> (s, u) \<in> walked w \<or> u = r \<and> (\<exists>gs. grey w = s # gs)" for s u
    by (auto simp: discovered_def split: list.splits)
  moreover have "r \<notin> closed_off w t" using r by (simp add: closed_off_def)
  moreover have "(r, u) \<notin> walked w" for u using view_okD(5) [OF v] r by blast
  moreover have "(\<exists>gs. grey w = r # gs) \<Longrightarrow> False" using r by (auto simp: seen_def)
  ultimately show ?thesis
    using co unfolding co_ok_def by (auto simp: tj_discover_def)
qed

lemma co_ok_walk:
  assumes co: "co_ok E F w t co" and e: "(s, u) \<in> E"
  shows "co_ok E F (w\<lparr>walked := insert (s, u) (walked w)\<rparr>) (tj_lower s u t) (if u \<in> co then insert s co else co)"
proof -
  let ?w = "w\<lparr>walked := insert (s, u) (walked w)\<rparr>" and ?co = "if u \<in> co then insert s co else co"
  have off: "closed_off ?w (tj_lower s u t) = closed_off w t" by (simp add: closed_off_def seen_def)
  note c = co_okD [OF co]
  have "reaches E F x" if "x \<in> ?co" for x
    using that c(1) reaches_step [OF e] by (auto split: if_splits)
  moreover have "x \<in> ?co" if "x \<in> closed_off w t" "reaches E F x" for x using that c(2) by simp
  moreover have "black w \<inter> F \<subseteq> ?co" using c(3) by auto
  moreover have "x \<in> ?co" if "x \<in> set (tj_stack t)" "(x, y) \<in> insert (s, u) (walked w)" "y \<in> closed_off w t" "y \<in> ?co" for x y
  proof (cases "(x, y) = (s, u)")
    case True
    then show ?thesis using that(4) by (auto split: if_splits)
  next
    case False
    then have xy: "(x, y) \<in> walked w" using that(2) by blast
    show ?thesis
    proof (cases "y \<in> co")
      case True
      then show ?thesis using c(4) [OF that(1) xy that(3)] by simp
    next
      case False
      then have "reaches E F y" using that(4) \<open>\<And>x. x \<in> ?co \<Longrightarrow> reaches E F x\<close> by blast
      then show ?thesis using c(2) [OF that(3)] False by blast
    qed
  qed
  ultimately show ?thesis unfolding co_ok_def off by simp
qed

text \<open>Finishing a state marks it when it is final, then its component when the component is closed and
  one of it is marked, and then the parent.\<close>

definition co_final :: "state_id set \<Rightarrow> state_id \<Rightarrow> state_id set \<Rightarrow> state_id set" where
  "co_final F s co = (if s \<in> F then insert s co else co)"

definition co_spread :: "state_id \<Rightarrow> tarjan \<Rightarrow> state_id set \<Rightarrow> state_id set" where
  "co_spread s t co = (if above s t \<inter> co = {} then co else co \<union> above s t)"

definition co_parent :: "state_id \<Rightarrow> state_id list \<Rightarrow> state_id set \<Rightarrow> state_id set" where
  "co_parent s gs co = (case gs of [] \<Rightarrow> co | p # _ \<Rightarrow> if s \<in> co then insert p co else co)"

lemma leaving_path:
  assumes "(x, f) \<in> E\<^sup>*" "x \<in> A" "f \<in> B" "\<And>x y. x \<in> A \<Longrightarrow> (x, y) \<in> E \<Longrightarrow> y \<in> A \<union> B" "A \<inter> B = {}"
  shows "\<exists>y \<in> A. \<exists>z \<in> B. (y, z) \<in> E \<and> (z, f) \<in> E\<^sup>*"
  using assms(1,2)
proof (induction rule: converse_rtrancl_induct)
  case base
  then show ?case using assms(3,5) by blast
next
  case (step y z)
  then show ?case using assms(4) by blast
qed

lemma co_ok_close:
  assumes v: "view_ok n E w" and ok: "tj_ok E w t" and g: "grey w = s # gs" and all: "E `` {s} \<subseteq> walked w `` {s}"
    and low: "tj_low t s = tj_d t s" and co: "co_ok E F w t co"
  shows "co_ok E F (finished w s gs) (tj_close s t) (co_parent s gs (co_spread s t (co_final F s co)))"
    and "above s t \<inter> co_final F s co \<noteq> {} \<longleftrightarrow> reaches E F s"
proof -
  let ?A = "above s t" and ?O = "closed_off w t" and ?w = "finished w s gs" and ?t = "tj_close s t"
  let ?c1 = "co_final F s co" and ?c2 = "co_spread s t (co_final F s co)"
  let ?c3 = "co_parent s gs (co_spread s t (co_final F s co))"
  have sh: "tj_shape w t" and old: "tj_old w t" and comps: "tj_comps E w t" using ok by (simp_all add: tj_ok_def)
  note shp = shapeD [OF sh] and c = co_okD [OF co]
  note comp = above_component [OF v ok g all low]
  have sT: "s \<in> set (tj_stack t)" using g shp(1) by simp
  have sA: "s \<in> ?A" using sT by (simp add: above_def)
  have T: "u \<in> set (tj_stack ?t) \<longleftrightarrow> u \<in> set (tj_stack t) \<and> tj_d t u < tj_d t s" for u
    using split_stack [OF shp(3) sT] by (auto simp: tj_close_def)
  have off: "closed_off ?w ?t = ?O \<union> ?A"
    using shp(2) seen_finished [OF g] by (auto simp: closed_off_def T above_def)
  have disj: "?A \<inter> ?O = {}" by (auto simp: closed_off_def above_def)
  have r1: "reaches E F x" if "x \<in> ?c1" for x
    using that c(1) by (auto simp: co_final_def reaches_def split: if_splits)
  have same: "reaches E F x \<longleftrightarrow> reaches E F s" if "x \<in> ?A" for x
    using that comp reaches_path [of x s E F] reaches_path [of s x E F] by auto
  have hit: "?A \<inter> ?c1 \<noteq> {}" if "reaches E F s"
  proof -
    obtain f where f: "f \<in> F" "(s, f) \<in> E\<^sup>*" using \<open>reaches E F s\<close> by (auto simp: reaches_def)
    have "f \<in> ?A \<union> ?O" using above_paths [OF v ok g all low f(2) sA] .
    then show ?thesis
    proof
      assume "f \<in> ?A"
      then have "f \<in> ?c1" using above_walked(1) [OF v ok g all] c(3) f(1) by (auto simp: co_final_def)
      then show ?thesis using \<open>f \<in> ?A\<close> by blast
    next
      assume "f \<in> ?O"
      have "\<exists>y \<in> ?A. \<exists>z \<in> ?O. (y, z) \<in> E \<and> (z, f) \<in> E\<^sup>*"
        by (rule leaving_path [OF f(2) sA \<open>f \<in> ?O\<close> _ disj]) (rule above_closed [OF v ok g all low])
      then obtain y z where yz: "y \<in> ?A" "z \<in> ?O" "(y, z) \<in> E" "(z, f) \<in> E\<^sup>*" by blast
      then have "z \<in> co" using c(2) f(1) by (auto simp: reaches_def)
      then have "y \<in> co" using c(4) [OF _ above_walked(2) [OF v ok g all yz(1,3)] yz(2)] yz(1) by (simp add: above_def)
      then show ?thesis using yz(1) by (auto simp: co_final_def)
    qed
  qed
  then show iff: "?A \<inter> ?c1 \<noteq> {} \<longleftrightarrow> reaches E F s" using r1 same by blast
  have c2: "x \<in> ?c2 \<longleftrightarrow> x \<in> ?c1 \<or> x \<in> ?A \<and> reaches E F s" for x
    using iff by (auto simp: co_spread_def)
  have r2: "reaches E F x" if "x \<in> ?c2" for x using that r1 same c2 by blast
  have s2: "s \<in> ?c2 \<longleftrightarrow> reaches E F s" using r2 c2 sA by blast
  have r3: "reaches E F x" if "x \<in> ?c3" for x
  proof (cases gs)
    case (Cons p ps)
    have "(p, s) \<in> E" using view_okD(4,6) [OF v] g Cons by auto
    then show ?thesis using that Cons r2 reaches_step by (auto simp: co_parent_def split: if_splits)
  qed (use that r2 in \<open>simp add: co_parent_def\<close>)
  have grow: "?c2 \<subseteq> ?c3" by (auto simp: co_parent_def split: list.split)
  have "x \<in> ?c3" if "x \<in> closed_off ?w ?t" "reaches E F x" for x
  proof (cases "x \<in> ?O")
    case True
    then have "x \<in> ?c1" using c(2) that(2) by (simp add: co_final_def)
    then show ?thesis using c2 grow by blast
  next
    case False
    then have "x \<in> ?A" using that(1) off by blast
    then show ?thesis using same that(2) c2 grow by blast
  qed
  moreover have "black ?w \<inter> F \<subseteq> ?c1" using c(3) by (auto simp: co_final_def)
  then have "black ?w \<inter> F \<subseteq> ?c3" using c2 grow by blast
  moreover have "x \<in> ?c3" if x: "x \<in> set (tj_stack ?t)" "(x, u) \<in> walked ?w" "u \<in> closed_off ?w ?t" "u \<in> ?c3" for x u
  proof (cases "u \<in> ?O")
    case True
    then have "u \<in> co" using c(2) r3 [OF x(4)] by blast
    then have "x \<in> co" using c(4) x(1,2) True T by auto
    then have "x \<in> ?c1" by (simp add: co_final_def)
    then show ?thesis using c2 grow by blast
  next
    case False
    then have u: "u \<in> ?A" using x(3) off by blast
    then have uT: "u \<in> set (tj_stack t)" "tj_d t s \<le> tj_d t u" by (simp_all add: above_def)
    have sG: "s \<in> set (grey w)" using g by simp
    have xT: "x \<in> set (tj_stack t)" "tj_d t x < tj_d t s" "(x, u) \<in> walked w" using x(1,2) T by simp_all
    have "tj_d t u < tj_d t s \<or> u = s \<and> (\<exists>xs ys. grey w = xs @ s # x # ys)"
      using old [unfolded tj_old_def] sG xT uT(1) by blast
    then have "u = s \<and> (\<exists>xs ys. grey w = xs @ s # x # ys)" using uT(2) by (auto dest: leD)
    then obtain xs ys where e: "u = s" "s # gs = xs @ s # x # ys" using g by auto
    have "xs = []" using e(2) falling_distinct [OF shp(4)] g by (cases xs) auto
    then have "gs = x # ys" using e(2) by simp
    moreover have "s \<in> ?c2" using s2 r3 [OF x(4)] e(1) by simp
    ultimately show ?thesis by (simp add: co_parent_def)
  qed
  ultimately show "co_ok E F ?w ?t ?c3" unfolding co_ok_def using r3 by blast
qed

lemma co_ok_pass:
  assumes v: "view_ok n E w" and ok: "tj_ok E w t" and g: "grey w = s # p # gs" and co: "co_ok E F w t co"
  shows "co_ok E F (finished w s (p # gs)) (tj_pass s p t) (co_parent s (p # gs) (co_final F s co))"
proof -
  let ?w = "finished w s (p # gs)" and ?c1 = "co_final F s co" and ?c2 = "co_parent s (p # gs) (co_final F s co)"
  note c = co_okD [OF co]
  have off: "closed_off ?w (tj_pass s p t) = closed_off w t" unfolding closed_off_def seen_finished [OF g] by simp
  have "(p, s) \<in> E" using view_okD(4,6) [OF v] g by auto
  moreover have "reaches E F x" if "x \<in> ?c1" for x
    using that c(1) by (auto simp: co_final_def reaches_def split: if_splits)
  ultimately have r: "reaches E F x" if "x \<in> ?c2" for x
    using that reaches_step by (auto simp: co_parent_def split: if_splits)
  have grow: "co \<subseteq> ?c2" by (auto simp: co_parent_def co_final_def)
  have "black ?w \<inter> F \<subseteq> ?c2" using c(3) by (auto simp: co_parent_def co_final_def)
  moreover have "x \<in> ?c2" if "x \<in> set (tj_stack t)" "(x, u) \<in> walked w" "u \<in> closed_off w t" "u \<in> ?c2" for x u
    using c(2) [OF that(3) r [OF that(4)]] c(4) [OF that(1-3)] grow by blast
  ultimately show ?thesis unfolding co_ok_def off using r c(2) grow by auto
qed

section \<open>Cycles and what the start state reaches\<close>

definition no_back :: "(state_id \<times> state_id) set \<Rightarrow> view \<Rightarrow> bool" where
  "no_back E w \<longleftrightarrow> (\<exists>L. distinct L \<and> set L = black w \<and> finished_after E L) \<and> tree_or_black w"

lemma no_back_discover:
  assumes v: "view_ok n E w" and nb: "no_back E w" and r: "r \<notin> seen w"
  shows "no_back E (discovered w r)"
proof (cases "grey w")
  case Nil
  have "walked w \<subseteq> seen w \<times> seen w" using v by (simp add: view_ok_def)
  then have "tree_or_black (discovered w r)"
    using Nil r by (auto simp: tree_or_black_def discovered_def)
  then show ?thesis using nb by (auto simp: no_back_def)
next
  case (Cons s gs)
  have "walked w \<subseteq> seen w \<times> seen w" using v by (simp add: view_ok_def)
  then have "tree_or_black (discovered w r)"
    using tree_or_black_tree [OF _ Cons r] nb Cons by (simp add: discovered_def no_back_def)
  then show ?thesis using nb by (auto simp: no_back_def)
qed

lemma no_back_walk: "no_back E w \<Longrightarrow> u \<in> black w \<Longrightarrow> no_back E (w\<lparr>walked := insert (s, u) (walked w)\<rparr>)"
  by (auto simp: no_back_def tree_or_black_def)

lemma no_back_finish:
  assumes v: "view_ok n E w" and nb: "no_back E w" and g: "grey w = s # gs" and all: "E `` {s} \<subseteq> walked w `` {s}"
  shows "no_back E (finished w s gs)"
proof -
  obtain L where L: "distinct L" "set L = black w" "finished_after E L" and tb: "tree_or_black w"
    using nb by (auto simp: no_back_def)
  have d: "distinct (s # gs)" "s \<notin> black w" using view_okD(1,2) [OF v] g by auto
  have "u \<in> black w" if "(s, u) \<in> E" for u
    using tree_or_black_top [OF tb g view_okD(1) [OF v], of u] all that by auto
  then have "finished_after E (L @ [s])" using L(2,3) by (intro finished_after_snoc) auto
  moreover have "distinct (L @ [s])" "set (L @ [s]) = black (finished w s gs)" using L d(2) by auto
  moreover have "tree_or_black (finished w s gs)" using tree_or_black_finish [OF tb g] d(1) by simp
  ultimately show ?thesis unfolding no_back_def by blast
qed

definition acc_ok :: "(state_id \<times> state_id) set \<Rightarrow> state_id \<Rightarrow> view \<Rightarrow> state_id set \<Rightarrow> bool" where
  "acc_ok E st w acc \<longleftrightarrow> acc \<subseteq> E\<^sup>* `` {st} \<and>
     (if grey w \<noteq> [] \<and> last (grey w) = st then acc = seen w \<and> st \<in> acc
      else if seen w = {} then acc = {}
      else st \<in> acc \<and> acc \<subseteq> black w \<and> E `` acc \<subseteq> acc)"

lemma acc_ok_discover:
  assumes v: "view_ok n E w" and acc: "acc_ok E st w acc" and r: "r \<notin> seen w"
    and e: "\<And>s gs. grey w = s # gs \<Longrightarrow> (s, r) \<in> E"
    and root: "grey w = [] \<Longrightarrow> (if black w = {} then st = r else st \<in> black w)"
  shows "acc_ok E st (discovered w r) (if last (r # grey w) = st then insert r acc else acc - {r})"
proof (cases "grey w")
  case Nil
  show ?thesis
  proof (cases "black w = {}")
    case True
    then show ?thesis using Nil acc root [OF Nil] by (auto simp: acc_ok_def seen_def)
  next
    case False
    then have "st \<in> black w" using root Nil by simp
    then have "st \<noteq> r" using r by (auto simp: seen_def)
    moreover have "acc \<subseteq> black w" "seen w \<noteq> {}" using acc Nil False by (auto simp: acc_ok_def seen_def split: if_splits)
    then have "acc - {r} = acc" using r by (auto simp: seen_def)
    ultimately show ?thesis using Nil acc False by (auto simp: acc_ok_def seen_def)
  qed
next
  case (Cons s gs)
  have ne: "seen w \<noteq> {}" using Cons by (auto simp: seen_def)
  show ?thesis
  proof (cases "last (grey w) = st")
    case True
    then have "acc \<subseteq> E\<^sup>* `` {st} \<and> acc = seen w \<and> st \<in> acc" using acc Cons by (auto simp: acc_ok_def)
    then have a: "acc = seen w" "st \<in> acc" "acc \<subseteq> E\<^sup>* `` {st}" by blast+
    have "s \<in> acc" using a(1) Cons by (simp add: seen_def)
    then have "(st, s) \<in> E\<^sup>*" using a(3) by blast
    then have "(st, r) \<in> E\<^sup>*" using e [OF Cons] by (rule rtrancl_into_rtrancl)
    then show ?thesis using a True Cons by (auto simp: acc_ok_def)
  next
    case False
    then have a: "st \<in> acc" "acc \<subseteq> black w" "E `` acc \<subseteq> acc" "acc \<subseteq> E\<^sup>* `` {st}"
      using acc Cons ne by (auto simp: acc_ok_def split: if_splits)
    have "acc - {r} = acc" using a(2) r by (auto simp: seen_def)
    then show ?thesis using a False Cons by (auto simp: acc_ok_def)
  qed
qed

lemma acc_ok_walk: "acc_ok E st w acc \<Longrightarrow> acc_ok E st (w\<lparr>walked := W\<rparr>) acc"
proof -
  have "seen (w\<lparr>walked := W\<rparr>) = seen w" by (simp add: seen_def)
  then show "acc_ok E st w acc \<Longrightarrow> acc_ok E st (w\<lparr>walked := W\<rparr>) acc"
    by (auto simp: acc_ok_def split: if_splits)
qed

lemma acc_ok_finish:
  assumes v: "view_ok n E w" and acc: "acc_ok E st w acc" and g: "grey w = s # gs" and all: "E `` {s} \<subseteq> walked w `` {s}"
  shows "acc_ok E st (finished w s gs) acc"
proof (cases "last (grey w) = st")
  case True
  then have "acc \<subseteq> E\<^sup>* `` {st} \<and> acc = seen w \<and> st \<in> acc" using acc g by (auto simp: acc_ok_def)
  then have a: "acc = seen w" "st \<in> acc" "acc \<subseteq> E\<^sup>* `` {st}" by blast+
  show ?thesis
  proof (cases gs)
    case Nil
    have v': "view_ok n E (finished w s gs)" using view_ok_finish [OF v g all] .
    have sb: "seen w = insert s (black w)" using g Nil by (simp add: seen_def)
    have "y \<in> insert s (black w)" if "x \<in> insert s (black w)" "(x, y) \<in> E" for x y
    proof -
      have "(x, y) \<in> walked w" using view_okD(7) [OF v', of x y] that by simp
      then show ?thesis using view_okD(5) [OF v, of x y] unfolding sb by blast
    qed
    then have "E `` seen w \<subseteq> seen w" unfolding sb by blast
    then show ?thesis using a sb Nil by (auto simp: acc_ok_def seen_def)
  next
    case (Cons p ps)
    then show ?thesis using a True g by (simp add: acc_ok_def seen_def)
  qed
next
  case False
  have ne: "seen w \<noteq> {}" using g by (auto simp: seen_def)
  have "st \<in> acc" "acc \<subseteq> black w" "E `` acc \<subseteq> acc" "acc \<subseteq> E\<^sup>* `` {st}"
    using acc g False ne by (auto simp: acc_ok_def split: if_splits)
  then show ?thesis using False g by (cases gs) (auto simp: acc_ok_def seen_def)
qed

definition icyc_ok :: "(state_id \<times> state_id) set \<Rightarrow> state_id \<Rightarrow> view \<Rightarrow> state_id set \<Rightarrow> bool \<Rightarrow> bool" where
  "icyc_ok E st w acc icyc \<longleftrightarrow> (icyc \<longrightarrow> (st, st) \<in> E\<^sup>+) \<and> (\<not> icyc \<longrightarrow> (\<forall>s \<in> acc. (s, st) \<notin> walked w))"

lemma icyc_ok_walk:
  assumes v: "view_ok n E w" and acc: "acc_ok E st w acc" and ic: "icyc_ok E st w acc icyc" and g: "grey w = s # gs"
    and e: "(s, u) \<in> E"
  shows "u \<in> set (grey w) \<Longrightarrow> icyc_ok E st (w\<lparr>walked := insert (s, u) (walked w)\<rparr>) acc (icyc \<or> u = st)"
    "u \<in> black w \<Longrightarrow> icyc_ok E st (w\<lparr>walked := insert (s, u) (walked w)\<rparr>) acc icyc"
proof -
  assume u: "u \<in> set (grey w)"
  have "(u, s) \<in> (walked w)\<^sup>*" using linked_reach view_okD(6) [OF v] g u by metis
  then have "(u, s) \<in> E\<^sup>*" using view_okD(4) [OF v] by (meson rtrancl_mono subsetD)
  then have "u = st \<Longrightarrow> (st, st) \<in> E\<^sup>+" using e by (meson rtrancl_into_trancl1)
  then show "icyc_ok E st (w\<lparr>walked := insert (s, u) (walked w)\<rparr>) acc (icyc \<or> u = st)"
    using ic by (auto simp: icyc_ok_def)
next
  assume u: "u \<in> black w"
  have "s \<notin> black w" using view_okD(2) [OF v] g by auto
  have "u = st \<Longrightarrow> s \<notin> acc"
  proof
    assume "u = st" "s \<in> acc"
    then have "last (grey w) \<noteq> st" using u view_okD(2) [OF v] g by (metis disjoint_iff last_in_set list.distinct(1))
    then have "acc \<subseteq> black w" using acc g by (auto simp: acc_ok_def seen_def split: if_splits)
    then show False using \<open>s \<in> acc\<close> \<open>s \<notin> black w\<close> by blast
  qed
  then show "icyc_ok E st (w\<lparr>walked := insert (s, u) (walked w)\<rparr>) acc icyc"
    using ic by (auto simp: icyc_ok_def)
qed

lemma icyc_ok_discover:
  assumes v: "view_ok n E w" and acc: "acc_ok E st w acc" and ic: "icyc_ok E st w acc icyc" and r: "r \<notin> seen w"
  shows "icyc_ok E st (discovered w r) (if last (r # grey w) = st then insert r acc else acc - {r}) icyc"
proof -
  have out: "(r, x) \<notin> walked w" for x using view_okD(5) [OF v] r by blast
  have "(s, st) \<notin> walked (discovered w r)" if "\<not> icyc" "s \<in> (if last (r # grey w) = st then insert r acc else acc - {r})" for s
  proof
    assume "(s, st) \<in> walked (discovered w r)"
    moreover have "(s, st) \<notin> walked w" using that ic out by (auto simp: icyc_ok_def split: if_splits)
    ultimately obtain gs where "st = r" "grey w = s # gs" by (auto simp: discovered_def split: list.splits)
    then have "st \<in> acc" "acc \<subseteq> seen w" using acc by (auto simp: acc_ok_def seen_def split: if_splits)
    then show False using r \<open>st = r\<close> by blast
  qed
  then show ?thesis using ic by (simp add: icyc_ok_def)
qed

end
