(* ===== verification/SccVisitor.thy ===== *)
theory SccVisitor
  imports SccInvariant BitSet PropertyScan
begin

text \<open>
  The visitor of \<open>algorithms/cc_visitors.rs\<close> that finds strongly connected components, what is
  accessible and coaccessible, and the property bits that depend on them; and its exactness, from the
  invariants of \<open>SccInvariant\<close>.
\<close>

section \<open>The visitor\<close>

text \<open>The FST it holds shows as its start state, its final weights and whether a weight is a member of
  the semiring.  \<open>sv_coaccess\<close> is the caller's set or one of its own.  The top of the component stack is
  its head.\<close>

record scc_visitor =
  sv_scc :: "state_id list option"
  sv_access :: "bit_set option"
  sv_coaccess :: bit_set
  sv_props :: "64 word"
  sv_building :: "64 word"
  sv_start :: "state_id option"
  sv_nstates :: nat
  sv_nscc :: nat
  sv_dfnumber :: "32 word list"
  sv_lowlink :: "32 word list"
  sv_onstack :: bit_set
  sv_scc_stack :: "state_id list"
  sv_want_coaccess :: bool

definition scc_visitor_new :: "state_id list option \<Rightarrow> bit_set option \<Rightarrow> bit_set option \<Rightarrow> 64 word \<Rightarrow> scc_visitor" where
  "scc_visitor_new scc access coaccess props =
     \<lparr>sv_scc = scc, sv_access = access,
      sv_coaccess = (case coaccess of Some v \<Rightarrow> v | None \<Rightarrow> gbs_new),
      sv_props = props, sv_building = 0, sv_start = None, sv_nstates = 0, sv_nscc = 0,
      sv_dfnumber = [], sv_lowlink = [], sv_onstack = gbs_new, sv_scc_stack = [], sv_want_coaccess = True\<rparr>"

definition without_coaccess :: "scc_visitor \<Rightarrow> scc_visitor" where
  "without_coaccess v = v\<lparr>sv_want_coaccess := False\<rparr>"

definition sv_init_visit :: "state_id option \<Rightarrow> scc_visitor \<Rightarrow> scc_visitor option" where
  "sv_init_visit start v =
     (let v = v\<lparr>sv_scc := map_option (\<lambda>_. []) (sv_scc v),
                sv_access := map_option bs_clear (sv_access v),
                sv_coaccess := bs_clear (sv_coaccess v)\<rparr>;
          building = refute True (K_ACYCLIC OR K_INITIAL_ACYCLIC OR K_ACCESSIBLE)
            (K_CYCLIC OR K_INITIAL_CYCLIC OR K_NOT_ACCESSIBLE) (sv_props v);
          building = refute (sv_want_coaccess v) K_CO_ACCESSIBLE K_NOT_CO_ACCESSIBLE building
      in Some (v\<lparr>sv_building := building, sv_start := start, sv_nstates := 0, sv_nscc := 0,
                 sv_dfnumber := [], sv_lowlink := [], sv_onstack := bs_clear (sv_onstack v),
                 sv_scc_stack := []\<rparr>))"

text \<open>The tables grow to cover a state when it is met.\<close>

definition sv_grow :: "state_id \<Rightarrow> scc_visitor \<Rightarrow> scc_visitor" where
  "sv_grow s v =
     (if length (sv_dfnumber v) \<le> s then
        v\<lparr>sv_scc := map_option (vresize (s + 1) no_state) (sv_scc v),
          sv_access := map_option (\<lambda>b. gbs_ensure b (s + 1)) (sv_access v),
          sv_coaccess := gbs_ensure (sv_coaccess v) (s + 1),
          sv_dfnumber := vresize (s + 1) (- 1) (sv_dfnumber v),
          sv_lowlink := vresize (s + 1) (- 1) (sv_lowlink v)\<rparr>
      else v)"

definition on_access :: "(bit_set \<Rightarrow> (bit_set \<times> bool) option) \<Rightarrow> scc_visitor \<Rightarrow> scc_visitor option" where
  "on_access opr v =
     (case sv_access v of
        None \<Rightarrow> Some v
      | Some access \<Rightarrow> map_option (\<lambda>(access, _). v\<lparr>sv_access := Some access\<rparr>) (opr access))"

definition sv_init_state :: "scc_visitor \<Rightarrow> state_id \<Rightarrow> state_id \<Rightarrow> (scc_visitor \<times> bool) option" where
  "sv_init_state v s root = do {
     let v = sv_grow s (v\<lparr>sv_scc_stack := s # sv_scc_stack v\<rparr>);
     let number = of_nat (sv_nstates v);
     dfnumber \<leftarrow> vset (sv_dfnumber v) s number;
     lowlink \<leftarrow> vset (sv_lowlink v) s number;
     (onstack, _) \<leftarrow> gbs_insert (sv_onstack v) s;
     let v = v\<lparr>sv_dfnumber := dfnumber, sv_lowlink := lowlink, sv_onstack := onstack\<rparr>;
     v \<leftarrow> (if Some root = sv_start v then on_access (\<lambda>b. gbs_insert b s) v
           else do {
             v \<leftarrow> on_access (\<lambda>b. gbs_remove b s) v;
             Some (v\<lparr>sv_building := refute True K_NOT_ACCESSIBLE K_ACCESSIBLE (sv_building v)\<rparr>) });
     Some (v\<lparr>sv_nstates := sv_nstates v + 1\<rparr>, True) }"

text \<open>A state from which a coaccessible state is one arc away.\<close>

definition sv_spread :: "state_id \<Rightarrow> state_id \<Rightarrow> scc_visitor \<Rightarrow> scc_visitor option" where
  "sv_spread t s v =
     (if sv_want_coaccess v then do {
        c \<leftarrow> gbs_contains (sv_coaccess v) t;
        (if c then do {
           (coaccess, _) \<leftarrow> gbs_insert (sv_coaccess v) s;
           Some (v\<lparr>sv_coaccess := coaccess\<rparr>) }
         else Some v) }
      else Some v)"

definition sv_back_arc :: "scc_visitor \<Rightarrow> state_id \<Rightarrow> 'w arc \<Rightarrow> (scc_visitor \<times> bool) option" where
  "sv_back_arc v s arc = do {
     let t = nextstate arc;
     dt \<leftarrow> vget (sv_dfnumber v) t;
     low \<leftarrow> vget (sv_lowlink v) s;
     let v = (if dt < low then v\<lparr>sv_lowlink := (sv_lowlink v)[s := dt]\<rparr> else v);
     v \<leftarrow> sv_spread t s v;
     let building = refute True K_CYCLIC K_ACYCLIC (sv_building v);
     let building = refute (Some t = sv_start v) K_INITIAL_CYCLIC K_INITIAL_ACYCLIC building;
     Some (v\<lparr>sv_building := building\<rparr>, True) }"

definition sv_forward_or_cross_arc :: "scc_visitor \<Rightarrow> state_id \<Rightarrow> 'w arc \<Rightarrow> (scc_visitor \<times> bool) option" where
  "sv_forward_or_cross_arc v s arc = do {
     let t = nextstate arc;
     dt \<leftarrow> vget (sv_dfnumber v) t;
     ds \<leftarrow> vget (sv_dfnumber v) s;
     on \<leftarrow> (if dt < ds then gbs_contains (sv_onstack v) t else Some False);
     v \<leftarrow> (if on then do {
             low \<leftarrow> vget (sv_lowlink v) s;
             Some (if dt < low then v\<lparr>sv_lowlink := (sv_lowlink v)[s := dt]\<rparr> else v) }
           else Some v);
     v \<leftarrow> sv_spread t s v;
     Some (v, True) }"

text \<open>Whether the component on top of the stack, down to \<open>s\<close>, has a coaccessible state.\<close>

fun scan_component :: "bit_set \<Rightarrow> state_id \<Rightarrow> state_id list \<Rightarrow> bool \<Rightarrow> bool option" where
  "scan_component coaccess s [] scc_coaccess = None"
| "scan_component coaccess s (t # ts) scc_coaccess = do {
     c \<leftarrow> gbs_contains coaccess t;
     let scc_coaccess = (c \<or> scc_coaccess);
     (if s = t then Some scc_coaccess else scan_component coaccess s ts scc_coaccess) }"

fun pop_component :: "state_id \<Rightarrow> bool \<Rightarrow> state_id list \<Rightarrow> scc_visitor \<Rightarrow> scc_visitor option" where
  "pop_component s scc_coaccess [] v = None"
| "pop_component s scc_coaccess (t # ts) v = do {
     scc \<leftarrow> (case sv_scc v of None \<Rightarrow> Some None | Some scc \<Rightarrow> map_option Some (vset scc t (sv_nscc v)));
     (coaccess, _) \<leftarrow> (if scc_coaccess then gbs_insert (sv_coaccess v) t else Some (sv_coaccess v, False));
     (onstack, _) \<leftarrow> gbs_remove (sv_onstack v) t;
     let v = v\<lparr>sv_scc_stack := ts, sv_scc := scc, sv_coaccess := coaccess, sv_onstack := onstack\<rparr>;
     (if s = t then Some v else pop_component s scc_coaccess ts v) }"

definition sv_close :: "state_id \<Rightarrow> scc_visitor \<Rightarrow> scc_visitor option" where
  "sv_close s v = do {
     scc_coaccess \<leftarrow> (if sv_want_coaccess v
        then scan_component (sv_coaccess v) s (sv_scc_stack v) False else Some False);
     v \<leftarrow> pop_component s scc_coaccess (sv_scc_stack v) v;
     Some (v\<lparr>sv_building := refute (sv_want_coaccess v \<and> \<not> scc_coaccess) K_NOT_CO_ACCESSIBLE K_CO_ACCESSIBLE
              (sv_building v),
             sv_nscc := sv_nscc v + 1\<rparr>) }"

definition sv_finish_state :: "(state_id \<Rightarrow> 'w::zero) \<Rightarrow> ('w \<Rightarrow> bool) \<Rightarrow> scc_visitor \<Rightarrow> state_id \<Rightarrow>
    (state_id \<times> 'w arc) option \<Rightarrow> scc_visitor option" where
  "sv_finish_state final_weight is_member v s entered_by = do {
     v \<leftarrow> (if sv_want_coaccess v \<and> is_member (final_weight s) \<and> final_weight s \<noteq> 0 then do {
             (coaccess, _) \<leftarrow> gbs_insert (sv_coaccess v) s;
             Some (v\<lparr>sv_coaccess := coaccess\<rparr>) }
           else Some v);
     ds \<leftarrow> vget (sv_dfnumber v) s;
     low \<leftarrow> vget (sv_lowlink v) s;
     v \<leftarrow> (if ds = low then sv_close s v else Some v);
     (case entered_by of
        None \<Rightarrow> Some v
      | Some (p, _) \<Rightarrow> do {
          v \<leftarrow> sv_spread s p v;
          low \<leftarrow> vget (sv_lowlink v) s;
          plow \<leftarrow> vget (sv_lowlink v) p;
          Some (if low < plow then v\<lparr>sv_lowlink := (sv_lowlink v)[p := low]\<rparr> else v) }) }"

text \<open>The components were numbered from the last in topological order to the first.\<close>

definition renumber :: "nat \<Rightarrow> state_id \<Rightarrow> state_id option" where
  "renumber nscc s =
     (if s = no_state then Some s else if s < nscc then Some (nscc - 1 - s) else None)"

definition sv_finish_visit :: "scc_visitor \<Rightarrow> scc_visitor option" where
  "sv_finish_visit v = do {
     let v = v\<lparr>sv_props := sv_building v\<rparr>;
     scc \<leftarrow> (case sv_scc v of None \<Rightarrow> Some None
            | Some scc \<Rightarrow> map_option Some (those (map (renumber (sv_nscc v)) scc)));
     Some (v\<lparr>sv_scc := scc\<rparr>) }"

definition scc_visitor_of :: "state_id option \<Rightarrow> (state_id \<Rightarrow> 'w::zero) \<Rightarrow> ('w \<Rightarrow> bool) \<Rightarrow> ('w, scc_visitor) visitor" where
  "scc_visitor_of start final_weight is_member = \<lparr>
     v_init_visit = sv_init_visit start,
     v_init_state = sv_init_state,
     v_tree_arc = (\<lambda>v _ _. Some (v, True)),
     v_back_arc = sv_back_arc,
     v_forward_or_cross_arc = sv_forward_or_cross_arc,
     v_finish_state = sv_finish_state final_weight is_member,
     v_finish_visit = sv_finish_visit\<rparr>"

section \<open>How the visitor shows the invariants\<close>

definition sv_tables :: "bool \<Rightarrow> nat \<Rightarrow> view \<Rightarrow> tarjan \<Rightarrow> scc_visitor \<Rightarrow> bool" where
  "sv_tables ns n w t v \<longleftrightarrow>
     length (sv_lowlink v) = length (sv_dfnumber v) \<and> length (sv_dfnumber v) \<le> n \<and>
     (\<forall>s \<in> seen w. s < length (sv_dfnumber v) \<and> sv_dfnumber v ! s = of_nat (tj_d t s)) \<and>
     (\<forall>s \<in> set (grey w). sv_lowlink v ! s = of_nat (tj_low t s)) \<and>
     bs_ok (sv_onstack v) \<and> members (sv_onstack v) = set (tj_stack t) \<and> sv_scc_stack v = tj_stack t \<and>
     sv_nscc v = tj_k t \<and> sv_nstates v = card (seen w) \<and> (sv_scc v = None \<longleftrightarrow> ns) \<and>
     (\<forall>c. sv_scc v = Some c \<longrightarrow> length c = length (sv_dfnumber v) \<and>
        (\<forall>s < length c. c ! s = (if s \<in> closed_off w t then tj_comp t s else no_state)))"

lemma sv_tablesD:
  assumes "sv_tables ns n w t v"
  shows "length (sv_lowlink v) = length (sv_dfnumber v)" "length (sv_dfnumber v) \<le> n"
    "s \<in> seen w \<Longrightarrow> s < length (sv_dfnumber v)" "s \<in> seen w \<Longrightarrow> sv_dfnumber v ! s = of_nat (tj_d t s)"
    "s \<in> set (grey w) \<Longrightarrow> sv_lowlink v ! s = of_nat (tj_low t s)"
    "bs_ok (sv_onstack v)" "members (sv_onstack v) = set (tj_stack t)" "sv_scc_stack v = tj_stack t"
    "sv_nscc v = tj_k t" "sv_nstates v = card (seen w)"
    "sv_scc v = Some c \<Longrightarrow> length c = length (sv_dfnumber v)"
    "sv_scc v = Some c \<Longrightarrow> s < length (sv_dfnumber v) \<Longrightarrow>
       c ! s = (if s \<in> closed_off w t then tj_comp t s else no_state)"
    "sv_scc v = None \<longleftrightarrow> ns"
  using assms unfolding sv_tables_def by auto

definition access_is :: "bool \<Rightarrow> state_id set \<Rightarrow> scc_visitor \<Rightarrow> bool" where
  "access_is na acc v \<longleftrightarrow> (sv_access v = None \<longleftrightarrow> na) \<and> (\<forall>a. sv_access v = Some a \<longrightarrow> bs_ok a \<and> members a = acc)"

lemma access_is_cong: "access_is na acc v \<Longrightarrow> sv_access u = sv_access v \<Longrightarrow> access_is na acc u"
  by (simp add: access_is_def)

text \<open>The word being built, bit by bit.\<close>

definition dfs_bits :: "bool \<Rightarrow> 64 word \<Rightarrow> bool \<Rightarrow> bool \<Rightarrow> bool \<Rightarrow> bool \<Rightarrow> 64 word \<Rightarrow> bool" where
  "dfs_bits want p0 cyc icyc nacc nco p \<longleftrightarrow> (\<forall>i < 64. bit p i \<longleftrightarrow>
     (if i = 34 then cyc else if i = 35 then \<not> cyc else if i = 36 then icyc else if i = 37 then \<not> icyc
      else if i = 40 then \<not> nacc else if i = 41 then nacc
      else if want \<and> i = 42 then \<not> nco else if want \<and> i = 43 then nco else bit p0 i))"

lemma dfs_bits_run:
  "dfs_bits want p0 False False False False
     (refute want K_CO_ACCESSIBLE K_NOT_CO_ACCESSIBLE
       (refute True (K_ACYCLIC OR K_INITIAL_ACYCLIC OR K_ACCESSIBLE) (K_CYCLIC OR K_INITIAL_CYCLIC OR K_NOT_ACCESSIBLE) p0))"
  "dfs_bits want p0 cyc icyc nacc nco p \<Longrightarrow>
     dfs_bits want p0 cyc icyc True nco (refute True K_NOT_ACCESSIBLE K_ACCESSIBLE p)"
  "dfs_bits want p0 cyc icyc nacc nco p \<Longrightarrow> dfs_bits want p0 True icyc nacc nco (refute True K_CYCLIC K_ACYCLIC p)"
  "dfs_bits want p0 cyc icyc nacc nco p \<Longrightarrow>
     dfs_bits want p0 cyc (icyc \<or> b) nacc nco (refute b K_INITIAL_CYCLIC K_INITIAL_ACYCLIC p)"
  "dfs_bits want p0 cyc icyc nacc nco p \<Longrightarrow>
     dfs_bits want p0 cyc icyc nacc (nco \<or> want \<and> \<not> b) (refute (want \<and> \<not> b) K_NOT_CO_ACCESSIBLE K_CO_ACCESSIBLE p)"
  by (auto simp: dfs_bits_def bit_refute word_bits)

section \<open>Numbers as 32-bit words\<close>

lemma u32_less: "a < 2 ^ 32 \<Longrightarrow> b < 2 ^ 32 \<Longrightarrow> (of_nat a :: 32 word) < of_nat b \<longleftrightarrow> a < b"
  by (simp add: word_less_nat_alt unsigned_of_nat take_bit_nat_eq_self)

lemma u32_eq: "a < 2 ^ 32 \<Longrightarrow> b < 2 ^ 32 \<Longrightarrow> (of_nat a :: 32 word) = of_nat b \<longleftrightarrow> a = b"
  by (metis linorder_neq_iff u32_less)

lemma tj_bounds:
  assumes v: "view_ok n E w" and ok: "tj_ok E w t" and n: "n \<le> 2 ^ 32"
  shows "s \<in> seen w \<Longrightarrow> tj_d t s < 2 ^ 32" "g \<in> set (grey w) \<Longrightarrow> tj_low t g < 2 ^ 32" "card (seen w) \<le> n"
    "tj_k t \<le> n"
proof -
  have sh: "tj_shape w t" using ok by (simp add: tj_ok_def)
  have "seen w \<subseteq> {..<n}" using v by (simp add: view_ok_def)
  then show c: "card (seen w) \<le> n" using card_mono [of "{..<n}" "seen w"] by simp
  show d: "s \<in> seen w \<Longrightarrow> tj_d t s < 2 ^ 32" for s using shapeD(5) [OF sh, of s] c n by linarith
  show "g \<in> set (grey w) \<Longrightarrow> tj_low t g < 2 ^ 32"
  proof -
    assume "g \<in> set (grey w)"
    then obtain u where "u \<in> set (tj_stack t)" "tj_low t g = tj_d t u"
      using ok unfolding tj_ok_def tj_low_sound_def by blast
    then show ?thesis using d shapeD(2) [OF sh] by metis
  qed
  have "tj_comp t ` closed_off w t = {..<tj_k t}" using ok by (simp add: tj_ok_def tj_comps_def)
  moreover have "finite (closed_off w t)" using finite_seen [OF v] by (simp add: closed_off_def)
  ultimately have "tj_k t \<le> card (closed_off w t)" by (metis card_image_le card_lessThan)
  also have "\<dots> \<le> card (seen w)" using finite_seen [OF v] by (intro card_mono) (auto simp: closed_off_def)
  finally show "tj_k t \<le> n" using c by simp
qed

section \<open>A state is met\<close>

lemma sv_grow_run:
  fixes v s
  defines "u \<equiv> sv_grow s v"
  assumes len: "length (sv_lowlink v) = length (sv_dfnumber v)"
  shows "length (sv_dfnumber u) = max (length (sv_dfnumber v)) (s + 1)" "length (sv_lowlink u) = length (sv_dfnumber u)"
    "i < length (sv_dfnumber v) \<Longrightarrow> sv_dfnumber u ! i = sv_dfnumber v ! i"
    "i < length (sv_dfnumber v) \<Longrightarrow> sv_lowlink u ! i = sv_lowlink v ! i"
    "sv_scc v = None \<Longrightarrow> sv_scc u = None"
    "sv_scc v = Some c \<Longrightarrow> length c = length (sv_dfnumber v) \<Longrightarrow> \<exists>d. sv_scc u = Some d \<and> length d = length (sv_dfnumber u) \<and>
       (\<forall>i < length d. d ! i = (if i < length c then c ! i else no_state))"
    "access_is na acc v \<Longrightarrow> access_is na acc u"
    "bs_ok (sv_coaccess v) \<Longrightarrow> bs_ok (sv_coaccess u) \<and> members (sv_coaccess u) = members (sv_coaccess v)"
    "sv_props u = sv_props v" "sv_building u = sv_building v" "sv_start u = sv_start v" "sv_nstates u = sv_nstates v"
    "sv_nscc u = sv_nscc v" "sv_onstack u = sv_onstack v" "sv_scc_stack u = sv_scc_stack v"
    "sv_want_coaccess u = sv_want_coaccess v"
  using len ensure_run [of "sv_coaccess v"]
  by (auto simp: u_def sv_grow_def nth_vresize access_is_def ensure_run)

lemma closed_off_discover:
  "r \<notin> seen w \<Longrightarrow> closed_off (discovered w r) (tj_discover w r t) = closed_off w t"
  by (auto simp: closed_off_def tj_discover_def)

lemma on_access_run:
  assumes "access_is na acc v" "\<And>a. bs_ok a \<Longrightarrow> members a = acc \<Longrightarrow> \<exists>b c. opr a = Some (b, c) \<and> bs_ok b \<and> members b = acc'"
  shows "\<exists>a. on_access opr v = Some (v\<lparr>sv_access := a\<rparr>) \<and> access_is na acc' (v\<lparr>sv_access := a\<rparr>)"
proof (cases "sv_access v")
  case None
  have "v\<lparr>sv_access := None\<rparr> = v" using None by simp
  then show ?thesis using None assms(1) by (auto simp: on_access_def access_is_def intro!: exI [of _ None])
next
  case (Some a)
  then have "bs_ok a" "members a = acc" using assms(1) by (auto simp: access_is_def)
  then obtain b c where "opr a = Some (b, c)" "bs_ok b" "members b = acc'" using assms(2) by blast
  then show ?thesis using Some assms(1) by (auto simp: on_access_def access_is_def intro!: exI [of _ "Some b"])
qed

lemma init_state_run:
  assumes v: "view_ok n E w" and ok: "tj_ok E w t" and tab: "sv_tables ns n w t v" and r: "r \<notin> seen w" "r < n"
    and acc: "access_is na acc v" and co: "bs_ok (sv_coaccess v)"
  shows "\<exists>u. sv_init_state v r root = Some (u, True) \<and> sv_tables ns n (discovered w r) (tj_discover w r t) u \<and>
    access_is na (if Some root = sv_start v then insert r acc else acc - {r}) u \<and>
    bs_ok (sv_coaccess u) \<and> members (sv_coaccess u) = members (sv_coaccess v) \<and>
    sv_start u = sv_start v \<and> sv_want_coaccess u = sv_want_coaccess v \<and>
    sv_building u = (if Some root = sv_start v then sv_building v else refute True K_NOT_ACCESSIBLE K_ACCESSIBLE (sv_building v))"
proof -
  note T = sv_tablesD [OF tab]
  define v1 where "v1 = sv_grow r (v\<lparr>sv_scc_stack := r # sv_scc_stack v\<rparr>)"
  note G = sv_grow_run [where v = "v\<lparr>sv_scc_stack := r # sv_scc_stack v\<rparr>" and s = r, folded v1_def, simplified, OF T(1)]
  let ?d = "(sv_dfnumber v1)[r := of_nat (sv_nstates v)]" and ?l = "(sv_lowlink v1)[r := of_nat (sv_nstates v)]"
  obtain os b where os: "gbs_insert (sv_onstack v1) r = Some (os, b)" "bs_ok os" "members os = insert r (set (tj_stack t))"
    using gbs_insert_run [of "sv_onstack v1" r] T(6,7) G(14) by auto
  define v2 where "v2 = v1\<lparr>sv_dfnumber := ?d, sv_lowlink := ?l, sv_onstack := os\<rparr>"
  have "access_is na acc (v\<lparr>sv_scc_stack := r # sv_scc_stack v\<rparr>)" by (rule access_is_cong [OF acc]) simp
  then have "access_is na acc v1" by (rule G(7))
  then have acc1: "access_is na acc v2" by (rule access_is_cong) (simp add: v2_def)
  let ?acc = "if Some root = sv_start v then insert r acc else acc - {r}"
  have op: "\<exists>b c. (if Some root = sv_start v then gbs_insert a r else gbs_remove a r) = Some (b, c) \<and> bs_ok b \<and> members b = ?acc"
    if "bs_ok a" "members a = acc" for a
    using that gbs_insert_run [of a r] gbs_remove_run [of a r] by auto
  obtain a where a: "on_access (\<lambda>b. if Some root = sv_start v then gbs_insert b r else gbs_remove b r) v2 =
      Some (v2\<lparr>sv_access := a\<rparr>)" "access_is na ?acc (v2\<lparr>sv_access := a\<rparr>)"
    using on_access_run [OF acc1, where opr = "\<lambda>b. if Some root = sv_start v then gbs_insert b r else gbs_remove b r" and acc' = ?acc, OF op]
    by blast
  define u where "u = (if Some root = sv_start v then v2\<lparr>sv_access := a, sv_nstates := sv_nstates v + 1\<rparr>
     else v2\<lparr>sv_access := a, sv_building := refute True K_NOT_ACCESSIBLE K_ACCESSIBLE (sv_building v),
       sv_nstates := sv_nstates v + 1\<rparr>)"
  have "sv_building v2 = sv_building v" "sv_nstates v2 = sv_nstates v"
    using G(10-12) by (simp_all add: v2_def)
  then have run: "sv_init_state v r root = Some (u, True)"
    using os(1) a(1) G(1,2,11,12) unfolding sv_init_state_def v1_def [symmetric]
    by (cases "Some root = sv_start v") (simp_all add: v2_def [symmetric] u_def)
  have U: "sv_dfnumber u = ?d" "sv_lowlink u = ?l" "sv_scc u = sv_scc v1" "sv_onstack u = os" "sv_access u = a"
      "sv_scc_stack u = r # sv_scc_stack v" "sv_nscc u = sv_nscc v" "sv_nstates u = sv_nstates v + 1"
      "sv_start u = sv_start v" "sv_coaccess u = sv_coaccess v1" "sv_want_coaccess u = sv_want_coaccess v"
    using G(11,12,13,15,16) by (simp_all add: u_def v2_def)
  have seen1: "card (insert r (seen w)) = card (seen w) + 1" using r(1) finite_seen [OF v] by simp
  have tab': "sv_tables ns n (discovered w r) (tj_discover w r t) u"
  proof -
    have len: "length (sv_dfnumber u) = max (length (sv_dfnumber v)) (r + 1)" "length (sv_lowlink u) = length (sv_dfnumber u)"
      using G(1,2) by (simp_all add: U)
    have df: "s < length (sv_dfnumber u) \<and> sv_dfnumber u ! s = of_nat (tj_d (tj_discover w r t) s)"
      if "s \<in> insert r (seen w)" for s
    proof (cases "s = r")
      case False
      then have "s \<in> seen w" using that by simp
      then show ?thesis using T(3,4) [of s] G(3) [of s] G(1) False by (simp add: U tj_discover_def)
    qed (simp add: U G(1) T(10) tj_discover_def)
    have gs: "set (grey w) \<subseteq> seen w" by (auto simp: seen_def)
    have low: "sv_lowlink u ! s = of_nat (tj_low (tj_discover w r t) s)" if "s \<in> set (r # grey w)" for s
    proof (cases "s = r")
      case False
      then have "s \<in> set (grey w)" using that by simp
      then show ?thesis using T(3,5) [of s] G(4) [of s] gs False by (auto simp: U tj_discover_def)
    qed (use G(1,2) in \<open>simp add: U T(10) tj_discover_def\<close>)
    have scc: "length c = length (sv_dfnumber u) \<and> (\<forall>s < length c. c ! s = (if s \<in> closed_off w t then tj_comp t s else no_state))"
      if "sv_scc u = Some c" for c
    proof -
      have c: "sv_scc v1 = Some c" using that by (simp add: U)
      then obtain c0 where c0: "sv_scc v = Some c0" using G(5) by (cases "sv_scc v") auto
      have l0: "length c0 = length (sv_dfnumber v)" using T(11) [OF c0] .
      obtain d where d: "sv_scc v1 = Some d" "length d = length (sv_dfnumber v1)"
          "\<forall>i < length d. d ! i = (if i < length c0 then c0 ! i else no_state)"
        using G(6) [OF c0 l0] by blast
      have "d = c" using c d(1) by simp
      have "c ! s = (if s \<in> closed_off w t then tj_comp t s else no_state)" if s: "s < length c" for s
      proof (cases "s < length c0")
        case True
        then show ?thesis using d(3) s \<open>d = c\<close> T(12) [OF c0, of s] l0 by simp
      next
        case False
        then have "s \<notin> closed_off w t" using T(3) [of s] l0 by (auto simp: closed_off_def)
        then show ?thesis using d(3) s False \<open>d = c\<close> by simp
      qed
      then show ?thesis using d(2) \<open>d = c\<close> G(1,2) len by simp
    qed
    show ?thesis
      unfolding sv_tables_def closed_off_discover [OF r(1)] discovered_simps
    proof (intro conjI)
      show "\<forall>s \<in> insert r (seen w). s < length (sv_dfnumber u) \<and> sv_dfnumber u ! s = of_nat (tj_d (tj_discover w r t) s)"
        using df by blast
      show "\<forall>s \<in> set (r # grey w). sv_lowlink u ! s = of_nat (tj_low (tj_discover w r t) s)" using low by blast
      show "\<forall>c. sv_scc u = Some c \<longrightarrow> length c = length (sv_dfnumber u) \<and>
          (\<forall>s < length c. c ! s = (if s \<in> closed_off w t then tj_comp (tj_discover w r t) s else no_state))"
        using scc by (simp add: tj_discover_def)
      show "sv_scc u = None \<longleftrightarrow> ns"
        using G(5) G(6) T(11,13) by (cases "sv_scc v") (auto simp: U)
    qed (use len T(2,8,9,10) r(2) os(2,3) seen1 in \<open>simp_all add: U tj_discover_def\<close>)
  qed
  have "access_is na ?acc u" by (rule access_is_cong [OF a(2)]) (simp add: U)
  moreover have "bs_ok (sv_coaccess u) \<and> members (sv_coaccess u) = members (sv_coaccess v)"
    using G(8) co by (simp add: U)
  moreover have "sv_start u = sv_start v \<and> sv_want_coaccess u = sv_want_coaccess v"
    by (simp add: U)
  moreover have "sv_building u = (if Some root = sv_start v then sv_building v
      else refute True K_NOT_ACCESSIBLE K_ACCESSIBLE (sv_building v))"
    using G(10) by (simp add: u_def v2_def)
  ultimately show ?thesis using run tab' by blast
qed

section \<open>An arc is walked\<close>

lemma spread_run:
  assumes "bs_ok (sv_coaccess v)"
  shows "\<exists>co. sv_spread t s v = Some (v\<lparr>sv_coaccess := co\<rparr>) \<and> bs_ok co \<and>
    (sv_want_coaccess v \<longrightarrow> members co = (if t \<in> members (sv_coaccess v) then insert s (members (sv_coaccess v))
       else members (sv_coaccess v)))"
proof (cases "sv_want_coaccess v \<and> t \<in> members (sv_coaccess v)")
  case True
  then show ?thesis using gbs_contains_run [OF assms, of t] gbs_insert_run [OF assms, of s] by (auto simp: sv_spread_def)
next
  case False
  have "v\<lparr>sv_coaccess := sv_coaccess v\<rparr> = v" by simp
  then show ?thesis using False assms gbs_contains_run [OF assms, of t]
    by (intro exI [of _ "sv_coaccess v"]) (auto simp: sv_spread_def)
qed

text \<open>What the tables have to do with the rest of the visitor: nothing.\<close>

lemma sv_tables_cong:
  "sv_tables ns n w t v \<Longrightarrow> sv_scc u = sv_scc v \<Longrightarrow> sv_nstates u = sv_nstates v \<Longrightarrow> sv_nscc u = sv_nscc v \<Longrightarrow>
     sv_dfnumber u = sv_dfnumber v \<Longrightarrow> sv_lowlink u = sv_lowlink v \<Longrightarrow> sv_onstack u = sv_onstack v \<Longrightarrow>
     sv_scc_stack u = sv_scc_stack v \<Longrightarrow> sv_tables ns n w t u"
  by (simp add: sv_tables_def)

lemma sv_tables_walked: "sv_tables ns n (w\<lparr>walked := W\<rparr>) t v \<longleftrightarrow> sv_tables ns n w t v"
  by (simp add: sv_tables_def seen_def closed_off_def)

text \<open>Both kinds of arc lower the low link the same way, since grey states are on the component stack.\<close>

lemma lower_tables:
  assumes v: "view_ok n E w" and ok: "tj_ok E w t" and tab: "sv_tables ns n w t v" and n: "n \<le> 2 ^ 32"
    and s: "s \<in> set (grey w)" and u: "u \<in> seen w"
  shows "u \<in> set (tj_stack t) \<Longrightarrow> sv_tables ns n w (tj_lower s u t)
      (if sv_dfnumber v ! u < sv_lowlink v ! s then v\<lparr>sv_lowlink := (sv_lowlink v)[s := sv_dfnumber v ! u]\<rparr> else v)"
    "u \<notin> set (tj_stack t) \<Longrightarrow> sv_tables ns n w (tj_lower s u t) v"
proof -
  note T = sv_tablesD [OF tab] and B = tj_bounds [OF v ok n]
  have lt: "sv_dfnumber v ! u < sv_lowlink v ! s \<longleftrightarrow> tj_d t u < tj_low t s"
    using T(4) [OF u] T(5) [OF s] u32_less [OF B(1) [OF u] B(2) [OF s]] by simp
  have sl: "s < length (sv_lowlink v)" using T(1) T(3) [of s] s by (simp add: seen_def)
  assume on: "u \<in> set (tj_stack t)"
  show "sv_tables ns n w (tj_lower s u t)
      (if sv_dfnumber v ! u < sv_lowlink v ! s then v\<lparr>sv_lowlink := (sv_lowlink v)[s := sv_dfnumber v ! u]\<rparr> else v)"
  proof (cases "tj_d t u < tj_low t s")
    case True
    have "sv_tables ns n w (tj_lower s u t) (v\<lparr>sv_lowlink := (sv_lowlink v)[s := sv_dfnumber v ! u]\<rparr>)"
      using tab sl on True T(4) [OF u]
      by (auto simp: sv_tables_def nth_list_update closed_off_def min_def)
    then show ?thesis using True lt by simp
  qed (use tab lt in \<open>simp add: tj_lower_def\<close>)
next
  assume "u \<notin> set (tj_stack t)"
  then show "sv_tables ns n w (tj_lower s u t) v" using tab by (simp add: tj_lower_def)
qed

lemma back_arc_run:
  fixes a :: "'w arc"
  assumes v: "view_ok n E w" and ok: "tj_ok E w t" and tab: "sv_tables ns n w t v" and n: "n \<le> 2 ^ 32"
    and g: "grey w = s # gs" and u: "nextstate a \<in> set (grey w)" and co: "bs_ok (sv_coaccess v)"
  shows "\<exists>x. sv_back_arc v s a = Some (x, True) \<and> sv_tables ns n w (tj_lower s (nextstate a) t) x \<and>
    sv_access x = sv_access v \<and> sv_start x = sv_start v \<and> sv_want_coaccess x = sv_want_coaccess v \<and> bs_ok (sv_coaccess x) \<and>
    (sv_want_coaccess v \<longrightarrow> members (sv_coaccess x) = (if nextstate a \<in> members (sv_coaccess v)
       then insert s (members (sv_coaccess v)) else members (sv_coaccess v))) \<and>
    sv_building x = refute (Some (nextstate a) = sv_start v) K_INITIAL_CYCLIC K_INITIAL_ACYCLIC
      (refute True K_CYCLIC K_ACYCLIC (sv_building v))"
proof -
  note T = sv_tablesD [OF tab]
  have sh: "tj_shape w t" using ok by (simp add: tj_ok_def)
  have seen: "nextstate a \<in> seen w" "s \<in> seen w" using u g by (auto simp: seen_def)
  let ?v1 = "if sv_dfnumber v ! nextstate a < sv_lowlink v ! s
    then v\<lparr>sv_lowlink := (sv_lowlink v)[s := sv_dfnumber v ! nextstate a]\<rparr> else v"
  have tab1: "sv_tables ns n w (tj_lower s (nextstate a) t) ?v1"
    using lower_tables(1) [OF v ok tab n _ seen(1) shapeD(1) [OF sh u]] g by simp
  have co1: "bs_ok (sv_coaccess ?v1)" "sv_coaccess ?v1 = sv_coaccess v" "sv_want_coaccess ?v1 = sv_want_coaccess v"
    using co by simp_all
  obtain c where c: "sv_spread (nextstate a) s ?v1 = Some (?v1\<lparr>sv_coaccess := c\<rparr>)" "bs_ok c"
      "sv_want_coaccess v \<longrightarrow> members c = (if nextstate a \<in> members (sv_coaccess v)
         then insert s (members (sv_coaccess v)) else members (sv_coaccess v))"
    using spread_run [OF co1(1), of "nextstate a" s] unfolding co1(2,3) by blast
  let ?x = "?v1\<lparr>sv_coaccess := c, sv_building := refute (Some (nextstate a) = sv_start v) K_INITIAL_CYCLIC K_INITIAL_ACYCLIC
      (refute True K_CYCLIC K_ACYCLIC (sv_building v))\<rparr>"
  have "sv_building ?v1 = sv_building v" "sv_start ?v1 = sv_start v" by simp_all
  then have "sv_back_arc v s a = Some (?x, True)"
    using c(1) T(1) T(3) [OF seen(1)] T(3) [OF seen(2)] unfolding sv_back_arc_def Let_def by simp
  moreover have "sv_tables ns n w (tj_lower s (nextstate a) t) ?x" by (rule sv_tables_cong [OF tab1]) simp_all
  ultimately show ?thesis using c(2,3) by (intro exI [of _ ?x]) simp
qed

lemma cross_arc_run:
  fixes a :: "'w arc"
  assumes v: "view_ok n E w" and ok: "tj_ok E w t" and tab: "sv_tables ns n w t v" and n: "n \<le> 2 ^ 32"
    and g: "grey w = s # gs" and u: "nextstate a \<in> black w" and co: "bs_ok (sv_coaccess v)"
  shows "\<exists>x. sv_forward_or_cross_arc v s a = Some (x, True) \<and> sv_tables ns n w (tj_lower s (nextstate a) t) x \<and>
    sv_access x = sv_access v \<and> sv_start x = sv_start v \<and> sv_want_coaccess x = sv_want_coaccess v \<and> bs_ok (sv_coaccess x) \<and>
    (sv_want_coaccess v \<longrightarrow> members (sv_coaccess x) = (if nextstate a \<in> members (sv_coaccess v)
       then insert s (members (sv_coaccess v)) else members (sv_coaccess v))) \<and>
    sv_building x = sv_building v"
proof -
  note T = sv_tablesD [OF tab] and B = tj_bounds [OF v ok n]
  let ?u = "nextstate a"
  have seen: "?u \<in> seen w" "s \<in> seen w" using u g by (auto simp: seen_def)
  have sg: "s \<in> set (grey w)" using g by simp
  have lt: "sv_dfnumber v ! ?u < sv_dfnumber v ! s \<longleftrightarrow> tj_d t ?u < tj_d t s"
    using T(4) [OF seen(1)] T(4) [OF seen(2)] u32_less [OF B(1) [OF seen(1)] B(1) [OF seen(2)]] by simp
  have lt2: "sv_dfnumber v ! ?u < sv_lowlink v ! s \<longleftrightarrow> tj_d t ?u < tj_low t s"
    using T(4) [OF seen(1)] T(5) [OF sg] u32_less [OF B(1) [OF seen(1)] B(2) [OF sg]] by simp
  have le: "tj_low t s \<le> tj_d t s" using ok sg unfolding tj_ok_def tj_low_sound_def by fastforce
  have on: "gbs_contains (sv_onstack v) ?u = Some (?u \<in> set (tj_stack t))"
    using gbs_contains_run [OF T(6)] T(7) by simp
  let ?low = "v\<lparr>sv_lowlink := (sv_lowlink v)[s := sv_dfnumber v ! ?u]\<rparr>"
  let ?v1 = "if ?u \<in> set (tj_stack t) \<and> tj_d t ?u < tj_low t s then ?low else v"
  have tab1: "sv_tables ns n w (tj_lower s ?u t) ?v1"
    using lower_tables [OF v ok tab n sg seen(1)] lt2 by (cases "?u \<in> set (tj_stack t)") simp_all
  have co1: "bs_ok (sv_coaccess ?v1)" "sv_coaccess ?v1 = sv_coaccess v" "sv_want_coaccess ?v1 = sv_want_coaccess v"
    using co by simp_all
  obtain c where c: "sv_spread ?u s ?v1 = Some (?v1\<lparr>sv_coaccess := c\<rparr>)" "bs_ok c"
      "sv_want_coaccess v \<longrightarrow> members c = (if ?u \<in> members (sv_coaccess v)
         then insert s (members (sv_coaccess v)) else members (sv_coaccess v))"
    using spread_run [OF co1(1), of ?u s] unfolding co1(2,3) by blast
  have "vget (sv_dfnumber v) ?u = Some (sv_dfnumber v ! ?u)" "vget (sv_dfnumber v) s = Some (sv_dfnumber v ! s)"
      "vget (sv_lowlink v) s = Some (sv_lowlink v ! s)"
    using T(1) T(3) [OF seen(1)] T(3) [OF seen(2)] by simp_all
  then have "sv_forward_or_cross_arc v s a = Some (?v1\<lparr>sv_coaccess := c\<rparr>, True)"
    unfolding sv_forward_or_cross_arc_def Let_def using lt lt2 le on c(1)
    by (cases "tj_d t ?u < tj_d t s"; cases "?u \<in> set (tj_stack t)"; cases "tj_d t ?u < tj_low t s"; simp)
  moreover have "sv_tables ns n w (tj_lower s ?u t) (?v1\<lparr>sv_coaccess := c\<rparr>)" by (rule sv_tables_cong [OF tab1]) simp_all
  ultimately show ?thesis using c(2,3) by (intro exI [of _ "?v1\<lparr>sv_coaccess := c\<rparr>"]) simp
qed

section \<open>A state is finished\<close>

lemma scan_component_run:
  assumes "bs_ok co" "s \<notin> set xs"
  shows "scan_component co s (xs @ s # ys) b = Some (b \<or> insert s (set xs) \<inter> members co \<noteq> {})"
  using assms(2)
proof (induction xs arbitrary: b)
  case (Cons x xs)
  then show ?case using gbs_contains_run [OF assms(1)] by (cases "x \<in> members co") auto
qed (use gbs_contains_run [OF assms(1)] in auto)

lemma pop_component_run:
  assumes "s \<notin> set xs" "bs_ok (sv_coaccess v)" "bs_ok (sv_onstack v)"
    and "\<forall>c. sv_scc v = Some c \<longrightarrow> (\<forall>x \<in> insert s (set xs). x < length c)"
  shows "\<exists>scc co os. pop_component s b (xs @ s # ys) v =
      Some (v\<lparr>sv_scc_stack := ys, sv_scc := scc, sv_coaccess := co, sv_onstack := os\<rparr>) \<and>
    bs_ok co \<and> members co = (if b then members (sv_coaccess v) \<union> insert s (set xs) else members (sv_coaccess v)) \<and>
    bs_ok os \<and> members os = members (sv_onstack v) - insert s (set xs) \<and>
    (case sv_scc v of None \<Rightarrow> scc = None
     | Some c \<Rightarrow> \<exists>d. scc = Some d \<and> length d = length c \<and>
         (\<forall>i < length c. d ! i = (if i \<in> insert s (set xs) then sv_nscc v else c ! i)))"
  using assms
proof (induction xs arbitrary: v)
  case Nil
  obtain os o1 where os: "gbs_remove (sv_onstack v) s = Some (os, o1)" "bs_ok os" "members os = members (sv_onstack v) - {s}"
    using gbs_remove_run [OF Nil.prems(3), of s] by blast
  obtain co c1 where co: "(if b then gbs_insert (sv_coaccess v) s else Some (sv_coaccess v, False)) = Some (co, c1)" "bs_ok co"
      "members co = (if b then insert s (members (sv_coaccess v)) else members (sv_coaccess v))"
    using gbs_insert_run [OF Nil.prems(2), of s] Nil.prems(2) by (cases b) auto
  define scc where "scc = map_option (\<lambda>c. c[s := sv_nscc v]) (sv_scc v)"
  have scc: "(case sv_scc v of None \<Rightarrow> Some None | Some c \<Rightarrow> map_option Some (vset c s (sv_nscc v))) = Some scc"
    using Nil.prems(4) by (cases "sv_scc v") (auto simp: scc_def)
  have "pop_component s b ([] @ s # ys) v =
      Some (v\<lparr>sv_scc_stack := ys, sv_scc := scc, sv_coaccess := co, sv_onstack := os\<rparr>)"
    using scc os(1) co(1) by simp
  moreover have "case sv_scc v of None \<Rightarrow> scc = None
     | Some c \<Rightarrow> \<exists>d. scc = Some d \<and> length d = length c \<and>
         (\<forall>i < length c. d ! i = (if i \<in> insert s (set []) then sv_nscc v else c ! i))"
    by (cases "sv_scc v") (auto simp: scc_def nth_list_update)
  moreover have "members co = (if b then members (sv_coaccess v) \<union> insert s (set []) else members (sv_coaccess v))"
    "members os = members (sv_onstack v) - insert s (set [])"
    using co(3) os(3) by simp_all
  ultimately show ?case using os(2) co(2) by blast
next
  case (Cons x xs)
  have sx: "s \<noteq> x" "s \<notin> set xs" using Cons.prems(1) by auto
  obtain os o1 where os: "gbs_remove (sv_onstack v) x = Some (os, o1)" "bs_ok os" "members os = members (sv_onstack v) - {x}"
    using gbs_remove_run [OF Cons.prems(3), of x] by blast
  obtain co c1 where co: "(if b then gbs_insert (sv_coaccess v) x else Some (sv_coaccess v, False)) = Some (co, c1)" "bs_ok co"
      "members co = (if b then insert x (members (sv_coaccess v)) else members (sv_coaccess v))"
    using gbs_insert_run [OF Cons.prems(2), of x] Cons.prems(2) by (cases b) auto
  define scc where "scc = map_option (\<lambda>c. c[x := sv_nscc v]) (sv_scc v)"
  have scc: "(case sv_scc v of None \<Rightarrow> Some None | Some c \<Rightarrow> map_option Some (vset c x (sv_nscc v))) = Some scc"
    using Cons.prems(4) by (cases "sv_scc v") (auto simp: scc_def)
  define v1 where "v1 = v\<lparr>sv_scc_stack := xs @ s # ys, sv_scc := scc, sv_coaccess := co, sv_onstack := os\<rparr>"
  have step: "pop_component s b ((x # xs) @ s # ys) v = pop_component s b (xs @ s # ys) v1"
    using scc os(1) co(1) sx(1) by (simp add: v1_def)
  have "\<forall>c. sv_scc v1 = Some c \<longrightarrow> (\<forall>y \<in> insert s (set xs). y < length c)"
    using Cons.prems(4) by (auto simp: v1_def scc_def)
  then obtain scc' co' os' where ih: "pop_component s b (xs @ s # ys) v1 =
        Some (v1\<lparr>sv_scc_stack := ys, sv_scc := scc', sv_coaccess := co', sv_onstack := os'\<rparr>)"
      "bs_ok co'" "members co' = (if b then members (sv_coaccess v1) \<union> insert s (set xs) else members (sv_coaccess v1))"
      "bs_ok os'" "members os' = members (sv_onstack v1) - insert s (set xs)"
      "case sv_scc v1 of None \<Rightarrow> scc' = None
       | Some c \<Rightarrow> \<exists>d. scc' = Some d \<and> length d = length c \<and>
           (\<forall>i < length c. d ! i = (if i \<in> insert s (set xs) then sv_nscc v1 else c ! i))"
    using Cons.IH [OF sx(2), of v1] os(2) co(2) by (auto simp: v1_def)
  have "pop_component s b ((x # xs) @ s # ys) v =
      Some (v\<lparr>sv_scc_stack := ys, sv_scc := scc', sv_coaccess := co', sv_onstack := os'\<rparr>)"
    using step ih(1) by (simp add: v1_def)
  moreover have "members co' = (if b then members (sv_coaccess v) \<union> insert s (set (x # xs)) else members (sv_coaccess v))"
    using ih(3) co(3) by (auto simp: v1_def)
  moreover have "members os' = members (sv_onstack v) - insert s (set (x # xs))"
    using ih(5) os(3) by (auto simp: v1_def)
  moreover have "case sv_scc v of None \<Rightarrow> scc' = None
     | Some c \<Rightarrow> \<exists>d. scc' = Some d \<and> length d = length c \<and>
         (\<forall>i < length c. d ! i = (if i \<in> insert s (set (x # xs)) then sv_nscc v else c ! i))"
    using ih(6) by (cases "sv_scc v") (auto simp: v1_def scc_def nth_list_update)
  ultimately show ?case using ih(2,4) by blast
qed

lemma closed_off_close:
  assumes v: "view_ok n E w" and ok: "tj_ok E w t" and g: "grey w = s # gs"
  shows "closed_off (finished w s gs) (tj_close s t) = closed_off w t \<union> above s t"
proof -
  have sh: "tj_shape w t" using ok by (simp add: tj_ok_def)
  have sT: "s \<in> set (tj_stack t)" using shapeD(1) [OF sh] g by simp
  have "set (tj_stack (tj_close s t)) = {u \<in> set (tj_stack t). tj_d t u < tj_d t s}"
    using split_stack [OF shapeD(3) [OF sh] sT] by (auto simp: tj_close_def)
  then show ?thesis
    unfolding closed_off_def seen_finished [OF g] using shapeD(2) [OF sh] by (auto simp: above_def)
qed

lemma close_run:
  assumes v: "view_ok n E w" and ok: "tj_ok E w t" and tab: "sv_tables ns n w t v" and g: "grey w = s # gs"
    and co: "bs_ok (sv_coaccess v)"
  shows "\<exists>x. sv_close s v = Some x \<and> sv_tables ns n (finished w s gs) (tj_close s t) x \<and>
    sv_access x = sv_access v \<and> sv_start x = sv_start v \<and> sv_want_coaccess x = sv_want_coaccess v \<and> bs_ok (sv_coaccess x) \<and>
    sv_lowlink x = sv_lowlink v \<and>
    (sv_want_coaccess v \<longrightarrow> members (sv_coaccess x) = co_spread s t (members (sv_coaccess v))) \<and>
    sv_building x = refute (sv_want_coaccess v \<and> \<not> above s t \<inter> members (sv_coaccess v) \<noteq> {})
      K_NOT_CO_ACCESSIBLE K_CO_ACCESSIBLE (sv_building v)"
proof -
  note T = sv_tablesD [OF tab]
  have sh: "tj_shape w t" using ok by (simp add: tj_ok_def)
  have sT: "s \<in> set (tj_stack t)" using shapeD(1) [OF sh] g by simp
  let ?ys = "tl (dropWhile (\<lambda>u. u \<noteq> s) (tj_stack t))"
  obtain xs where xs: "tj_stack t = xs @ s # ?ys" "s \<notin> set xs" "above s t = insert s (set xs)"
      "set ?ys = {u \<in> set (tj_stack t). tj_d t u < tj_d t s}"
    using split_stack [OF shapeD(3) [OF sh] sT] by blast
  let ?b = "sv_want_coaccess v \<and> above s t \<inter> members (sv_coaccess v) \<noteq> {}"
  have scan: "(if sv_want_coaccess v then scan_component (sv_coaccess v) s (sv_scc_stack v) False else Some False) = Some ?b"
    using scan_component_run [OF co xs(2), of ?ys False] xs(1,3) T(8) by simp
  have above_seen: "insert s (set xs) \<subseteq> seen w" using xs(3) shapeD(2) [OF sh] by (auto simp: above_def)
  then have rng: "\<forall>c. sv_scc v = Some c \<longrightarrow> (\<forall>x \<in> insert s (set xs). x < length c)"
    using T(3,11) by (metis subsetD)
  obtain scc coa os where pop: "pop_component s ?b (xs @ s # ?ys) v =
        Some (v\<lparr>sv_scc_stack := ?ys, sv_scc := scc, sv_coaccess := coa, sv_onstack := os\<rparr>)"
      "bs_ok coa" "members coa = (if ?b then members (sv_coaccess v) \<union> insert s (set xs) else members (sv_coaccess v))"
      "bs_ok os" "members os = members (sv_onstack v) - insert s (set xs)"
      "case sv_scc v of None \<Rightarrow> scc = None
       | Some c \<Rightarrow> \<exists>d. scc = Some d \<and> length d = length c \<and>
           (\<forall>i < length c. d ! i = (if i \<in> insert s (set xs) then sv_nscc v else c ! i))"
    using pop_component_run [OF xs(2) co T(6) rng, of ?b ?ys] by blast
  define x where "x = v\<lparr>sv_scc_stack := ?ys, sv_scc := scc, sv_coaccess := coa, sv_onstack := os,
    sv_building := refute (sv_want_coaccess v \<and> \<not> ?b) K_NOT_CO_ACCESSIBLE K_CO_ACCESSIBLE (sv_building v),
    sv_nscc := sv_nscc v + 1\<rparr>"
  have run: "sv_close s v = Some x"
    using scan pop(1) T(8) xs(1) by (simp add: sv_close_def x_def)
  have off: "closed_off (finished w s gs) (tj_close s t) = closed_off w t \<union> above s t"
    using closed_off_close [OF v ok g] .
  have disj: "closed_off w t \<inter> above s t = {}" by (auto simp: closed_off_def above_def)
  have scc: "length d = length (sv_dfnumber v) \<and> (\<forall>i < length d. d ! i =
      (if i \<in> closed_off w t \<union> above s t then tj_comp (tj_close s t) i else no_state))" if sd: "scc = Some d" for d
  proof -
    obtain c where c: "sv_scc v = Some c" using pop(6) sd by (cases "sv_scc v") auto
    have d: "length d = length c" "\<And>i. i < length c \<Longrightarrow> d ! i = (if i \<in> above s t then sv_nscc v else c ! i)"
      using pop(6) sd c xs(3) by auto
    have "d ! i = (if i \<in> closed_off w t \<union> above s t then tj_comp (tj_close s t) i else no_state)" if i: "i < length d" for i
      using d(2) [of i] d(1) i T(12) [OF c, of i] T(11) [OF c] T(9) disj
      by (cases "i \<in> above s t") (auto simp: tj_close_def)
    then show ?thesis using d(1) T(11) [OF c] by simp
  qed
  have "set (tj_stack (tj_close s t)) = set (tj_stack t) - insert s (set xs)"
    using xs(3,4) by (auto simp: tj_close_def above_def)
  then have tab': "sv_tables ns n (finished w s gs) (tj_close s t) x"
    unfolding sv_tables_def seen_finished [OF g] off
  proof (intro conjI)
    show "\<forall>u \<in> seen w. u < length (sv_dfnumber x) \<and> sv_dfnumber x ! u = of_nat (tj_d (tj_close s t) u)"
      using T(3,4) by (simp add: x_def tj_close_def)
    show "\<forall>u \<in> set (grey (finished w s gs)). sv_lowlink x ! u = of_nat (tj_low (tj_close s t) u)"
      using T(5) g by (simp add: x_def tj_close_def)
    show "\<forall>c. sv_scc x = Some c \<longrightarrow> length c = length (sv_dfnumber x) \<and>
        (\<forall>i < length c. c ! i = (if i \<in> closed_off w t \<union> above s t then tj_comp (tj_close s t) i else no_state))"
      using scc by (simp add: x_def)
    show "sv_scc x = None \<longleftrightarrow> ns" using pop(6) T(13) by (cases "sv_scc v") (auto simp: x_def)
  qed (use T(1,2,7,9,10) pop(4,5) in \<open>simp_all add: x_def tj_close_def\<close>)
  moreover have "sv_want_coaccess v \<longrightarrow> members (sv_coaccess x) = co_spread s t (members (sv_coaccess v))"
    using pop(3) xs(3) by (auto simp: x_def co_spread_def)
  moreover have "sv_building x = refute (sv_want_coaccess v \<and> \<not> above s t \<inter> members (sv_coaccess v) \<noteq> {})
      K_NOT_CO_ACCESSIBLE K_CO_ACCESSIBLE (sv_building v)"
    by (cases "sv_want_coaccess v") (simp_all add: x_def)
  ultimately show ?thesis using run pop(2) by (intro exI [of _ x]) (simp add: x_def)
qed

text \<open>Passing what was found on to the parent.\<close>

lemma offer_run:
  assumes co: "bs_ok (sv_coaccess v)" and len: "s < length (sv_lowlink v)" "p < length (sv_lowlink v)"
  shows "\<exists>c. (do { v \<leftarrow> sv_spread s p v; low \<leftarrow> vget (sv_lowlink v) s; plow \<leftarrow> vget (sv_lowlink v) p;
        Some (if low < plow then v\<lparr>sv_lowlink := (sv_lowlink v)[p := low]\<rparr> else v) }) =
      Some (v\<lparr>sv_coaccess := c, sv_lowlink := (sv_lowlink v)[p := min (sv_lowlink v ! p) (sv_lowlink v ! s)]\<rparr>) \<and>
    bs_ok c \<and> (sv_want_coaccess v \<longrightarrow> members c = (if s \<in> members (sv_coaccess v) then insert p (members (sv_coaccess v))
       else members (sv_coaccess v)))"
proof -
  obtain c where c: "sv_spread s p v = Some (v\<lparr>sv_coaccess := c\<rparr>)" "bs_ok c"
      "sv_want_coaccess v \<longrightarrow> members c = (if s \<in> members (sv_coaccess v) then insert p (members (sv_coaccess v))
       else members (sv_coaccess v))"
    using spread_run [OF co] by blast
  let ?l = "sv_lowlink v"
  have "\<not> ?l ! s < ?l ! p \<Longrightarrow> ?l[p := min (?l ! p) (?l ! s)] = ?l" by (simp add: min_def not_less)
  then have "(if ?l ! s < ?l ! p then v\<lparr>sv_coaccess := c, sv_lowlink := ?l[p := ?l ! s]\<rparr> else v\<lparr>sv_coaccess := c\<rparr>) =
      v\<lparr>sv_coaccess := c, sv_lowlink := ?l[p := min (?l ! p) (?l ! s)]\<rparr>"
    by (cases "?l ! s < ?l ! p") (simp_all add: min_def)
  then show ?thesis using c len by (intro exI [of _ c]) simp
qed

lemma u32_min: "a < 2 ^ 32 \<Longrightarrow> b < 2 ^ 32 \<Longrightarrow> min (of_nat a :: 32 word) (of_nat b) = of_nat (min a b)"
  using u32_less [of b a] u32_less [of a b] by (auto simp: min_def not_less [symmetric])

lemma pass_tables:
  assumes v: "view_ok n E w" and ok: "tj_ok E w t" and tab: "sv_tables ns n w t v" and n: "n \<le> 2 ^ 32"
    and g: "grey w = s # p # gs"
  shows "sv_tables ns n (finished w s (p # gs)) (tj_pass s p t)
    (v\<lparr>sv_lowlink := (sv_lowlink v)[p := min (sv_lowlink v ! p) (sv_lowlink v ! s)]\<rparr>)"
proof -
  note T = sv_tablesD [OF tab] and B = tj_bounds [OF v ok n]
  have off: "closed_off (finished w s (p # gs)) (tj_pass s p t) = closed_off w t"
    unfolding closed_off_def seen_finished [OF g] by simp
  have "min (sv_lowlink v ! p) (sv_lowlink v ! s) = of_nat (min (tj_low t p) (tj_low t s))"
    using T(5) [of p] T(5) [of s] B(2) [of p] B(2) [of s] g by (simp add: u32_min)
  moreover have "p < length (sv_lowlink v)" using T(1) T(3) [of p] g by (simp add: seen_def)
  ultimately show ?thesis
    unfolding sv_tables_def seen_finished [OF g] off using T g by (auto simp: nth_list_update)
qed

text \<open>After a close the parent's low link is older than what it is offered.\<close>

lemma close_links:
  assumes v: "view_ok n E w" and ok: "tj_ok E w t" and tab: "sv_tables ns n w t v" and n: "n \<le> 2 ^ 32"
    and g: "grey w = s # p # gs" and low: "tj_low t s = tj_d t s"
  shows "(sv_lowlink v)[p := min (sv_lowlink v ! p) (sv_lowlink v ! s)] = sv_lowlink v"
proof -
  note T = sv_tablesD [OF tab] and B = tj_bounds [OF v ok n]
  have sh: "tj_shape w t" using ok by (simp add: tj_ok_def)
  have "tj_d t p < tj_d t s" using shapeD(4) [OF sh] g by (simp add: falling_Cons)
  moreover have "tj_low t p \<le> tj_d t p" using ok g unfolding tj_ok_def tj_low_sound_def by fastforce
  ultimately have "min (tj_low t p) (tj_low t s) = tj_low t p" using low by simp
  then have "min (sv_lowlink v ! p) (sv_lowlink v ! s) = sv_lowlink v ! p"
    using T(5) [of p] T(5) [of s] B(2) [of p] B(2) [of s] g by (simp add: u32_min)
  then show ?thesis by simp
qed

definition productive :: "(state_id \<Rightarrow> 'w::zero) \<Rightarrow> ('w \<Rightarrow> bool) \<Rightarrow> state_id set" where
  "productive final_weight is_member = {s. is_member (final_weight s) \<and> final_weight s \<noteq> 0}"

lemma dfs_bits_unwanted: "\<not> want \<Longrightarrow> dfs_bits want p0 cyc icyc nacc nco p \<Longrightarrow> dfs_bits want p0 cyc icyc nacc nco' p"
  by (simp add: dfs_bits_def)

definition unproductive :: "(state_id \<times> state_id) set \<Rightarrow> state_id set \<Rightarrow> view \<Rightarrow> tarjan \<Rightarrow> bool" where
  "unproductive E F w t \<longleftrightarrow> (\<exists>s \<in> closed_off w t. \<not> reaches E F s)"

lemma unproductive_close:
  assumes v: "view_ok n E w" and ok: "tj_ok E w t" and g: "grey w = s # gs" and all: "E `` {s} \<subseteq> walked w `` {s}"
    and low: "tj_low t s = tj_d t s"
  shows "unproductive E F (finished w s gs) (tj_close s t) \<longleftrightarrow> unproductive E F w t \<or> \<not> reaches E F s"
proof -
  have A: "above s t = {u. (s, u) \<in> E\<^sup>* \<and> (u, s) \<in> E\<^sup>*}" using above_component [OF v ok g all low] .
  have "s \<in> above s t" using A by simp
  moreover have "reaches E F u \<longleftrightarrow> reaches E F s" if "u \<in> above s t" for u
    using that A reaches_path [of s u E F] reaches_path [of u s E F] by auto
  ultimately show ?thesis unfolding unproductive_def closed_off_close [OF v ok g] by blast
qed

lemma finish_state_run:
  fixes e :: "(state_id \<times> 'w::zero arc) option" and final_weight :: "state_id \<Rightarrow> 'w" and is_member :: "'w \<Rightarrow> bool"
  defines "F \<equiv> productive final_weight is_member"
  assumes v: "view_ok n E w" and ok: "tj_ok E w t" and tab: "sv_tables ns n w t v" and n: "n \<le> 2 ^ 32"
    and g: "grey w = s # gs" and all: "E `` {s} \<subseteq> walked w `` {s}" and co: "bs_ok (sv_coaccess v)"
    and want: "sv_want_coaccess v \<longrightarrow> co_ok E F w t (members (sv_coaccess v))"
    and e: "case gs of [] \<Rightarrow> e = None | p # _ \<Rightarrow> \<exists>a. e = Some (p, a)"
    and bits: "dfs_bits (sv_want_coaccess v) p0 cyc icyc nacc (unproductive E F w t) (sv_building v)"
  shows "\<exists>x t'. sv_finish_state final_weight is_member v s e = Some x \<and> tj_ok E (finished w s gs) t' \<and>
    sv_tables ns n (finished w s gs) t' x \<and> sv_access x = sv_access v \<and> sv_start x = sv_start v \<and>
    sv_want_coaccess x = sv_want_coaccess v \<and> bs_ok (sv_coaccess x) \<and>
    (sv_want_coaccess v \<longrightarrow> co_ok E F (finished w s gs) t' (members (sv_coaccess x))) \<and>
    dfs_bits (sv_want_coaccess v) p0 cyc icyc nacc (unproductive E F (finished w s gs) t') (sv_building x)"
proof -
  note B = tj_bounds [OF v ok n]
  have sseen: "s \<in> seen w" "s \<in> set (grey w)" using g by (simp_all add: seen_def)
  obtain c1 where c1: "(if sv_want_coaccess v \<and> is_member (final_weight s) \<and> final_weight s \<noteq> 0 then do {
             (coaccess, _) \<leftarrow> gbs_insert (sv_coaccess v) s; Some (v\<lparr>sv_coaccess := coaccess\<rparr>) } else Some v) =
        Some (v\<lparr>sv_coaccess := c1\<rparr>)" "bs_ok c1"
      "sv_want_coaccess v \<longrightarrow> members c1 = co_final F s (members (sv_coaccess v))"
  proof (cases "sv_want_coaccess v \<and> s \<in> F")
    case True
    then show ?thesis using that gbs_insert_run [OF co, of s] by (auto simp: F_def productive_def co_final_def)
  next
    case False
    then show ?thesis using that [of "sv_coaccess v"] co by (auto simp: F_def productive_def co_final_def)
  qed
  let ?v1 = "v\<lparr>sv_coaccess := c1\<rparr>"
  have tab1: "sv_tables ns n w t ?v1" by (rule sv_tables_cong [OF tab]) simp_all
  note T = sv_tablesD [OF tab1]
  have co1: "bs_ok (sv_coaccess ?v1)" using c1(2) by simp
  have test: "sv_dfnumber ?v1 ! s = sv_lowlink ?v1 ! s \<longleftrightarrow> tj_low t s = tj_d t s"
    using T(4) [OF sseen(1)] T(5) [OF sseen(2)] u32_eq [OF B(1) [OF sseen(1)] B(2) [OF sseen(2)]] by auto
  have ranges: "s < length (sv_dfnumber ?v1)" "s < length (sv_lowlink ?v1)" using T(1) T(3) [OF sseen(1)] by simp_all
  show ?thesis
  proof (cases "tj_low t s = tj_d t s")
    case True
    obtain x where x: "sv_close s ?v1 = Some x" "sv_tables ns n (finished w s gs) (tj_close s t) x"
        "sv_access x = sv_access v" "sv_start x = sv_start v" "sv_want_coaccess x = sv_want_coaccess v" "bs_ok (sv_coaccess x)"
        "sv_lowlink x = sv_lowlink v"
        "sv_want_coaccess v \<longrightarrow> members (sv_coaccess x) = co_spread s t (members c1)"
        "sv_building x = refute (sv_want_coaccess v \<and> \<not> above s t \<inter> members c1 \<noteq> {})
           K_NOT_CO_ACCESSIBLE K_CO_ACCESSIBLE (sv_building v)"
      using close_run [OF v ok tab1 g co1] by auto
    have ok': "tj_ok E (finished w s gs) (tj_close s t)" by (rule tj_ok_close [OF v ok g all True])
    have bits': "dfs_bits (sv_want_coaccess v) p0 cyc icyc nacc (unproductive E F (finished w s gs) (tj_close s t)) (sv_building x)"
    proof (cases "sv_want_coaccess v")
      case wt: True
      then have "above s t \<inter> members c1 \<noteq> {} \<longleftrightarrow> reaches E F s"
        using co_ok_close(2) [OF v ok g all True, of F "members (sv_coaccess v)"] want c1(3) by simp
      then show ?thesis
        using dfs_bits_run(5) [OF bits, of "reaches E F s"] wt unfolding x(9) unproductive_close [OF v ok g all True] by simp
    next
      case False
      have "dfs_bits (sv_want_coaccess v) p0 cyc icyc nacc (unproductive E F w t) (sv_building x)"
        using bits False unfolding x(9) by (simp add: refute_def)
      then show ?thesis by (rule dfs_bits_unwanted [OF False])
    qed
    have fin: "sv_finish_state final_weight is_member v s e = (case e of None \<Rightarrow> Some x
       | Some (p, _) \<Rightarrow> do { v \<leftarrow> sv_spread s p x; low \<leftarrow> vget (sv_lowlink v) s; plow \<leftarrow> vget (sv_lowlink v) p;
          Some (if low < plow then v\<lparr>sv_lowlink := (sv_lowlink v)[p := low]\<rparr> else v) })"
      unfolding sv_finish_state_def c1(1) using ranges test True x(1) by simp
    show ?thesis
    proof (cases gs)
      case Nil
      then have "sv_finish_state final_weight is_member v s e = Some x" using fin e by simp
      moreover have "sv_want_coaccess v \<longrightarrow> co_ok E F (finished w s gs) (tj_close s t) (members (sv_coaccess x))"
        using co_ok_close(1) [OF v ok g all True, of F "members (sv_coaccess v)"] want c1(3) x(8) Nil
        by (simp add: co_parent_def)
      ultimately show ?thesis using ok' x bits' by blast
    next
      case (Cons p ps)
      have g': "grey w = s # p # ps" using g Cons by simp
      have "p \<in> seen w" using g' by (simp add: seen_def)
      then have rp: "p < length (sv_lowlink x)" "s < length (sv_lowlink x)"
        using T(1) T(3) ranges unfolding x(7) by simp_all
      obtain c where c: "(do { v \<leftarrow> sv_spread s p x; low \<leftarrow> vget (sv_lowlink v) s; plow \<leftarrow> vget (sv_lowlink v) p;
            Some (if low < plow then v\<lparr>sv_lowlink := (sv_lowlink v)[p := low]\<rparr> else v) }) =
          Some (x\<lparr>sv_coaccess := c, sv_lowlink := (sv_lowlink x)[p := min (sv_lowlink x ! p) (sv_lowlink x ! s)]\<rparr>)"
          "bs_ok c" "sv_want_coaccess x \<longrightarrow> members c = (if s \<in> members (sv_coaccess x) then insert p (members (sv_coaccess x))
            else members (sv_coaccess x))"
        using offer_run [OF x(6) rp(2,1)] by blast
      let ?y = "x\<lparr>sv_coaccess := c, sv_lowlink := sv_lowlink x\<rparr>"
      have "(sv_lowlink x)[p := min (sv_lowlink x ! p) (sv_lowlink x ! s)] = sv_lowlink x"
        using close_links [OF v ok tab1 n g' True] unfolding x(7) by simp
      then have run: "sv_finish_state final_weight is_member v s e = Some ?y" using fin e c(1) Cons by auto
      have tabx: "sv_tables ns n (finished w s gs) (tj_close s t) ?y" by (rule sv_tables_cong [OF x(2)]) simp_all
      have "sv_want_coaccess v \<longrightarrow> members c = co_parent s gs (co_spread s t (co_final F s (members (sv_coaccess v))))"
        using c(3) x(5,8) c1(3) Cons by (simp add: co_parent_def)
      then have "sv_want_coaccess v \<longrightarrow> co_ok E F (finished w s gs) (tj_close s t) (members c)"
        using co_ok_close(1) [OF v ok g all True, of F "members (sv_coaccess v)"] want by simp
      then show ?thesis using run ok' tabx x(3-5) c(2) bits' by (intro exI [of _ ?y] exI [of _ "tj_close s t"]) simp
    qed
  next
    case False
    then obtain p ps where gs: "gs = p # ps" using open_parent [OF ok g] by (cases gs) auto
    have g': "grey w = s # p # ps" using g gs by simp
    have "p \<in> seen w" using g' by (simp add: seen_def)
    then have rp: "p < length (sv_lowlink ?v1)" using T(1) T(3) by simp
    obtain c where c: "(do { v \<leftarrow> sv_spread s p ?v1; low \<leftarrow> vget (sv_lowlink v) s; plow \<leftarrow> vget (sv_lowlink v) p;
          Some (if low < plow then v\<lparr>sv_lowlink := (sv_lowlink v)[p := low]\<rparr> else v) }) =
        Some (?v1\<lparr>sv_coaccess := c, sv_lowlink := (sv_lowlink ?v1)[p := min (sv_lowlink ?v1 ! p) (sv_lowlink ?v1 ! s)]\<rparr>)"
        "bs_ok c" "sv_want_coaccess v \<longrightarrow> members c = (if s \<in> members c1 then insert p (members c1) else members c1)"
      using offer_run [OF co1 ranges(2) rp] by auto
    let ?y = "?v1\<lparr>sv_coaccess := c, sv_lowlink := (sv_lowlink ?v1)[p := min (sv_lowlink ?v1 ! p) (sv_lowlink ?v1 ! s)]\<rparr>"
    have run: "sv_finish_state final_weight is_member v s e = Some ?y"
      unfolding sv_finish_state_def c1(1) using ranges test False e gs c(1) by auto
    have tabx: "sv_tables ns n (finished w s gs) (tj_pass s p t) ?y"
      using pass_tables [OF v ok tab1 n g'] unfolding gs by (rule sv_tables_cong) simp_all
    have ok': "tj_ok E (finished w s gs) (tj_pass s p t)" using tj_ok_pass [OF v ok g' False] gs by simp
    have "sv_want_coaccess v \<longrightarrow> members c = co_parent s (p # ps) (co_final F s (members (sv_coaccess v)))"
      using c(3) c1(3) by (simp add: co_parent_def)
    then have coy: "sv_want_coaccess v \<longrightarrow> co_ok E F (finished w s gs) (tj_pass s p t) (members c)"
      using co_ok_pass [OF v ok g', of F "members (sv_coaccess v)"] want gs by simp
    have "closed_off (finished w s gs) (tj_pass s p t) = closed_off w t"
      unfolding closed_off_def seen_finished [OF g] by simp
    then have "unproductive E F (finished w s gs) (tj_pass s p t) = unproductive E F w t" by (simp add: unproductive_def)
    then show ?thesis using run ok' tabx c(2) coy bits by (intro exI [of _ ?y] exI [of _ "tj_pass s p t"]) simp
  qed
qed

end
