(* ===== verification/SccExact.thy ===== *)
theory SccExact
  imports SccVisitor
begin

text \<open>
  The visitor of strongly connected components is exact: the interface of the depth-first search is
  discharged for it, and what it leaves in its caller's variables is read off the invariant.
\<close>

section \<open>What the visitor keeps\<close>

definition sv_kept :: "bool \<Rightarrow> bool \<Rightarrow> nat \<Rightarrow> (state_id \<times> state_id) set \<Rightarrow> state_id set \<Rightarrow> state_id option \<Rightarrow> bool \<Rightarrow> 64 word \<Rightarrow>
    view \<Rightarrow> scc_visitor \<Rightarrow> bool" where
  "sv_kept ns na n E F start want p0 w v \<longleftrightarrow> n \<le> 2 ^ 32 \<and> (\<exists>st t acc cyc icyc. start = Some st \<and>
     tj_ok E w t \<and> sv_tables ns n w t v \<and> acc_ok E st w acc \<and> access_is na acc v \<and> bs_ok (sv_coaccess v) \<and>
     (want \<longrightarrow> co_ok E F w t (members (sv_coaccess v))) \<and>
     (if cyc then \<not> acyclic E else no_back E w) \<and> icyc_ok E st w acc icyc \<and>
     sv_start v = Some st \<and> sv_want_coaccess v = want \<and>
     dfs_bits want p0 cyc icyc (acc \<noteq> seen w) (unproductive E F w t) (sv_building v))"

lemma sv_keptE:
  assumes "sv_kept ns na n E F start want p0 w v"
  obtains st t acc cyc icyc where "n \<le> 2 ^ 32" "start = Some st" "tj_ok E w t" "sv_tables ns n w t v" "acc_ok E st w acc"
    "access_is na acc v" "bs_ok (sv_coaccess v)" "want \<longrightarrow> co_ok E F w t (members (sv_coaccess v))"
    "if cyc then \<not> acyclic E else no_back E w" "icyc_ok E st w acc icyc" "sv_start v = Some st"
    "sv_want_coaccess v = want" "dfs_bits want p0 cyc icyc (acc \<noteq> seen w) (unproductive E F w t) (sv_building v)"
  using assms unfolding sv_kept_def by blast

lemma sv_keptI:
  assumes "n \<le> 2 ^ 32" "start = Some st" "tj_ok E w t" "sv_tables ns n w t v" "acc_ok E st w acc"
    "access_is na acc v" "bs_ok (sv_coaccess v)" "want \<longrightarrow> co_ok E F w t (members (sv_coaccess v))"
    "if cyc then \<not> acyclic E else no_back E w" "icyc_ok E st w acc icyc" "sv_start v = Some st"
    "sv_want_coaccess v = want" "dfs_bits want p0 cyc icyc (acc \<noteq> seen w) (unproductive E F w t) (sv_building v)"
  shows "sv_kept ns na n E F start want p0 w v"
  unfolding sv_kept_def using assms by blast

lemma kept_discover:
  assumes v: "view_ok n E w" and k: "sv_kept ns na n E F start want p0 w v" and r: "r < n" "r \<notin> seen w"
    and e: "\<And>s gs. grey w = s # gs \<Longrightarrow> (s, r) \<in> E"
    and root: "grey w = [] \<Longrightarrow> (if black w = {} then start = Some r else \<exists>s \<in> black w. start = Some s)"
  shows "\<exists>u. sv_init_state v r (last (r # grey w)) = Some (u, True) \<and> sv_kept ns na n E F start want p0 (discovered w r) u"
proof -
  obtain st t acc cyc icyc where K: "n \<le> 2 ^ 32" "start = Some st" "tj_ok E w t" "sv_tables ns n w t v" "acc_ok E st w acc"
    "access_is na acc v" "bs_ok (sv_coaccess v)" "want \<longrightarrow> co_ok E F w t (members (sv_coaccess v))"
    "if cyc then \<not> acyclic E else no_back E w" "icyc_ok E st w acc icyc" "sv_start v = Some st"
    "sv_want_coaccess v = want" "dfs_bits want p0 cyc icyc (acc \<noteq> seen w) (unproductive E F w t) (sv_building v)"
    using k by (rule sv_keptE)
  let ?b = "last (r # grey w) = st" and ?w = "discovered w r" and ?t = "tj_discover w r t"
  let ?acc = "if ?b then insert r acc else acc - {r}"
  obtain u where u: "sv_init_state v r (last (r # grey w)) = Some (u, True)" "sv_tables ns n ?w ?t u" "access_is na ?acc u"
      "bs_ok (sv_coaccess u)" "members (sv_coaccess u) = members (sv_coaccess v)" "sv_start u = Some st"
      "sv_want_coaccess u = want"
      "sv_building u = (if ?b then sv_building v else refute True K_NOT_ACCESSIBLE K_ACCESSIBLE (sv_building v))"
    using init_state_run [OF v K(3,4) r(2,1) K(6,7), of "last (r # grey w)"] unfolding K(11,12) option.inject by blast
  have root': "grey w = [] \<Longrightarrow> (if black w = {} then st = r else st \<in> black w)"
    using root K(2) by (auto split: if_splits)
  have un: "unproductive E F ?w ?t = unproductive E F w t"
    unfolding unproductive_def closed_off_discover [OF r(2)] by simp
  have bits: "dfs_bits want p0 cyc icyc (?acc \<noteq> seen ?w) (unproductive E F ?w ?t) (sv_building u)"
  proof (cases ?b)
    case True
    have "acc = seen w"
    proof (cases "grey w")
      case Nil
      then have "black w = {}" using root' [OF Nil] True r(2) by (auto simp: seen_def split: if_splits)
      then show ?thesis using K(5) Nil by (simp add: acc_ok_def seen_def)
    next
      case (Cons s gs)
      then show ?thesis using K(5) True by (auto simp: acc_ok_def)
    qed
    then show ?thesis using K(13) True u(8) un by simp
  next
    case False
    have "?acc \<noteq> seen ?w" using False by auto
    then show ?thesis using dfs_bits_run(2) [OF K(13)] False u(8) un by simp
  qed
  have "sv_kept ns na n E F start want p0 ?w u"
  proof (rule sv_keptI [where t = ?t and acc = ?acc and cyc = cyc and icyc = icyc])
    show "tj_ok E ?w ?t" by (rule tj_ok_discover [OF v K(3) r(2) e])
    show "acc_ok E st ?w ?acc" by (rule acc_ok_discover [OF v K(5) r(2) e root'])
    show "want \<longrightarrow> co_ok E F ?w ?t (members (sv_coaccess u))"
      using K(8) co_ok_discover [OF v K(3) _ r(2), of F] u(5) by simp
    show "if cyc then \<not> acyclic E else no_back E ?w" using K(9) no_back_discover [OF v _ r(2)] by (auto split: if_splits)
    show "icyc_ok E st ?w ?acc icyc" by (rule icyc_ok_discover [OF v K(5,10) r(2)])
  qed (use K(1,2) u bits in auto)
  then show ?thesis using u(1) by blast
qed

lemma seen_walked: "seen (w\<lparr>walked := W\<rparr>) = seen w"
  by (simp add: seen_def)

lemma unproductive_walk: "unproductive E F (w\<lparr>walked := W\<rparr>) (tj_lower s u t) = unproductive E F w t"
  by (simp add: unproductive_def closed_off_def seen_walked)

lemma kept_back:
  fixes a :: "'w arc"
  assumes v: "view_ok n E w" and k: "sv_kept ns na n E F start want p0 w v" and g: "grey w = s # gs"
    and e: "(s, nextstate a) \<in> E" and u: "nextstate a \<in> set (grey w)"
  shows "\<exists>x. sv_back_arc v s a = Some (x, True) \<and>
    sv_kept ns na n E F start want p0 (w\<lparr>walked := insert (s, nextstate a) (walked w)\<rparr>) x"
proof -
  obtain st t acc cyc icyc where K: "n \<le> 2 ^ 32" "start = Some st" "tj_ok E w t" "sv_tables ns n w t v" "acc_ok E st w acc"
    "access_is na acc v" "bs_ok (sv_coaccess v)" "want \<longrightarrow> co_ok E F w t (members (sv_coaccess v))"
    "if cyc then \<not> acyclic E else no_back E w" "icyc_ok E st w acc icyc" "sv_start v = Some st"
    "sv_want_coaccess v = want" "dfs_bits want p0 cyc icyc (acc \<noteq> seen w) (unproductive E F w t) (sv_building v)"
    using k by (rule sv_keptE)
  let ?w = "w\<lparr>walked := insert (s, nextstate a) (walked w)\<rparr>" and ?t = "tj_lower s (nextstate a) t"
  obtain x where x: "sv_back_arc v s a = Some (x, True)" "sv_tables ns n w ?t x" "sv_access x = sv_access v"
      "sv_start x = Some st" "sv_want_coaccess x = want" "bs_ok (sv_coaccess x)"
      "want \<longrightarrow> members (sv_coaccess x) = (if nextstate a \<in> members (sv_coaccess v)
         then insert s (members (sv_coaccess v)) else members (sv_coaccess v))"
      "sv_building x = refute (nextstate a = st) K_INITIAL_CYCLIC K_INITIAL_ACYCLIC
         (refute True K_CYCLIC K_ACYCLIC (sv_building v))"
    using back_arc_run [OF v K(3,4,1) g u K(7)] unfolding K(11,12) option.inject by blast
  have seen: "nextstate a \<in> seen w" using u by (simp add: seen_def)
  have "(nextstate a, s) \<in> (walked w)\<^sup>*" using linked_reach view_okD(6) [OF v] g u by metis
  then have "(nextstate a, s) \<in> E\<^sup>*" using view_okD(4) [OF v] by (meson rtrancl_mono subsetD)
  then have "(s, s) \<in> E\<^sup>+" using e by (meson r_into_trancl trancl_rtrancl_trancl)
  then have cyclic: "\<not> acyclic E" by (auto simp: acyclic_def)
  have "sv_kept ns na n E F start want p0 ?w x"
  proof (rule sv_keptI [where t = ?t and acc = acc and cyc = True and icyc = "icyc \<or> nextstate a = st"])
    show "tj_ok E ?w ?t" by (rule tj_ok_walk [OF v K(3) g e seen])
    show "sv_tables ns n ?w ?t x" using x(2) by (simp add: sv_tables_walked)
    show "acc_ok E st ?w acc" by (rule acc_ok_walk [OF K(5)])
    show "access_is na acc x" by (rule access_is_cong [OF K(6) x(3)])
    show "want \<longrightarrow> co_ok E F ?w ?t (members (sv_coaccess x))" using K(8) co_ok_walk [OF _ e, of F w t] x(7) by simp
    show "if True then \<not> acyclic E else no_back E ?w" using cyclic by simp
    show "icyc_ok E st ?w acc (icyc \<or> nextstate a = st)" by (rule icyc_ok_walk(1) [OF v K(5,10) g e u])
    show "dfs_bits want p0 True (icyc \<or> nextstate a = st) (acc \<noteq> seen ?w) (unproductive E F ?w ?t) (sv_building x)"
      unfolding x(8) seen_walked unproductive_walk by (intro dfs_bits_run(4) dfs_bits_run(3)) (rule K(13))
  qed (use K(1,2) x in auto)
  then show ?thesis using x(1) by blast
qed

lemma kept_cross:
  fixes a :: "'w arc"
  assumes v: "view_ok n E w" and k: "sv_kept ns na n E F start want p0 w v" and g: "grey w = s # gs"
    and e: "(s, nextstate a) \<in> E" and u: "nextstate a \<in> black w"
  shows "\<exists>x. sv_forward_or_cross_arc v s a = Some (x, True) \<and>
    sv_kept ns na n E F start want p0 (w\<lparr>walked := insert (s, nextstate a) (walked w)\<rparr>) x"
proof -
  obtain st t acc cyc icyc where K: "n \<le> 2 ^ 32" "start = Some st" "tj_ok E w t" "sv_tables ns n w t v" "acc_ok E st w acc"
    "access_is na acc v" "bs_ok (sv_coaccess v)" "want \<longrightarrow> co_ok E F w t (members (sv_coaccess v))"
    "if cyc then \<not> acyclic E else no_back E w" "icyc_ok E st w acc icyc" "sv_start v = Some st"
    "sv_want_coaccess v = want" "dfs_bits want p0 cyc icyc (acc \<noteq> seen w) (unproductive E F w t) (sv_building v)"
    using k by (rule sv_keptE)
  let ?w = "w\<lparr>walked := insert (s, nextstate a) (walked w)\<rparr>" and ?t = "tj_lower s (nextstate a) t"
  obtain x where x: "sv_forward_or_cross_arc v s a = Some (x, True)" "sv_tables ns n w ?t x" "sv_access x = sv_access v"
      "sv_start x = Some st" "sv_want_coaccess x = want" "bs_ok (sv_coaccess x)"
      "want \<longrightarrow> members (sv_coaccess x) = (if nextstate a \<in> members (sv_coaccess v)
         then insert s (members (sv_coaccess v)) else members (sv_coaccess v))"
      "sv_building x = sv_building v"
    using cross_arc_run [OF v K(3,4,1) g u K(7)] unfolding K(11,12) by blast
  have seen: "nextstate a \<in> seen w" using u by (simp add: seen_def)
  have "sv_kept ns na n E F start want p0 ?w x"
  proof (rule sv_keptI [where t = ?t and acc = acc and cyc = cyc and icyc = icyc])
    show "tj_ok E ?w ?t" by (rule tj_ok_walk [OF v K(3) g e seen])
    show "sv_tables ns n ?w ?t x" using x(2) by (simp add: sv_tables_walked)
    show "acc_ok E st ?w acc" by (rule acc_ok_walk [OF K(5)])
    show "access_is na acc x" by (rule access_is_cong [OF K(6) x(3)])
    show "want \<longrightarrow> co_ok E F ?w ?t (members (sv_coaccess x))" using K(8) co_ok_walk [OF _ e, of F w t] x(7) by simp
    show "if cyc then \<not> acyclic E else no_back E ?w" using K(9) no_back_walk [OF _ u] by (auto split: if_splits)
    show "icyc_ok E st ?w acc icyc" by (rule icyc_ok_walk(2) [OF v K(5,10) g e u])
    show "dfs_bits want p0 cyc icyc (acc \<noteq> seen ?w) (unproductive E F ?w ?t) (sv_building x)"
      unfolding x(8) seen_walked unproductive_walk by (rule K(13))
  qed (use K(1,2) x in auto)
  then show ?thesis using x(1) by blast
qed

lemma kept_finish:
  fixes e :: "(state_id \<times> 'w::zero arc) option" and final_weight :: "state_id \<Rightarrow> 'w" and is_member :: "'w \<Rightarrow> bool"
  assumes v: "view_ok n E w" and k: "sv_kept ns na n E (productive final_weight is_member) start want p0 w v"
    and g: "grey w = s # gs" and all: "E `` {s} \<subseteq> walked w `` {s}"
    and e: "case gs of [] \<Rightarrow> e = None | p # _ \<Rightarrow> \<exists>a. e = Some (p, a)"
  shows "\<exists>x. sv_finish_state final_weight is_member v s e = Some x \<and>
    sv_kept ns na n E (productive final_weight is_member) start want p0 (finished w s gs) x"
proof -
  let ?F = "productive final_weight is_member"
  obtain st t acc cyc icyc where K: "n \<le> 2 ^ 32" "start = Some st" "tj_ok E w t" "sv_tables ns n w t v" "acc_ok E st w acc"
    "access_is na acc v" "bs_ok (sv_coaccess v)" "want \<longrightarrow> co_ok E ?F w t (members (sv_coaccess v))"
    "if cyc then \<not> acyclic E else no_back E w" "icyc_ok E st w acc icyc" "sv_start v = Some st"
    "sv_want_coaccess v = want" "dfs_bits want p0 cyc icyc (acc \<noteq> seen w) (unproductive E ?F w t) (sv_building v)"
    using k by (rule sv_keptE)
  obtain x t' where x: "sv_finish_state final_weight is_member v s e = Some x" "tj_ok E (finished w s gs) t'"
      "sv_tables ns n (finished w s gs) t' x" "sv_access x = sv_access v" "sv_start x = Some st"
      "sv_want_coaccess x = want" "bs_ok (sv_coaccess x)"
      "want \<longrightarrow> co_ok E ?F (finished w s gs) t' (members (sv_coaccess x))"
      "dfs_bits want p0 cyc icyc (acc \<noteq> seen w) (unproductive E ?F (finished w s gs) t') (sv_building x)"
    using finish_state_run [OF v K(3,4,1) g all K(7) K(8) [folded K(12)] e K(13) [folded K(12)]]
    unfolding K(11,12) by blast
  have "sv_kept ns na n E ?F start want p0 (finished w s gs) x"
  proof (rule sv_keptI [where t = t' and acc = acc and cyc = cyc and icyc = icyc])
    show "acc_ok E st (finished w s gs) acc" by (rule acc_ok_finish [OF v K(5) g all])
    show "access_is na acc x" by (rule access_is_cong [OF K(6) x(4)])
    show "if cyc then \<not> acyclic E else no_back E (finished w s gs)"
      using K(9) no_back_finish [OF v _ g all] by (auto split: if_splits)
    show "icyc_ok E st (finished w s gs) acc icyc" using K(10) by (simp add: icyc_ok_def)
    show "dfs_bits want p0 cyc icyc (acc \<noteq> seen (finished w s gs)) (unproductive E ?F (finished w s gs) t') (sv_building x)"
      using x(9) unfolding seen_finished [OF g] .
  qed (use K(1,2) x in auto)
  then show ?thesis using x(1) by blast
qed

interpretation sccvis: dfs_visitor "scc_visitor_of (fv_start f) final_weight is_member" f flt n
  "sv_kept ns na n (steps f flt) (productive final_weight is_member) (fv_start f) want p0" "\<lambda>_. False"
  for f flt n final_weight is_member ns na want p0
proof (unfold_locales, goal_cases)
  case (1 w v r)
  have "w\<lparr>grey := [r]\<rparr> = discovered w r" using 1(3) by (simp add: discovered_def)
  moreover have "\<exists>u. sv_init_state v r (last (r # grey w)) = Some (u, True) \<and>
      sv_kept ns na n (steps f flt) (productive final_weight is_member) (fv_start f) want p0 (discovered w r) u"
    by (rule kept_discover [OF 1(1,2,4)]) (use 1(3,5,6) in \<open>simp_all add: seen_def\<close>)
  ultimately show ?case using 1(3) by (auto simp: scc_visitor_of_def)
next
  case (2 w v s gs a)
  have e: "(s, nextstate a) \<in> steps f flt" using 2(4,5) by (auto simp: steps_def)
  have "w\<lparr>grey := nextstate a # s # gs, walked := insert (s, nextstate a) (walked w)\<rparr> = discovered w (nextstate a)"
    using 2(3) by (simp add: discovered_def)
  moreover have "\<exists>u. sv_init_state v (nextstate a) (last (nextstate a # grey w)) = Some (u, True) \<and>
      sv_kept ns na n (steps f flt) (productive final_weight is_member) (fv_start f) want p0 (discovered w (nextstate a)) u"
    by (rule kept_discover [OF 2(1,2,6,7)]) (use 2(3) e in simp_all)
  then obtain u where "sv_init_state v (nextstate a) (last (grey w)) = Some (u, True)"
      "sv_kept ns na n (steps f flt) (productive final_weight is_member) (fv_start f) want p0 (discovered w (nextstate a)) u"
    using 2(3) by auto
  ultimately show ?case by (auto simp: scc_visitor_of_def intro!: exI [of _ True])
next
  case (3 w v s gs a)
  have e: "(s, nextstate a) \<in> steps f flt" using 3(4,5) by (auto simp: steps_def)
  show ?case using kept_back [OF 3(1,2,3) e 3(6)] by (auto simp: scc_visitor_of_def)
next
  case (4 w v s gs a)
  have e: "(s, nextstate a) \<in> steps f flt" using 4(4,5) by (auto simp: steps_def)
  show ?case using kept_cross [OF 4(1,2,3) e 4(6)] by (auto simp: scc_visitor_of_def)
next
  case (5 w v s gs e)
  have "case gs of [] \<Rightarrow> e = None | p # _ \<Rightarrow> \<exists>a. e = Some (p, a)" using 5(5) by (cases gs) auto
  then show ?case using kept_finish [OF 5(1,2,3,4)] by (simp add: scc_visitor_of_def)
qed simp

section \<open>What is left when the search is over\<close>

definition scc_numbering :: "nat \<Rightarrow> (state_id \<times> state_id) set \<Rightarrow> nat \<Rightarrow> state_id list \<Rightarrow> bool" where
  "scc_numbering n E k c \<longleftrightarrow> length c = n \<and> set c = {..<k} \<and>
     (\<forall>s < n. \<forall>t < n. c ! s = c ! t \<longleftrightarrow> (s, t) \<in> E\<^sup>* \<and> (t, s) \<in> E\<^sup>*) \<and> (\<forall>(s, t) \<in> E. c ! s \<le> c ! t)"

lemma those_map: "(\<And>x. x \<in> set xs \<Longrightarrow> g x = Some (h x)) \<Longrightarrow> those (map g xs) = Some (map h xs)"
  by (induction xs) auto

lemma numbering_exact:
  assumes tab: "sv_tables ns n w t v" and ok: "tj_ok E w t" and off: "closed_off w t = {..<n}" and n: "n \<le> 2 ^ 32"
    and dom: "E \<subseteq> {..<n} \<times> {..<n}" and c: "sv_scc v = Some c" and seen: "seen w = {..<n}"
  shows "\<exists>d. those (map (renumber (sv_nscc v)) c) = Some d \<and> scc_numbering n E (sv_nscc v) d"
proof -
  note T = sv_tablesD [OF tab]
  have cs: "tj_comp t ` {..<n} = {..<tj_k t}"
      "\<And>s u. s < n \<Longrightarrow> u < n \<Longrightarrow> tj_comp t s = tj_comp t u \<longleftrightarrow> (s, u) \<in> E\<^sup>* \<and> (u, s) \<in> E\<^sup>*"
      "\<And>s u. s < n \<Longrightarrow> (s, u) \<in> E \<Longrightarrow> tj_comp t u \<le> tj_comp t s"
    using ok off by (auto simp: tj_ok_def tj_comps_def)
  have "length (sv_dfnumber v) = n"
  proof (rule antisym [OF T(2)])
    show "n \<le> length (sv_dfnumber v)" using T(3) [of "n - 1"] seen by (cases n) auto
  qed
  then have len: "length c = n" using T(11) [OF c] by simp
  have at: "c ! s = tj_comp t s" if "s < n" for s
    using T(12) [OF c, of s] T(11) [OF c] len that off by simp
  have k: "tj_k t \<le> n"
    using cs(1) by (metis card_image_le card_lessThan finite_lessThan)
  have low: "tj_comp t s < tj_k t" if "s < n" for s using cs(1) that by blast
  let ?g = "\<lambda>s. tj_k t - 1 - s"
  have "renumber (sv_nscc v) x = Some (?g x)" if xc: "x \<in> set c" for x
  proof -
    obtain s where s: "s < n" "x = tj_comp t s" using xc at len by (metis in_set_conv_nth)
    then have "x < 2 ^ 32" using low k n by fastforce
    then have "x \<noteq> no_state" by (simp add: no_state_def usize_max_def)
    then show ?thesis using low [OF s(1)] s(2) T(9) by (simp add: renumber_def)
  qed
  then have run: "those (map (renumber (sv_nscc v)) c) = Some (map ?g c)" by (rule those_map)
  have d: "map ?g c ! s = tj_k t - 1 - tj_comp t s" if "s < n" for s using that len at by simp
  have "set c = {..<tj_k t}"
  proof -
    have "c = map (tj_comp t) [0..<n]" using at len by (intro nth_equalityI) simp_all
    then have "set c = tj_comp t ` {..<n}" by (simp add: lessThan_atLeast0)
    then show ?thesis using cs(1) by simp
  qed
  moreover have "?g ` {..<tj_k t} = {..<tj_k t}"
  proof (intro equalityI subsetI)
    fix i assume "i \<in> {..<tj_k t}"
    then have "i = ?g (?g i)" "?g i \<in> {..<tj_k t}" by auto
    then show "i \<in> ?g ` {..<tj_k t}" by blast
  qed auto
  ultimately have "set (map ?g c) = {..<tj_k t}" by simp
  moreover have "map ?g c ! s = map ?g c ! u \<longleftrightarrow> (s, u) \<in> E\<^sup>* \<and> (u, s) \<in> E\<^sup>*" if "s < n" "u < n" for s u
    using cs(2) [OF that] low [OF that(1)] low [OF that(2)] unfolding d [OF that(1)] d [OF that(2)] by auto
  moreover have "map ?g c ! s \<le> map ?g c ! u" if "(s, u) \<in> E" for s u
  proof -
    have "s < n" "u < n" using dom that by auto
    then show ?thesis using cs(3) [OF _ that] unfolding d [OF \<open>s < n\<close>] d [OF \<open>u < n\<close>] by simp
  qed
  ultimately show ?thesis using run len T(9) unfolding scc_numbering_def by (intro exI [of _ "map ?g c"]) auto
qed

text \<open>Where the sets are sound and the caller asked for them.\<close>

definition sets_ok :: "scc_visitor \<Rightarrow> bool" where
  "sets_ok v \<longleftrightarrow> bs_ok (sv_coaccess v) \<and> bs_ok (sv_onstack v) \<and> pred_option bs_ok (sv_access v)"

lemma scc_visitor_new_ok: "pred_option bs_ok access \<Longrightarrow> pred_option bs_ok co \<Longrightarrow> sets_ok (scc_visitor_new scc access co props)"
  using new_empty_run [of 0] by (auto simp: sets_ok_def scc_visitor_new_def gbs_new_def split: option.split)

lemma init_visit_run:
  assumes v0: "sets_ok v0" and n: "n \<le> 2 ^ 32"
  shows "\<exists>v. sv_init_visit (Some st) v0 = Some v \<and>
    sv_kept (sv_scc v0 = None) (sv_access v0 = None) n E F (Some st) (sv_want_coaccess v0) (sv_props v0) empty_view v"
proof -
  obtain v where v: "sv_init_visit (Some st) v0 = Some v" by (simp add: sv_init_visit_def Let_def)
  define t where "t = \<lparr>tj_d = (\<lambda>_. 0), tj_low = (\<lambda>_. 0), tj_stack = [], tj_comp = (\<lambda>_. 0), tj_k = 0\<rparr>"
  have et [simp]: "grey empty_view = []" "black empty_view = {}" "walked empty_view = {}" "tj_stack t = []" "tj_k t = 0"
    by (simp_all add: empty_view_def t_def)
  have s: "seen empty_view = {}" by (simp add: seen_def)
  have off: "closed_off empty_view t = {}" by (simp add: closed_off_def s)
  have "sv_kept (sv_scc v0 = None) (sv_access v0 = None) n E F (Some st) (sv_want_coaccess v0) (sv_props v0) empty_view v"
  proof (rule sv_keptI [where t = t and acc = "{}" and cyc = False and icyc = False])
    show "tj_ok E empty_view t"
      by (auto simp: tj_ok_def tj_shape_def tj_reach_def tj_low_sound_def tj_low_complete_def tj_old_def tj_comps_def
          off s)
    show "sv_tables (sv_scc v0 = None) n empty_view t v"
      using v v0 bs_clear_run [of "sv_onstack v0"]
      by (auto simp: sv_init_visit_def Let_def sv_tables_def s off sets_ok_def)
    show "acc_ok E st empty_view {}" by (auto simp: acc_ok_def s)
    show "access_is (sv_access v0 = None) {} v"
      using v v0 bs_clear_run by (auto simp: sv_init_visit_def Let_def access_is_def sets_ok_def)
    show "bs_ok (sv_coaccess v)"
      using v v0 bs_clear_run [of "sv_coaccess v0"] by (auto simp: sv_init_visit_def Let_def sets_ok_def)
    show "sv_want_coaccess v0 \<longrightarrow> co_ok E F empty_view t (members (sv_coaccess v))"
      using v v0 bs_clear_run [of "sv_coaccess v0"]
      by (auto simp: sv_init_visit_def Let_def sets_ok_def co_ok_def off)
    show "if False then \<not> acyclic E else no_back E empty_view"
      by (simp add: no_back_def finished_after_def tree_or_black_def)
    show "icyc_ok E st empty_view {} False" by (simp add: icyc_ok_def)
    show "dfs_bits (sv_want_coaccess v0) (sv_props v0) False False ({} \<noteq> seen empty_view) (unproductive E F empty_view t)
        (sv_building v)"
      using v dfs_bits_run(1) [of "sv_want_coaccess v0" "sv_props v0"]
      by (auto simp: sv_init_visit_def Let_def s unproductive_def off)
  qed (use v n in \<open>auto simp: sv_init_visit_def Let_def\<close>)
  then show ?thesis using v by blast
qed

lemma acc_ok_end:
  assumes v: "view_ok n E w" and acc: "acc_ok E st w acc" and g: "grey w = []" "black w = {..<n}" and st: "st < n"
  shows "acc = E\<^sup>* `` {st}"
proof -
  have "st \<in> acc" "E `` acc \<subseteq> acc" "acc \<subseteq> E\<^sup>* `` {st}"
    using acc g st by (auto simp: acc_ok_def seen_def split: if_splits)
  moreover have "x \<in> acc" if "(st, x) \<in> E\<^sup>*" for x
    using that by (induction rule: rtrancl_induct) (use \<open>st \<in> acc\<close> \<open>E `` acc \<subseteq> acc\<close> in auto)
  ultimately show ?thesis by auto
qed

lemma icyc_ok_end:
  assumes v: "view_ok n E w" and ic: "icyc_ok E st w (E\<^sup>* `` {st}) icyc" and g: "black w = {..<n}"
    and dom: "E \<subseteq> {..<n} \<times> {..<n}"
  shows "icyc \<longleftrightarrow> (st, st) \<in> E\<^sup>+"
proof
  assume cyc: "(st, st) \<in> E\<^sup>+"
  show icyc
  proof (rule ccontr)
    assume "\<not> icyc"
    then have none: "(s, st) \<notin> walked w" if "(st, s) \<in> E\<^sup>*" for s using ic that by (auto simp: icyc_ok_def)
    obtain s where s: "(st, s) \<in> E\<^sup>*" "(s, st) \<in> E" using cyc by (auto dest: tranclD2)
    then have "s \<in> black w" using dom g by auto
    then show False using none [OF s(1)] view_okD(7) [OF v _ s(2)] by simp
  qed
qed (use ic in \<open>simp add: icyc_ok_def\<close>)

text \<open>C2. Over an FST with a start state, finitely many states and no more than a 32-bit search number can
  name, the visitor of strongly connected components leaves with its caller: a numbering that gives two states
  the same number exactly when each reaches the other, uses every number below the count of components, and
  never falls along an arc; the set of states the start state reaches; the set of states that reach one with a
  final weight; and the eight property bits of those questions, each with its right answer.\<close>

theorem scc_visit_exact:
  fixes f :: "'w::zero fst_view" and final_weight :: "state_id \<Rightarrow> 'w" and is_member :: "'w \<Rightarrow> bool"
  assumes fin: "finite_fst n f" "\<And>s. n \<le> s \<Longrightarrow> fv_arcs f s = []" and start: "fv_start f = Some st"
    and n: "n \<le> 2 ^ 32" and v0: "sets_ok v0"
  shows "\<exists>v. dfs_visit (scc_visitor_of (fv_start f) final_weight is_member) f flt False v0 = Some v \<and>
    (case sv_scc v0 of None \<Rightarrow> sv_scc v = None
     | Some _ \<Rightarrow> \<exists>c. sv_scc v = Some c \<and> scc_numbering n (steps f flt) (sv_nscc v) c) \<and>
    (case sv_access v0 of None \<Rightarrow> sv_access v = None
     | Some _ \<Rightarrow> \<exists>a. sv_access v = Some a \<and> bs_ok a \<and> members a = (steps f flt)\<^sup>* `` {st}) \<and>
    bs_ok (sv_coaccess v) \<and>
    (if sv_want_coaccess v0
     then members (sv_coaccess v) \<inter> {..<n} = {s. s < n \<and> reaches (steps f flt) (productive final_weight is_member \<inter> {..<n}) s}
     else True) \<and>
    dfs_bits (sv_want_coaccess v0) (sv_props v0) (\<not> acyclic (steps f flt)) ((st, st) \<in> (steps f flt)\<^sup>+)
      ((steps f flt)\<^sup>* `` {st} \<noteq> {..<n})
      (\<exists>s < n. \<not> reaches (steps f flt) (productive final_weight is_member \<inter> {..<n}) s) (sv_props v)"
proof -
  let ?V = "scc_visitor_of (fv_start f) final_weight is_member" and ?E = "steps f flt"
  let ?F = "productive final_weight is_member" and ?want = "sv_want_coaccess v0"
  have dom: "?E \<subseteq> {..<n} \<times> {..<n}"
  proof clarify
    fix s u assume su: "(s, u) \<in> ?E"
    then obtain a where a: "a \<in> set (fv_arcs f s)" "u = nextstate a" by (auto simp: steps_def)
    have "s < n" using a(1) fin(2) [of s] by (metis list.set(1) empty_iff not_le)
    then show "s \<in> {..<n} \<and> u \<in> {..<n}" using a fin(1) unfolding finite_fst_def by auto
  qed
  have stn: "st < n" using fin(1) start by (simp add: finite_fst_def)
  obtain v1 where v1: "v_init_visit ?V v0 = Some v1"
      "sv_kept (sv_scc v0 = None) (sv_access v0 = None) n ?E ?F (fv_start f) ?want (sv_props v0) empty_view v1"
    using init_visit_run [OF v0 n, of st ?E ?F] start by (auto simp: scc_visitor_of_def)
  obtain u w where u: "dfs_visit ?V f flt False v0 = sv_finish_visit u" and w: "view_ok n ?E w"
      "sv_kept (sv_scc v0 = None) (sv_access v0 = None) n ?E ?F (fv_start f) ?want (sv_props v0) w u"
      "grey w = []" "black w = {..<n}"
    using sccvis.visit_run [OF fin(1) start v1] by (auto simp: scc_visitor_of_def)
  obtain st' t acc cyc icyc where K: "n \<le> 2 ^ 32" "fv_start f = Some st'" "tj_ok ?E w t" "sv_tables (sv_scc v0 = None) n w t u"
    "acc_ok ?E st' w acc" "access_is (sv_access v0 = None) acc u" "bs_ok (sv_coaccess u)"
    "?want \<longrightarrow> co_ok ?E ?F w t (members (sv_coaccess u))"
    "if cyc then \<not> acyclic ?E else no_back ?E w" "icyc_ok ?E st' w acc icyc" "sv_start u = Some st'"
    "sv_want_coaccess u = ?want"
    "dfs_bits ?want (sv_props v0) cyc icyc (acc \<noteq> seen w) (unproductive ?E ?F w t) (sv_building u)"
    using w(2) by (rule sv_keptE)
  have st': "st' = st" using K(2) start by simp
  have seen: "seen w = {..<n}" using w(3,4) by (simp add: seen_def)
  have "tj_stack t = []"
    using K(3) w(3) unfolding tj_ok_def tj_reach_def by (cases "tj_stack t") auto
  then have off: "closed_off w t = {..<n}" by (simp add: closed_off_def seen)
  have acc: "acc = ?E\<^sup>* `` {st}" using acc_ok_end [OF w(1) K(5) w(3,4)] stn st' by simp
  have icyc: "icyc \<longleftrightarrow> (st, st) \<in> ?E\<^sup>+"
    using icyc_ok_end [OF w(1) _ w(4) dom] K(10) acc st' by simp
  have cyc: "cyc \<longleftrightarrow> \<not> acyclic ?E"
  proof (cases cyc)
    case False
    then have "no_back ?E w" using K(9) by simp
    then obtain L where L: "distinct L" "set L = {..<n}" "finished_after ?E L" using w(4) by (auto simp: no_back_def)
    have "acyclic ?E" using finished_after_acyclic [OF L(3,1)] dom L(2) by auto
    then show ?thesis using False by simp
  qed (use K(9) in simp)
  have Fn: "reaches ?E ?F s \<longleftrightarrow> reaches ?E (?F \<inter> {..<n}) s" if "s < n" for s
  proof -
    have "x < n" if "(s, x) \<in> ?E\<^sup>*" for x using that by (induction rule: rtrancl_induct) (use \<open>s < n\<close> dom in auto)
    then show ?thesis by (auto simp: reaches_def)
  qed
  obtain c where fin_scc: "(case sv_scc u of None \<Rightarrow> Some None
        | Some scc \<Rightarrow> map_option Some (those (map (renumber (sv_nscc u)) scc))) = Some c"
      "case sv_scc v0 of None \<Rightarrow> c = None | Some _ \<Rightarrow> \<exists>d. c = Some d \<and> scc_numbering n ?E (sv_nscc u) d"
  proof (cases "sv_scc u")
    case None
    then show ?thesis using that [of None] sv_tablesD(13) [OF K(4)] by simp
  next
    case (Some d)
    obtain d' where "those (map (renumber (sv_nscc u)) d) = Some d'" "scc_numbering n ?E (sv_nscc u) d'"
      using numbering_exact [OF K(4,3) off n dom Some seen] by blast
    moreover have "sv_scc v0 \<noteq> None" using sv_tablesD(13) [OF K(4)] Some by simp
    ultimately show ?thesis using that [of "Some d'"] Some by auto
  qed
  let ?v = "u\<lparr>sv_props := sv_building u, sv_scc := c\<rparr>"
  have run: "dfs_visit ?V f flt False v0 = Some ?v" unfolding u(1) sv_finish_visit_def Let_def using fin_scc(1) by (cases "sv_scc u") auto
  have access: "case sv_access v0 of None \<Rightarrow> sv_access ?v = None
     | Some _ \<Rightarrow> \<exists>a. sv_access ?v = Some a \<and> bs_ok a \<and> members a = ?E\<^sup>* `` {st}"
    using K(6) acc by (cases "sv_access v0") (auto simp: access_is_def)
  have co: "members (sv_coaccess u) \<inter> {..<n} = {s. s < n \<and> reaches ?E (?F \<inter> {..<n}) s}" if ?want
  proof -
    have "co_ok ?E ?F w t (members (sv_coaccess u))" using K(8) that by simp
    note co = co_okD(1,2) [OF this]
    show ?thesis using co Fn off by blast
  qed
  have un: "unproductive ?E ?F w t \<longleftrightarrow> (\<exists>s < n. \<not> reaches ?E (?F \<inter> {..<n}) s)"
    unfolding unproductive_def off using Fn by auto
  note bits = K(13) [unfolded cyc icyc acc seen un]
  show ?thesis
  proof (intro exI [of _ ?v] conjI run access)
    show "case sv_scc v0 of None \<Rightarrow> sv_scc ?v = None
      | Some _ \<Rightarrow> \<exists>c. sv_scc ?v = Some c \<and> scc_numbering n ?E (sv_nscc ?v) c"
      using fin_scc(2) by (cases "sv_scc v0") auto
  qed (use co K(7) bits in simp_all)
qed

text \<open>A cycle through the start state, an arc out of it to a final state, and a state that reaches nothing
  and that nothing reaches.\<close>

definition scc_fst :: "nat fst_view" where
  "scc_fst = \<lparr>fv_start = Some 0, fv_num_states = Some 4, fv_expanded = True, fv_states = [0, 1, 2, 3],
     fv_arcs = (\<lambda>s. if s = 0 then [arc_new 1 1 1 1] else if s = 1 then [arc_new 1 1 1 0, arc_new 2 2 1 2] else [])\<rparr>"

definition scc_final :: "state_id \<Rightarrow> nat" where
  "scc_final s = (if s = 2 then 1 else 0)"

lemma scc_fst_ok: "finite_fst 4 scc_fst" "4 \<le> s \<Longrightarrow> fv_arcs scc_fst s = []" "fv_start scc_fst = Some 0"
  by (auto simp: scc_fst_def finite_fst_def)

lemma steps_upto:
  assumes "\<And>s. n \<le> s \<Longrightarrow> fv_arcs f s = []"
  shows "steps f flt = (\<Union>s \<in> {..<n}. (\<lambda>a. (s, nextstate a)) ` {a \<in> set (fv_arcs f s). flt a})"
proof -
  have "s < n" if "a \<in> set (fv_arcs f s)" for s a using assms [of s] that by (cases "n \<le> s") auto
  then show ?thesis by (auto simp: steps_def)
qed

lemma scc_fst_steps: "steps scc_fst (\<lambda>_. True) = {(0, 1), (1, 0), (1, 2)}"
proof -
  have "{..<4 :: nat} = {0, 1, 2, 3}" by auto
  then show ?thesis using steps_upto [of 4 scc_fst "\<lambda>_. True"] scc_fst_ok(2)
    by (simp add: scc_fst_def insert_commute)
qed

theorem scc_visit_exact_witness:
  "\<exists>v c. dfs_visit (scc_visitor_of (fv_start scc_fst) scc_final (\<lambda>_. True)) scc_fst (\<lambda>_. True) False
       (scc_visitor_new (Some []) (Some gbs_new) None 0) = Some v \<and>
     sv_scc v = Some c \<and> length c = 4 \<and> c ! 0 = c ! 1 \<and> c ! 1 \<le> c ! 2 \<and> bit (sv_props v) 34 \<and> bit (sv_props v) 36"
proof -
  let ?v0 = "scc_visitor_new (Some []) (Some gbs_new) None 0" and ?E = "{(0, 1), (1, 0), (1, 2)} :: (state_id \<times> state_id) set"
  have ok: "sets_ok ?v0" using new_empty_run [of 0] by (intro scc_visitor_new_ok) (simp_all add: gbs_new_def)
  obtain v where v: "dfs_visit (scc_visitor_of (fv_start scc_fst) scc_final (\<lambda>_. True)) scc_fst (\<lambda>_. True) False ?v0 = Some v"
      "case sv_scc ?v0 of None \<Rightarrow> sv_scc v = None
       | Some _ \<Rightarrow> \<exists>c. sv_scc v = Some c \<and> scc_numbering 4 ?E (sv_nscc v) c"
      "dfs_bits (sv_want_coaccess ?v0) (sv_props ?v0) (\<not> acyclic ?E) ((0, 0) \<in> ?E\<^sup>+) (?E\<^sup>* `` {0} \<noteq> {..<4})
        (\<exists>s < 4. \<not> reaches ?E (productive scc_final (\<lambda>_. True) \<inter> {..<4}) s) (sv_props v)"
    using scc_visit_exact [OF scc_fst_ok _ ok, where flt = "\<lambda>_. True" and final_weight = scc_final and is_member = "\<lambda>_. True"] unfolding scc_fst_steps by auto
  obtain c where c: "sv_scc v = Some c" "scc_numbering 4 ?E (sv_nscc v) c" using v(2) by (auto simp: scc_visitor_new_def)
  have "(0, 1) \<in> ?E\<^sup>*" "(1, 0) \<in> ?E\<^sup>*" by auto
  then have "c ! 0 = c ! 1" using c(2) by (simp add: scc_numbering_def)
  moreover have "c ! 1 \<le> c ! 2" "length c = 4" using c(2) by (auto simp: scc_numbering_def)
  moreover have cyc: "(0, 0) \<in> ?E\<^sup>+" by (rule trancl_into_trancl [of _ 1]) auto
  moreover have "bit (sv_props v) 34" "bit (sv_props v) 36"
    using v(3) cyc unfolding dfs_bits_def acyclic_def by auto
  ultimately show ?thesis using v(1) c(1) by blast
qed

end
