(* ===== verification/TestProperties.thy ===== *)
theory TestProperties
  imports SccExact
begin

text \<open>
  The entry points of \<open>algorithms/test_properties.rs\<close>: a search for the bits that need one, the scan for
  the others, and the cache they are read from and written back to.
\<close>

section \<open>The code\<close>

text \<open>What a depth-first search asks of a vector FST.\<close>

definition vector_view :: "('w::{zero,one}, 'sym) vector_fst \<Rightarrow> 'w fst_view" where
  "vector_view f = \<lparr>fv_start = vf_start f, fv_num_states = Some (vf_num_states f),
     fv_expanded = (cache_get_masked (vf_properties f) K_EXPANDED AND K_EXPANDED \<noteq> 0),
     fv_states = [0..<vf_num_states f], fv_arcs = vf_arcs f\<rparr>"

record computed_properties =
  cp_props :: "64 word"
  cp_known :: "64 word"

definition compute_properties ::
  "('w::{zero,one} \<Rightarrow> bool) \<Rightarrow> ('w, 'sym) vector_fst \<Rightarrow> 64 word \<Rightarrow> computed_properties option" where
  "compute_properties is_member f m = do {
     let props = cache_get_masked (vf_properties f) K_FST_PROPERTIES AND K_BINARY_PROPERTIES;
     (scc, props) \<leftarrow> (if m AND K_CYCLE_PROPERTIES \<noteq> 0 then do {
         v \<leftarrow> dfs_visit_any (scc_visitor_of (vf_start f) (vf_final_weight f) is_member) (vector_view f)
           (scc_visitor_new (Some []) None None props);
         Some (case sv_scc v of None \<Rightarrow> [] | Some scc \<Rightarrow> scc, sv_props v) }
       else Some ([], props));
     let props = scan_properties m scc props f;
     Some \<lparr>cp_props = props, cp_known = known_properties props\<rparr> }"

definition compute_or_use_stored_properties ::
  "('w::{zero,one} \<Rightarrow> bool) \<Rightarrow> ('w, 'sym) vector_fst \<Rightarrow> 64 word \<Rightarrow> computed_properties option" where
  "compute_or_use_stored_properties is_member f m =
     (let props = cache_get_masked (vf_properties f) K_FST_PROPERTIES;
          known = known_properties props
      in if known AND m = m then Some \<lparr>cp_props = props, cp_known = known\<rparr>
         else compute_properties is_member f m)"

definition test_properties ::
  "('w::{zero,one} \<Rightarrow> bool) \<Rightarrow> ('w, 'sym) vector_fst \<Rightarrow> 64 word \<Rightarrow> bool \<Rightarrow> computed_properties option" where
  "test_properties is_member f m verify =
     (if \<not> verify then compute_or_use_stored_properties is_member f m
      else do {
        let stored = cache_get_masked (vf_properties f) K_FST_PROPERTIES;
        computed \<leftarrow> compute_properties is_member f m;
        Some (if \<not> compat_properties stored (cp_props computed)
              then computed\<lparr>cp_props := cp_props computed OR K_ERROR\<rparr> else computed) })"

definition check_properties ::
  "('w::{zero,one} \<Rightarrow> bool) \<Rightarrow> ('w, 'sym) vector_fst \<Rightarrow> 64 word \<Rightarrow> 64 word \<Rightarrow> bool \<Rightarrow> 64 word option" where
  "check_properties is_member f check_mask test_mask verify = do {
     let props = cache_get_masked (vf_properties f) K_FST_PROPERTIES;
     props \<leftarrow> (if verify then map_option cp_props (test_properties is_member f (check_mask OR test_mask) True)
       else if known_properties props AND check_mask \<noteq> check_mask
       then map_option cp_props (compute_properties is_member f (check_mask OR test_mask))
       else Some props);
     Some (props AND (check_mask OR test_mask)) }"

text \<open>The cache is written through a shared reference, so the FST comes back with it.\<close>

definition cached_properties ::
  "('w::{zero,one} \<Rightarrow> bool) \<Rightarrow> ('w, 'sym) vector_fst \<Rightarrow> 64 word \<Rightarrow> bool \<Rightarrow>
   (64 word \<times> ('w, 'sym) vector_fst) option" where
  "cached_properties is_member f m test =
     (if \<not> test then Some (cache_get_masked (vf_properties f) m, f)
      else do {
        computed \<leftarrow> test_properties is_member f m False;
        let f = modify_properties (\<lambda>cache. cache_discover cache (cp_props computed) (cp_known computed)) f;
        Some (cp_props computed AND m, f) })"

section \<open>The truth about an FST, bit by bit\<close>

definition facts :: "'w::{zero,one} states \<Rightarrow> nat option \<Rightarrow> bool list" where
  "facts ss start = [is_acceptor ss, i_deterministic ss, o_deterministic ss, has_epsilons ss, has_iepsilons ss,
     has_oepsilons ss, i_label_sorted ss, o_label_sorted ss, is_weighted ss, is_cyclic ss, is_initial_cyclic ss start,
     is_top_sorted ss, is_accessible ss start, is_coaccessible ss, is_string ss start, has_weighted_cycles ss]"

definition truth :: "'w::{zero,one} states \<Rightarrow> nat option \<Rightarrow> nat \<Rightarrow> bool" where
  "truth ss start i \<longleftrightarrow> (facts ss start ! ((i - 16) div 2) \<longleftrightarrow> even i)"

definition trinary :: "nat set" where
  "trinary = {16..<48}"

lemma and_one_bit: "(\<And>j. bit (k :: 64 word) j \<longleftrightarrow> j = i) \<Longrightarrow> p AND k \<noteq> 0 \<longleftrightarrow> bit p i"
  by (auto simp: and_zero_iff)

lemma truth_simps:
  "truth ss start 16 = is_acceptor ss" "truth ss start 17 = (\<not> is_acceptor ss)"
  "truth ss start 18 = i_deterministic ss" "truth ss start 19 = (\<not> i_deterministic ss)"
  "truth ss start 20 = o_deterministic ss" "truth ss start 21 = (\<not> o_deterministic ss)"
  "truth ss start 22 = has_epsilons ss" "truth ss start 23 = (\<not> has_epsilons ss)"
  "truth ss start 24 = has_iepsilons ss" "truth ss start 25 = (\<not> has_iepsilons ss)"
  "truth ss start 26 = has_oepsilons ss" "truth ss start 27 = (\<not> has_oepsilons ss)"
  "truth ss start 28 = i_label_sorted ss" "truth ss start 29 = (\<not> i_label_sorted ss)"
  "truth ss start 30 = o_label_sorted ss" "truth ss start 31 = (\<not> o_label_sorted ss)"
  "truth ss start 32 = is_weighted ss" "truth ss start 33 = (\<not> is_weighted ss)"
  "truth ss start 34 = is_cyclic ss" "truth ss start 35 = (\<not> is_cyclic ss)"
  "truth ss start 36 = is_initial_cyclic ss start" "truth ss start 37 = (\<not> is_initial_cyclic ss start)"
  "truth ss start 38 = is_top_sorted ss" "truth ss start 39 = (\<not> is_top_sorted ss)"
  "truth ss start 40 = is_accessible ss start" "truth ss start 41 = (\<not> is_accessible ss start)"
  "truth ss start 42 = is_coaccessible ss" "truth ss start 43 = (\<not> is_coaccessible ss)"
  "truth ss start 44 = is_string ss start" "truth ss start 45 = (\<not> is_string ss start)"
  "truth ss start 46 = has_weighted_cycles ss" "truth ss start 47 = (\<not> has_weighted_cycles ss)"
  by (simp_all add: truth_def facts_def)

lemma trinary_upt: "trinary = set [16, 17, 18, 19, 20, 21, 22, 23, 24, 25, 26, 27, 28, 29, 30, 31, 32, 33, 34, 35, 36, 37,
    38, 39, 40, 41, 42, 43, 44, 45, 46, 47]"
proof -
  have "[16..<48] = [16, 17, 18, 19, 20, 21, 22, 23, 24, 25, 26, 27, 28, 29, 30, 31, 32, 33, 34, 35, 36, 37,
    38, 39, 40, 41, 42, 43, 44, 45, 46, 47 :: nat]" by code_simp
  then show ?thesis unfolding trinary_def by (metis set_upt)
qed

lemma sound_iff: "sound p ss start \<longleftrightarrow> (\<forall>i \<in> trinary. bit p i \<longrightarrow> truth ss start i)"
proof -
  have k: "p AND K_ACCEPTOR \<noteq> 0 \<longleftrightarrow> bit p 16" "p AND K_NOT_ACCEPTOR \<noteq> 0 \<longleftrightarrow> bit p 17"
    "p AND K_I_DETERMINISTIC \<noteq> 0 \<longleftrightarrow> bit p 18" "p AND K_NON_I_DETERMINISTIC \<noteq> 0 \<longleftrightarrow> bit p 19"
    "p AND K_O_DETERMINISTIC \<noteq> 0 \<longleftrightarrow> bit p 20" "p AND K_NON_O_DETERMINISTIC \<noteq> 0 \<longleftrightarrow> bit p 21"
    "p AND K_EPSILONS \<noteq> 0 \<longleftrightarrow> bit p 22" "p AND K_NO_EPSILONS \<noteq> 0 \<longleftrightarrow> bit p 23"
    "p AND K_I_EPSILONS \<noteq> 0 \<longleftrightarrow> bit p 24" "p AND K_NO_I_EPSILONS \<noteq> 0 \<longleftrightarrow> bit p 25"
    "p AND K_O_EPSILONS \<noteq> 0 \<longleftrightarrow> bit p 26" "p AND K_NO_O_EPSILONS \<noteq> 0 \<longleftrightarrow> bit p 27"
    "p AND K_I_LABEL_SORTED \<noteq> 0 \<longleftrightarrow> bit p 28" "p AND K_NOT_I_LABEL_SORTED \<noteq> 0 \<longleftrightarrow> bit p 29"
    "p AND K_O_LABEL_SORTED \<noteq> 0 \<longleftrightarrow> bit p 30" "p AND K_NOT_O_LABEL_SORTED \<noteq> 0 \<longleftrightarrow> bit p 31"
    "p AND K_WEIGHTED \<noteq> 0 \<longleftrightarrow> bit p 32" "p AND K_UNWEIGHTED \<noteq> 0 \<longleftrightarrow> bit p 33"
    "p AND K_CYCLIC \<noteq> 0 \<longleftrightarrow> bit p 34" "p AND K_ACYCLIC \<noteq> 0 \<longleftrightarrow> bit p 35"
    "p AND K_INITIAL_CYCLIC \<noteq> 0 \<longleftrightarrow> bit p 36" "p AND K_INITIAL_ACYCLIC \<noteq> 0 \<longleftrightarrow> bit p 37"
    "p AND K_TOP_SORTED \<noteq> 0 \<longleftrightarrow> bit p 38" "p AND K_NOT_TOP_SORTED \<noteq> 0 \<longleftrightarrow> bit p 39"
    "p AND K_ACCESSIBLE \<noteq> 0 \<longleftrightarrow> bit p 40" "p AND K_NOT_ACCESSIBLE \<noteq> 0 \<longleftrightarrow> bit p 41"
    "p AND K_CO_ACCESSIBLE \<noteq> 0 \<longleftrightarrow> bit p 42" "p AND K_NOT_CO_ACCESSIBLE \<noteq> 0 \<longleftrightarrow> bit p 43"
    "p AND K_STRING \<noteq> 0 \<longleftrightarrow> bit p 44" "p AND K_NOT_STRING \<noteq> 0 \<longleftrightarrow> bit p 45"
    "p AND K_WEIGHTED_CYCLES \<noteq> 0 \<longleftrightarrow> bit p 46" "p AND K_UNWEIGHTED_CYCLES \<noteq> 0 \<longleftrightarrow> bit p 47"
    by (rule and_one_bit; simp)+
  show ?thesis
    unfolding sound_def claims_def k trinary_upt list.set ball_simps truth_simps by (simp only: simp_thms conj_assoc)
qed

section \<open>The scan leaves the search's bits alone\<close>

definition of_search :: "nat \<Rightarrow> bool" where
  "of_search i \<longleftrightarrow> i < 3 \<or> i \<in> {34, 35, 36, 37, 40, 41, 42, 43}"

lemma scan_weight_search: "of_search i \<Longrightarrow> bit (scan_weight scc s a p) i = bit p i"
  by (auto simp: of_search_def bit_scan_weight)

lemma scan_order_search: "of_search i \<Longrightarrow> bit (scan_order prev a p) i = bit p i"
  by (auto simp: of_search_def bit_scan_order)

lemma refute_search:
  "of_search i \<Longrightarrow> \<not> bit on i \<Longrightarrow> \<not> bit off i \<Longrightarrow> bit (refute c on off p) i = bit p i"
  by (auto simp: of_search_def bit_refute)

lemma scan_arc_search: "of_search i \<Longrightarrow> bit (sc_props (scan_arc ci co scc s a sc)) i = bit (sc_props sc) i"
proof -
  assume i: "of_search i"
  then have "i \<notin> {16, 17, 18, 19, 20, 21, 22, 23, 24, 25, 26, 27, 38, 39, 44, 45}" by (auto simp: of_search_def)
  then show ?thesis
    by (simp add: scan_arc_def Let_def refute_search [OF i] scan_weight_search [OF i] scan_order_search [OF i])
qed

lemma scan_arcs_search: "of_search i \<Longrightarrow> bit (sc_props (fold (scan_arc ci co scc s) as sc)) i = bit (sc_props sc) i"
  by (induction as arbitrary: sc) (simp_all add: scan_arc_search)

lemma scan_state_search: "of_search i \<Longrightarrow> bit (fst (scan_state ci co scc f s x)) i = bit (fst x) i"
  by (cases x) (auto simp: scan_state_def Let_def scan_arcs_search bit_refute of_search_def)

lemma scan_states_search: "of_search i \<Longrightarrow> bit (fst (fold (scan_state ci co scc f) ss x)) i = bit (fst x) i"
  by (induction ss arbitrary: x) (simp_all add: scan_state_search)

lemma scan_initial_search: "of_search i \<Longrightarrow> bit (scan_initial m p) i = bit p i"
  by (subst bit_scan_initial) (auto simp: of_search_def)

lemma scan_properties_search: "of_search i \<Longrightarrow> bit (scan_properties m scc p f) i = bit p i"
proof (cases "scan_asked m")
  case True
  assume i: "of_search i"
  then have "i < 64" "i \<noteq> 44" "i \<noteq> 45" by (auto simp: of_search_def)
  then show ?thesis
    using i unfolding scan_properties_run [OF True]
    by (cases "vf_start f") (simp_all add: scan_states_search scan_initial_search bit_refute)
next
  case False
  then show ?thesis by (simp add: scan_properties_def scan_asked_def)
qed

section \<open>The search\<close>

lemma vector_view_steps: "steps (vector_view f) (\<lambda>_. True) = edges (vf_states f)"
  by (simp add: steps_def vector_view_def edges_def vf_arcs_of)

lemma vf_closed_edges: "vf_closed f \<Longrightarrow> edges (vf_states f) \<subseteq> {..<length (vf_states f)} \<times> {..<length (vf_states f)}"
  by (fastforce simp: vf_closed_def edges_def arcs_of_def split: if_splits)

lemma vector_view_ok:
  assumes "vf_closed f"
  shows "finite_fst (length (vf_states f)) (vector_view f)"
    "length (vf_states f) \<le> s \<Longrightarrow> fv_arcs (vector_view f) s = []"
proof -
  have "nextstate a < length (vf_states f)" if "s < length (vf_states f)" "a \<in> set (vf_arcs f s)" for s a
    using assms(1) that by (auto simp: vf_closed_def vf_arcs_def)
  moreover have "case vf_start f of None \<Rightarrow> True | Some s \<Rightarrow> s < length (vf_states f)"
    using assms(1) by (auto simp: vf_closed_def split: option.split)
  ultimately show "finite_fst (length (vf_states f)) (vector_view f)"
    by (simp add: finite_fst_def vector_view_def vf_num_states_def atLeast0LessThan)
  show "length (vf_states f) \<le> s \<Longrightarrow> fv_arcs (vector_view f) s = []"
    by (simp add: vector_view_def vf_arcs_def)
qed

text \<open>Every final weight is one the semiring counts as a member.\<close>

definition proper_finals :: "('w::{zero,one} \<Rightarrow> bool) \<Rightarrow> ('w, 'sym) vector_fst \<Rightarrow> bool" where
  "proper_finals is_member f \<longleftrightarrow> (\<forall>v \<in> set (vf_states f). vs_final v \<noteq> 0 \<longrightarrow> is_member (vs_final v))"

lemma productive_proper:
  "proper_finals is_member f \<Longrightarrow> productive (vf_final_weight f) is_member \<inter> {..<length (vf_states f)} =
     {s. s < length (vf_states f) \<and> vs_final (vf_states f ! s) \<noteq> 0}"
  by (auto simp: productive_def vf_final_weight_def proper_finals_def)

lemma coaccessible_reaches:
  assumes "proper_finals is_member f"
  shows "is_coaccessible (vf_states f) \<longleftrightarrow> \<not> (\<exists>s < length (vf_states f).
     \<not> reaches (edges (vf_states f)) (productive (vf_final_weight f) is_member \<inter> {..<length (vf_states f)}) s)"
  unfolding productive_proper [OF assms] is_coaccessible_def reaches_def by auto

lemma accessible_reaches:
  assumes "vf_closed f" "vf_start f = Some st"
  shows "is_accessible (vf_states f) (vf_start f) \<longleftrightarrow> (edges (vf_states f))\<^sup>* `` {st} = {..<length (vf_states f)}"
proof -
  have st: "st < length (vf_states f)" using assms by (simp add: vf_closed_def)
  have "s < length (vf_states f)" if "(st, s) \<in> (edges (vf_states f))\<^sup>*" for s
    using that by (induction rule: rtrancl_induct) (use st vf_closed_edges [OF assms(1)] in auto)
  then show ?thesis unfolding is_accessible_def assms(2) by auto
qed

text \<open>What the search leaves: the bits that only it settles, the components, and the bits it was given.\<close>

definition searched :: "('w::{zero,one}, 'sym) vector_fst \<Rightarrow> 64 word \<Rightarrow> state_id list \<Rightarrow> 64 word \<Rightarrow> bool" where
  "searched f p0 scc p \<longleftrightarrow> (\<forall>i < 64. if i \<in> {34, 35, 36, 37, 40, 41, 42, 43}
       then bit p i = truth (vf_states f) (vf_start f) i else bit p i = bit p0 i) \<and>
     (\<forall>s < length (vf_states f). bad_cycle scc s (vf_arcs f s) \<longleftrightarrow>
       (\<exists>a \<in> set (vf_arcs f s). (nextstate a, s) \<in> (edges (vf_states f))\<^sup>* \<and> weighted_arc a))"

lemma no_start_run:
  assumes "vf_start f = None"
  shows "\<exists>v. dfs_visit_any (scc_visitor_of (vf_start f) (vf_final_weight f) is_member) (vector_view f)
       (scc_visitor_new (Some []) None None p0) = Some v \<and> sv_scc v = Some [] \<and>
     dfs_bits True p0 False False False False (sv_props v)"
  using dfs_bits_run(1) [of True p0] assms
  by (simp add: dfs_visit_any_def dfs_visit_def vector_view_def scc_visitor_of_def sv_init_visit_def scc_visitor_new_def
      sv_finish_visit_def Let_def)

lemma search_run:
  fixes f :: "('w::{zero,one}, 'sym) vector_fst"
  assumes cl: "vf_closed f" and n: "length (vf_states f) \<le> 2 ^ 32"
    and fin: "proper_finals is_member f" and st: "vf_start f = None \<longrightarrow> vf_states f = []"
  shows "\<exists>v. dfs_visit_any (scc_visitor_of (vf_start f) (vf_final_weight f) is_member) (vector_view f)
       (scc_visitor_new (Some []) None None p0) = Some v \<and>
     searched f p0 (case sv_scc v of None \<Rightarrow> [] | Some scc \<Rightarrow> scc) (sv_props v)"
proof -
  let ?v0 = "scc_visitor_new (Some []) None None p0" and ?E = "edges (vf_states f)" and ?n = "length (vf_states f)"
  let ?F = "productive (vf_final_weight f) is_member \<inter> {..<?n}"
  have ok: "sets_ok ?v0" by (rule scc_visitor_new_ok) simp_all
  show ?thesis
  proof (cases "vf_start f")
    case None
    obtain v where v: "dfs_visit_any (scc_visitor_of (vf_start f) (vf_final_weight f) is_member) (vector_view f) ?v0 = Some v"
        "sv_scc v = Some []" "dfs_bits True p0 False False False False (sv_props v)"
      using no_start_run [OF None] by blast
    have "vf_states f = []" using None st by simp
    then have t: "truth (vf_states f) (vf_start f) 34 = False" "truth (vf_states f) (vf_start f) 36 = False"
        "truth (vf_states f) (vf_start f) 40" "truth (vf_states f) (vf_start f) 42" "?E = {}"
      using None by (simp_all add: truth_simps is_cyclic_def is_initial_cyclic_def is_accessible_def is_coaccessible_def edges_def)
    have t': "truth (vf_states f) (vf_start f) 35" "truth (vf_states f) (vf_start f) 37"
        "truth (vf_states f) (vf_start f) 41 = False" "truth (vf_states f) (vf_start f) 43 = False"
      using t by (simp_all only: truth_simps simp_thms)
    have "searched f p0 [] (sv_props v)"
      using v(3) t t' \<open>vf_states f = []\<close> unfolding searched_def dfs_bits_def by auto
    then show ?thesis using v(1,2) by simp
  next
    case (Some st)
    obtain v c where v: "dfs_visit_any (scc_visitor_of (vf_start f) (vf_final_weight f) is_member) (vector_view f) ?v0 = Some v"
        "sv_scc v = Some c" "scc_numbering ?n ?E (sv_nscc v) c"
        "dfs_bits True p0 (\<not> acyclic ?E) ((st, st) \<in> ?E\<^sup>+) (?E\<^sup>* `` {st} \<noteq> {..<?n}) (\<exists>s < ?n. \<not> reaches ?E ?F s) (sv_props v)"
    proof -
      have s: "fv_start (vector_view f) = Some st" using Some by (simp add: vector_view_def)
      have e: "fv_start (vector_view f) = vf_start f" by (simp add: vector_view_def)
      have n0: "sv_scc ?v0 = Some []" "sv_want_coaccess ?v0" "sv_props ?v0 = p0" by (simp_all add: scc_visitor_new_def)
      obtain v where v: "dfs_visit (scc_visitor_of (vf_start f) (vf_final_weight f) is_member) (vector_view f) (\<lambda>_. True) False ?v0 = Some v"
          "case sv_scc ?v0 of None \<Rightarrow> sv_scc v = None
           | Some _ \<Rightarrow> \<exists>c. sv_scc v = Some c \<and> scc_numbering ?n ?E (sv_nscc v) c"
          "dfs_bits (sv_want_coaccess ?v0) (sv_props ?v0) (\<not> acyclic ?E) ((st, st) \<in> ?E\<^sup>+) (?E\<^sup>* `` {st} \<noteq> {..<?n})
             (\<exists>s < ?n. \<not> reaches ?E ?F s) (sv_props v)"
        using scc_visit_exact [OF vector_view_ok [OF cl] s n ok, where flt = "\<lambda>_. True"
            and final_weight = "vf_final_weight f" and is_member = is_member]
        unfolding vector_view_steps e by blast
      obtain c where "sv_scc v = Some c" "scc_numbering ?n ?E (sv_nscc v) c" using v(2) unfolding n0 by auto
      then show ?thesis using that [of v c] v(1,3) n0 by (simp add: dfs_visit_any_def)
    qed
    have a: "(\<not> acyclic ?E) = is_cyclic (vf_states f)" "((st, st) \<in> ?E\<^sup>+) = is_initial_cyclic (vf_states f) (vf_start f)"
        "(?E\<^sup>* `` {st} \<noteq> {..<?n}) = (\<not> is_accessible (vf_states f) (vf_start f))"
        "(\<exists>s < ?n. \<not> reaches ?E ?F s) = (\<not> is_coaccessible (vf_states f))"
      using accessible_reaches [OF cl Some] coaccessible_reaches [OF fin]
      by (simp_all add: acyclic_def is_cyclic_def is_initial_cyclic_def Some)
    have bits: "dfs_bits True p0 (is_cyclic (vf_states f)) (is_initial_cyclic (vf_states f) (vf_start f))
        (\<not> is_accessible (vf_states f) (vf_start f)) (\<not> is_coaccessible (vf_states f)) (sv_props v)"
      using v(4) unfolding a .
    have num: "length c = ?n" "\<And>s t. s < ?n \<Longrightarrow> t < ?n \<Longrightarrow> c ! s = c ! t \<longleftrightarrow> (s, t) \<in> ?E\<^sup>* \<and> (t, s) \<in> ?E\<^sup>*"
      using v(3) by (auto simp: scc_numbering_def)
    have "bad_cycle c s (vf_arcs f s) \<longleftrightarrow> (\<exists>a \<in> set (vf_arcs f s). (nextstate a, s) \<in> ?E\<^sup>* \<and> weighted_arc a)"
      if s: "s < ?n" for s
    proof -
      have "same_component c s (nextstate a) \<longleftrightarrow> (nextstate a, s) \<in> ?E\<^sup>*" if a: "a \<in> set (vf_arcs f s)" for a
      proof -
        have e: "(s, nextstate a) \<in> ?E" using a by (auto simp: edges_def vf_arcs_of)
        then have "nextstate a < ?n" using vf_closed_edges [OF cl] by auto
        then show ?thesis using num s e by (auto simp: same_component_def)
      qed
      then show ?thesis by (auto simp: bad_cycle_def)
    qed
    moreover have "if i \<in> {34, 35, 36, 37, 40, 41, 42, 43} then bit (sv_props v) i = truth (vf_states f) (vf_start f) i
        else bit (sv_props v) i = bit p0 i" if "i < 64" for i
      using bits that unfolding dfs_bits_def by (auto simp: truth_simps)
    ultimately show ?thesis using v(1,2) by (simp add: searched_def)
  qed
qed

section \<open>What comes back\<close>

definition by_search :: "nat set" where
  "by_search = {34, 35, 36, 37, 40, 41, 42, 43}"

text \<open>Which bits a mask makes the computation settle.\<close>

definition settled :: "64 word \<Rightarrow> nat \<Rightarrow> bool" where
  "settled m i \<longleftrightarrow>
     (if i \<in> by_search then m AND K_CYCLE_PROPERTIES \<noteq> 0
      else scan_asked m \<and> (i \<in> {18, 19} \<longrightarrow> bit m 18 \<or> bit m 19) \<and> (i \<in> {20, 21} \<longrightarrow> bit m 20 \<or> bit m 21) \<and>
        (i \<in> {46, 47} \<longrightarrow> m AND K_CYCLE_PROPERTIES \<noteq> 0))"

definition partner :: "nat \<Rightarrow> nat" where
  "partner i = (if even i then i + 1 else i - 1)"

lemma bit_binary: "bit (K_BINARY_PROPERTIES :: 64 word) i \<longleftrightarrow> i < 3"
  using bit_mask_iff [of 3 i, where 'a = "64 word"] by (auto simp: K_BINARY_PROPERTIES_def mask_eq_exp_minus_1)

lemma bit_dfs_mask: "bit K_DFS_PROPERTIES i \<longleftrightarrow> i \<in> by_search"
  by (auto simp: K_DFS_PROPERTIES_def word_bits by_search_def)

lemma bit_cycle_mask: "bit K_CYCLE_PROPERTIES i \<longleftrightarrow> i \<in> by_search \<or> i = 46 \<or> i = 47"
  by (auto simp: K_CYCLE_PROPERTIES_def word_bits bit_dfs_mask)

lemma settled_asked:
  assumes i: "i \<in> trinary" and m: "bit m i \<or> bit m (partner i)"
  shows "settled m i"
proof -
  have c: "m AND K_CYCLE_PROPERTIES \<noteq> 0" if "bit m j" "j \<in> by_search \<or> j = 46 \<or> j = 47" for j
    using that by (auto simp: and_zero_iff bit_cycle_mask)
  have q: "scan_asked m" if "bit m j" "j \<notin> by_search" "3 \<le> j" "j < 64" for j
    using that unfolding scan_asked_def and_zero_iff by (auto simp: word_bits bit_binary bit_dfs_mask intro!: exI [of _ j])
  have "i = 16 \<or> i = 17 \<or> i = 18 \<or> i = 19 \<or> i = 20 \<or> i = 21 \<or> i = 22 \<or> i = 23 \<or> i = 24 \<or> i = 25 \<or> i = 26 \<or> i = 27 \<or>
      i = 28 \<or> i = 29 \<or> i = 30 \<or> i = 31 \<or> i = 32 \<or> i = 33 \<or> i = 34 \<or> i = 35 \<or> i = 36 \<or> i = 37 \<or> i = 38 \<or> i = 39 \<or>
      i = 40 \<or> i = 41 \<or> i = 42 \<or> i = 43 \<or> i = 44 \<or> i = 45 \<or> i = 46 \<or> i = 47"
    using i unfolding trinary_upt list.set insert_iff empty_iff by (simp only: simp_thms)
  then show ?thesis
    by (elim disjE; use m c [of i] c [of "partner i"] q [of i] q [of "partner i"] in \<open>auto simp: settled_def by_search_def partner_def\<close>)
qed

lemma weighted_cycles_ex:
  "has_weighted_cycles ss \<longleftrightarrow> (\<exists>s < length ss. \<exists>a \<in> set (arcs_of ss s). (nextstate a, s) \<in> (edges ss)\<^sup>* \<and> weighted_arc a)"
  using arcs_of_ex [of ss "\<lambda>s a. (nextstate a, s) \<in> (edges ss)\<^sup>* \<and> weighted_arc a"]
  by (simp add: has_weighted_cycles_def weighted_arc_trivial)

lemma computed_bits:
  assumes d: "m AND K_CYCLE_PROPERTIES \<noteq> 0 \<Longrightarrow> searched f p0 scc p" and nd: "m AND K_CYCLE_PROPERTIES = 0 \<Longrightarrow> p = p0"
    and p0: "\<And>i. 3 \<le> i \<Longrightarrow> \<not> bit p0 i"
  shows "i \<in> trinary \<Longrightarrow> bit (scan_properties m scc p f) i \<longleftrightarrow> settled m i \<and> truth (vf_states f) (vf_start f) i"
    "i < 3 \<Longrightarrow> bit (scan_properties m scc p f) i = bit p0 i"
proof -
  have low: "bit p i = bit p0 i" if "i < 64" "i \<notin> by_search" for i
    using d nd that unfolding searched_def by_search_def by (cases "m AND K_CYCLE_PROPERTIES = 0") auto
  have high: "bit p i \<longleftrightarrow> m AND K_CYCLE_PROPERTIES \<noteq> 0 \<and> truth (vf_states f) (vf_start f) i" if "i \<in> by_search" for i
  proof (cases "m AND K_CYCLE_PROPERTIES = 0")
    case True
    then show ?thesis using nd p0 [of i] that by (auto simp: by_search_def)
  next
    case False
    then show ?thesis using d that unfolding searched_def by_search_def by auto
  qed
  show "i < 3 \<Longrightarrow> bit (scan_properties m scc p f) i = bit p0 i"
    using low [of i] scan_properties_search [of i] by (auto simp: of_search_def by_search_def)
  assume i: "i \<in> trinary"
  show "bit (scan_properties m scc p f) i \<longleftrightarrow> settled m i \<and> truth (vf_states f) (vf_start f) i"
  proof (cases "i \<in> by_search")
    case True
    then have "of_search i" by (auto simp: of_search_def by_search_def)
    then show ?thesis using high [OF True] True by (simp add: settled_def scan_properties_search)
  next
    case other: False
    show ?thesis
    proof (cases "scan_asked m")
      case False
      then have "scan_properties m scc p f = p" by (simp add: scan_properties_def scan_asked_def)
      then show ?thesis using False other low [of i] p0 [of i] i by (simp add: settled_def trinary_def)
    next
      case True
      have un: "unscanned p"
        unfolding unscanned_def and_zero_iff
      proof (intro allI notI)
        fix j assume j: "bit p j \<and> bit (NOT (K_BINARY_PROPERTIES OR K_DFS_PROPERTIES)) j"
        then have "j < 64" "j \<notin> by_search" "\<not> j < 3" by (auto simp: word_bits bit_binary bit_dfs_mask dest: bit_imp_le_length)
        then show False using low [of j] p0 [of j] j by simp
      qed
      have cyc: "m AND K_CYCLE_PROPERTIES \<noteq> 0 \<Longrightarrow>
          (\<exists>s < length (vf_states f). bad_cycle scc s (vf_arcs f s)) = has_weighted_cycles (vf_states f)"
        using d unfolding searched_def weighted_cycles_ex vf_arcs_of [symmetric] by (auto simp del: arcs_of_simps)
      have "i = 16 \<or> i = 17 \<or> i = 18 \<or> i = 19 \<or> i = 20 \<or> i = 21 \<or> i = 22 \<or> i = 23 \<or> i = 24 \<or> i = 25 \<or> i = 26 \<or> i = 27 \<or>
          i = 28 \<or> i = 29 \<or> i = 30 \<or> i = 31 \<or> i = 32 \<or> i = 33 \<or> i = 38 \<or> i = 39 \<or> i = 44 \<or> i = 45 \<or> i = 46 \<or> i = 47"
        using i other unfolding trinary_upt list.set insert_iff empty_iff by_search_def by (simp only: simp_thms) blast
      moreover have "bit (scan_properties m scc p f) 46 \<longleftrightarrow> settled m 46 \<and> truth (vf_states f) (vf_start f) 46"
          "bit (scan_properties m scc p f) 47 \<longleftrightarrow> settled m 47 \<and> truth (vf_states f) (vf_start f) 47"
        using cyc True by (auto simp: scan_result_bits [OF True un] settled_def by_search_def truth_simps)
      ultimately show ?thesis
        by (elim disjE; simp add: scan_result_bits [OF True un] settled_def by_search_def truth_simps True)
    qed
  qed
qed

definition checkable :: "('w::{zero,one} \<Rightarrow> bool) \<Rightarrow> ('w, 'sym) vector_fst \<Rightarrow> bool" where
  "checkable is_member f \<longleftrightarrow> vf_closed f \<and> length (vf_states f) \<le> 2 ^ 32 \<and>
     proper_finals is_member f \<and> (vf_start f = None \<longrightarrow> vf_states f = [])"

lemma bit_stored: "bit (cache_get_masked p K_FST_PROPERTIES) i \<longleftrightarrow> bit p i \<and> (i < 3 \<or> i \<in> trinary)"
  by (auto simp: cache_get_masked_def word_bits bit_fst_properties trinary_def)

lemma compute_run:
  assumes "checkable is_member f"
  shows "\<exists>r. compute_properties is_member f m = Some r \<and> cp_known r = known_properties (cp_props r) \<and>
    (\<forall>i \<in> trinary. bit (cp_props r) i \<longleftrightarrow> settled m i \<and> truth (vf_states f) (vf_start f) i) \<and>
    (\<forall>i < 3. bit (cp_props r) i = bit (vf_properties f) i)"
proof -
  let ?p0 = "cache_get_masked (vf_properties f) K_FST_PROPERTIES AND K_BINARY_PROPERTIES"
  have p0: "bit ?p0 i \<longleftrightarrow> bit (vf_properties f) i \<and> i < 3" for i
    by (auto simp: bit_and_iff bit_binary bit_stored)
  obtain scc p where sp: "(if m AND K_CYCLE_PROPERTIES \<noteq> 0 then do {
         v \<leftarrow> dfs_visit_any (scc_visitor_of (vf_start f) (vf_final_weight f) is_member) (vector_view f)
           (scc_visitor_new (Some []) None None ?p0);
         Some (case sv_scc v of None \<Rightarrow> [] | Some scc \<Rightarrow> scc, sv_props v) }
       else Some ([], ?p0)) = Some (scc, p)"
      "m AND K_CYCLE_PROPERTIES \<noteq> 0 \<Longrightarrow> searched f ?p0 scc p" "m AND K_CYCLE_PROPERTIES = 0 \<Longrightarrow> p = ?p0"
  proof (cases "m AND K_CYCLE_PROPERTIES = 0")
    case False
    obtain v where "dfs_visit_any (scc_visitor_of (vf_start f) (vf_final_weight f) is_member) (vector_view f)
           (scc_visitor_new (Some []) None None ?p0) = Some v"
        "searched f ?p0 (case sv_scc v of None \<Rightarrow> [] | Some scc \<Rightarrow> scc) (sv_props v)"
      using search_run [of f is_member ?p0] assms unfolding checkable_def by blast
    then show ?thesis using that False by simp
  qed (use that in simp)
  have "\<not> bit ?p0 i" if "3 \<le> i" for i using p0 that by simp
  note bits = computed_bits [OF sp(2,3) this]
  have "compute_properties is_member f m = Some \<lparr>cp_props = scan_properties m scc p f,
      cp_known = known_properties (scan_properties m scc p f)\<rparr>"
    unfolding compute_properties_def Let_def sp(1) by simp
  then show ?thesis using bits p0 by simp
qed

text \<open>C4. Scanning an FST that has a start state, or no states, settles every property a mask names: of each pair of
  bits just the true one comes back.
  Bits it settles on the way are true as well, and the bits that are stored rather than derived carry over.\<close>

theorem compute_properties_exact:
  assumes "checkable is_member f"
  shows "\<exists>r. compute_properties is_member f m = Some r \<and>
    (\<forall>i \<in> trinary. (bit (cp_props r) i \<longrightarrow> truth (vf_states f) (vf_start f) i) \<and>
       (bit m i \<or> bit m (partner i) \<longrightarrow> (bit (cp_props r) i \<longleftrightarrow> truth (vf_states f) (vf_start f) i))) \<and>
    (\<forall>i < 3. bit (cp_props r) i = bit (vf_properties f) i)"
  using compute_run [OF assms, of m] settled_asked by blast

lemma bit_pos_neg:
  "bit (K_POS_TRINARY_PROPERTIES :: 64 word) i \<longleftrightarrow> i \<in> trinary \<and> even i"
  "bit (K_NEG_TRINARY_PROPERTIES :: 64 word) i \<longleftrightarrow> i \<in> trinary \<and> odd i"
  "bit (K_TRINARY_PROPERTIES :: 64 word) i \<longleftrightarrow> i \<in> trinary"
proof -
  have "list_all (\<lambda>i. (bit K_POS_TRINARY_PROPERTIES i \<longleftrightarrow> 16 \<le> i \<and> i < 48 \<and> even i) \<and>
      (bit K_NEG_TRINARY_PROPERTIES i \<longleftrightarrow> 16 \<le> i \<and> i < 48 \<and> odd i) \<and>
      (bit K_TRINARY_PROPERTIES i \<longleftrightarrow> 16 \<le> i \<and> i < 48)) [0..<64]" by code_simp
  then have "i < 64 \<Longrightarrow> (bit K_POS_TRINARY_PROPERTIES i \<longleftrightarrow> i \<in> trinary \<and> even i) \<and>
      (bit K_NEG_TRINARY_PROPERTIES i \<longleftrightarrow> i \<in> trinary \<and> odd i) \<and>
      (bit K_TRINARY_PROPERTIES i \<longleftrightarrow> i \<in> trinary)" unfolding list_all_iff trinary_def by auto
  moreover have "64 \<le> i \<Longrightarrow> \<not> bit (w :: 64 word) i" for w using bit_imp_le_length [of w i] by auto
  moreover have "64 \<le> i \<Longrightarrow> i \<notin> trinary" by (simp add: trinary_def)
  ultimately show "bit (K_POS_TRINARY_PROPERTIES :: 64 word) i \<longleftrightarrow> i \<in> trinary \<and> even i"
    "bit (K_NEG_TRINARY_PROPERTIES :: 64 word) i \<longleftrightarrow> i \<in> trinary \<and> odd i"
    "bit (K_TRINARY_PROPERTIES :: 64 word) i \<longleftrightarrow> i \<in> trinary"
    by (cases "i < 64"; auto)+
qed

lemma bit_known:
  "bit (known_properties p) i \<longleftrightarrow> i < 3 \<or> i \<in> trinary \<and> (bit p i \<or> bit p (partner i))"
proof -
  have up: "bit (push_bit 1 (p AND K_POS_TRINARY_PROPERTIES)) i \<longleftrightarrow> i \<in> trinary \<and> odd i \<and> bit p (i - 1)"
    unfolding bit_push_bit_iff bit_and_iff bit_pos_neg trinary_def by (auto elim: oddE)
  have down: "bit (drop_bit 1 (p AND K_NEG_TRINARY_PROPERTIES)) i \<longleftrightarrow> i \<in> trinary \<and> even i \<and> bit p (i + 1)"
    unfolding bit_drop_bit_eq comp_def bit_and_iff bit_pos_neg trinary_def by (auto elim: evenE)
  show ?thesis
    unfolding known_properties_def bit_or_iff up down bit_and_iff bit_pos_neg bit_binary by (auto simp: partner_def)
qed

lemma partner_simps:
  assumes "i \<in> trinary"
  shows "partner i \<in> trinary" "partner (partner i) = i" "truth ss start (partner i) \<longleftrightarrow> \<not> truth ss start i"
proof -
  have i: "16 \<le> i" "i < 48" using assms by (auto simp: trinary_def)
  show "partner i \<in> trinary" "partner (partner i) = i"
    using i by (auto simp: partner_def trinary_def elim!: evenE oddE)
  have "(partner i - 16) div 2 = (i - 16) div 2"
    using i by (cases "even i") (simp_all add: partner_def, presburger+)
  moreover have "even (partner i) \<longleftrightarrow> odd i" using i by (auto simp: partner_def)
  ultimately show "truth ss start (partner i) \<longleftrightarrow> \<not> truth ss start i" by (auto simp: truth_def)
qed

text \<open>A sound word knows the truth of every pair it says anything about.\<close>

lemma known_truth:
  assumes "\<forall>i \<in> trinary. bit p i \<longrightarrow> truth ss start i" "i \<in> trinary" "bit (known_properties p) i"
  shows "bit p i \<longleftrightarrow> truth ss start i"
proof -
  have "bit p i \<or> bit p (partner i)" using assms(2,3) by (auto simp: bit_known trinary_def)
  then show ?thesis using assms(1,2) partner_simps(1) [OF assms(2)] partner_simps(3) [OF assms(2), of ss start] by metis
qed

lemma incompatible_bits:
  "compat_properties p q \<longleftrightarrow>
     (\<forall>i. bit (known_properties p) i \<and> bit (known_properties q) i \<longrightarrow> bit p i = bit q i)"
proof -
  have "incompatible_properties p q = 0 \<longleftrightarrow> (\<forall>i. \<not> bit (incompatible_properties p q) i)"
    by (metis bit_0_eq bit_eq_iff bot_apply bot_bool_def)
  then show ?thesis
    by (auto simp: compat_properties_def incompatible_properties_def Let_def bit_and_iff bit_xor_iff)
qed

text \<open>What a mask makes the scan settle comes in pairs.\<close>

lemma settled_partner:
  assumes "i \<in> trinary"
  shows "settled m (partner i) \<longleftrightarrow> settled m i"
proof -
  have "list_all (\<lambda>i. (partner i \<in> by_search \<longleftrightarrow> i \<in> by_search) \<and> (partner i \<in> {18, 19} \<longleftrightarrow> i \<in> {18, 19}) \<and>
      (partner i \<in> {20, 21} \<longleftrightarrow> i \<in> {20, 21}) \<and> (partner i \<in> {46, 47} \<longleftrightarrow> i \<in> {46, 47})) [16..<48]" by code_simp
  then have "partner i \<in> by_search \<longleftrightarrow> i \<in> by_search" "partner i \<in> {18, 19} \<longleftrightarrow> i \<in> {18, 19}" "partner i \<in> {20, 21} \<longleftrightarrow> i \<in> {20, 21}"
      "partner i \<in> {46, 47} \<longleftrightarrow> i \<in> {46, 47}"
    using assms unfolding list_all_iff set_upt trinary_def by blast+
  then show ?thesis by (simp only: settled_def)
qed

text \<open>C9. Verifying reports a cache that lies.  For an FST that has a start state, or no states, and any mask, the bits
  that come back are the true ones among those the mask makes the scan settle, and these are at least the pairs the mask
  names; the error bit comes back exactly when it was set already or the cache claims one of the settled bits falsely.
  A mask that names every pair reports a cache exactly when anything in it is false.\<close>

theorem test_properties_reports:
  assumes "checkable is_member f"
  shows "\<exists>r. test_properties is_member f m True = Some r \<and>
    (\<forall>i \<in> trinary. bit (cp_props r) i \<longleftrightarrow> settled m i \<and> truth (vf_states f) (vf_start f) i) \<and>
    (\<forall>i \<in> trinary. bit m i \<or> bit m (partner i) \<longrightarrow> settled m i) \<and>
    (bit (cp_props r) 2 \<longleftrightarrow> bit (vf_properties f) 2 \<or>
       (\<exists>i \<in> trinary. settled m i \<and> bit (vf_properties f) i \<and> \<not> truth (vf_states f) (vf_start f) i)) \<and>
    ((\<forall>i \<in> trinary. bit m i \<or> bit m (partner i)) \<longrightarrow>
       (bit (cp_props r) 2 \<longleftrightarrow> bit (vf_properties f) 2 \<or> \<not> sound (vf_properties f) (vf_states f) (vf_start f)))"
proof -
  let ?s = "cache_get_masked (vf_properties f) K_FST_PROPERTIES" and ?t = "truth (vf_states f) (vf_start f)"
  let ?lies = "\<exists>i \<in> trinary. settled m i \<and> bit (vf_properties f) i \<and> \<not> ?t i"
  obtain r where r: "compute_properties is_member f m = Some r" "\<forall>i \<in> trinary. bit (cp_props r) i \<longleftrightarrow> settled m i \<and> ?t i"
      "\<forall>i < 3. bit (cp_props r) i = bit (vf_properties f) i"
    using compute_run [OF assms, of m] by blast
  have know: "bit (known_properties (cp_props r)) i \<longleftrightarrow> i < 3 \<or> settled m i" if "i \<in> trinary \<or> i < 3" for i
  proof (cases "i \<in> trinary")
    case True
    have "bit (cp_props r) i \<longleftrightarrow> settled m i \<and> ?t i" "bit (cp_props r) (partner i) \<longleftrightarrow> settled m i \<and> \<not> ?t i"
      using r(2) True partner_simps [OF True] settled_partner [OF True, of m] by metis+
    then show ?thesis using True by (auto simp: bit_known)
  next
    case False
    then show ?thesis using that by (simp add: bit_known)
  qed
  have stored: "bit ?s i = bit (vf_properties f) i" if "i \<in> trinary \<or> i < 3" for i using that by (auto simp: bit_stored)
  have "\<not> compat_properties ?s (cp_props r) \<longleftrightarrow> ?lies"
  proof
    assume "\<not> compat_properties ?s (cp_props r)"
    then obtain i where i: "bit (known_properties ?s) i" "bit (known_properties (cp_props r)) i" "bit ?s i \<noteq> bit (cp_props r) i"
      unfolding incompatible_bits by blast
    have in_range: "i < 3 \<or> i \<in> trinary" using i(1) by (auto simp: bit_known)
    then have tri: "i \<in> trinary" "\<not> i < 3" using i(3) r(3) stored by auto
    have set: "settled m i" using i(2) know tri by simp
    show ?lies
    proof (cases "bit ?s i")
      case True
      then show ?thesis using i(3) r(2) set stored tri by (intro bexI [of _ i]) auto
    next
      case False
      then have "bit ?s (partner i)" "?t i" using i r(2) tri by (auto simp: bit_known)
      then show ?thesis using set stored tri partner_simps [OF tri(1)] settled_partner [OF tri(1)]
        by (intro bexI [of _ "partner i"]) auto
    qed
  next
    assume ?lies
    then obtain i where i: "i \<in> trinary" "settled m i" "bit (vf_properties f) i" "\<not> ?t i" by blast
    have "bit (known_properties ?s) i" using i(1,3) stored by (simp add: bit_known)
    moreover have "bit (known_properties (cp_props r)) i" using know i(1,2) by simp
    moreover have "bit ?s i \<noteq> bit (cp_props r) i" using i stored r(2) by simp
    ultimately show "\<not> compat_properties ?s (cp_props r)" unfolding incompatible_bits by blast
  qed
  then have "test_properties is_member f m True = Some (if ?lies then r\<lparr>cp_props := cp_props r OR K_ERROR\<rparr> else r)" (is "_ = Some ?q")
    using r(1) by (simp add: test_properties_def Let_def)
  moreover have "bit (cp_props ?q) 2 \<longleftrightarrow> bit (vf_properties f) 2 \<or> ?lies" using r(3) by (auto simp: bit_or_iff)
  moreover have "\<forall>i \<in> trinary. bit (cp_props ?q) i \<longleftrightarrow> settled m i \<and> ?t i"
    using r(2) by (auto simp: bit_or_iff trinary_def)
  ultimately obtain q where q: "test_properties is_member f m True = Some q" "bit (cp_props q) 2 \<longleftrightarrow> bit (vf_properties f) 2 \<or> ?lies"
      "\<forall>i \<in> trinary. bit (cp_props q) i \<longleftrightarrow> settled m i \<and> ?t i" by blast
  have asked: "\<forall>i \<in> trinary. bit m i \<or> bit m (partner i) \<longrightarrow> settled m i" using settled_asked by blast
  then have "?lies \<longleftrightarrow> \<not> sound (vf_properties f) (vf_states f) (vf_start f)"
    if "\<forall>i \<in> trinary. bit m i \<or> bit m (partner i)" using that by (auto simp: sound_iff)
  then show ?thesis using q asked by blast
qed

lemma cached_query:
  assumes "checkable is_member f" "sound (vf_properties f) (vf_states f) (vf_start f)"
  shows "\<exists>p g. cached_properties is_member f m True = Some (p, g) \<and>
    vf_states g = vf_states f \<and> vf_start g = vf_start f \<and> sound (vf_properties g) (vf_states g) (vf_start g) \<and>
    (\<forall>i \<in> trinary. (bit p i \<longleftrightarrow> bit m i \<and> truth (vf_states f) (vf_start f) i) \<and>
       (bit m i \<longrightarrow> (bit (vf_properties g) i \<longleftrightarrow> truth (vf_states f) (vf_start f) i)))"
proof -
  let ?s = "cache_get_masked (vf_properties f) K_FST_PROPERTIES" and ?t = "truth (vf_states f) (vf_start f)"
  have cache: "\<forall>i \<in> trinary. bit (vf_properties f) i \<longrightarrow> ?t i" using assms(2) by (simp add: sound_iff)
  then have s: "\<forall>i \<in> trinary. bit ?s i \<longrightarrow> ?t i" by (simp add: bit_stored)
  obtain r where r: "test_properties is_member f m False = Some r" "cp_known r = known_properties (cp_props r)"
      "\<forall>i \<in> trinary. bit (cp_props r) i \<longrightarrow> ?t i" "\<forall>i \<in> trinary. bit m i \<longrightarrow> bit (cp_props r) i = ?t i"
  proof (cases "known_properties ?s AND m = m")
    case True
    let ?r = "\<lparr>cp_props = ?s, cp_known = known_properties ?s\<rparr>"
    have "bit (known_properties ?s) i" if "bit m i" for i using True that by (metis bit_and_iff)
    then have k: "\<forall>i \<in> trinary. bit m i \<longrightarrow> bit ?s i = ?t i" using known_truth [OF s] by blast
    have "test_properties is_member f m False = Some ?r"
      using True by (simp add: test_properties_def compute_or_use_stored_properties_def Let_def)
    then show ?thesis
    proof (rule that)
      show "cp_known ?r = known_properties (cp_props ?r)" by simp
      show "\<forall>i \<in> trinary. bit (cp_props ?r) i \<longrightarrow> ?t i" using s by (simp only: computed_properties.select_convs)
      show "\<forall>i \<in> trinary. bit m i \<longrightarrow> bit (cp_props ?r) i = ?t i" using k by (simp only: computed_properties.select_convs)
    qed
  next
    case False
    then have "test_properties is_member f m False = compute_properties is_member f m"
      by (simp add: test_properties_def compute_or_use_stored_properties_def Let_def)
    moreover obtain r where "compute_properties is_member f m = Some r" "cp_known r = known_properties (cp_props r)"
        "\<forall>i \<in> trinary. bit (cp_props r) i \<longleftrightarrow> settled m i \<and> ?t i"
      using compute_run [OF assms(1), of m] by blast
    ultimately show ?thesis using that [of r] settled_asked [of _ m] by auto
  qed
  define q where "q = cache_discover (vf_properties f) (cp_props r) (cp_known r)"
  have known: "bit (known_properties (vf_properties f AND cp_known r)) i \<longleftrightarrow>
      bit (cp_known r) i \<and> bit (vf_properties f) i \<or> bit (cp_known r) (partner i) \<and> bit (vf_properties f) (partner i)"
    if "i \<in> trinary" for i
    using that by (auto simp: bit_known bit_and_iff trinary_def)
  have qd: "q = vf_properties f OR (cp_props r AND cp_known r AND NOT (known_properties (vf_properties f AND cp_known r)))"
    by (simp add: q_def cache_discover_def Let_def)
  have q: "bit q i \<longleftrightarrow> bit (vf_properties f) i \<or> bit (cp_props r) i \<and> bit (cp_known r) i \<and>
      \<not> bit (known_properties (vf_properties f AND cp_known r)) i" if "i \<in> trinary" for i
  proof -
    have "i < 64" using that by (simp add: trinary_def)
    then show ?thesis
      unfolding qd by (auto simp: bit_or_iff bit_and_iff bit_not_iff)
  qed
  have sq: "\<forall>i \<in> trinary. bit q i \<longrightarrow> ?t i" using q cache r(3) by blast
  have dec: "bit q i = ?t i" if i: "i \<in> trinary" "bit m i" for i
  proof
    assume "?t i"
    then have p: "bit (cp_props r) i" using r(4) i by simp
    then have "bit (cp_known r) i" using i(1) unfolding r(2) by (simp add: bit_known)
    moreover have "\<not> bit (vf_properties f) (partner i)"
      using cache partner_simps(1) [OF i(1)] partner_simps(3) [OF i(1), of "vf_states f" "vf_start f"] \<open>?t i\<close> by blast
    ultimately show "bit q i" using q [OF i(1)] known [OF i(1)] p by auto
  qed (use sq i in blast)
  let ?g = "modify_properties (\<lambda>cache. cache_discover cache (cp_props r) (cp_known r)) f"
  have g: "vf_states ?g = vf_states f" "vf_start ?g = vf_start f" "vf_properties ?g = q"
    by (simp_all add: modify_properties_def q_def)
  have run: "cached_properties is_member f m True = Some (cp_props r AND m, ?g)"
    using r(1) by (simp add: cached_properties_def Let_def)
  have "(bit (cp_props r AND m) i \<longleftrightarrow> bit m i \<and> ?t i) \<and> (bit m i \<longrightarrow> (bit (vf_properties ?g) i \<longleftrightarrow> ?t i))"
    if "i \<in> trinary" for i
    using that r(4) dec g(3) by (auto simp: bit_and_iff)
  then show ?thesis using run g sq by (intro exI conjI) (assumption | simp add: sound_iff)+
qed

text \<open>C10. For an FST that has a start state, or no states, and a cache that is true, \<open>properties\<close> with \<open>test\<close>
  answers every question of the mask truthfully, whether from the cache or by
  scanning, leaves the FST as it was, and leaves the answers in a cache that is still true.\<close>

theorem cached_properties_true:
  assumes "checkable is_member f" "sound (vf_properties f) (vf_states f) (vf_start f)"
  shows "\<exists>p g. cached_properties is_member f m True = Some (p, g) \<and>
    vf_states g = vf_states f \<and> vf_start g = vf_start f \<and> sound (vf_properties g) (vf_states g) (vf_start g) \<and>
    (\<forall>i \<in> trinary. (bit p i \<longleftrightarrow> bit m i \<and> truth (vf_states f) (vf_start f) i) \<and>
       (bit m i \<longrightarrow> (bit (vf_properties g) i \<longleftrightarrow> truth (vf_states f) (vf_start f) i)))"
  by (rule cached_query [OF assms])

section \<open>Instances\<close>

lemma one_arc_fst: "vf_states one_arc = [\<lparr>vs_final = 0, vs_arcs = [arc_new 1 1 1 0], vs_niepsilons = 0, vs_noepsilons = 0\<rparr>]"
    "vf_start one_arc = Some 0"
  by (simp_all add: one_arc_def add_arc_def set_start_def add_state_def vf_new_def modify_properties_def
      vs_add_arc_def increment_num_epsilons_def epsilon_def no_state_def vs_new_def usize_max_def update_properties_after_add_arc_def)

lemma one_arc_checkable: "checkable (\<lambda>_. True) one_arc"
  by (simp add: checkable_def vf_closed_def proper_finals_def one_arc_fst usize_max_def)

lemma one_arc_bits_true: "sound (vf_properties one_arc) (vf_states one_arc) (vf_start one_arc)"
  using built_inv [OF one_arc_built] by (simp add: vf_inv_def vf_sound_def)

lemma one_arc_cyclic: "is_cyclic (vf_states one_arc)"
proof -
  have "(0, 0) \<in> edges (vf_states one_arc)" by (auto simp: edges_def one_arc_fst arcs_of_def)
  then show ?thesis unfolding is_cyclic_def by blast
qed

theorem compute_properties_exact_witness:
  "\<exists>r. compute_properties (\<lambda>_. True) one_arc K_ACYCLIC = Some r \<and> bit (cp_props r) 34 \<and> \<not> bit (cp_props r) 35"
proof -
  have "34 \<in> trinary" "35 \<in> trinary" "bit K_ACYCLIC (partner 34)" "bit K_ACYCLIC 35" by (simp_all add: trinary_def partner_def)
  moreover have "truth (vf_states one_arc) (vf_start one_arc) 34" "\<not> truth (vf_states one_arc) (vf_start one_arc) 35"
    using one_arc_cyclic by (simp_all add: truth_simps)
  ultimately show ?thesis using compute_properties_exact [OF one_arc_checkable, of K_ACYCLIC] by blast
qed

theorem test_properties_reports_witness:
  "\<exists>r. test_properties (\<lambda>_. True) one_arc K_TRINARY_PROPERTIES True = Some r \<and>
     (bit (cp_props r) 2 \<longleftrightarrow> bit (vf_properties one_arc) 2) \<and> bit (cp_props r) 34"
proof -
  have "\<forall>i \<in> trinary. bit (K_TRINARY_PROPERTIES :: 64 word) i" "34 \<in> trinary"
    using bit_pos_neg(3) by (simp_all add: trinary_def)
  then show ?thesis
    using test_properties_reports [OF one_arc_checkable, of K_TRINARY_PROPERTIES] one_arc_bits_true one_arc_cyclic
      truth_simps(19) [of "vf_states one_arc" "vf_start one_arc"] by blast
qed

theorem cached_properties_true_witness:
  "\<exists>p g. cached_properties (\<lambda>_. True) one_arc K_CYCLIC True = Some (p, g) \<and> bit p 34 \<and> bit (vf_properties g) 34"
proof -
  have "34 \<in> trinary" "bit K_CYCLIC 34" by (simp_all add: trinary_def)
  moreover have "truth (vf_states one_arc) (vf_start one_arc) 34" using one_arc_cyclic by (simp add: truth_simps)
  ultimately show ?thesis using cached_properties_true [OF one_arc_checkable one_arc_bits_true, of K_CYCLIC] by blast
qed

text \<open>Without a start state nothing is searched, and every claim of the search stands: a state that loops on
  itself, which no path reaches, makes an acyclic and accessible FST.\<close>

definition loop_without_start :: "(nat, unit) vector_fst" where
  "loop_without_start = one_arc\<lparr>vf_start := None\<rparr>"

lemma no_start_claims:
  "\<exists>r. compute_properties (\<lambda>_. True) loop_without_start K_ACYCLIC = Some r \<and> bit (cp_props r) 35 \<and>
     bit (cp_props r) 40 \<and> is_cyclic (vf_states loop_without_start) \<and>
     \<not> is_accessible (vf_states loop_without_start) (vf_start loop_without_start)"
proof -
  let ?f = loop_without_start
  let ?p0 = "cache_get_masked (vf_properties ?f) K_FST_PROPERTIES AND K_BINARY_PROPERTIES"
  have m: "K_ACYCLIC AND K_CYCLE_PROPERTIES \<noteq> 0"
    by (auto simp: and_zero_iff bit_cycle_mask by_search_def intro!: exI [of _ 35])
  have st: "vf_start ?f = None" "vf_states ?f = vf_states one_arc" by (simp_all add: loop_without_start_def)
  obtain v where v: "dfs_visit_any (scc_visitor_of (vf_start ?f) (vf_final_weight ?f) (\<lambda>_. True)) (vector_view ?f)
        (scc_visitor_new (Some []) None None ?p0) = Some v" "sv_scc v = Some []"
      "dfs_bits True ?p0 False False False False (sv_props v)"
    using no_start_run [OF st(1)] by blast
  let ?q = "scan_properties K_ACYCLIC [] (sv_props v) ?f"
  have "compute_properties (\<lambda>_. True) ?f K_ACYCLIC = Some \<lparr>cp_props = ?q, cp_known = known_properties ?q\<rparr>"
    using m v(1,2) by (simp add: compute_properties_def Let_def)
  moreover have "bit ?q 35" "bit ?q 40"
    using v(3) by (simp_all add: scan_properties_search of_search_def dfs_bits_def)
  moreover have "\<not> is_accessible (vf_states ?f) (vf_start ?f)" by (simp add: is_accessible_def st one_arc_fst)
  ultimately show ?thesis using one_arc_cyclic st(2) by auto
qed

end
