(* ===== verification/CcVisitor.thy ===== *)
theory CcVisitor
  imports DfsVisit UnionFind
begin

text \<open>
  The visitor of \<open>algorithms/cc_visitors.rs\<close> that is meant to find connected components with a union-find forest, and
  an FST on which it does not: under the depth-first search it separates two states joined by an arc.
\<close>

section \<open>The visitor\<close>

text \<open>The forest is the caller's or one of its own; \<open>cv_cc\<close> is the caller's vector, if one was given.\<close>

record cc_visitor =
  cv_comps :: union_find
  cv_cc :: "state_id list option"
  cv_nstates :: nat

definition new_with_cc :: "state_id list \<Rightarrow> cc_visitor" where
  "new_with_cc cc = \<lparr>cv_comps = uf_new 0, cv_cc = Some cc, cv_nstates = 0\<rparr>"

definition new_with_comps :: "union_find \<Rightarrow> cc_visitor" where
  "new_with_comps comps = \<lparr>cv_comps = comps, cv_cc = None, cv_nstates = 0\<rparr>"

record cc_scan =
  cs_comps :: union_find
  cs_cc :: "state_id list"
  cs_ncomp :: nat

definition number_state :: "nat \<Rightarrow> cc_scan \<Rightarrow> cc_scan option" where
  "number_state s c = do {
     (comps, r) \<leftarrow> find_set (cs_comps c) s;
     let rep = (case r of None \<Rightarrow> s | Some r \<Rightarrow> r);
     old \<leftarrow> vget (cs_cc c) rep;
     let (component, ncomp) = (if old = no_state then (cs_ncomp c, cs_ncomp c + 1) else (old, cs_ncomp c));
     cc \<leftarrow> vset (cs_cc c) s component;
     cc \<leftarrow> vset cc rep component;
     Some \<lparr>cs_comps = comps, cs_cc = cc, cs_ncomp = ncomp\<rparr> }"

text \<open>The number of components, with the vector and the forest as the searches left it.\<close>

definition get_cc_vector :: "cc_visitor \<Rightarrow> (nat \<times> state_id list \<times> cc_visitor) option" where
  "get_cc_vector v = do {
     c \<leftarrow> ofold number_state [0..<cv_nstates v]
       \<lparr>cs_comps = cv_comps v, cs_cc = replicate (cv_nstates v) no_state, cs_ncomp = 0\<rparr>;
     Some (cs_ncomp c, cs_cc c, v\<lparr>cv_comps := cs_comps c\<rparr>) }"

definition cv_union :: "cc_visitor \<Rightarrow> state_id \<Rightarrow> 'w arc \<Rightarrow> (cc_visitor \<times> bool) option" where
  "cv_union v s arc = do {
     comps \<leftarrow> uf_union (cv_comps v) s (nextstate arc);
     Some (v\<lparr>cv_comps := comps\<rparr>, True) }"

definition cv_init_state :: "cc_visitor \<Rightarrow> state_id \<Rightarrow> state_id \<Rightarrow> (cc_visitor \<times> bool) option" where
  "cv_init_state v s root = do {
     (comps, _) \<leftarrow> make_set (cv_comps v) s;
     Some (v\<lparr>cv_comps := comps, cv_nstates := cv_nstates v + 1\<rparr>, True) }"

definition cv_tree_arc :: "cc_visitor \<Rightarrow> state_id \<Rightarrow> 'w arc \<Rightarrow> (cc_visitor \<times> bool) option" where
  "cv_tree_arc v s arc = do {
     (comps, _) \<leftarrow> make_set (cv_comps v) (nextstate arc);
     cv_union (v\<lparr>cv_comps := comps\<rparr>) s arc }"

definition cv_finish_visit :: "cc_visitor \<Rightarrow> cc_visitor option" where
  "cv_finish_visit v =
     (case cv_cc v of
        None \<Rightarrow> Some v
      | Some _ \<Rightarrow> map_option (\<lambda>(_, cc, v). v\<lparr>cv_cc := Some cc\<rparr>) (get_cc_vector v))"

definition cc_visitor_of :: "('w, cc_visitor) visitor" where
  "cc_visitor_of = \<lparr>
     v_init_visit = Some,
     v_init_state = cv_init_state,
     v_tree_arc = cv_tree_arc,
     v_back_arc = cv_union,
     v_forward_or_cross_arc = cv_union,
     v_finish_state = (\<lambda>v _ _. Some v),
     v_finish_visit = cv_finish_visit\<rparr>"

section \<open>A component that is lost\<close>

definition forked_fst :: "nat fst_view" where
  "forked_fst = \<lparr>fv_start = Some 0, fv_num_states = Some 3, fv_expanded = True, fv_states = [0, 1, 2],
     fv_arcs = (\<lambda>s. if s = 1 then [arc_new 1 1 1 0, arc_new 2 2 1 2] else [])\<rparr>"



lemma tree_eval:
  "d_stack D = [] \<Longrightarrow> dfs_tree V f flt D = Some D"
  "d_stack D = fr # frs \<Longrightarrow> dfs_tree V f flt D = Option.bind (dfs_step V f flt fr frs D) (dfs_tree V f flt)"
  by (subst dfs_tree.simps; simp)+

lemma forest_eval:
  "\<not> (d_dfs D \<and> root_idx < d_nstates D) \<Longrightarrow> dfs_forest V f flt b start root_idx D = Some D"
  "d_dfs D \<Longrightarrow> root_idx < d_nstates D \<Longrightarrow> dfs_forest V f flt False start root_idx D = do {
     D \<leftarrow> enter_frame V f root_idx None (D\<lparr>d_root := root_idx\<rparr>);
     D \<leftarrow> dfs_tree V f flt D;
     (root_idx, D) \<leftarrow> next_root f start root_idx D;
     dfs_forest V f flt False start root_idx D }"
proof -
  show "dfs_forest V f flt b start root_idx D = Some D" if "\<not> (d_dfs D \<and> root_idx < d_nstates D)"
    by (subst dfs_forest.simps) (simp only: that if_False)
  show "dfs_forest V f flt False start root_idx D = do {
     D \<leftarrow> enter_frame V f root_idx None (D\<lparr>d_root := root_idx\<rparr>);
     D \<leftarrow> dfs_tree V f flt D;
     (root_idx, D) \<leftarrow> next_root f start root_idx D;
     dfs_forest V f flt False start root_idx D }" if "d_dfs D" "root_idx < d_nstates D"
    by (subst dfs_forest.simps) (simp only: that simp_thms if_True if_False)
qed

lemma small_replicates: "replicate 2 x = [x, x]" "replicate 3 x = [x, x, x]"
  by (simp_all add: numeral_2_eq_2 numeral_3_eq_3)

lemma compress_stop: "i = r \<Longrightarrow> compress p i r = Some p"
  by (simp add: compress_eval(1))

lemma forked_run:
  "map_option cv_cc (dfs_visit_any cc_visitor_of forked_fst (new_with_cc [])) = Some (Some [0, 0, 1])"
  by (simp add: dfs_visit_any_def dfs_visit_def forked_fst_def cc_visitor_of_def new_with_cc_def uf_new_def
    forest_eval tree_eval enter_frame_def cv_init_state_def make_set_def vresize_def
    dfs_step_def leave_frame_def walk_arc_def grow_colors_def next_root_def advance.simps small_replicates
    cv_union_def cv_tree_arc_def uf_union_def find_set_def climb_eval compress_eval compress_stop uf_link_def k_null_id_def usize_max_def
    cv_finish_visit_def get_cc_vector_def number_state_def no_state_def)

text \<open>An instance: under the depth-first search two states joined by an arc can get different component numbers: a tree
  arc merges the state it leads to, and \<open>init_state\<close> then makes it a singleton again, which takes it out of
  its component whenever it was hung below an older root.\<close>

lemma cc_visitor_splits:
  "(1, 2) \<in> steps forked_fst (\<lambda>_. True) \<and>
   (\<exists>v cc. dfs_visit_any cc_visitor_of forked_fst (new_with_cc []) = Some v \<and> cv_cc v = Some cc \<and>
      length cc = 3 \<and> cc ! 0 = cc ! 1 \<and> cc ! 1 \<noteq> cc ! 2)"
proof
  have "arc_new 2 2 1 2 \<in> set (fv_arcs forked_fst 1)" "2 = nextstate (arc_new 2 2 (1 :: nat) 2)"
    by (simp_all add: forked_fst_def)
  then show "(1, 2) \<in> steps forked_fst (\<lambda>_. True)" unfolding steps_def by blast
  show "\<exists>v cc. dfs_visit_any cc_visitor_of forked_fst (new_with_cc []) = Some v \<and> cv_cc v = Some cc \<and>
      length cc = 3 \<and> cc ! 0 = cc ! 1 \<and> cc ! 1 \<noteq> cc ! 2"
    using forked_run by auto
qed

end
