(* ===== verification/FstCalls.thy ===== *)
theory FstCalls
  imports Paths
begin

text \<open>
  What a caller of \<open>MutableFst\<close> sees after each call: the number of states, the start, the arcs and the final
  weight of every state.  The algorithms that build an FST call by call are reasoned about with these rules and
  never look at the representation.
\<close>

named_theorems vf_simps \<open>what each call changes\<close>

lemma num_states_calls [vf_simps]:
  "vf_num_states vf_new = 0"
  "vf_num_states (modify_properties h f) = vf_num_states f"
  "vf_num_states (set_start f s) = vf_num_states f"
  "vf_num_states (set_final f s w) = vf_num_states f"
  "vf_num_states (set_properties f p m) = vf_num_states f"
  "vf_num_states (fst (add_state f)) = vf_num_states f + 1"
  "vf_num_states (add_states f n) = vf_num_states f + n"
  "vf_num_states (add_arc f s a) = vf_num_states f"
  "vf_num_states (delete_arcs f s) = vf_num_states f"
  "vf_num_states (delete_all_states f) = 0"
  "vf_num_states (set_input_symbols f syms) = vf_num_states f"
  "vf_num_states (set_output_symbols f syms) = vf_num_states f"
  by (simp_all add: vf_num_states_def vf_new_def modify_properties_def set_start_def set_final_def set_properties_def
      add_state_def add_states_def add_arc_def update_properties_after_add_arc_def delete_arcs_def delete_all_states_def
      set_input_symbols_def set_output_symbols_def Let_def split: option.split)

lemma new_state [vf_simps]: "snd (add_state f) = vf_num_states f"
  by (simp add: add_state_def vf_num_states_def)

lemma start_calls [vf_simps]:
  "vf_start vf_new = None"
  "vf_start (modify_properties h f) = vf_start f"
  "vf_start (set_start f s) = (if s \<noteq> no_state then Some s else None)"
  "vf_start (set_final f s w) = vf_start f"
  "vf_start (set_properties f p m) = vf_start f"
  "vf_start (fst (add_state f)) = vf_start f"
  "vf_start (add_states f n) = vf_start f"
  "vf_start (add_arc f s a) = vf_start f"
  "vf_start (delete_arcs f s) = vf_start f"
  "vf_start (delete_all_states f) = None"
  "vf_start (set_input_symbols f syms) = vf_start f"
  "vf_start (set_output_symbols f syms) = vf_start f"
  by (simp_all add: vf_new_def modify_properties_def set_start_def set_final_def set_properties_def
      add_state_def add_states_def add_arc_def update_properties_after_add_arc_def delete_arcs_def delete_all_states_def
      set_input_symbols_def set_output_symbols_def Let_def split: option.split)

lemma arcs_calls [vf_simps]:
  "vf_arcs vf_new t = []"
  "vf_arcs (modify_properties h f) t = vf_arcs f t"
  "vf_arcs (set_start f s) t = vf_arcs f t"
  "vf_arcs (set_final f s w) t = vf_arcs f t"
  "vf_arcs (set_properties f p m) t = vf_arcs f t"
  "vf_arcs (fst (add_state f)) t = vf_arcs f t"
  "vf_arcs (add_states f n) t = vf_arcs f t"
  "vf_arcs (add_arc f s a) t = (if t = s \<and> s < vf_num_states f then vf_arcs f t @ [a] else vf_arcs f t)"
  "vf_arcs (delete_arcs f s) t = (if t = s then [] else vf_arcs f t)"
  "vf_arcs (delete_all_states f) t = []"
  "vf_arcs (set_input_symbols f syms) t = vf_arcs f t"
  "vf_arcs (set_output_symbols f syms) t = vf_arcs f t"
  by (auto simp: vf_arcs_def vf_num_states_def vf_new_def modify_properties_def set_start_def set_final_def
      set_properties_def add_state_def add_states_def add_arc_def update_properties_after_add_arc_def
      delete_arcs_def delete_all_states_def set_input_symbols_def set_output_symbols_def vs_delete_all_arcs_def
      vs_add_arc_def increment_num_epsilons_def Let_def vget_def nth_append nth_vresize nth_list_update
      split: option.split)

lemma finals_calls [vf_simps]:
  "vf_final_weight vf_new t = 0"
  "vf_final_weight (modify_properties h f) t = vf_final_weight f t"
  "vf_final_weight (set_start f s) t = vf_final_weight f t"
  "vf_final_weight (set_final f s w) t = (if t = s \<and> s < vf_num_states f then w else vf_final_weight f t)"
  "vf_final_weight (set_properties f p m) t = vf_final_weight f t"
  "vf_final_weight (fst (add_state f)) t = vf_final_weight f t"
  "vf_final_weight (add_states f n) t = vf_final_weight f t"
  "vf_final_weight (add_arc f s a) t = vf_final_weight f t"
  "vf_final_weight (delete_arcs f s) t = vf_final_weight f t"
  "vf_final_weight (delete_all_states f) t = 0"
  "vf_final_weight (set_input_symbols f syms) t = vf_final_weight f t"
  "vf_final_weight (set_output_symbols f syms) t = vf_final_weight f t"
  by (auto simp: vf_final_weight_def vf_num_states_def vf_new_def modify_properties_def set_start_def set_final_def
      set_properties_def add_state_def add_states_def add_arc_def update_properties_after_add_arc_def
      delete_arcs_def delete_all_states_def set_input_symbols_def set_output_symbols_def vs_delete_all_arcs_def
      vs_add_arc_def increment_num_epsilons_def Let_def vget_def nth_append nth_vresize nth_list_update
      split: option.split)

text \<open>Calls repeated over a list.\<close>

lemma add_arcs_view:
  "vf_num_states (fold (\<lambda>a f. add_arc f s a) as f) = vf_num_states f"
  "vf_start (fold (\<lambda>a f. add_arc f s a) as f) = vf_start f"
  "vf_final_weight (fold (\<lambda>a f. add_arc f s a) as f) t = vf_final_weight f t"
  by (induction as arbitrary: f) (simp_all add: vf_simps)

lemma add_arcs_arcs:
  "vf_arcs (fold (\<lambda>a f. add_arc f s a) as f) t = (if t = s \<and> s < vf_num_states f then vf_arcs f t @ as else vf_arcs f t)"
  by (induction as arbitrary: f) (simp_all add: vf_simps)

lemma add_arcs_sound: "vf_sound f \<Longrightarrow> vf_sound (fold (\<lambda>a f. add_arc f s a) as f)"
proof (induction as arbitrary: f)
  case (Cons a as)
  have "vf_sound (add_arc f s a)" using Cons.prems by (rule inv_intros)
  then show ?case using Cons.IH by simp
qed simp

lemma add_state_times:
  "vf_num_states (fold (\<lambda>_ f. fst (add_state f)) xs f) = vf_num_states f + length xs"
  "vf_start (fold (\<lambda>_ f. fst (add_state f)) xs f) = vf_start f"
  "vf_final_weight (fold (\<lambda>_ f. fst (add_state f)) xs f) t = vf_final_weight f t"
  "vf_arcs (fold (\<lambda>_ f. fst (add_state f)) xs f) t = vf_arcs f t"
  by (induction xs arbitrary: f) (simp_all add: vf_simps)

lemma add_state_times_sound: "vf_sound f \<Longrightarrow> vf_sound (fold (\<lambda>_ f. fst (add_state f)) xs f)"
proof (induction xs arbitrary: f)
  case (Cons x xs)
  have "vf_sound (fst (add_state f))" using Cons.prems by (rule inv_intros)
  then show ?case using Cons.IH by simp
qed simp

text \<open>Outside the states there is nothing.\<close>

lemma outside [vf_simps]:
  "vf_num_states f \<le> s \<Longrightarrow> vf_arcs f s = []"
  "vf_num_states f \<le> s \<Longrightarrow> vf_final_weight f s = 0"
  by (simp_all add: vf_arcs_def vf_final_weight_def vf_num_states_def)

lemma closed_iff:
  "vf_closed f \<longleftrightarrow> (\<forall>s. \<forall>a \<in> set (vf_arcs f s). nextstate a < vf_num_states f) \<and>
     (\<forall>s. vf_start f = Some s \<longrightarrow> s < vf_num_states f) \<and> vf_num_states f < usize_max" (is "?l \<longleftrightarrow> ?r")
  by (auto simp: vf_closed_def vf_arcs_def vf_num_states_def vget_def all_set_conv_all_nth) (metis in_set_conv_nth)

text \<open>Two FSTs with the same view have the same edges.\<close>

lemma edges_view: "edges (vf_states f) = {(s, t). \<exists>a \<in> set (vf_arcs f s). nextstate a = t}"
  by (auto simp: edges_def vf_arcs_of)

end
