(* ===== verification/Connect.thy ===== *)
theory Connect
  imports TestProperties FstCalls
begin

text \<open>
  Trimming, \<open>algorithms/connect.rs\<close>: only states on a successful path stay, and every successful path
  does; condensing each strongly connected component to a state.
\<close>

section \<open>The code\<close>

definition connect :: "('w::{zero,one} \<Rightarrow> bool) \<Rightarrow> ('w, 'sym) vector_fst \<Rightarrow> ('w, 'sym) vector_fst option" where
  "connect is_member f = do {
     v \<leftarrow> dfs_visit_any (scc_visitor_of (vf_start f) (vf_final_weight f) is_member) (vector_view f)
       (scc_visitor_new None (Some gbs_new) (Some gbs_new) 0);
     let access = (case sv_access v of None \<Rightarrow> gbs_new | Some a \<Rightarrow> a);
     let coaccess = sv_coaccess v;
     dstates \<leftarrow> ofold (\<lambda>s dstates. do {
         a \<leftarrow> gbs_contains access s;
         dead \<leftarrow> (if \<not> a then Some True else map_option Not (gbs_contains coaccess s));
         Some (if dead then dstates @ [s] else dstates) }) [0..<vf_num_states f] [];
     f \<leftarrow> delete_states f dstates;
     Some (set_properties f (K_ACCESSIBLE OR K_CO_ACCESSIBLE) (K_ACCESSIBLE OR K_CO_ACCESSIBLE)) }"

section \<open>Cutting an FST down to a set of states\<close>

definition cut_down :: "(nat \<Rightarrow> bool) \<Rightarrow> ('w::{zero,one}, 'sym) vector_fst \<Rightarrow> ('w, 'sym) vector_fst \<Rightarrow> bool" where
  "cut_down alive f g \<longleftrightarrow> length (vf_states g) = new_id alive (length (vf_states f)) \<and>
     (\<forall>s < length (vf_states f). alive s \<longrightarrow> vf_arcs g (new_id alive s) = live_arcs alive (vf_arcs f s) \<and>
        vf_final_weight g (new_id alive s) = vf_final_weight f s) \<and>
     vf_start g = (case vf_start f of None \<Rightarrow> None | Some s \<Rightarrow> if alive s then Some (new_id alive s) else None)"

lemma new_id_bound: "s < n \<Longrightarrow> alive s \<Longrightarrow> new_id alive s < new_id alive n"
  using new_id_less [of s n alive] by simp

lemma new_id_onto: "k < new_id alive n \<Longrightarrow> \<exists>s < n. alive s \<and> new_id alive s = k"
  using survivors_nth [of k alive n] by (auto simp: new_id_def)

lemma induced_cut_down: "cut_down alive f (induced alive f)"
proof -
  have "vf_arcs (induced alive f) (new_id alive s) = live_arcs alive (vf_arcs f s) \<and>
      vf_final_weight (induced alive f) (new_id alive s) = vf_final_weight f s"
    if s: "s < length (vf_states f)" "alive s" for s
    using new_id_bound [of s "length (vf_states f)" alive] survivors_nth_new_id [of s "length (vf_states f)" alive] s
    by (simp add: vf_arcs_def vf_final_weight_def induced_def new_id_def live_state_def Let_def)
  then show ?thesis by (simp add: cut_down_def induced_def new_id_def)
qed

lemma new_id_all: "(\<And>t. t < s \<Longrightarrow> alive t) \<Longrightarrow> new_id alive s = s"
  by (induction s) simp_all

lemma whole_cut_down:
  assumes "vf_closed f" "\<And>s. s < length (vf_states f) \<Longrightarrow> alive s"
  shows "cut_down alive f f"
proof -
  have id: "new_id alive s = s" if "s \<le> length (vf_states f)" for s using new_id_all [of s alive] assms(2) that by simp
  have "live_arcs alive (vf_arcs f s) = vf_arcs f s" if s: "s < length (vf_states f)" for s
  proof -
    have "nextstate a < length (vf_states f)" if "a \<in> set (vf_arcs f s)" for a
      using assms(1) s that by (auto simp: vf_closed_def vf_arcs_def)
    then have n: "new_id alive (nextstate a) = nextstate a \<and> alive (nextstate a)" if "a \<in> set (vf_arcs f s)" for a
      using id [of "nextstate a"] assms(2) that less_imp_le by blast
    have "retarget (new_id alive) a = a \<and> alive (nextstate a)" if "a \<in> set (vf_arcs f s)" for a
      using n [OF that] by (cases a) (auto simp: retarget_def arc_new_def)
    then show ?thesis unfolding live_arcs_def by (simp add: map_idI)
  qed
  moreover have "\<forall>s. vf_start f = Some s \<longrightarrow> s < length (vf_states f)" using assms(1) by (simp add: vf_closed_def)
  ultimately show ?thesis using id assms(2) by (auto simp: cut_down_def split: option.split)
qed

lemma delete_states_cut_down:
  assumes "vf_closed f"
  shows "\<exists>g. delete_states f ds = Some g \<and> cut_down (\<lambda>s. s \<notin> set ds) f g"
proof (cases "ds = []")
  case True
  then show ?thesis using whole_cut_down [OF assms, of "\<lambda>s. s \<notin> set ds"] by (simp add: delete_states_def)
next
  case False
  have "cut_down alive f (modify_properties h (induced alive f))" for alive h
    using induced_cut_down [of alive f] by (simp add: cut_down_def modify_properties_def vf_arcs_def vf_final_weight_def)
  then show ?thesis using delete_states_run [OF assms False] by blast
qed

definition on_arc :: "(nat \<Rightarrow> bool) \<Rightarrow> 'w arc list \<Rightarrow> bool" where
  "on_arc alive p \<longleftrightarrow> (\<forall>a \<in> set p. alive (nextstate a))"

lemma live_arcs_in: "b \<in> set (live_arcs alive as) \<longleftrightarrow> (\<exists>a \<in> set as. alive (nextstate a) \<and> b = retarget (new_id alive) a)"
  by (auto simp: live_arcs_def)

lemma cutD:
  assumes "cut_down alive f g"
  shows "s < length (vf_states f) \<Longrightarrow> alive s \<Longrightarrow> vf_arcs g (new_id alive s) = live_arcs alive (vf_arcs f s)"
    "s < length (vf_states f) \<Longrightarrow> alive s \<Longrightarrow> vf_final_weight g (new_id alive s) = vf_final_weight f s"
    "length (vf_states g) = new_id alive (length (vf_states f))"
    "vf_start f = Some s \<Longrightarrow> alive s \<Longrightarrow> vf_start g = Some (new_id alive s)"
    "vf_start g = Some k \<Longrightarrow> \<exists>s. vf_start f = Some s \<and> alive s \<and> k = new_id alive s"
  using assms by (auto simp: cut_down_def split: option.splits if_splits)

lemma closed_arc: "vf_closed f \<Longrightarrow> a \<in> set (vf_arcs f s) \<Longrightarrow> nextstate a < length (vf_states f)"
  by (auto simp: vf_closed_def vf_arcs_def vget_def split: option.splits if_splits)

text \<open>Paths through live states are the paths that are left.\<close>

lemma cut_path:
  assumes cut: "cut_down alive f g" and cl: "vf_closed f"
  shows "s < length (vf_states f) \<Longrightarrow> alive s \<Longrightarrow> on_arc alive p \<Longrightarrow> path (vf_arcs f) s p t \<Longrightarrow>
    path (vf_arcs g) (new_id alive s) (map (retarget (new_id alive)) p) (new_id alive t)"
proof (induction p arbitrary: s)
  case (Cons a p)
  have a: "a \<in> set (vf_arcs f s)" "alive (nextstate a)" "path (vf_arcs f) (nextstate a) p t" "on_arc alive p"
    using Cons.prems by (auto simp: on_arc_def)
  have "retarget (new_id alive) a \<in> set (vf_arcs g (new_id alive s))"
    unfolding cutD(1) [OF cut Cons.prems(1,2)] live_arcs_in using a by blast
  then show ?case using Cons.IH [OF closed_arc [OF cl a(1)] a(2,4,3)] by simp
qed simp

lemma uncut_path:
  assumes cut: "cut_down alive f g" and cl: "vf_closed f"
  shows "s < length (vf_states f) \<Longrightarrow> alive s \<Longrightarrow> path (vf_arcs g) (new_id alive s) q k \<Longrightarrow>
    \<exists>p t. q = map (retarget (new_id alive)) p \<and> on_arc alive p \<and> path (vf_arcs f) s p t \<and> t < length (vf_states f) \<and>
      alive t \<and> k = new_id alive t"
proof (induction q arbitrary: s)
  case (Cons b q)
  obtain a where a: "a \<in> set (vf_arcs f s)" "alive (nextstate a)" "b = retarget (new_id alive) a"
    using Cons.prems(3) unfolding path.simps cutD(1) [OF cut Cons.prems(1,2)] live_arcs_in by blast
  have "path (vf_arcs g) (new_id alive (nextstate a)) q k" using Cons.prems(3) a(3) by simp
  then obtain p t where "q = map (retarget (new_id alive)) p" "on_arc alive p" "path (vf_arcs f) (nextstate a) p t"
      "t < length (vf_states f)" "alive t" "k = new_id alive t"
    using Cons.IH [OF closed_arc [OF cl a(1)] a(2)] by blast
  then show ?case using a by (intro exI [of _ "a # p"] exI [of _ t]) (simp add: on_arc_def)
qed (auto simp: on_arc_def)

lemma retarget_inj:
  assumes "alive (nextstate a)" "alive (nextstate b)" "retarget (new_id alive) a = retarget (new_id alive) b"
  shows "a = b"
proof -
  have "nextstate a = nextstate b" using assms new_id_inj [of alive "nextstate a" "nextstate b"] by (metis retarget_sel(4))
  moreover have "ilabel a = ilabel b" "olabel a = olabel b" "weight a = weight b"
    using assms(3) by (metis retarget_sel)+
  ultimately show ?thesis by (cases a, cases b) simp
qed

text \<open>Only the states of the FST matter.\<close>

lemma cut_down_cong:
  assumes cl: "vf_closed f" and al: "\<And>s. s < length (vf_states f) \<Longrightarrow> alive s = live s" and cut: "cut_down alive f g"
  shows "cut_down live f g"
proof -
  have id: "new_id alive s = new_id live s" if "s \<le> length (vf_states f)" for s
    using that al by (induction s) auto
  have arcs: "live_arcs alive (vf_arcs f s) = live_arcs live (vf_arcs f s)" for s
  proof -
    have n: "nextstate a < length (vf_states f)" if "a \<in> set (vf_arcs f s)" for a using closed_arc [OF cl that] .
    have "filter (\<lambda>a. alive (nextstate a)) (vf_arcs f s) = filter (\<lambda>a. live (nextstate a)) (vf_arcs f s)"
      using n al by (intro filter_cong) auto
    moreover have "retarget (new_id alive) a = retarget (new_id live) a" if "a \<in> set (vf_arcs f s)" for a
      using id [of "nextstate a"] n [OF that] by (simp add: retarget_def)
    ultimately show ?thesis by (simp add: live_arcs_def)
  qed
  have st: "s < length (vf_states f)" if "vf_start f = Some s" for s using cl that by (simp add: vf_closed_def)
  show ?thesis
    using cut id al arcs st unfolding cut_down_def by (auto split: option.splits)
qed

section \<open>Successful paths\<close>

definition successful :: "('w::{zero,one}, 'sym) vector_fst \<Rightarrow> ('w arc list \<times> 'w) set" where
  "successful f = {(p, vf_final_weight f t) | p s t. vf_start f = Some s \<and> path (vf_arcs f) s p t \<and> vf_final_weight f t \<noteq> 0}"

text \<open>A state is useful when it lies on a successful path.\<close>

definition useful :: "('w::{zero,one}, 'sym) vector_fst \<Rightarrow> state_id \<Rightarrow> bool" where
  "useful f s \<longleftrightarrow> (\<exists>st. vf_start f = Some st \<and> (st, s) \<in> (edges (vf_states f))\<^sup>*) \<and>
     (\<exists>t. (s, t) \<in> (edges (vf_states f))\<^sup>* \<and> vf_final_weight f t \<noteq> 0)"

lemma edge_arc: "(s, t) \<in> edges (vf_states f) \<longleftrightarrow> (\<exists>a \<in> set (vf_arcs f s). nextstate a = t)"
  by (auto simp: edges_def vf_arcs_of)

lemma path_reach: "path (vf_arcs f) s p t \<Longrightarrow> (s, t) \<in> (edges (vf_states f))\<^sup>*"
proof (induction p arbitrary: s)
  case (Cons a p)
  then have "(s, nextstate a) \<in> edges (vf_states f)" "(nextstate a, t) \<in> (edges (vf_states f))\<^sup>*"
    by (auto simp: edge_arc)
  then show ?case by (rule converse_rtrancl_into_rtrancl)
qed simp

lemma successful_useful:
  assumes "vf_start f = Some st" "(st, s) \<in> (edges (vf_states f))\<^sup>*" "path (vf_arcs f) s p t" "vf_final_weight f t \<noteq> 0"
  shows "useful f s \<and> on_arc (useful f) p \<and> useful f t"
  using assms(2,3)
proof (induction p arbitrary: s)
  case Nil
  then show ?case using assms(1,4) by (auto simp: useful_def on_arc_def)
next
  case (Cons a p)
  have e: "(s, nextstate a) \<in> edges (vf_states f)" using Cons.prems(2) by (auto simp: edge_arc)
  then have "(st, nextstate a) \<in> (edges (vf_states f))\<^sup>*" "path (vf_arcs f) (nextstate a) p t"
    using Cons.prems by (auto intro: rtrancl_into_rtrancl)
  then have "useful f (nextstate a) \<and> on_arc (useful f) p \<and> useful f t" by (rule Cons.IH)
  moreover have "useful f s" using Cons.prems(1) path_reach [OF Cons.prems(2)] assms(1,4) by (auto simp: useful_def)
  ultimately show ?case by (simp add: on_arc_def)
qed

lemma useful_in: "vf_closed f \<Longrightarrow> useful f s \<Longrightarrow> s < length (vf_states f)"
proof -
  assume cl: "vf_closed f" and u: "useful f s"
  obtain st where st: "vf_start f = Some st" "(st, s) \<in> (edges (vf_states f))\<^sup>*" using u by (auto simp: useful_def)
  show ?thesis using st(2)
    by (induction rule: rtrancl_induct) (use cl st(1) vf_closed_edges [OF cl] in \<open>auto simp: vf_closed_def\<close>)
qed

lemma cut_successful:
  assumes cut: "cut_down alive f g" and cl: "vf_closed f" and al: "\<And>s. s < length (vf_states f) \<Longrightarrow> alive s \<longleftrightarrow> useful f s"
  shows "bij_betw (\<lambda>(p, w). (map (retarget (new_id alive)) p, w)) (successful f) (successful g)"
proof (rule bij_betw_imageI)
  let ?h = "retarget (new_id alive)"
  have live: "on_arc alive p" if "on_arc (useful f) p" for p
    using that al useful_in [OF cl] by (auto simp: on_arc_def)
  have parts: "\<exists>st t. vf_start f = Some st \<and> alive st \<and> st < length (vf_states f) \<and> path (vf_arcs f) st p t \<and> on_arc alive p \<and>
      alive t \<and> t < length (vf_states f) \<and> w = vf_final_weight f t \<and> w \<noteq> 0" if "(p, w) \<in> successful f" for p w
  proof -
    obtain st t where p: "vf_start f = Some st" "path (vf_arcs f) st p t" "w = vf_final_weight f t" "w \<noteq> 0"
      using \<open>(p, w) \<in> successful f\<close> by (auto simp: successful_def)
    have u: "useful f st \<and> on_arc (useful f) p \<and> useful f t"
      using successful_useful [OF p(1) _ p(2)] p(3,4) by simp
    then show ?thesis using p live al useful_in [OF cl] by blast
  qed
  show "inj_on (\<lambda>(p, w). (map ?h p, w)) (successful f)"
  proof (rule inj_onI)
    fix x y assume xy: "x \<in> successful f" "y \<in> successful f" "(case x of (p, w) \<Rightarrow> (map ?h p, w)) = (case y of (p, w) \<Rightarrow> (map ?h p, w))"
    obtain p w q where p: "x = (p, w)" "y = (q, w)" "map ?h p = map ?h q" using xy(3) by (cases x, cases y) auto
    then have "on_arc alive p" "on_arc alive q" using parts xy(1,2) by blast+
    then have "inj_on ?h (set p \<union> set q)" using retarget_inj [of alive] by (auto simp: on_arc_def inj_on_def)
    then show "x = y" using p by (simp add: inj_on_map_eq_map)
  qed
  show "(\<lambda>(p, w). (map ?h p, w)) ` successful f = successful g"
  proof (intro equalityI subsetI)
    fix x assume "x \<in> (\<lambda>(p, w). (map ?h p, w)) ` successful f"
    then obtain p w where x: "x = (map ?h p, w)" "(p, w) \<in> successful f" by auto
    obtain st t where p: "vf_start f = Some st" "alive st" "st < length (vf_states f)" "path (vf_arcs f) st p t" "on_arc alive p"
        "alive t" "t < length (vf_states f)" "w = vf_final_weight f t" "w \<noteq> 0"
      using parts [OF x(2)] by blast
    show "x \<in> successful g"
      using cut_path [OF cut cl p(3,2,5,4)] cutD(4) [OF cut p(1,2)] cutD(2) [OF cut p(7,6)] p(8,9)
      unfolding x(1) successful_def by (auto intro!: exI [of _ "new_id alive t"])
  next
    fix x assume "x \<in> successful g"
    then obtain q k l where q: "x = (q, vf_final_weight g l)" "vf_start g = Some k" "path (vf_arcs g) k q l" "vf_final_weight g l \<noteq> 0"
      by (auto simp: successful_def)
    obtain st where st: "vf_start f = Some st" "alive st" "k = new_id alive st" using cutD(5) [OF cut q(2)] by blast
    have stn: "st < length (vf_states f)" using st(1) cl by (simp add: vf_closed_def)
    obtain p t where p: "q = map ?h p" "path (vf_arcs f) st p t" "t < length (vf_states f)" "alive t" "l = new_id alive t"
      using uncut_path [OF cut cl stn st(2)] q(3) st(3) by blast
    have "vf_final_weight g l = vf_final_weight f t" using cutD(2) [OF cut p(3,4)] p(5) by simp
    then have "(p, vf_final_weight g l) \<in> successful f" using st(1) p(2) q(4) unfolding successful_def by auto
    then show "x \<in> (\<lambda>(p, w). (map ?h p, w)) ` successful f" using q(1) p(1) by force
  qed
qed

text \<open>What is left is accessible and coaccessible.\<close>

lemma cut_edge:
  assumes cut: "cut_down alive f g" and e: "(s, t) \<in> edges (vf_states f)" and "s < length (vf_states f)" "alive s" "alive t"
  shows "(new_id alive s, new_id alive t) \<in> edges (vf_states g)"
proof -
  obtain a where a: "a \<in> set (vf_arcs f s)" "nextstate a = t" using e by (auto simp: edge_arc)
  then have "retarget (new_id alive) a \<in> set (vf_arcs g (new_id alive s))"
    unfolding cutD(1) [OF cut assms(3,4)] live_arcs_in using assms(5) by blast
  then show ?thesis unfolding edge_arc using a(2) by force
qed

lemma cut_trim:
  assumes cut: "cut_down alive f g" and cl: "vf_closed f" and al: "\<And>s. s < length (vf_states f) \<Longrightarrow> alive s \<longleftrightarrow> useful f s"
  shows "is_accessible (vf_states g) (vf_start g)" "is_coaccessible (vf_states g)"
proof -
  let ?E = "edges (vf_states f)" and ?n = "length (vf_states f)"
  have E: "s < ?n \<and> t < ?n" if "(s, t) \<in> ?E" for s t using vf_closed_edges [OF cl] that by auto
  have live: "alive s \<longleftrightarrow> useful f s \<and> s < ?n" if "s < ?n" for s using al that by blast
  have acc: "(new_id alive st, new_id alive s) \<in> (edges (vf_states g))\<^sup>*"
    if st: "vf_start f = Some st" and "(st, s) \<in> ?E\<^sup>*" and "useful f s" for st s
    using that(2,3)
  proof (induction rule: rtrancl_induct)
    case (step y z)
    have "useful f y" using step(1,2,4) st by (auto simp: useful_def intro: converse_rtrancl_into_rtrancl)
    then have "(new_id alive y, new_id alive z) \<in> edges (vf_states g)"
      using cut_edge [OF cut step(2)] E [OF step(2)] al step(4) by blast
    then show ?case using step(3) \<open>useful f y\<close> by (simp add: rtrancl_into_rtrancl)
  qed simp
  have co: "(new_id alive s, new_id alive t) \<in> (edges (vf_states g))\<^sup>*"
    if "(s, t) \<in> ?E\<^sup>*" "vf_final_weight f t \<noteq> 0" "useful f s" for s t
    using that(1,3)
  proof (induction rule: converse_rtrancl_induct)
    case (step y z)
    have "useful f z" using step(1,2,4) that(2) by (auto simp: useful_def intro: rtrancl_into_rtrancl)
    then have "(new_id alive y, new_id alive z) \<in> edges (vf_states g)"
      using cut_edge [OF cut step(1)] E [OF step(1)] al step(4) by blast
    then show ?case using step(3) \<open>useful f z\<close> by (meson converse_rtrancl_into_rtrancl)
  qed simp
  have old: "\<exists>s < ?n. useful f s \<and> k = new_id alive s" if "k < length (vf_states g)" for k
    using new_id_onto [of k alive ?n] cutD(3) [OF cut] al that by auto
  show "is_accessible (vf_states g) (vf_start g)"
    unfolding is_accessible_def
  proof (intro allI impI)
    fix k assume "k < length (vf_states g)"
    then obtain s where s: "s < ?n" "useful f s" "k = new_id alive s" using old by blast
    obtain st where st: "vf_start f = Some st" "(st, s) \<in> ?E\<^sup>*" using s(2) by (auto simp: useful_def)
    have "useful f st" using s(2) st by (auto simp: useful_def intro: rtrancl_trans)
    then have "alive st" using al [of st] st(1) cl by (simp add: vf_closed_def)
    then show "\<exists>q. vf_start g = Some q \<and> (q, k) \<in> (edges (vf_states g))\<^sup>*"
      using cutD(4) [OF cut st(1)] acc [OF st s(2)] s(3) by blast
  qed
  show "is_coaccessible (vf_states g)"
    unfolding is_coaccessible_def
  proof (intro allI impI)
    fix k assume k: "k < length (vf_states g)"
    then obtain s where s: "s < ?n" "useful f s" "k = new_id alive s" using old by blast
    obtain t where t: "(s, t) \<in> ?E\<^sup>*" "vf_final_weight f t \<noteq> 0" using s(2) by (auto simp: useful_def)
    have "useful f t" using s(2) t by (auto simp: useful_def intro: rtrancl_trans)
    then have lt: "t < ?n" "alive t" using useful_in [OF cl] al by blast+
    have "new_id alive t < length (vf_states g)" using new_id_bound [where s = t and n = ?n and alive = alive, OF lt] cutD(3) [OF cut] by simp
    moreover have "vs_final (vf_states g ! new_id alive t) \<noteq> 0"
      using cutD(2) [OF cut lt] t(2) calculation by (simp add: vf_final_weight_def)
    ultimately show "\<exists>t < length (vf_states g). vs_final (vf_states g ! t) \<noteq> 0 \<and> (k, t) \<in> (edges (vf_states g))\<^sup>*"
      using co [OF t s(2)] s(3) by blast
  qed
qed

section \<open>The result of trimming\<close>

lemma dead_states_run:
  assumes "bs_ok a" "bs_ok c"
  shows "ofold (\<lambda>s dstates. do {
         x \<leftarrow> gbs_contains a s;
         dead \<leftarrow> (if \<not> x then Some True else map_option Not (gbs_contains c s));
         Some (if dead then dstates @ [s] else dstates) }) [0..<n] [] =
    Some (filter (\<lambda>s. \<not> (s \<in> members a \<and> s \<in> members c)) [0..<n])"
  using gbs_contains_run [OF assms(1)] gbs_contains_run [OF assms(2)] by (induction n) auto

lemma connect_search:
  fixes f :: "('w::{zero,one}, 'sym) vector_fst"
  assumes cl: "vf_closed f" and n: "length (vf_states f) \<le> 2 ^ 32" and fin: "proper_finals is_member f"
  shows "\<exists>v a. dfs_visit_any (scc_visitor_of (vf_start f) (vf_final_weight f) is_member) (vector_view f)
       (scc_visitor_new None (Some gbs_new) (Some gbs_new) 0) = Some v \<and> sv_access v = Some a \<and> bs_ok a \<and> bs_ok (sv_coaccess v) \<and>
     (\<forall>s < length (vf_states f). s \<in> members a \<and> s \<in> members (sv_coaccess v) \<longleftrightarrow> useful f s)"
proof -
  let ?v0 = "scc_visitor_new None (Some gbs_new) (Some gbs_new) 0" and ?E = "edges (vf_states f)" and ?n = "length (vf_states f)"
  have new: "bs_ok gbs_new" "members gbs_new = {}" using new_empty_run [of 0] by (simp_all add: gbs_new_def)
  have ok: "sets_ok ?v0" by (rule scc_visitor_new_ok) (simp_all add: new)
  show ?thesis
  proof (cases "vf_start f")
    case None
    then show ?thesis
      using bs_clear_run [OF new(1)]
      by (simp add: dfs_visit_any_def dfs_visit_def vector_view_def scc_visitor_of_def sv_init_visit_def scc_visitor_new_def
          sv_finish_visit_def Let_def useful_def)
  next
    case (Some st)
    have s: "fv_start (vector_view f) = Some st" using Some by (simp add: vector_view_def)
    have e: "fv_start (vector_view f) = vf_start f" by (simp add: vector_view_def)
    have n0: "sv_access ?v0 = Some gbs_new" "sv_want_coaccess ?v0" by (simp_all add: scc_visitor_new_def)
    obtain v where v: "dfs_visit (scc_visitor_of (vf_start f) (vf_final_weight f) is_member) (vector_view f) (\<lambda>_. True) False ?v0 = Some v"
        "case sv_access ?v0 of None \<Rightarrow> sv_access v = None
         | Some _ \<Rightarrow> \<exists>a. sv_access v = Some a \<and> bs_ok a \<and> members a = ?E\<^sup>* `` {st}"
        "bs_ok (sv_coaccess v)"
        "if sv_want_coaccess ?v0 then members (sv_coaccess v) \<inter> {..<?n} =
           {s. s < ?n \<and> reaches ?E (productive (vf_final_weight f) is_member \<inter> {..<?n}) s} else True"
      using scc_visit_exact [OF vector_view_ok [OF cl] s n ok, where flt = "\<lambda>_. True"
          and final_weight = "vf_final_weight f" and is_member = is_member]
      unfolding vector_view_steps e by blast
    obtain a where a: "sv_access v = Some a" "bs_ok a" "members a = ?E\<^sup>* `` {st}" using v(2) unfolding n0 by auto
    have co: "s \<in> members (sv_coaccess v) \<longleftrightarrow> (\<exists>t. (s, t) \<in> ?E\<^sup>* \<and> vf_final_weight f t \<noteq> 0)" if "s < ?n" for s
    proof -
      have "s \<in> members (sv_coaccess v) \<longleftrightarrow> reaches ?E {t. t < ?n \<and> vs_final (vf_states f ! t) \<noteq> 0} s"
        using v(4) n0(2) that unfolding productive_proper [OF fin] by auto
      also have "\<dots> \<longleftrightarrow> (\<exists>t. (s, t) \<in> ?E\<^sup>* \<and> vf_final_weight f t \<noteq> 0)"
        by (auto simp: reaches_def vf_final_weight_def vget_def)
      finally show ?thesis .
    qed
    show ?thesis using v(1,3) a co Some by (auto simp: dfs_visit_any_def useful_def)
  qed
qed

text \<open>Trimming as the deletion of a list of states.\<close>

lemma connect_run:
  fixes f :: "('w::{zero,one}, 'sym) vector_fst"
  assumes "vf_closed f" "length (vf_states f) \<le> 2 ^ 32" "proper_finals is_member f"
  shows "\<exists>ds g. delete_states f ds = Some g \<and> cut_down (useful f) f g \<and>
    connect is_member f = Some (set_properties g (K_ACCESSIBLE OR K_CO_ACCESSIBLE) (K_ACCESSIBLE OR K_CO_ACCESSIBLE))"
proof -
  let ?n = "length (vf_states f)"
  obtain v a where v: "dfs_visit_any (scc_visitor_of (vf_start f) (vf_final_weight f) is_member) (vector_view f)
        (scc_visitor_new None (Some gbs_new) (Some gbs_new) 0) = Some v" "sv_access v = Some a" "bs_ok a" "bs_ok (sv_coaccess v)"
      "\<And>s. s < ?n \<Longrightarrow> s \<in> members a \<and> s \<in> members (sv_coaccess v) \<longleftrightarrow> useful f s"
    using connect_search [OF assms(1-3)] by blast
  let ?ds = "filter (\<lambda>s. \<not> (s \<in> members a \<and> s \<in> members (sv_coaccess v))) [0..<?n]"
  obtain g where g: "delete_states f ?ds = Some g" "cut_down (\<lambda>s. s \<notin> set ?ds) f g"
    using delete_states_cut_down [OF assms(1), of ?ds] by blast
  have al: "s \<notin> set ?ds \<longleftrightarrow> useful f s" if "s < ?n" for s using v(5) that by auto
  have run: "connect is_member f = Some (set_properties g (K_ACCESSIBLE OR K_CO_ACCESSIBLE) (K_ACCESSIBLE OR K_CO_ACCESSIBLE))"
    using v(1,2) dead_states_run [OF v(3,4), of ?n] g(1) by (simp add: connect_def vf_num_states_def Let_def)
  have "cut_down (useful f) f g" by (rule cut_down_cong [OF assms(1) _ g(2)]) (use al in blast)
  then show ?thesis using g(1) run by blast
qed

lemma set_properties_successful: "successful (set_properties g p m) = successful g"
proof -
  have "vf_arcs (set_properties g p m) = vf_arcs g" by (rule ext) (simp add: vf_simps)
  then show ?thesis by (simp add: successful_def vf_simps)
qed

lemma connect_successful:
  fixes f :: "('w::{zero,one}, 'sym) vector_fst"
  assumes "vf_closed f" "length (vf_states f) \<le> 2 ^ 32" "proper_finals is_member f"
  shows "\<exists>g. connect is_member f = Some g \<and>
    bij_betw (\<lambda>(p, w). (map (retarget (new_id (useful f))) p, w)) (successful f) (successful g)"
proof -
  obtain ds g where g: "delete_states f ds = Some g" "cut_down (useful f) f g"
      "connect is_member f = Some (set_properties g (K_ACCESSIBLE OR K_CO_ACCESSIBLE) (K_ACCESSIBLE OR K_CO_ACCESSIBLE))"
    using connect_run [OF assms] by blast
  show ?thesis using g(3) cut_successful [OF g(2) assms(1) refl]
    by (intro exI [of _ "set_properties g (K_ACCESSIBLE OR K_CO_ACCESSIBLE) (K_ACCESSIBLE OR K_CO_ACCESSIBLE)"])
      (simp add: set_properties_successful)
qed

text \<open>C5. Trimming returns, whatever the FST: every state left is accessible and coaccessible, the successful
  paths are those of the original, arc for arc and with their final weights, renumbered, and the property
  bits stay true.\<close>

theorem connect_trims:
  fixes f :: "('w::{zero,one}, 'sym) vector_fst"
  assumes "vf_closed f" "length (vf_states f) \<le> 2 ^ 32" "proper_finals is_member f" "vf_sound f"
  shows "\<exists>g. connect is_member f = Some g \<and>
    is_accessible (vf_states g) (vf_start g) \<and> is_coaccessible (vf_states g) \<and> vf_sound g \<and>
    bij_betw (\<lambda>(p, w). (map (retarget (new_id (useful f))) p, w)) (successful f) (successful g)"
proof -
  obtain ds g where g: "delete_states f ds = Some g" and cut: "cut_down (useful f) f g"
      and run: "connect is_member f = Some (set_properties g (K_ACCESSIBLE OR K_CO_ACCESSIBLE) (K_ACCESSIBLE OR K_CO_ACCESSIBLE))"
    using connect_run [OF assms(1-3)] by blast
  let ?h = "set_properties g (K_ACCESSIBLE OR K_CO_ACCESSIBLE) (K_ACCESSIBLE OR K_CO_ACCESSIBLE)"
  have same: "vf_states ?h = vf_states g" "vf_start ?h = vf_start g" by (simp_all add: set_properties_def modify_properties_def)
  note trim = cut_trim [OF cut assms(1) refl]
  have "\<forall>i \<in> trinary. bit (vf_properties g) i \<longrightarrow> truth (vf_states g) (vf_start g) i"
    using delete_states_sound [OF assms(4,1) g] by (simp add: vf_sound_def sound_iff)
  then have "\<forall>i \<in> trinary. bit (vf_properties ?h) i \<longrightarrow> truth (vf_states g) (vf_start g) i"
    using trim truth_simps(25,27) [of "vf_states g" "vf_start g"]
    by (auto simp: set_properties_def modify_properties_def bit_or_iff bit_and_iff bit_not_iff)
  then have "vf_sound ?h" by (simp add: vf_sound_def sound_iff same)
  then show ?thesis using run trim same cut_successful [OF cut assms(1) refl] set_properties_successful by metis
qed

text \<open>An instance: a state that loops on itself and is final.\<close>

definition final_loop :: "(nat, unit) vector_fst" where
  "final_loop = set_final one_arc 0 1"

lemma final_loop_built: "vf_built final_loop"
  unfolding final_loop_def by (rule vf_built.call [OF one_arc_built vf_step.step [of "SetFinal 0 1"]]) simp_all

lemma final_loop_fst:
  "vf_states final_loop = [\<lparr>vs_final = 1, vs_arcs = [arc_new 1 1 1 0], vs_niepsilons = 0, vs_noepsilons = 0\<rparr>]"
  "vf_start final_loop = Some 0"
  by (simp_all add: final_loop_def set_final_def vget_def one_arc_fst modify_properties_def)

theorem connect_trims_witness:
  "\<exists>g. connect (\<lambda>_. True) final_loop = Some g \<and>
    is_accessible (vf_states g) (vf_start g) \<and> is_coaccessible (vf_states g) \<and> vf_sound g \<and>
    bij_betw (\<lambda>(p, w). (map (retarget (new_id (useful final_loop))) p, w)) (successful final_loop) (successful g)"
  by (rule connect_trims)
    (use built_inv [OF final_loop_built] in \<open>simp_all add: vf_inv_def vf_static_def vf_closed_def proper_finals_def
       final_loop_fst usize_max_def\<close>)

end
