(* ===== verification/Condense.thy ===== *)
theory Condense
  imports Connect FstCalls
begin

text \<open>
  Condensing, \<open>algorithms/connect.rs\<close>: every strongly connected component becomes a state, and only the arcs
  that leave their component stay.
\<close>

section \<open>The code\<close>

definition condense_arc :: "nat list \<Rightarrow> nat \<Rightarrow> 'w::{zero,one,plus} arc \<Rightarrow> ('w, 'sym) vector_fst \<Rightarrow> ('w, 'sym) vector_fst option" where
  "condense_arc scc c a ofst = do {
     nextc \<leftarrow> vget scc (nextstate a);
     Some (if nextc \<noteq> c then add_arc ofst c (arc_new (ilabel a) (olabel a) (weight a) nextc) else ofst) }"

definition condense_state ::
  "('w::{zero,one,plus} \<Rightarrow> bool) \<Rightarrow> ('w, 's) vector_fst \<Rightarrow> nat list \<Rightarrow> state_id \<Rightarrow> ('w, 'sym) vector_fst \<Rightarrow>
   ('w, 'sym) vector_fst option" where
  "condense_state is_member ifst scc s ofst = do {
     c \<leftarrow> vget scc s;
     (if c = no_state then Some ofst
      else do {
        let ofst = (if Some s = vf_start ifst then set_start ofst c else ofst);
        let weight = vf_final_weight ifst s;
        let ofst = (if is_member weight \<and> weight \<noteq> 0 then set_final ofst c (vf_final_weight ofst c + weight) else ofst);
        ofold (condense_arc scc c) (vf_arcs ifst s) ofst }) }"

definition condense ::
  "('w::{zero,one,plus} \<Rightarrow> bool) \<Rightarrow> ('w, 's) vector_fst \<Rightarrow> ('w, 'sym) vector_fst \<Rightarrow> nat list \<Rightarrow>
   (('w, 'sym) vector_fst \<times> nat list) option" where
  "condense is_member ifst ofst scc = do {
     let ofst = delete_all_states ofst;
     v \<leftarrow> dfs_visit_any (scc_visitor_of (vf_start ifst) (vf_final_weight ifst) is_member) (vector_view ifst)
       (scc_visitor_new (Some scc) None None 0);
     let scc = (case sv_scc v of None \<Rightarrow> scc | Some c \<Rightarrow> c);
     (if scc = [] \<or> Max (set scc) = no_state then Some (ofst, scc)
      else do {
        let num_condensed_states = Max (set scc) + 1;
        let ofst = fold (\<lambda>_ ofst. fst (add_state ofst)) [0..<num_condensed_states] ofst;
        ofst \<leftarrow> ofold (condense_state is_member ifst scc) [0..<length scc] ofst;
        Some (set_properties ofst (K_ACYCLIC OR K_INITIAL_ACYCLIC) (K_ACYCLIC OR K_INITIAL_ACYCLIC), scc) }) }"

section \<open>What each loop leaves\<close>

definition leaving :: "nat list \<Rightarrow> nat \<Rightarrow> 'w arc list \<Rightarrow> 'w arc list" where
  "leaving scc c as = map (retarget ((!) scc)) (filter (\<lambda>a. scc ! nextstate a \<noteq> c) as)"

lemma condense_arcs_run:
  "(\<And>a. a \<in> set as \<Longrightarrow> nextstate a < length scc) \<Longrightarrow>
   ofold (condense_arc scc c) as f = Some (fold (\<lambda>a f. add_arc f c a) (leaving scc c as) f)"
proof (induction as arbitrary: f)
  case (Cons a as)
  have "nextstate a < length scc" using Cons.prems by simp
  then show ?case using Cons by (simp add: condense_arc_def leaving_def retarget_def)
qed (simp add: leaving_def)

text \<open>The states of a component, in order, among the first \<open>i\<close>.\<close>

definition component :: "nat list \<Rightarrow> nat \<Rightarrow> nat \<Rightarrow> state_id list" where
  "component scc i c = filter (\<lambda>s. scc ! s = c) [0..<i]"

lemma component_Suc: "component scc (Suc i) c = component scc i c @ (if scc ! i = c then [i] else [])"
  by (simp add: component_def)

definition final_sum :: "('w::{zero,plus} \<Rightarrow> bool) \<Rightarrow> (state_id \<Rightarrow> 'w) \<Rightarrow> state_id list \<Rightarrow> 'w" where
  "final_sum is_member fin ss = foldl (+) 0 (filter (\<lambda>w. is_member w \<and> w \<noteq> 0) (map fin ss))"

definition condensed ::
  "('w::{zero,one,plus} \<Rightarrow> bool) \<Rightarrow> ('w, 's) vector_fst \<Rightarrow> nat list \<Rightarrow> nat \<Rightarrow> nat \<Rightarrow> ('w, 'sym) vector_fst \<Rightarrow> bool" where
  "condensed is_member f scc k i g \<longleftrightarrow> vf_num_states g = k \<and>
     (\<forall>c < k. vf_arcs g c = concat (map (\<lambda>s. leaving scc c (vf_arcs f s)) (component scc i c)) \<and>
        vf_final_weight g c = final_sum is_member (vf_final_weight f) (component scc i c)) \<and>
     vf_start g = (case vf_start f of None \<Rightarrow> None | Some s \<Rightarrow> if s < i then Some (scc ! s) else None)"

lemma condense_state_run:
  fixes g :: "('a::{zero,one,plus}, 'c) vector_fst"
  assumes g: "condensed is_member f scc k i g" "vf_sound g"
    and i: "i < length scc" and k: "set scc \<subseteq> {..<k}" "k \<le> usize_max"
    and cl: "\<And>a. a \<in> set (vf_arcs f i) \<Longrightarrow> nextstate a < length scc"
  shows "\<exists>h. condense_state is_member f scc i g = Some h \<and> condensed is_member f scc k (Suc i) h \<and> vf_sound h"
proof -
  let ?c = "scc ! i" and ?w = "vf_final_weight f i"
  have c: "?c < k" using i k(1) nth_mem by blast
  then have nc: "?c \<noteq> no_state" using k(2) by (simp add: no_state_def)
  let ?g1 = "if Some i = vf_start f then set_start g ?c else g"
  let ?g2 = "if is_member ?w \<and> ?w \<noteq> 0 then set_final ?g1 ?c (vf_final_weight ?g1 ?c + ?w) else ?g1"
  let ?h = "fold (\<lambda>a f. add_arc f ?c a) (leaving scc ?c (vf_arcs f i)) ?g2"
  have "ofold (condense_arc scc ?c) (vf_arcs f i) x = Some (fold (\<lambda>a f. add_arc f ?c a) (leaving scc ?c (vf_arcs f i)) x)"
    for x :: "('a, 'c) vector_fst"
    using cl by (rule condense_arcs_run)
  then have run: "condense_state is_member f scc i g = Some ?h"
    using i nc by (simp add: condense_state_def Let_def)
  have sound: "vf_sound ?h" using g(2) by (intro add_arcs_sound) (auto intro: inv_intros)
  have start: "vf_start ?h = (case vf_start f of None \<Rightarrow> None | Some s \<Rightarrow> if s < Suc i then Some (scc ! s) else None)"
    using g(1) nc by (auto simp: add_arcs_view add_arcs_arcs vf_simps condensed_def less_Suc_eq split: option.split)
  have arcs: "vf_arcs ?h d = concat (map (\<lambda>s. leaving scc d (vf_arcs f s)) (component scc (Suc i) d))" if "d < k" for d
    using g(1) that c by (auto simp: add_arcs_view add_arcs_arcs vf_simps condensed_def component_Suc)
  have fin: "vf_final_weight ?h d = final_sum is_member (vf_final_weight f) (component scc (Suc i) d)" if "d < k" for d
    using g(1) that c by (auto simp: add_arcs_view add_arcs_arcs vf_simps condensed_def component_Suc final_sum_def)
  have "vf_num_states ?h = k" using g(1) by (simp add: add_arcs_view add_arcs_arcs vf_simps condensed_def)
  then have "condensed is_member f scc k (Suc i) ?h" unfolding condensed_def using arcs fin start by blast
  then show ?thesis using run sound by blast
qed

section \<open>The condensed FST\<close>

lemma set_properties_sound:
  assumes "vf_sound f" "\<And>i. i \<in> trinary \<Longrightarrow> bit p i \<Longrightarrow> bit m i \<Longrightarrow> truth (vf_states f) (vf_start f) i"
  shows "vf_sound (set_properties f p m)"
  using assms by (auto simp: vf_sound_def sound_iff set_properties_def modify_properties_def bit_or_iff bit_and_iff)

lemma rising_acyclic:
  assumes "\<And>s a. a \<in> set (vf_arcs f s) \<Longrightarrow> s < nextstate a"
  shows "\<not> is_cyclic (vf_states f)" "\<not> is_initial_cyclic (vf_states f) (vf_start f)"
proof -
  have "s < t" if "(s, t) \<in> (edges (vf_states f))\<^sup>+" for s t
    using that by (induction rule: trancl_induct) (auto simp: edge_arc dest: assms)
  then show "\<not> is_cyclic (vf_states f)" "\<not> is_initial_cyclic (vf_states f) (vf_start f)"
    by (auto simp: is_cyclic_def is_initial_cyclic_def)
qed

lemma condense_search:
  fixes f :: "('w::{zero,one,plus}, 's) vector_fst"
  assumes cl: "vf_closed f" and n: "vf_num_states f \<le> 2 ^ 32" and st: "vf_start f = Some st"
  shows "\<exists>v scc k. dfs_visit_any (scc_visitor_of (vf_start f) (vf_final_weight f) is_member) (vector_view f)
       (scc_visitor_new (Some scc0) None None 0) = Some v \<and> sv_scc v = Some scc \<and>
     scc_numbering (vf_num_states f) (edges (vf_states f)) k scc"
proof -
  let ?v0 = "scc_visitor_new (Some scc0) None None 0"
  have ok: "sets_ok ?v0" by (rule scc_visitor_new_ok) simp_all
  have s: "fv_start (vector_view f) = Some st" and e: "fv_start (vector_view f) = vf_start f"
    using st by (simp_all add: vector_view_def)
  obtain v where "dfs_visit (scc_visitor_of (vf_start f) (vf_final_weight f) is_member) (vector_view f) (\<lambda>_. True) False ?v0 = Some v"
      "case sv_scc ?v0 of None \<Rightarrow> sv_scc v = None
       | Some _ \<Rightarrow> \<exists>c. sv_scc v = Some c \<and> scc_numbering (vf_num_states f) (edges (vf_states f)) (sv_nscc v) c"
    using scc_visit_exact [OF vector_view_ok [OF cl] s _ ok, where flt = "\<lambda>_. True"
        and final_weight = "vf_final_weight f" and is_member = is_member] n
    unfolding vector_view_steps e vf_num_states_def by blast
  moreover have "sv_scc ?v0 = Some scc0" by (simp add: scc_visitor_new_def)
  ultimately show ?thesis by (auto simp: dfs_visit_any_def)
qed

text \<open>C7. Condensing an FST with a start state, into whatever FST, returns it with one state per strongly
  connected component: a state's arcs are the arcs that leave its component, in the order of the states, each
  led to the component of its destination; its final weight is the sum of the final weights of its members;
  the start is the component of the start; every arc leads to a higher number, so there is no cycle; and the
  property bits stay true.\<close>

theorem condense_exact:
  fixes f :: "('w::{zero,one,plus}, 's) vector_fst" and g :: "('w, 'sym) vector_fst"
  assumes "vf_closed f" "vf_num_states f \<le> 2 ^ 32" "vf_start f = Some st" "vf_sound g"
  shows "\<exists>h scc k. condense is_member f g scc0 = Some (h, scc) \<and>
    scc_numbering (vf_num_states f) (edges (vf_states f)) k scc \<and> vf_num_states h = k \<and> vf_start h = Some (scc ! st) \<and>
    (\<forall>c < k. vf_arcs h c = concat (map (\<lambda>s. leaving scc c (vf_arcs f s)) (component scc (vf_num_states f) c)) \<and>
       vf_final_weight h c = final_sum is_member (vf_final_weight f) (component scc (vf_num_states f) c)) \<and>
    (\<forall>s. \<forall>a \<in> set (vf_arcs h s). s < nextstate a) \<and> vf_sound h"
proof -
  let ?n = "vf_num_states f"
  obtain v scc k where v: "dfs_visit_any (scc_visitor_of (vf_start f) (vf_final_weight f) is_member) (vector_view f)
        (scc_visitor_new (Some scc0) None None 0) = Some v" "sv_scc v = Some scc"
      and num: "scc_numbering ?n (edges (vf_states f)) k scc"
    using condense_search [OF assms(1-3)] by blast
  have stn: "st < ?n" using assms(1,3) by (simp add: closed_iff)
  have len: "length scc = ?n" and set: "set scc = {..<k}" using num by (simp_all add: scc_numbering_def)
  have "k = card (set scc)" using set by simp
  then have k: "k \<le> ?n" using card_length [of scc] len by linarith
  have ne: "scc \<noteq> []" using len stn by auto
  then have kpos: "0 < k" using set by (cases k) auto
  then have "Max {..<k} = k - 1" by (intro Max_eqI) auto
  then have max: "Max (set scc) + 1 = k" using kpos set by simp
  then have nm: "Max (set scc) \<noteq> no_state" using k assms(2) by (simp add: no_state_def usize_max_def)
  let ?g0 = "fold (\<lambda>_ g. fst (add_state g)) [0..<Max (set scc) + 1] (delete_all_states g)"
  have g0: "condensed is_member f scc k 0 ?g0"
    by (auto simp: condensed_def add_state_times vf_simps component_def final_sum_def max [simplified] simp del: upt_Suc split: option.split)
  have s0: "vf_sound ?g0" by (intro add_state_times_sound) (use assms(4) in \<open>auto intro: inv_intros\<close>)
  have "\<exists>h. ofold (condense_state is_member f scc) [0..<?n] ?g0 = Some h \<and> (condensed is_member f scc k ?n h \<and> vf_sound h)"
  proof (rule ofold_upt_inv [where P = "\<lambda>i h. condensed is_member f scc k i h \<and> vf_sound h"])
    fix i h assume i: "i < ?n" and h: "condensed is_member f scc k i h \<and> vf_sound h"
    have "nextstate a < length scc" if "a \<in> set (vf_arcs f i)" for a using assms(1) that len by (auto simp: closed_iff)
    then show "\<exists>u. condense_state is_member f scc i h = Some u \<and> condensed is_member f scc k (Suc i) u \<and> vf_sound u"
      using condense_state_run [of is_member f scc k i h] h i len set k assms(2) by (simp add: usize_max_def)
  qed (use g0 s0 in blast)
  then obtain h where h: "ofold (condense_state is_member f scc) [0..<?n] ?g0 = Some h" "condensed is_member f scc k ?n h" "vf_sound h"
    by blast
  let ?h = "set_properties h (K_ACYCLIC OR K_INITIAL_ACYCLIC) (K_ACYCLIC OR K_INITIAL_ACYCLIC)"
  have run: "condense is_member f g scc0 = Some (?h, scc)"
    using v ne nm h(1) len by (simp add: condense_def Let_def del: upt_Suc)
  have view: "vf_num_states ?h = k" "vf_start ?h = Some (scc ! st)"
      "\<And>c. c < k \<Longrightarrow> vf_arcs ?h c = concat (map (\<lambda>s. leaving scc c (vf_arcs f s)) (component scc ?n c))"
      "\<And>c. c < k \<Longrightarrow> vf_final_weight ?h c = final_sum is_member (vf_final_weight f) (component scc ?n c)"
    using h(2) assms(3) stn by (auto simp: condensed_def vf_simps)
  have rise: "c < nextstate a" if a: "a \<in> set (vf_arcs h c)" for c a
  proof -
    have ck: "c < k" using a h(2) by (metis condensed_def empty_iff empty_set not_le outside(1))
    obtain s b where s: "scc ! s = c" "b \<in> set (vf_arcs f s)" "scc ! nextstate b \<noteq> c" "a = retarget ((!) scc) b"
      using a view(3) [OF ck] by (auto simp: vf_simps component_def leaving_def)
    have "(s, nextstate b) \<in> edges (vf_states f)" using s(2) by (auto simp: edge_arc)
    then have "scc ! s \<le> scc ! nextstate b" using num by (auto simp: scc_numbering_def)
    then show ?thesis using s by simp
  qed
  have "vf_sound ?h"
  proof (rule set_properties_sound [OF h(3)])
    fix i assume "i \<in> trinary" "bit (K_ACYCLIC OR K_INITIAL_ACYCLIC) i"
    then have "i = 35 \<or> i = 37" by (auto simp: bit_or_iff)
    then show "truth (vf_states h) (vf_start h) i" using rising_acyclic [of h, OF rise] by (auto simp: truth_simps)
  qed
  then show ?thesis using run num view rise by (intro exI conjI) (auto simp: vf_simps)
qed

theorem condense_exact_witness:
  "\<exists>h scc k. condense (\<lambda>_. True) final_loop (vf_new :: (nat, unit) vector_fst) [7, 7, 7] = Some (h, scc) \<and>
    scc_numbering 1 (edges (vf_states final_loop)) k scc \<and> vf_num_states h = k \<and> vf_start h = Some (scc ! 0) \<and> vf_sound h"
proof -
  have n: "vf_num_states final_loop = 1" by (simp add: vf_num_states_def final_loop_fst)
  have "vf_closed final_loop"
    by (simp add: vf_closed_def final_loop_fst usize_max_def)
  moreover have "vf_inv (vf_new :: (nat, unit) vector_fst)" by (rule new_inv)
  then have "vf_sound (vf_new :: (nat, unit) vector_fst)" by (simp add: vf_inv_def)
  ultimately show ?thesis
    using condense_exact [of final_loop 0 "vf_new :: (nat, unit) vector_fst" "\<lambda>_. True" "[7, 7, 7]"] n final_loop_fst(2)
    by auto
qed

end
