(* ===== verification/BiTable.thy ===== *)
theory BiTable
  imports Prelude
begin

text \<open>
  The tables of \<open>data_structures/bi_table.rs\<close>: a number for every entry, counted from 0, and the entry of every
  number.  Ids are the \<open>usize\<close> instance.  An \<open>FxHashMap\<close> is a map.  The hash function and the raw hash table
  of the \<open>hashbrown\<close> crate are not part of the repository: they are parameters, and \<open>hash_table_ok\<close> is what
  that crate documents of its table.
\<close>

section \<open>The tables\<close>

subsection \<open>\<open>HashBiTable\<close>\<close>

record 't hash_bi_table =
  hb_entry2id :: "'t \<Rightarrow> nat option"
  hb_id2entry :: "'t list"

definition hb_new :: "'t hash_bi_table" where
  "hb_new = \<lparr>hb_entry2id = Map.empty, hb_id2entry = []\<rparr>"

definition hb_find_id :: "'t hash_bi_table \<Rightarrow> 't \<Rightarrow> bool \<Rightarrow> 't hash_bi_table \<times> nat option" where
  "hb_find_id T entry ins =
     (case hb_entry2id T entry of
        Some n \<Rightarrow> (T, Some n)
      | None \<Rightarrow>
          if ins then
            let n = length (hb_id2entry T);
                T = T\<lparr>hb_id2entry := hb_id2entry T @ [entry]\<rparr>
            in (T\<lparr>hb_entry2id := (hb_entry2id T)(entry \<mapsto> n)\<rparr>, Some n)
          else (T, None))"

definition hb_find_entry :: "'t hash_bi_table \<Rightarrow> nat \<Rightarrow> 't option" where
  "hb_find_entry T s = vget (hb_id2entry T) s"

definition hb_size :: "'t hash_bi_table \<Rightarrow> nat" where
  "hb_size T = length (hb_id2entry T)"

definition hb_clear :: "'t hash_bi_table \<Rightarrow> 't hash_bi_table" where
  "hb_clear T = \<lparr>hb_entry2id = Map.empty, hb_id2entry = []\<rparr>"

subsection \<open>\<open>CompactHashBiTable\<close>\<close>

text \<open>The operations of \<open>HashTable<usize>\<close>.  \<open>ht_find\<close> takes the hash and the equality test,
  \<open>ht_insert_unique\<close> the hash, the value and the function that hashes the values again when the table grows.\<close>

record 'h hash_table_ops =
  ht_new :: 'h
  ht_find :: "'h \<Rightarrow> 64 word \<Rightarrow> (nat \<Rightarrow> bool) \<Rightarrow> nat option"
  ht_insert_unique :: "'h \<Rightarrow> 64 word \<Rightarrow> nat \<Rightarrow> (nat \<Rightarrow> 64 word) \<Rightarrow> 'h"
  ht_clear :: "'h \<Rightarrow> 'h"

text \<open>\<open>held h\<close> are the values in the table with their hashes.  A search may test values of other hashes
  too, but it tests all of its own.\<close>

definition hash_table_ok :: "'h hash_table_ops \<Rightarrow> ('h \<Rightarrow> (64 word \<times> nat) set) \<Rightarrow> bool" where
  "hash_table_ok ops held \<longleftrightarrow>
     held (ht_new ops) = {} \<and>
     (\<forall>h. held (ht_clear ops h) = {}) \<and>
     (\<forall>h k i hasher. (\<forall>(l, j) \<in> held h. hasher j = l) \<longrightarrow>
        held (ht_insert_unique ops h k i hasher) = insert (k, i) (held h)) \<and>
     (\<forall>h k eq. case ht_find ops h k eq of
          Some i \<Rightarrow> eq i \<and> i \<in> snd ` held h
        | None \<Rightarrow> \<forall>i. (k, i) \<in> held h \<longrightarrow> \<not> eq i)"

record ('t, 'h) compact_table =
  ct_id2entry :: "'t list"
  ct_keys :: 'h

definition ct_new :: "'h hash_table_ops \<Rightarrow> ('t, 'h) compact_table" where
  "ct_new ops = \<lparr>ct_id2entry = [], ct_keys = ht_new ops\<rparr>"

definition ct_find_id :: "'h hash_table_ops \<Rightarrow> ('t \<Rightarrow> 64 word) \<Rightarrow> ('t, 'h) compact_table \<Rightarrow> 't \<Rightarrow> bool \<Rightarrow>
   ('t, 'h) compact_table \<times> nat option" where
  "ct_find_id ops hash T entry ins =
     (let k = hash entry in
      case ht_find ops (ct_keys T) k (\<lambda>i. vget (ct_id2entry T) i = Some entry) of
        Some n \<Rightarrow> (T, Some n)
      | None \<Rightarrow>
          if ins then
            let n = length (ct_id2entry T);
                T = T\<lparr>ct_id2entry := ct_id2entry T @ [entry]\<rparr>
            in (T\<lparr>ct_keys := ht_insert_unique ops (ct_keys T) k n (\<lambda>i. hash (ct_id2entry T ! i))\<rparr>, Some n)
          else (T, None))"

definition ct_find_entry :: "('t, 'h) compact_table \<Rightarrow> nat \<Rightarrow> 't option" where
  "ct_find_entry T s = vget (ct_id2entry T) s"

definition ct_size :: "('t, 'h) compact_table \<Rightarrow> nat" where
  "ct_size T = length (ct_id2entry T)"

definition ct_clear :: "'h hash_table_ops \<Rightarrow> ('t, 'h) compact_table \<Rightarrow> ('t, 'h) compact_table" where
  "ct_clear ops T = \<lparr>ct_id2entry = [], ct_keys = ht_clear ops (ct_keys T)\<rparr>"

subsection \<open>\<open>VectorBiTable\<close>\<close>

record 't vector_table =
  vt_fp2id :: "nat option list"
  vt_id2entry :: "'t list"

definition vt_new :: "'t vector_table" where
  "vt_new = \<lparr>vt_fp2id = [], vt_id2entry = []\<rparr>"

text \<open>The lookup by fingerprint, the same in both tables that use one.\<close>

definition vt_find_id :: "('t \<Rightarrow> nat) \<Rightarrow> 't vector_table \<Rightarrow> 't \<Rightarrow> bool \<Rightarrow> 't vector_table \<times> nat option" where
  "vt_find_id fp T entry ins =
     (let f = fp entry in
      if f \<ge> length (vt_fp2id T) \<and> \<not> ins then (T, None)
      else
        let T = (if f \<ge> length (vt_fp2id T) then T\<lparr>vt_fp2id := vresize (f + 1) None (vt_fp2id T)\<rparr> else T) in
        case vt_fp2id T ! f of
          Some n \<Rightarrow> (T, Some n)
        | None \<Rightarrow>
            if ins then
              let n = length (vt_id2entry T)
              in (T\<lparr>vt_id2entry := vt_id2entry T @ [entry], vt_fp2id := (vt_fp2id T)[f := Some n]\<rparr>, Some n)
            else (T, None))"

definition vt_find_entry :: "'t vector_table \<Rightarrow> nat \<Rightarrow> 't option" where
  "vt_find_entry T s = vget (vt_id2entry T) s"

definition vt_size :: "'t vector_table \<Rightarrow> nat" where
  "vt_size T = length (vt_id2entry T)"

subsection \<open>\<open>VectorHashBiTable\<close>\<close>

record ('t, 'h) vector_hash_table =
  vh_id2entry :: "'t list"
  vh_fp2id :: "nat option list"
  vh_keys :: 'h

definition vh_new :: "'h hash_table_ops \<Rightarrow> nat \<Rightarrow> ('t, 'h) vector_hash_table" where
  "vh_new ops vector_size = \<lparr>vh_id2entry = [], vh_fp2id = replicate vector_size None, vh_keys = ht_new ops\<rparr>"

definition vh_find_id :: "'h hash_table_ops \<Rightarrow> ('t \<Rightarrow> 64 word) \<Rightarrow> ('t \<Rightarrow> bool) \<Rightarrow> ('t \<Rightarrow> nat) \<Rightarrow>
   ('t, 'h) vector_hash_table \<Rightarrow> 't \<Rightarrow> bool \<Rightarrow> ('t, 'h) vector_hash_table \<times> nat option" where
  "vh_find_id ops hash selector fp T entry ins =
     (if selector entry then
        let f = fp entry in
        if f \<ge> length (vh_fp2id T) \<and> \<not> ins then (T, None)
        else
          let T = (if f \<ge> length (vh_fp2id T) then T\<lparr>vh_fp2id := vresize (f + 1) None (vh_fp2id T)\<rparr> else T) in
          case vh_fp2id T ! f of
            Some n \<Rightarrow> (T, Some n)
          | None \<Rightarrow>
              if ins then
                let n = length (vh_id2entry T)
                in (T\<lparr>vh_id2entry := vh_id2entry T @ [entry], vh_fp2id := (vh_fp2id T)[f := Some n]\<rparr>, Some n)
              else (T, None)
      else
        let k = hash entry in
        case ht_find ops (vh_keys T) k (\<lambda>i. vget (vh_id2entry T) i = Some entry) of
          Some n \<Rightarrow> (T, Some n)
        | None \<Rightarrow>
            if ins then
              let n = length (vh_id2entry T);
                  T = T\<lparr>vh_id2entry := vh_id2entry T @ [entry]\<rparr>
              in (T\<lparr>vh_keys := ht_insert_unique ops (vh_keys T) k n (\<lambda>i. hash (vh_id2entry T ! i))\<rparr>, Some n)
            else (T, None))"

definition vh_find_entry :: "('t, 'h) vector_hash_table \<Rightarrow> nat \<Rightarrow> 't option" where
  "vh_find_entry T s = vget (vh_id2entry T) s"

definition vh_size :: "('t, 'h) vector_hash_table \<Rightarrow> nat" where
  "vh_size T = length (vh_id2entry T)"

subsection \<open>\<open>ErasableBiTable\<close>\<close>

record 't erasable_table =
  et_entry2id :: "'t \<Rightarrow> nat option"
  et_id2entry :: "'t list"
  et_empty_entry :: 't
  et_first :: nat

definition et_new :: "'t \<Rightarrow> 't erasable_table" where
  "et_new empty_entry = \<lparr>et_entry2id = Map.empty, et_id2entry = [], et_empty_entry = empty_entry, et_first = 0\<rparr>"

definition et_find_id :: "'t erasable_table \<Rightarrow> 't \<Rightarrow> bool \<Rightarrow> 't erasable_table \<times> nat option" where
  "et_find_id T entry ins =
     (case et_entry2id T entry of
        Some n \<Rightarrow> (T, Some n)
      | None \<Rightarrow>
          if ins then
            let n = length (et_id2entry T) + et_first T
            in (T\<lparr>et_id2entry := et_id2entry T @ [entry], et_entry2id := (et_entry2id T)(entry \<mapsto> n)\<rparr>, Some n)
          else (T, None))"

definition et_find_entry :: "'t erasable_table \<Rightarrow> nat \<Rightarrow> 't option" where
  "et_find_entry T s = (if s \<ge> et_first T then vget (et_id2entry T) (s - et_first T) else None)"

definition et_size :: "'t erasable_table \<Rightarrow> nat" where
  "et_size T = length (et_id2entry T)"

text \<open>The loop that drops the erased entries at the front.\<close>

fun drop_erased :: "'t \<Rightarrow> 't list \<Rightarrow> nat \<Rightarrow> 't list \<times> nat" where
  "drop_erased empty_entry (front # rest) first_id =
     (if front = empty_entry then drop_erased empty_entry rest (first_id + 1) else (front # rest, first_id))"
| "drop_erased empty_entry [] first_id = ([], first_id)"

definition et_erase :: "'t erasable_table \<Rightarrow> nat \<Rightarrow> 't erasable_table" where
  "et_erase T s =
     (if s \<ge> et_first T \<and> s - et_first T < length (et_id2entry T) then
        let idx = s - et_first T;
            T = T\<lparr>et_entry2id := (et_entry2id T)(et_id2entry T ! idx := None)\<rparr>;
            entries = (et_id2entry T)[idx := et_empty_entry T];
            (entries, first_id) = drop_erased (et_empty_entry T) entries (et_first T)
        in T\<lparr>et_id2entry := entries, et_first := first_id\<rparr>
      else T)"


section \<open>The interface\<close>

text \<open>A run of lookups that may insert, with the ids they give.\<close>

primrec find_ids :: "('s \<Rightarrow> 't \<Rightarrow> bool \<Rightarrow> 's \<times> nat option) \<Rightarrow> 's \<Rightarrow> 't list \<Rightarrow> 's \<times> nat option list" where
  "find_ids find_id T [] = (T, [])"
| "find_ids find_id T (x # xs) =
     (let (T, r) = find_id T x True; (T, rs) = find_ids find_id T xs in (T, r # rs))"

text \<open>The ids number the entries: equal entries have equal ids, the id leads back to its entry, and there are
  as many ids as different entries.\<close>

definition numbers :: "(nat \<Rightarrow> 't option) \<Rightarrow> nat \<Rightarrow> 't list \<Rightarrow> nat option list \<Rightarrow> bool" where
  "numbers entry_of sz xs rs \<longleftrightarrow> length rs = length xs \<and> sz = card (set xs) \<and>
     (\<forall>j < length xs. \<exists>i < sz. rs ! j = Some i \<and> entry_of i = Some (xs ! j)) \<and>
     (\<forall>j < length xs. \<forall>k < length xs. rs ! j = rs ! k \<longleftrightarrow> xs ! j = xs ! k)"

text \<open>What a state table relies on.  \<open>ok T ts\<close>: the table \<open>T\<close> holds the entries \<open>ts\<close>, numbered in that order.
  \<open>fits T\<close> are the entries the table can tell apart.\<close>

locale bi_table =
  fixes find_id :: "'s \<Rightarrow> 't \<Rightarrow> bool \<Rightarrow> 's \<times> nat option"
    and find_entry :: "'s \<Rightarrow> nat \<Rightarrow> 't option"
    and size_of :: "'s \<Rightarrow> nat"
    and ok :: "'t set \<Rightarrow> 's \<Rightarrow> 't list \<Rightarrow> bool"
  assumes distinct_ok: "ok D T ts \<Longrightarrow> distinct ts \<and> set ts \<subseteq> D"
    and find_old: "ok D T ts \<Longrightarrow> i < length ts \<Longrightarrow> \<exists>T'. find_id T (ts ! i) b = (T', Some i) \<and> ok D T' ts"
    and find_new: "ok D T ts \<Longrightarrow> x \<in> D \<Longrightarrow> x \<notin> set ts \<Longrightarrow>
      \<exists>T'. find_id T x True = (T', Some (length ts)) \<and> ok D T' (ts @ [x])"
    and find_absent: "ok D T ts \<Longrightarrow> x \<in> D \<Longrightarrow> x \<notin> set ts \<Longrightarrow> \<exists>T'. find_id T x False = (T', None) \<and> ok D T' ts"
    and entry_at: "ok D T ts \<Longrightarrow> find_entry T i = vget ts i"
    and size_is: "ok D T ts \<Longrightarrow> size_of T = length ts"
begin

text \<open>The entries after a lookup that may insert, and the number it gives.\<close>

lemma find_true:
  assumes "ok D T ts" "x \<in> D"
  shows "\<exists>T' i. find_id T x True = (T', Some i) \<and> ok D T' (if x \<in> set ts then ts else ts @ [x]) \<and>
    i < length (if x \<in> set ts then ts else ts @ [x]) \<and> (if x \<in> set ts then ts else ts @ [x]) ! i = x"
proof (cases "x \<in> set ts")
  case True
  then obtain i where "i < length ts" "x = ts ! i" by (metis in_set_conv_nth)
  then show ?thesis using find_old [OF assms(1), of i True] True by auto
next
  case False
  then show ?thesis using find_new [OF assms] by auto
qed

lemma find_ids_run:
  "ok D T ts \<Longrightarrow> set xs \<subseteq> D \<Longrightarrow>
   \<exists>T' us is. find_ids find_id T xs = (T', map Some is) \<and> ok D T' (ts @ us) \<and> set (ts @ us) = set ts \<union> set xs \<and>
     list_all2 (\<lambda>i x. i < length (ts @ us) \<and> (ts @ us) ! i = x) is xs"
proof (induction xs arbitrary: T ts)
  case (Cons x xs)
  let ?vs = "if x \<in> set ts then [] else [x]"
  obtain T' i where T': "find_id T x True = (T', Some i)" "ok D T' (ts @ ?vs)" "i < length (ts @ ?vs)" "(ts @ ?vs) ! i = x"
    using find_true [OF Cons.prems(1), of x] Cons.prems(2) by (auto split: if_splits)
  obtain T'' us "is" where u: "find_ids find_id T' xs = (T'', map Some is)" "ok D T'' ((ts @ ?vs) @ us)"
     "set ((ts @ ?vs) @ us) = set (ts @ ?vs) \<union> set xs"
     "list_all2 (\<lambda>i x. i < length ((ts @ ?vs) @ us) \<and> ((ts @ ?vs) @ us) ! i = x) is xs"
    using Cons.IH [OF T'(2)] Cons.prems(2) by auto
  have "i < length ((ts @ ?vs) @ us)" "((ts @ ?vs) @ us) ! i = x"
    using T'(3,4) nth_append [of "ts @ ?vs" us i] by simp_all
  then have "list_all2 (\<lambda>i x. i < length (ts @ (?vs @ us)) \<and> (ts @ (?vs @ us)) ! i = x) (i # is) (x # xs)"
    using u(4) by simp
  moreover have "set (ts @ (?vs @ us)) = set ts \<union> set (x # xs)" using u(3) by (auto split: if_splits)
  moreover have "ok D T'' (ts @ (?vs @ us))" using u(2) by simp
  moreover have "find_ids find_id T (x # xs) = (T'', map Some (i # is))" using T'(1) u(1) by simp
  ultimately show ?case by blast
next
  case Nil
  then have "ok D T (ts @ [])" by simp
  then show ?case by (intro exI [of _ T] exI [of _ "[]"]) simp
qed

lemma numbering:
  assumes "ok D T []" "set xs \<subseteq> D"
  shows "\<exists>T' rs. find_ids find_id T xs = (T', rs) \<and> numbers (find_entry T') (size_of T') xs rs"
proof -
  obtain T' us "is" where u: "find_ids find_id T xs = (T', map Some is)" "ok D T' us" "set us = set xs"
      "list_all2 (\<lambda>i x. i < length us \<and> us ! i = x) is xs"
    using find_ids_run [OF assms] by auto
  have d: "distinct us" "size_of T' = length us" using distinct_ok size_is u(2) by blast+
  have at: "length is = length xs" "\<And>j. j < length xs \<Longrightarrow> is ! j < length us \<and> us ! (is ! j) = xs ! j"
    using u(4) by (auto simp: list_all2_conv_all_nth)
  have "length us = card (set xs)" using u(3) d(1) distinct_card by metis
  moreover have "is ! j = is ! k \<longleftrightarrow> xs ! j = xs ! k" if "j < length xs" "k < length xs" for j k
    using at(2) [OF that(1)] at(2) [OF that(2)] nth_eq_iff_index_eq [OF d(1)] by metis
  moreover have "find_entry T' i = vget us i" for i using entry_at [OF u(2)] .
  ultimately show ?thesis using u(1) d at
    by (intro exI [of _ T'] exI [of _ "map Some is"]) (simp add: numbers_def)
qed

end

section \<open>The tables have it\<close>

definition hb_ok :: "'t set \<Rightarrow> 't hash_bi_table \<Rightarrow> 't list \<Rightarrow> bool" where
  "hb_ok D T ts \<longleftrightarrow> hb_id2entry T = ts \<and> distinct ts \<and> set ts \<subseteq> D \<and>
     (\<forall>x i. hb_entry2id T x = Some i \<longleftrightarrow> i < length ts \<and> ts ! i = x)"

lemma distinct_id: "distinct ts \<Longrightarrow> i < length ts \<Longrightarrow> j < length ts \<and> ts ! j = ts ! i \<longleftrightarrow> j = i"
  using nth_eq_iff_index_eq by blast

lemma snoc_id: "i < length (ts @ [x]) \<and> (ts @ [x]) ! i = y \<longleftrightarrow> i < length ts \<and> ts ! i = y \<or> i = length ts \<and> x = y"
  by (auto simp: nth_append less_Suc_eq)

interpretation hashed: bi_table hb_find_id hb_find_entry hb_size hb_ok
proof unfold_locales
  fix D :: "'t set" and T ts i b assume ok: "hb_ok D T ts" "i < length ts"
  then have "hb_entry2id T (ts ! i) = Some i" by (simp add: hb_ok_def)
  then show "\<exists>T'. hb_find_id T (ts ! i) b = (T', Some i) \<and> hb_ok D T' ts" using ok(1) by (simp add: hb_find_id_def)
next
  fix D :: "'t set" and T ts x assume ok: "hb_ok D T ts" "x \<in> D" "x \<notin> set ts"
  then have none: "hb_entry2id T x = None" by (metis hb_ok_def nth_mem not_Some_eq)
  let ?T = "T\<lparr>hb_id2entry := ts @ [x], hb_entry2id := (hb_entry2id T)(x \<mapsto> length ts)\<rparr>"
  have "hb_find_id T x True = (?T, Some (length ts))" using ok(1) none by (simp add: hb_find_id_def Let_def hb_ok_def)
  moreover have "((hb_entry2id T)(x \<mapsto> length ts)) y = Some i \<longleftrightarrow> i < length (ts @ [x]) \<and> (ts @ [x]) ! i = y" for y i
    unfolding snoc_id using ok nth_mem [of i ts] by (auto simp: hb_ok_def)
  then have "hb_ok D ?T (ts @ [x])" using ok by (simp add: hb_ok_def)
  ultimately show "\<exists>T'. hb_find_id T x True = (T', Some (length ts)) \<and> hb_ok D T' (ts @ [x])" by blast
  show "\<exists>T'. hb_find_id T x False = (T', None) \<and> hb_ok D T' ts" using ok none by (simp add: hb_find_id_def)
qed (auto simp: hb_ok_def hb_find_entry_def hb_size_def)

text \<open>The slots of the fingerprints, and the values of a hash table, when the entries that satisfy \<open>P\<close> are
  in them.\<close>

definition slots_ok :: "('t \<Rightarrow> bool) \<Rightarrow> ('t \<Rightarrow> nat) \<Rightarrow> 't list \<Rightarrow> nat option list \<Rightarrow> bool" where
  "slots_ok P fp ts slots \<longleftrightarrow>
     (\<forall>f i. f < length slots \<and> slots ! f = Some i \<longleftrightarrow> i < length ts \<and> P (ts ! i) \<and> fp (ts ! i) = f)"

lemma slots_grow: "slots_ok P fp ts (vresize (f + 1) None slots) \<longleftrightarrow> slots_ok P fp ts slots" if "length slots \<le> f"
proof -
  have "j < f + 1 \<and> vresize (f + 1) None slots ! j = Some i \<longleftrightarrow> j < length slots \<and> slots ! j = Some i" for i j
    using that by (auto simp: nth_vresize split: if_splits)
  then show ?thesis by (simp only: slots_ok_def length_vresize)
qed

lemma slots_old: "slots_ok P fp ts slots \<Longrightarrow> i < length ts \<Longrightarrow> P (ts ! i) \<Longrightarrow>
    fp (ts ! i) < length slots \<and> slots ! fp (ts ! i) = Some i"
  unfolding slots_ok_def by blast

lemma slots_new:
  assumes "slots_ok P fp ts slots" "inj_on fp {x \<in> D. P x}" "set ts \<subseteq> D" "x \<in> D" "P x" "x \<notin> set ts" "fp x < length slots"
  shows "slots ! fp x = None" "slots_ok P fp (ts @ [x]) (slots[fp x := Some (length ts)])"
proof -
  have new: "fp (ts ! i) \<noteq> fp x" if "i < length ts" "P (ts ! i)" for i
    using inj_onD [OF assms(2), of "ts ! i" x] that assms(3-6) nth_mem [OF that(1)] by blast
  then show none: "slots ! fp x = None" using assms(1,7) unfolding slots_ok_def by (metis not_Some_eq)
  have iff: "f < length slots \<and> slots ! f = Some i \<longleftrightarrow> i < length ts \<and> P (ts ! i) \<and> fp (ts ! i) = f" for f i
    using assms(1) by (simp add: slots_ok_def)
  have "f < length slots \<and> slots[fp x := Some (length ts)] ! f = Some i \<longleftrightarrow>
      i < length (ts @ [x]) \<and> P ((ts @ [x]) ! i) \<and> fp ((ts @ [x]) ! i) = f" for f i
  proof (cases "f = fp x")
    case True
    have "\<not> (i < length ts \<and> P (ts ! i) \<and> fp (ts ! i) = f)" using new True by blast
    then show ?thesis using True assms(5,7) by (auto simp: nth_append less_Suc_eq)
  next
    case False
    then show ?thesis using iff [of f i] by (auto simp: nth_append less_Suc_eq)
  qed
  then show "slots_ok P fp (ts @ [x]) (slots[fp x := Some (length ts)])" by (simp add: slots_ok_def)
qed

definition keys_ok :: "('t \<Rightarrow> bool) \<Rightarrow> ('t \<Rightarrow> 64 word) \<Rightarrow> 't list \<Rightarrow> (64 word \<times> nat) set \<Rightarrow> bool" where
  "keys_ok P hash ts K \<longleftrightarrow> K = (\<lambda>i. (hash (ts ! i), i)) ` {i. i < length ts \<and> P (ts ! i)}"

lemma keys_old:
  assumes "hash_table_ok ops held" "keys_ok P hash ts (held h)" "distinct ts" "i < length ts" "P (ts ! i)"
  shows "ht_find ops h (hash (ts ! i)) (\<lambda>j. vget ts j = Some (ts ! i)) = Some i"
proof -
  let ?eq = "\<lambda>j. vget ts j = Some (ts ! i)"
  have law: "case ht_find ops h (hash (ts ! i)) ?eq of Some j \<Rightarrow> ?eq j \<and> j \<in> snd ` held h
      | None \<Rightarrow> \<forall>j. (hash (ts ! i), j) \<in> held h \<longrightarrow> \<not> ?eq j"
    using assms(1) by (simp add: hash_table_ok_def)
  have "(hash (ts ! i), i) \<in> held h" using assms(2,4,5) by (auto simp: keys_ok_def)
  then have "ht_find ops h (hash (ts ! i)) ?eq \<noteq> None" using law assms(4) by (auto split: option.splits)
  then obtain j where j: "ht_find ops h (hash (ts ! i)) ?eq = Some j" by blast
  then have "j < length ts" "ts ! j = ts ! i" using law by (simp_all add: vget_eq_Some)
  then have "j = i" using assms(3,4) nth_eq_iff_index_eq by blast
  then show ?thesis using j by simp
qed

lemma hash_table_insert:
  "hash_table_ok ops held \<Longrightarrow> \<forall>(l, j) \<in> held h. hasher j = l \<Longrightarrow>
   held (ht_insert_unique ops h k i hasher) = insert (k, i) (held h)"
  by (simp add: hash_table_ok_def)

lemma keys_new:
  assumes "hash_table_ok ops held" "keys_ok P hash ts (held h)" "x \<notin> set ts" "P x"
  shows "ht_find ops h (hash x) (\<lambda>j. vget ts j = Some x) = None"
    "keys_ok P hash (ts @ [x]) (held (ht_insert_unique ops h (hash x) (length ts) (\<lambda>i. hash ((ts @ [x]) ! i))))"
proof -
  let ?eq = "\<lambda>j. vget ts j = Some x"
  have "\<not> ?eq j" for j using assms(3) nth_mem by (fastforce simp: vget_eq_Some)
  moreover have "case ht_find ops h (hash x) ?eq of Some j \<Rightarrow> ?eq j \<and> j \<in> snd ` held h
      | None \<Rightarrow> \<forall>j. (hash x, j) \<in> held h \<longrightarrow> \<not> ?eq j"
    using assms(1) by (simp add: hash_table_ok_def)
  ultimately show "ht_find ops h (hash x) ?eq = None" by (auto split: option.splits)
  have "\<forall>(l, j) \<in> held h. hash ((ts @ [x]) ! j) = l" using assms(2) by (auto simp: keys_ok_def nth_append)
  then have "held (ht_insert_unique ops h (hash x) (length ts) (\<lambda>i. hash ((ts @ [x]) ! i))) = insert (hash x, length ts) (held h)"
    by (rule hash_table_insert [OF assms(1)])
  also have "held h = (\<lambda>i. (hash ((ts @ [x]) ! i), i)) ` {i. i < length ts \<and> P (ts ! i)}"
    using assms(2) by (auto simp: keys_ok_def nth_append)
  finally show "keys_ok P hash (ts @ [x]) (held (ht_insert_unique ops h (hash x) (length ts) (\<lambda>i. hash ((ts @ [x]) ! i))))"
    using assms(4) by (auto simp: keys_ok_def nth_append less_Suc_eq image_iff)
qed

definition ct_ok :: "'h hash_table_ops \<Rightarrow> ('h \<Rightarrow> (64 word \<times> nat) set) \<Rightarrow> ('t \<Rightarrow> 64 word) \<Rightarrow> 't set \<Rightarrow>
   ('t, 'h) compact_table \<Rightarrow> 't list \<Rightarrow> bool" where
  "ct_ok ops held hash D T ts \<longleftrightarrow> hash_table_ok ops held \<and> ct_id2entry T = ts \<and> distinct ts \<and> set ts \<subseteq> D \<and>
     keys_ok (\<lambda>_. True) hash ts (held (ct_keys T))"

interpretation compact: bi_table "ct_find_id ops hash" ct_find_entry ct_size "ct_ok ops held hash"
  for ops :: "'h hash_table_ops" and held and hash :: "'t \<Rightarrow> 64 word"
proof unfold_locales
  fix D :: "'t set" and T ts i b assume ok: "ct_ok ops held hash D T ts" "i < length ts"
  then show "\<exists>T'. ct_find_id ops hash T (ts ! i) b = (T', Some i) \<and> ct_ok ops held hash D T' ts"
    using keys_old [of ops held "\<lambda>_. True" hash ts "ct_keys T" i] by (auto simp: ct_find_id_def ct_ok_def)
next
  fix D :: "'t set" and T ts x assume ok: "ct_ok ops held hash D T ts" "x \<in> D" "x \<notin> set ts"
  note new = keys_new [of ops held "\<lambda>_. True" hash ts "ct_keys T" x]
  show "\<exists>T'. ct_find_id ops hash T x True = (T', Some (length ts)) \<and> ct_ok ops held hash D T' (ts @ [x])"
    using ok new by (auto simp: ct_find_id_def ct_ok_def Let_def)
  show "\<exists>T'. ct_find_id ops hash T x False = (T', None) \<and> ct_ok ops held hash D T' ts"
    using ok new(1) by (auto simp: ct_find_id_def ct_ok_def Let_def)
qed (auto simp: ct_ok_def ct_find_entry_def ct_size_def)

definition vt_ok :: "('t \<Rightarrow> nat) \<Rightarrow> 't set \<Rightarrow> 't vector_table \<Rightarrow> 't list \<Rightarrow> bool" where
  "vt_ok fp D T ts \<longleftrightarrow> inj_on fp D \<and> vt_id2entry T = ts \<and> distinct ts \<and> set ts \<subseteq> D \<and>
     slots_ok (\<lambda>_. True) fp ts (vt_fp2id T)"

lemma resized:
  "slots_ok P fp ts slots \<Longrightarrow>
   slots_ok P fp ts (if f \<ge> length slots then vresize (f + 1) None slots else slots) \<and>
   f < length (if f \<ge> length slots then vresize (f + 1) None slots else slots)"
  using slots_grow [of slots f P fp ts] by simp

interpretation vector: bi_table "vt_find_id fp" vt_find_entry vt_size "vt_ok fp"
  for fp :: "'t \<Rightarrow> nat"
proof unfold_locales
  fix D :: "'t set" and T ts i b assume ok: "vt_ok fp D T ts" "i < length ts"
  then show "\<exists>T'. vt_find_id fp T (ts ! i) b = (T', Some i) \<and> vt_ok fp D T' ts"
    using slots_old [of "\<lambda>_. True" fp ts "vt_fp2id T" i] by (auto simp: vt_find_id_def vt_ok_def Let_def)
next
  fix D :: "'t set" and T ts x assume ok: "vt_ok fp D T ts" "x \<in> D" "x \<notin> set ts"
  let ?slots = "if fp x \<ge> length (vt_fp2id T) then vresize (fp x + 1) None (vt_fp2id T) else vt_fp2id T"
  have inj: "inj_on fp {y \<in> D. True}" using ok(1) by (simp add: vt_ok_def)
  have big: "slots_ok (\<lambda>_. True) fp ts ?slots" "fp x < length ?slots"
    using ok(1) resized [of "\<lambda>_. True" fp ts "vt_fp2id T" "fp x"] by (simp_all add: vt_ok_def)
  have sub: "set ts \<subseteq> D" using ok(1) by (simp add: vt_ok_def)
  note new = slots_new [OF big(1) inj sub ok(2) TrueI ok(3) big(2)]
  let ?T = "T\<lparr>vt_id2entry := ts @ [x], vt_fp2id := ?slots[fp x := Some (length ts)]\<rparr>"
  have "vt_find_id fp T x True = (?T, Some (length ts))"
    using new(1) ok(1) by (auto simp: vt_find_id_def Let_def vt_ok_def split: if_splits)
  moreover have "vt_ok fp D ?T (ts @ [x])" using new(2) ok by (simp add: vt_ok_def)
  ultimately show "\<exists>T'. vt_find_id fp T x True = (T', Some (length ts)) \<and> vt_ok fp D T' (ts @ [x])" by blast
  show "\<exists>T'. vt_find_id fp T x False = (T', None) \<and> vt_ok fp D T' ts"
    using new(1) ok(1) by (auto simp: vt_find_id_def Let_def split: if_splits)
qed (auto simp: vt_ok_def vt_find_entry_def vt_size_def)

definition vh_ok :: "'h hash_table_ops \<Rightarrow> ('h \<Rightarrow> (64 word \<times> nat) set) \<Rightarrow> ('t \<Rightarrow> 64 word) \<Rightarrow> ('t \<Rightarrow> bool) \<Rightarrow> ('t \<Rightarrow> nat) \<Rightarrow>
   't set \<Rightarrow> ('t, 'h) vector_hash_table \<Rightarrow> 't list \<Rightarrow> bool" where
  "vh_ok ops held hash selector fp D T ts \<longleftrightarrow> hash_table_ok ops held \<and> inj_on fp {x \<in> D. selector x} \<and>
     vh_id2entry T = ts \<and> distinct ts \<and> set ts \<subseteq> D \<and> slots_ok selector fp ts (vh_fp2id T) \<and>
     keys_ok (\<lambda>x. \<not> selector x) hash ts (held (vh_keys T))"

lemma slots_skip: "\<not> P x \<Longrightarrow> slots_ok P fp (ts @ [x]) slots \<longleftrightarrow> slots_ok P fp ts slots"
proof -
  assume "\<not> P x"
  then have "i < length (ts @ [x]) \<and> P ((ts @ [x]) ! i) \<and> fp ((ts @ [x]) ! i) = f \<longleftrightarrow> i < length ts \<and> P (ts ! i) \<and> fp (ts ! i) = f"
    for f i by (auto simp: nth_append less_Suc_eq)
  then show ?thesis by (simp only: slots_ok_def)
qed

lemma keys_skip: "\<not> P x \<Longrightarrow> keys_ok P hash (ts @ [x]) K \<longleftrightarrow> keys_ok P hash ts K"
proof -
  assume "\<not> P x"
  then have "{i. i < length (ts @ [x]) \<and> P ((ts @ [x]) ! i)} = {i. i < length ts \<and> P (ts ! i)}"
    by (auto simp: nth_append less_Suc_eq)
  moreover have "(\<lambda>i. (hash ((ts @ [x]) ! i), i)) ` {i. i < length ts \<and> P (ts ! i)} =
      (\<lambda>i. (hash (ts ! i), i)) ` {i. i < length ts \<and> P (ts ! i)}" by (auto simp: nth_append)
  ultimately show ?thesis by (simp only: keys_ok_def)
qed

interpretation hybrid: bi_table "vh_find_id ops hash selector fp" vh_find_entry vh_size "vh_ok ops held hash selector fp"
  for ops :: "'h hash_table_ops" and held and hash :: "'t \<Rightarrow> 64 word" and selector :: "'t \<Rightarrow> bool" and fp :: "'t \<Rightarrow> nat"
proof unfold_locales
  fix D :: "'t set" and T ts i b assume ok: "vh_ok ops held hash selector fp D T ts" "i < length ts"
  then show "\<exists>T'. vh_find_id ops hash selector fp T (ts ! i) b = (T', Some i) \<and> vh_ok ops held hash selector fp D T' ts"
    using slots_old [of selector fp ts "vh_fp2id T" i] keys_old [of ops held "\<lambda>x. \<not> selector x" hash ts "vh_keys T" i]
    by (cases "selector (ts ! i)") (auto simp: vh_find_id_def vh_ok_def Let_def)
next
  fix D :: "'t set" and T ts x assume ok: "vh_ok ops held hash selector fp D T ts" "x \<in> D" "x \<notin> set ts"
  have d: "distinct (ts @ [x])" "set (ts @ [x]) \<subseteq> D" "set ts \<subseteq> D" "inj_on fp {x \<in> D. selector x}"
    using ok by (auto simp: vh_ok_def)
  let ?slots = "if fp x \<ge> length (vh_fp2id T) then vresize (fp x + 1) None (vh_fp2id T) else vh_fp2id T"
  have big: "slots_ok selector fp ts ?slots" "fp x < length ?slots"
    using ok(1) resized [of selector fp ts "vh_fp2id T" "fp x"] by (simp_all add: vh_ok_def)
  show "\<exists>T'. vh_find_id ops hash selector fp T x True = (T', Some (length ts)) \<and> vh_ok ops held hash selector fp D T' (ts @ [x])"
  proof (cases "selector x")
    case True
    note new = slots_new [OF big(1) d(4,3) ok(2) True ok(3) big(2)]
    let ?T = "T\<lparr>vh_id2entry := ts @ [x], vh_fp2id := ?slots[fp x := Some (length ts)]\<rparr>"
    have "vh_find_id ops hash selector fp T x True = (?T, Some (length ts))"
      using new(1) ok(1) True by (auto simp: vh_find_id_def Let_def vh_ok_def split: if_splits)
    moreover have "vh_ok ops held hash selector fp D ?T (ts @ [x])"
      using new(2) ok(1) d True keys_skip [of "\<lambda>x. \<not> selector x" x hash ts] by (simp add: vh_ok_def)
    ultimately show ?thesis by blast
  next
    case False
    have "hash_table_ok ops held" "keys_ok (\<lambda>x. \<not> selector x) hash ts (held (vh_keys T))" using ok(1) by (simp_all add: vh_ok_def)
    note new = keys_new [OF this ok(3) False]
    then show ?thesis using ok(1) d False slots_skip [of selector x fp ts]
      by (auto simp: vh_find_id_def vh_ok_def Let_def)
  qed
  show "\<exists>T'. vh_find_id ops hash selector fp T x False = (T', None) \<and> vh_ok ops held hash selector fp D T' ts"
  proof (cases "selector x")
    case True
    note new = slots_new [OF big(1) d(4,3) ok(2) True ok(3) big(2)]
    then show ?thesis using ok(1) True by (auto simp: vh_find_id_def Let_def split: if_splits)
  next
    case False
    have "hash_table_ok ops held" "keys_ok (\<lambda>x. \<not> selector x) hash ts (held (vh_keys T))" using ok(1) by (simp_all add: vh_ok_def)
    note new = keys_new [OF this ok(3) False]
    then show ?thesis using ok(1) False by (auto simp: vh_find_id_def vh_ok_def Let_def)
  qed
qed (auto simp: vh_ok_def vh_find_entry_def vh_size_def)

section \<open>Fresh and cleared tables\<close>

lemma fresh_tables:
  "hb_ok D hb_new []" "hb_ok D (hb_clear T) []"
  "hash_table_ok ops held \<Longrightarrow> ct_ok ops held hash D (ct_new ops) []"
  "hash_table_ok ops held \<Longrightarrow> ct_ok ops held hash D (ct_clear ops C) []"
  "inj_on fp D \<Longrightarrow> vt_ok fp D vt_new []"
  "hash_table_ok ops held \<Longrightarrow> inj_on fp {x \<in> D. selector x} \<Longrightarrow> vh_ok ops held hash selector fp D (vh_new ops n) []"
  by (simp_all add: hb_ok_def hb_new_def hb_clear_def ct_ok_def ct_new_def ct_clear_def vt_ok_def vt_new_def vh_ok_def vh_new_def
      keys_ok_def slots_ok_def hash_table_ok_def)

text \<open>C29. In every one of the tables that never erase, a run of lookups from the empty table gives equal entries
  equal ids and different entries different ids, the id leads back to the entry, and the ids are as many as the
  different entries: for the hashed tables whatever the hash function, for the tables with a fingerprint as
  long as it tells apart the entries it is asked for.\<close>

theorem tables_number_entries:
  fixes ops :: "'h hash_table_ops" and hash :: "'t \<Rightarrow> 64 word"
  assumes "hash_table_ok ops held" "inj_on fp (set xs)"
  shows "(\<exists>T rs. find_ids hb_find_id hb_new xs = (T, rs) \<and> numbers (hb_find_entry T) (hb_size T) xs rs) \<and>
    (\<exists>T rs. find_ids (ct_find_id ops hash) (ct_new ops) xs = (T, rs) \<and> numbers (ct_find_entry T) (ct_size T) xs rs) \<and>
    (\<exists>T rs. find_ids (vt_find_id fp) vt_new xs = (T, rs) \<and> numbers (vt_find_entry T) (vt_size T) xs rs) \<and>
    (\<exists>T rs. find_ids (vh_find_id ops hash selector fp) (vh_new ops n) xs = (T, rs) \<and> numbers (vh_find_entry T) (vh_size T) xs rs)"
proof (intro conjI)
  have inj: "inj_on fp {x \<in> set xs. selector x}" using assms(2) by (rule inj_on_subset) auto
  show "\<exists>T rs. find_ids hb_find_id hb_new xs = (T, rs) \<and> numbers (hb_find_entry T) (hb_size T) xs rs"
    by (rule hashed.numbering [OF fresh_tables(1) order_refl])
  show "\<exists>T rs. find_ids (ct_find_id ops hash) (ct_new ops) xs = (T, rs) \<and> numbers (ct_find_entry T) (ct_size T) xs rs"
    by (rule compact.numbering [OF fresh_tables(3) [OF assms(1)] order_refl])
  show "\<exists>T rs. find_ids (vt_find_id fp) vt_new xs = (T, rs) \<and> numbers (vt_find_entry T) (vt_size T) xs rs"
    by (rule vector.numbering [OF fresh_tables(5) [OF assms(2)] order_refl])
  show "\<exists>T rs. find_ids (vh_find_id ops hash selector fp) (vh_new ops n) xs = (T, rs) \<and> numbers (vh_find_entry T) (vh_size T) xs rs"
    by (rule hybrid.numbering [OF fresh_tables(6) [OF assms(1) inj] order_refl])
qed

text \<open>A hash table as the list of its values with their hashes.\<close>

definition list_table :: "(64 word \<times> nat) list hash_table_ops" where
  "list_table = \<lparr>ht_new = [], ht_find = (\<lambda>h k eq. map_option snd (List.find (\<lambda>(l, i). l = k \<and> eq i) h)),
     ht_insert_unique = (\<lambda>h k i hasher. (k, i) # h), ht_clear = (\<lambda>h. [])\<rparr>"

lemma list_table_ok: "hash_table_ok list_table set"
proof -
  have "case map_option snd (List.find (\<lambda>(l, i). l = k \<and> eq i) h) of
      Some i \<Rightarrow> eq i \<and> i \<in> snd ` set h | None \<Rightarrow> \<forall>i. (k, i) \<in> set h \<longrightarrow> \<not> eq i" for h :: "(64 word \<times> nat) list" and k eq
  proof (cases "List.find (\<lambda>(l, i). l = k \<and> eq i) h")
    case None
    then have "\<forall>p \<in> set h. \<not> (case p of (l, i) \<Rightarrow> l = k \<and> eq i)" by (auto simp: find_None_iff)
    then show ?thesis using None by auto
  next
    case (Some p)
    then have "p \<in> set h" "case p of (l, i) \<Rightarrow> l = k \<and> eq i" using nth_mem by (fastforce simp: find_Some_iff)+
    then show ?thesis using Some by auto
  qed
  then show ?thesis by (simp add: hash_table_ok_def list_table_def)
qed

theorem tables_number_entries_witness:
  "\<exists>T rs. find_ids (ct_find_id list_table of_nat) (ct_new list_table) [5, 7, 5 :: nat] = (T, rs) \<and>
    numbers (ct_find_entry T) (ct_size T) [5, 7, 5] rs"
  using tables_number_entries [OF list_table_ok, where fp = "\<lambda>x. x" and xs = "[5, 7, 5 :: nat]" and hash = of_nat] by simp

section \<open>The erasable table\<close>

text \<open>Ids are counted from the first entry that is left; an erased entry in the middle is the empty entry.\<close>

definition et_ok :: "'t erasable_table \<Rightarrow> bool" where
  "et_ok T \<longleftrightarrow> (\<forall>x i. et_entry2id T x = Some i \<longleftrightarrow>
       et_first T \<le> i \<and> i - et_first T < length (et_id2entry T) \<and> et_id2entry T ! (i - et_first T) = x \<and> x \<noteq> et_empty_entry T) \<and>
     (et_id2entry T \<noteq> [] \<longrightarrow> hd (et_id2entry T) \<noteq> et_empty_entry T)"

text \<open>The entries that have not been erased, with their ids.\<close>

definition et_held :: "'t erasable_table \<Rightarrow> (nat \<times> 't) set" where
  "et_held T = {(i, x). et_find_entry T i = Some x \<and> x \<noteq> et_empty_entry T}"

lemma et_held_iff:
  "(i, x) \<in> et_held T \<longleftrightarrow> et_first T \<le> i \<and> i - et_first T < length (et_id2entry T) \<and>
     et_id2entry T ! (i - et_first T) = x \<and> x \<noteq> et_empty_entry T"
  by (auto simp: et_held_def et_find_entry_def vget_def)

lemma et_okD: "et_ok T \<Longrightarrow> et_entry2id T x = Some i \<longleftrightarrow> (i, x) \<in> et_held T"
  by (simp add: et_ok_def et_held_iff)

lemma drop_erased_run:
  "drop_erased e xs n = (drop (length (takeWhile (\<lambda>x. x = e) xs)) xs, n + length (takeWhile (\<lambda>x. x = e) xs))"
  by (induction e xs n rule: drop_erased.induct) auto

lemma et_new_ok: "et_ok (et_new e)" "et_held (et_new e) = {}"
  by (auto simp: et_ok_def et_new_def et_held_iff)

lemma et_find_run:
  assumes ok: "et_ok T" and x: "x \<noteq> et_empty_entry T"
  shows "\<exists>T' i. et_find_id T x True = (T', Some i) \<and> et_ok T' \<and> et_held T' = insert (i, x) (et_held T) \<and>
      ((i, x) \<in> et_held T \<or> (\<forall>j y. (j, y) \<in> et_held T \<longrightarrow> j < i \<and> y \<noteq> x))"
proof (cases "et_entry2id T x")
  case (Some i)
  then have "(i, x) \<in> et_held T" using et_okD [OF ok] by blast
  then show ?thesis using Some ok by (intro exI conjI) (auto simp: et_find_id_def)
next
  case None
  let ?i = "length (et_id2entry T) + et_first T"
  let ?T = "T\<lparr>et_id2entry := et_id2entry T @ [x], et_entry2id := (et_entry2id T)(x \<mapsto> ?i)\<rparr>"
  have no: "(j, x) \<notin> et_held T" for j using None et_okD [OF ok, of x j] by simp
  have held: "(j, y) \<in> et_held ?T \<longleftrightarrow> (j, y) \<in> et_held T \<or> j = ?i \<and> y = x" for j y
    using x by (auto simp: et_held_iff nth_append less_Suc_eq)
  have "((et_entry2id T)(x \<mapsto> ?i)) y = Some j \<longleftrightarrow> (j, y) \<in> et_held ?T" for y j
    using no held et_okD [OF ok, of y j] by auto
  moreover have "hd (et_id2entry T @ [x]) \<noteq> et_empty_entry T" using ok x by (cases "et_id2entry T") (auto simp: et_ok_def)
  ultimately have "et_ok ?T" unfolding et_ok_def et_held_iff by simp
  moreover have "et_held ?T = insert (?i, x) (et_held T)" using held by auto
  moreover have "\<forall>j y. (j, y) \<in> et_held T \<longrightarrow> j < ?i \<and> y \<noteq> x" using no by (auto simp: et_held_iff)
  ultimately show ?thesis using None by (intro exI conjI) (auto simp: et_find_id_def Let_def)
qed

text \<open>Erasing an id takes its entry out of the table and leaves the others where they are.\<close>

lemma et_erase_run:
  assumes ok: "et_ok T"
  shows "et_ok (et_erase T s) \<and> et_held (et_erase T s) = {(i, x) \<in> et_held T. i \<noteq> s}"
proof (cases "s \<ge> et_first T \<and> s - et_first T < length (et_id2entry T)")
  case False
  then have "(s, x) \<notin> et_held T" for x by (auto simp: et_held_iff)
  then show ?thesis using False ok by (auto simp: et_erase_def)
next
  case True
  let ?e = "et_empty_entry T" and ?k = "s - et_first T"
  let ?es = "(et_id2entry T)[?k := ?e]" and ?m = "(et_entry2id T)(et_id2entry T ! ?k := None)"
  let ?d = "length (takeWhile (\<lambda>x. x = ?e) ?es)"
  let ?T = "T\<lparr>et_entry2id := ?m, et_id2entry := drop ?d ?es, et_first := et_first T + ?d\<rparr>"
  have run: "et_erase T s = ?T" using True by (simp add: et_erase_def Let_def drop_erased_run)
  have front: "?es ! j = ?e" if "j < ?d" for j
    using set_takeWhileD [OF nth_mem [OF that]] takeWhile_nth [OF that] by simp
  have held: "(i, x) \<in> et_held ?T \<longleftrightarrow> (i, x) \<in> et_held T \<and> i \<noteq> s" for i x
  proof (cases "et_first T \<le> i \<and> i - et_first T < length (et_id2entry T)")
    case False
    then show ?thesis by (auto simp: et_held_iff)
  next
    case in_range: True
    show ?thesis
    proof (cases "i - et_first T < ?d")
      case True
      then have "?es ! (i - et_first T) = ?e" by (rule front)
      then have "i = s \<or> et_id2entry T ! (i - et_first T) = ?e"
        using in_range \<open>s \<ge> et_first T \<and> _\<close> by (cases "i = s") (auto simp: nth_list_update split: if_splits)
      then show ?thesis using True by (auto simp: et_held_iff)
    next
      case False
      then have "i - (et_first T + ?d) + ?d = i - et_first T" "et_first T + ?d \<le> i"
          "i - (et_first T + ?d) < length (et_id2entry T) - ?d" using in_range by linarith+
      then show ?thesis
        using in_range \<open>s \<ge> et_first T \<and> _\<close> False
        by (auto simp: et_held_iff nth_list_update add.commute)
    qed
  qed
  have "?m x = Some i \<longleftrightarrow> (i, x) \<in> et_held ?T" for x i
  proof -
    have "(i, et_id2entry T ! ?k) \<in> et_held T \<Longrightarrow> i = s"
      using et_okD [OF ok, of "et_id2entry T ! ?k" i] et_okD [OF ok, of "et_id2entry T ! ?k" s] True
      by (simp add: et_held_iff)
    moreover have "(s, x) \<in> et_held T \<Longrightarrow> x = et_id2entry T ! ?k" by (simp add: et_held_iff)
    ultimately show ?thesis using held [of i x] et_okD [OF ok, of x i] by auto
  qed
  moreover have "drop ?d ?es \<noteq> [] \<longrightarrow> hd (drop ?d ?es) \<noteq> ?e"
    using hd_dropWhile [of "\<lambda>x. x = ?e" ?es] unfolding dropWhile_eq_drop by blast
  ultimately have "et_ok ?T" unfolding et_ok_def et_held_iff by simp
  then show ?thesis unfolding run using held by auto
qed

end
