(* ===== verification/StateTable.thy ===== *)
theory StateTable
  imports BiTable TestProperties ComposeFilter
begin

text \<open>
  The state tables of composition, \<open>data_structures/state_table.rs\<close>: a number for every tuple of a state of each
  input and a filter state.  \<open>unwrap\<close> of a lookup that may insert is a run that cannot fail as long as the table
  keeps its promise.
\<close>

record 'fs compose_tuple =
  tp_pair :: "state_id \<times> state_id"
  tp_fs :: 'fs

definition tp_new :: "state_id \<Rightarrow> state_id \<Rightarrow> 'fs \<Rightarrow> 'fs compose_tuple" where
  "tp_new s1 s2 fs = \<lparr>tp_pair = (s1, s2), tp_fs = fs\<rparr>"

definition state_id1 :: "'fs compose_tuple \<Rightarrow> state_id" where
  "state_id1 t = fst (tp_pair t)"

definition state_id2 :: "'fs compose_tuple \<Rightarrow> state_id" where
  "state_id2 t = snd (tp_pair t)"

lemma tp_sel [simp]: "state_id1 (tp_new s1 s2 fs) = s1" "state_id2 (tp_new s1 s2 fs) = s2" "tp_fs (tp_new s1 s2 fs) = fs"
  by (simp_all add: tp_new_def state_id1_def state_id2_def)

lemma tp_new_eq [simp]: "tp_new s1 s2 fs = tp_new t1 t2 gs \<longleftrightarrow> s1 = t1 \<and> s2 = t2 \<and> fs = gs"
  by (auto simp: tp_new_def)

lemma tp_eqI: "state_id1 t = state_id1 u \<Longrightarrow> state_id2 t = state_id2 u \<Longrightarrow> tp_fs t = tp_fs u \<Longrightarrow> (t :: 'fs compose_tuple) = u"
  by (cases t, cases u) (auto simp: state_id1_def state_id2_def prod_eq_iff)

text \<open>\<open>hash_value\<close> of a filter state that is an \<open>i8\<close>: the value as a \<open>usize\<close>, with its sign.\<close>

definition char_hash_value :: "char_state \<Rightarrow> nat" where
  "char_hash_value fs = unat (scast fs :: 64 word)"

text \<open>A tuple no composition produces; the second argument is the filter state's \<open>no_state\<close>.\<close>

definition tp_no_state :: "'fs \<Rightarrow> 'fs compose_tuple" where
  "tp_no_state fs = tp_new no_state no_state fs"

section \<open>Fingerprints\<close>

record compose_fingerprint =
  fp_mult1 :: "64 word"
  fp_mult2 :: "64 word"

definition saturating_mul :: "nat \<Rightarrow> nat \<Rightarrow> nat" where
  "saturating_mul a b = min (a * b) usize_max"

definition fingerprint_new :: "nat \<Rightarrow> nat \<Rightarrow> compose_fingerprint" where
  "fingerprint_new nstates1 nstates2 =
     \<lparr>fp_mult1 = of_nat nstates1, fp_mult2 = of_nat (saturating_mul nstates1 nstates2)\<rparr>"

text \<open>\<open>hash_value\<close> is the method of the filter state.\<close>

definition compose_fp :: "('fs \<Rightarrow> nat) \<Rightarrow> compose_fingerprint \<Rightarrow> 'fs compose_tuple \<Rightarrow> nat" where
  "compose_fp hash_value fp t =
     unat (of_nat (state_id1 t) + of_nat (state_id2 t) * fp_mult1 fp + of_nat (hash_value (tp_fs t)) * fp_mult2 fp)"

section \<open>The tables\<close>

text \<open>\<open>find_id(tuple, true).unwrap()\<close> and \<open>find_entry(s).unwrap()\<close>, the same in every table.\<close>

definition unwrap_id :: "'s \<times> nat option \<Rightarrow> ('s \<times> state_id) option" where
  "unwrap_id r = (case snd r of None \<Rightarrow> None | Some i \<Rightarrow> Some (fst r, i))"

type_synonym ('fs, 'h) generic_table = "('fs compose_tuple, 'h) compact_table"

definition gt_new :: "'h hash_table_ops \<Rightarrow> ('fs, 'h) generic_table" where
  "gt_new ops = ct_new ops"

definition gt_find_state :: "'h hash_table_ops \<Rightarrow> ('fs compose_tuple \<Rightarrow> 64 word) \<Rightarrow> ('fs, 'h) generic_table \<Rightarrow> 'fs compose_tuple \<Rightarrow>
   (('fs, 'h) generic_table \<times> state_id) option" where
  "gt_find_state ops hash T t = unwrap_id (ct_find_id ops hash T t True)"

definition gt_tuple :: "('fs, 'h) generic_table \<Rightarrow> state_id \<Rightarrow> 'fs compose_tuple option" where
  "gt_tuple T s = ct_find_entry T s"

definition gt_size :: "('fs, 'h) generic_table \<Rightarrow> nat" where
  "gt_size T = ct_size T"

record 'fs product_table =
  pt_table :: "'fs compose_tuple vector_table"
  pt_fp :: compose_fingerprint

definition pt_new :: "nat \<Rightarrow> nat \<Rightarrow> 'fs product_table" where
  "pt_new count1 count2 = \<lparr>pt_table = vt_new, pt_fp = fingerprint_new count1 count2\<rparr>"

definition pt_find_state :: "('fs \<Rightarrow> nat) \<Rightarrow> 'fs product_table \<Rightarrow> 'fs compose_tuple \<Rightarrow> ('fs product_table \<times> state_id) option" where
  "pt_find_state hash_value P t =
     map_option (\<lambda>(T, i). (P\<lparr>pt_table := T\<rparr>, i)) (unwrap_id (vt_find_id (compose_fp hash_value (pt_fp P)) (pt_table P) t True))"

definition pt_tuple :: "'fs product_table \<Rightarrow> state_id \<Rightarrow> 'fs compose_tuple option" where
  "pt_tuple P s = vt_find_entry (pt_table P) s"

definition pt_size :: "'fs product_table \<Rightarrow> nat" where
  "pt_size P = vt_size (pt_table P)"

text \<open>The tables for a string on one side.  Their construction asks both FSTs for properties, which may fill the
  caches of the FSTs.\<close>

record 'fs string_table =
  st_table :: "'fs compose_tuple vector_table"
  st_error :: bool

definition string_det_new ::
  "('w::{zero,one} \<Rightarrow> bool) \<Rightarrow> ('w, 'sym) vector_fst \<Rightarrow> ('w, 'sym) vector_fst \<Rightarrow>
   ('fs string_table \<times> ('w, 'sym) vector_fst \<times> ('w, 'sym) vector_fst) option" where
  "string_det_new is_member fst1 fst2 = do {
     let props2 = K_I_DETERMINISTIC OR K_NO_I_EPSILONS;
     (p1, fst1) \<leftarrow> cached_properties is_member fst1 K_STRING True;
     (if p1 \<noteq> K_STRING then Some (\<lparr>st_table = vt_new, st_error = True\<rparr>, fst1, fst2)
      else do {
        (p2, fst2) \<leftarrow> cached_properties is_member fst2 props2 True;
        Some (\<lparr>st_table = vt_new, st_error = (p2 \<noteq> props2)\<rparr>, fst1, fst2) }) }"

definition det_string_new ::
  "('w::{zero,one} \<Rightarrow> bool) \<Rightarrow> ('w, 'sym) vector_fst \<Rightarrow> ('w, 'sym) vector_fst \<Rightarrow>
   ('fs string_table \<times> ('w, 'sym) vector_fst \<times> ('w, 'sym) vector_fst) option" where
  "det_string_new is_member fst1 fst2 = do {
     let props1 = K_O_DETERMINISTIC OR K_NO_O_EPSILONS;
     (p1, fst1) \<leftarrow> cached_properties is_member fst1 props1 True;
     (if p1 \<noteq> props1 then Some (\<lparr>st_table = vt_new, st_error = True\<rparr>, fst1, fst2)
      else do {
        (p2, fst2) \<leftarrow> cached_properties is_member fst2 K_STRING True;
        Some (\<lparr>st_table = vt_new, st_error = (p2 \<noteq> K_STRING)\<rparr>, fst1, fst2) }) }"

definition string_find_state :: "('fs compose_tuple \<Rightarrow> nat) \<Rightarrow> 'fs string_table \<Rightarrow> 'fs compose_tuple \<Rightarrow>
   ('fs string_table \<times> state_id) option" where
  "string_find_state fp S t = map_option (\<lambda>(T, i). (S\<lparr>st_table := T\<rparr>, i)) (unwrap_id (vt_find_id fp (st_table S) t True))"

definition string_det_find_state :: "'fs string_table \<Rightarrow> 'fs compose_tuple \<Rightarrow> ('fs string_table \<times> state_id) option" where
  "string_det_find_state = string_find_state state_id1"

definition det_string_find_state :: "'fs string_table \<Rightarrow> 'fs compose_tuple \<Rightarrow> ('fs string_table \<times> state_id) option" where
  "det_string_find_state = string_find_state state_id2"

definition string_tuple :: "'fs string_table \<Rightarrow> state_id \<Rightarrow> 'fs compose_tuple option" where
  "string_tuple S s = vt_find_entry (st_table S) s"

definition string_size :: "'fs string_table \<Rightarrow> nat" where
  "string_size S = vt_size (st_table S)"

type_synonym 'fs erasable_compose_table = "'fs compose_tuple erasable_table"

definition ec_new :: "'fs \<Rightarrow> 'fs erasable_compose_table" where
  "ec_new no_fs = et_new (tp_no_state no_fs)"

definition ec_find_state :: "'fs erasable_compose_table \<Rightarrow> 'fs compose_tuple \<Rightarrow> ('fs erasable_compose_table \<times> state_id) option" where
  "ec_find_state T t = unwrap_id (et_find_id T t True)"

definition ec_tuple :: "'fs erasable_compose_table \<Rightarrow> state_id \<Rightarrow> 'fs compose_tuple option" where
  "ec_tuple T s = et_find_entry T s"

definition ec_erase :: "'fs erasable_compose_table \<Rightarrow> state_id \<Rightarrow> 'fs erasable_compose_table" where
  "ec_erase T s = et_erase T s"

definition ec_size :: "'fs erasable_compose_table \<Rightarrow> nat" where
  "ec_size T = et_size T"

section \<open>The fingerprint of a product tells its tuples apart\<close>

lemma mixed_radix:
  assumes "s1 < n1" "t1 < n1" "s2 < n2" "t2 < n2" "s1 + s2 * n1 + h * (n1 * n2) = t1 + t2 * n1 + k * (n1 * (n2 :: nat))"
  shows "s1 = t1 \<and> s2 = t2 \<and> h = k"
proof -
  have e: "s1 + n1 * (s2 + n2 * h) = t1 + n1 * (t2 + n2 * k)" using assms(5) by (simp add: algebra_simps)
  have "(s1 + n1 * (s2 + n2 * h)) mod n1 = s1" "(t1 + n1 * (t2 + n2 * k)) mod n1 = t1" using assms(1,2) by simp_all
  then have s: "s1 = t1" using e by simp
  then have "s2 + n2 * h = t2 + n2 * k" using e assms(1) by simp
  moreover have "(s2 + n2 * h) mod n2 = s2" "(t2 + n2 * k) mod n2 = t2" using assms(3,4) by simp_all
  ultimately have "s2 = t2" by metis
  then show ?thesis using s \<open>s2 + n2 * h = t2 + n2 * k\<close> assms(3) by simp
qed

definition in_product :: "('fs \<Rightarrow> nat) \<Rightarrow> nat \<Rightarrow> nat \<Rightarrow> nat \<Rightarrow> 'fs compose_tuple set" where
  "in_product hash_value n1 n2 h = {t. state_id1 t < n1 \<and> state_id2 t < n2 \<and> hash_value (tp_fs t) < h}"

lemma compose_fp_exact:
  assumes t: "t \<in> in_product hv n1 n2 h" and fits: "n1 * n2 * h \<le> 2 ^ 64"
  shows "compose_fp hv (fingerprint_new n1 n2) t = state_id1 t + state_id2 t * n1 + hv (tp_fs t) * (n1 * n2)"
proof -
  have b: "state_id1 t < n1" "state_id2 t < n2" "hv (tp_fs t) < h" using t by (simp_all add: in_product_def)
  let ?v = "state_id1 t + state_id2 t * n1 + hv (tp_fs t) * (n1 * n2)"
  have "state_id1 t + state_id2 t * n1 < n1 * n2"
  proof -
    have "state_id2 t * n1 + n1 \<le> n2 * n1" using b(2) by (metis Suc_leI add.commute mult_Suc mult_le_mono1)
    then show ?thesis using b(1) by (simp add: mult.commute)
  qed
  moreover have "hv (tp_fs t) * (n1 * n2) + n1 * n2 \<le> h * (n1 * n2)"
    using b(3) by (metis Suc_leI add.commute mult_Suc mult_le_mono1)
  ultimately have v: "?v < n1 * n2 * h" by (simp add: mult.commute)
  have "n1 * n2 * 1 \<le> n1 * n2 * h" using b(3) by (intro mult_le_mono2) simp
  show ?thesis
  proof (cases "n1 * n2 \<le> usize_max")
    case True
    then have "saturating_mul n1 n2 = n1 * n2" by (simp add: saturating_mul_def)
    then have "compose_fp hv (fingerprint_new n1 n2) t = unat (of_nat ?v :: 64 word)"
      by (simp add: compose_fp_def fingerprint_new_def)
    moreover have "?v < 2 ^ LENGTH(64)" using v fits by simp
    ultimately show ?thesis by (simp only: unat_of_nat mod_less)
  next
    case False
    then have "2 ^ 64 \<le> n1 * n2" by (simp add: usize_max_def)
    have "h = 1"
    proof (rule ccontr)
      assume "h \<noteq> 1"
      then have "2 \<le> h" using b(3) by simp
      then have "n1 * n2 * 2 \<le> n1 * n2 * h" by (rule mult_le_mono2)
      then have "n1 * n2 * 2 \<le> 2 ^ 64" using fits by linarith
      then show False using \<open>2 ^ 64 \<le> n1 * n2\<close> by simp
    qed
    then have "hv (tp_fs t) = 0" using b(3) by simp
    then have "compose_fp hv (fingerprint_new n1 n2) t = unat (of_nat ?v :: 64 word)"
      by (simp add: compose_fp_def fingerprint_new_def)
    moreover have "?v < 2 ^ LENGTH(64)" using v fits by simp
    ultimately show ?thesis by (simp only: unat_of_nat mod_less)
  qed
qed

lemma compose_fp_inj:
  assumes "n1 * n2 * h \<le> 2 ^ 64" "inj_on hv {fs. hv fs < h}"
  shows "inj_on (compose_fp hv (fingerprint_new n1 n2)) (in_product hv n1 n2 h)"
proof (rule inj_onI)
  fix t u assume tu: "t \<in> in_product hv n1 n2 h" "u \<in> in_product hv n1 n2 h"
    "compose_fp hv (fingerprint_new n1 n2) t = compose_fp hv (fingerprint_new n1 n2) u"
  have "state_id1 t = state_id1 u \<and> state_id2 t = state_id2 u \<and> hv (tp_fs t) = hv (tp_fs u)"
    using tu mixed_radix [of "state_id1 t" n1 "state_id1 u" "state_id2 t" n2 "state_id2 u"]
    unfolding compose_fp_exact [OF tu(1) assms(1)] compose_fp_exact [OF tu(2) assms(1)] by (simp add: in_product_def)
  moreover then have "tp_fs t = tp_fs u" using assms(2) tu(1,2) by (auto simp: in_product_def inj_on_def)
  ultimately show "t = u" using tp_eqI by blast
qed


section \<open>The interface\<close>

text \<open>What composition uses: \<open>holds T ts\<close>, the table numbers the tuples \<open>ts\<close> in that order.\<close>

locale compose_table =
  fixes find_state :: "'s \<Rightarrow> 'fs compose_tuple \<Rightarrow> ('s \<times> state_id) option"
    and tuple_of :: "'s \<Rightarrow> state_id \<Rightarrow> 'fs compose_tuple option"
    and size_of :: "'s \<Rightarrow> nat"
    and holds :: "'fs compose_tuple set \<Rightarrow> 's \<Rightarrow> 'fs compose_tuple list \<Rightarrow> bool"
  assumes distinct_holds: "holds D T ts \<Longrightarrow> distinct ts \<and> set ts \<subseteq> D"
    and find_state_run: "holds D T ts \<Longrightarrow> t \<in> D \<Longrightarrow>
      \<exists>T' i us. find_state T t = Some (T', i) \<and> holds D T' (ts @ us) \<and> i < length (ts @ us) \<and> (ts @ us) ! i = t \<and>
        set us \<subseteq> {t} \<and> (t \<in> set ts \<longrightarrow> us = [])"
    and tuple_run: "holds D T ts \<Longrightarrow> tuple_of T i = vget ts i"
    and size_run: "holds D T ts \<Longrightarrow> size_of T = length ts"

definition gt_holds :: "'h hash_table_ops \<Rightarrow> ('h \<Rightarrow> (64 word \<times> nat) set) \<Rightarrow> ('fs compose_tuple \<Rightarrow> 64 word) \<Rightarrow>
   'fs compose_tuple set \<Rightarrow> ('fs, 'h) generic_table \<Rightarrow> 'fs compose_tuple list \<Rightarrow> bool" where
  "gt_holds ops held hash = ct_ok ops held hash"

interpretation generic: compose_table "gt_find_state ops hash" gt_tuple gt_size "gt_holds ops held hash"
  for ops :: "'h hash_table_ops" and held and hash :: "'fs compose_tuple \<Rightarrow> 64 word"
proof unfold_locales
  fix D T ts t assume "gt_holds ops held hash D T ts" "(t :: 'fs compose_tuple) \<in> D"
  then obtain T' i where "ct_find_id ops hash T t True = (T', Some i)" "ct_ok ops held hash D T' (if t \<in> set ts then ts else ts @ [t])"
      "i < length (if t \<in> set ts then ts else ts @ [t])" "(if t \<in> set ts then ts else ts @ [t]) ! i = t"
    using compact.find_true [of ops held hash D T ts t] unfolding gt_holds_def by blast
  then show "\<exists>T' i us. gt_find_state ops hash T t = Some (T', i) \<and> gt_holds ops held hash D T' (ts @ us) \<and>
      i < length (ts @ us) \<and> (ts @ us) ! i = t \<and> set us \<subseteq> {t} \<and> (t \<in> set ts \<longrightarrow> us = [])"
    by (intro exI [of _ T'] exI [of _ i] exI [of _ "if t \<in> set ts then [] else [t]"])
      (auto simp: gt_find_state_def unwrap_id_def gt_holds_def split: if_splits)
qed (auto simp: gt_holds_def gt_tuple_def gt_size_def compact.entry_at compact.size_is dest: compact.distinct_ok)

definition pt_holds :: "('fs \<Rightarrow> nat) \<Rightarrow> 'fs compose_tuple set \<Rightarrow> 'fs product_table \<Rightarrow> 'fs compose_tuple list \<Rightarrow> bool" where
  "pt_holds hv D P ts \<longleftrightarrow> vt_ok (compose_fp hv (pt_fp P)) D (pt_table P) ts"

definition st_holds :: "('fs compose_tuple \<Rightarrow> nat) \<Rightarrow> 'fs compose_tuple set \<Rightarrow> 'fs string_table \<Rightarrow> 'fs compose_tuple list \<Rightarrow> bool" where
  "st_holds fp D S ts \<longleftrightarrow> vt_ok fp D (st_table S) ts"

lemma vector_find_run:
  assumes "vt_ok fp D T ts" "t \<in> D"
  shows "\<exists>T' i us. vt_find_id fp T t True = (T', Some i) \<and> vt_ok fp D T' (ts @ us) \<and>
      i < length (ts @ us) \<and> (ts @ us) ! i = t \<and> set us \<subseteq> {t} \<and> (t \<in> set ts \<longrightarrow> us = [])"
proof -
  obtain T' i where "vt_find_id fp T t True = (T', Some i)" "vt_ok fp D T' (if t \<in> set ts then ts else ts @ [t])"
      "i < length (if t \<in> set ts then ts else ts @ [t])" "(if t \<in> set ts then ts else ts @ [t]) ! i = t"
    using vector.find_true [OF assms] by blast
  then show ?thesis
    by (intro exI [of _ T'] exI [of _ i] exI [of _ "if t \<in> set ts then [] else [t]"]) (auto split: if_splits)
qed

interpretation product: compose_table "pt_find_state hv" pt_tuple pt_size "pt_holds hv"
  for hv :: "'fs \<Rightarrow> nat"
proof unfold_locales
  fix D P ts t assume "pt_holds hv D P ts" "(t :: 'fs compose_tuple) \<in> D"
  then have "vt_ok (compose_fp hv (pt_fp P)) D (pt_table P) ts" "t \<in> D" by (simp_all add: pt_holds_def)
  from vector_find_run [OF this] obtain T' i us where "vt_find_id (compose_fp hv (pt_fp P)) (pt_table P) t True = (T', Some i)"
      "vt_ok (compose_fp hv (pt_fp P)) D T' (ts @ us)" "i < length (ts @ us)" "(ts @ us) ! i = t" "set us \<subseteq> {t}" "t \<in> set ts \<longrightarrow> us = []"
    by blast
  then show "\<exists>P' i us. pt_find_state hv P t = Some (P', i) \<and> pt_holds hv D P' (ts @ us) \<and>
      i < length (ts @ us) \<and> (ts @ us) ! i = t \<and> set us \<subseteq> {t} \<and> (t \<in> set ts \<longrightarrow> us = [])"
    by (intro exI [of _ "P\<lparr>pt_table := T'\<rparr>"] exI [of _ i] exI [of _ us])
      (simp add: pt_find_state_def unwrap_id_def pt_holds_def)
qed (auto simp: pt_holds_def pt_tuple_def pt_size_def vector.entry_at vector.size_is dest: vector.distinct_ok)

interpretation stringed: compose_table "string_find_state fp" string_tuple string_size "st_holds fp"
  for fp :: "'fs compose_tuple \<Rightarrow> nat"
proof unfold_locales
  fix D S ts t assume "st_holds fp D S ts" "(t :: 'fs compose_tuple) \<in> D"
  then have "vt_ok fp D (st_table S) ts" "t \<in> D" by (simp_all add: st_holds_def)
  from vector_find_run [OF this] obtain T' i us where "vt_find_id fp (st_table S) t True = (T', Some i)"
      "vt_ok fp D T' (ts @ us)" "i < length (ts @ us)" "(ts @ us) ! i = t" "set us \<subseteq> {t}" "t \<in> set ts \<longrightarrow> us = []"
    by blast
  then show "\<exists>S' i us. string_find_state fp S t = Some (S', i) \<and> st_holds fp D S' (ts @ us) \<and>
      i < length (ts @ us) \<and> (ts @ us) ! i = t \<and> set us \<subseteq> {t} \<and> (t \<in> set ts \<longrightarrow> us = [])"
    by (intro exI [of _ "S\<lparr>st_table := T'\<rparr>"] exI [of _ i] exI [of _ us])
      (simp add: string_find_state_def unwrap_id_def st_holds_def)
qed (auto simp: st_holds_def string_tuple_def string_size_def vector.entry_at vector.size_is dest: vector.distinct_ok)

text \<open>C31. The product table numbers every tuple of a composition apart and never fails, as long as the two
  counts of states it was made with are right, the filter states hash to different numbers below \<open>h\<close>, and the
  product of the three fits a \<open>usize\<close>: the wrapping arithmetic of the fingerprint then never wraps.\<close>

theorem product_table_exact:
  assumes "n1 * n2 * h \<le> 2 ^ 64" "inj_on hv {fs. hv fs < h}" "\<And>t. t \<in> set xs \<Longrightarrow> t \<in> in_product hv n1 n2 h"
  shows "\<exists>T rs. find_ids (vt_find_id (compose_fp hv (fingerprint_new n1 n2))) vt_new xs = (T, rs) \<and>
    numbers (vt_find_entry T) (vt_size T) xs rs \<and>
    (\<forall>t \<in> set xs. compose_fp hv (fingerprint_new n1 n2) t = state_id1 t + state_id2 t * n1 + hv (tp_fs t) * (n1 * n2))"
proof -
  have "set xs \<subseteq> in_product hv n1 n2 h" using assms(3) by blast
  then have "inj_on (compose_fp hv (fingerprint_new n1 n2)) (set xs)"
    using compose_fp_inj [OF assms(1,2)] by (rule inj_on_subset [rotated])
  then have "\<exists>T rs. find_ids (vt_find_id (compose_fp hv (fingerprint_new n1 n2))) vt_new xs = (T, rs) \<and>
      numbers (vt_find_entry T) (vt_size T) xs rs"
    using vector.numbering [OF fresh_tables(5) order_refl] by blast
  then show ?thesis using compose_fp_exact [OF assms(3) assms(1)] by blast
qed

theorem product_table_exact_witness:
  "\<exists>T rs. find_ids (vt_find_id (compose_fp (\<lambda>n. n) (fingerprint_new 3 4))) vt_new [tp_new 2 3 1, tp_new 0 0 2] = (T, rs) \<and>
    numbers (vt_find_entry T) (vt_size T) [tp_new 2 3 1, tp_new 0 0 2] rs"
proof -
  have "t \<in> in_product (\<lambda>n. n) 3 4 3" if "t \<in> set [tp_new 2 3 1, tp_new 0 0 2]" for t
    using that by (auto simp: in_product_def)
  then show ?thesis
    using product_table_exact [of 3 4 3 "\<lambda>n. n" "[tp_new 2 3 1, tp_new 0 0 2]"] by (auto simp: inj_on_def)
qed

end
