(* ===== verification/Matcher.thy ===== *)
theory Matcher
  imports FilterUnique ArcMap
begin

text \<open>
  The matchers of \<open>matcher.rs\<close> that find the arcs of a state by label: in a sorted slice, or in a hash table built
  as states are visited.  A matcher is a record of the trait's operations; the two matchers are its instances.
\<close>

section \<open>The trait\<close>

datatype match_type = MatchInput | MatchOutput | MatchBoth | MatchNone | MatchUnknown

record ('w, 'm) matcher_ops =
  mo_match_type :: "'m \<Rightarrow> match_type"
  mo_set_state :: "'m \<Rightarrow> state_id \<Rightarrow> 'm option"
  mo_find :: "'m \<Rightarrow> label \<Rightarrow> ('m \<times> bool) option"
  mo_done :: "'m \<Rightarrow> bool option"
  mo_value :: "'m \<Rightarrow> 'w arc option"
  mo_next :: "'m \<Rightarrow> 'm option"
  mo_priority :: "'m \<Rightarrow> state_id \<Rightarrow> ('m \<times> int) option"

text \<open>The errors a construction returns.\<close>

datatype matcher_error = MatcherInvalidMatchType string match_type | MatcherInvalidConfiguration string string

definition extract_label :: "match_type \<Rightarrow> 'w arc \<Rightarrow> label" where
  "extract_label t = (if t = MatchInput then ilabel else olabel)"

text \<open>The arc that stands for staying in a state, as a constructor makes it.\<close>

definition new_loop_arc :: "match_type \<Rightarrow> 'w::one arc" where
  "new_loop_arc t = (if t = MatchInput then arc_new no_label epsilon 1 no_state else arc_new epsilon no_label 1 no_state)"

definition loop_at :: "'w arc \<Rightarrow> state_id \<Rightarrow> 'w arc" where
  "loop_at a s = arc_new (ilabel a) (olabel a) (weight a) s"

section \<open>\<open>SortedMatcher\<close>\<close>

text \<open>\<open>partition_point\<close> of a slice the test splits into a first part where it holds and a rest where it does
  not; the library leaves open what it returns for any other slice.\<close>

definition partition_point :: "('a \<Rightarrow> bool) \<Rightarrow> 'a list \<Rightarrow> nat" where
  "partition_point P xs = length (takeWhile P xs)"

record ('w, 'sym) sorted_matcher =
  sm_fst :: "('w, 'sym) vector_fst"
  sm_match_type :: match_type
  sm_state :: "state_id option"
  sm_arcs :: "'w arc list"
  sm_pos :: nat
  sm_end :: nat
  sm_loop_arc :: "'w arc"
  sm_current_loop :: bool
  sm_match_label :: label
  sm_exact_match :: bool
  sm_error :: bool

definition sm_new :: "('w::{zero,one}, 'sym) vector_fst \<Rightarrow> match_type \<Rightarrow> matcher_error + ('w, 'sym) sorted_matcher" where
  "sm_new f t =
     (if t \<noteq> MatchInput \<and> t \<noteq> MatchOutput then Inl (MatcherInvalidMatchType ''SortedMatcher'' t)
      else Inr \<lparr>sm_fst = f, sm_match_type = t, sm_state = None, sm_arcs = [], sm_pos = 0, sm_end = 0,
        sm_loop_arc = new_loop_arc t, sm_current_loop = False, sm_match_label = no_label, sm_exact_match = True,
        sm_error = False\<rparr>)"

definition sm_set_state :: "('w::{zero,one}, 'sym) sorted_matcher \<Rightarrow> state_id \<Rightarrow> ('w, 'sym) sorted_matcher" where
  "sm_set_state m s =
     (if sm_state m = Some s then m
      else m\<lparr>sm_state := Some s, sm_arcs := vf_arcs (sm_fst m) s, sm_loop_arc := loop_at (sm_loop_arc m) s\<rparr>)"

definition sm_search :: "('w, 'sym) sorted_matcher \<Rightarrow> ('w, 'sym) sorted_matcher" where
  "sm_search m =
     (let ext = extract_label (sm_match_type m);
          start = partition_point (\<lambda>a. ext a < sm_match_label m) (sm_arcs m)
      in if sm_exact_match m
         then let stop = start + partition_point (\<lambda>a. ext a \<le> sm_match_label m) (drop start (sm_arcs m))
              in m\<lparr>sm_pos := start, sm_end := stop\<rparr>
         else m\<lparr>sm_pos := start, sm_end := length (sm_arcs m)\<rparr>)"

definition sm_find :: "('w, 'sym) sorted_matcher \<Rightarrow> label \<Rightarrow> ('w, 'sym) sorted_matcher \<times> bool" where
  "sm_find m l =
     (let m = m\<lparr>sm_exact_match := True\<rparr> in
      if sm_error m then (m\<lparr>sm_current_loop := False, sm_match_label := no_label\<rparr>, False)
      else
        let m = sm_search (m\<lparr>sm_current_loop := (l = epsilon), sm_match_label := (if l = no_label then epsilon else l)\<rparr>)
        in (m, sm_pos m < sm_end m \<or> sm_current_loop m))"

definition sm_done :: "('w, 'sym) sorted_matcher \<Rightarrow> bool option" where
  "sm_done m =
     (if sm_current_loop m then Some False
      else if sm_pos m \<ge> sm_end m then Some True
      else if \<not> sm_exact_match m then Some False
      else do {
        a \<leftarrow> vget (sm_arcs m) (sm_pos m);
        Some (extract_label (sm_match_type m) a \<noteq> sm_match_label m) })"

definition sm_value :: "('w, 'sym) sorted_matcher \<Rightarrow> 'w arc option" where
  "sm_value m = (if sm_current_loop m then Some (sm_loop_arc m) else vget (sm_arcs m) (sm_pos m))"

definition sm_next :: "('w, 'sym) sorted_matcher \<Rightarrow> ('w, 'sym) sorted_matcher" where
  "sm_next m = (if sm_current_loop m then m\<lparr>sm_current_loop := False\<rparr> else m\<lparr>sm_pos := sm_pos m + 1\<rparr>)"

definition sm_priority :: "('w, 'sym) sorted_matcher \<Rightarrow> state_id \<Rightarrow> int" where
  "sm_priority m s = int (vf_num_arcs (sm_fst m) s)"

definition sm_lower_bound :: "('w, 'sym) sorted_matcher \<Rightarrow> label \<Rightarrow> ('w, 'sym) sorted_matcher" where
  "sm_lower_bound m l =
     (let m = m\<lparr>sm_exact_match := False, sm_current_loop := False\<rparr> in
      if sm_error m then m\<lparr>sm_match_label := no_label\<rparr>
      else sm_search (m\<lparr>sm_match_label := l\<rparr>))"

definition sorted_ops :: "('w::{zero,one}, ('w, 'sym) sorted_matcher) matcher_ops" where
  "sorted_ops = \<lparr>mo_match_type = sm_match_type, mo_set_state = (\<lambda>m s. Some (sm_set_state m s)), mo_find = (\<lambda>m l. Some (sm_find m l)),
     mo_done = sm_done, mo_value = sm_value, mo_next = (\<lambda>m. Some (sm_next m)), mo_priority = (\<lambda>m s. Some (m, sm_priority m s))\<rparr>"

section \<open>\<open>HashMatcher\<close>\<close>

text \<open>The table is shared between a matcher and its clones; each call takes it and leaves it filled for one more
  state.\<close>

type_synonym 'w label_table = "label \<Rightarrow> 'w arc list option"

record ('w, 'sym) hash_matcher =
  hm_fst :: "('w, 'sym) vector_fst"
  hm_match_type :: match_type
  hm_state :: "state_id option"
  hm_state_table :: "state_id \<Rightarrow> 'w label_table option"
  hm_loop_arc :: "'w arc"
  hm_current_loop :: bool
  hm_current_matches :: "'w arc list option"
  hm_pos :: nat

definition hm_new :: "('w::{zero,one}, 'sym) vector_fst \<Rightarrow> match_type \<Rightarrow> matcher_error + ('w, 'sym) hash_matcher" where
  "hm_new f t =
     (if t \<noteq> MatchInput \<and> t \<noteq> MatchOutput then Inl (MatcherInvalidMatchType ''HashMatcher'' t)
      else Inr \<lparr>hm_fst = f, hm_match_type = t, hm_state = None, hm_state_table = Map.empty, hm_loop_arc = new_loop_arc t,
        hm_current_loop = False, hm_current_matches = None, hm_pos = 0\<rparr>)"

text \<open>\<open>label_map.entry(label).or_default().push(arc)\<close>.\<close>

definition push_arc :: "match_type \<Rightarrow> 'w arc \<Rightarrow> 'w label_table \<Rightarrow> 'w label_table" where
  "push_arc t a T =
     (let l = extract_label t a in T(l \<mapsto> (case T l of None \<Rightarrow> [] | Some as \<Rightarrow> as) @ [a]))"

definition hm_set_state :: "('w::{zero,one}, 'sym) hash_matcher \<Rightarrow> state_id \<Rightarrow> ('w, 'sym) hash_matcher" where
  "hm_set_state m s =
     (if hm_state m = Some s then m
      else
        let m = m\<lparr>hm_state := Some s, hm_loop_arc := loop_at (hm_loop_arc m) s\<rparr> in
        case hm_state_table m s of
          Some _ \<Rightarrow> m
        | None \<Rightarrow>
            let label_table = fold (push_arc (hm_match_type m)) (vf_arcs (hm_fst m) s) Map.empty
            in m\<lparr>hm_state_table := (hm_state_table m)(s \<mapsto> label_table)\<rparr>)"

text \<open>The state must have been set.\<close>

definition hm_find :: "('w, 'sym) hash_matcher \<Rightarrow> label \<Rightarrow> (('w, 'sym) hash_matcher \<times> bool) option" where
  "hm_find m l =
     (let m = m\<lparr>hm_current_loop := (l = epsilon)\<rparr>;
          match_label = (if l = no_label then epsilon else l)
      in do {
        s \<leftarrow> hm_state m;
        (case Option.bind (hm_state_table m s) (\<lambda>T. T match_label) of
           Some as \<Rightarrow> Some (m\<lparr>hm_current_matches := Some as, hm_pos := 0\<rparr>, True)
         | None \<Rightarrow> Some (m\<lparr>hm_current_matches := None, hm_pos := 0\<rparr>, hm_current_loop m)) })"

definition hm_done :: "('w, 'sym) hash_matcher \<Rightarrow> bool option" where
  "hm_done m =
     Some (if hm_current_loop m then False
       else case hm_current_matches m of Some as \<Rightarrow> hm_pos m \<ge> length as | None \<Rightarrow> True)"

definition hm_value :: "('w, 'sym) hash_matcher \<Rightarrow> 'w arc option" where
  "hm_value m = (if hm_current_loop m then Some (hm_loop_arc m) else Option.bind (hm_current_matches m) (\<lambda>as. vget as (hm_pos m)))"

definition hm_next :: "('w, 'sym) hash_matcher \<Rightarrow> ('w, 'sym) hash_matcher" where
  "hm_next m = (if hm_current_loop m then m\<lparr>hm_current_loop := False\<rparr> else m\<lparr>hm_pos := hm_pos m + 1\<rparr>)"

definition hm_priority :: "('w, 'sym) hash_matcher \<Rightarrow> state_id \<Rightarrow> int" where
  "hm_priority m s = int (vf_num_arcs (hm_fst m) s)"

definition hash_ops :: "('w::{zero,one}, ('w, 'sym) hash_matcher) matcher_ops" where
  "hash_ops = \<lparr>mo_match_type = hm_match_type, mo_set_state = (\<lambda>m s. Some (hm_set_state m s)), mo_find = hm_find,
     mo_done = hm_done, mo_value = hm_value, mo_next = (\<lambda>m. Some (hm_next m)), mo_priority = (\<lambda>m s. Some (m, hm_priority m s))\<rparr>"

section \<open>The interface\<close>

text \<open>The arcs a matcher answers a label with: the loop arc for epsilon, then the arcs of the label, with
  \<open>no_label\<close> asking for the epsilon arcs without the loop.\<close>

definition matches :: "match_type \<Rightarrow> ('w::{zero,one}, 'sym) vector_fst \<Rightarrow> state_id \<Rightarrow> label \<Rightarrow> 'w arc list" where
  "matches t f s l = (if l = epsilon then [loop_at (new_loop_arc t) s] else []) @
     filter (\<lambda>a. extract_label t a = (if l = no_label then epsilon else l)) (vf_arcs f s)"

text \<open>The loop of a caller that takes every match.\<close>

partial_function (option) take_matches :: "('w, 'm) matcher_ops \<Rightarrow> 'm \<Rightarrow> 'w arc list \<Rightarrow> ('m \<times> 'w arc list) option" where
  "take_matches M m out = do {
     stop \<leftarrow> mo_done M m;
     (if stop then Some (m, out)
      else do {
        a \<leftarrow> mo_value M m;
        m \<leftarrow> mo_next M m;
        take_matches M m (out @ [a]) }) }"

text \<open>What a client relies on: a matcher over some FST, set to a state and asked for a label it may be asked for,
  gives a known list of arcs one by one.\<close>

locale answering =
  fixes M :: "('w, 'm) matcher_ops"
    and t :: match_type
    and ans :: "state_id \<Rightarrow> label \<Rightarrow> 'w arc list"
    and may :: "state_id \<Rightarrow> label \<Rightarrow> bool"
    and prio :: "state_id \<Rightarrow> int"
    and ok :: "'m \<Rightarrow> bool"
    and at :: "state_id \<Rightarrow> 'm \<Rightarrow> bool"
    and left :: "state_id \<Rightarrow> 'w arc list \<Rightarrow> 'm \<Rightarrow> bool"
  assumes type_is: "ok m \<Longrightarrow> mo_match_type M m = t"
    and at_ok: "at s m \<Longrightarrow> ok m"
    and left_at: "left s as m \<Longrightarrow> at s m"
    and set_state_law: "ok m \<Longrightarrow> \<exists>m'. mo_set_state M m s = Some m' \<and> at s m'"
    and find_law: "at s m \<Longrightarrow> may s l \<Longrightarrow> \<exists>m'. mo_find M m l = Some (m', ans s l \<noteq> []) \<and> left s (ans s l) m'"
    and done_law: "left s as m \<Longrightarrow> mo_done M m = Some (as = [])"
    and value_law: "left s (a # as) m \<Longrightarrow> mo_value M m = Some a \<and> (\<exists>m'. mo_next M m = Some m' \<and> left s as m')"
    and priority_law: "ok m \<Longrightarrow> \<exists>m'. mo_priority M m s = Some (m', prio s) \<and> ok m' \<and> (at s m \<longrightarrow> at s m')"
begin

lemma take_matches_run: "left s as m \<Longrightarrow> \<exists>m'. take_matches M m out = Some (m', out @ as) \<and> at s m'"
proof (induction as arbitrary: m out)
  case Nil
  then show ?case using done_law left_at by (subst take_matches.simps) auto
next
  case (Cons a as)
  obtain m1 where m1: "mo_next M m = Some m1" "left s as m1" using value_law [OF Cons.prems] by blast
  then have "take_matches M m out = take_matches M m1 (out @ [a])"
    using done_law [OF Cons.prems] value_law [OF Cons.prems] by (subst take_matches.simps) simp
  then show ?case using Cons.IH [OF m1(2), of "out @ [a]"] by simp
qed

text \<open>Asking for a label and taking every match, as a composition does.\<close>

lemma find_and_take:
  assumes "at s m" "may s l"
  shows "\<exists>m1 m2. mo_find M m l = Some (m1, ans s l \<noteq> []) \<and> at s m1 \<and>
    take_matches M m1 [] = Some (m2, ans s l) \<and> at s m2"
proof -
  obtain m1 where m1: "mo_find M m l = Some (m1, ans s l \<noteq> [])" "left s (ans s l) m1"
    using find_law [OF assms] by blast
  then show ?thesis using take_matches_run [OF m1(2), of "[]"] left_at [OF m1(2)] by auto
qed

end

text \<open>A matcher over a \<open>VectorFst\<close> that answers with the arcs written down there.\<close>

locale matcher = answering M t "matches t f" "\<lambda>_ _. True" "\<lambda>s. int (vf_num_arcs f s)" ok at left
  for M :: "('w::{zero,one}, 'm) matcher_ops" and t :: match_type and f :: "('w, 'sym) vector_fst"
    and ok :: "'m \<Rightarrow> bool" and at :: "state_id \<Rightarrow> 'm \<Rightarrow> bool" and left :: "state_id \<Rightarrow> 'w arc list \<Rightarrow> 'm \<Rightarrow> bool"

section \<open>The matchers have it\<close>

lemma partition_point_append:
  "(\<And>x. x \<in> set xs \<Longrightarrow> P x) \<Longrightarrow> (\<And>x. x \<in> set ys \<Longrightarrow> \<not> P x) \<Longrightarrow> partition_point P (xs @ ys) = length xs"
  by (cases ys) (auto simp: partition_point_def takeWhile_append2 takeWhile_eq_all_conv [THEN iffD2])

lemma sorted_split:
  fixes g :: "'a \<Rightarrow> int"
  assumes "sorted (map g xs)"
  shows "xs = filter (\<lambda>x. g x < l) xs @ filter (\<lambda>x. g x = l) xs @ filter (\<lambda>x. l < g x) xs"
  using assms
proof (induction xs)
  case (Cons x xs)
  have IH: "xs = filter (\<lambda>x. g x < l) xs @ filter (\<lambda>x. g x = l) xs @ filter (\<lambda>x. l < g x) xs" using Cons by simp
  have up: "g x \<le> g y" if "y \<in> set xs" for y using Cons.prems that by simp
  consider "g x < l" | "g x = l" | "l < g x" by linarith
  then show ?case
  proof cases
    case 2
    then have "filter (\<lambda>x. g x < l) xs = []" using up by (fastforce simp: filter_empty_conv)
    then show ?thesis using IH 2 by simp
  next
    case 3
    then have "filter (\<lambda>x. g x < l) xs = []" "filter (\<lambda>x. g x = l) xs = []" using up by (fastforce simp: filter_empty_conv)+
    then show ?thesis using IH 3 by simp
  qed (use IH in simp)
qed simp

definition sorted_by :: "match_type \<Rightarrow> ('w::{zero,one}, 'sym) vector_fst \<Rightarrow> bool" where
  "sorted_by t f \<longleftrightarrow> (\<forall>s. sorted (map (extract_label t) (vf_arcs f s)))"

definition sm_ok :: "match_type \<Rightarrow> ('w::{zero,one}, 'sym) vector_fst \<Rightarrow> ('w, 'sym) sorted_matcher \<Rightarrow> bool" where
  "sm_ok t f m \<longleftrightarrow> sorted_by t f \<and> sm_fst m = f \<and> sm_match_type m = t \<and> \<not> sm_error m \<and>
     (\<exists>s. sm_loop_arc m = loop_at (new_loop_arc t) s) \<and>
     (case sm_state m of None \<Rightarrow> True | Some s \<Rightarrow> sm_arcs m = vf_arcs f s \<and> sm_loop_arc m = loop_at (new_loop_arc t) s)"

definition sm_at :: "match_type \<Rightarrow> ('w::{zero,one}, 'sym) vector_fst \<Rightarrow> state_id \<Rightarrow> ('w, 'sym) sorted_matcher \<Rightarrow> bool" where
  "sm_at t f s m \<longleftrightarrow> sm_ok t f m \<and> sm_state m = Some s"

definition sm_left :: "match_type \<Rightarrow> ('w::{zero,one}, 'sym) vector_fst \<Rightarrow> state_id \<Rightarrow> 'w arc list \<Rightarrow> ('w, 'sym) sorted_matcher \<Rightarrow> bool" where
  "sm_left t f s as m \<longleftrightarrow> sm_at t f s m \<and> sm_exact_match m \<and> sm_pos m \<le> sm_end m \<and> sm_end m \<le> length (sm_arcs m) \<and>
     (\<forall>i. sm_pos m \<le> i \<and> i < sm_end m \<longrightarrow> extract_label t (sm_arcs m ! i) = sm_match_label m) \<and>
     as = (if sm_current_loop m then [sm_loop_arc m] else []) @ take (sm_end m - sm_pos m) (drop (sm_pos m) (sm_arcs m))"

lemma sm_search_run:
  assumes "sm_at t f s m" "sm_exact_match m" "as = filter (\<lambda>a. extract_label t a = sm_match_label m) (vf_arcs f s)"
  shows "sm_left t f s ((if sm_current_loop m then [sm_loop_arc m] else []) @ as) (sm_search m) \<and>
    (sm_pos (sm_search m) < sm_end (sm_search m) \<longleftrightarrow> as \<noteq> []) \<and> sm_current_loop (sm_search m) = sm_current_loop m"
proof -
  let ?g = "extract_label t" and ?l = "sm_match_label m"
  let ?lo = "filter (\<lambda>a. ?g a < ?l) (vf_arcs f s)" and ?hi = "filter (\<lambda>a. ?l < ?g a) (vf_arcs f s)"
  have arcs: "sm_arcs m = vf_arcs f s" "sm_match_type m = t" using assms(1) by (auto simp: sm_at_def sm_ok_def)
  have "sorted (map ?g (vf_arcs f s))" using assms(1) by (auto simp: sm_at_def sm_ok_def sorted_by_def)
  from sorted_split [OF this, of ?l] have split: "vf_arcs f s = ?lo @ as @ ?hi" using assms(3) by simp
  have start: "partition_point (\<lambda>a. ?g a < ?l) (vf_arcs f s) = length ?lo"
    by (subst split) (rule partition_point_append; auto simp: assms(3))
  have "drop (length ?lo) (vf_arcs f s) = as @ ?hi" by (metis split append_eq_conv_conj)
  moreover have "partition_point (\<lambda>a. ?g a \<le> ?l) (as @ ?hi) = length as"
    by (rule partition_point_append) (auto simp: assms(3))
  ultimately have run: "sm_search m = m\<lparr>sm_pos := length ?lo, sm_end := length ?lo + length as\<rparr>"
    using start arcs assms(2) by (simp add: sm_search_def Let_def)
  have len: "length ?lo + length as \<le> length (vf_arcs f s)" using split by (metis length_append le_add1 add.assoc)
  have mid: "take (length as) (drop (length ?lo) (vf_arcs f s)) = as" using \<open>drop _ _ = as @ ?hi\<close> by simp
  have "?g (vf_arcs f s ! i) = ?l" if "length ?lo \<le> i" "i < length ?lo + length as" for i
  proof -
    have "vf_arcs f s ! i = drop (length ?lo) (vf_arcs f s) ! (i - length ?lo)" using that len by simp
    also have "\<dots> = as ! (i - length ?lo)" unfolding \<open>drop _ _ = as @ ?hi\<close> using that by (simp add: nth_append)
    finally show ?thesis using assms(3) nth_mem [of "i - length ?lo" as] that by simp
  qed
  then show ?thesis
    using assms(1,2) arcs len mid unfolding run sm_left_def by (auto simp: sm_at_def sm_ok_def)
qed

interpretation sorted: matcher sorted_ops t f "sm_ok t f" "sm_at t f" "sm_left t f"
  for t :: match_type and f :: "('w::{zero,one}, 'sym) vector_fst"
proof unfold_locales
  fix m :: "('w, 'sym) sorted_matcher" and s l
  show "sm_ok t f m \<Longrightarrow> mo_match_type sorted_ops m = t" by (simp add: sorted_ops_def sm_ok_def)
  show "sm_at t f s m \<Longrightarrow> sm_ok t f m" by (simp add: sm_at_def)
  show "sm_ok t f m \<Longrightarrow> \<exists>m'. mo_set_state sorted_ops m s = Some m' \<and> sm_at t f s m'"
    by (auto simp: sorted_ops_def sm_set_state_def sm_at_def sm_ok_def loop_at_def)
  show "sm_ok t f m \<Longrightarrow> \<exists>m'. mo_priority sorted_ops m s = Some (m', int (vf_num_arcs f s)) \<and> sm_ok t f m' \<and> (sm_at t f s m \<longrightarrow> sm_at t f s m')"
    by (simp add: sorted_ops_def sm_priority_def sm_ok_def)
  assume at: "sm_at t f s m"
  let ?m = "m\<lparr>sm_exact_match := True, sm_current_loop := (l = epsilon), sm_match_label := (if l = no_label then epsilon else l)\<rparr>"
  have at': "sm_at t f s ?m" "\<not> sm_error m" "sm_loop_arc m = loop_at (new_loop_arc t) s"
    using at by (auto simp: sm_at_def sm_ok_def)
  have m: "matches t f s l = (if sm_current_loop ?m then [sm_loop_arc ?m] else []) @
      filter (\<lambda>a. extract_label t a = sm_match_label ?m) (vf_arcs f s)"
    using at'(3) by (simp add: matches_def)
  have run: "sm_find m l = (sm_search ?m, sm_pos (sm_search ?m) < sm_end (sm_search ?m) \<or> sm_current_loop (sm_search ?m))"
    using at'(2) by (simp add: sm_find_def Let_def)
  note S = sm_search_run [OF at'(1) _ refl]
  have "sm_left t f s (matches t f s l) (sm_search ?m)" unfolding m using S by simp
  moreover have "sm_find m l = (sm_search ?m, matches t f s l \<noteq> [])" unfolding run m using S by simp
  ultimately show "\<exists>m'. mo_find sorted_ops m l = Some (m', matches t f s l \<noteq> []) \<and> sm_left t f s (matches t f s l) m'"
    by (simp add: sorted_ops_def)
next
  fix m :: "('w, 'sym) sorted_matcher" and s as
  assume left: "sm_left t f s as m"
  then show "sm_at t f s m" by (simp add: sm_left_def)
  have "sm_match_type m = t" using left by (simp add: sm_left_def sm_at_def sm_ok_def)
  then show "mo_done sorted_ops m = Some (as = [])"
    using left by (auto simp: sorted_ops_def sm_done_def sm_left_def)
next
  fix m :: "('w, 'sym) sorted_matcher" and s a as
  assume left: "sm_left t f s (a # as) m"
  show "mo_value sorted_ops m = Some a \<and> (\<exists>m'. mo_next sorted_ops m = Some m' \<and> sm_left t f s as m')"
  proof (cases "sm_current_loop m")
    case True
    then show ?thesis using left by (auto simp: sorted_ops_def sm_value_def sm_next_def sm_left_def sm_at_def sm_ok_def)
  next
    case False
    let ?as = "sm_arcs m" and ?p = "sm_pos m"
    have e: "take (sm_end m - ?p) (drop ?p ?as) = a # as" and pe: "?p \<le> sm_end m" "sm_end m \<le> length ?as"
      using left False by (simp_all add: sm_left_def)
    then have lt: "?p < sm_end m" by (metis diff_is_0_eq list.distinct(1) not_less take_0)
    then have "drop ?p ?as = ?as ! ?p # drop (Suc ?p) ?as" using pe by (intro Cons_nth_drop_Suc [symmetric]) simp
    then have "a = ?as ! ?p" "as = take (sm_end m - Suc ?p) (drop (Suc ?p) ?as)"
      using e lt by (auto simp: take_Cons' split: if_splits)
    then show ?thesis
      using left False lt pe by (auto simp: sorted_ops_def sm_value_def sm_next_def sm_left_def sm_at_def sm_ok_def)
  qed
qed

text \<open>The table of a state holds, under each label, the arcs with that label in their order.\<close>

definition label_arcs :: "match_type \<Rightarrow> 'w arc list \<Rightarrow> label \<Rightarrow> 'w arc list" where
  "label_arcs t as l = filter (\<lambda>a. extract_label t a = l) as"

lemma push_arcs_run:
  "fold (push_arc t) as T l =
    (if label_arcs t as l = [] then T l else Some ((case T l of None \<Rightarrow> [] | Some bs \<Rightarrow> bs) @ label_arcs t as l))"
  by (induction as arbitrary: T) (auto simp: label_arcs_def push_arc_def Let_def split: option.split)

definition tables_ok :: "match_type \<Rightarrow> ('w::{zero,one}, 'sym) vector_fst \<Rightarrow> (state_id \<Rightarrow> 'w label_table option) \<Rightarrow> bool" where
  "tables_ok t f S \<longleftrightarrow> (\<forall>s T. S s = Some T \<longrightarrow>
     T = (\<lambda>l. if label_arcs t (vf_arcs f s) l = [] then None else Some (label_arcs t (vf_arcs f s) l)))"

definition hm_ok :: "match_type \<Rightarrow> ('w::{zero,one}, 'sym) vector_fst \<Rightarrow> ('w, 'sym) hash_matcher \<Rightarrow> bool" where
  "hm_ok t f m \<longleftrightarrow> hm_fst m = f \<and> hm_match_type m = t \<and> (\<exists>s. hm_loop_arc m = loop_at (new_loop_arc t) s) \<and>
     tables_ok t f (hm_state_table m) \<and>
     (case hm_state m of None \<Rightarrow> True | Some s \<Rightarrow> hm_state_table m s \<noteq> None \<and> hm_loop_arc m = loop_at (new_loop_arc t) s)"

definition hm_at :: "match_type \<Rightarrow> ('w::{zero,one}, 'sym) vector_fst \<Rightarrow> state_id \<Rightarrow> ('w, 'sym) hash_matcher \<Rightarrow> bool" where
  "hm_at t f s m \<longleftrightarrow> hm_ok t f m \<and> hm_state m = Some s"

definition hm_left :: "match_type \<Rightarrow> ('w::{zero,one}, 'sym) vector_fst \<Rightarrow> state_id \<Rightarrow> 'w arc list \<Rightarrow> ('w, 'sym) hash_matcher \<Rightarrow> bool" where
  "hm_left t f s as m \<longleftrightarrow> hm_at t f s m \<and>
     as = (if hm_current_loop m then [hm_loop_arc m] else []) @
       (case hm_current_matches m of None \<Rightarrow> [] | Some bs \<Rightarrow> drop (hm_pos m) bs)"

lemma hm_set_state_at: "hm_ok t f m \<Longrightarrow> hm_at t f s (hm_set_state m s)"
proof -
  assume ok: "hm_ok t f m"
  show ?thesis
  proof (cases "hm_state m = Some s \<or> hm_state_table m s \<noteq> None")
    case True
    then show ?thesis using ok by (auto simp: hm_set_state_def hm_at_def hm_ok_def loop_at_def Let_def)
  next
    case False
    have "fold (push_arc t) (vf_arcs f s) Map.empty =
        (\<lambda>l. if label_arcs t (vf_arcs f s) l = [] then None else Some (label_arcs t (vf_arcs f s) l))"
      by (rule ext) (simp add: push_arcs_run)
    then have "tables_ok t f ((hm_state_table m)(s \<mapsto> fold (push_arc t) (vf_arcs f s) Map.empty))"
      using ok by (simp add: hm_ok_def tables_ok_def)
    then show ?thesis using ok False by (auto simp: hm_set_state_def hm_at_def hm_ok_def loop_at_def Let_def)
  qed
qed

lemma hm_find_run:
  assumes at: "hm_at t f s m"
  shows "\<exists>m'. hm_find m l = Some (m', matches t f s l \<noteq> []) \<and> hm_left t f s (matches t f s l) m'"
proof -
  let ?l = "if l = no_label then epsilon else l"
  obtain T where T: "hm_state m = Some s" "hm_state_table m s = Some T" "tables_ok t f (hm_state_table m)"
    using at by (auto simp: hm_at_def hm_ok_def)
  have T_is: "T = (\<lambda>k. if label_arcs t (vf_arcs f s) k = [] then None else Some (label_arcs t (vf_arcs f s) k))"
    using T(2,3) unfolding tables_ok_def by blast
  have T_at: "T k = (if label_arcs t (vf_arcs f s) k = [] then None else Some (label_arcs t (vf_arcs f s) k))" for k
    by (subst T_is) (rule refl)
  have m: "matches t f s l = (if l = epsilon then [hm_loop_arc m] else []) @ label_arcs t (vf_arcs f s) ?l"
    using at by (auto simp: matches_def label_arcs_def hm_at_def hm_ok_def)
  show ?thesis
  proof (cases "label_arcs t (vf_arcs f s) ?l = []")
    case True
    then have "hm_find m l = Some (m\<lparr>hm_current_loop := (l = epsilon), hm_current_matches := None, hm_pos := 0\<rparr>, l = epsilon)"
      using T T_at [of ?l] by (simp add: hm_find_def Let_def)
    then show ?thesis using at True unfolding m by (auto simp: hm_left_def hm_at_def hm_ok_def)
  next
    case False
    then have "hm_find m l = Some (m\<lparr>hm_current_loop := (l = epsilon), hm_current_matches := Some (label_arcs t (vf_arcs f s) ?l),
        hm_pos := 0\<rparr>, True)"
      using T T_at [of ?l] by (simp add: hm_find_def Let_def)
    then show ?thesis using at False unfolding m by (auto simp: hm_left_def hm_at_def hm_ok_def)
  qed
qed

interpretation hashed: matcher hash_ops t f "hm_ok t f" "hm_at t f" "hm_left t f"
  for t :: match_type and f :: "('w::{zero,one}, 'sym) vector_fst"
proof unfold_locales
  fix m :: "('w, 'sym) hash_matcher" and s l
  show "hm_ok t f m \<Longrightarrow> mo_match_type hash_ops m = t" by (simp add: hash_ops_def hm_ok_def)
  show "hm_at t f s m \<Longrightarrow> hm_ok t f m" by (simp add: hm_at_def)
  show "hm_ok t f m \<Longrightarrow> \<exists>m'. mo_set_state hash_ops m s = Some m' \<and> hm_at t f s m'" by (simp add: hash_ops_def hm_set_state_at)
  show "hm_ok t f m \<Longrightarrow> \<exists>m'. mo_priority hash_ops m s = Some (m', int (vf_num_arcs f s)) \<and> hm_ok t f m' \<and> (hm_at t f s m \<longrightarrow> hm_at t f s m')"
    by (simp add: hash_ops_def hm_priority_def hm_ok_def)
  show "hm_at t f s m \<Longrightarrow> \<exists>m'. mo_find hash_ops m l = Some (m', matches t f s l \<noteq> []) \<and> hm_left t f s (matches t f s l) m'"
    by (simp add: hash_ops_def hm_find_run)
next
  fix m :: "('w, 'sym) hash_matcher" and s as
  assume left: "hm_left t f s as m"
  then show "hm_at t f s m" by (simp add: hm_left_def)
  show "mo_done hash_ops m = Some (as = [])"
    using left by (auto simp: hash_ops_def hm_done_def hm_left_def split: option.splits)
next
  fix m :: "('w, 'sym) hash_matcher" and s a as
  assume left: "hm_left t f s (a # as) m"
  show "mo_value hash_ops m = Some a \<and> (\<exists>m'. mo_next hash_ops m = Some m' \<and> hm_left t f s as m')"
  proof (cases "hm_current_loop m")
    case True
    then show ?thesis using left by (auto simp: hash_ops_def hm_value_def hm_next_def hm_left_def hm_at_def hm_ok_def split: option.split)
  next
    case False
    then obtain bs where bs: "hm_current_matches m = Some bs" "drop (hm_pos m) bs = a # as"
      using left by (auto simp: hm_left_def split: option.splits)
    then have "hm_pos m < length bs" by (metis drop_eq_Nil list.distinct(1) not_le)
    then have "bs ! hm_pos m = a" "drop (Suc (hm_pos m)) bs = as"
      using bs(2) Cons_nth_drop_Suc [of "hm_pos m" bs] by auto
    then show ?thesis
      using left False bs \<open>hm_pos m < length bs\<close>
      by (auto simp: hash_ops_def hm_value_def hm_next_def hm_left_def hm_at_def hm_ok_def split: option.split)
  qed
qed

section \<open>Fresh matchers\<close>

lemma new_matchers_ok:
  "t = MatchInput \<or> t = MatchOutput \<Longrightarrow> sorted_by t f \<Longrightarrow> \<exists>m. sm_new f t = Inr m \<and> sm_ok t f m"
  "t = MatchInput \<or> t = MatchOutput \<Longrightarrow> \<exists>m. hm_new f t = Inr m \<and> hm_ok t f m"
proof -
  have "\<exists>s. new_loop_arc t = loop_at (new_loop_arc t) s"
    by (rule exI [of _ no_state]) (simp add: new_loop_arc_def loop_at_def)
  then show "t = MatchInput \<or> t = MatchOutput \<Longrightarrow> sorted_by t f \<Longrightarrow> \<exists>m. sm_new f t = Inr m \<and> sm_ok t f m"
    "t = MatchInput \<or> t = MatchOutput \<Longrightarrow> \<exists>m. hm_new f t = Inr m \<and> hm_ok t f m"
    by (auto simp: sm_new_def sm_ok_def hm_new_def hm_ok_def tables_ok_def)
qed

text \<open>Where a search from below a label stops: at the first arc whose label is not smaller.\<close>

lemma lower_bound_run:
  assumes "sm_at t f s m"
  shows "sm_pos (sm_lower_bound m l) = length (filter (\<lambda>a. extract_label t a < l) (vf_arcs f s)) \<and>
    drop (sm_pos (sm_lower_bound m l)) (vf_arcs f s) = filter (\<lambda>a. l \<le> extract_label t a) (vf_arcs f s) \<and>
    (sm_done (sm_lower_bound m l) = Some True \<longleftrightarrow> (\<forall>a \<in> set (vf_arcs f s). extract_label t a < l))"
proof -
  let ?g = "extract_label t"
  let ?lo = "filter (\<lambda>a. ?g a < l) (vf_arcs f s)" and ?hi = "filter (\<lambda>a. l \<le> ?g a) (vf_arcs f s)"
  have m: "sm_arcs m = vf_arcs f s" "sm_match_type m = t" "\<not> sm_error m" "sorted (map ?g (vf_arcs f s))"
    using assms by (auto simp: sm_at_def sm_ok_def sorted_by_def)
  have "filter (\<lambda>a. l \<le> ?g a) (vf_arcs f s) = filter (\<lambda>a. ?g a = l) (vf_arcs f s) @ filter (\<lambda>a. l < ?g a) (vf_arcs f s)"
  proof -
    have "filter (\<lambda>a. l \<le> ?g a) (vf_arcs f s) =
        filter (\<lambda>a. l \<le> ?g a) (?lo @ filter (\<lambda>a. ?g a = l) (vf_arcs f s) @ filter (\<lambda>a. l < ?g a) (vf_arcs f s))"
      using sorted_split [OF m(4), of l] by simp
    also have "\<dots> = filter (\<lambda>a. ?g a = l) (vf_arcs f s) @ filter (\<lambda>a. l < ?g a) (vf_arcs f s)"
    proof -
      have "(?g a = l \<and> l \<le> ?g a) = (?g a = l)" "(l < ?g a \<and> l \<le> ?g a) = (l < ?g a)" "\<not> (?g a < l \<and> l \<le> ?g a)" for a :: "'a arc"
        by auto
      then show ?thesis by simp
    qed
    finally show ?thesis .
  qed
  then have split: "vf_arcs f s = ?lo @ ?hi" using sorted_split [OF m(4), of l] by simp
  have "partition_point (\<lambda>a. ?g a < l) (vf_arcs f s) = length ?lo"
    by (subst split) (rule partition_point_append; auto)
  then have run: "sm_lower_bound m l = m\<lparr>sm_exact_match := False, sm_current_loop := False, sm_match_label := l,
      sm_pos := length ?lo, sm_end := length (vf_arcs f s)\<rparr>"
    using m by (simp add: sm_lower_bound_def sm_search_def Let_def)
  have "drop (length ?lo) (vf_arcs f s) = ?hi" by (metis split append_eq_conv_conj)
  moreover have "length (vf_arcs f s) \<le> length ?lo \<longleftrightarrow> ?hi = []" using arg_cong [OF split, of length] by auto
  ultimately show ?thesis unfolding run by (auto simp: sm_done_def filter_empty_conv not_le)
qed

lemma matchers_find:
  assumes "t = MatchInput \<or> t = MatchOutput"
  shows "sorted_by t f \<Longrightarrow> \<exists>m m1 m2. sm_new f t = Inr m \<and> sm_find (sm_set_state m s) l = (m1, matches t f s l \<noteq> []) \<and>
      take_matches sorted_ops m1 [] = Some (m2, matches t f s l)"
    "\<exists>m m1 m2. hm_new f t = Inr m \<and> hm_find (hm_set_state m s) l = Some (m1, matches t f s l \<noteq> []) \<and>
      take_matches hash_ops m1 [] = Some (m2, matches t f s l)"
proof -
  show "\<exists>m m1 m2. sm_new f t = Inr m \<and> sm_find (sm_set_state m s) l = (m1, matches t f s l \<noteq> []) \<and>
      take_matches sorted_ops m1 [] = Some (m2, matches t f s l)" if sorted: "sorted_by t f"
  proof -
    obtain m where m: "sm_new f t = Inr m" "sm_ok t f m" using new_matchers_ok(1) [OF assms sorted] by blast
    then have "sm_at t f s (sm_set_state m s)" using sorted.set_state_law [of t f m s] by (simp add: sorted_ops_def)
    from sorted.find_and_take [OF this TrueI, of l]
    show ?thesis using m(1) by (auto simp: sorted_ops_def)
  qed
  obtain n where n: "hm_new f t = Inr n" "hm_ok t f n" using new_matchers_ok(2) [OF assms(1)] by blast
  then have "hm_at t f s (hm_set_state n s)" by (simp add: hm_set_state_at)
  from hashed.find_and_take [OF this TrueI, of l]
  show "\<exists>m m1 m2. hm_new f t = Inr m \<and> hm_find (hm_set_state m s) l = Some (m1, matches t f s l \<noteq> []) \<and>
      take_matches hash_ops m1 [] = Some (m2, matches t f s l)"
    using n(1) by (auto simp: hash_ops_def)
qed

text \<open>C14. Both matchers, set to a state and asked for a label, give exactly the arcs of the state with that label,
  in their order: after the loop arc when the label is epsilon, and the epsilon arcs alone when it is
  \<open>no_label\<close>; the answer of \<open>find\<close> says whether there are any, and no call panics.  The matcher by binary search
  needs the arcs of every state sorted on its side, the matcher by hashing needs nothing.\<close>

theorem matchers_find_exactly:
  assumes "t = MatchInput \<or> t = MatchOutput"
  shows "(sorted_by t f \<longrightarrow> (\<exists>m m1 m2. sm_new f t = Inr m \<and> sm_find (sm_set_state m s) l = (m1, matches t f s l \<noteq> []) \<and>
       take_matches sorted_ops m1 [] = Some (m2, matches t f s l))) \<and>
    (\<exists>m m1 m2. hm_new f t = Inr m \<and> hm_find (hm_set_state m s) l = Some (m1, matches t f s l \<noteq> []) \<and>
       take_matches hash_ops m1 [] = Some (m2, matches t f s l))"
  using matchers_find [OF assms] by blast

theorem matchers_find_exactly_witness:
  "\<exists>m m1 m2. sm_new two_eps MatchInput = Inr m \<and> sm_find (sm_set_state m 0) 0 = (m1, True) \<and>
     take_matches sorted_ops m1 [] = Some (m2, [arc_new no_label 0 1 0, arc_new 0 0 1 1])"
proof -
  have arcs: "vf_arcs two_eps s = (if s = 0 then [arc_new 0 0 1 1] else [])" for s
    by (auto simp: vf_arcs_def two_eps_states vget_def nth_Cons' less_Suc_eq)
  have "matches MatchInput two_eps 0 0 = [arc_new no_label 0 1 0, arc_new 0 0 1 1]"
    by (simp add: matches_def arcs extract_label_def epsilon_def loop_at_def new_loop_arc_def)
  moreover have "sorted_by MatchInput two_eps" by (simp add: sorted_by_def arcs)
  ultimately show ?thesis using matchers_find_exactly [of MatchInput two_eps 0 0] by simp
qed

end
