(* ===== verification/WrappedMatchers.thy ===== *)
theory WrappedMatchers
  imports Matcher TestProperties
begin

text \<open>
  The matchers of \<open>matcher.rs\<close> that wrap another matcher: \<open>ExplicitMatcher\<close>, \<open>RhoMatcher\<close>, \<open>SigmaMatcher\<close>,
  \<open>MultiEpsMatcher\<close> and \<open>PhiMatcher\<close>.  Each is a record with the matcher underneath in it, and its operations take
  that matcher's operations as a record.  What a wrapper answers is stated over what the matcher underneath answers, in
  the locale \<open>answering\<close>, so wrappers of wrappers are covered as well.
\<close>

section \<open>Rewriting an arc\<close>

datatype rewrite_mode = RewriteAuto | RewriteAlways | RewriteNever

text \<open>The property query leaves its answer in the cache of the FST; a matcher reads only arcs, so it may keep the FST
  it was given.\<close>

definition rewrites_both ::
  "('w::{zero,one} \<Rightarrow> bool) \<Rightarrow> rewrite_mode \<Rightarrow> ('w, 'sym) vector_fst \<Rightarrow> bool option" where
  "rewrites_both is_member mode f =
     (case mode of
        RewriteAuto \<Rightarrow> do { (p, _) \<leftarrow> cached_properties is_member f K_ACCEPTOR True; Some (p AND K_ACCEPTOR \<noteq> 0) }
      | RewriteAlways \<Rightarrow> Some True
      | RewriteNever \<Rightarrow> Some False)"

definition rewrite :: "'w arc \<Rightarrow> label \<Rightarrow> label \<Rightarrow> bool \<Rightarrow> match_type \<Rightarrow> 'w arc" where
  "rewrite a implicit found both t =
     (if both then
        arc_new (if ilabel a = implicit then found else ilabel a) (if olabel a = implicit then found else olabel a)
          (weight a) (nextstate a)
      else if t = MatchInput then arc_new found (olabel a) (weight a) (nextstate a)
      else arc_new (ilabel a) found (weight a) (nextstate a))"

text \<open>A label an implicit label may stand in for.\<close>

abbreviation real_label :: "label \<Rightarrow> bool" where
  "real_label l \<equiv> l \<noteq> epsilon \<and> l \<noteq> no_label"

text \<open>The priority of a matcher that must be the one a composition asks.\<close>

definition REQUIRE_PRIORITY :: int where
  "REQUIRE_PRIORITY = - 1"

section \<open>\<open>ExplicitMatcher\<close>\<close>

record 'm explicit_matcher =
  xm_matcher :: 'm
  xm_match_type :: match_type

definition xm_wrap :: "'m \<Rightarrow> match_type \<Rightarrow> 'm explicit_matcher" where
  "xm_wrap m t = \<lparr>xm_matcher = m, xm_match_type = t\<rparr>"

definition xm_new ::
  "(('w, 'sym) vector_fst \<Rightarrow> match_type \<Rightarrow> matcher_error + 'm) \<Rightarrow> ('w, 'sym) vector_fst \<Rightarrow> match_type \<Rightarrow>
   matcher_error + 'm explicit_matcher" where
  "xm_new inner f t = (case inner f t of Inl e \<Rightarrow> Inl e | Inr m \<Rightarrow> Inr (xm_wrap m t))"

partial_function (option) skip_implicit :: "('w, 'm) matcher_ops \<Rightarrow> 'm explicit_matcher \<Rightarrow> 'm explicit_matcher option" where
  "skip_implicit M x = do {
     stop \<leftarrow> mo_done M (xm_matcher x);
     (if stop then Some x
      else do {
        a \<leftarrow> mo_value M (xm_matcher x);
        (if extract_label (xm_match_type x) a \<noteq> no_label then Some x
         else do {
           m \<leftarrow> mo_next M (xm_matcher x);
           skip_implicit M (x\<lparr>xm_matcher := m\<rparr>) }) }) }"

definition xm_done :: "('w, 'm) matcher_ops \<Rightarrow> 'm explicit_matcher \<Rightarrow> bool option" where
  "xm_done M x = mo_done M (xm_matcher x)"

definition xm_find :: "('w, 'm) matcher_ops \<Rightarrow> 'm explicit_matcher \<Rightarrow> label \<Rightarrow> ('m explicit_matcher \<times> bool) option" where
  "xm_find M x l = do {
     (m, _) \<leftarrow> mo_find M (xm_matcher x) l;
     x \<leftarrow> skip_implicit M (x\<lparr>xm_matcher := m\<rparr>);
     stop \<leftarrow> xm_done M x;
     Some (x, \<not> stop) }"

definition xm_set_state :: "('w, 'm) matcher_ops \<Rightarrow> 'm explicit_matcher \<Rightarrow> state_id \<Rightarrow> 'm explicit_matcher option" where
  "xm_set_state M x s = do { m \<leftarrow> mo_set_state M (xm_matcher x) s; Some (x\<lparr>xm_matcher := m\<rparr>) }"

definition xm_value :: "('w, 'm) matcher_ops \<Rightarrow> 'm explicit_matcher \<Rightarrow> 'w arc option" where
  "xm_value M x = mo_value M (xm_matcher x)"

definition xm_next :: "('w, 'm) matcher_ops \<Rightarrow> 'm explicit_matcher \<Rightarrow> 'm explicit_matcher option" where
  "xm_next M x = do { m \<leftarrow> mo_next M (xm_matcher x); skip_implicit M (x\<lparr>xm_matcher := m\<rparr>) }"

definition xm_priority :: "('w, 'm) matcher_ops \<Rightarrow> 'm explicit_matcher \<Rightarrow> state_id \<Rightarrow> ('m explicit_matcher \<times> int) option" where
  "xm_priority M x s = do { (m, p) \<leftarrow> mo_priority M (xm_matcher x) s; Some (x\<lparr>xm_matcher := m\<rparr>, p) }"

definition explicit_ops :: "('w, 'm) matcher_ops \<Rightarrow> ('w, 'm explicit_matcher) matcher_ops" where
  "explicit_ops M = \<lparr>mo_match_type = xm_match_type, mo_set_state = xm_set_state M, mo_find = xm_find M,
     mo_done = xm_done M, mo_value = xm_value M, mo_next = xm_next M, mo_priority = xm_priority M\<rparr>"

text \<open>What is left of the answer: the arcs whose label on the matched side is not \<open>no_label\<close>.\<close>

definition explicit :: "match_type \<Rightarrow> 'w arc list \<Rightarrow> 'w arc list" where
  "explicit t = filter (\<lambda>a. extract_label t a \<noteq> no_label)"

lemma explicit_front:
  "bs = [] \<or> extract_label t (hd bs) \<noteq> no_label \<Longrightarrow> explicit t bs = [] \<longleftrightarrow> bs = []"
  "explicit t (a # bs) = (if extract_label t a = no_label then explicit t bs else a # explicit t bs)"
  "explicit t [] = []"
  by (cases bs) (auto simp: explicit_def)

definition xm_ok :: "match_type \<Rightarrow> ('m \<Rightarrow> bool) \<Rightarrow> 'm explicit_matcher \<Rightarrow> bool" where
  "xm_ok t P x \<longleftrightarrow> P (xm_matcher x) \<and> xm_match_type x = t"

definition xm_left ::
  "match_type \<Rightarrow> (state_id \<Rightarrow> 'w arc list \<Rightarrow> 'm \<Rightarrow> bool) \<Rightarrow> state_id \<Rightarrow> 'w arc list \<Rightarrow> 'm explicit_matcher \<Rightarrow> bool" where
  "xm_left t left s as x \<longleftrightarrow> xm_match_type x = t \<and>
     (\<exists>bs. left s bs (xm_matcher x) \<and> as = explicit t bs \<and> (bs = [] \<or> extract_label t (hd bs) \<noteq> no_label))"

context answering
begin

lemma skip_implicit_run:
  "left s bs (xm_matcher x) \<Longrightarrow> xm_match_type x = t \<Longrightarrow>
    \<exists>y. skip_implicit M x = Some y \<and> xm_left t left s (explicit t bs) y"
proof (induction bs arbitrary: x)
  case Nil
  then have "skip_implicit M x = Some x" using done_law by (subst skip_implicit.simps) simp
  then show ?case using Nil by (auto simp: xm_left_def)
next
  case (Cons a bs)
  obtain m where m: "mo_next M (xm_matcher x) = Some m" "left s bs m" using value_law [OF Cons.prems(1)] by blast
  note run = done_law [OF Cons.prems(1)] value_law [OF Cons.prems(1)] Cons.prems(2) m(1)
  show ?case
  proof (cases "extract_label t a = no_label")
    case True
    then have "skip_implicit M x = skip_implicit M (x\<lparr>xm_matcher := m\<rparr>)" "explicit t (a # bs) = explicit t bs"
      using run by (subst skip_implicit.simps, simp) (simp add: True explicit_front)
    then show ?thesis using Cons.IH [of "x\<lparr>xm_matcher := m\<rparr>"] m(2) Cons.prems(2) by simp
  next
    case False
    then have "skip_implicit M x = Some x" using run by (subst skip_implicit.simps) simp
    then show ?thesis using Cons.prems False by (auto simp: xm_left_def)
  qed
qed

end

locale explicit_over = answering

sublocale explicit_over \<subseteq> explicit: answering "explicit_ops M" t "\<lambda>s l. explicit t (ans s l)" may prio
  "xm_ok t ok" "\<lambda>s. xm_ok t (at s)" "xm_left t left"
proof unfold_locales
  fix x :: "'b explicit_matcher" and s l
  show "xm_ok t ok x \<Longrightarrow> mo_match_type (explicit_ops M) x = t" by (simp add: explicit_ops_def xm_ok_def)
  show "xm_ok t (at s) x \<Longrightarrow> xm_ok t ok x" using at_ok by (auto simp: xm_ok_def)
  show "xm_ok t ok x \<Longrightarrow> \<exists>y. mo_set_state (explicit_ops M) x s = Some y \<and> xm_ok t (at s) y"
    using set_state_law [of "xm_matcher x" s] by (auto simp: explicit_ops_def xm_set_state_def xm_ok_def)
  show "xm_ok t ok x \<Longrightarrow> \<exists>y. mo_priority (explicit_ops M) x s = Some (y, prio s) \<and> xm_ok t ok y \<and>
      (xm_ok t (at s) x \<longrightarrow> xm_ok t (at s) y)"
    using priority_law [of "xm_matcher x" s] by (auto simp: explicit_ops_def xm_priority_def xm_ok_def)
  assume "xm_ok t (at s) x" "may s l"
  then obtain m b where m: "mo_find M (xm_matcher x) l = Some (m, b)" "left s (ans s l) m" and t: "xm_match_type x = t"
    using find_law [of s "xm_matcher x" l] by (auto simp: xm_ok_def)
  obtain y where y: "skip_implicit M (x\<lparr>xm_matcher := m\<rparr>) = Some y" "xm_left t left s (explicit t (ans s l)) y"
    using skip_implicit_run [of s "ans s l" "x\<lparr>xm_matcher := m\<rparr>"] m(2) t by auto
  have "xm_done M y = Some (explicit t (ans s l) = [])"
    using y(2) done_law by (auto simp: xm_done_def xm_left_def explicit_front(1))
  then show "\<exists>y. mo_find (explicit_ops M) x l = Some (y, explicit t (ans s l) \<noteq> []) \<and> xm_left t left s (explicit t (ans s l)) y"
    using m(1) y by (simp add: explicit_ops_def xm_find_def)
next
  fix x :: "'b explicit_matcher" and s as
  assume left: "xm_left t left s as x"
  then show "xm_ok t (at s) x" using left_at by (auto simp: xm_left_def xm_ok_def)
  show "mo_done (explicit_ops M) x = Some (as = [])"
    using left done_law by (auto simp: explicit_ops_def xm_done_def xm_left_def explicit_front(1))
next
  fix x :: "'b explicit_matcher" and s a as
  assume "xm_left t left s (a # as) x"
  then obtain cs where cs: "left s cs (xm_matcher x)" "a # as = explicit t cs" "xm_match_type x = t"
      "cs = [] \<or> extract_label t (hd cs) \<noteq> no_label"
    by (auto simp: xm_left_def)
  then obtain bs where bs: "left s (a # bs) (xm_matcher x)" "as = explicit t bs" "xm_match_type x = t"
    by (cases cs) (auto simp: explicit_front)
  then obtain m where m: "mo_next M (xm_matcher x) = Some m" "left s bs m" using value_law [OF bs(1)] by blast
  then show "mo_value (explicit_ops M) x = Some a \<and> (\<exists>y. mo_next (explicit_ops M) x = Some y \<and> xm_left t left s as y)"
    using value_law [OF bs(1)] skip_implicit_run [of s bs "x\<lparr>xm_matcher := m\<rparr>"] bs
    by (simp add: explicit_ops_def xm_value_def xm_next_def)
qed

section \<open>\<open>RhoMatcher\<close>\<close>

record 'm rho_matcher =
  rm_matcher :: 'm
  rm_match_type :: match_type
  rm_rho_label :: label
  rm_rewrite_both :: bool
  rm_rho_match :: label
  rm_has_rho :: bool
  rm_state :: "state_id option"
  rm_error :: bool

definition rm_new_with_options ::
  "('w::{zero,one} \<Rightarrow> bool) \<Rightarrow> (('w, 'sym) vector_fst \<Rightarrow> match_type \<Rightarrow> matcher_error + 'm) \<Rightarrow> ('w, 'sym) vector_fst \<Rightarrow>
   match_type \<Rightarrow> label \<Rightarrow> rewrite_mode \<Rightarrow> (matcher_error + 'm rho_matcher) option" where
  "rm_new_with_options is_member inner f t rho mode =
     (if t = MatchBoth then Some (Inl (MatcherInvalidMatchType ''RhoMatcher'' t))
      else if rho = epsilon
        then Some (Inl (MatcherInvalidConfiguration ''RhoMatcher'' ''epsilon cannot be used as the rho label''))
      else do {
        both \<leftarrow> rewrites_both is_member mode f;
        (case inner f t of
           Inl e \<Rightarrow> Some (Inl e)
         | Inr m \<Rightarrow> Some (Inr \<lparr>rm_matcher = m, rm_match_type = t, rm_rho_label = rho, rm_rewrite_both = both,
             rm_rho_match = no_label, rm_has_rho = False, rm_state = None, rm_error = False\<rparr>)) })"

definition rm_new ::
  "('w::{zero,one} \<Rightarrow> bool) \<Rightarrow> (('w, 'sym) vector_fst \<Rightarrow> match_type \<Rightarrow> matcher_error + 'm) \<Rightarrow> ('w, 'sym) vector_fst \<Rightarrow>
   match_type \<Rightarrow> (matcher_error + 'm rho_matcher) option" where
  "rm_new is_member inner f t = rm_new_with_options is_member inner f t no_label RewriteAuto"

definition rm_clone :: "'m rho_matcher \<Rightarrow> 'm rho_matcher" where
  "rm_clone x = x\<lparr>rm_rho_match := no_label, rm_has_rho := False, rm_state := None\<rparr>"

definition rm_set_state :: "('w, 'm) matcher_ops \<Rightarrow> 'm rho_matcher \<Rightarrow> state_id \<Rightarrow> 'm rho_matcher option" where
  "rm_set_state M x s =
     (if rm_state x = Some s then Some x
      else do {
        m \<leftarrow> mo_set_state M (rm_matcher x) s;
        Some (x\<lparr>rm_state := Some s, rm_matcher := m, rm_has_rho := (rm_rho_label x \<noteq> no_label)\<rparr>) })"

definition rm_find :: "('w, 'm) matcher_ops \<Rightarrow> 'm rho_matcher \<Rightarrow> label \<Rightarrow> ('m rho_matcher \<times> bool) option" where
  "rm_find M x l =
     (if l = rm_rho_label x \<and> rm_rho_label x \<noteq> no_label then Some (x\<lparr>rm_error := True\<rparr>, False)
      else do {
        (m, b) \<leftarrow> mo_find M (rm_matcher x) l;
        let x = x\<lparr>rm_matcher := m\<rparr>;
        (if b then Some (x\<lparr>rm_rho_match := no_label\<rparr>, True)
         else if rm_has_rho x \<and> real_label l then do {
           (m, b) \<leftarrow> mo_find M (rm_matcher x) (rm_rho_label x);
           let x = x\<lparr>rm_matcher := m, rm_has_rho := b\<rparr>;
           Some (if b then (x\<lparr>rm_rho_match := l\<rparr>, True) else (x, False)) }
         else Some (x, False)) })"

definition rm_done :: "('w, 'm) matcher_ops \<Rightarrow> 'm rho_matcher \<Rightarrow> bool option" where
  "rm_done M x = mo_done M (rm_matcher x)"

definition rm_value :: "('w, 'm) matcher_ops \<Rightarrow> 'm rho_matcher \<Rightarrow> 'w arc option" where
  "rm_value M x = do {
     a \<leftarrow> mo_value M (rm_matcher x);
     Some (if rm_rho_match x = no_label then a
       else rewrite a (rm_rho_label x) (rm_rho_match x) (rm_rewrite_both x) (rm_match_type x)) }"

definition rm_next :: "('w, 'm) matcher_ops \<Rightarrow> 'm rho_matcher \<Rightarrow> 'm rho_matcher option" where
  "rm_next M x = do { m \<leftarrow> mo_next M (rm_matcher x); Some (x\<lparr>rm_matcher := m\<rparr>) }"

definition rm_priority :: "('w, 'm) matcher_ops \<Rightarrow> 'm rho_matcher \<Rightarrow> state_id \<Rightarrow> ('m rho_matcher \<times> int) option" where
  "rm_priority M x s =
     (if rm_rho_label x = no_label then do {
        (m, p) \<leftarrow> mo_priority M (rm_matcher x) s;
        Some (x\<lparr>rm_matcher := m\<rparr>, p) }
      else do {
        m \<leftarrow> mo_set_state M (rm_matcher x) s;
        (m, b) \<leftarrow> mo_find M m (rm_rho_label x);
        let x = x\<lparr>rm_state := Some s, rm_matcher := m, rm_has_rho := b\<rparr>;
        (if b then Some (x, REQUIRE_PRIORITY)
         else do {
           (m, p) \<leftarrow> mo_priority M m s;
           Some (x\<lparr>rm_matcher := m\<rparr>, p) }) })"

definition rho_ops :: "('w, 'm) matcher_ops \<Rightarrow> ('w, 'm rho_matcher) matcher_ops" where
  "rho_ops M = \<lparr>mo_match_type = rm_match_type, mo_set_state = rm_set_state M, mo_find = rm_find M,
     mo_done = rm_done M, mo_value = rm_value M, mo_next = rm_next M, mo_priority = rm_priority M\<rparr>"

text \<open>The answer of the rho arcs to a label, on top of what the matcher underneath answers.\<close>

definition stand_ins ::
  "(state_id \<Rightarrow> label \<Rightarrow> 'w arc list) \<Rightarrow> label \<Rightarrow> bool \<Rightarrow> match_type \<Rightarrow> state_id \<Rightarrow> label \<Rightarrow> 'w arc list" where
  "stand_ins ans implicit both t s l =
     (if implicit \<noteq> no_label \<and> real_label l then map (\<lambda>a. rewrite a implicit l both t) (ans s implicit) else [])"

definition rho_ans ::
  "(state_id \<Rightarrow> label \<Rightarrow> 'w arc list) \<Rightarrow> label \<Rightarrow> bool \<Rightarrow> match_type \<Rightarrow> state_id \<Rightarrow> label \<Rightarrow> 'w arc list" where
  "rho_ans ans rho both t s l = (if ans s l \<noteq> [] then ans s l else stand_ins ans rho both t s l)"

text \<open>The implicit label itself may not be asked for.\<close>

definition but_implicit :: "(state_id \<Rightarrow> label \<Rightarrow> bool) \<Rightarrow> label \<Rightarrow> state_id \<Rightarrow> label \<Rightarrow> bool" where
  "but_implicit may implicit s l \<longleftrightarrow> may s l \<and> (implicit = no_label \<or> l \<noteq> implicit)"

definition required ::
  "(state_id \<Rightarrow> label \<Rightarrow> 'w arc list) \<Rightarrow> (state_id \<Rightarrow> int) \<Rightarrow> label \<Rightarrow> state_id \<Rightarrow> int" where
  "required ans prio implicit s =
     (if implicit \<noteq> no_label \<and> ans s implicit \<noteq> [] then REQUIRE_PRIORITY else prio s)"

text \<open>An arc as a caller sees it, given the label the implicit one stands in for.\<close>

definition shown :: "label \<Rightarrow> label \<Rightarrow> bool \<Rightarrow> match_type \<Rightarrow> 'w arc \<Rightarrow> 'w arc" where
  "shown implicit found both t a = (if found = no_label then a else rewrite a implicit found both t)"

lemma shown_map:
  "map (shown implicit no_label both t) as = as"
  "l \<noteq> no_label \<Longrightarrow> map (shown implicit l both t) as = map (\<lambda>a. rewrite a implicit l both t) as"
  by (induction as) (simp_all add: shown_def)

definition rm_ok ::
  "match_type \<Rightarrow> label \<Rightarrow> bool \<Rightarrow> (state_id \<Rightarrow> label \<Rightarrow> 'w arc list) \<Rightarrow> ('m \<Rightarrow> bool) \<Rightarrow> (state_id \<Rightarrow> 'm \<Rightarrow> bool) \<Rightarrow>
   'm rho_matcher \<Rightarrow> bool" where
  "rm_ok t rho both ans ok at x \<longleftrightarrow> ok (rm_matcher x) \<and> rm_match_type x = t \<and> rm_rho_label x = rho \<and>
     rm_rewrite_both x = both \<and>
     (\<forall>s. rm_state x = Some s \<longrightarrow> at s (rm_matcher x) \<and> (rm_has_rho x \<longrightarrow> rho \<noteq> no_label) \<and>
        (rho \<noteq> no_label \<and> ans s rho \<noteq> [] \<longrightarrow> rm_has_rho x))"

definition rm_at ::
  "match_type \<Rightarrow> label \<Rightarrow> bool \<Rightarrow> (state_id \<Rightarrow> label \<Rightarrow> 'w arc list) \<Rightarrow> ('m \<Rightarrow> bool) \<Rightarrow> (state_id \<Rightarrow> 'm \<Rightarrow> bool) \<Rightarrow>
   state_id \<Rightarrow> 'm rho_matcher \<Rightarrow> bool" where
  "rm_at t rho both ans ok at s x \<longleftrightarrow> rm_ok t rho both ans ok at x \<and> rm_state x = Some s"

definition rm_left ::
  "match_type \<Rightarrow> label \<Rightarrow> bool \<Rightarrow> (state_id \<Rightarrow> label \<Rightarrow> 'w arc list) \<Rightarrow> ('m \<Rightarrow> bool) \<Rightarrow> (state_id \<Rightarrow> 'm \<Rightarrow> bool) \<Rightarrow>
   (state_id \<Rightarrow> 'w arc list \<Rightarrow> 'm \<Rightarrow> bool) \<Rightarrow> state_id \<Rightarrow> 'w arc list \<Rightarrow> 'm rho_matcher \<Rightarrow> bool" where
  "rm_left t rho both ans ok at left s as x \<longleftrightarrow> rm_at t rho both ans ok at s x \<and>
     (\<exists>bs. left s bs (rm_matcher x) \<and>
as = map (shown rho (rm_rho_match x) both t) bs)"

text \<open>A matcher whose priority may be asked at any state without moving it.\<close>

locale settled = answering +
  assumes priority_stays: "at s' m \<Longrightarrow> mo_priority M m s = Some (m', p) \<Longrightarrow> at s' m'"

locale rho_over = settled +
  fixes rho :: label and both :: bool
  assumes rho_may: "rho \<noteq> no_label \<Longrightarrow> may s rho"
begin

lemma rm_find_run:
  assumes "rm_at t rho both ans ok at s x" "but_implicit may rho s l"
  shows "\<exists>y. rm_find M x l = Some (y, rho_ans ans rho both t s l \<noteq> []) \<and>
    rm_left t rho both ans ok at left s (rho_ans ans rho both t s l) y"
proof -
  have x: "at s (rm_matcher x)" "rm_rho_label x = rho" "rm_has_rho x \<longrightarrow> rho \<noteq> no_label"
      "rho \<noteq> no_label \<and> ans s rho \<noteq> [] \<longrightarrow> rm_has_rho x"
    using assms(1) by (auto simp: rm_at_def rm_ok_def)
  have l: "may s l" "\<not> (l = rho \<and> rho \<noteq> no_label)" using assms(2) by (auto simp: but_implicit_def)
  obtain m where m: "mo_find M (rm_matcher x) l = Some (m, ans s l \<noteq> [])" "left s (ans s l) m"
    using find_law [OF x(1) l(1)] by blast
  have m_ok: "at s m" "ok m" using left_at [OF m(2)] at_ok by auto
  show ?thesis
  proof (cases "ans s l = [] \<and> rm_has_rho x \<and> real_label l")
    case False
    have "rho_ans ans rho both t s l = ans s l"
      using False x(3,4) by (auto simp: rho_ans_def stand_ins_def)
    then show ?thesis
      using False assms(1) m m_ok x l(2)
      by (cases "ans s l = []") (auto simp: rm_find_def Let_def rm_left_def rm_at_def rm_ok_def shown_map)
  next
    case True
    then obtain m' where m': "mo_find M m rho = Some (m', ans s rho \<noteq> [])" "left s (ans s rho) m'"
      using find_law [OF m_ok(1) rho_may] x(3) by blast
    have "rho_ans ans rho both t s l = map (\<lambda>a. rewrite a rho l both t) (ans s rho)"
      using True x(3) by (simp add: rho_ans_def stand_ins_def)
    then show ?thesis
      using True assms(1) m m' left_at [OF m'(2)] at_ok x l(2)
      by (cases "ans s rho = []") (auto simp: rm_find_def Let_def rm_left_def rm_at_def rm_ok_def shown_map)
  qed
qed

lemma rm_priority_run:
  assumes "rm_ok t rho both ans ok at x"
  shows "\<exists>y. rm_priority M x s = Some (y, required ans prio rho s) \<and> rm_ok t rho both ans ok at y \<and>
    (rm_at t rho both ans ok at s x \<longrightarrow> rm_at t rho both ans ok at s y)"
proof (cases "rho = no_label")
  case True
  obtain m where m: "mo_priority M (rm_matcher x) s = Some (m, prio s)" "ok m"
    using priority_law [of "rm_matcher x" s] assms by (auto simp: rm_ok_def)
  have "at s' m" if "at s' (rm_matcher x)" for s' using priority_stays [OF that m(1)] .
  then show ?thesis
    using True assms m by (auto simp: rm_priority_def required_def rm_ok_def rm_at_def)
next
  case rho_label: False
  have x: "ok (rm_matcher x)" "rm_rho_label x = rho" "rm_match_type x = t" "rm_rewrite_both x = both"
    using assms by (auto simp: rm_ok_def)
  obtain m where m: "mo_set_state M (rm_matcher x) s = Some m" "at s m" using set_state_law [OF x(1)] by blast
  obtain m1 where m1: "mo_find M m rho = Some (m1, ans s rho \<noteq> [])" "left s (ans s rho) m1"
    using find_law [OF m(2) rho_may] rho_label by blast
  have at1: "at s m1" "ok m1" using left_at [OF m1(2)] at_ok by auto
  obtain m2 where m2: "mo_priority M m1 s = Some (m2, prio s)" "ok m2" "at s m2" using priority_law [OF at1(2)] at1(1) by blast
  show ?thesis
    using x m m1 m2 at1 rho_label
    by (cases "ans s rho = []") (auto simp: rm_priority_def Let_def required_def rm_ok_def rm_at_def)
qed

end

sublocale rho_over \<subseteq> rho: answering "rho_ops M" t "rho_ans ans rho both t" "but_implicit may rho"
  "required ans prio rho" "rm_ok t rho both ans ok at" "rm_at t rho both ans ok at" "rm_left t rho both ans ok at left"
proof unfold_locales
  fix x :: "'b rho_matcher" and s l
  show "rm_ok t rho both ans ok at x \<Longrightarrow> mo_match_type (rho_ops M) x = t" by (simp add: rho_ops_def rm_ok_def)
  show "rm_at t rho both ans ok at s x \<Longrightarrow> rm_ok t rho both ans ok at x" by (simp add: rm_at_def)
  show "rm_at t rho both ans ok at s x \<Longrightarrow> but_implicit may rho s l \<Longrightarrow>
      \<exists>y. mo_find (rho_ops M) x l = Some (y, rho_ans ans rho both t s l \<noteq> []) \<and>
        rm_left t rho both ans ok at left s (rho_ans ans rho both t s l) y"
    using rm_find_run by (simp add: rho_ops_def)
  show "rm_ok t rho both ans ok at x \<Longrightarrow> \<exists>y. mo_priority (rho_ops M) x s = Some (y, required ans prio rho s) \<and>
      rm_ok t rho both ans ok at y \<and> (rm_at t rho both ans ok at s x \<longrightarrow> rm_at t rho both ans ok at s y)"
    using rm_priority_run by (simp add: rho_ops_def)
  assume ok: "rm_ok t rho both ans ok at x"
  then obtain m where "mo_set_state M (rm_matcher x) s = Some m" "at s m"
    using set_state_law [of "rm_matcher x" s] by (auto simp: rm_ok_def)
  then show "\<exists>y. mo_set_state (rho_ops M) x s = Some y \<and> rm_at t rho both ans ok at s y"
    using ok at_ok by (auto simp: rho_ops_def rm_set_state_def rm_at_def rm_ok_def)
next
  fix x :: "'b rho_matcher" and s as
  assume left: "rm_left t rho both ans ok at left s as x"
  then show "rm_at t rho both ans ok at s x" by (simp add: rm_left_def)
  show "mo_done (rho_ops M) x = Some (as = [])"
    using left done_law by (auto simp: rho_ops_def rm_done_def rm_left_def)
next
  fix x :: "'b rho_matcher" and s a as
  assume left: "rm_left t rho both ans ok at left s (a # as) x"
  let ?g = "shown rho (rm_rho_match x) both t"
  from left obtain b bs where bs: "left s (b # bs) (rm_matcher x)" "a = ?g b" "as = map ?g bs"
    by (auto simp: rm_left_def)
  obtain m where m: "mo_next M (rm_matcher x) = Some m" "left s bs m" using value_law [OF bs(1)] by blast
  have "rm_left t rho both ans ok at left s as (x\<lparr>rm_matcher := m\<rparr>)"
    using left m(2) bs(3) left_at [OF m(2)] at_ok by (auto simp: rm_left_def rm_at_def rm_ok_def)
  moreover have "rm_value M x = Some a"
    using left value_law [OF bs(1)] bs(2) by (auto simp: rm_value_def rm_left_def rm_at_def rm_ok_def shown_def)
  ultimately show "mo_value (rho_ops M) x = Some a \<and>
      (\<exists>y. mo_next (rho_ops M) x = Some y \<and> rm_left t rho both ans ok at left s as y)"
    using m(1) by (simp add: rho_ops_def rm_next_def)
qed

section \<open>\<open>SigmaMatcher\<close>\<close>

record 'm sigma_matcher =
  gm_matcher :: 'm
  gm_match_type :: match_type
  gm_sigma_label :: label
  gm_rewrite_both :: bool
  gm_sigma_match :: label
  gm_match_label :: label
  gm_has_sigma :: bool
  gm_state :: "state_id option"
  gm_error :: bool

definition gm_new_with_options ::
  "('w::{zero,one} \<Rightarrow> bool) \<Rightarrow> (('w, 'sym) vector_fst \<Rightarrow> match_type \<Rightarrow> matcher_error + 'm) \<Rightarrow> ('w, 'sym) vector_fst \<Rightarrow>
   match_type \<Rightarrow> label \<Rightarrow> rewrite_mode \<Rightarrow> (matcher_error + 'm sigma_matcher) option" where
  "gm_new_with_options is_member inner f t sigma mode =
     (if t = MatchBoth then Some (Inl (MatcherInvalidMatchType ''SigmaMatcher'' t))
      else if sigma = epsilon
        then Some (Inl (MatcherInvalidConfiguration ''SigmaMatcher'' ''epsilon cannot be used as the sigma label''))
      else do {
        both \<leftarrow> rewrites_both is_member mode f;
        (case inner f t of
           Inl e \<Rightarrow> Some (Inl e)
         | Inr m \<Rightarrow> Some (Inr \<lparr>gm_matcher = m, gm_match_type = t, gm_sigma_label = sigma, gm_rewrite_both = both,
             gm_sigma_match = no_label, gm_match_label = no_label, gm_has_sigma = False, gm_state = None,
             gm_error = False\<rparr>)) })"

definition gm_new ::
  "('w::{zero,one} \<Rightarrow> bool) \<Rightarrow> (('w, 'sym) vector_fst \<Rightarrow> match_type \<Rightarrow> matcher_error + 'm) \<Rightarrow> ('w, 'sym) vector_fst \<Rightarrow>
   match_type \<Rightarrow> (matcher_error + 'm sigma_matcher) option" where
  "gm_new is_member inner f t = gm_new_with_options is_member inner f t no_label RewriteAuto"

definition gm_clone :: "'m sigma_matcher \<Rightarrow> 'm sigma_matcher" where
  "gm_clone x = x\<lparr>gm_sigma_match := no_label, gm_match_label := no_label, gm_has_sigma := False, gm_state := None\<rparr>"

definition gm_set_state :: "('w, 'm) matcher_ops \<Rightarrow> 'm sigma_matcher \<Rightarrow> state_id \<Rightarrow> 'm sigma_matcher option" where
  "gm_set_state M x s =
     (if gm_state x = Some s then Some x
      else do {
        m \<leftarrow> mo_set_state M (gm_matcher x) s;
        let x = x\<lparr>gm_state := Some s, gm_matcher := m\<rparr>;
        (if gm_sigma_label x = no_label then Some (x\<lparr>gm_has_sigma := False\<rparr>)
         else do {
           (m, b) \<leftarrow> mo_find M m (gm_sigma_label x);
           Some (x\<lparr>gm_matcher := m, gm_has_sigma := b\<rparr>) }) })"

definition gm_find :: "('w, 'm) matcher_ops \<Rightarrow> 'm sigma_matcher \<Rightarrow> label \<Rightarrow> ('m sigma_matcher \<times> bool) option" where
  "gm_find M x l =
     (let x = x\<lparr>gm_match_label := l\<rparr> in
      if l = gm_sigma_label x \<and> gm_sigma_label x \<noteq> no_label then Some (x\<lparr>gm_error := True\<rparr>, False)
      else do {
        (m, b) \<leftarrow> mo_find M (gm_matcher x) l;
        let x = x\<lparr>gm_matcher := m\<rparr>;
        (if b then Some (x\<lparr>gm_sigma_match := no_label\<rparr>, True)
         else if gm_has_sigma x \<and> real_label l then do {
           (m, b) \<leftarrow> mo_find M (gm_matcher x) (gm_sigma_label x);
           let x = x\<lparr>gm_matcher := m\<rparr>;
           Some (if b then (x\<lparr>gm_sigma_match := l\<rparr>, True) else (x, False)) }
         else Some (x, False)) })"

definition gm_done :: "('w, 'm) matcher_ops \<Rightarrow> 'm sigma_matcher \<Rightarrow> bool option" where
  "gm_done M x = mo_done M (gm_matcher x)"

definition gm_value :: "('w, 'm) matcher_ops \<Rightarrow> 'm sigma_matcher \<Rightarrow> 'w arc option" where
  "gm_value M x = do {
     a \<leftarrow> mo_value M (gm_matcher x);
     Some (if gm_sigma_match x = no_label then a
       else rewrite a (gm_sigma_label x) (gm_sigma_match x) (gm_rewrite_both x) (gm_match_type x)) }"

definition gm_next :: "('w, 'm) matcher_ops \<Rightarrow> 'm sigma_matcher \<Rightarrow> 'm sigma_matcher option" where
  "gm_next M x = do {
     m \<leftarrow> mo_next M (gm_matcher x);
     let x = x\<lparr>gm_matcher := m\<rparr>;
     stop \<leftarrow> mo_done M m;
     (if stop \<and> gm_has_sigma x \<and> gm_sigma_match x = no_label \<and> real_label (gm_match_label x) then do {
        (m, _) \<leftarrow> mo_find M m (gm_sigma_label x);
        Some (x\<lparr>gm_matcher := m, gm_sigma_match := gm_match_label x\<rparr>) }
      else Some x) }"

definition gm_priority :: "('w, 'm) matcher_ops \<Rightarrow> 'm sigma_matcher \<Rightarrow> state_id \<Rightarrow> ('m sigma_matcher \<times> int) option" where
  "gm_priority M x s =
     (if gm_sigma_label x = no_label then do {
        (m, p) \<leftarrow> mo_priority M (gm_matcher x) s;
        Some (x\<lparr>gm_matcher := m\<rparr>, p) }
      else do {
        x \<leftarrow> gm_set_state M x s;
        (if gm_has_sigma x then Some (x, REQUIRE_PRIORITY)
         else do {
           (m, p) \<leftarrow> mo_priority M (gm_matcher x) s;
           Some (x\<lparr>gm_matcher := m\<rparr>, p) }) })"

definition sigma_ops :: "('w, 'm) matcher_ops \<Rightarrow> ('w, 'm sigma_matcher) matcher_ops" where
  "sigma_ops M = \<lparr>mo_match_type = gm_match_type, mo_set_state = gm_set_state M, mo_find = gm_find M,
     mo_done = gm_done M, mo_value = gm_value M, mo_next = gm_next M, mo_priority = gm_priority M\<rparr>"

definition sigma_ans ::
  "(state_id \<Rightarrow> label \<Rightarrow> 'w arc list) \<Rightarrow> label \<Rightarrow> bool \<Rightarrow> match_type \<Rightarrow> state_id \<Rightarrow> label \<Rightarrow> 'w arc list" where
  "sigma_ans ans sigma both t s l = ans s l @ stand_ins ans sigma both t s l"

definition gm_ok ::
  "match_type \<Rightarrow> label \<Rightarrow> bool \<Rightarrow> (state_id \<Rightarrow> label \<Rightarrow> 'w arc list) \<Rightarrow> ('m \<Rightarrow> bool) \<Rightarrow> (state_id \<Rightarrow> 'm \<Rightarrow> bool) \<Rightarrow>
   'm sigma_matcher \<Rightarrow> bool" where
  "gm_ok t sigma both ans ok at x \<longleftrightarrow> ok (gm_matcher x) \<and> gm_match_type x = t \<and> gm_sigma_label x = sigma \<and>
     gm_rewrite_both x = both \<and>
     (\<forall>s. gm_state x = Some s \<longrightarrow> at s (gm_matcher x) \<and> (gm_has_sigma x \<longleftrightarrow> sigma \<noteq> no_label \<and> ans s sigma \<noteq> []))"

definition gm_at ::
  "match_type \<Rightarrow> label \<Rightarrow> bool \<Rightarrow> (state_id \<Rightarrow> label \<Rightarrow> 'w arc list) \<Rightarrow> ('m \<Rightarrow> bool) \<Rightarrow> (state_id \<Rightarrow> 'm \<Rightarrow> bool) \<Rightarrow>
   state_id \<Rightarrow> 'm sigma_matcher \<Rightarrow> bool" where
  "gm_at t sigma both ans ok at s x \<longleftrightarrow> gm_ok t sigma both ans ok at x \<and> gm_state x = Some s"

text \<open>The arcs still to come once those of the label itself have run out.\<close>

definition gm_rest ::
  "match_type \<Rightarrow> label \<Rightarrow> bool \<Rightarrow> (state_id \<Rightarrow> label \<Rightarrow> 'w arc list) \<Rightarrow> state_id \<Rightarrow> 'm sigma_matcher \<Rightarrow> 'w arc list" where
  "gm_rest t sigma both ans s x =
     (if gm_sigma_match x = no_label then stand_ins ans sigma both t s (gm_match_label x) else [])"

definition gm_left ::
  "match_type \<Rightarrow> label \<Rightarrow> bool \<Rightarrow> (state_id \<Rightarrow> label \<Rightarrow> 'w arc list) \<Rightarrow> ('m \<Rightarrow> bool) \<Rightarrow> (state_id \<Rightarrow> 'm \<Rightarrow> bool) \<Rightarrow>
   (state_id \<Rightarrow> 'w arc list \<Rightarrow> 'm \<Rightarrow> bool) \<Rightarrow> state_id \<Rightarrow> 'w arc list \<Rightarrow> 'm sigma_matcher \<Rightarrow> bool" where
  "gm_left t sigma both ans ok at left s as x \<longleftrightarrow> gm_at t sigma both ans ok at s x \<and>
     (\<exists>bs. left s bs (gm_matcher x) \<and>
        as = map (shown sigma (gm_sigma_match x) both t) bs @ gm_rest t sigma both ans s x \<and>
        (bs = [] \<longrightarrow> gm_rest t sigma both ans s x = []))"

locale sigma_over = settled +
  fixes sigma :: label and both :: bool
  assumes sigma_may: "sigma \<noteq> no_label \<Longrightarrow> may s sigma"
begin

lemma gm_find_run:
  assumes "gm_at t sigma both ans ok at s x" "but_implicit may sigma s l"
  shows "\<exists>y. gm_find M x l = Some (y, sigma_ans ans sigma both t s l \<noteq> []) \<and>
    gm_left t sigma both ans ok at left s (sigma_ans ans sigma both t s l) y"
proof -
  have x: "at s (gm_matcher x)" "gm_sigma_label x = sigma" "gm_has_sigma x \<longleftrightarrow> sigma \<noteq> no_label \<and> ans s sigma \<noteq> []"
    using assms(1) by (auto simp: gm_at_def gm_ok_def)
  have l: "may s l" "\<not> (l = sigma \<and> sigma \<noteq> no_label)" using assms(2) by (auto simp: but_implicit_def)
  obtain m where m: "mo_find M (gm_matcher x) l = Some (m, ans s l \<noteq> [])" "left s (ans s l) m"
    using find_law [OF x(1) l(1)] by blast
  have m_ok: "at s m" "ok m" using left_at [OF m(2)] at_ok by auto
  consider "ans s l \<noteq> []" | "ans s l = []" "gm_has_sigma x \<and> real_label l" | "ans s l = []" "\<not> (gm_has_sigma x \<and> real_label l)"
    by blast
  then show ?thesis
  proof cases
    case 1
    let ?y = "x\<lparr>gm_match_label := l, gm_matcher := m, gm_sigma_match := no_label\<rparr>"
    have "gm_find M x l = Some (?y, True)" using 1 m(1) x(2) l(2) by (auto simp: gm_find_def Let_def)
    moreover have "gm_at t sigma both ans ok at s ?y" using assms(1) m_ok by (auto simp: gm_at_def gm_ok_def)
    moreover have "gm_rest t sigma both ans s ?y = stand_ins ans sigma both t s l" by (simp add: gm_rest_def)
    ultimately have "gm_left t sigma both ans ok at left s (sigma_ans ans sigma both t s l) ?y"
      unfolding gm_left_def using 1 m(2) by (intro conjI exI [of _ "ans s l"]) (simp_all add: sigma_ans_def shown_map)
    then show ?thesis using \<open>gm_find M x l = _\<close> 1 by (intro exI [of _ ?y]) (simp add: sigma_ans_def)
  next
    case 2
    then obtain m' where m': "mo_find M m sigma = Some (m', ans s sigma \<noteq> [])" "left s (ans s sigma) m'"
      using find_law [OF m_ok(1) sigma_may] x(3) by blast
    have m_ok': "at s m'" "ok m'" using left_at [OF m'(2)] at_ok by auto
    have "sigma_ans ans sigma both t s l = map (\<lambda>a. rewrite a sigma l both t) (ans s sigma)"
      using 2 x(3) by (simp add: sigma_ans_def stand_ins_def)
    note found = this
    let ?y = "x\<lparr>gm_match_label := l, gm_matcher := m', gm_sigma_match := l\<rparr>"
    have "gm_find M x l = Some (?y, True)" using 2 m(1) m'(1) x(2,3) l(2) by (auto simp: gm_find_def)
    moreover have "gm_at t sigma both ans ok at s ?y" using assms(1) m_ok' by (auto simp: gm_at_def gm_ok_def)
    moreover have "gm_rest t sigma both ans s ?y = []" using 2 by (simp add: gm_rest_def)
    ultimately show ?thesis using 2 x(3) m'(2) unfolding found by (auto simp: gm_left_def shown_map)
  next
    case 3
    then have "stand_ins ans sigma both t s l = []" using x(3) by (auto simp: stand_ins_def)
    note none = this
    let ?y = "x\<lparr>gm_match_label := l, gm_matcher := m\<rparr>"
    have "gm_find M x l = Some (?y, False)" using 3 m(1) x(2) l(2) by (auto simp: gm_find_def)
    moreover have "gm_at t sigma both ans ok at s ?y" using assms(1) m_ok by (auto simp: gm_at_def gm_ok_def)
    moreover have "gm_rest t sigma both ans s ?y = []" using none by (simp add: gm_rest_def)
    ultimately show ?thesis using 3(1) m(2) none by (auto simp: gm_left_def sigma_ans_def)
  qed
qed

lemma gm_set_state_run:
  assumes "gm_ok t sigma both ans ok at x"
  shows "\<exists>y. gm_set_state M x s = Some y \<and> gm_at t sigma both ans ok at s y"
proof (cases "gm_state x = Some s")
  case False
  obtain m where m: "mo_set_state M (gm_matcher x) s = Some m" "at s m"
    using set_state_law [of "gm_matcher x" s] assms by (auto simp: gm_ok_def)
  show ?thesis
  proof (cases "sigma = no_label")
    case True
    then show ?thesis using False assms m at_ok by (auto simp: gm_set_state_def gm_at_def gm_ok_def)
  next
    case label: False
    obtain m1 where m1: "mo_find M m sigma = Some (m1, ans s sigma \<noteq> [])" "left s (ans s sigma) m1"
      using find_law [OF m(2) sigma_may] label by blast
    show ?thesis using False label assms m m1 left_at [OF m1(2)] at_ok
      by (auto simp: gm_set_state_def Let_def gm_at_def gm_ok_def)
  qed
qed (use assms in \<open>simp add: gm_set_state_def gm_at_def\<close>)

lemma gm_priority_run:
  assumes "gm_ok t sigma both ans ok at x"
  shows "\<exists>y. gm_priority M x s = Some (y, required ans prio sigma s) \<and> gm_ok t sigma both ans ok at y \<and>
    (gm_at t sigma both ans ok at s x \<longrightarrow> gm_at t sigma both ans ok at s y)"
proof (cases "sigma = no_label")
  case True
  obtain m where m: "mo_priority M (gm_matcher x) s = Some (m, prio s)" "ok m"
    using priority_law [of "gm_matcher x" s] assms by (auto simp: gm_ok_def)
  have "at s' m" if "at s' (gm_matcher x)" for s' using priority_stays [OF that m(1)] .
  then show ?thesis using True assms m by (auto simp: gm_priority_def required_def gm_ok_def gm_at_def)
next
  case label: False
  obtain y where y: "gm_set_state M x s = Some y" "gm_at t sigma both ans ok at s y" using gm_set_state_run [OF assms] by blast
  obtain m where "mo_priority M (gm_matcher y) s = Some (m, prio s)" "ok m" "at s m"
    using priority_law [of "gm_matcher y" s] y(2) by (auto simp: gm_at_def gm_ok_def)
  then show ?thesis using y assms label
    by (cases "ans s sigma = []") (auto simp: gm_priority_def Let_def required_def gm_at_def gm_ok_def)
qed

lemma gm_next_run:
  assumes "gm_left t sigma both ans ok at left s (a # as) x"
  shows "gm_value M x = Some a \<and> (\<exists>y. gm_next M x = Some y \<and> gm_left t sigma both ans ok at left s as y)"
proof -
  let ?g = "shown sigma (gm_sigma_match x) both t" and ?r = "gm_rest t sigma both ans s x"
  obtain cs where cs: "left s cs (gm_matcher x)" "a # as = map ?g cs @ ?r" "cs = [] \<longrightarrow> ?r = []"
    using assms by (auto simp: gm_left_def)
  then obtain b bs where bs: "left s (b # bs) (gm_matcher x)" "a = ?g b" "as = map ?g bs @ ?r"
    by (cases cs) auto
  obtain m where m: "mo_next M (gm_matcher x) = Some m" "left s bs m" using value_law [OF bs(1)] by blast
  have m_ok: "at s m" "ok m" using left_at [OF m(2)] at_ok by auto
  have x: "gm_at t sigma both ans ok at s x" "gm_sigma_label x = sigma" "gm_has_sigma x \<longleftrightarrow> sigma \<noteq> no_label \<and> ans s sigma \<noteq> []"
      "gm_rewrite_both x = both" "gm_match_type x = t"
    using assms by (auto simp: gm_left_def gm_at_def gm_ok_def)
  have v: "gm_value M x = Some a" using value_law [OF bs(1)] bs(2) x by (simp add: gm_value_def shown_def)
  show ?thesis
  proof (cases "bs = [] \<and> gm_has_sigma x \<and> gm_sigma_match x = no_label \<and> real_label (gm_match_label x)")
    case True
    obtain m' where m': "mo_find M m sigma = Some (m', ans s sigma \<noteq> [])" "left s (ans s sigma) m'"
      using find_law [OF m_ok(1) sigma_may] True x(3) by blast
    have m_ok': "at s m'" "ok m'" using left_at [OF m'(2)] at_ok by auto
    have r: "?r = map (\<lambda>a. rewrite a sigma (gm_match_label x) both t) (ans s sigma)"
      using True x(3) unfolding gm_rest_def stand_ins_def by simp
    have "as = map (\<lambda>a. rewrite a sigma (gm_match_label x) both t) (ans s sigma)"
      unfolding bs(3) r using True by simp
    note rest = this
    let ?y = "x\<lparr>gm_matcher := m', gm_sigma_match := gm_match_label x\<rparr>"
    have "gm_next M x = Some ?y" using True m(1) m'(1) x(2) done_law [OF m(2)] by (simp add: gm_next_def)
    moreover have "gm_at t sigma both ans ok at s ?y" using x(1) m_ok' by (simp add: gm_at_def gm_ok_def)
    moreover have "gm_rest t sigma both ans s ?y = []" using True by (simp add: gm_rest_def)
    ultimately show ?thesis using v True m'(2) unfolding rest by (auto simp: gm_left_def shown_map)
  next
    case False
    then have "gm_next M x = Some (x\<lparr>gm_matcher := m\<rparr>)"
      using m done_law [OF m(2)] by (auto simp: gm_next_def Let_def)
    moreover have "bs = [] \<longrightarrow> ?r = []" using False x(3) by (auto simp: gm_rest_def stand_ins_def)
    moreover have "gm_at t sigma both ans ok at s (x\<lparr>gm_matcher := m\<rparr>)"
      using x(1) m_ok by (simp add: gm_at_def gm_ok_def)
    moreover have "gm_rest t sigma both ans s (x\<lparr>gm_matcher := m\<rparr>) = ?r" by (simp add: gm_rest_def)
    ultimately show ?thesis using v m(2) unfolding gm_left_def bs(3) by auto
  qed
qed

end

sublocale sigma_over \<subseteq> sigma: answering "sigma_ops M" t "sigma_ans ans sigma both t" "but_implicit may sigma"
  "required ans prio sigma" "gm_ok t sigma both ans ok at" "gm_at t sigma both ans ok at" "gm_left t sigma both ans ok at left"
proof unfold_locales
  fix x :: "'b sigma_matcher" and s l
  show "gm_ok t sigma both ans ok at x \<Longrightarrow> mo_match_type (sigma_ops M) x = t" by (simp add: sigma_ops_def gm_ok_def)
  show "gm_at t sigma both ans ok at s x \<Longrightarrow> gm_ok t sigma both ans ok at x" by (simp add: gm_at_def)
  show "gm_at t sigma both ans ok at s x \<Longrightarrow> but_implicit may sigma s l \<Longrightarrow>
      \<exists>y. mo_find (sigma_ops M) x l = Some (y, sigma_ans ans sigma both t s l \<noteq> []) \<and>
        gm_left t sigma both ans ok at left s (sigma_ans ans sigma both t s l) y"
    using gm_find_run by (simp add: sigma_ops_def)
  show "gm_ok t sigma both ans ok at x \<Longrightarrow> \<exists>y. mo_priority (sigma_ops M) x s = Some (y, required ans prio sigma s) \<and>
      gm_ok t sigma both ans ok at y \<and> (gm_at t sigma both ans ok at s x \<longrightarrow> gm_at t sigma both ans ok at s y)"
    using gm_priority_run by (simp add: sigma_ops_def)
  show "gm_ok t sigma both ans ok at x \<Longrightarrow> \<exists>y. mo_set_state (sigma_ops M) x s = Some y \<and> gm_at t sigma both ans ok at s y"
    using gm_set_state_run by (simp add: sigma_ops_def)
next
  fix x :: "'b sigma_matcher" and s as
  assume left: "gm_left t sigma both ans ok at left s as x"
  then show "gm_at t sigma both ans ok at s x" by (simp add: gm_left_def)
  show "mo_done (sigma_ops M) x = Some (as = [])"
    using left done_law by (auto simp: sigma_ops_def gm_done_def gm_left_def)
next
  fix x :: "'b sigma_matcher" and s a as
  show "gm_left t sigma both ans ok at left s (a # as) x \<Longrightarrow> mo_value (sigma_ops M) x = Some a \<and>
      (\<exists>y. mo_next (sigma_ops M) x = Some y \<and> gm_left t sigma both ans ok at left s as y)"
    using gm_next_run by (simp add: sigma_ops_def)
qed

section \<open>Over the two matchers of a \<open>VectorFst\<close>\<close>

text \<open>Neither matcher moves when its priority is asked.\<close>

interpretation sorted_in: settled sorted_ops t "matches t f" "\<lambda>_ _. True" "\<lambda>s. int (vf_num_arcs f s)"
  "sm_ok t f" "sm_at t f" "sm_left t f"
  for t :: match_type and f :: "('w::{zero,one}, 'sym) vector_fst"
  by unfold_locales (simp add: sorted_ops_def)

interpretation hashed_in: settled hash_ops t "matches t f" "\<lambda>_ _. True" "\<lambda>s. int (vf_num_arcs f s)"
  "hm_ok t f" "hm_at t f" "hm_left t f"
  for t :: match_type and f :: "('w::{zero,one}, 'sym) vector_fst"
  by unfold_locales (simp add: hash_ops_def)

interpretation explicit_sorted: explicit_over sorted_ops t "matches t f" "\<lambda>_ _. True" "\<lambda>s. int (vf_num_arcs f s)"
  "sm_ok t f" "sm_at t f" "sm_left t f"
  for t :: match_type and f :: "('w::{zero,one}, 'sym) vector_fst"
  by unfold_locales

interpretation explicit_hashed: explicit_over hash_ops t "matches t f" "\<lambda>_ _. True" "\<lambda>s. int (vf_num_arcs f s)"
  "hm_ok t f" "hm_at t f" "hm_left t f"
  for t :: match_type and f :: "('w::{zero,one}, 'sym) vector_fst"
  by unfold_locales

interpretation rho_sorted: rho_over sorted_ops t "matches t f" "\<lambda>_ _. True" "\<lambda>s. int (vf_num_arcs f s)"
  "sm_ok t f" "sm_at t f" "sm_left t f" rho both
  for t :: match_type and f :: "('w::{zero,one}, 'sym) vector_fst" and rho :: label and both :: bool
  by unfold_locales simp

interpretation rho_hashed: rho_over hash_ops t "matches t f" "\<lambda>_ _. True" "\<lambda>s. int (vf_num_arcs f s)"
  "hm_ok t f" "hm_at t f" "hm_left t f" rho both
  for t :: match_type and f :: "('w::{zero,one}, 'sym) vector_fst" and rho :: label and both :: bool
  by unfold_locales simp

interpretation sigma_sorted: sigma_over sorted_ops t "matches t f" "\<lambda>_ _. True" "\<lambda>s. int (vf_num_arcs f s)"
  "sm_ok t f" "sm_at t f" "sm_left t f" sigma both
  for t :: match_type and f :: "('w::{zero,one}, 'sym) vector_fst" and sigma :: label and both :: bool
  by unfold_locales simp

interpretation sigma_hashed: sigma_over hash_ops t "matches t f" "\<lambda>_ _. True" "\<lambda>s. int (vf_num_arcs f s)"
  "hm_ok t f" "hm_at t f" "hm_left t f" sigma both
  for t :: match_type and f :: "('w::{zero,one}, 'sym) vector_fst" and sigma :: label and both :: bool
  by unfold_locales simp

text \<open>A wrapper may wrap a wrapper.\<close>

interpretation explicit_rho: explicit_over "rho_ops hash_ops" t "rho_ans (matches t f) rho both t"
  "but_implicit (\<lambda>_ _. True) rho" "required (matches t f) (\<lambda>s. int (vf_num_arcs f s)) rho"
  "rm_ok t rho both (matches t f) (hm_ok t f) (hm_at t f)" "rm_at t rho both (matches t f) (hm_ok t f) (hm_at t f)"
  "rm_left t rho both (matches t f) (hm_ok t f) (hm_at t f) (hm_left t f)"
  for t :: match_type and f :: "('w::{zero,one}, 'sym) vector_fst" and rho :: label and both :: bool
  by unfold_locales

lemma new_over_hash:
  assumes "t = MatchInput \<or> t = MatchOutput" "implicit \<noteq> epsilon" "rewrites_both is_member mode f = Some both"
  shows "\<exists>x. rm_new_with_options is_member hm_new f t implicit mode = Some (Inr x) \<and>
      rm_ok t implicit both (matches t f) (hm_ok t f) (hm_at t f) x"
    "\<exists>x. gm_new_with_options is_member hm_new f t implicit mode = Some (Inr x) \<and>
      gm_ok t implicit both (matches t f) (hm_ok t f) (hm_at t f) x"
proof -
  obtain m where m: "hm_new f t = Inr m" "hm_ok t f m" using new_matchers_ok(2) [OF assms(1)] by blast
  then show "\<exists>x. rm_new_with_options is_member hm_new f t implicit mode = Some (Inr x) \<and>
      rm_ok t implicit both (matches t f) (hm_ok t f) (hm_at t f) x"
    using assms by (auto simp: rm_new_with_options_def rm_ok_def)
  from m show "\<exists>x. gm_new_with_options is_member hm_new f t implicit mode = Some (Inr x) \<and>
      gm_ok t implicit both (matches t f) (hm_ok t f) (hm_at t f) x"
    using assms by (auto simp: gm_new_with_options_def gm_ok_def)
qed

text \<open>What the automatic mode asks for.\<close>

lemma rewrites_both_auto:
  assumes "checkable is_member f" "sound (vf_properties f) (vf_states f) (vf_start f)"
  shows "rewrites_both is_member RewriteAuto f = Some (is_acceptor (vf_states f))"
proof -
  obtain p g where p: "cached_properties is_member f K_ACCEPTOR True = Some (p, g)"
      "\<forall>i \<in> trinary. bit p i \<longleftrightarrow> bit K_ACCEPTOR i \<and> truth (vf_states f) (vf_start f) i"
    using cached_query [OF assms, of K_ACCEPTOR] by blast
  have "p AND K_ACCEPTOR \<noteq> 0 \<longleftrightarrow> bit p 16"
    by (auto simp: and_zero_iff bit_and_iff)
  also have "\<dots> \<longleftrightarrow> is_acceptor (vf_states f)" using p(2) by (simp add: trinary_upt truth_simps)
  finally show ?thesis using p(1) by (simp add: rewrites_both_def)
qed

text \<open>C15. A rho matcher answers a label with the arcs of the state that carry it, and only when there are none with
  the rho arcs of the state rewritten to it; a sigma matcher gives the sigma arcs rewritten to it after the arcs that
  carry it.  An arc that is rewritten carries the label on the matched side alone, or, when the mode says both, wherever
  it had the implicit label; its weight and its destination stay.  Neither does so for epsilon or \<open>no_label\<close>.  Both return for every label but the implicit one, and the
  answer of \<open>find\<close> says whether there are any.\<close>

theorem implicit_matchers_answer:
  fixes s :: state_id
  assumes "t = MatchInput \<or> t = MatchOutput" "implicit \<noteq> epsilon" "rewrites_both is_member mode f = Some both"
    "implicit = no_label \<or> l \<noteq> implicit"
  defines "own \<equiv> matches t f s l"
    and "stand_in \<equiv> (\<lambda>x. if x = implicit then l else x)"
  defines "invented \<equiv> (if implicit \<noteq> no_label \<and> l \<noteq> epsilon \<and> l \<noteq> no_label
      then map (\<lambda>a. if both then a\<lparr>ilabel := stand_in (ilabel a), olabel := stand_in (olabel a)\<rparr>
        else if t = MatchInput then a\<lparr>ilabel := l\<rparr> else a\<lparr>olabel := l\<rparr>) (matches t f s implicit) else [])"
  shows "(\<exists>x x1 x2 x3. rm_new_with_options is_member hm_new f t implicit mode = Some (Inr x) \<and>
      rm_set_state hash_ops x s = Some x1 \<and> rm_find hash_ops x1 l = Some (x2, own \<noteq> [] \<or> invented \<noteq> []) \<and>
      take_matches (rho_ops hash_ops) x2 [] = Some (x3, if own = [] then invented else own)) \<and>
    (\<exists>x x1 x2 x3. gm_new_with_options is_member hm_new f t implicit mode = Some (Inr x) \<and>
      gm_set_state hash_ops x s = Some x1 \<and> gm_find hash_ops x1 l = Some (x2, own \<noteq> [] \<or> invented \<noteq> []) \<and>
      take_matches (sigma_ops hash_ops) x2 [] = Some (x3, own @ invented))"
proof -
  have may: "but_implicit (\<lambda>_ _. True) implicit s l" using assms(4) by (simp add: but_implicit_def)
  have put: "(\<lambda>a. if both then a\<lparr>ilabel := stand_in (ilabel a), olabel := stand_in (olabel a)\<rparr>
        else if t = MatchInput then a\<lparr>ilabel := l\<rparr> else a\<lparr>olabel := l\<rparr>) = (\<lambda>a. rewrite a implicit l both t)"
    by (rule ext) (simp add: rewrite_def stand_in_def arc_new_def)
  have e: "invented = stand_ins (matches t f) implicit both t s l" by (simp only: invented_def stand_ins_def put)
  have r: "rho_ans (matches t f) implicit both t s l = (if own = [] then invented else own)"
    by (simp add: rho_ans_def own_def e)
  have g: "sigma_ans (matches t f) implicit both t s l = own @ invented" by (simp add: sigma_ans_def own_def e)
  obtain x where x: "rm_new_with_options is_member hm_new f t implicit mode = Some (Inr x)"
      "rm_ok t implicit both (matches t f) (hm_ok t f) (hm_at t f) x" using new_over_hash(1) [OF assms(1-3)] by blast
  obtain x1 where x1: "rm_set_state hash_ops x s = Some x1"
      "rm_at t implicit both (matches t f) (hm_ok t f) (hm_at t f) s x1"
    using rho_hashed.rho.set_state_law [OF x(2), of s] by (auto simp: rho_ops_def)
  obtain y where y: "gm_new_with_options is_member hm_new f t implicit mode = Some (Inr y)"
      "gm_ok t implicit both (matches t f) (hm_ok t f) (hm_at t f) y" using new_over_hash(2) [OF assms(1-3)] by blast
  obtain y1 where y1: "gm_set_state hash_ops y s = Some y1"
      "gm_at t implicit both (matches t f) (hm_ok t f) (hm_at t f) s y1"
    using sigma_hashed.sigma.set_state_law [OF y(2), of s] by (auto simp: sigma_ops_def)
  have "\<exists>x2 x3. rm_find hash_ops x1 l = Some (x2, own \<noteq> [] \<or> invented \<noteq> []) \<and>
      take_matches (rho_ops hash_ops) x2 [] = Some (x3, if own = [] then invented else own)"
    using rho_hashed.rho.find_and_take [OF x1(2) may] unfolding r by (auto simp: rho_ops_def split: if_splits)
  moreover have "\<exists>y2 y3. gm_find hash_ops y1 l = Some (y2, own \<noteq> [] \<or> invented \<noteq> []) \<and>
      take_matches (sigma_ops hash_ops) y2 [] = Some (y3, own @ invented)"
    using sigma_hashed.sigma.find_and_take [OF y1(2) may] unfolding g by (auto simp: sigma_ops_def)
  ultimately show ?thesis using x(1) x1(1) y(1) y1(1) by blast
qed

text \<open>Over a state with one ordinary arc and one rho arc.\<close>

definition rest_fst :: "(nat, unit) vector_fst" where
  "rest_fst = two_eps\<lparr>vf_states := [\<lparr>vs_final = 0, vs_arcs = [arc_new 1 1 1 0, arc_new 5 5 1 1],
     vs_niepsilons = 0, vs_noepsilons = 0\<rparr>]\<rparr>"

lemma rest_fst_arcs: "vf_arcs rest_fst s = (if s = 0 then [arc_new 1 1 1 0, arc_new 5 5 1 1] else [])"
  by (simp add: rest_fst_def vf_arcs_def vget_def)

theorem implicit_matchers_answer_witness:
  "(\<exists>x x1 x2 x3. rm_new_with_options (\<lambda>_. True) hm_new rest_fst MatchInput 5 RewriteNever = Some (Inr x) \<and>
     rm_set_state hash_ops x 0 = Some x1 \<and> rm_find hash_ops x1 9 = Some (x2, True) \<and>
     take_matches (rho_ops hash_ops) x2 [] = Some (x3, [arc_new 9 5 1 1])) \<and>
   (\<exists>x x1 x2 x3. gm_new_with_options (\<lambda>_. True) hm_new rest_fst MatchInput 5 RewriteNever = Some (Inr x) \<and>
     gm_set_state hash_ops x 0 = Some x1 \<and> gm_find hash_ops x1 1 = Some (x2, True) \<and>
     take_matches (sigma_ops hash_ops) x2 [] = Some (x3, [arc_new 1 1 1 0, arc_new 1 5 1 1]))"
proof -
  have m: "matches MatchInput rest_fst 0 9 = []" "matches MatchInput rest_fst 0 5 = [arc_new 5 5 1 1]"
      "matches MatchInput rest_fst 0 1 = [arc_new 1 1 1 0]"
    by (simp_all add: matches_def rest_fst_arcs extract_label_def epsilon_def no_label_def)
  have n: "rewrites_both (\<lambda>_. True) RewriteNever rest_fst = Some False" by (simp add: rewrites_both_def)
  show ?thesis
    using conjunct1 [OF implicit_matchers_answer [of MatchInput 5 _ _ rest_fst False 9 0, OF _ _ n]]
      conjunct2 [OF implicit_matchers_answer [of MatchInput 5 _ _ rest_fst False 1 0, OF _ _ n]]
    by (simp add: m epsilon_def no_label_def arc_new_def)
qed

text \<open>Over a matcher that rewrites labels the wrapper hides less than its documentation says: the arcs a rho matcher
  rewrote to the label that was asked for do not carry \<open>no_label\<close> on the matched side, so they still come.\<close>

lemma explicit_keeps_rewritten:
  assumes "t = MatchInput \<or> t = MatchOutput" "rho \<noteq> epsilon" "rho \<noteq> no_label"
    "l \<noteq> rho" "l \<noteq> epsilon" "l \<noteq> no_label" "matches t f s l = []"
  shows "\<exists>y x1 x2 x3. rm_new_with_options is_member hm_new f t rho RewriteNever = Some (Inr y) \<and>
      xm_set_state (rho_ops hash_ops) (xm_wrap y t) s = Some x1 \<and>
      xm_find (rho_ops hash_ops) x1 l = Some (x2, matches t f s rho \<noteq> []) \<and>
      take_matches (explicit_ops (rho_ops hash_ops)) x2 [] =
        Some (x3, map (\<lambda>a. rewrite a rho l False t) (matches t f s rho))"
proof -
  have n: "rewrites_both is_member RewriteNever f = Some False" by (simp add: rewrites_both_def)
  obtain y where y: "rm_new_with_options is_member hm_new f t rho RewriteNever = Some (Inr y)"
      "rm_ok t rho False (matches t f) (hm_ok t f) (hm_at t f) y" using new_over_hash(1) [OF assms(1,2) n] by blast
  have z: "xm_ok t (rm_ok t rho False (matches t f) (hm_ok t f) (hm_at t f)) (xm_wrap y t)"
    using y(2) by (simp add: xm_ok_def xm_wrap_def)
  obtain z1 where z1: "xm_set_state (rho_ops hash_ops) (xm_wrap y t) s = Some z1"
      "xm_ok t (rm_at t rho False (matches t f) (hm_ok t f) (hm_at t f) s) z1"
    using explicit_rho.explicit.set_state_law [OF z, of s] by (auto simp: explicit_ops_def)
  have may: "but_implicit (\<lambda>_ _. True) rho s l" using assms(4) by (simp add: but_implicit_def)
  have ans: "explicit t (rho_ans (matches t f) rho False t s l) = map (\<lambda>a. rewrite a rho l False t) (matches t f s rho)"
    using assms(3-7) by (auto simp: rho_ans_def stand_ins_def explicit_def filter_id_conv rewrite_def extract_label_def)
  have "\<exists>x2 x3. xm_find (rho_ops hash_ops) z1 l = Some (x2, matches t f s rho \<noteq> []) \<and>
      take_matches (explicit_ops (rho_ops hash_ops)) x2 [] = Some (x3, map (\<lambda>a. rewrite a rho l False t) (matches t f s rho))"
    using explicit_rho.explicit.find_and_take [OF z1(2) may] unfolding ans by (auto simp: explicit_ops_def)
  then show ?thesis using y(1) z1(1) by blast
qed

text \<open>Over a matcher that does not rewrite labels, a matcher that is explicit about the arcs of the FST gives, for any
  label but \<open>no_label\<close>, exactly the arcs of the state whose matched side carries it, in their order: the loop that
  stands for staying, which the matcher underneath puts before the epsilon arcs, does not come, and the answer of
  \<open>find\<close> does not count it.\<close>

theorem explicit_gives_only_arcs:
  assumes "t = MatchInput \<or> t = MatchOutput" "l \<noteq> no_label"
  shows "(sorted_by t f \<longrightarrow> (\<exists>x x1 x2 x3. xm_new sm_new f t = Inr x \<and> xm_set_state sorted_ops x s = Some x1 \<and>
      xm_find sorted_ops x1 l = Some (x2, \<exists>a \<in> set (vf_arcs f s). extract_label t a = l) \<and>
      take_matches (explicit_ops sorted_ops) x2 [] = Some (x3, filter (\<lambda>a. extract_label t a = l) (vf_arcs f s)))) \<and>
    (\<exists>x x1 x2 x3. xm_new hm_new f t = Inr x \<and> xm_set_state hash_ops x s = Some x1 \<and>
      xm_find hash_ops x1 l = Some (x2, \<exists>a \<in> set (vf_arcs f s). extract_label t a = l) \<and>
      take_matches (explicit_ops hash_ops) x2 [] = Some (x3, filter (\<lambda>a. extract_label t a = l) (vf_arcs f s)))"
proof -
  let ?as = "filter (\<lambda>a. extract_label t a = l) (vf_arcs f s)"
  have own: "explicit t (matches t f s l) = ?as"
    using assms by (auto simp: matches_def explicit_def loop_at_def new_loop_arc_def extract_label_def intro!: filter_cong)
  have any: "?as \<noteq> [] \<longleftrightarrow> (\<exists>a \<in> set (vf_arcs f s). extract_label t a = l)" by (simp add: filter_empty_conv)
  have "\<exists>x x1 x2 x3. xm_new sm_new f t = Inr x \<and> xm_set_state sorted_ops x s = Some x1 \<and>
      xm_find sorted_ops x1 l = Some (x2, ?as \<noteq> []) \<and> take_matches (explicit_ops sorted_ops) x2 [] = Some (x3, ?as)"
    if sorted: "sorted_by t f"
  proof -
    obtain m where m: "sm_new f t = Inr m" "sm_ok t f m" using new_matchers_ok(1) [OF assms(1) sorted] by blast
    have x: "xm_ok t (sm_ok t f) (xm_wrap m t)" using m(2) by (simp add: xm_ok_def xm_wrap_def)
    obtain x1 where x1: "xm_set_state sorted_ops (xm_wrap m t) s = Some x1" "xm_ok t (sm_at t f s) x1"
      using explicit_sorted.explicit.set_state_law [OF x, of s] by (auto simp: explicit_ops_def)
    then show ?thesis
      using explicit_sorted.explicit.find_and_take [OF x1(2) TrueI, of l] m(1) unfolding own by (auto simp: explicit_ops_def xm_new_def)
  qed
  moreover have "\<exists>x x1 x2 x3. xm_new hm_new f t = Inr x \<and> xm_set_state hash_ops x s = Some x1 \<and>
      xm_find hash_ops x1 l = Some (x2, ?as \<noteq> []) \<and> take_matches (explicit_ops hash_ops) x2 [] = Some (x3, ?as)"
  proof -
    obtain m where m: "hm_new f t = Inr m" "hm_ok t f m" using new_matchers_ok(2) [OF assms(1)] by blast
    have x: "xm_ok t (hm_ok t f) (xm_wrap m t)" using m(2) by (simp add: xm_ok_def xm_wrap_def)
    obtain x1 where x1: "xm_set_state hash_ops (xm_wrap m t) s = Some x1" "xm_ok t (hm_at t f s) x1"
      using explicit_hashed.explicit.set_state_law [OF x, of s] by (auto simp: explicit_ops_def)
    then show ?thesis
      using explicit_hashed.explicit.find_and_take [OF x1(2) TrueI, of l] m(1) unfolding own by (auto simp: explicit_ops_def xm_new_def)
  qed
  ultimately show ?thesis unfolding any by blast
qed

theorem explicit_gives_only_arcs_witness:
  "\<exists>x x1 x2 x3. xm_new hm_new rest_fst MatchInput = Inr x \<and> xm_set_state hash_ops x 0 = Some x1 \<and>
     xm_find hash_ops x1 5 = Some (x2, True) \<and> take_matches (explicit_ops hash_ops) x2 [] = Some (x3, [arc_new 5 5 1 1])"
  using conjunct2 [OF explicit_gives_only_arcs [of MatchInput 5 rest_fst 0]]
  by (simp add: rest_fst_arcs extract_label_def no_label_def)

end
