(* ===== verification/EpsilonMatchers.thy ===== *)
theory EpsilonMatchers
  imports WrappedMatchers
begin

text \<open>
  Two more wrappers of \<open>matcher.rs\<close>: \<open>MultiEpsMatcher\<close>, which treats a set of labels as epsilon, and
  \<open>PhiMatcher\<close>, which follows failure arcs until a state has the label that is asked for.
\<close>

section \<open>\<open>MultiEpsMatcher\<close>\<close>

text \<open>Two bits.\<close>

definition MULTI_EPS_LIST :: "32 word" where
  "MULTI_EPS_LIST = 0x01"

definition MULTI_EPS_LOOP :: "32 word" where
  "MULTI_EPS_LOOP = 0x02"

definition has_flag :: "32 word \<Rightarrow> 32 word \<Rightarrow> bool" where
  "has_flag flags b \<longleftrightarrow> flags AND b = b"

record 'm multi_eps_matcher =
  em_matcher :: 'm
  em_flags :: "32 word"
  em_labels :: "label list"
  em_index :: "nat option"
  em_current_loop :: bool
  em_loop_state :: "state_id option"
  em_done :: bool
  em_match_type :: match_type

text \<open>\<open>binary_search\<close> of a sorted slice: where the value is, or else where it belongs.\<close>

definition binary_search :: "label \<Rightarrow> label list \<Rightarrow> nat + nat" where
  "binary_search l ls =
     (let at = partition_point (\<lambda>x. x < l) ls in if at < length ls \<and> ls ! at = l then Inr at else Inl at)"

definition em_new_with_flags ::
  "(('w, 'sym) vector_fst \<Rightarrow> match_type \<Rightarrow> matcher_error + 'm) \<Rightarrow> ('w, 'sym) vector_fst \<Rightarrow> match_type \<Rightarrow> 32 word \<Rightarrow>
   matcher_error + 'm multi_eps_matcher" where
  "em_new_with_flags inner f t flags =
     (case inner f t of
        Inl e \<Rightarrow> Inl e
      | Inr m \<Rightarrow> Inr \<lparr>em_matcher = m, em_flags = flags, em_labels = [], em_index = None, em_current_loop = False,
          em_loop_state = None, em_done = True, em_match_type = t\<rparr>)"

definition em_new ::
  "(('w, 'sym) vector_fst \<Rightarrow> match_type \<Rightarrow> matcher_error + 'm) \<Rightarrow> ('w, 'sym) vector_fst \<Rightarrow> match_type \<Rightarrow>
   matcher_error + 'm multi_eps_matcher" where
  "em_new inner f t = em_new_with_flags inner f t (MULTI_EPS_LIST OR MULTI_EPS_LOOP)"

definition em_clone :: "'m multi_eps_matcher \<Rightarrow> 'm multi_eps_matcher" where
  "em_clone x = x\<lparr>em_index := None, em_current_loop := False, em_loop_state := None, em_done := True\<rparr>"

definition add_multi_eps_label :: "'m multi_eps_matcher \<Rightarrow> label \<Rightarrow> matcher_error + 'm multi_eps_matcher" where
  "add_multi_eps_label x l =
     (if l = epsilon
      then Inl (MatcherInvalidConfiguration ''MultiEpsMatcher'' ''epsilon is already a multi-epsilon label'')
      else case binary_search l (em_labels x) of
        Inl at \<Rightarrow> Inr (x\<lparr>em_labels := take at (em_labels x) @ l # drop at (em_labels x)\<rparr>)
      | Inr _ \<Rightarrow> Inr x)"

definition remove_multi_eps_label :: "'m multi_eps_matcher \<Rightarrow> label \<Rightarrow> 'm multi_eps_matcher" where
  "remove_multi_eps_label x l =
     (case binary_search l (em_labels x) of
        Inr at \<Rightarrow> x\<lparr>em_labels := take at (em_labels x) @ drop (at + 1) (em_labels x)\<rparr>
      | Inl _ \<Rightarrow> x)"

definition clear_multi_eps_labels :: "'m multi_eps_matcher \<Rightarrow> 'm multi_eps_matcher" where
  "clear_multi_eps_labels x = x\<lparr>em_labels := [], em_index := None\<rparr>"

text \<open>The walk along the labels still to be tried, the first of which has the given index.\<close>

fun seek_from ::
  "('w, 'm) matcher_ops \<Rightarrow> 'm multi_eps_matcher \<Rightarrow> nat \<Rightarrow> label list \<Rightarrow> ('m multi_eps_matcher \<times> bool) option" where
  "seek_from M x index [] = Some (x\<lparr>em_index := Some (length (em_labels x))\<rparr>, False)"
| "seek_from M x index (l # ls) = do {
     (m, b) \<leftarrow> mo_find M (em_matcher x) l;
     (if b then Some (x\<lparr>em_matcher := m, em_index := Some index\<rparr>, True)
      else seek_from M (x\<lparr>em_matcher := m\<rparr>) (index + 1) ls) }"

definition seek_multi_eps :: "('w, 'm) matcher_ops \<Rightarrow> 'm multi_eps_matcher \<Rightarrow> nat \<Rightarrow> ('m multi_eps_matcher \<times> bool) option" where
  "seek_multi_eps M x index = seek_from M x index (drop index (em_labels x))"

definition em_set_state :: "('w, 'm) matcher_ops \<Rightarrow> 'm multi_eps_matcher \<Rightarrow> state_id \<Rightarrow> 'm multi_eps_matcher option" where
  "em_set_state M x s = do {
     m \<leftarrow> mo_set_state M (em_matcher x) s;
     Some (x\<lparr>em_matcher := m, em_loop_state := Some s\<rparr>) }"

definition em_find_inner :: "('w, 'm) matcher_ops \<Rightarrow> 'm multi_eps_matcher \<Rightarrow> label \<Rightarrow> ('m multi_eps_matcher \<times> bool) option" where
  "em_find_inner M x l = do { (m, b) \<leftarrow> mo_find M (em_matcher x) l; Some (x\<lparr>em_matcher := m\<rparr>, b) }"

text \<open>\<open>seek || find\<close>: the labels from an index on, and then what the matcher underneath calls non-consuming.\<close>

definition seek_or_none :: "('w, 'm) matcher_ops \<Rightarrow> 'm multi_eps_matcher \<Rightarrow> nat \<Rightarrow> ('m multi_eps_matcher \<times> bool) option" where
  "seek_or_none M x i = do {
     (x, b) \<leftarrow> seek_multi_eps M x i;
     (if b then Some (x, True) else em_find_inner M x no_label) }"

definition em_find :: "('w, 'm) matcher_ops \<Rightarrow> 'm multi_eps_matcher \<Rightarrow> label \<Rightarrow> ('m multi_eps_matcher \<times> bool) option" where
  "em_find M x l = do {
     let x = x\<lparr>em_index := Some (length (em_labels x)), em_current_loop := False\<rparr>;
     (x, found) \<leftarrow>
       (if l = epsilon then em_find_inner M x epsilon
        else if l = no_label then
          (if has_flag (em_flags x) MULTI_EPS_LIST then seek_or_none M x 0 else em_find_inner M x no_label)
        else if has_flag (em_flags x) MULTI_EPS_LOOP \<and> \<not> isl (binary_search l (em_labels x))
          then Some (x\<lparr>em_current_loop := True\<rparr>, True)
        else em_find_inner M x l);
     Some (x\<lparr>em_done := \<not> found\<rparr>, found) }"

definition em_value :: "('w::one, 'm) matcher_ops \<Rightarrow> 'm multi_eps_matcher \<Rightarrow> 'w arc option" where
  "em_value M x =
     (if em_current_loop x then do { s \<leftarrow> em_loop_state x; Some (arc_new no_label no_label 1 s) }
      else mo_value M (em_matcher x))"

definition em_next :: "('w, 'm) matcher_ops \<Rightarrow> 'm multi_eps_matcher \<Rightarrow> 'm multi_eps_matcher option" where
  "em_next M x =
     (if em_current_loop x then Some (x\<lparr>em_done := True\<rparr>)
      else do {
        m \<leftarrow> mo_next M (em_matcher x);
        stop \<leftarrow> mo_done M m;
        let x = x\<lparr>em_matcher := m, em_done := stop\<rparr>;
        (if \<not> stop then Some x
         else case em_index x of
           None \<Rightarrow> Some x
         | Some index \<Rightarrow>
             if index \<ge> length (em_labels x) then Some x
             else do {
               (x, b) \<leftarrow> seek_multi_eps M x (index + 1);
               (if b then Some (x\<lparr>em_done := False\<rparr>)
                else do {
                  (x, b) \<leftarrow> em_find_inner M x no_label;
                  Some (x\<lparr>em_done := \<not> b\<rparr>) }) }) })"

definition em_priority :: "('w, 'm) matcher_ops \<Rightarrow> 'm multi_eps_matcher \<Rightarrow> state_id \<Rightarrow> ('m multi_eps_matcher \<times> int) option" where
  "em_priority M x s = do { (m, p) \<leftarrow> mo_priority M (em_matcher x) s; Some (x\<lparr>em_matcher := m\<rparr>, p) }"

definition multi_eps_ops :: "('w::one, 'm) matcher_ops \<Rightarrow> ('w, 'm multi_eps_matcher) matcher_ops" where
  "multi_eps_ops M = \<lparr>mo_match_type = em_match_type, mo_set_state = em_set_state M, mo_find = em_find M,
     mo_done = (\<lambda>x. Some (em_done x)), mo_value = em_value M, mo_next = em_next M, mo_priority = em_priority M\<rparr>"

text \<open>What it answers, from what the matcher underneath does.\<close>

definition multi_eps_ans ::
  "(state_id \<Rightarrow> label \<Rightarrow> 'w::one arc list) \<Rightarrow> 32 word \<Rightarrow> label list \<Rightarrow> state_id \<Rightarrow> label \<Rightarrow> 'w arc list" where
  "multi_eps_ans ans flags ls s l =
     (if l = epsilon then ans s epsilon
      else if l = no_label then
        (if has_flag flags MULTI_EPS_LIST then concat (map (ans s) ls) else []) @ ans s no_label
      else if has_flag flags MULTI_EPS_LOOP \<and> l \<in> set ls then [arc_new no_label no_label 1 s]
      else ans s l)"

lemma binary_search_sorted:
  assumes "sorted ls"
  shows "\<not> isl (binary_search l ls) \<longleftrightarrow> l \<in> set ls"
    "binary_search l ls = Inr at \<Longrightarrow> at < length ls \<and> ls ! at = l"
    "binary_search l ls = Inl at \<Longrightarrow> l \<notin> set ls \<and> sorted (take at ls @ l # drop at ls)"
proof -
  define A B where "A = takeWhile (\<lambda>x. x < l) ls" and "B = dropWhile (\<lambda>x. x < l) ls"
  have ls: "ls = A @ B" by (simp add: A_def B_def)
  have lo: "x < l" if "x \<in> set A" for x using that unfolding A_def by (rule set_takeWhileD [THEN conjunct2])
  have front: "B \<noteq> [] \<Longrightarrow> l \<le> hd B" using hd_dropWhile [of "\<lambda>x. x < l" ls] by (auto simp: B_def)
  have hi: "l \<le> x \<and> hd B \<le> x" if "x \<in> set B" for x
    using that front assms by (cases B) (auto simp: ls sorted_append)
  have run: "binary_search l ls = (if B \<noteq> [] \<and> hd B = l then Inr (length A) else Inl (length A))"
    unfolding binary_search_def partition_point_def A_def [symmetric] Let_def
    by (cases B) (simp_all add: ls nth_append)
  have mem: "l \<in> set ls \<longleftrightarrow> B \<noteq> [] \<and> hd B = l"
  proof
    assume "l \<in> set ls"
    then have B: "l \<in> set B" using lo [of l] unfolding ls by auto
    then have "B \<noteq> []" by auto
    then show "B \<noteq> [] \<and> hd B = l" using hi [OF B] front by auto
  qed (use hd_in_set [of B] in \<open>auto simp: ls\<close>)
  show "\<not> isl (binary_search l ls) \<longleftrightarrow> l \<in> set ls" unfolding run mem by simp
  show "binary_search l ls = Inr at \<Longrightarrow> at < length ls \<and> ls ! at = l"
    by (auto simp: binary_search_def Let_def split: if_splits)
  have "sorted (A @ l # B)" using assms lo hi unfolding ls by (fastforce simp: sorted_append intro: less_imp_le)
  then show "binary_search l ls = Inl at \<Longrightarrow> l \<notin> set ls \<and> sorted (take at ls @ l # drop at ls)"
    using mem unfolding run by (auto simp: ls split: if_splits)
qed

lemma multi_eps_labels_run:
  assumes "sorted (em_labels x)" "distinct (em_labels x)"
  shows "l \<noteq> epsilon \<Longrightarrow> \<exists>y. add_multi_eps_label x l = Inr y \<and> set (em_labels y) = insert l (set (em_labels x)) \<and>
      sorted (em_labels y) \<and> distinct (em_labels y) \<and> y = x\<lparr>em_labels := em_labels y\<rparr>"
    "set (em_labels (remove_multi_eps_label x l)) = set (em_labels x) - {l} \<and>
      sorted (em_labels (remove_multi_eps_label x l)) \<and> distinct (em_labels (remove_multi_eps_label x l))"
proof -
  note b = binary_search_sorted [OF assms(1)]
  show "\<exists>y. add_multi_eps_label x l = Inr y \<and> set (em_labels y) = insert l (set (em_labels x)) \<and>
      sorted (em_labels y) \<and> distinct (em_labels y) \<and> y = x\<lparr>em_labels := em_labels y\<rparr>" if "l \<noteq> epsilon"
  proof (cases "binary_search l (em_labels x)")
    case (Inl at)
    define A B where "A = take at (em_labels x)" and "B = drop at (em_labels x)"
    have e: "em_labels x = A @ B" by (simp add: A_def B_def)
    have "l \<notin> set (A @ B)" "sorted (A @ l # B)" using b(3) [OF Inl] by (simp_all add: e [symmetric] A_def [symmetric] B_def [symmetric])
    moreover have "add_multi_eps_label x l = Inr (x\<lparr>em_labels := A @ l # B\<rparr>)"
      using that by (simp add: add_multi_eps_label_def Inl A_def B_def)
    ultimately show ?thesis using assms(2) unfolding e by auto
  next
    case (Inr at)
    then have "l \<in> set (em_labels x)" using b(1) [of l] by simp
    then show ?thesis using that Inr assms by (auto simp: add_multi_eps_label_def insert_absorb)
  qed
  show "set (em_labels (remove_multi_eps_label x l)) = set (em_labels x) - {l} \<and>
      sorted (em_labels (remove_multi_eps_label x l)) \<and> distinct (em_labels (remove_multi_eps_label x l))"
  proof (cases "binary_search l (em_labels x)")
    case (Inl at)
    then show ?thesis using assms b(3) [OF Inl] by (auto simp: remove_multi_eps_label_def)
  next
    case (Inr at)
    define A B where "A = take at (em_labels x)" and "B = drop (Suc at) (em_labels x)"
    have e: "em_labels x = A @ l # B" using b(2) [OF Inr] unfolding A_def B_def by (metis id_take_nth_drop)
    have "remove_multi_eps_label x l = x\<lparr>em_labels := A @ B\<rparr>" by (simp add: remove_multi_eps_label_def Inr A_def B_def)
    then show ?thesis using assms unfolding e by (auto simp: sorted_append)
  qed
qed

definition em_ok :: "match_type \<Rightarrow> 32 word \<Rightarrow> label list \<Rightarrow> ('m \<Rightarrow> bool) \<Rightarrow> 'm multi_eps_matcher \<Rightarrow> bool" where
  "em_ok t flags ls ok x \<longleftrightarrow> ok (em_matcher x) \<and> em_match_type x = t \<and> em_flags x = flags \<and> em_labels x = ls \<and> sorted ls"

definition em_at ::
  "match_type \<Rightarrow> 32 word \<Rightarrow> label list \<Rightarrow> ('m \<Rightarrow> bool) \<Rightarrow> (state_id \<Rightarrow> 'm \<Rightarrow> bool) \<Rightarrow> state_id \<Rightarrow> 'm multi_eps_matcher \<Rightarrow> bool" where
  "em_at t flags ls ok at s x \<longleftrightarrow> em_ok t flags ls ok x \<and> at s (em_matcher x) \<and> em_loop_state x = Some s"

text \<open>What the labels not yet tried and the matcher underneath still have to give.\<close>

definition em_rest :: "(state_id \<Rightarrow> label \<Rightarrow> 'w arc list) \<Rightarrow> state_id \<Rightarrow> 'm multi_eps_matcher \<Rightarrow> 'w arc list" where
  "em_rest ans s x =
     (case em_index x of
        None \<Rightarrow> []
      | Some i \<Rightarrow> if i < length (em_labels x) then concat (map (ans s) (drop (i + 1) (em_labels x))) @ ans s no_label else [])"

definition em_left ::
  "match_type \<Rightarrow> 32 word \<Rightarrow> label list \<Rightarrow> (state_id \<Rightarrow> label \<Rightarrow> 'w::one arc list) \<Rightarrow> ('m \<Rightarrow> bool) \<Rightarrow> (state_id \<Rightarrow> 'm \<Rightarrow> bool) \<Rightarrow>
   (state_id \<Rightarrow> 'w arc list \<Rightarrow> 'm \<Rightarrow> bool) \<Rightarrow> state_id \<Rightarrow> 'w arc list \<Rightarrow> 'm multi_eps_matcher \<Rightarrow> bool" where
  "em_left t flags ls ans ok at left s as x \<longleftrightarrow> em_at t flags ls ok at s x \<and>
     (if em_current_loop x then as = (if em_done x then [] else [arc_new no_label no_label 1 s])
      else \<exists>bs. left s bs (em_matcher x) \<and> as = bs @ em_rest ans s x \<and> (em_done x \<longleftrightarrow> bs = []) \<and>
        (bs = [] \<longrightarrow> em_rest ans s x = []))"

locale multi_eps_over = answering M t ans may prio ok at left
  for M :: "('w::one, 'm) matcher_ops" and t :: match_type and ans :: "state_id \<Rightarrow> label \<Rightarrow> 'w arc list"
    and may :: "state_id \<Rightarrow> label \<Rightarrow> bool" and prio :: "state_id \<Rightarrow> int" and ok :: "'m \<Rightarrow> bool"
    and at :: "state_id \<Rightarrow> 'm \<Rightarrow> bool" and left :: "state_id \<Rightarrow> 'w arc list \<Rightarrow> 'm \<Rightarrow> bool" +
  fixes flags :: "32 word" and ls :: "label list"
  assumes multi_eps_may: "l \<in> insert no_label (set ls) \<Longrightarrow> may s l"
begin

lemma seek_from_run:
  assumes "em_at t flags ls ok at s x" "i + length ks = length ls" "ks = drop i ls"
  shows "\<exists>m j. seek_from M x i ks = Some (x\<lparr>em_matcher := m, em_index := Some j\<rparr>, concat (map (ans s) ks) \<noteq> []) \<and>
    at s m \<and> (concat (map (ans s) ks) \<noteq> [] \<longrightarrow>
      (\<exists>bs. bs \<noteq> [] \<and> left s bs m \<and> j < length ls \<and> concat (map (ans s) ks) = bs @ concat (map (ans s) (drop (j + 1) ls)))) \<and>
    (concat (map (ans s) ks) = [] \<longrightarrow> j = length ls)"
  using assms
proof (induction ks arbitrary: x i)
  case Nil
  then show ?case by (intro exI [of _ "em_matcher x"] exI [of _ "length ls"]) (auto simp: em_at_def em_ok_def)
next
  case (Cons k ks)
  have k: "k \<in> set ls" using Cons.prems(3) by (metis in_set_dropD list.set_intros(1))
  have i: "i < length ls" using Cons.prems(2) by simp
  then have i: "i < length ls" "ks = drop (Suc i) ls" using Cons.prems(3) by (simp_all add: Cons_nth_drop_Suc [symmetric])
  obtain m where m: "mo_find M (em_matcher x) k = Some (m, ans s k \<noteq> [])" "left s (ans s k) m"
    using find_law [of s "em_matcher x" k] multi_eps_may k Cons.prems(1) by (auto simp: em_at_def)
  have m_ok: "at s m" "ok m" using left_at [OF m(2)] at_ok by auto
  show ?case
  proof (cases "ans s k = []")
    case True
    have "em_at t flags ls ok at s (x\<lparr>em_matcher := m\<rparr>)" using Cons.prems(1) m_ok by (simp add: em_at_def em_ok_def)
    from Cons.IH [OF this, of "Suc i"] show ?thesis using True m(1) i Cons.prems(2) by simp
  next
    case False
    then show ?thesis using m m_ok i by (intro exI [of _ m] exI [of _ i]) (auto intro!: exI [of _ "ans s k"])
  qed
qed

lemma em_find_inner_run:
  assumes "em_at t flags ls ok at s x" "may s l"
  shows "\<exists>m. em_find_inner M x l = Some (x\<lparr>em_matcher := m\<rparr>, ans s l \<noteq> []) \<and> left s (ans s l) m \<and> at s m \<and> ok m"
proof -
  have "at s (em_matcher x)" using assms(1) by (simp add: em_at_def)
  then obtain m where "mo_find M (em_matcher x) l = Some (m, ans s l \<noteq> [])" "left s (ans s l) m"
    using find_law assms(2) by blast
  then show ?thesis using left_at [of s "ans s l" m] at_ok by (auto simp: em_find_inner_def)
qed

text \<open>Once a search is over, the matcher stands at the arcs it found.\<close>

lemma em_leftI:
  assumes "em_at t flags ls ok at s x" "left s bs m" "em_index y = Some j"
    "y = x\<lparr>em_matcher := m, em_index := Some j, em_current_loop := False, em_done := (bs = [])\<rparr>"
    "bs = [] \<Longrightarrow> j \<ge> length ls"
  shows "em_left t flags ls ans ok at left s (bs @ em_rest ans s y) y"
proof -
  have "at s m" "ok m" using left_at [OF assms(2)] at_ok by auto
  then have "em_at t flags ls ok at s y" using assms(1) unfolding assms(4) by (simp add: em_at_def em_ok_def)
  moreover have "bs = [] \<Longrightarrow> em_rest ans s y = []"
    using assms(1,5) unfolding assms(4) by (simp add: em_rest_def em_at_def em_ok_def)
  ultimately show ?thesis using assms(2) unfolding em_left_def assms(4) by auto
qed

lemma seek_or_none_run:
  assumes "em_at t flags ls ok at s x" "i \<le> length ls"
  defines "as \<equiv> concat (map (ans s) (drop i ls)) @ ans s no_label"
  shows "\<exists>m j bs. seek_or_none M x i = Some (x\<lparr>em_matcher := m, em_index := Some j\<rparr>, as \<noteq> []) \<and> left s bs m \<and>
    (bs = [] \<longleftrightarrow> as = []) \<and> (bs = [] \<longrightarrow> j = length ls) \<and> j \<le> length ls \<and>
    as = bs @ (if j < length ls then concat (map (ans s) (drop (j + 1) ls)) @ ans s no_label else [])"
proof -
  let ?cs = "concat (map (ans s) (drop i ls))"
  have x: "em_labels x = ls" using assms(1) by (simp add: em_at_def em_ok_def)
  obtain m j where m: "seek_from M x i (drop i ls) = Some (x\<lparr>em_matcher := m, em_index := Some j\<rparr>, ?cs \<noteq> [])" "at s m"
      "?cs \<noteq> [] \<Longrightarrow> \<exists>bs. bs \<noteq> [] \<and> left s bs m \<and> j < length ls \<and> ?cs = bs @ concat (map (ans s) (drop (j + 1) ls))"
      "?cs = [] \<Longrightarrow> j = length ls"
    using seek_from_run [OF assms(1) _ refl, of i] assms(2) by auto
  show ?thesis
  proof (cases "?cs = []")
    case False
    then obtain bs where "bs \<noteq> []" "left s bs m" "j < length ls" "?cs = bs @ concat (map (ans s) (drop (j + 1) ls))"
      using m(3) by blast
    then show ?thesis using m(1) x unfolding seek_or_none_def seek_multi_eps_def as_def
      by (intro exI [of _ m] exI [of _ j] exI [of _ bs]) simp
  next
    case True
    let ?x = "x\<lparr>em_matcher := m, em_index := Some j\<rparr>"
    have "em_at t flags ls ok at s ?x" using assms(1) m(2) at_ok by (simp add: em_at_def em_ok_def)
    from em_find_inner_run [OF this multi_eps_may, of no_label] obtain m'
      where m': "em_find_inner M ?x no_label = Some (?x\<lparr>em_matcher := m'\<rparr>, ans s no_label \<noteq> [])"
        "left s (ans s no_label) m'" by blast
    then show ?thesis using m(1,4) x True unfolding seek_or_none_def seek_multi_eps_def as_def
      by (intro exI [of _ m'] exI [of _ j] exI [of _ "ans s no_label"]) simp
  qed
qed

lemma em_next_run:
  assumes "em_left t flags ls ans ok at left s (a # as) x"
  shows "em_value M x = Some a \<and> (\<exists>y. em_next M x = Some y \<and> em_left t flags ls ans ok at left s as y)"
proof (cases "em_current_loop x")
  case True
  then show ?thesis using assms
    by (auto simp: em_left_def em_value_def em_next_def em_at_def em_ok_def split: if_splits)
next
  case False
  obtain bs where left: "left s bs (em_matcher x)" "a # as = bs @ em_rest ans s x" "bs = [] \<longrightarrow> em_rest ans s x = []"
    and at: "em_at t flags ls ok at s x"
    using assms False by (auto simp: em_left_def)
  then obtain cs where bs: "bs = a # cs" "as = cs @ em_rest ans s x" by (cases bs) auto
  obtain m where m: "mo_next M (em_matcher x) = Some m" "left s cs m" and v: "mo_value M (em_matcher x) = Some a"
    using value_law left(1) bs(1) by blast
  have m_ok: "at s m" "ok m" using left_at [OF m(2)] at_ok by auto
  have stop: "mo_done M m = Some (cs = [])" using done_law [OF m(2)] .
  have x: "em_labels x = ls" using at by (simp add: em_at_def em_ok_def)
  have val: "em_value M x = Some a" using v False by (simp add: em_value_def)
  let ?x = "x\<lparr>em_matcher := m, em_done := (cs = [])\<rparr>"
  have at': "em_at t flags ls ok at s ?x" using at m_ok by (simp add: em_at_def em_ok_def)
  show ?thesis
  proof (cases "cs = [] \<and> (\<exists>i. em_index x = Some i \<and> i < length ls)")
    case stay: False
    have "em_rest ans s ?x = em_rest ans s x" by (simp add: em_rest_def split: option.split)
    moreover have "cs = [] \<Longrightarrow> em_rest ans s x = []" using stay x by (auto simp: em_rest_def split: option.split)
    ultimately have "em_left t flags ls ans ok at left s as ?x"
      using at' m(2) bs(2) False unfolding em_left_def by auto
    moreover have "em_next M x = Some ?x"
      using m(1) stop False stay x by (auto simp: em_next_def Let_def split: option.split)
    ultimately show ?thesis using val by blast
  next
    case True
    then obtain i where i: "em_index x = Some i" "i < length ls" by blast
    let ?as = "concat (map (ans s) (drop (i + 1) ls)) @ ans s no_label"
    obtain n j ds where n: "seek_or_none M ?x (i + 1) = Some (?x\<lparr>em_matcher := n, em_index := Some j\<rparr>, ?as \<noteq> [])"
        "left s ds n" "ds = [] \<longleftrightarrow> ?as = []" "ds = [] \<longrightarrow> j = length ls" "j \<le> length ls"
        "?as = ds @ (if j < length ls then concat (map (ans s) (drop (j + 1) ls)) @ ans s no_label else [])"
      using seek_or_none_run [OF at', of "i + 1"] i(2) by auto
    let ?y = "?x\<lparr>em_matcher := n, em_index := Some j, em_current_loop := False, em_done := (ds = [])\<rparr>"
    have "as = ?as" using bs(2) True i x by (simp add: em_rest_def)
    moreover have "em_rest ans s ?y = (if j < length ls then concat (map (ans s) (drop (j + 1) ls)) @ ans s no_label else [])"
      using x by (simp add: em_rest_def)
    ultimately have "as = ds @ em_rest ans s ?y" using n(6) by simp
    then have "em_left t flags ls ans ok at left s as ?y"
      using em_leftI [OF at' n(2), of ?y j] n(4) by simp
    moreover have "em_next M x = Some ?y"
      using m(1) stop False True i x n(1,3) unfolding em_next_def seek_or_none_def
      by (auto split: Option.bind_splits if_splits)
    ultimately show ?thesis using val by blast
  qed
qed

lemma em_find_run:
  assumes "em_at t flags ls ok at s x" "may s l"
  shows "\<exists>y. em_find M x l = Some (y, multi_eps_ans ans flags ls s l \<noteq> []) \<and>
    em_left t flags ls ans ok at left s (multi_eps_ans ans flags ls s l) y"
proof -
  let ?x = "x\<lparr>em_index := Some (length (em_labels x)), em_current_loop := False\<rparr>"
  have x: "em_labels x = ls" "em_flags x = flags" "sorted ls" using assms(1) by (simp_all add: em_at_def em_ok_def)
  have at: "em_at t flags ls ok at s ?x" using assms(1) by (simp add: em_at_def em_ok_def)
  have plain: "\<exists>y. em_find M x l = Some (y, ans s l \<noteq> []) \<and> em_left t flags ls ans ok at left s (ans s l) y"
    if inner: "em_find M x l = do { (x, found) \<leftarrow> em_find_inner M ?x l; Some (x\<lparr>em_done := \<not> found\<rparr>, found) }"
  proof -
    obtain m where m: "em_find_inner M ?x l = Some (?x\<lparr>em_matcher := m\<rparr>, ans s l \<noteq> [])" "left s (ans s l) m"
      using em_find_inner_run [OF at assms(2)] by blast
    let ?y = "x\<lparr>em_matcher := m, em_index := Some (length ls), em_current_loop := False, em_done := (ans s l = [])\<rparr>"
    have "em_rest ans s ?y = []" using x by (simp add: em_rest_def)
    then have "em_left t flags ls ans ok at left s (ans s l) ?y"
      using em_leftI [OF assms(1) m(2), of ?y "length ls"] by simp
    moreover have "em_find M x l = Some (?y, ans s l \<noteq> [])" using m(1) x unfolding inner by simp
    ultimately show ?thesis by blast
  qed
  consider (list) "l = no_label" "has_flag flags MULTI_EPS_LIST"
    | (loop) "l \<noteq> epsilon" "l \<noteq> no_label" "has_flag flags MULTI_EPS_LOOP" "l \<in> set ls"
    | (inner) "multi_eps_ans ans flags ls s l = ans s l"
        "em_find M x l = do { (x, found) \<leftarrow> em_find_inner M ?x l; Some (x\<lparr>em_done := \<not> found\<rparr>, found) }"
    using x binary_search_sorted(1) [OF x(3), of l]
    by (cases "l = epsilon"; cases "l = no_label"; cases "has_flag flags MULTI_EPS_LIST";
        cases "has_flag flags MULTI_EPS_LOOP \<and> l \<in> set ls") (auto simp: multi_eps_ans_def em_find_def Let_def)
  then show ?thesis
  proof cases
    case list
    let ?as = "concat (map (ans s) ls) @ ans s no_label"
    obtain n j ds where n: "seek_or_none M ?x 0 = Some (?x\<lparr>em_matcher := n, em_index := Some j\<rparr>, ?as \<noteq> [])"
        "left s ds n" "ds = [] \<longleftrightarrow> ?as = []" "ds = [] \<longrightarrow> j = length ls" "j \<le> length ls"
        "?as = ds @ (if j < length ls then concat (map (ans s) (drop (j + 1) ls)) @ ans s no_label else [])"
      using seek_or_none_run [OF at le0, unfolded drop_0] by blast
    let ?y = "?x\<lparr>em_matcher := n, em_index := Some j, em_current_loop := False, em_done := (ds = [])\<rparr>"
    have "em_rest ans s ?y = (if j < length ls then concat (map (ans s) (drop (j + 1) ls)) @ ans s no_label else [])"
      using x by (simp add: em_rest_def)
    then have as: "?as = ds @ em_rest ans s ?y" using n(6) by simp
    have "em_left t flags ls ans ok at left s ?as ?y" unfolding as using em_leftI [OF at n(2), of ?y j] n(4) by simp
    moreover have "em_find M x l = Some (?y, ?as \<noteq> [])"
      using list x n(1,3) by (simp add: em_find_def epsilon_def no_label_def)
    moreover have "multi_eps_ans ans flags ls s l = ?as" using list by (simp add: multi_eps_ans_def epsilon_def no_label_def)
    ultimately show ?thesis by auto
  next
    case loop
    then have "multi_eps_ans ans flags ls s l = [arc_new no_label no_label 1 s]" by (simp add: multi_eps_ans_def)
    moreover have "em_find M x l = Some (?x\<lparr>em_current_loop := True, em_done := False\<rparr>, True)"
      using loop x binary_search_sorted(1) [OF x(3), of l] by (simp add: em_find_def)
    moreover have "em_at t flags ls ok at s (?x\<lparr>em_current_loop := True, em_done := False\<rparr>)"
      using at by (simp add: em_at_def em_ok_def)
    ultimately show ?thesis by (simp add: em_left_def)
  next
    case inner
    then show ?thesis using plain [OF inner(2)] by simp
  qed
qed

end

sublocale multi_eps_over \<subseteq> multi_eps: answering "multi_eps_ops M" t "multi_eps_ans ans flags ls" may prio
  "em_ok t flags ls ok" "em_at t flags ls ok at" "em_left t flags ls ans ok at left"
proof unfold_locales
  fix x :: "'m multi_eps_matcher" and s l
  show "em_ok t flags ls ok x \<Longrightarrow> mo_match_type (multi_eps_ops M) x = t" by (simp add: multi_eps_ops_def em_ok_def)
  show "em_at t flags ls ok at s x \<Longrightarrow> em_ok t flags ls ok x" by (simp add: em_at_def)
  show "em_ok t flags ls ok x \<Longrightarrow> \<exists>y. mo_set_state (multi_eps_ops M) x s = Some y \<and> em_at t flags ls ok at s y"
    using set_state_law [of "em_matcher x" s] at_ok by (auto simp: multi_eps_ops_def em_set_state_def em_ok_def em_at_def)
  show "em_at t flags ls ok at s x \<Longrightarrow> may s l \<Longrightarrow>
      \<exists>y. mo_find (multi_eps_ops M) x l = Some (y, multi_eps_ans ans flags ls s l \<noteq> []) \<and>
        em_left t flags ls ans ok at left s (multi_eps_ans ans flags ls s l) y"
    using em_find_run by (simp add: multi_eps_ops_def)
  show "em_ok t flags ls ok x \<Longrightarrow> \<exists>y. mo_priority (multi_eps_ops M) x s = Some (y, prio s) \<and> em_ok t flags ls ok y \<and>
      (em_at t flags ls ok at s x \<longrightarrow> em_at t flags ls ok at s y)"
    using priority_law [of "em_matcher x" s] by (auto simp: multi_eps_ops_def em_priority_def em_ok_def em_at_def)
next
  fix x :: "'m multi_eps_matcher" and s as
  assume left: "em_left t flags ls ans ok at left s as x"
  then show "em_at t flags ls ok at s x" by (simp add: em_left_def)
  show "mo_done (multi_eps_ops M) x = Some (as = [])"
    using left by (auto simp: multi_eps_ops_def em_left_def split: if_splits)
next
  fix x :: "'m multi_eps_matcher" and s a as
  show "em_left t flags ls ans ok at left s (a # as) x \<Longrightarrow> mo_value (multi_eps_ops M) x = Some a \<and>
      (\<exists>y. mo_next (multi_eps_ops M) x = Some y \<and> em_left t flags ls ans ok at left s as y)"
    using em_next_run by (simp add: multi_eps_ops_def)
qed

section \<open>\<open>PhiMatcher\<close>\<close>

record ('w, 'm) phi_matcher =
  pm_matcher :: 'm
  pm_match_type :: match_type
  pm_phi_label :: label
  pm_phi_loop :: bool
  pm_rewrite_both :: bool
  pm_has_phi :: bool
  pm_phi_match :: label
  pm_state :: "state_id option"
  pm_phi_weight :: 'w
  pm_error :: bool

definition pm_new_with_options ::
  "('w::{zero,one} \<Rightarrow> bool) \<Rightarrow> (('w, 'sym) vector_fst \<Rightarrow> match_type \<Rightarrow> matcher_error + 'm) \<Rightarrow> ('w, 'sym) vector_fst \<Rightarrow>
   match_type \<Rightarrow> label \<Rightarrow> bool \<Rightarrow> rewrite_mode \<Rightarrow> (matcher_error + ('w, 'm) phi_matcher) option" where
  "pm_new_with_options is_member inner f t phi phi_loop mode =
     (case inner f t of
        Inl e \<Rightarrow> Some (Inl e)
      | Inr m \<Rightarrow> do {
          both \<leftarrow> rewrites_both is_member mode f;
          Some (Inr \<lparr>pm_matcher = m, pm_match_type = t, pm_phi_label = phi, pm_phi_loop = phi_loop,
            pm_rewrite_both = both, pm_has_phi = False, pm_phi_match = no_label, pm_state = None, pm_phi_weight = 1,
            pm_error = False\<rparr>) })"

definition pm_new ::
  "('w::{zero,one} \<Rightarrow> bool) \<Rightarrow> (('w, 'sym) vector_fst \<Rightarrow> match_type \<Rightarrow> matcher_error + 'm) \<Rightarrow> ('w, 'sym) vector_fst \<Rightarrow>
   match_type \<Rightarrow> (matcher_error + ('w, 'm) phi_matcher) option" where
  "pm_new is_member inner f t = pm_new_with_options is_member inner f t no_label True RewriteAuto"

definition pm_set_state :: "('w, 'm) matcher_ops \<Rightarrow> ('w, 'm) phi_matcher \<Rightarrow> state_id \<Rightarrow> ('w, 'm) phi_matcher option" where
  "pm_set_state M x s =
     (if pm_state x = Some s then Some x
      else do {
        m \<leftarrow> mo_set_state M (pm_matcher x) s;
        Some (x\<lparr>pm_matcher := m, pm_state := Some s, pm_has_phi := (pm_phi_label x \<noteq> no_label)\<rparr>) })"

text \<open>What the failure arcs of a state are found by.\<close>

definition search_phi :: "label \<Rightarrow> label" where
  "search_phi phi = (if phi = epsilon then no_label else phi)"

text \<open>The loop that follows them from the state \<open>s\<close>.\<close>

partial_function (option) follow_phi ::
  "('w::times, 'm) matcher_ops \<Rightarrow> ('w, 'm) phi_matcher \<Rightarrow> state_id \<Rightarrow> label \<Rightarrow> (('w, 'm) phi_matcher \<times> bool) option" where
  "follow_phi M x s l = do {
     (m, b) \<leftarrow> mo_find M (pm_matcher x) l;
     (if b then Some (x\<lparr>pm_matcher := m\<rparr>, True)
      else do {
        (m, b) \<leftarrow> mo_find M m (search_phi (pm_phi_label x));
        (if \<not> b then Some (x\<lparr>pm_matcher := m\<rparr>, False)
         else do {
           val \<leftarrow> mo_value M m;
           (if pm_phi_loop x \<and> nextstate val = s then Some (x\<lparr>pm_matcher := m, pm_phi_match := l\<rparr>, True)
            else do {
              m \<leftarrow> mo_next M m;
              stop \<leftarrow> mo_done M m;
              m \<leftarrow> mo_set_state M m (nextstate val);
              follow_phi M (x\<lparr>pm_matcher := m, pm_phi_weight := pm_phi_weight x * weight val,
                pm_error := (if stop then pm_error x else True)\<rparr>) (nextstate val) l }) }) }) }"

definition pm_find :: "('w::{one,times}, 'm) matcher_ops \<Rightarrow> ('w, 'm) phi_matcher \<Rightarrow> label \<Rightarrow> (('w, 'm) phi_matcher \<times> bool) option" where
  "pm_find M x l =
     (if l = pm_phi_label x \<and> pm_phi_label x \<noteq> no_label \<and> pm_phi_label x \<noteq> epsilon
      then Some (x\<lparr>pm_error := True\<rparr>, False)
      else do {
        s \<leftarrow> pm_state x;
        m \<leftarrow> mo_set_state M (pm_matcher x) s;
        let x = x\<lparr>pm_matcher := m, pm_phi_match := no_label, pm_phi_weight := 1\<rparr>;
        (if pm_phi_label x = epsilon \<and> l = no_label then Some (x, False)
         else if pm_phi_label x = epsilon \<and> l = epsilon then do {
           (m, b) \<leftarrow> mo_find M (pm_matcher x) no_label;
           (if \<not> b then do { (m, b) \<leftarrow> mo_find M m epsilon; Some (x\<lparr>pm_matcher := m\<rparr>, b) }
            else Some (x\<lparr>pm_matcher := m, pm_phi_match := epsilon\<rparr>, True)) }
         else if \<not> pm_has_phi x \<or> l = epsilon \<or> l = no_label then do {
           (m, b) \<leftarrow> mo_find M (pm_matcher x) l;
           Some (x\<lparr>pm_matcher := m\<rparr>, b) }
         else follow_phi M x s l) })"

definition pm_done :: "('w, 'm) matcher_ops \<Rightarrow> ('w, 'm) phi_matcher \<Rightarrow> bool option" where
  "pm_done M x = mo_done M (pm_matcher x)"

definition pm_value :: "('w::{one,times}, 'm) matcher_ops \<Rightarrow> ('w, 'm) phi_matcher \<Rightarrow> 'w arc option" where
  "pm_value M x =
     (if pm_phi_match x = no_label \<and> pm_phi_weight x = 1 then mo_value M (pm_matcher x)
      else if pm_phi_match x = epsilon then do {
        s \<leftarrow> pm_state x;
        Some (if pm_match_type x = MatchInput then arc_new no_label epsilon 1 s else arc_new epsilon no_label 1 s) }
      else do {
        a \<leftarrow> mo_value M (pm_matcher x);
        let w = pm_phi_weight x * weight a;
        let r = (if pm_phi_match x = no_label then a
          else rewrite a (pm_phi_label x) (pm_phi_match x) (pm_rewrite_both x) (pm_match_type x));
        Some (arc_new (ilabel r) (olabel r) w (nextstate r)) })"

definition pm_next :: "('w, 'm) matcher_ops \<Rightarrow> ('w, 'm) phi_matcher \<Rightarrow> ('w, 'm) phi_matcher option" where
  "pm_next M x = do { m \<leftarrow> mo_next M (pm_matcher x); Some (x\<lparr>pm_matcher := m\<rparr>) }"

definition pm_priority :: "('w, 'm) matcher_ops \<Rightarrow> ('w, 'm) phi_matcher \<Rightarrow> state_id \<Rightarrow> (('w, 'm) phi_matcher \<times> int) option" where
  "pm_priority M x s =
     (if pm_phi_label x \<noteq> no_label then do {
        m \<leftarrow> mo_set_state M (pm_matcher x) s;
        (m, has_phi) \<leftarrow> mo_find M m (search_phi (pm_phi_label x));
        (if has_phi then Some (x\<lparr>pm_matcher := m\<rparr>, REQUIRE_PRIORITY)
         else do { (m, p) \<leftarrow> mo_priority M m s; Some (x\<lparr>pm_matcher := m\<rparr>, p) }) }
      else do { (m, p) \<leftarrow> mo_priority M (pm_matcher x) s; Some (x\<lparr>pm_matcher := m\<rparr>, p) })"

definition phi_ops :: "('w::{one,times}, 'm) matcher_ops \<Rightarrow> ('w, ('w, 'm) phi_matcher) matcher_ops" where
  "phi_ops M = \<lparr>mo_match_type = pm_match_type, mo_set_state = pm_set_state M, mo_find = pm_find M,
     mo_done = pm_done M, mo_value = pm_value M, mo_next = pm_next M, mo_priority = pm_priority M\<rparr>"

text \<open>Where the failure arcs lead: the state that has the label, or has a failure arc to itself, or has neither, with
  the weight of the way there.  The first failure arc of a state is the one that is followed.\<close>

inductive falls ::
  "(state_id \<Rightarrow> label \<Rightarrow> 'w::times arc list) \<Rightarrow> label \<Rightarrow> bool \<Rightarrow> label \<Rightarrow> state_id \<Rightarrow> 'w \<Rightarrow> state_id \<Rightarrow> 'w \<Rightarrow> bool"
  for ans :: "state_id \<Rightarrow> label \<Rightarrow> 'w arc list" and phi :: label and phi_loop :: bool and l :: label where
  found: "ans s l \<noteq> [] \<Longrightarrow> falls ans phi phi_loop l s w s w"
| stuck: "ans s l = [] \<Longrightarrow> ans s (search_phi phi) = [] \<Longrightarrow> falls ans phi phi_loop l s w s w"
| loops: "ans s l = [] \<Longrightarrow> ans s (search_phi phi) = a # as \<Longrightarrow> phi_loop \<Longrightarrow> nextstate a = s \<Longrightarrow>
    falls ans phi phi_loop l s w s w"
| falls: "ans s l = [] \<Longrightarrow> ans s (search_phi phi) = a # as \<Longrightarrow> \<not> (phi_loop \<and> nextstate a = s) \<Longrightarrow>
    falls ans phi phi_loop l (nextstate a) (w * weight a) s' w' \<Longrightarrow> falls ans phi phi_loop l s w s' w'"

text \<open>Failure arcs that go down a measure, or to the state they leave where such loops are allowed, end.\<close>

lemma falls_ends:
  assumes "\<And>s a as. ans s l = [] \<Longrightarrow> ans s (search_phi phi) = a # as \<Longrightarrow>
      phi_loop \<and> nextstate a = s \<or> rank (nextstate a) < (rank s :: nat)"
  shows "\<exists>s' w'. falls ans phi phi_loop l s w s' w'"
proof (induction "rank s" arbitrary: s w rule: less_induct)
  case less
  show ?case
  proof (cases "ans s l = [] \<and> ans s (search_phi phi) \<noteq> []")
    case False
    then show ?thesis using falls.found [of ans s l phi phi_loop w] falls.stuck [of ans s l phi phi_loop w] by blast
  next
    case True
    then obtain a as where a: "ans s l = []" "ans s (search_phi phi) = a # as" by (auto simp: neq_Nil_conv)
    show ?thesis
    proof (cases "phi_loop \<and> nextstate a = s")
      case True
      then show ?thesis using falls.loops [of ans s l phi a as phi_loop w] a by blast
    next
      case False
      then show ?thesis using assms [OF a] less [of "nextstate a" "w * weight a"] falls.falls [of ans s l phi a as phi_loop w] a False by blast
    qed
  qed
qed

text \<open>The arcs of the state they lead to, as a caller sees them.\<close>

definition phi_arcs ::
  "(state_id \<Rightarrow> label \<Rightarrow> 'w::times arc list) \<Rightarrow> label \<Rightarrow> bool \<Rightarrow> match_type \<Rightarrow> label \<Rightarrow> state_id \<Rightarrow> 'w \<Rightarrow> 'w arc list" where
  "phi_arcs ans phi both t l s w =
     (let carry = (\<lambda>a. arc_new (ilabel a) (olabel a) (w * weight a) (nextstate a)) in
      if ans s l \<noteq> [] then map carry (ans s l)
      else map (\<lambda>a. carry (rewrite a phi l both t)) (ans s (search_phi phi)))"

definition pm_ok ::
  "match_type \<Rightarrow> label \<Rightarrow> bool \<Rightarrow> bool \<Rightarrow> ('m \<Rightarrow> bool) \<Rightarrow> ('w, 'm) phi_matcher \<Rightarrow> bool" where
  "pm_ok t phi phi_loop both ok x \<longleftrightarrow> ok (pm_matcher x) \<and> pm_match_type x = t \<and> pm_phi_label x = phi \<and>
     pm_phi_loop x = phi_loop \<and> pm_rewrite_both x = both \<and> (pm_state x \<noteq> None \<longrightarrow> (pm_has_phi x \<longleftrightarrow> phi \<noteq> no_label))"

definition pm_same :: "('w, 'm) phi_matcher \<Rightarrow> ('w, 'm) phi_matcher \<Rightarrow> bool" where
  "pm_same x y \<longleftrightarrow> pm_match_type y = pm_match_type x \<and> pm_phi_label y = pm_phi_label x \<and> pm_phi_loop y = pm_phi_loop x \<and>
     pm_rewrite_both y = pm_rewrite_both x \<and> pm_has_phi y = pm_has_phi x \<and> pm_state y = pm_state x"

definition pm_shown :: "('w::{one,times}, 'm) phi_matcher \<Rightarrow> 'w arc \<Rightarrow> 'w arc" where
  "pm_shown x a =
     (let r = shown (pm_phi_label x) (pm_phi_match x) (pm_rewrite_both x) (pm_match_type x) a
      in arc_new (ilabel r) (olabel r) (pm_phi_weight x * weight a) (nextstate r))"

locale phi_over = answering M t ans may prio ok at left
  for M :: "('w::monoid_mult, 'm) matcher_ops" and t :: match_type and ans :: "state_id \<Rightarrow> label \<Rightarrow> 'w arc list"
    and may :: "state_id \<Rightarrow> label \<Rightarrow> bool" and prio :: "state_id \<Rightarrow> int" and ok :: "'m \<Rightarrow> bool"
    and at :: "state_id \<Rightarrow> 'm \<Rightarrow> bool" and left :: "state_id \<Rightarrow> 'w arc list \<Rightarrow> 'm \<Rightarrow> bool" +
  fixes phi :: label and phi_loop both :: bool
  assumes phi_may: "may s l"
begin

lemma take_phi_run:
  assumes "left s bs (pm_matcher x)" "pm_phi_match x \<noteq> epsilon"
  shows "\<exists>z. take_matches (phi_ops M) x out = Some (z, out @ map (pm_shown x) bs)"
  using assms
proof (induction bs arbitrary: x out)
  case Nil
  then show ?case using done_law by (subst take_matches.simps) (simp add: phi_ops_def pm_done_def)
next
  case (Cons b bs)
  obtain m where m: "mo_next M (pm_matcher x) = Some m" "left s bs m" "mo_value M (pm_matcher x) = Some b"
    using value_law [OF Cons.prems(1)] by blast
  have "arc_new (ilabel b) (olabel b) (weight b) (nextstate b) = b" by (simp add: arc_new_def)
  then have v: "pm_value M x = Some (pm_shown x b)"
    using m(3) Cons.prems(2) by (auto simp: pm_value_def pm_shown_def shown_def Let_def)
  have "take_matches (phi_ops M) x out = take_matches (phi_ops M) (x\<lparr>pm_matcher := m\<rparr>) (out @ [pm_shown x b])"
    using done_law [OF Cons.prems(1)] v m(1)
    by (subst take_matches.simps) (simp add: phi_ops_def pm_done_def pm_next_def)
  moreover have "pm_shown (x\<lparr>pm_matcher := m\<rparr>) = pm_shown x" by (simp add: pm_shown_def fun_eq_iff)
  ultimately show ?case using Cons.IH [of "x\<lparr>pm_matcher := m\<rparr>" "out @ [pm_shown x b]"] m(2) Cons.prems(2) by simp
qed

lemma follow_phi_run:
  assumes "falls ans phi phi_loop l s w s' w'" "at s (pm_matcher x)" "pm_phi_label x = phi" "pm_phi_loop x = phi_loop"
    "pm_phi_weight x = w" "pm_phi_match x = no_label" "l \<noteq> no_label"
  shows "\<exists>y. follow_phi M x s l = Some (y, ans s' l \<noteq> [] \<or> ans s' (search_phi phi) \<noteq> []) \<and> pm_same x y \<and>
    pm_phi_weight y = w' \<and>
    (if ans s' l \<noteq> [] then left s' (ans s' l) (pm_matcher y) \<and> pm_phi_match y = no_label
     else left s' (ans s' (search_phi phi)) (pm_matcher y) \<and>
       pm_phi_match y = (if ans s' (search_phi phi) = [] then no_label else l))"
  using assms
proof (induction arbitrary: x rule: falls.induct)
  case (found s w)
  then obtain m where m: "mo_find M (pm_matcher x) l = Some (m, True)" "left s (ans s l) m"
    using find_law [OF found.prems(1) phi_may, of l] by auto
  then have "follow_phi M x s l = Some (x\<lparr>pm_matcher := m\<rparr>, True)" by (subst follow_phi.simps) simp
  then show ?case using found m(2) by (simp add: pm_same_def)
next
  case (stuck s w)
  obtain m where m: "mo_find M (pm_matcher x) l = Some (m, False)" "at s m"
    using find_law [OF stuck.prems(1) phi_may, of l] stuck.hyps(1) left_at by fastforce
  obtain n where n: "mo_find M m (search_phi phi) = Some (n, False)" "left s [] n"
    using find_law [OF m(2) phi_may, of "search_phi phi"] stuck.hyps(2) by auto
  have "follow_phi M x s l = Some (x\<lparr>pm_matcher := n\<rparr>, False)"
    using m(1) n(1) stuck.prems by (subst follow_phi.simps) simp
  then show ?case using stuck n(2) by (simp add: pm_same_def)
next
  case (loops s a as w)
  obtain m where m: "mo_find M (pm_matcher x) l = Some (m, False)" "at s m"
    using find_law [OF loops.prems(1) phi_may, of l] loops.hyps(1) left_at by fastforce
  obtain n where n: "mo_find M m (search_phi phi) = Some (n, True)" "left s (a # as) n"
    using find_law [OF m(2) phi_may, of "search_phi phi"] loops.hyps(2) by auto
  have "follow_phi M x s l = Some (x\<lparr>pm_matcher := n, pm_phi_match := l\<rparr>, True)"
    using m(1) n(1) value_law [OF n(2)] loops.prems loops.hyps by (subst follow_phi.simps) simp
  then show ?case using loops n(2) by (simp add: pm_same_def)
next
  case (falls s a as w s' w')
  obtain m where m: "mo_find M (pm_matcher x) l = Some (m, False)" "at s m"
    using find_law [OF falls.prems(1) phi_may, of l] falls.hyps(1) left_at by fastforce
  obtain n where n: "mo_find M m (search_phi phi) = Some (n, True)" "left s (a # as) n"
    using find_law [OF m(2) phi_may, of "search_phi phi"] falls.hyps(2) by auto
  obtain n1 where n1: "mo_value M n = Some a" "mo_next M n = Some n1" "left s as n1" using value_law [OF n(2)] by blast
  have "ok n1" using left_at [OF n1(3)] at_ok by blast
  then obtain n2 where n2: "mo_set_state M n1 (nextstate a) = Some n2" "at (nextstate a) n2" using set_state_law by blast
  let ?x = "x\<lparr>pm_matcher := n2, pm_phi_weight := pm_phi_weight x * weight a,
      pm_error := (if as = [] then pm_error x else True)\<rparr>"
  have "follow_phi M x s l = follow_phi M ?x (nextstate a) l"
    using m(1) n(1) n1(1,2) n2(1) done_law [OF n1(3)] falls.prems falls.hyps(3) by (subst follow_phi.simps) auto
  moreover have "pm_same ?x y \<longleftrightarrow> pm_same x y" for y by (simp add: pm_same_def)
  ultimately show ?case using falls.IH [of ?x] falls.prems n2(2) by simp
qed

lemma weight_rewrite: "weight (rewrite a i l b t') = weight a"
  by (simp add: rewrite_def arc_new_def)

lemma pm_find_run:
  assumes "pm_ok t phi phi_loop both ok x" "pm_state x = Some s" "real_label l" "phi \<noteq> no_label" "l \<noteq> phi"
    "falls ans phi phi_loop l s 1 s' w'"
  shows "\<exists>y z. pm_find M x l = Some (y, phi_arcs ans phi both t l s' w' \<noteq> []) \<and>
    take_matches (phi_ops M) y [] = Some (z, phi_arcs ans phi both t l s' w')"
proof -
  obtain m where m: "mo_set_state M (pm_matcher x) s = Some m" "at s m"
    using set_state_law [of "pm_matcher x" s] assms(1) by (auto simp: pm_ok_def)
  let ?x = "x\<lparr>pm_matcher := m, pm_phi_match := no_label, pm_phi_weight := 1\<rparr>"
  have x: "pm_phi_label x = phi" "pm_phi_loop x = phi_loop" "pm_has_phi x" "pm_rewrite_both x = both" "pm_match_type x = t"
    using assms(1,2,4) by (auto simp: pm_ok_def)
  obtain y where y: "follow_phi M ?x s l = Some (y, ans s' l \<noteq> [] \<or> ans s' (search_phi phi) \<noteq> [])" "pm_same ?x y"
      "pm_phi_weight y = w'"
      "if ans s' l \<noteq> [] then left s' (ans s' l) (pm_matcher y) \<and> pm_phi_match y = no_label
       else left s' (ans s' (search_phi phi)) (pm_matcher y) \<and>
         pm_phi_match y = (if ans s' (search_phi phi) = [] then no_label else l)"
    using follow_phi_run [OF assms(6), of ?x] m(2) x assms(3) by auto
  have same: "pm_phi_label y = phi" "pm_rewrite_both y = both" "pm_match_type y = t"
    using y(2) x by (simp_all add: pm_same_def)
  have run: "pm_find M x l = follow_phi M ?x s l"
    using assms(2-5) m(1) x by (simp add: pm_find_def)
  define bs where "bs = (if ans s' l \<noteq> [] then ans s' l else ans s' (search_phi phi))"
  have left: "left s' bs (pm_matcher y)" "pm_phi_match y \<noteq> epsilon"
    using y(4) assms(3) by (auto simp: bs_def epsilon_def no_label_def split: if_splits)
  have eq: "map (pm_shown y) bs = phi_arcs ans phi both t l s' w'"
    using y(3,4) same assms(3)
    by (auto simp: bs_def phi_arcs_def pm_shown_def shown_def weight_rewrite Let_def split: if_splits)
  have ne: "ans s' l \<noteq> [] \<or> ans s' (search_phi phi) \<noteq> [] \<longleftrightarrow> phi_arcs ans phi both t l s' w' \<noteq> []"
    unfolding eq [symmetric] by (simp add: bs_def)
  obtain z where "take_matches (phi_ops M) y [] = Some (z, phi_arcs ans phi both t l s' w')"
    using take_phi_run [OF left, of "[]"] unfolding eq by auto
  then show ?thesis using y(1) unfolding run ne by blast
qed

end

interpretation multi_eps_hashed: multi_eps_over hash_ops t "matches t f" "\<lambda>_ _. True" "\<lambda>s. int (vf_num_arcs f s)"
  "hm_ok t f" "hm_at t f" "hm_left t f" flags ls
  for t :: match_type and f :: "('w::{zero,one}, 'sym) vector_fst" and flags :: "32 word" and ls :: "label list"
  by unfold_locales simp

interpretation multi_eps_sorted: multi_eps_over sorted_ops t "matches t f" "\<lambda>_ _. True" "\<lambda>s. int (vf_num_arcs f s)"
  "sm_ok t f" "sm_at t f" "sm_left t f" flags ls
  for t :: match_type and f :: "('w::{zero,one}, 'sym) vector_fst" and flags :: "32 word" and ls :: "label list"
  by unfold_locales simp

interpretation phi_sorted: phi_over sorted_ops t "matches t f" "\<lambda>_ _. True" "\<lambda>s. int (vf_num_arcs f s)"
  "sm_ok t f" "sm_at t f" "sm_left t f" phi phi_loop both
  for t :: match_type and f :: "('w::{zero,monoid_mult}, 'sym) vector_fst" and phi :: label and phi_loop both :: bool
  by unfold_locales simp

text \<open>C25. A multi-epsilon matcher asked for everything that consumes nothing gives the arcs of each of its labels, in
  the order of the labels, and then the epsilon arcs; asked for one of its labels it gives one loop that neither reads
  nor writes; and otherwise what the matcher underneath gives.\<close>

theorem multi_eps_answers:
  fixes f :: "('w::{zero,one}, 'sym) vector_fst" and s :: state_id and l :: label
  assumes "t = MatchInput \<or> t = MatchOutput" "sorted ls"
  defines "m \<equiv> (if l = no_label then concat (map (matches t f s) ls) @ matches t f s no_label
    else if l \<noteq> epsilon \<and> l \<in> set ls then [arc_new no_label no_label 1 s] else matches t f s l)"
  shows "\<exists>x x1 x2 x3. em_new hm_new f t = Inr x \<and> em_set_state hash_ops (x\<lparr>em_labels := ls\<rparr>) s = Some x1 \<and>
    em_find hash_ops x1 l = Some (x2, m \<noteq> []) \<and> take_matches (multi_eps_ops hash_ops) x2 [] = Some (x3, m)"
proof -
  let ?F = "MULTI_EPS_LIST OR MULTI_EPS_LOOP"
  obtain i where i: "hm_new f t = Inr i" "hm_ok t f i" using new_matchers_ok(2) [OF assms(1)] by blast
  then obtain x where x: "em_new hm_new f t = Inr x" "em_ok t ?F ls (hm_ok t f) (x\<lparr>em_labels := ls\<rparr>)"
    using assms(2) by (simp add: em_new_def em_new_with_flags_def em_ok_def)
  obtain x1 where x1: "em_set_state hash_ops (x\<lparr>em_labels := ls\<rparr>) s = Some x1" "em_at t ?F ls (hm_ok t f) (hm_at t f) s x1"
    using multi_eps_hashed.multi_eps.set_state_law [OF x(2), of s] by (auto simp: multi_eps_ops_def)
  have "has_flag ?F MULTI_EPS_LIST" "has_flag ?F MULTI_EPS_LOOP"
    by (simp_all add: has_flag_def MULTI_EPS_LIST_def MULTI_EPS_LOOP_def)
  then have "multi_eps_ans (matches t f) ?F ls s l = m"
    by (simp add: m_def multi_eps_ans_def epsilon_def no_label_def)
  then show ?thesis
    using x(1) x1(1) multi_eps_hashed.multi_eps.find_and_take [OF x1(2) TrueI, of l] by (fastforce simp: multi_eps_ops_def)
qed

text \<open>C16. A phi matcher asked for a label follows the failure arcs of the states that lack it, multiplies their weights
  up, and answers with the arcs of the first state that has the label, or with the arcs of a state that fails to itself
  rewritten to the label; it returns whenever the failure arcs, but for such loops, go down some measure.\<close>

theorem phi_follows_failures:
  fixes f :: "('w::{zero,monoid_mult}, 'sym) vector_fst" and rank :: "state_id \<Rightarrow> nat"
  assumes "t = MatchInput \<or> t = MatchOutput" "sorted_by t f" "rewrites_both is_member mode f = Some both"
    "phi \<noteq> no_label" "l \<noteq> epsilon" "l \<noteq> no_label" "l \<noteq> phi"
    and down: "\<And>s a as. matches t f s l = [] \<Longrightarrow> matches t f s (search_phi phi) = a # as \<Longrightarrow>
      phi_loop \<and> nextstate a = s \<or> rank (nextstate a) < rank s"
  shows "\<exists>x x1 x2 x3 s' w'. pm_new_with_options is_member sm_new f t phi phi_loop mode = Some (Inr x) \<and>
    pm_set_state sorted_ops x s = Some x1 \<and> falls (matches t f) phi phi_loop l s 1 s' w' \<and>
    pm_find sorted_ops x1 l = Some (x2, phi_arcs (matches t f) phi both t l s' w' \<noteq> []) \<and>
    take_matches (phi_ops sorted_ops) x2 [] = Some (x3, phi_arcs (matches t f) phi both t l s' w')"
proof -
  obtain i where i: "sm_new f t = Inr i" "sm_ok t f i" using new_matchers_ok(1) [OF assms(1,2)] by blast
  then obtain x where x: "pm_new_with_options is_member sm_new f t phi phi_loop mode = Some (Inr x)"
      "pm_ok t phi phi_loop both (sm_ok t f) x" "pm_state x = None" "pm_phi_label x = phi"
    using assms(3) by (auto simp: pm_new_with_options_def pm_ok_def)
  obtain m where "mo_set_state sorted_ops (pm_matcher x) s = Some m" "sm_at t f s m"
    using sorted.set_state_law [of t f "pm_matcher x" s] x(2) by (auto simp: pm_ok_def)
  then obtain x1 where x1: "pm_set_state sorted_ops x s = Some x1" "pm_ok t phi phi_loop both (sm_ok t f) x1" "pm_state x1 = Some s"
    using x sorted.at_ok by (auto simp: pm_set_state_def pm_ok_def)
  obtain s' w' where f: "falls (matches t f) phi phi_loop l s 1 s' w'"
    using falls_ends [of "matches t f" l phi phi_loop rank s 1] down by blast
  show ?thesis
    using x(1) x1(1) f phi_sorted.pm_find_run [OF x1(2,3) _ assms(4,7) f] assms(5,6) by blast
qed

text \<open>Asked for what consumes nothing with 5 a multi-epsilon label, and for 5 itself.\<close>

theorem multi_eps_answers_witness:
  "(\<exists>x x1 x2 x3. em_new hm_new rest_fst MatchInput = Inr x \<and> em_set_state hash_ops (x\<lparr>em_labels := [5]\<rparr>) 0 = Some x1 \<and>
     em_find hash_ops x1 no_label = Some (x2, True) \<and>
     take_matches (multi_eps_ops hash_ops) x2 [] = Some (x3, [arc_new 5 5 1 1])) \<and>
   (\<exists>x x1 x2 x3. em_new hm_new rest_fst MatchInput = Inr x \<and> em_set_state hash_ops (x\<lparr>em_labels := [5]\<rparr>) 0 = Some x1 \<and>
     em_find hash_ops x1 5 = Some (x2, True) \<and>
     take_matches (multi_eps_ops hash_ops) x2 [] = Some (x3, [arc_new no_label no_label 1 0]))"
proof -
  have m: "matches MatchInput rest_fst 0 5 = [arc_new 5 5 1 1]" "matches MatchInput rest_fst 0 (- 1) = []"
    by (simp_all add: matches_def rest_fst_arcs extract_label_def epsilon_def no_label_def)
  show ?thesis
    using multi_eps_answers [of MatchInput "[5]" rest_fst 0 no_label] multi_eps_answers [of MatchInput "[5]" rest_fst 0 5]
    by (simp add: m epsilon_def no_label_def)
qed

text \<open>State 0 fails to state 1 with weight 3; state 1 has the label with weight 2.\<close>

definition failing :: "(nat, unit) vector_fst" where
  "failing = two_eps\<lparr>vf_states :=
     [\<lparr>vs_final = 0, vs_arcs = [arc_new 5 5 3 1], vs_niepsilons = 0, vs_noepsilons = 0\<rparr>,
      \<lparr>vs_final = 1, vs_arcs = [arc_new 9 8 2 0], vs_niepsilons = 0, vs_noepsilons = 0\<rparr>]\<rparr>"

theorem phi_follows_failures_witness:
  "\<exists>x x1 x2 x3. pm_new_with_options (\<lambda>_. True) sm_new failing MatchInput 5 True RewriteNever = Some (Inr x) \<and>
     pm_set_state sorted_ops x 0 = Some x1 \<and> pm_find sorted_ops x1 9 = Some (x2, True) \<and>
     take_matches (phi_ops sorted_ops) x2 [] = Some (x3, [arc_new 9 8 6 0])"
proof -
  have arcs: "vf_arcs failing s = (if s = 0 then [arc_new 5 5 3 1] else if s = 1 then [arc_new 9 8 2 0] else [])" for s
    by (auto simp: failing_def vf_arcs_def vget_def less_Suc_eq nth_Cons')
  have m: "matches MatchInput failing s 9 = (if s = 1 then [arc_new 9 8 2 0] else [])"
      "matches MatchInput failing s (search_phi 5) = (if s = 0 then [arc_new 5 5 3 1] else [])" for s
    by (simp_all add: matches_def arcs extract_label_def epsilon_def no_label_def search_phi_def)
  have sorted: "sorted_by MatchInput failing" by (simp add: sorted_by_def arcs)
  have never: "rewrites_both (\<lambda>_. True) RewriteNever failing = Some False" by (simp add: rewrites_both_def)
  have down: "True \<and> nextstate a = s \<or> 1 - nextstate a < 1 - s"
    if "matches MatchInput failing s 9 = []" "matches MatchInput failing s (search_phi 5) = a # as" for s a as
    using that unfolding m by (auto split: if_splits)
  let ?ans = "phi_arcs (matches MatchInput failing) 5 False MatchInput 9"
  have "\<exists>x x1 x2 x3 s' w'. pm_new_with_options (\<lambda>_. True) sm_new failing MatchInput 5 True RewriteNever = Some (Inr x) \<and>
      pm_set_state sorted_ops x 0 = Some x1 \<and> falls (matches MatchInput failing) 5 True 9 0 1 s' w' \<and>
      pm_find sorted_ops x1 9 = Some (x2, ?ans s' w' \<noteq> []) \<and> take_matches (phi_ops sorted_ops) x2 [] = Some (x3, ?ans s' w')"
    by (rule phi_follows_failures [where rank = "\<lambda>s. 1 - s"])
      (use sorted never down in \<open>simp_all add: epsilon_def no_label_def\<close>)
  then obtain x x1 x2 x3 s' w' where run:
      "pm_new_with_options (\<lambda>_. True) sm_new failing MatchInput 5 True RewriteNever = Some (Inr x)"
      "pm_set_state sorted_ops x 0 = Some x1" "falls (matches MatchInput failing) 5 True 9 0 1 s' w'"
      "pm_find sorted_ops x1 9 = Some (x2, ?ans s' w' \<noteq> [])" "take_matches (phi_ops sorted_ops) x2 [] = Some (x3, ?ans s' w')"
    by blast
  from run(3) have "falls (matches MatchInput failing) 5 True 9 1 3 s' w'"
    by (rule falls.cases) (auto simp: m)
  then have "s' = 1 \<and> w' = 3"
    by (rule falls.cases) (simp_all add: m)
  then show ?thesis using run by (auto simp: phi_arcs_def m)
qed

end
