(* ===== verification/ArcSort.thy ===== *)
theory ArcSort
  imports FstCalls TestProperties "HOL-Library.Product_Lexorder"
begin

text \<open>
  Sorting the arcs of every state, \<open>algorithms/arcsort.rs\<close>.  A comparison is a record of the trait's two methods;
  both comparisons order a pair of labels, so \<open>sort_by\<close>, which is stable, is the library's stable sort by that pair.
\<close>

section \<open>The code\<close>

record 'w arc_compare =
  ac_key :: "'w arc \<Rightarrow> label \<times> label"
  ac_properties :: "64 word \<Rightarrow> 64 word"

definition ilabel_compare :: "'w arc_compare" where
  "ilabel_compare = \<lparr>ac_key = (\<lambda>a. (ilabel a, olabel a)),
     ac_properties = (\<lambda>props. (props AND K_ARC_SORT_PROPERTIES) OR K_I_LABEL_SORTED OR
       (if props AND K_ACCEPTOR \<noteq> 0 then K_O_LABEL_SORTED else 0))\<rparr>"

definition olabel_compare :: "'w arc_compare" where
  "olabel_compare = \<lparr>ac_key = (\<lambda>a. (olabel a, ilabel a)),
     ac_properties = (\<lambda>props. (props AND K_ARC_SORT_PROPERTIES) OR K_O_LABEL_SORTED OR
       (if props AND K_ACCEPTOR \<noteq> 0 then K_I_LABEL_SORTED else 0))\<rparr>"

definition arc_sort_state :: "'w arc_compare \<Rightarrow> state_id \<Rightarrow> ('w, 'sym) vector_fst \<Rightarrow> ('w, 'sym) vector_fst" where
  "arc_sort_state c s f =
     write_arcs_mut f s (\<lambda>arcs. if length arcs < 2 then arcs else sort_key (ac_key c) arcs)"

definition arc_sort :: "('w, 'sym) vector_fst \<Rightarrow> 'w arc_compare \<Rightarrow> ('w, 'sym) vector_fst" where
  "arc_sort f c =
     (let props = ac_properties c (cache_get_masked (vf_properties f) K_FST_PROPERTIES);
          f = fold (arc_sort_state c) [0..<vf_num_states f] f
      in set_properties f props K_FST_PROPERTIES)"

section \<open>What sorting leaves\<close>

definition sorted_state :: "'w arc_compare \<Rightarrow> 'w vector_state \<Rightarrow> 'w vector_state" where
  "sorted_state c v = v\<lparr>vs_arcs := sort_key (ac_key c) (vs_arcs v)\<rparr>"

lemma arc_sort_state_run:
  "s < vf_num_states f \<Longrightarrow> arc_sort_state c s f = f\<lparr>vf_states := (vf_states f)[s := sorted_state c (vf_states f ! s)]\<rparr>"
proof -
  have "(if length arcs < 2 then arcs else sort_key k arcs) = sort_key k arcs" for k :: "'a arc \<Rightarrow> label \<times> label" and arcs
    by (cases arcs rule: list.exhaust, simp, case_tac x22) (simp_all add: insort_key.simps)
  then show "s < vf_num_states f \<Longrightarrow> ?thesis"
    by (simp add: arc_sort_state_def write_arcs_mut_def sorted_state_def vf_num_states_def)
qed

lemma arc_sort_loop:
  "n \<le> vf_num_states f \<Longrightarrow> fold (arc_sort_state c) [0..<n] f =
     f\<lparr>vf_states := map (sorted_state c) (take n (vf_states f)) @ drop n (vf_states f)\<rparr>"
proof (induction n)
  case (Suc n)
  let ?ss = "map (sorted_state c) (take n (vf_states f)) @ drop n (vf_states f)"
  have n: "n < length (vf_states f)" using Suc.prems by (simp add: vf_num_states_def)
  have "?ss ! n = vf_states f ! n" using n by (simp add: nth_append)
  moreover have "?ss[n := sorted_state c (vf_states f ! n)] =
      map (sorted_state c) (take (Suc n) (vf_states f)) @ drop (Suc n) (vf_states f)"
    using n by (simp add: list_update_append take_Suc_conv_app_nth Cons_nth_drop_Suc [symmetric])
  ultimately show ?case using Suc n by (simp add: arc_sort_state_run vf_num_states_def)
qed simp

lemma arc_sort_run:
  "arc_sort f c = set_properties (f\<lparr>vf_states := map (sorted_state c) (vf_states f)\<rparr>)
     (ac_properties c (vf_properties f AND K_FST_PROPERTIES)) K_FST_PROPERTIES"
  using arc_sort_loop [of "vf_num_states f" f c] by (simp add: arc_sort_def Let_def vf_num_states_def cache_get_masked_def)

text \<open>The same arcs in another order.\<close>

definition rearranged :: "'w states \<Rightarrow> 'w states \<Rightarrow> bool" where
  "rearranged ss tt \<longleftrightarrow> length tt = length ss \<and>
     (\<forall>s < length ss. vs_final (tt ! s) = vs_final (ss ! s) \<and> mset (vs_arcs (tt ! s)) = mset (vs_arcs (ss ! s)))"

lemma rearranged_arcs: "rearranged ss tt \<Longrightarrow> mset (arcs_of tt s) = mset (arcs_of ss s)"
  by (cases "s < length ss") (auto simp: rearranged_def)

lemma rearranged_set: "rearranged ss tt \<Longrightarrow> set (arcs_of tt s) = set (arcs_of ss s)"
  using rearranged_arcs mset_eq_setD by blast

lemma rearranged_edges: "rearranged ss tt \<Longrightarrow> edges tt = edges ss"
  by (simp add: edges_def rearranged_set)

lemma rearranged_facts:
  assumes r: "rearranged ss tt"
  shows "is_acceptor tt = is_acceptor ss" "i_deterministic tt = i_deterministic ss" "o_deterministic tt = o_deterministic ss"
    "has_epsilons tt = has_epsilons ss" "has_iepsilons tt = has_iepsilons ss" "has_oepsilons tt = has_oepsilons ss"
    "is_weighted tt = is_weighted ss" "is_cyclic tt = is_cyclic ss" "is_initial_cyclic tt st = is_initial_cyclic ss st"
    "is_top_sorted tt = is_top_sorted ss" "is_accessible tt st = is_accessible ss st" "is_coaccessible tt = is_coaccessible ss"
    "is_string tt st = is_string ss st" "has_weighted_cycles tt = has_weighted_cycles ss"
proof -
  note e = rearranged_edges [OF r] and s = rearranged_set [OF r]
  have len: "length tt = length ss" "\<And>s. s < length ss \<Longrightarrow> vs_final (tt ! s) = vs_final (ss ! s)"
    using r by (simp_all add: rearranged_def)
  have n: "length (vs_arcs (tt ! s)) = length (vs_arcs (ss ! s))" if "s < length ss" for s
    using r that by (auto simp: rearranged_def dest: mset_eq_length)
  have d: "distinct (map g (arcs_of tt s)) = distinct (map g (arcs_of ss s))" for g :: "'a arc \<Rightarrow> label" and s
    using rearranged_arcs [OF r, of s] by (metis mset_eq_imp_distinct_iff mset_map)
  show "is_acceptor tt = is_acceptor ss" "has_epsilons tt = has_epsilons ss" "has_iepsilons tt = has_iepsilons ss"
    "has_oepsilons tt = has_oepsilons ss"
    by (simp_all add: is_acceptor_def has_epsilons_def has_iepsilons_def has_oepsilons_def all_arcs_def s)
  show "i_deterministic tt = i_deterministic ss" "o_deterministic tt = o_deterministic ss"
    by (simp_all add: i_deterministic_def o_deterministic_def each_state_def d)
  show "is_weighted tt = is_weighted ss" using len by (simp add: is_weighted_def all_arcs_def s)
  show "is_cyclic tt = is_cyclic ss" "is_initial_cyclic tt st = is_initial_cyclic ss st" "is_top_sorted tt = is_top_sorted ss"
    "is_accessible tt st = is_accessible ss st"
    by (simp_all add: is_cyclic_def is_initial_cyclic_def is_top_sorted_def is_accessible_def e len(1))
  show "is_coaccessible tt = is_coaccessible ss" by (simp add: is_coaccessible_def e len cong: conj_cong)
  show "is_string tt st = is_string ss st" using len n by (auto simp: is_string_def e)
  show "has_weighted_cycles tt = has_weighted_cycles ss" by (simp add: has_weighted_cycles_def e s)
qed

lemma rearranged_truth:
  assumes "rearranged ss tt" "i \<in> trinary" "i \<notin> {28, 29, 30, 31}"
  shows "truth tt st i = truth ss st i"
  using assms(2,3) unfolding trinary_upt
  by (auto simp: truth_simps rearranged_facts [OF assms(1)])

lemma sorted_rearranged: "rearranged ss (map (sorted_state c) ss)"
  by (simp add: rearranged_def sorted_state_def)

lemma sorted_state_arcs: "arcs_of (map (sorted_state c) ss) s = sort_key (ac_key c) (arcs_of ss s)"
  by (cases "s < length ss") (simp_all add: sorted_state_def)

lemma arc_sort_view:
  "vf_arcs (arc_sort f c) s = sort_key (ac_key c) (vf_arcs f s)" "vf_final_weight (arc_sort f c) s = vf_final_weight f s"
  "vf_start (arc_sort f c) = vf_start f" "vf_num_states (arc_sort f c) = vf_num_states f"
  "vf_isymbols (arc_sort f c) = vf_isymbols f" "vf_osymbols (arc_sort f c) = vf_osymbols f"
proof -
  show "vf_arcs (arc_sort f c) s = sort_key (ac_key c) (vf_arcs f s)"
    by (simp add: arc_sort_run vf_simps) (simp add: vf_arcs_of sorted_state_arcs)
  show "vf_final_weight (arc_sort f c) s = vf_final_weight f s"
    by (simp add: arc_sort_run vf_simps) (simp add: vf_final_weight_def vget_def sorted_state_def)
qed (simp_all add: arc_sort_run set_properties_def modify_properties_def vf_num_states_def)

section \<open>The result\<close>

lemma bit_arc_sort: "bit K_ARC_SORT_PROPERTIES i \<longleftrightarrow> i < 3 \<or> i \<in> trinary \<and> i \<notin> {28, 29, 30, 31}"
  by (auto simp: K_ARC_SORT_PROPERTIES_def bit_or_iff trinary_upt)

lemma key_sorted:
  "sorted (map (\<lambda>a. (g a, h a :: int)) as) \<Longrightarrow> sorted (map g as :: int list)"
  by (induction as) auto

lemma ilabel_sorted: "i_label_sorted (map (sorted_state ilabel_compare) ss)"
  by (auto simp: i_label_sorted_def each_state_def sorted_state_arcs ilabel_compare_def intro: key_sorted sorted_sort_key)

lemma olabel_sorted: "o_label_sorted (map (sorted_state olabel_compare) ss)"
  by (auto simp: o_label_sorted_def each_state_def sorted_state_arcs olabel_compare_def intro: key_sorted sorted_sort_key)

lemma acceptor_sides:
  assumes "is_acceptor ss"
  shows "i_label_sorted ss \<longleftrightarrow> o_label_sorted ss"
proof -
  have "map ilabel (arcs_of ss s) = map olabel (arcs_of ss s)" for s
    using assms by (simp add: is_acceptor_def all_arcs_def cong: map_cong)
  then show ?thesis unfolding i_label_sorted_def o_label_sorted_def each_state_def by metis
qed

lemma sorted_bits_true:
  assumes s: "vf_sound f" and c: "c = ilabel_compare \<or> c = olabel_compare"
    and i: "i \<in> trinary" "bit (ac_properties c (vf_properties f AND K_FST_PROPERTIES)) i"
  shows "truth (map (sorted_state c) (vf_states f)) (vf_start f) i"
proof -
  let ?ss = "vf_states f" and ?tt = "map (sorted_state c) (vf_states f)"
  have old: "\<forall>i \<in> trinary. bit (vf_properties f) i \<longrightarrow> truth ?ss (vf_start f) i" using s by (simp add: vf_sound_def sound_iff)
  have acc: "is_acceptor ?tt" if "(vf_properties f AND K_FST_PROPERTIES) AND K_ACCEPTOR \<noteq> 0"
  proof -
    have "bit (vf_properties f) 16" using that by (auto simp: and_zero_iff bit_and_iff)
    then have "truth ?ss (vf_start f) 16" using old by (simp add: trinary_def)
    then show ?thesis using rearranged_facts(1) [OF sorted_rearranged [of ?ss c]] by (simp add: truth_simps)
  qed
  consider "bit K_ARC_SORT_PROPERTIES i" "bit (vf_properties f) i" |
      "c = ilabel_compare" "i = 28 \<or> i = 30 \<and> is_acceptor ?tt" |
      "c = olabel_compare" "i = 30 \<or> i = 28 \<and> is_acceptor ?tt"
    using c i(2) acc
    by (auto simp: ilabel_compare_def olabel_compare_def bit_or_iff bit_and_iff split: if_splits)
  then show ?thesis
  proof cases
    case 1
    then have "i \<notin> {28, 29, 30, 31}" using i(1) by (auto simp: bit_arc_sort trinary_def)
    then show ?thesis using old 1(2) i(1) rearranged_truth [OF sorted_rearranged [of ?ss c] i(1)] by simp
  next
    case 2
    then show ?thesis using ilabel_sorted [of ?ss] acceptor_sides [of ?tt] by (auto simp: truth_simps)
  next
    case 3
    then show ?thesis using olabel_sorted [of ?ss] acceptor_sides [of ?tt] by (auto simp: truth_simps)
  qed
qed

lemma arc_sort_sound: "vf_sound f \<Longrightarrow> c = ilabel_compare \<or> c = olabel_compare \<Longrightarrow> vf_sound (arc_sort f c)"
proof -
  assume f: "vf_sound f" and c: "c = ilabel_compare \<or> c = olabel_compare"
  let ?g = "f\<lparr>vf_states := map (sorted_state c) (vf_states f)\<rparr>" and ?p = "ac_properties c (vf_properties f AND K_FST_PROPERTIES)"
  have "bit K_FST_PROPERTIES i" if "i \<in> trinary" for i using that by (simp add: bit_fst_properties trinary_def)
  then have "bit ((vf_properties f AND (NOT K_FST_PROPERTIES OR K_ERROR)) OR (?p AND K_FST_PROPERTIES)) i \<longleftrightarrow> bit ?p i"
    if "i \<in> trinary" for i
    using that by (auto simp: bit_or_iff bit_and_iff bit_not_iff trinary_def)
  then have "\<forall>i \<in> trinary. bit (vf_properties (arc_sort f c)) i \<longrightarrow> truth (vf_states ?g) (vf_start f) i"
    using sorted_bits_true [OF f c] by (simp add: arc_sort_run set_properties_def modify_properties_def)
  then show ?thesis
    by (simp add: vf_sound_def sound_iff arc_sort_run set_properties_def modify_properties_def)
qed

lemma arc_sort_counts: "vf_counts f \<Longrightarrow> vf_counts (arc_sort f c)"
proof -
  assume f: "vf_counts f"
  have m: "length (filter P (sort_key k as)) = length (filter P as)" for P :: "'a arc \<Rightarrow> bool" and k :: "'a arc \<Rightarrow> label \<times> label" and as
    by (metis mset_eq_length mset_filter mset_sort)
  have "counts_ok (sorted_state c v)" if "counts_ok v" for v
    using that by (simp add: counts_ok_def sorted_state_def count_ieps_def count_oeps_def m)
  then show ?thesis
    using f by (simp add: vf_counts_def arc_sort_run set_properties_def modify_properties_def)
qed

text \<open>C21. Sorting puts the arcs of every state in order of the comparison, keeps them all, keeps the order of arcs
  that compare equal, changes nothing else of the FST, keeps its epsilon counters exact, and the property bits it
  writes are true of the sorted FST.\<close>

theorem arc_sort_correct:
  assumes "c = ilabel_compare \<or> c = olabel_compare" "vf_sound f" "vf_counts f"
  shows "vf_sound (arc_sort f c) \<and> vf_counts (arc_sort f c) \<and> vf_start (arc_sort f c) = vf_start f \<and>
    (\<forall>s. sorted (map (ac_key c) (vf_arcs (arc_sort f c) s)) \<and> mset (vf_arcs (arc_sort f c) s) = mset (vf_arcs f s) \<and>
       (\<forall>k. filter (\<lambda>a. ac_key c a = k) (vf_arcs (arc_sort f c) s) = filter (\<lambda>a. ac_key c a = k) (vf_arcs f s)) \<and>
       vf_final_weight (arc_sort f c) s = vf_final_weight f s)"
proof -
  have "filter (\<lambda>a. ac_key c a = k) (sort_key (ac_key c) as) = filter (\<lambda>a. ac_key c a = k) as" for k as
    by (rule sort_key_stable)
  then show ?thesis using arc_sort_sound [OF assms(2,1)] arc_sort_counts [OF assms(3)]
    unfolding arc_sort_view by simp
qed

definition two_arcs :: "(nat, unit) vector_fst" where
  "two_arcs = add_arc (add_arc (set_start (fst (add_state vf_new)) 0) 0 (arc_new 2 1 1 0)) 0 (arc_new 1 2 1 0)"

lemma two_arcs_built: "vf_built two_arcs"
proof -
  have "vf_built (fst (add_state vf_new) :: (nat, unit) vector_fst)"
    by (rule vf_built.call [OF vf_built.new vf_step.step [of AddState]]) simp_all
  then have "vf_built (set_start (fst (add_state vf_new)) 0 :: (nat, unit) vector_fst)"
    by (rule vf_built.call [OF _ vf_step.step [of "SetStart 0"]]) simp_all
  then have "vf_built (add_arc (set_start (fst (add_state vf_new)) 0) 0 (arc_new 2 1 1 0) :: (nat, unit) vector_fst)"
    by (rule vf_built.call [OF _ vf_step.step [of "AddArc 0 (arc_new 2 1 1 0)"]]) simp_all
  then show ?thesis unfolding two_arcs_def
    by (rule vf_built.call [OF _ vf_step.step [of "AddArc 0 (arc_new 1 2 1 0)"]]) simp_all
qed

theorem arc_sort_correct_witness:
  "vf_sound (arc_sort two_arcs ilabel_compare) \<and> vf_start (arc_sort two_arcs ilabel_compare) = Some 0 \<and>
    sorted (map (ac_key ilabel_compare) (vf_arcs (arc_sort two_arcs ilabel_compare) 0)) \<and>
    mset (vf_arcs (arc_sort two_arcs ilabel_compare) 0) = {# arc_new 2 1 1 0, arc_new 1 2 1 0 #}"
proof -
  have "vf_sound two_arcs" "vf_counts two_arcs" using built_inv [OF two_arcs_built] by (simp_all add: vf_inv_def)
  moreover have "vf_start two_arcs = Some 0" "vf_arcs two_arcs 0 = [arc_new 2 1 1 0, arc_new 1 2 1 0]"
    by (simp_all add: two_arcs_def vf_simps no_state_def)
  ultimately show ?thesis using arc_sort_correct [of ilabel_compare two_arcs] by simp
qed

end
