(* ===== verification/Compose.thy ===== *)
theory Compose
  imports WrappedMatchers StateTable ArcSort Condense
begin

text \<open>
  Composition, \<open>algorithms/compose.rs\<close>.  The filter is a record of the trait's operations and a value of its own;
  the two matchers the filter carries are kept beside it.  The error of a run is the left of a sum.
\<close>

section \<open>The code\<close>

record ('w, 'fl, 'fs) filter_ops =
  cf_start :: "'fl \<Rightarrow> 'fs"
  cf_set_state :: "'fl \<Rightarrow> state_id \<Rightarrow> state_id \<Rightarrow> 'fs \<Rightarrow> 'fl"
  cf_filter_arc :: "'fl \<Rightarrow> 'w arc \<Rightarrow> 'w arc \<Rightarrow> ('fs \<times> 'w arc \<times> 'w arc) option"
  cf_filter_final :: "'fl \<Rightarrow> 'w \<Rightarrow> 'w \<Rightarrow> 'w \<times> 'w"
  cf_properties :: "'fl \<Rightarrow> 64 word \<Rightarrow> 64 word"

definition sequence_ops :: "('w::{zero,one}, ('w, 'sym) sequence_filter, char_state) filter_ops" where
  "sequence_ops = \<lparr>cf_start = (\<lambda>_. STATE_DEFAULT), cf_set_state = sf_set_state,
     cf_filter_arc = (\<lambda>F a b. map_option (\<lambda>fs. (fs, a, b)) (sf_filter_arc F a b)),
     cf_filter_final = (\<lambda>_ w1 w2. (w1, w2)), cf_properties = (\<lambda>_ props. props)\<rparr>"

definition alt_sequence_ops :: "('w::{zero,one}, ('w, 'sym) alt_sequence_filter, char_state) filter_ops" where
  "alt_sequence_ops = \<lparr>cf_start = (\<lambda>_. STATE_DEFAULT), cf_set_state = af_set_state,
     cf_filter_arc = (\<lambda>F a b. map_option (\<lambda>fs. (fs, a, b)) (af_filter_arc F a b)),
     cf_filter_final = (\<lambda>_ w1 w2. (w1, w2)), cf_properties = (\<lambda>_ props. props)\<rparr>"

definition match_ops :: "('w::{zero,one}, ('w, 'sym) match_filter, char_state) filter_ops" where
  "match_ops = \<lparr>cf_start = (\<lambda>_. STATE_DEFAULT), cf_set_state = mf_set_state,
     cf_filter_arc = (\<lambda>F a b. map_option (\<lambda>fs. (fs, a, b)) (mf_filter_arc F a b)),
     cf_filter_final = (\<lambda>_ w1 w2. (w1, w2)), cf_properties = (\<lambda>_ props. props)\<rparr>"

definition match_types :: "match_type \<Rightarrow> match_type \<Rightarrow> fst_error + match_type" where
  "match_types t1 t2 =
     (let can_output = (t1 = MatchOutput \<or> t1 = MatchBoth); can_input = (t2 = MatchInput \<or> t2 = MatchBoth) in
      if can_output \<and> can_input then Inr MatchBoth
      else if can_output then Inr MatchOutput
      else if can_input then Inr MatchInput
      else Inl (InvalidOperation ''Compose: neither matcher can match the side composition needs''))"

definition find_all :: "('w, 'm) matcher_ops \<Rightarrow> 'm \<Rightarrow> label \<Rightarrow> ('m \<times> 'w arc list) option" where
  "find_all M m l = do {
     (m, b) \<leftarrow> mo_find M m l;
     (if \<not> b then Some (m, []) else take_matches M m []) }"

text \<open>The loop over what was found, one arc at a time.\<close>

definition match_found ::
  "'h hash_table_ops \<Rightarrow> ('fs compose_tuple \<Rightarrow> 64 word) \<Rightarrow> ('w::times, 'fl, 'fs) filter_ops \<Rightarrow> 'fl \<Rightarrow> 'w arc \<Rightarrow> bool \<Rightarrow>
   'w arc \<Rightarrow> ('fs, 'h) generic_table \<times> 'w arc list \<Rightarrow> (('fs, 'h) generic_table \<times> 'w arc list) option" where
  "match_found ops hash F fl arc match_input other = (\<lambda>(states, arcs).
     let (arc1, arc2) = (if match_input then (arc, other) else (other, arc)) in
     case cf_filter_arc F fl arc1 arc2 of
       None \<Rightarrow> Some (states, arcs)
     | Some (fs, arc1, arc2) \<Rightarrow> do {
         (states, nxt) \<leftarrow> gt_find_state ops hash states (tp_new (nextstate arc1) (nextstate arc2) fs);
         Some (states, arcs @ [arc_new (ilabel arc1) (olabel arc2) (weight arc1 * weight arc2) nxt]) })"

text \<open>\<open>match_arc\<close> with the matcher of the side that is searched.\<close>

definition match_arc ::
  "'h hash_table_ops \<Rightarrow> ('fs compose_tuple \<Rightarrow> 64 word) \<Rightarrow> ('w::times, 'fl, 'fs) filter_ops \<Rightarrow> 'fl \<Rightarrow> ('w, 'm) matcher_ops \<Rightarrow>
   bool \<Rightarrow> 'w arc \<Rightarrow> 'm \<times> ('fs, 'h) generic_table \<times> 'w arc list \<Rightarrow> ('m \<times> ('fs, 'h) generic_table \<times> 'w arc list) option" where
  "match_arc ops hash F fl M match_input arc = (\<lambda>(m, states, arcs). do {
     let l = (if match_input then olabel arc else ilabel arc);
     (m, found) \<leftarrow> find_all M m l;
     (states, arcs) \<leftarrow> ofold (match_found ops hash F fl arc match_input) found (states, arcs);
     Some (m, states, arcs) })"

record ('w, 'fl, 'm1, 'm2, 'fs, 'h, 'sym) composing =
  co_filter :: 'fl
  co_matcher1 :: 'm1
  co_matcher2 :: 'm2
  co_states :: "('fs, 'h) generic_table"
  co_pending :: "state_id list"
  co_done :: bit_set
  co_ofst :: "('w, 'sym) vector_fst"

text \<open>The states to visit are a stack; its top is at the end of the list.\<close>

definition add_found ::
  "state_id \<Rightarrow> 'w::{zero,one} arc \<Rightarrow> ('w, 'fl, 'm1, 'm2, 'fs, 'h, 'sym) composing \<Rightarrow> ('w, 'fl, 'm1, 'm2, 'fs, 'h, 'sym) composing option" where
  "add_found s arc C = do {
     (done, fresh) \<leftarrow> gbs_insert (co_done C) (nextstate arc);
     let C = C\<lparr>co_done := done\<rparr>;
     let C = (if fresh then C\<lparr>co_pending := co_pending C @ [nextstate arc]\<rparr> else C);
     Some (C\<lparr>co_ofst := add_arc (co_ofst C) s arc\<rparr>) }"

definition final_of_pair ::
  "('w::{zero,one,times}, 'fl, 'fs) filter_ops \<Rightarrow> ('w, 'sym) vector_fst \<Rightarrow> ('w, 'sym) vector_fst \<Rightarrow> state_id \<Rightarrow> 'fs compose_tuple \<Rightarrow>
   ('w, 'fl, 'm1, 'm2, 'fs, 'h, 'sym) composing \<Rightarrow> ('w, 'fl, 'm1, 'm2, 'fs, 'h, 'sym) composing" where
  "final_of_pair F fst1 fst2 s t C =
     (let s1 = state_id1 t; s2 = state_id2 t; final1 = vf_final_weight fst1 s1; final2 = vf_final_weight fst2 s2 in
      if final1 \<noteq> 0 \<and> final2 \<noteq> 0 then
        let fl = cf_set_state F (co_filter C) s1 s2 (tp_fs t);
            (final1, final2) = cf_filter_final F fl final1 final2;
            C = C\<lparr>co_filter := fl\<rparr>;
            w = final1 * final2
        in if w \<noteq> 0 then C\<lparr>co_ofst := set_final (co_ofst C) s w\<rparr> else C
      else C)"

text \<open>Which side the match is made on: on the second FST when the result is true.\<close>

definition choose_side ::
  "('w, 'm1) matcher_ops \<Rightarrow> ('w, 'm2) matcher_ops \<Rightarrow> match_type \<Rightarrow> state_id \<Rightarrow> state_id \<Rightarrow>
   ('w, 'fl, 'm1, 'm2, 'fs, 'h, 'sym) composing \<Rightarrow> (('w, 'fl, 'm1, 'm2, 'fs, 'h, 'sym) composing \<times> (fst_error + bool)) option" where
  "choose_side M1 M2 mt s1 s2 C =
     (if mt = MatchInput then Some (C, Inr True)
      else if mt = MatchOutput then Some (C, Inr False)
      else do {
        (m1, priority1) \<leftarrow> mo_priority M1 (co_matcher1 C) s1;
        (m2, priority2) \<leftarrow> mo_priority M2 (co_matcher2 C) s2;
        let C = C\<lparr>co_matcher1 := m1, co_matcher2 := m2\<rparr>;
        Some (C,
          if priority1 = REQUIRE_PRIORITY \<and> priority2 = REQUIRE_PRIORITY
            then Inl (InvalidOperation ''Compose: both sides require the match to be made on them'')
          else if priority1 = REQUIRE_PRIORITY then Inr False
          else if priority2 = REQUIRE_PRIORITY then Inr True
          else Inr (priority1 \<le> priority2)) })"

text \<open>The arcs of the pair, found by walking one side, with a loop in front that stands for taking nothing there.\<close>

definition walk ::
  "'h hash_table_ops \<Rightarrow> ('fs compose_tuple \<Rightarrow> 64 word) \<Rightarrow> ('w::{zero,one,times}, 'fl, 'fs) filter_ops \<Rightarrow>
   ('w, 'm1) matcher_ops \<Rightarrow> ('w, 'm2) matcher_ops \<Rightarrow> ('w, 'sym) vector_fst \<Rightarrow> ('w, 'sym) vector_fst \<Rightarrow> bool \<Rightarrow>
   state_id \<Rightarrow> state_id \<Rightarrow> ('w, 'fl, 'm1, 'm2, 'fs, 'h, 'sym) composing \<Rightarrow>
   (('w, 'fl, 'm1, 'm2, 'fs, 'h, 'sym) composing \<times> 'w arc list) option" where
  "walk ops hash F M1 M2 fst1 fst2 match_input s1 s2 C =
     (if match_input then do {
        m \<leftarrow> mo_set_state M2 (co_matcher2 C) s2;
        let walked = arc_new epsilon no_label 1 s1 # vf_arcs fst1 s1;
        (m, states, arcs) \<leftarrow> ofold (match_arc ops hash F (co_filter C) M2 True) walked (m, co_states C, []);
        Some (C\<lparr>co_matcher2 := m, co_states := states\<rparr>, arcs) }
      else do {
        m \<leftarrow> mo_set_state M1 (co_matcher1 C) s1;
        let walked = arc_new no_label epsilon 1 s2 # vf_arcs fst2 s2;
        (m, states, arcs) \<leftarrow> ofold (match_arc ops hash F (co_filter C) M1 False) walked (m, co_states C, []);
        Some (C\<lparr>co_matcher1 := m, co_states := states\<rparr>, arcs) })"

text \<open>One turn of the loop over the pending states, after \<open>state\<close> was popped.\<close>

definition compose_state ::
  "'h hash_table_ops \<Rightarrow> ('fs compose_tuple \<Rightarrow> 64 word) \<Rightarrow> ('w::{zero,one,times}, 'fl, 'fs) filter_ops \<Rightarrow>
   ('w, 'm1) matcher_ops \<Rightarrow> ('w, 'm2) matcher_ops \<Rightarrow> ('w, 'sym) vector_fst \<Rightarrow> ('w, 'sym) vector_fst \<Rightarrow> match_type \<Rightarrow> state_id \<Rightarrow>
   ('w, 'fl, 'm1, 'm2, 'fs, 'h, 'sym) composing \<Rightarrow> (('w, 'fl, 'm1, 'm2, 'fs, 'h, 'sym) composing \<times> (fst_error + unit)) option" where
  "compose_state ops hash F M1 M2 fst1 fst2 mt s C = do {
     t \<leftarrow> gt_tuple (co_states C) s;
     let s1 = state_id1 t; let s2 = state_id2 t;
     let C = final_of_pair F fst1 fst2 s t C;
     let C = C\<lparr>co_filter := cf_set_state F (co_filter C) s1 s2 (tp_fs t)\<rparr>;
     (C, side) \<leftarrow> choose_side M1 M2 mt s1 s2 C;
     (case side of
        Inl e \<Rightarrow> Some (C, Inl e)
      | Inr match_input \<Rightarrow> do {
          (C, arcs) \<leftarrow> walk ops hash F M1 M2 fst1 fst2 match_input s1 s2 C;
          let missing = [vf_num_states (co_ofst C)..<gt_size (co_states C)];
          let C = C\<lparr>co_ofst := fold (\<lambda>_ f. fst (add_state f)) missing (co_ofst C)\<rparr>;
          C \<leftarrow> ofold (add_found s) arcs C;
          Some (C, Inr ()) }) }"

partial_function (option) compose_loop ::
  "'h hash_table_ops \<Rightarrow> ('fs compose_tuple \<Rightarrow> 64 word) \<Rightarrow> ('w::{zero,one,times}, 'fl, 'fs) filter_ops \<Rightarrow>
   ('w, 'm1) matcher_ops \<Rightarrow> ('w, 'm2) matcher_ops \<Rightarrow> ('w, 'sym) vector_fst \<Rightarrow> ('w, 'sym) vector_fst \<Rightarrow> match_type \<Rightarrow>
   ('w, 'fl, 'm1, 'm2, 'fs, 'h, 'sym) composing \<Rightarrow> (('w, 'fl, 'm1, 'm2, 'fs, 'h, 'sym) composing \<times> (fst_error + unit)) option" where
  "compose_loop ops hash F M1 M2 fst1 fst2 mt C =
     (if co_pending C = [] then Some (C, Inr ())
      else do {
        (C, r) \<leftarrow> compose_state ops hash F M1 M2 fst1 fst2 mt (last (co_pending C)) (C\<lparr>co_pending := butlast (co_pending C)\<rparr>);
        (case r of Inl e \<Rightarrow> Some (C, Inl e) | Inr _ \<Rightarrow> compose_loop ops hash F M1 M2 fst1 fst2 mt C) })"

definition compose_with ::
  "'h hash_table_ops \<Rightarrow> ('fs compose_tuple \<Rightarrow> 64 word) \<Rightarrow> ('w::{zero,one,times}, 'fl, 'fs) filter_ops \<Rightarrow>
   ('w, 'm1) matcher_ops \<Rightarrow> ('w, 'm2) matcher_ops \<Rightarrow> ('w, 'sym) vector_fst \<Rightarrow> ('w, 'sym) vector_fst \<Rightarrow> ('w, 'sym) vector_fst \<Rightarrow>
   'fl \<Rightarrow> 'm1 \<Rightarrow> 'm2 \<Rightarrow> (('w, 'sym) vector_fst \<times> (fst_error + unit)) option" where
  "compose_with ops hash F M1 M2 fst1 fst2 ofst fl m1 m2 =
     (let ofst = delete_all_states ofst;
          ofst = set_input_symbols ofst (vf_isymbols fst1);
          ofst = set_output_symbols ofst (vf_osymbols fst2)
      in case match_types (mo_match_type M1 m1) (mo_match_type M2 m2) of
           Inl e \<Rightarrow> Some (ofst, Inl e)
         | Inr mt \<Rightarrow>
             let props = cf_properties F fl (compose_properties (cache_get_masked (vf_properties fst1) K_FST_PROPERTIES)
                   (cache_get_masked (vf_properties fst2) K_FST_PROPERTIES)) in
             case (vf_start fst1, vf_start fst2) of
               (Some start1, Some start2) \<Rightarrow> do {
                 (states, start) \<leftarrow> gt_find_state ops hash (gt_new ops) (tp_new start1 start2 (cf_start F fl));
                 let ofst = set_start (fst (add_state ofst)) start;
                 (done, _) \<leftarrow> gbs_insert gbs_new start;
                 (C, r) \<leftarrow> compose_loop ops hash F M1 M2 fst1 fst2 mt
                   \<lparr>co_filter = fl, co_matcher1 = m1, co_matcher2 = m2, co_states = states, co_pending = [start],
                    co_done = done, co_ofst = ofst\<rparr>;
                 (case r of
                    Inl e \<Rightarrow> Some (co_ofst C, Inl e)
                  | Inr _ \<Rightarrow> Some (set_properties (co_ofst C) props K_FST_PROPERTIES, Inr ())) }
             | _ \<Rightarrow> Some (set_properties ofst props K_FST_PROPERTIES, Inr ()))"

text \<open>A copy sorted the way a matcher needs; the query for the sort bit writes the cache of the copy.\<close>

definition copy_state :: "('w::{zero,one}, 'sym) vector_fst \<Rightarrow> state_id \<Rightarrow> ('w, 'sym) vector_fst \<Rightarrow> ('w, 'sym) vector_fst" where
  "copy_state f s copy = fold (\<lambda>a f. add_arc f s a) (vf_arcs f s) (set_final copy s (vf_final_weight f s))"

definition sorted_copy ::
  "('w::{zero,one} \<Rightarrow> bool) \<Rightarrow> ('w, 'sym) vector_fst \<Rightarrow> bool \<Rightarrow> ('w, 'sym) vector_fst option" where
  "sorted_copy is_member f by_output = do {
     let copy = add_states vf_new (vf_num_states f);
     let copy = set_output_symbols (set_input_symbols copy (vf_isymbols f)) (vf_osymbols f);
     let copy = (case vf_start f of Some s \<Rightarrow> set_start copy s | None \<Rightarrow> copy);
     let copy = fold (copy_state f) [0..<vf_num_states f] copy;
     let copy = set_properties copy (cache_get_masked (vf_properties f) K_FST_PROPERTIES) K_FST_PROPERTIES;
     let wanted = (if by_output then K_O_LABEL_SORTED else K_I_LABEL_SORTED);
     (p, copy) \<leftarrow> cached_properties is_member copy wanted True;
     Some (if p AND wanted = 0 then arc_sort copy (if by_output then olabel_compare else ilabel_compare) else copy) }"

text \<open>The errors of the two crates' modules are one type in the code.\<close>

datatype compose_error = MatcherError matcher_error | ComposeError fst_error

definition compose_options ::
  "'h hash_table_ops \<Rightarrow> (char_state compose_tuple \<Rightarrow> 64 word) \<Rightarrow> ('w::{zero,one,times} \<Rightarrow> bool) \<Rightarrow> ('w, 'sym) vector_fst \<Rightarrow>
   ('w, 'sym) vector_fst \<Rightarrow> ('w, 'sym) vector_fst \<Rightarrow> bool \<Rightarrow> (('w, 'sym) vector_fst \<times> (compose_error + unit)) option" where
  "compose_options ops hash is_member fst1 fst2 ofst connected = do {
     left \<leftarrow> sorted_copy is_member fst1 True;
     right \<leftarrow> sorted_copy is_member fst2 False;
     (case sm_new left MatchOutput of
        Inl e \<Rightarrow> Some (ofst, Inl (MatcherError e))
      | Inr m1 \<Rightarrow>
          (case sm_new right MatchInput of
             Inl e \<Rightarrow> Some (ofst, Inl (MatcherError e))
           | Inr m2 \<Rightarrow> do {
               (ofst, r) \<leftarrow> compose_with ops hash sequence_ops sorted_ops sorted_ops left right ofst (sf_new left) m1 m2;
               (case r of
                  Inl e \<Rightarrow> Some (ofst, Inl (ComposeError e))
                | Inr _ \<Rightarrow>
                    if connected then do { ofst \<leftarrow> connect is_member ofst; Some (ofst, Inr ()) }
                    else Some (ofst, Inr ())) })) }"

definition compose ::
  "'h hash_table_ops \<Rightarrow> (char_state compose_tuple \<Rightarrow> 64 word) \<Rightarrow> ('w::{zero,one,times} \<Rightarrow> bool) \<Rightarrow> ('w, 'sym) vector_fst \<Rightarrow>
   ('w, 'sym) vector_fst \<Rightarrow> ('w, 'sym) vector_fst \<Rightarrow> (('w, 'sym) vector_fst \<times> (compose_error + unit)) option" where
  "compose ops hash is_member fst1 fst2 ofst = compose_options ops hash is_member fst1 fst2 ofst True"

end
