(* ===== verification/ComposeLoop.thy ===== *)
theory ComposeLoop
  imports Compose
begin

text \<open>
  What the loop of \<open>compose_with\<close> builds: the part of the product of two FSTs and a filter that is reachable from the
  pair of start states, a state for each tuple the table numbers.
\<close>

section \<open>The product\<close>

text \<open>The pairs of arcs offered to the filter, in the order they are, when the match is made on the second FST or on
  the first.\<close>

definition pairs ::
  "('w::{zero,one}, 'sym) vector_fst \<Rightarrow> ('w, 'sym) vector_fst \<Rightarrow> bool \<Rightarrow> state_id \<Rightarrow> state_id \<Rightarrow> ('w arc \<times> 'w arc) list" where
  "pairs f1 f2 match_input s1 s2 =
     (if match_input
      then concat (map (\<lambda>a. map (\<lambda>b. (a, b)) (matches MatchInput f2 s2 (olabel a))) (loop1 s1 # vf_arcs f1 s1))
      else concat (map (\<lambda>b. map (\<lambda>a. (a, b)) (matches MatchOutput f1 s1 (ilabel b))) (loop2 s2 # vf_arcs f2 s2)))"

lemma loop_arcs: "loop_at (new_loop_arc MatchInput) s = loop2 s" "loop_at (new_loop_arc MatchOutput) s = loop1 s"
  by (simp_all add: loop_at_def new_loop_arc_def loop1_def loop2_def arc_new_def)

lemma pairs_offered:
  assumes "composable f1 f2"
  shows "set (pairs f1 f2 match_input s1 s2) = {m. offered f1 f2 s1 s2 m}"
proof -
  have lab: "olabel a \<noteq> no_label" if "a \<in> set (vf_arcs f1 s1)" for a
    using that assms by (auto simp: composable_def)
  have lab2: "ilabel a \<noteq> no_label" if "a \<in> set (vf_arcs f2 s2)" for a
    using that assms by (auto simp: composable_def)
  have e: "epsilon \<noteq> no_label" by (simp add: epsilon_def no_label_def)
  show ?thesis
    using lab lab2 e
    by (cases match_input; force simp: pairs_def matches_def loop_arcs extract_label_def offered_def split: if_splits)
qed

text \<open>What the filter makes of a pair: the labels and the weight of an arc, and the tuple it leads to.\<close>

type_synonym ('w, 'fs) product_arc = "(label \<times> label \<times> 'w) \<times> 'fs compose_tuple"

definition product_arc :: "('w arc \<Rightarrow> 'w arc \<Rightarrow> 'fs option) \<Rightarrow> 'w::times arc \<times> 'w arc \<Rightarrow> ('w, 'fs) product_arc option" where
  "product_arc d m = (case d (fst m) (snd m) of
     None \<Rightarrow> None
   | Some fs \<Rightarrow> Some ((ilabel (fst m), olabel (snd m), weight (fst m) * weight (snd m)),
       tp_new (nextstate (fst m)) (nextstate (snd m)) fs))"

definition product_arcs :: "('w arc \<Rightarrow> 'w arc \<Rightarrow> 'fs option) \<Rightarrow> ('w::times arc \<times> 'w arc) list \<Rightarrow> ('w, 'fs) product_arc list" where
  "product_arcs d ms = List.map_filter (product_arc d) ms"

text \<open>An arc of the result stands for an arc of the product, given the tuples in the order of their states.\<close>

definition stands_for :: "'fs compose_tuple list \<Rightarrow> 'w arc \<Rightarrow> ('w, 'fs) product_arc \<Rightarrow> bool" where
  "stands_for ts a x \<longleftrightarrow> (ilabel a, olabel a, weight a) = fst x \<and> nextstate a < length ts \<and> ts ! nextstate a = snd x"

lemma stands_for_append: "stands_for ts a x \<Longrightarrow> stands_for (ts @ us) a x"
  by (auto simp: stands_for_def nth_append)

lemma all_stand_append: "list_all2 (stands_for ts) as xs \<Longrightarrow> list_all2 (stands_for (ts @ us)) as xs"
  by (erule list_all2_mono) (rule stands_for_append)

text \<open>The tuples the product reaches.\<close>

inductive reached ::
  "('w::{zero,one,times}, 'sym) vector_fst \<Rightarrow> ('w, 'sym) vector_fst \<Rightarrow>
   (state_id \<Rightarrow> state_id \<Rightarrow> 'fs \<Rightarrow> 'w arc \<Rightarrow> 'w arc \<Rightarrow> 'fs option) \<Rightarrow> 'fs compose_tuple \<Rightarrow> 'fs compose_tuple \<Rightarrow> bool"
  for f1 f2 d t0 where
  start: "reached f1 f2 d t0 t0"
| step: "reached f1 f2 d t0 t \<Longrightarrow> offered f1 f2 (state_id1 t) (state_id2 t) m \<Longrightarrow>
    product_arc (d (state_id1 t) (state_id2 t) (tp_fs t)) m = Some x \<Longrightarrow> reached f1 f2 d t0 (snd x)"

definition pair_final :: "('w::{zero,one,times}, 'sym) vector_fst \<Rightarrow> ('w, 'sym) vector_fst \<Rightarrow> 'fs compose_tuple \<Rightarrow> 'w" where
  "pair_final f1 f2 t =
     (let w1 = vf_final_weight f1 (state_id1 t); w2 = vf_final_weight f2 (state_id2 t) in
      if w1 \<noteq> 0 \<and> w2 \<noteq> 0 then w1 * w2 else 0)"

text \<open>A state of the result is finished: its arcs stand for those of the product, one by one, and its final weight is
  that of the pair.\<close>

definition finished ::
  "('w::{zero,one,times}, 'sym) vector_fst \<Rightarrow> ('w, 'sym) vector_fst \<Rightarrow>
   (state_id \<Rightarrow> state_id \<Rightarrow> 'fs \<Rightarrow> 'w arc \<Rightarrow> 'w arc \<Rightarrow> 'fs option) \<Rightarrow> 'fs compose_tuple list \<Rightarrow> 'w arc list \<Rightarrow> 'w \<Rightarrow>
   'fs compose_tuple \<Rightarrow> bool" where
  "finished f1 f2 d ts as w t \<longleftrightarrow>
     (\<exists>mi. list_all2 (stands_for ts) as (product_arcs (d (state_id1 t) (state_id2 t) (tp_fs t))
        (pairs f1 f2 mi (state_id1 t) (state_id2 t)))) \<and>
     w = pair_final f1 f2 t"

lemma finished_append: "finished f1 f2 d ts as w t \<Longrightarrow> finished f1 f2 d (ts @ us) as w t"
  unfolding finished_def using all_stand_append by blast

section \<open>What the loop relies on\<close>

locale composition =
  m1: matcher M1 MatchOutput f1 ok1 at1 left1 + m2: matcher M2 MatchInput f2 ok2 at2 left2
  for M1 :: "('w::{zero,one,times}, 'm1) matcher_ops" and f1 :: "('w, 'sym) vector_fst" and ok1 at1 left1
    and M2 :: "('w, 'm2) matcher_ops" and f2 :: "('w, 'sym) vector_fst" and ok2 at2 left2 +
  fixes F :: "('w, 'fl, 'fs) filter_ops"
    and fl_ok :: "'fl \<Rightarrow> bool"
    and d :: "state_id \<Rightarrow> state_id \<Rightarrow> 'fs \<Rightarrow> 'w arc \<Rightarrow> 'w arc \<Rightarrow> 'fs option"
    and ops :: "'h hash_table_ops" and held :: "'h \<Rightarrow> (64 word \<times> nat) set"
    and hash :: "'fs compose_tuple \<Rightarrow> 64 word"
  assumes fits: "fl_ok fl \<Longrightarrow> composable f1 f2 \<and> vf_closed f1 \<and> vf_closed f2"
    and set_filter: "fl_ok fl \<Longrightarrow> fl_ok (cf_set_state F fl s1 s2 fs)"
    and ask_filter: "fl_ok fl \<Longrightarrow> s1 < vf_num_states f1 \<Longrightarrow> s2 < vf_num_states f2 \<Longrightarrow>
      cf_filter_arc F (cf_set_state F fl s1 s2 fs) a b = map_option (\<lambda>fs'. (fs', a, b)) (d s1 s2 fs a b)"
    and ask_final: "cf_filter_final F fl w1 w2 = (w1, w2)"
    and table_ok: "fl_ok fl \<Longrightarrow> hash_table_ok ops held"
begin

abbreviation "holds \<equiv> gt_holds ops held hash UNIV"

lemma match_found_run:
  assumes "holds T ts" "\<And>a b. cf_filter_arc F fl a b = map_option (\<lambda>fs'. (fs', a, b)) (d' a b)"
  shows "\<exists>T' us bs. ofold (match_found ops hash F fl arc mi) others (T, as) = Some (T', as @ bs) \<and> holds T' (ts @ us) \<and>
    list_all2 (stands_for (ts @ us)) bs (product_arcs d' (map (\<lambda>x. if mi then (arc, x) else (x, arc)) others)) \<and>
    set us \<subseteq> snd ` set (product_arcs d' (map (\<lambda>x. if mi then (arc, x) else (x, arc)) others))"
  using assms(1)
proof (induction others arbitrary: T ts as)
  case Nil
  then show ?case by (intro exI [of _ T] exI [of _ "[]"]) (simp add: product_arcs_def)
next
  case (Cons x xs)
  let ?m = "if mi then (arc, x) else (x, arc)"
  show ?case
  proof (cases "d' (fst ?m) (snd ?m)")
    case None
    have "match_found ops hash F fl arc mi x (T, as) = Some (T, as)"
      using None assms(2) by (simp add: match_found_def split_beta)
    moreover have "product_arc d' ?m = None" using None by (simp add: product_arc_def)
    ultimately show ?thesis using Cons.IH [OF Cons.prems, of as] by (simp add: product_arcs_def)
  next
    case (Some fs)
    let ?t = "tp_new (nextstate (fst ?m)) (nextstate (snd ?m)) fs"
    obtain T1 i vs where T1: "gt_find_state ops hash T ?t = Some (T1, i)" "holds T1 (ts @ vs)" "i < length (ts @ vs)"
        "(ts @ vs) ! i = ?t" "set vs \<subseteq> {?t}"
      using generic.find_state_run [OF Cons.prems UNIV_I, of ?t] by blast
    let ?b = "arc_new (ilabel (fst ?m)) (olabel (snd ?m)) (weight (fst ?m) * weight (snd ?m)) i"
    have step: "match_found ops hash F fl arc mi x (T, as) = Some (T1, as @ [?b])"
      using Some T1(1) assms(2) by (simp add: match_found_def split_beta)
    have pa: "product_arc d' ?m = Some ((ilabel (fst ?m), olabel (snd ?m), weight (fst ?m) * weight (snd ?m)), ?t)"
      using Some by (simp add: product_arc_def)
    have st: "stands_for (ts @ vs) ?b (the (product_arc d' ?m))"
      using T1(3,4) by (simp add: pa stands_for_def arc_new_def)
    obtain T2 us bs where T2: "ofold (match_found ops hash F fl arc mi) xs (T1, as @ [?b]) = Some (T2, (as @ [?b]) @ bs)"
        "holds T2 ((ts @ vs) @ us)"
        "list_all2 (stands_for ((ts @ vs) @ us)) bs (product_arcs d' (map (\<lambda>x. if mi then (arc, x) else (x, arc)) xs))"
        "set us \<subseteq> snd ` set (product_arcs d' (map (\<lambda>x. if mi then (arc, x) else (x, arc)) xs))"
      using Cons.IH [OF T1(2), of "as @ [?b]"] by blast
    let ?ps = "product_arcs d' (map (\<lambda>x. if mi then (arc, x) else (x, arc)) xs)"
    have all: "product_arcs d' (map (\<lambda>x. if mi then (arc, x) else (x, arc)) (x # xs)) = the (product_arc d' ?m) # ?ps"
      using pa by (simp add: product_arcs_def)
    show ?thesis
    proof (intro exI conjI)
      show "ofold (match_found ops hash F fl arc mi) (x # xs) (T, as) = Some (T2, as @ ?b # bs)"
        using step T2(1) by simp
      show "holds T2 (ts @ (vs @ us))" using T2(2) by simp
      show "list_all2 (stands_for (ts @ vs @ us)) (?b # bs) (product_arcs d' (map (\<lambda>x. if mi then (arc, x) else (x, arc)) (x # xs)))"
        unfolding all using T2(3) stands_for_append [OF st, of us] by simp
      show "set (vs @ us) \<subseteq> snd ` set (product_arcs d' (map (\<lambda>x. if mi then (arc, x) else (x, arc)) (x # xs)))"
        unfolding all using T1(5) T2(4) pa by auto
    qed
  qed
qed

lemma match_arcs_run:
  fixes mi :: bool
  assumes find: "\<And>m l. at m \<Longrightarrow> \<exists>m'. find_all M m l = Some (m', an l) \<and> at m'"
    and fl: "\<And>a b. cf_filter_arc F fl a b = map_option (\<lambda>fs'. (fs', a, b)) (d' a b)"
    and "at m" "holds T ts"
  defines "ps \<equiv> \<lambda>ws. concat (map (\<lambda>arc. map (\<lambda>x. if mi then (arc, x) else (x, arc))
    (an (if mi then olabel arc else ilabel arc))) ws)"
  shows "\<exists>m' T' us bs. ofold (match_arc ops hash F fl M mi) ws (m, T, as) = Some (m', T', as @ bs) \<and> at m' \<and>
    holds T' (ts @ us) \<and> list_all2 (stands_for (ts @ us)) bs (product_arcs d' (ps ws)) \<and>
    set us \<subseteq> snd ` set (product_arcs d' (ps ws))"
  using assms(3,4)
proof (induction ws arbitrary: m T ts as)
  case Nil
  then show ?case
    by (intro exI [of _ m] exI [of _ T] exI [of _ "[]"]) (simp add: ps_def product_arcs_def)
next
  case (Cons x xs)
  let ?l = "if mi then olabel x else ilabel x"
  let ?qs = "map (\<lambda>y. if mi then (x, y) else (y, x)) (an ?l)"
  obtain m1 where m1: "find_all M m ?l = Some (m1, an ?l)" "at m1" using find [OF Cons.prems(1)] by blast
  obtain T1 vs bs where T1: "ofold (match_found ops hash F fl x mi) (an ?l) (T, as) = Some (T1, as @ bs)" "holds T1 (ts @ vs)"
      "list_all2 (stands_for (ts @ vs)) bs (product_arcs d' ?qs)" "set vs \<subseteq> snd ` set (product_arcs d' ?qs)"
    using match_found_run [OF Cons.prems(2) fl, of x mi "an ?l" as] by blast
  have step: "match_arc ops hash F fl M mi x (m, T, as) = Some (m1, T1, as @ bs)"
    using m1(1) T1(1) by (simp add: match_arc_def)
  obtain m2 T2 us cs where T2: "ofold (match_arc ops hash F fl M mi) xs (m1, T1, as @ bs) = Some (m2, T2, (as @ bs) @ cs)" "at m2"
      "holds T2 ((ts @ vs) @ us)" "list_all2 (stands_for ((ts @ vs) @ us)) cs (product_arcs d' (ps xs))"
      "set us \<subseteq> snd ` set (product_arcs d' (ps xs))"
    using Cons.IH [OF m1(2) T1(2), of "as @ bs"] by blast
  have all: "product_arcs d' (ps (x # xs)) = product_arcs d' ?qs @ product_arcs d' (ps xs)"
    by (simp add: ps_def product_arcs_def map_filter_def)
  show ?case
  proof (intro exI conjI)
    show "ofold (match_arc ops hash F fl M mi) (x # xs) (m, T, as) = Some (m2, T2, as @ bs @ cs)" using step T2(1) by simp
    show "at m2" by fact
    show "holds T2 (ts @ (vs @ us))" using T2(3) by simp
    show "list_all2 (stands_for (ts @ vs @ us)) (bs @ cs) (product_arcs d' (ps (x # xs)))"
      unfolding all using all_stand_append [OF T1(3), of us] T2(4) by (intro list_all2_appendI) simp_all
    show "set (vs @ us) \<subseteq> snd ` set (product_arcs d' (ps (x # xs)))" unfolding all set_append image_Un using T1(4) T2(5) by blast
  qed
qed

lemma find_all_run:
  "at1 s m \<Longrightarrow> \<exists>m'. find_all M1 m l = Some (m', matches MatchOutput f1 s l) \<and> at1 s m'"
  "at2 s n \<Longrightarrow> \<exists>n'. find_all M2 n l = Some (n', matches MatchInput f2 s l) \<and> at2 s n'"
  using m1.find_and_take [of s m l] m2.find_and_take [of s n l] by (auto simp: find_all_def)

text \<open>The arcs of a pair, whichever side is ws.\<close>

lemma walk_run:
  fixes C :: "('w, 'fl, 'm1, 'm2, 'fs, 'h, 'sym) composing"
  assumes "ok1 (co_matcher1 C)" "ok2 (co_matcher2 C)" "holds (co_states C) ts"
    and fl: "\<And>a b. cf_filter_arc F (co_filter C) a b = map_option (\<lambda>fs'. (fs', a, b)) (d' a b)"
  shows "\<exists>x y T us bs. walk ops hash F M1 M2 f1 f2 mi s1 s2 C =
      Some (C\<lparr>co_matcher1 := x, co_matcher2 := y, co_states := T\<rparr>, bs) \<and> ok1 x \<and> ok2 y \<and> holds T (ts @ us) \<and>
    list_all2 (stands_for (ts @ us)) bs (product_arcs d' (pairs f1 f2 mi s1 s2)) \<and>
    set us \<subseteq> snd ` set (product_arcs d' (pairs f1 f2 mi s1 s2))"
proof (cases mi)
  case True
  obtain m where m: "mo_set_state M2 (co_matcher2 C) s2 = Some m" "at2 s2 m" using m2.set_state_law [OF assms(2)] by blast
  obtain m' T us bs where r: "ofold (match_arc ops hash F (co_filter C) M2 True) (loop1 s1 # vf_arcs f1 s1) (m, co_states C, []) =
        Some (m', T, [] @ bs)" "at2 s2 m'" "holds T (ts @ us)"
      "list_all2 (stands_for (ts @ us)) bs (product_arcs d' (pairs f1 f2 True s1 s2))"
      "set us \<subseteq> snd ` set (product_arcs d' (pairs f1 f2 True s1 s2))"
    using match_arcs_run [where mi = True and at = "at2 s2", OF find_all_run(2) fl m(2) assms(3), of "loop1 s1 # vf_arcs f1 s1" "[]"]
    by (auto simp: pairs_def)
  then have "walk ops hash F M1 M2 f1 f2 mi s1 s2 C =
      Some (C\<lparr>co_matcher1 := co_matcher1 C, co_matcher2 := m', co_states := T\<rparr>, bs)"
    using True m(1) by (simp add: walk_def loop1_def del: ofold.simps)
  moreover have "mi = True" "ok2 m'" using True r(2) m2.at_ok by auto
  ultimately show ?thesis using r assms(1) by blast
next
  case False
  obtain m where m: "mo_set_state M1 (co_matcher1 C) s1 = Some m" "at1 s1 m" using m1.set_state_law [OF assms(1)] by blast
  obtain m' T us bs where r: "ofold (match_arc ops hash F (co_filter C) M1 False) (loop2 s2 # vf_arcs f2 s2) (m, co_states C, []) =
        Some (m', T, [] @ bs)" "at1 s1 m'" "holds T (ts @ us)"
      "list_all2 (stands_for (ts @ us)) bs (product_arcs d' (pairs f1 f2 False s1 s2))"
      "set us \<subseteq> snd ` set (product_arcs d' (pairs f1 f2 False s1 s2))"
    using match_arcs_run [where mi = False and at = "at1 s1", OF find_all_run(1) fl m(2) assms(3), of "loop2 s2 # vf_arcs f2 s2" "[]"]
    by (auto simp: pairs_def)
  then have "walk ops hash F M1 M2 f1 f2 mi s1 s2 C =
      Some (C\<lparr>co_matcher1 := m', co_matcher2 := co_matcher2 C, co_states := T\<rparr>, bs)"
    using False m(1) by (simp add: walk_def loop2_def del: ofold.simps)
  moreover have "mi = False" "ok1 m'" using False r(2) m1.at_ok by auto
  ultimately show ?thesis using r assms(2) by blast
qed

lemma choose_side_run:
  fixes C :: "('w, 'fl, 'm1, 'm2, 'fs, 'h, 'sym) composing"
  assumes "ok1 (co_matcher1 C)" "ok2 (co_matcher2 C)"
  shows "\<exists>x y mi. choose_side M1 M2 mt s1 s2 C = Some (C\<lparr>co_matcher1 := x, co_matcher2 := y\<rparr>, Inr mi) \<and> ok1 x \<and> ok2 y"
proof -
  obtain x where x: "mo_priority M1 (co_matcher1 C) s1 = Some (x, int (vf_num_arcs f1 s1))" "ok1 x"
    using m1.priority_law [OF assms(1)] by blast
  obtain y where y: "mo_priority M2 (co_matcher2 C) s2 = Some (y, int (vf_num_arcs f2 s2))" "ok2 y"
    using m2.priority_law [OF assms(2)] by blast
  show ?thesis
  proof (cases "mt = MatchInput \<or> mt = MatchOutput")
    case True
    then show ?thesis using assms
      by (intro exI [of _ "co_matcher1 C"] exI [of _ "co_matcher2 C"] exI [of _ "mt = MatchInput"]) (auto simp: choose_side_def)
  next
    case False
    then show ?thesis using x y
      by (intro exI [of _ x] exI [of _ y] exI [of _ "int (vf_num_arcs f1 s1) \<le> int (vf_num_arcs f2 s2)"])
        (simp add: choose_side_def REQUIRE_PRIORITY_def)
  qed
qed

lemma add_found_run:
  fixes C :: "('w, 'fl, 'm1, 'm2, 'fs, 'h, 'sym) composing"
  assumes "bs_ok (co_done C)"
  shows "\<exists>b news. ofold (add_found s) as C = Some (C\<lparr>co_done := b, co_pending := co_pending C @ news,
      co_ofst := fold (\<lambda>a f. add_arc f s a) as (co_ofst C)\<rparr>) \<and> bs_ok b \<and> members b = members (co_done C) \<union> nextstate ` set as \<and>
    distinct news \<and> set news = nextstate ` set as - members (co_done C)"
  using assms
proof (induction as arbitrary: C)
  case Nil
  then show ?case by (intro exI [of _ "co_done C"] exI [of _ "[]"]) simp
next
  case (Cons a as)
  obtain b where b: "gbs_insert (co_done C) (nextstate a) = Some (b, nextstate a \<notin> members (co_done C))" "bs_ok b"
      "members b = insert (nextstate a) (members (co_done C))"
    using gbs_insert_run [OF Cons.prems] by blast
  let ?new = "if nextstate a \<in> members (co_done C) then [] else [nextstate a]"
  let ?C = "C\<lparr>co_done := b, co_pending := co_pending C @ ?new, co_ofst := add_arc (co_ofst C) s a\<rparr>"
  have step: "add_found s a C = Some ?C" using b(1) by (simp add: add_found_def)
  obtain c news where c: "ofold (add_found s) as ?C = Some (?C\<lparr>co_done := c, co_pending := co_pending ?C @ news,
      co_ofst := fold (\<lambda>a f. add_arc f s a) as (co_ofst ?C)\<rparr>)" "bs_ok c" "members c = members b \<union> nextstate ` set as"
      "distinct news" "set news = nextstate ` set as - members b"
    using Cons.IH [of ?C] b(2) by auto
  have "ofold (add_found s) (a # as) C = Some (C\<lparr>co_done := c, co_pending := co_pending C @ (?new @ news),
      co_ofst := fold (\<lambda>a f. add_arc f s a) (a # as) (co_ofst C)\<rparr>)"
    using step c(1) by simp
  then show ?case using b(3) c by (intro exI [of _ c] exI [of _ "?new @ news"]) auto
qed

definition inv :: "'fs compose_tuple \<Rightarrow> 'fs compose_tuple list \<Rightarrow> ('w, 'fl, 'm1, 'm2, 'fs, 'h, 'sym) composing \<Rightarrow> bool" where
  "inv t0 ts C \<longleftrightarrow> holds (co_states C) ts \<and> ts \<noteq> [] \<and> ts ! 0 = t0 \<and> (\<forall>t \<in> set ts. reached f1 f2 d t0 t) \<and>
     vf_num_states (co_ofst C) = length ts \<and> vf_start (co_ofst C) = Some 0 \<and>
     bs_ok (co_done C) \<and> members (co_done C) = {..<length ts} \<and> distinct (co_pending C) \<and> set (co_pending C) \<subseteq> {..<length ts} \<and>
     fl_ok (co_filter C) \<and> ok1 (co_matcher1 C) \<and> ok2 (co_matcher2 C) \<and>
     (\<forall>i < length ts. if i \<in> set (co_pending C) then vf_arcs (co_ofst C) i = [] \<and> vf_final_weight (co_ofst C) i = 0
        else finished f1 f2 d ts (vf_arcs (co_ofst C) i) (vf_final_weight (co_ofst C) i) (ts ! i))"

lemma offered_in_range:
  assumes "offered f1 f2 s1 s2 m" "s1 < vf_num_states f1" "s2 < vf_num_states f2" and fl: "fl_ok fl"
  shows "nextstate (fst m) < vf_num_states f1 \<and> nextstate (snd m) < vf_num_states f2"
proof -
  have "nextstate a < vf_num_states f1" if "a \<in> set (vf_arcs f1 s1)" for a using fits [OF fl] that unfolding closed_iff by blast
  moreover have "nextstate a < vf_num_states f2" if "a \<in> set (vf_arcs f2 s2)" for a using fits [OF fl] that unfolding closed_iff by blast
  ultimately show ?thesis using assms unfolding offered_def by auto
qed

lemma reached_in_range:
  assumes "state_id1 t0 < vf_num_states f1" "state_id2 t0 < vf_num_states f2" "fl_ok fl" "reached f1 f2 d t0 t"
  shows "state_id1 t < vf_num_states f1 \<and> state_id2 t < vf_num_states f2"
  using assms(4)
proof induction
  case (step t m x)
  then have "snd x = tp_new (nextstate (fst m)) (nextstate (snd m)) (tp_fs (snd x))"
    by (auto simp: product_arc_def split: option.splits)
  then have "state_id1 (snd x) = nextstate (fst m)" "state_id2 (snd x) = nextstate (snd m)" by (metis tp_sel)+
  then show ?case using offered_in_range [OF step.hyps(2) _ _ assms(3)] step.IH by simp
qed (use assms in simp)

lemma product_arcs_reached:
  assumes "reached f1 f2 d t0 t" "fl_ok fl" "x \<in> set (product_arcs (d (state_id1 t) (state_id2 t) (tp_fs t)) (pairs f1 f2 mi (state_id1 t) (state_id2 t)))"
  shows "reached f1 f2 d t0 (snd x)"
proof -
  obtain m where "m \<in> set (pairs f1 f2 mi (state_id1 t) (state_id2 t))"
      "product_arc (d (state_id1 t) (state_id2 t) (tp_fs t)) m = Some x"
    using assms(3) by (auto simp: product_arcs_def map_filter_def)
  then show ?thesis using reached.step [OF assms(1)] pairs_offered fits [OF assms(2)] by blast
qed

text \<open>Every tuple that a turn adds is the target of one of its arcs.\<close>

lemma new_states_are_targets:
  assumes "distinct (ts @ us)" "list_all2 (stands_for (ts @ us)) as xs" "set us \<subseteq> snd ` set xs"
  shows "{..<length ts} \<union> nextstate ` set as = {..<length (ts @ us)}"
proof (intro equalityI subsetI)
  fix i assume "i \<in> {..<length ts} \<union> nextstate ` set as"
  moreover have "nextstate a < length (ts @ us)" if "a \<in> set as" for a
    using assms(2) that by (auto simp: list_all2_conv_all_nth in_set_conv_nth stands_for_def)
  ultimately show "i \<in> {..<length (ts @ us)}" by auto
next
  fix i assume i: "i \<in> {..<length (ts @ us)}"
  show "i \<in> {..<length ts} \<union> nextstate ` set as"
  proof (cases "i < length ts")
    case False
    then have "(ts @ us) ! i \<in> set us" using i by (simp add: nth_append)
    then obtain x where "x \<in> set xs" "snd x = (ts @ us) ! i" using assms(3) by auto
    then obtain j where x: "j < length xs" "snd (xs ! j) = (ts @ us) ! i" by (metis in_set_conv_nth)
    then have a: "as ! j \<in> set as" "stands_for (ts @ us) (as ! j) (xs ! j)"
      using assms(2) by (auto simp: list_all2_conv_all_nth)
    then have "nextstate (as ! j) = i" using x(2) i assms(1) by (auto simp: stands_for_def nth_eq_iff_index_eq)
    then show ?thesis using a(1) by auto
  qed simp
qed

lemma final_of_pair_run:
  fixes C :: "('w, 'fl, 'm1, 'm2, 'fs, 'h, 'sym) composing"
  assumes "fl_ok (co_filter C)" "s < vf_num_states (co_ofst C)" "vf_final_weight (co_ofst C) s = 0"
  shows "\<exists>fl g. final_of_pair F f1 f2 s t C = C\<lparr>co_filter := fl, co_ofst := g\<rparr> \<and> fl_ok fl \<and>
    vf_num_states g = vf_num_states (co_ofst C) \<and> vf_start g = vf_start (co_ofst C) \<and> vf_arcs g = vf_arcs (co_ofst C) \<and>
    (\<forall>i. vf_final_weight g i = (if i = s then pair_final f1 f2 t else vf_final_weight (co_ofst C) i))"
proof -
  let ?w1 = "vf_final_weight f1 (state_id1 t)" and ?w2 = "vf_final_weight f2 (state_id2 t)"
  let ?fl = "cf_set_state F (co_filter C) (state_id1 t) (state_id2 t) (tp_fs t)"
  have fl: "fl_ok ?fl" using set_filter [OF assms(1)] .
  consider (out) "\<not> (?w1 \<noteq> 0 \<and> ?w2 \<noteq> 0)" | (zero) "?w1 \<noteq> 0" "?w2 \<noteq> 0" "?w1 * ?w2 = 0" | (final) "?w1 \<noteq> 0" "?w2 \<noteq> 0" "?w1 * ?w2 \<noteq> 0"
    by blast
  then show ?thesis
  proof cases
    case out
    then have "final_of_pair F f1 f2 s t C = C\<lparr>co_filter := co_filter C, co_ofst := co_ofst C\<rparr>"
      by (auto simp: final_of_pair_def Let_def)
    moreover have "pair_final f1 f2 t = 0" using out by (auto simp: pair_final_def Let_def)
    ultimately show ?thesis using assms by (intro exI [of _ "co_filter C"] exI [of _ "co_ofst C"]) auto
  next
    case zero
    then have "final_of_pair F f1 f2 s t C = C\<lparr>co_filter := ?fl, co_ofst := co_ofst C\<rparr>"
      by (simp add: final_of_pair_def Let_def ask_final)
    moreover have "pair_final f1 f2 t = 0" using zero by (simp add: pair_final_def)
    ultimately show ?thesis using assms fl by (intro exI [of _ ?fl] exI [of _ "co_ofst C"]) auto
  next
    case final
    then have "final_of_pair F f1 f2 s t C = C\<lparr>co_filter := ?fl, co_ofst := set_final (co_ofst C) s (?w1 * ?w2)\<rparr>"
      by (simp add: final_of_pair_def Let_def ask_final)
    moreover have "pair_final f1 f2 t = ?w1 * ?w2" using final by (simp add: pair_final_def)
    ultimately show ?thesis using assms fl
      by (intro exI [of _ ?fl] exI [of _ "set_final (co_ofst C) s (?w1 * ?w2)"]) (auto simp: vf_simps)
  qed
qed

text \<open>One turn.\<close>

lemma compose_state_run:
  fixes C :: "('w, 'fl, 'm1, 'm2, 'fs, 'h, 'sym) composing"
  assumes start: "state_id1 t0 < vf_num_states f1" "state_id2 t0 < vf_num_states f2"
    and I: "inv t0 ts C" and p: "co_pending C = ps @ [s]"
  shows "\<exists>C' us. compose_state ops hash F M1 M2 f1 f2 mt s (C\<lparr>co_pending := ps\<rparr>) = Some (C', Inr ()) \<and> inv t0 (ts @ us) C' \<and>
    length (ts @ us) - length (co_pending C') = Suc (length ts - length (co_pending C))"
proof -
  let ?t = "ts ! s"
  let ?s1 = "state_id1 ?t" and ?s2 = "state_id2 ?t"
  have s: "s < length ts" "s \<notin> set ps" "distinct ps" "set ps \<subseteq> {..<length ts}" using I p by (auto simp: inv_def)
  have reach: "reached f1 f2 d t0 ?t" using I s(1) by (simp add: inv_def)
  have fl_C: "fl_ok (co_filter C)" using I by (simp add: inv_def)
  note range = reached_in_range [OF start fl_C reach]
  have ok: "holds (co_states C) ts" "fl_ok (co_filter C)" "ok1 (co_matcher1 C)" "ok2 (co_matcher2 C)" "bs_ok (co_done C)"
      "members (co_done C) = {..<length ts}" "vf_num_states (co_ofst C) = length ts" "vf_start (co_ofst C) = Some 0"
      "vf_arcs (co_ofst C) s = []" "vf_final_weight (co_ofst C) s = 0"
    using I s(1) p by (auto simp: inv_def)
  have tuple: "gt_tuple (co_states C) s = Some ?t" using generic.tuple_run [OF ok(1), of s] s(1) by simp
  let ?C0 = "C\<lparr>co_pending := ps\<rparr>"
  obtain fl g where g: "final_of_pair F f1 f2 s ?t ?C0 = ?C0\<lparr>co_filter := fl, co_ofst := g\<rparr>" "fl_ok fl"
      "vf_num_states g = length ts" "vf_start g = Some 0" "vf_arcs g = vf_arcs (co_ofst C)"
      "\<And>i. vf_final_weight g i = (if i = s then pair_final f1 f2 ?t else vf_final_weight (co_ofst C) i)"
    using final_of_pair_run [of ?C0 s ?t] ok s(1) by auto
  let ?fl = "cf_set_state F fl ?s1 ?s2 (tp_fs ?t)"
  let ?C1 = "?C0\<lparr>co_ofst := g, co_filter := ?fl\<rparr>"
  obtain x1 y1 mi where side: "choose_side M1 M2 mt ?s1 ?s2 ?C1 = Some (?C1\<lparr>co_matcher1 := x1, co_matcher2 := y1\<rparr>, Inr mi)"
      "ok1 x1" "ok2 y1"
    using choose_side_run [of ?C1 mt ?s1 ?s2] ok by auto
  let ?C2 = "?C1\<lparr>co_matcher1 := x1, co_matcher2 := y1\<rparr>"
  let ?ps = "product_arcs (d ?s1 ?s2 (tp_fs ?t)) (pairs f1 f2 mi ?s1 ?s2)"
  have ask: "cf_filter_arc F (co_filter ?C2) a b = map_option (\<lambda>fs'. (fs', a, b)) (d ?s1 ?s2 (tp_fs ?t) a b)" for a b
    using ask_filter [OF g(2)] range by simp
  obtain x y T us bs where W: "walk ops hash F M1 M2 f1 f2 mi ?s1 ?s2 ?C2 =
        Some (?C2\<lparr>co_matcher1 := x, co_matcher2 := y, co_states := T\<rparr>, bs)" "ok1 x" "ok2 y" "holds T (ts @ us)"
      "list_all2 (stands_for (ts @ us)) bs ?ps" "set us \<subseteq> snd ` set ?ps"
    using walk_run [of ?C2 ts "d ?s1 ?s2 (tp_fs ?t)" mi ?s1 ?s2] side(2,3) ok(1) ask by auto
  let ?C3 = "?C2\<lparr>co_matcher1 := x, co_matcher2 := y, co_states := T\<rparr>"
  have size: "gt_size T = length (ts @ us)" using generic.size_run [OF W(4)] .
  let ?g = "fold (\<lambda>_ f. fst (add_state f)) [length ts..<length (ts @ us)] g"
  obtain b news where A: "ofold (add_found s) bs (?C3\<lparr>co_ofst := ?g\<rparr>) = Some (?C3\<lparr>co_ofst := ?g, co_done := b,
        co_pending := ps @ news, co_ofst := fold (\<lambda>a f. add_arc f s a) bs ?g\<rparr>)" "bs_ok b"
      "members b = {..<length ts} \<union> nextstate ` set bs" "distinct news" "set news = nextstate ` set bs - {..<length ts}"
    using add_found_run [of "?C3\<lparr>co_ofst := ?g\<rparr>" s bs] ok by auto
  have tgt: "{..<length ts} \<union> nextstate ` set bs = {..<length (ts @ us)}"
    using new_states_are_targets [OF _ W(5,6)] generic.distinct_holds [OF W(4)] by simp
  then have news: "set news = {length ts..<length (ts @ us)}" using A(5) by (simp add: set_eq_iff) (metis Un_iff lessThan_iff not_le)
  let ?h = "fold (\<lambda>a f. add_arc f s a) bs ?g"
  have h: "vf_num_states ?h = length (ts @ us)" "vf_start ?h = Some 0"
      "vf_arcs ?h i = (if i = s then bs else vf_arcs (co_ofst C) i)"
      "vf_final_weight ?h i = (if i = s then pair_final f1 f2 ?t else vf_final_weight (co_ofst C) i)" for i
    using g(3-6) s(1) ok(9) by (simp_all add: add_arcs_view add_arcs_arcs add_state_times)
  let ?C' = "?C3\<lparr>co_ofst := ?g, co_done := b, co_pending := ps @ news, co_ofst := ?h\<rparr>"
  have run: "compose_state ops hash F M1 M2 f1 f2 mt s ?C0 = Some (?C', Inr ())"
    using tuple g(1,3) side(1) W(1) size A(1) by (simp add: compose_state_def Let_def)
  have all: "if i \<in> set (ps @ news) then vf_arcs ?h i = [] \<and> vf_final_weight ?h i = 0
      else finished f1 f2 d (ts @ us) (vf_arcs ?h i) (vf_final_weight ?h i) ((ts @ us) ! i)"
    if i: "i < length (ts @ us)" for i
  proof -
    have I_i: "i < length ts \<Longrightarrow> if i \<in> set (co_pending C) then vf_arcs (co_ofst C) i = [] \<and> vf_final_weight (co_ofst C) i = 0
        else finished f1 f2 d ts (vf_arcs (co_ofst C) i) (vf_final_weight (co_ofst C) i) (ts ! i)"
      using I by (simp add: inv_def)
    consider "i \<in> set ps" | "i \<in> set news" | "i = s" | "i < length ts" "i \<notin> set (co_pending C)" "i \<noteq> s"
      using i news p by fastforce
    then show ?thesis
    proof cases
      case 1
      then have "i \<noteq> s" "i < length ts" using s by auto
      then show ?thesis using 1 I_i p unfolding h by simp
    next
      case 2
      then have "i \<noteq> s" "vf_num_states (co_ofst C) \<le> i" using s(1) ok(7) news by auto
      then show ?thesis using 2 unfolding h by (simp add: outside)
    next
      case 3
      have "finished f1 f2 d (ts @ us) bs (pair_final f1 f2 ?t) ?t" using W(5) by (auto simp: finished_def)
      then show ?thesis using 3 s news unfolding h by (simp add: nth_append)
    next
      case 4
      then have "i \<notin> set ps" "i \<notin> set news" using p news by auto
      then show ?thesis using 4 I_i finished_append [of f1 f2 d ts _ _ _ us] unfolding h by (simp add: nth_append)
    qed
  qed
  have "distinct (ps @ news)" "set (ps @ news) \<subseteq> {..<length (ts @ us)}" using s(3,4) A(4) news by (auto simp: subset_iff)
  moreover have "\<forall>t \<in> set (ts @ us). reached f1 f2 d t0 t"
  proof
    fix t
    assume "t \<in> set (ts @ us)"
    then consider "t \<in> set ts" | "t \<in> snd ` set ?ps" using W(6) by auto
    then show "reached f1 f2 d t0 t"
    proof cases
      case 1
      then show ?thesis using I by (simp add: inv_def)
    next
      case 2
      then obtain x where "x \<in> set ?ps" "t = snd x" by blast
      then show ?thesis using product_arcs_reached [OF reach fl_C] by simp
    qed
  qed
  moreover have "ts @ us \<noteq> []" "(ts @ us) ! 0 = t0"
  proof -
    have "ts \<noteq> []" "ts ! 0 = t0" using I unfolding inv_def by blast+
    then show "ts @ us \<noteq> []" "(ts @ us) ! 0 = t0" by (simp_all add: nth_append)
  qed
  moreover have "members b = {..<length (ts @ us)}" using A(3) tgt by simp
  moreover have "fl_ok ?fl" using set_filter [OF g(2)] .
  moreover have "\<forall>i < length (ts @ us). if i \<in> set (ps @ news) then vf_arcs ?h i = [] \<and> vf_final_weight ?h i = 0
      else finished f1 f2 d (ts @ us) (vf_arcs ?h i) (vf_final_weight ?h i) ((ts @ us) ! i)" using all by blast
  moreover have "co_states ?C' = T" "co_filter ?C' = ?fl" "co_matcher1 ?C' = x" "co_matcher2 ?C' = y" "co_done ?C' = b"
      "co_pending ?C' = ps @ news" "co_ofst ?C' = ?h"
    by simp_all
  ultimately have "inv t0 (ts @ us) ?C'"
    using W(2-4) A(2) h(1,2) by (simp only: inv_def) blast
  moreover have "length (ts @ us) - length (ps @ news) = Suc (length ts - length (co_pending C))"
  proof -
    have "length news = card (set news)" using A(4) by (simp add: distinct_card)
    then have n: "length news = length us" unfolding news by simp
    have "card (insert s (set ps)) \<le> card {..<length ts}" using s(1,4) by (intro card_mono) auto
    then have "Suc (length ps) \<le> length ts" using s(2,3) by (simp add: distinct_card)
    then show ?thesis using n p by simp
  qed
  ultimately show ?thesis using run by (intro exI [of _ ?C'] exI [of _ us]) simp
qed

end

end
