(* ===== verification/ComposeProduct.thy ===== *)
theory ComposeProduct
  imports ComposeLoop
begin

text \<open>
  The loop of \<open>compose_with\<close> returns, and the FST it leaves is the reachable part of the product: \<open>is_product\<close>.
  The measure is the number of tuples that are not yet finished.
\<close>

section \<open>The product, as an FST\<close>

lemma in_product_arcs: "x \<in> set (product_arcs d ms) \<longleftrightarrow> (\<exists>m \<in> set ms. product_arc d m = Some x)"
  unfolding product_arcs_def by (induction ms) (auto simp: map_filter_simps split: option.splits)

definition is_product ::
  "('w::{zero,one,times}, 'sym) vector_fst \<Rightarrow> ('w, 'sym) vector_fst \<Rightarrow>
   (state_id \<Rightarrow> state_id \<Rightarrow> 'fs \<Rightarrow> 'w arc \<Rightarrow> 'w arc \<Rightarrow> 'fs option) \<Rightarrow> 'fs compose_tuple \<Rightarrow> 'fs compose_tuple list \<Rightarrow>
   ('w, 'sym) vector_fst \<Rightarrow> bool" where
  "is_product f1 f2 d t0 ts g \<longleftrightarrow> distinct ts \<and> ts \<noteq> [] \<and> ts ! 0 = t0 \<and> set ts = {t. reached f1 f2 d t0 t} \<and>
     vf_num_states g = length ts \<and> vf_start g = Some 0 \<and>
     (\<forall>i < length ts. finished f1 f2 d ts (vf_arcs g i) (vf_final_weight g i) (ts ! i))"

lemma is_product_view:
  "vf_num_states g = vf_num_states h \<Longrightarrow> vf_start g = vf_start h \<Longrightarrow> vf_arcs g = vf_arcs h \<Longrightarrow>
   vf_final_weight g = vf_final_weight h \<Longrightarrow> is_product f1 f2 d t0 ts g \<longleftrightarrow> is_product f1 f2 d t0 ts h"
  by (simp add: is_product_def)

definition product_or_nothing ::
  "('w::{zero,one,times}, 'sym) vector_fst \<Rightarrow> ('w, 'sym) vector_fst \<Rightarrow>
   (state_id \<Rightarrow> state_id \<Rightarrow> 'fs \<Rightarrow> 'w arc \<Rightarrow> 'w arc \<Rightarrow> 'fs option) \<Rightarrow> 'fs \<Rightarrow> ('w, 'sym) vector_fst \<Rightarrow> bool" where
  "product_or_nothing f1 f2 d fs g =
     (case (vf_start f1, vf_start f2) of
        (Some s1, Some s2) \<Rightarrow> \<exists>ts. is_product f1 f2 d (tp_new s1 s2 fs) ts g
      | _ \<Rightarrow> vf_num_states g = 0 \<and> vf_start g = None)"

text \<open>There are finitely many tuples over two FSTs and a finite type of filter states.\<close>

definition tuples_over :: "nat \<Rightarrow> nat \<Rightarrow> 'fs compose_tuple set" where
  "tuples_over n1 n2 = {t. state_id1 t < n1 \<and> state_id2 t < n2}"

lemma tuples_over_image:
  "tuples_over n1 n2 = (\<lambda>((s1, s2), fs). tp_new s1 s2 fs) ` (({..<n1} \<times> {..<n2}) \<times> (UNIV :: 'fs set))"
proof -
  have "\<exists>s1 < n1. \<exists>s2 < n2. \<exists>fs. t = tp_new s1 s2 fs" if "state_id1 t < n1" "state_id2 t < n2" for t :: "'fs compose_tuple"
    using that by (intro exI [of _ "state_id1 t"] exI [of _ "state_id2 t"] exI [of _ "tp_fs t"] conjI tp_eqI) simp_all
  then show ?thesis by (auto simp: tuples_over_def image_iff Bex_def)
qed

lemma tuples_over_finite:
  fixes n1 n2 :: nat
  assumes "finite (UNIV :: 'fs set)"
  shows "finite (tuples_over n1 n2 :: 'fs compose_tuple set)"
    "card (tuples_over n1 n2 :: 'fs compose_tuple set) \<le> n1 * n2 * card (UNIV :: 'fs set)"
proof -
  have f: "finite (({..<n1} \<times> {..<n2}) \<times> (UNIV :: 'fs set))" using assms by simp
  then show "finite (tuples_over n1 n2 :: 'fs compose_tuple set)" unfolding tuples_over_image by (rule finite_imageI)
  show "card (tuples_over n1 n2 :: 'fs compose_tuple set) \<le> n1 * n2 * card (UNIV :: 'fs set)"
    using card_image_le [OF f, of "\<lambda>((s1, s2), fs). tp_new s1 s2 fs"] unfolding tuples_over_image by (simp add: card_cartesian_product)
qed

section \<open>The loop\<close>

context composition
begin

lemma inv_size:
  assumes start: "state_id1 t0 < vf_num_states f1" "state_id2 t0 < vf_num_states f2"
    and fin: "finite (UNIV :: 'fs set)" and I: "inv t0 ts C"
  shows "length ts \<le> card (tuples_over (vf_num_states f1) (vf_num_states f2) :: 'fs compose_tuple set)"
proof -
  have "distinct ts" using I generic.distinct_holds by (fastforce simp: inv_def)
  moreover have "set ts \<subseteq> tuples_over (vf_num_states f1) (vf_num_states f2)"
    using I reached_in_range [OF start, of "co_filter C"] by (auto simp: inv_def tuples_over_def)
  ultimately show ?thesis using tuples_over_finite(1) [OF fin] by (metis card_mono distinct_card)
qed

lemma inv_pending: "inv t0 ts C \<Longrightarrow> length (co_pending C) \<le> length ts"
  unfolding inv_def by (metis card_lessThan card_mono distinct_card finite_lessThan)

lemma loop_run:
  fixes C :: "('w, 'fl, 'm1, 'm2, 'fs, 'h, 'sym) composing"
  assumes start: "state_id1 t0 < vf_num_states f1" "state_id2 t0 < vf_num_states f2"
    and fin: "finite (UNIV :: 'fs set)" and I: "inv t0 ts C"
  shows "\<exists>C' us. compose_loop ops hash F M1 M2 f1 f2 mt C = Some (C', Inr ()) \<and> inv t0 (ts @ us) C' \<and> co_pending C' = []"
  using I
proof (induction "card (tuples_over (vf_num_states f1) (vf_num_states f2) :: 'fs compose_tuple set) - (length ts - length (co_pending C))"
    arbitrary: C ts rule: less_induct)
  case less
  note size = inv_size [OF start fin]
  show ?case
  proof (cases "co_pending C = []")
    case True
    have "compose_loop ops hash F M1 M2 f1 f2 mt C = Some (C, Inr ())" by (subst compose_loop.simps) (simp add: True)
    then show ?thesis using less.prems True by (intro exI [of _ C] exI [of _ "[]"]) simp
  next
    case False
    then have p: "co_pending C = butlast (co_pending C) @ [last (co_pending C)]" by simp
    obtain C1 us where C1: "compose_state ops hash F M1 M2 f1 f2 mt (last (co_pending C))
          (C\<lparr>co_pending := butlast (co_pending C)\<rparr>) = Some (C1, Inr ())" "inv t0 (ts @ us) C1"
        "length (ts @ us) - length (co_pending C1) = Suc (length ts - length (co_pending C))"
      using compose_state_run [OF start less.prems p] by blast
    have "length (ts @ us) - length (co_pending C1) \<le> card (tuples_over (vf_num_states f1) (vf_num_states f2) :: 'fs compose_tuple set)"
      using size [OF C1(2)] by linarith
    then have "card (tuples_over (vf_num_states f1) (vf_num_states f2) :: 'fs compose_tuple set) - (length (ts @ us) - length (co_pending C1))
        < card (tuples_over (vf_num_states f1) (vf_num_states f2) :: 'fs compose_tuple set) - (length ts - length (co_pending C))"
      using C1(3) by linarith
    from less.hyps [OF this C1(2)] obtain C2 vs where C2: "compose_loop ops hash F M1 M2 f1 f2 mt C1 = Some (C2, Inr ())"
        "inv t0 ((ts @ us) @ vs) C2" "co_pending C2 = []" by blast
    have "compose_loop ops hash F M1 M2 f1 f2 mt C = Some (C2, Inr ())"
      by (subst compose_loop.simps) (use False C1(1) C2(1) in simp)
    then show ?thesis using C2 by (intro exI [of _ C2] exI [of _ "us @ vs"]) simp
  qed
qed

text \<open>Nothing pending: the tuples are all that are reached.\<close>

lemma inv_product:
  assumes I: "inv t0 ts C" and "co_pending C = []"
  shows "is_product f1 f2 d t0 ts (co_ofst C)"
proof -
  have fin: "finished f1 f2 d ts (vf_arcs (co_ofst C) i) (vf_final_weight (co_ofst C) i) (ts ! i)" if "i < length ts" for i
    using I assms(2) that by (simp add: inv_def)
  have ts: "ts \<noteq> []" "ts ! 0 = t0" "\<forall>t \<in> set ts. reached f1 f2 d t0 t" "vf_num_states (co_ofst C) = length ts"
      "vf_start (co_ofst C) = Some 0" "holds (co_states C) ts"
    using I unfolding inv_def by blast+
  have comp: "composable f1 f2" using fits [of "co_filter C"] I by (simp add: inv_def)
  have "t \<in> set ts" if "reached f1 f2 d t0 t" for t
    using that
  proof induction
    case start
    then show ?case using ts(1,2) by (metis length_greater_0_conv nth_mem)
  next
    case (step t m x)
    then obtain i where i: "i < length ts" "ts ! i = t" by (auto simp: in_set_conv_nth)
    obtain mi where mi: "list_all2 (stands_for ts) (vf_arcs (co_ofst C) i)
        (product_arcs (d (state_id1 t) (state_id2 t) (tp_fs t)) (pairs f1 f2 mi (state_id1 t) (state_id2 t)))"
      using fin [OF i(1)] i(2) by (auto simp: finished_def)
    have "m \<in> set (pairs f1 f2 mi (state_id1 t) (state_id2 t))" using step.hyps(2) pairs_offered [OF comp] by simp
    then have "x \<in> set (product_arcs (d (state_id1 t) (state_id2 t) (tp_fs t)) (pairs f1 f2 mi (state_id1 t) (state_id2 t)))"
      using step.hyps(3) in_product_arcs by blast
    then obtain a where "stands_for ts a x" using mi by (metis list_all2_conv_all_nth in_set_conv_nth)
    then show ?case by (auto simp: stands_for_def intro: nth_mem dest: sym)
  qed
  then show ?thesis using ts fin generic.distinct_holds [OF ts(6)] by (auto simp: is_product_def)
qed

text \<open>The whole call.\<close>

lemma first_state:
  fixes ofst :: "('w, 'sym) vector_fst"
  assumes "vf_start f1 = Some s1" "vf_start f2 = Some s2" "fl_ok fl" "ok1 x" "ok2 y" "vf_num_states ofst = 0"
    and T: "holds T [tp_new s1 s2 fs]" and b: "bs_ok b" "members b = {0}"
  shows "inv (tp_new s1 s2 fs) [tp_new s1 s2 fs]
    \<lparr>co_filter = fl, co_matcher1 = x, co_matcher2 = y, co_states = T, co_pending = [0], co_done = b,
     co_ofst = set_start (fst (add_state ofst)) 0\<rparr>"
  using assms by (auto simp: inv_def vf_simps lessThan_Suc no_state_def usize_max_def intro: reached.start)

lemma compose_with_run:
  fixes ofst :: "('w, 'sym) vector_fst"
  assumes fin: "finite (UNIV :: 'fs set)" and ok: "fl_ok fl" "ok1 x" "ok2 y"
    and mt: "match_types (mo_match_type M1 x) (mo_match_type M2 y) = Inr mt"
  shows "\<exists>g. compose_with ops hash F M1 M2 f1 f2 ofst fl x y = Some (g, Inr ()) \<and> product_or_nothing f1 f2 d (cf_start F fl) g"
proof (cases "vf_start f1 = None \<or> vf_start f2 = None")
  case True
  then show ?thesis using mt
    by (auto simp: compose_with_def product_or_nothing_def vf_simps Let_def split: option.splits)
next
  case False
  then obtain s1 s2 where s: "vf_start f1 = Some s1" "vf_start f2 = Some s2" by auto
  let ?t0 = "tp_new s1 s2 (cf_start F fl)"
  have range: "state_id1 ?t0 < vf_num_states f1" "state_id2 ?t0 < vf_num_states f2"
    using fits [OF ok(1)] s unfolding closed_iff by auto
  have "holds (gt_new ops) []" using table_ok [OF ok(1)] by (auto simp: gt_holds_def ct_ok_def gt_new_def ct_new_def keys_ok_def hash_table_ok_def)
  from generic.find_state_run [OF this UNIV_I, of ?t0] obtain T i us where
      F0: "gt_find_state ops hash (gt_new ops) ?t0 = Some (T, i)" "holds T us" "i < length us" "us ! i = ?t0" "set us \<subseteq> {?t0}"
    by auto
  have "distinct us" using generic.distinct_holds [OF F0(2)] by blast
  then have "length us = card (set us)" by (simp add: distinct_card)
  also have "\<dots> \<le> 1" using card_mono [OF _ F0(5)] by simp
  finally have "length us = 1" using F0(3) by linarith
  then have "us = [?t0]" "i = 0" using F0(3,4) by (auto simp: length_Suc_conv)
  then have T: "gt_find_state ops hash (gt_new ops) ?t0 = Some (T, 0)" "holds T [?t0]" using F0(1,2) by simp_all
  obtain b where b: "gbs_insert gbs_new 0 = Some (b, True)" "bs_ok b" "members b = {0}"
    using gbs_insert_run [of gbs_new 0] new_empty_run [of 0] by (auto simp: gbs_new_def)
  let ?o = "set_output_symbols (set_input_symbols (delete_all_states ofst) (vf_isymbols f1)) (vf_osymbols f2)"
  have I: "inv ?t0 [?t0] \<lparr>co_filter = fl, co_matcher1 = x, co_matcher2 = y, co_states = T, co_pending = [0], co_done = b,
      co_ofst = set_start (fst (add_state ?o)) 0\<rparr>"
    by (rule first_state [OF s ok _ T(2) b(2,3)]) (simp add: vf_simps)
  obtain C us where C: "compose_loop ops hash F M1 M2 f1 f2 mt \<lparr>co_filter = fl, co_matcher1 = x, co_matcher2 = y,
        co_states = T, co_pending = [0], co_done = b, co_ofst = set_start (fst (add_state ?o)) 0\<rparr> = Some (C, Inr ())"
      "inv ?t0 ([?t0] @ us) C" "co_pending C = []"
    using loop_run [OF range fin I] by blast
  let ?p = "cf_properties F fl (compose_properties (cache_get_masked (vf_properties f1) K_FST_PROPERTIES)
    (cache_get_masked (vf_properties f2) K_FST_PROPERTIES))"
  let ?g = "set_properties (co_ofst C) ?p K_FST_PROPERTIES"
  have run: "compose_with ops hash F M1 M2 f1 f2 ofst fl x y = Some (?g, Inr ())"
    using mt s T(1) b(1) C(1) by (simp add: compose_with_def Let_def)
  have "is_product f1 f2 d ?t0 ([?t0] @ us) ?g \<longleftrightarrow> is_product f1 f2 d ?t0 ([?t0] @ us) (co_ofst C)"
    by (rule is_product_view) (auto simp: vf_simps)
  then have "product_or_nothing f1 f2 d (cf_start F fl) ?g"
    using inv_product [OF C(2,3)] s by (auto simp: product_or_nothing_def)
  then show ?thesis using run by blast
qed

end

end
