(* ===== verification/ComposeRelation.thy ===== *)
theory ComposeRelation
  imports ComposeProduct
begin

text \<open>
  The relation an FST computes, and that the product computes the composition of two of them: a path of the product is
  an alignment the filter accepts of two paths whose meeting strings agree, with the product of their weights.
\<close>

section \<open>The relation of an FST\<close>

definition path_weight :: "'w::monoid_mult arc list \<Rightarrow> 'w" where
  "path_weight p = prod_list (map weight p)"

lemma path_weight_simps [simp]: "path_weight [] = 1" "path_weight (a # p) = weight a * path_weight p"
  by (simp_all add: path_weight_def)

definition transduces :: "('w::{zero,monoid_mult}, 'sym) vector_fst \<Rightarrow> label list \<Rightarrow> 'w \<Rightarrow> label list \<Rightarrow> bool" where
  "transduces f x w y \<longleftrightarrow> (\<exists>(p, v) \<in> successful f. istring p = x \<and> ostring p = y \<and> w = path_weight p * v)"

section \<open>The arcs of the product\<close>

lemma list_all2_left: "list_all2 P xs ys \<Longrightarrow> x \<in> set xs \<Longrightarrow> \<exists>y \<in> set ys. P x y"
  by (induction rule: list_all2_induct) auto

lemma list_all2_right: "list_all2 P xs ys \<Longrightarrow> y \<in> set ys \<Longrightarrow> \<exists>x \<in> set xs. P x y"
  by (induction rule: list_all2_induct) auto

definition arc_of_pair ::
  "'fs compose_tuple list \<Rightarrow> 'w::times arc \<times> 'w arc \<Rightarrow> 'fs \<Rightarrow> 'w arc \<Rightarrow> bool" where
  "arc_of_pair ts m fs a \<longleftrightarrow> ilabel a = ilabel (fst m) \<and> olabel a = olabel (snd m) \<and> weight a = weight (fst m) * weight (snd m) \<and>
     nextstate a < length ts \<and> ts ! nextstate a = tp_new (nextstate (fst m)) (nextstate (snd m)) fs"

lemma product_arc_Some: "product_arc d m = Some x \<longleftrightarrow> (\<exists>fs. d (fst m) (snd m) = Some fs \<and>
    x = ((ilabel (fst m), olabel (snd m), weight (fst m) * weight (snd m)), tp_new (nextstate (fst m)) (nextstate (snd m)) fs))"
  by (auto simp: product_arc_def split: option.splits)

lemma stands_for_pair: "stands_for ts a ((ilabel (fst m), olabel (snd m), weight (fst m) * weight (snd m)),
    tp_new (nextstate (fst m)) (nextstate (snd m)) fs) \<longleftrightarrow> arc_of_pair ts m fs a"
  by (simp add: stands_for_def arc_of_pair_def)

lemma product_steps:
  assumes "composable f1 f2" "is_product f1 f2 d t0 ts g" "i < length ts"
  defines "s1 \<equiv> state_id1 (ts ! i)" and "s2 \<equiv> state_id2 (ts ! i)" and "fs \<equiv> tp_fs (ts ! i)"
  shows "a \<in> set (vf_arcs g i) \<Longrightarrow> \<exists>m fs'. offered f1 f2 s1 s2 m \<and> d s1 s2 fs (fst m) (snd m) = Some fs' \<and> arc_of_pair ts m fs' a"
    and "offered f1 f2 s1 s2 m \<Longrightarrow> d s1 s2 fs (fst m) (snd m) = Some fs' \<Longrightarrow> \<exists>a \<in> set (vf_arcs g i). arc_of_pair ts m fs' a"
proof -
  obtain mi where mi: "list_all2 (stands_for ts) (vf_arcs g i) (product_arcs (d s1 s2 fs) (pairs f1 f2 mi s1 s2))"
    using assms(2,3) by (auto simp: is_product_def finished_def s1_def s2_def fs_def)
  note ps = pairs_offered [OF assms(1), of mi s1 s2]
  show "\<exists>m fs'. offered f1 f2 s1 s2 m \<and> d s1 s2 fs (fst m) (snd m) = Some fs' \<and> arc_of_pair ts m fs' a" if a: "a \<in> set (vf_arcs g i)"
  proof -
    obtain x where x: "x \<in> set (product_arcs (d s1 s2 fs) (pairs f1 f2 mi s1 s2))" "stands_for ts a x"
      using list_all2_left [OF mi a] by blast
    then obtain m fs' where m: "m \<in> set (pairs f1 f2 mi s1 s2)" "d s1 s2 fs (fst m) (snd m) = Some fs'"
        "x = ((ilabel (fst m), olabel (snd m), weight (fst m) * weight (snd m)), tp_new (nextstate (fst m)) (nextstate (snd m)) fs')"
      unfolding in_product_arcs product_arc_Some by blast
    have "arc_of_pair ts m fs' a" using x(2) unfolding m(3) stands_for_pair .
    then show ?thesis using m(1,2) ps by blast
  qed
  show "\<exists>a \<in> set (vf_arcs g i). arc_of_pair ts m fs' a" if m: "offered f1 f2 s1 s2 m" "d s1 s2 fs (fst m) (snd m) = Some fs'"
  proof -
    let ?x = "((ilabel (fst m), olabel (snd m), weight (fst m) * weight (snd m)), tp_new (nextstate (fst m)) (nextstate (snd m)) fs')"
    have "?x \<in> set (product_arcs (d s1 s2 fs) (pairs f1 f2 mi s1 s2))"
      unfolding in_product_arcs product_arc_Some using m ps by blast
    then obtain a where "a \<in> set (vf_arcs g i)" "stands_for ts a ?x" using list_all2_right [OF mi] by blast
    then show ?thesis by (auto simp: stands_for_pair)
  qed
qed

text \<open>What a pair of arcs adds to the two sides.\<close>

lemma offered_sides:
  fixes m :: "'w::{zero,comm_monoid_mult} arc \<times> 'w arc"
  assumes "composable f1 f2" "offered f1 f2 s1 s2 m" "arc_of_pair ts m fs a"
  shows "path (vf_arcs f1) s1 (side1 [m]) (nextstate (fst m))" "path (vf_arcs f2) s2 (side2 [m]) (nextstate (snd m))"
    "istring [a] = istring (side1 [m])" "ostring [a] = ostring (side2 [m])"
    "weight a = path_weight (side1 [m]) * path_weight (side2 [m])"
proof -
  have lab: "olabel a \<noteq> no_label" if "a \<in> set (vf_arcs f1 s1)" for a using that assms(1) by (auto simp: composable_def)
  have lab2: "ilabel a \<noteq> no_label" if "a \<in> set (vf_arcs f2 s2)" for a using that assms(1) by (auto simp: composable_def)
  have w: "weight (loop1 s1 :: 'w arc) = 1" "weight (loop2 s2 :: 'w arc) = 1" by (simp_all add: loop1_def loop2_def arc_new_def)
  show "path (vf_arcs f1) s1 (side1 [m]) (nextstate (fst m))" "path (vf_arcs f2) s2 (side2 [m]) (nextstate (snd m))"
    "istring [a] = istring (side1 [m])" "ostring [a] = ostring (side2 [m])"
    "weight a = path_weight (side1 [m]) * path_weight (side2 [m])"
    using assms(2,3) lab lab2 w unfolding offered_def arc_of_pair_def by (elim disjE conjE; simp)+
qed

section \<open>The paths of the product\<close>

lemma sides_Cons: "side1 (m # ms) = side1 [m] @ side1 ms" "side2 (m # ms) = side2 [m] @ side2 ms"
  by simp_all

lemma append_strings [simp]:
  "istring (p @ q) = istring p @ istring q" "ostring (p @ q) = ostring p @ ostring q"
  by (simp_all add: istring_def ostring_def)

lemma append_weight [simp]: "path_weight (p @ q) = path_weight p * path_weight q"
  by (simp add: path_weight_def)

definition reads_as ::
  "('w::{zero,comm_monoid_mult}, 'sym) vector_fst \<Rightarrow> ('w, 'sym) vector_fst \<Rightarrow> 'fs compose_tuple list \<Rightarrow> nat \<Rightarrow> 'w arc list \<Rightarrow> nat \<Rightarrow>
   ('w arc \<times> 'w arc) list \<Rightarrow> bool" where
  "reads_as f1 f2 ts i q j ms \<longleftrightarrow>
     path (vf_arcs f1) (state_id1 (ts ! i)) (side1 ms) (state_id1 (ts ! j)) \<and>
     path (vf_arcs f2) (state_id2 (ts ! i)) (side2 ms) (state_id2 (ts ! j)) \<and> istring q = istring (side1 ms) \<and>
     ostring q = ostring (side2 ms) \<and> path_weight q = path_weight (side1 ms) * path_weight (side2 ms)"

lemma reads_as_Cons:
  assumes c: "composable f1 f2" and o: "offered f1 f2 (state_id1 (ts ! i)) (state_id2 (ts ! i)) m" and a: "arc_of_pair ts m fs a"
    and r: "reads_as f1 f2 ts (nextstate a) q j ms"
  shows "reads_as f1 f2 ts i (a # q) j (m # ms)"
proof -
  note s = offered_sides [OF c o a]
  have n: "state_id1 (ts ! nextstate a) = nextstate (fst m)" "state_id2 (ts ! nextstate a) = nextstate (snd m)"
    using a by (simp_all add: arc_of_pair_def)
  have q: "istring (a # q) = istring [a] @ istring q" "ostring (a # q) = ostring [a] @ ostring q" by simp_all
  have w: "path_weight (a # q) = (path_weight (side1 [m]) * path_weight (side1 ms)) * (path_weight (side2 [m]) * path_weight (side2 ms))"
    using s(5) r unfolding reads_as_def path_weight_simps by (simp only: mult_ac)
  show ?thesis
    using s(1-4) r w unfolding reads_as_def n sides_Cons [of m ms] q append_strings append_weight path_append by auto
qed

lemma product_paths:
  fixes f1 f2 :: "('w::{zero,comm_monoid_mult}, 'sym) vector_fst"
  assumes c: "composable f1 f2" and P: "is_product f1 f2 (d f1 f2) t0 ts g"
  shows "i < length ts \<Longrightarrow> path (vf_arcs g) i q j \<Longrightarrow>
      j < length ts \<and> (\<exists>ms. accepts d f1 f2 (state_id1 (ts ! i)) (state_id2 (ts ! i)) (tp_fs (ts ! i)) ms \<and> reads_as f1 f2 ts i q j ms)"
    and "i < length ts \<Longrightarrow> accepts d f1 f2 (state_id1 (ts ! i)) (state_id2 (ts ! i)) (tp_fs (ts ! i)) ms \<Longrightarrow>
      \<exists>q j. path (vf_arcs g) i q j \<and> j < length ts \<and> reads_as f1 f2 ts i q j ms"
proof -
  show "i < length ts \<Longrightarrow> path (vf_arcs g) i q j \<Longrightarrow>
      j < length ts \<and> (\<exists>ms. accepts d f1 f2 (state_id1 (ts ! i)) (state_id2 (ts ! i)) (tp_fs (ts ! i)) ms \<and> reads_as f1 f2 ts i q j ms)"
  proof (induction q arbitrary: i)
    case Nil
    then show ?case by (auto simp: reads_as_def intro!: exI [of _ "[]"])
  next
    case (Cons a q)
    then have a: "a \<in> set (vf_arcs g i)" "path (vf_arcs g) (nextstate a) q j" by simp_all
    obtain m fs where m: "offered f1 f2 (state_id1 (ts ! i)) (state_id2 (ts ! i)) m"
        "d f1 f2 (state_id1 (ts ! i)) (state_id2 (ts ! i)) (tp_fs (ts ! i)) (fst m) (snd m) = Some fs" "arc_of_pair ts m fs a"
      using product_steps(1) [OF c P Cons.prems(1) a(1)] by blast
    have n: "nextstate a < length ts" "ts ! nextstate a = tp_new (nextstate (fst m)) (nextstate (snd m)) fs"
      using m(3) by (simp_all add: arc_of_pair_def)
    obtain ms where ms: "j < length ts" "accepts d f1 f2 (nextstate (fst m)) (nextstate (snd m)) fs ms"
        "reads_as f1 f2 ts (nextstate a) q j ms"
      using Cons.IH [OF n(1) a(2)] n(2) by auto
    have "accepts d f1 f2 (state_id1 (ts ! i)) (state_id2 (ts ! i)) (tp_fs (ts ! i)) (m # ms)" using m(1,2) ms(2) by simp
    then show ?case using ms(1) reads_as_Cons [OF c m(1,3) ms(3)] by blast
  qed
  show "i < length ts \<Longrightarrow> accepts d f1 f2 (state_id1 (ts ! i)) (state_id2 (ts ! i)) (tp_fs (ts ! i)) ms \<Longrightarrow>
      \<exists>q j. path (vf_arcs g) i q j \<and> j < length ts \<and> reads_as f1 f2 ts i q j ms"
  proof (induction ms arbitrary: i)
    case Nil
    then show ?case by (auto simp: reads_as_def intro!: exI [of _ "[]"])
  next
    case (Cons m ms)
    then obtain fs where m: "offered f1 f2 (state_id1 (ts ! i)) (state_id2 (ts ! i)) m"
        "d f1 f2 (state_id1 (ts ! i)) (state_id2 (ts ! i)) (tp_fs (ts ! i)) (fst m) (snd m) = Some fs"
        "accepts d f1 f2 (nextstate (fst m)) (nextstate (snd m)) fs ms"
      by (auto split: option.splits)
    obtain a where a: "a \<in> set (vf_arcs g i)" "arc_of_pair ts m fs a" using product_steps(2) [OF c P Cons.prems(1) m(1,2)] by blast
    have n: "nextstate a < length ts" "ts ! nextstate a = tp_new (nextstate (fst m)) (nextstate (snd m)) fs"
      using a(2) by (simp_all add: arc_of_pair_def)
    obtain q j where q: "path (vf_arcs g) (nextstate a) q j" "j < length ts" "reads_as f1 f2 ts (nextstate a) q j ms"
      using Cons.IH [OF n(1)] m(3) n(2) by auto
    have "path (vf_arcs g) i (a # q) j" using a(1) q(1) by simp
    then show ?case using q(2) reads_as_Cons [OF c m(1) a(2) q(3)] by blast
  qed
qed

section \<open>The relation of the product\<close>

text \<open>All that is needed of the filter is that it lets some alignment of two matching paths through, and of the weights that
  a product is zero only if a factor is.\<close>

lemma product_final:
  assumes "\<forall>a b :: 'w. a * b = 0 \<longrightarrow> a = 0 \<or> b = 0" "is_product f1 f2 d t0 ts (g :: ('w::{zero,comm_monoid_mult}, 'sym) vector_fst)"
    "j < length ts"
  shows "vf_final_weight g j \<noteq> 0 \<longleftrightarrow> vf_final_weight f1 (state_id1 (ts ! j)) \<noteq> 0 \<and> vf_final_weight f2 (state_id2 (ts ! j)) \<noteq> 0"
    "vf_final_weight g j \<noteq> 0 \<Longrightarrow>
      vf_final_weight g j = vf_final_weight f1 (state_id1 (ts ! j)) * vf_final_weight f2 (state_id2 (ts ! j))"
proof -
  have "vf_final_weight g j = pair_final f1 f2 (ts ! j)" using assms(2,3) by (simp add: is_product_def finished_def)
  then show "vf_final_weight g j \<noteq> 0 \<longleftrightarrow> vf_final_weight f1 (state_id1 (ts ! j)) \<noteq> 0 \<and> vf_final_weight f2 (state_id2 (ts ! j)) \<noteq> 0"
    "vf_final_weight g j \<noteq> 0 \<Longrightarrow>
      vf_final_weight g j = vf_final_weight f1 (state_id1 (ts ! j)) * vf_final_weight f2 (state_id2 (ts ! j))"
    using assms(1) by (auto simp: pair_final_def Let_def split: if_splits)
qed

lemma path_end: "path arcs s p t \<Longrightarrow> path arcs s p u \<Longrightarrow> t = u"
  by (induction p arbitrary: s) auto

lemma product_relation:
  fixes f1 f2 :: "('w::{zero,comm_monoid_mult}, 'sym) vector_fst"
  assumes nz: "\<forall>a b :: 'w. a * b = 0 \<longrightarrow> a = 0 \<or> b = 0" and c: "composable f1 f2"
    and s: "vf_start f1 = Some s1" "vf_start f2 = Some s2"
    and P: "is_product f1 f2 (d f1 f2) (tp_new s1 s2 fs0) ts g"
    and al: "\<And>p1 p2. matched f1 f2 s1 s2 p1 p2 \<Longrightarrow> \<exists>ms. alignment d f1 f2 s1 s2 fs0 p1 p2 ms"
  shows "transduces g x w z \<longleftrightarrow> (\<exists>y w1 w2. transduces f1 x w1 y \<and> transduces f2 y w2 z \<and> w = w1 * w2)"
proof -
  have g: "vf_start g = Some 0" "ts ! 0 = tp_new s1 s2 fs0" "0 < length ts" using P by (auto simp: is_product_def)
  note paths = product_paths [where d = d, OF c P]
  show ?thesis
  proof
    assume "transduces g x w z"
    then obtain q j where q: "path (vf_arcs g) 0 q j" "vf_final_weight g j \<noteq> 0" "istring q = x" "ostring q = z"
        "w = path_weight q * vf_final_weight g j"
      using g(1) by (auto simp: transduces_def successful_def)
    obtain ms where ms: "j < length ts" "accepts d f1 f2 s1 s2 fs0 ms" "reads_as f1 f2 ts 0 q j ms"
      using paths(1) [OF g(3) q(1)] g(2) by auto
    have y: "ostring (side1 ms) = istring (side2 ms)" using accepts_sound [OF c ms(2)] by blast
    note fin = product_final [OF nz P ms(1)]
    let ?w1 = "vf_final_weight f1 (state_id1 (ts ! j))" and ?w2 = "vf_final_weight f2 (state_id2 (ts ! j))"
    have r: "path (vf_arcs f1) s1 (side1 ms) (state_id1 (ts ! j))" "path (vf_arcs f2) s2 (side2 ms) (state_id2 (ts ! j))"
        "istring (side1 ms) = x" "ostring (side2 ms) = z" "path_weight q = path_weight (side1 ms) * path_weight (side2 ms)"
      using ms(3) g(2) q(3,4) by (auto simp: reads_as_def)
    have "(side1 ms, ?w1) \<in> successful f1" "(side2 ms, ?w2) \<in> successful f2"
      using r(1,2) s fin(1) q(2) unfolding successful_def by blast+
    then have "transduces f1 x (path_weight (side1 ms) * ?w1) (ostring (side1 ms))"
        "transduces f2 (ostring (side1 ms)) (path_weight (side2 ms) * ?w2) z"
      using r(3,4) y unfolding transduces_def by auto
    moreover have "w = (path_weight (side1 ms) * ?w1) * (path_weight (side2 ms) * ?w2)"
      using q(5) r(5) fin(2) [OF q(2)] by (simp only: mult_ac)
    ultimately show "\<exists>y w1 w2. transduces f1 x w1 y \<and> transduces f2 y w2 z \<and> w = w1 * w2" by blast
  next
    assume "\<exists>y w1 w2. transduces f1 x w1 y \<and> transduces f2 y w2 z \<and> w = w1 * w2"
    then obtain p1 p2 t1 t2 where p: "path (vf_arcs f1) s1 p1 t1" "path (vf_arcs f2) s2 p2 t2" "vf_final_weight f1 t1 \<noteq> 0"
        "vf_final_weight f2 t2 \<noteq> 0" "istring p1 = x" "ostring p2 = z" "ostring p1 = istring p2"
        "w = (path_weight p1 * vf_final_weight f1 t1) * (path_weight p2 * vf_final_weight f2 t2)"
      using s by (auto simp: transduces_def successful_def)
    have "matched f1 f2 s1 s2 p1 p2" using c p by (auto simp: matched_def accepting_def)
    then obtain ms where ms: "accepts d f1 f2 s1 s2 fs0 ms" "side1 ms = p1" "side2 ms = p2"
      using al by (auto simp: alignment_def)
    obtain q j where q: "path (vf_arcs g) 0 q j" "j < length ts" "reads_as f1 f2 ts 0 q j ms"
      using paths(2) [OF g(3), of ms] ms(1) g(2) by auto
    have e: "t1 = state_id1 (ts ! j)" "t2 = state_id2 (ts ! j)"
      using q(3) ms(2,3) g(2) p(1,2) path_end by (auto simp: reads_as_def)
    note fin = product_final [OF nz P q(2)]
    have nz_j: "vf_final_weight g j \<noteq> 0" using fin(1) p(3,4) e by simp
    have "(q, vf_final_weight g j) \<in> successful g" using g(1) q(1) nz_j unfolding successful_def by blast
    moreover have "istring q = x" "ostring q = z" using q(3) ms(2,3) p(5,6) by (simp_all add: reads_as_def)
    moreover have "w = path_weight q * vf_final_weight g j"
      using fin(2) [OF nz_j] p(8) q(3) ms(2,3) unfolding e reads_as_def by (simp only: mult_ac)
    ultimately show "transduces g x w z" unfolding transduces_def by blast
  qed
qed

lemma composed_relation:
  fixes f1 f2 :: "('w::{zero,comm_monoid_mult}, 'sym) vector_fst"
  assumes nz: "\<forall>a b :: 'w. a * b = 0 \<longrightarrow> a = 0 \<or> b = 0" and c: "composable f1 f2"
    and P: "product_or_nothing f1 f2 (d f1 f2) fs0 g"
    and al: "\<And>s1 s2 p1 p2. matched f1 f2 s1 s2 p1 p2 \<Longrightarrow> \<exists>ms. alignment d f1 f2 s1 s2 fs0 p1 p2 ms"
  shows "transduces g x w z \<longleftrightarrow> (\<exists>y w1 w2. transduces f1 x w1 y \<and> transduces f2 y w2 z \<and> w = w1 * w2)"
proof (cases "vf_start f1 = None \<or> vf_start f2 = None")
  case True
  then have "vf_start g = None" using P by (auto simp: product_or_nothing_def split: option.splits)
  then show ?thesis using True by (auto simp: transduces_def successful_def)
next
  case False
  then obtain s1 s2 ts where s: "vf_start f1 = Some s1" "vf_start f2 = Some s2"
      and "is_product f1 f2 (d f1 f2) (tp_new s1 s2 fs0) ts g"
    using P by (auto simp: product_or_nothing_def)
  then show ?thesis using product_relation [where d = d, OF nz c s _ al] by blast
qed

end
