(* ===== verification/ComposeRun.thy ===== *)
theory ComposeRun
  imports ComposeRelation
begin

text \<open>
  Composition with the filters and matchers of the library: each sequencing filter over two sorting matchers, and over two
  hashing ones, is a model of the loop's interface.
\<close>

section \<open>The filters\<close>

definition operands ::
  "('w::{zero,one}, 'sym) vector_fst \<Rightarrow> ('w, 'sym) vector_fst \<Rightarrow> 'h hash_table_ops \<Rightarrow> ('h \<Rightarrow> (64 word \<times> nat) set) \<Rightarrow> bool" where
  "operands f1 f2 ops held \<longleftrightarrow> composable f1 f2 \<and> vf_closed f1 \<and> vf_closed f2 \<and> hash_table_ok ops held"

lemma operands_parts:
  assumes "operands f1 f2 ops held"
  shows "composable f1 f2" "vf_closed f1" "vf_closed f2" "hash_table_ok ops held"
  using assms by (simp_all add: operands_def)

lemma in_range_not_none:
  "vf_closed f \<Longrightarrow> s < vf_num_states f \<Longrightarrow> s \<noteq> no_state"
  by (simp add: vf_closed_def vf_num_states_def no_state_def)

lemma flags_decide:
  assumes "s1 \<noteq> no_state" "s2 \<noteq> no_state"
  shows "sf_flags f1 F \<Longrightarrow> sf_filter_arc (sf_set_state F s1 s2 fs) a b = sf_decide f1 f2 s1 s2 fs a b"
    "af_flags f2 G \<Longrightarrow> af_filter_arc (af_set_state G s1 s2 fs) a b = af_decide f1 f2 s1 s2 fs a b"
    "mf_flags f1 f2 H \<Longrightarrow> mf_filter_arc (mf_set_state H s1 s2 fs) a b = mf_decide f1 f2 s1 s2 fs a b"
proof -
  show "sf_filter_arc (sf_set_state F s1 s2 fs) a b = sf_decide f1 f2 s1 s2 fs a b" if "sf_flags f1 F"
    using sf_set_state_flags [OF that, of s1 s2 fs] sf_set_state_flags [OF sf_after_flags [of f1 "[]"], of s1 s2 fs] assms
    by (simp add: sf_filter_arc_def sf_decide_def sf_flags_def sf_after_def)
  show "af_filter_arc (af_set_state G s1 s2 fs) a b = af_decide f1 f2 s1 s2 fs a b" if "af_flags f2 G"
    using af_set_state_flags [OF that, of s1 s2 fs] af_set_state_flags [OF af_after_flags [of f2 "[]"], of s1 s2 fs] assms
    by (simp add: af_filter_arc_def af_decide_def af_flags_def af_after_def)
  show "mf_filter_arc (mf_set_state H s1 s2 fs) a b = mf_decide f1 f2 s1 s2 fs a b" if "mf_flags f1 f2 H"
    unfolding mf_decide_def
    using mf_set_state_flags [OF that, of s1 s2 fs] mf_set_state_flags [OF mf_after_flags [of f1 f2 "[]"], of s1 s2 fs] assms
    by (intro mf_filter_arc_cong) (simp_all add: mf_flags_def mf_after_def)
qed

lemma ask_flags:
  assumes "s1 < vf_num_states f1" "s2 < vf_num_states f2" "operands f1 f2 ops held"
  shows "sf_flags f1 F \<Longrightarrow> map_option h (sf_filter_arc (sf_set_state F s1 s2 fs) a b) = map_option h (sf_decide f1 f2 s1 s2 fs a b)"
    "af_flags f2 G \<Longrightarrow> map_option h (af_filter_arc (af_set_state G s1 s2 fs) a b) = map_option h (af_decide f1 f2 s1 s2 fs a b)"
    "mf_flags f1 f2 H \<Longrightarrow> map_option h (mf_filter_arc (mf_set_state H s1 s2 fs) a b) = map_option h (mf_decide f1 f2 s1 s2 fs a b)"
  using assms flags_decide [of s1 s2] in_range_not_none unfolding operands_def by metis+

section \<open>The models of the interface\<close>

interpretation seq_sorted: composition sorted_ops f1 "sm_ok MatchOutput f1" "sm_at MatchOutput f1" "sm_left MatchOutput f1"
    sorted_ops f2 "sm_ok MatchInput f2" "sm_at MatchInput f2" "sm_left MatchInput f2"
    sequence_ops "\<lambda>F. sf_flags f1 F \<and> operands f1 f2 ops held" "sf_decide f1 f2" ops held hash
  for f1 f2 :: "('w::{zero,monoid_mult}, 'sym) vector_fst" and ops :: "'h hash_table_ops" and held
    and hash :: "char_state compose_tuple \<Rightarrow> 64 word"
  by unfold_locales
    (auto simp: sequence_ops_def sf_set_state_flags intro: ask_flags operands_parts)

interpretation seq_hashed: composition hash_ops f1 "hm_ok MatchOutput f1" "hm_at MatchOutput f1" "hm_left MatchOutput f1"
    hash_ops f2 "hm_ok MatchInput f2" "hm_at MatchInput f2" "hm_left MatchInput f2"
    sequence_ops "\<lambda>F. sf_flags f1 F \<and> operands f1 f2 ops held" "sf_decide f1 f2" ops held hash
  for f1 f2 :: "('w::{zero,monoid_mult}, 'sym) vector_fst" and ops :: "'h hash_table_ops" and held
    and hash :: "char_state compose_tuple \<Rightarrow> 64 word"
  by unfold_locales
    (auto simp: sequence_ops_def sf_set_state_flags intro: ask_flags operands_parts)

interpretation alt_sorted: composition sorted_ops f1 "sm_ok MatchOutput f1" "sm_at MatchOutput f1" "sm_left MatchOutput f1"
    sorted_ops f2 "sm_ok MatchInput f2" "sm_at MatchInput f2" "sm_left MatchInput f2"
    alt_sequence_ops "\<lambda>F. af_flags f2 F \<and> operands f1 f2 ops held" "af_decide f1 f2" ops held hash
  for f1 f2 :: "('w::{zero,monoid_mult}, 'sym) vector_fst" and ops :: "'h hash_table_ops" and held
    and hash :: "char_state compose_tuple \<Rightarrow> 64 word"
  by unfold_locales
    (auto simp: alt_sequence_ops_def af_set_state_flags intro: ask_flags operands_parts)

interpretation match_sorted: composition sorted_ops f1 "sm_ok MatchOutput f1" "sm_at MatchOutput f1" "sm_left MatchOutput f1"
    sorted_ops f2 "sm_ok MatchInput f2" "sm_at MatchInput f2" "sm_left MatchInput f2"
    match_ops "\<lambda>F. mf_flags f1 f2 F \<and> operands f1 f2 ops held" "mf_decide f1 f2" ops held hash
  for f1 f2 :: "('w::{zero,monoid_mult}, 'sym) vector_fst" and ops :: "'h hash_table_ops" and held
    and hash :: "char_state compose_tuple \<Rightarrow> 64 word"
  by unfold_locales
    (auto simp: match_ops_def mf_set_state_flags intro: ask_flags operands_parts)

section \<open>Composition\<close>

lemma both_match: "match_types MatchOutput MatchInput = Inr MatchBoth"
  by (simp add: match_types_def)

text \<open>Composing over two sorting matchers with each of the filters, and with the first of them over two hashing ones.\<close>

definition composes_by ::
  "'h hash_table_ops \<Rightarrow> ('fs compose_tuple \<Rightarrow> 64 word) \<Rightarrow> ('w::{zero,one,times}, 'fl, 'fs) filter_ops \<Rightarrow>
   ('w, 'm) matcher_ops \<Rightarrow> (('w, 'sym) vector_fst \<Rightarrow> match_type \<Rightarrow> matcher_error + 'm) \<Rightarrow> ('w, 'sym) vector_fst \<Rightarrow>
   ('w, 'sym) vector_fst \<Rightarrow> ('w, 'sym) vector_fst \<Rightarrow> 'fl \<Rightarrow> ('w, 'sym) vector_fst \<Rightarrow> bool" where
  "composes_by ops hash F M new f1 f2 ofst fl g \<longleftrightarrow>
     (\<exists>m1 m2. new f1 MatchOutput = Inr m1 \<and> new f2 MatchInput = Inr m2 \<and>
        compose_with ops hash F M M f1 f2 ofst fl m1 m2 = Some (g, Inr ()))"

lemma filters_run:
  fixes f1 f2 ofst :: "('w::{zero,monoid_mult}, 'sym) vector_fst"
  assumes ok: "operands f1 f2 ops held"
  shows "sorted_by MatchOutput f1 \<Longrightarrow> sorted_by MatchInput f2 \<Longrightarrow>
      \<exists>g. composes_by ops hash sequence_ops sorted_ops sm_new f1 f2 ofst (sf_new f1) g \<and>
        product_or_nothing f1 f2 (sf_decide f1 f2) STATE_DEFAULT g"
    and "sorted_by MatchOutput f1 \<Longrightarrow> sorted_by MatchInput f2 \<Longrightarrow>
      \<exists>g. composes_by ops hash alt_sequence_ops sorted_ops sm_new f1 f2 ofst (af_new f2) g \<and>
        product_or_nothing f1 f2 (af_decide f1 f2) STATE_DEFAULT g"
    and "sorted_by MatchOutput f1 \<Longrightarrow> sorted_by MatchInput f2 \<Longrightarrow>
      \<exists>g. composes_by ops hash match_ops sorted_ops sm_new f1 f2 ofst (mf_new f1 f2) g \<and>
        product_or_nothing f1 f2 (mf_decide f1 f2) STATE_DEFAULT g"
    and "\<exists>g. composes_by ops hash sequence_ops hash_ops hm_new f1 f2 ofst (sf_new f1) g \<and>
        product_or_nothing f1 f2 (sf_decide f1 f2) STATE_DEFAULT g"
proof -
  have start: "cf_start sequence_ops (sf_new f1) = STATE_DEFAULT" "cf_start alt_sequence_ops (af_new f2) = STATE_DEFAULT"
      "cf_start match_ops (mf_new f1 f2) = STATE_DEFAULT"
    by (simp_all add: sequence_ops_def alt_sequence_ops_def match_ops_def)
  have fl: "sf_flags f1 (sf_new f1) \<and> operands f1 f2 ops held" "af_flags f2 (af_new f2) \<and> operands f1 f2 ops held"
      "mf_flags f1 f2 (mf_new f1 f2) \<and> operands f1 f2 ops held"
    using sf_after_flags [of f1 "[]"] af_after_flags [of f2 "[]"] mf_after_flags [of f1 f2 "[]"] ok
    by (simp_all add: sf_after_def af_after_def mf_after_def)
  obtain h1 where h1: "hm_new f1 MatchOutput = Inr h1" "hm_ok MatchOutput f1 h1"
    using new_matchers_ok(2) [of MatchOutput f1] by blast
  obtain h2 where h2: "hm_new f2 MatchInput = Inr h2" "hm_ok MatchInput f2 h2"
    using new_matchers_ok(2) [of MatchInput f2] by blast
  have hmt: "match_types (mo_match_type hash_ops h1) (mo_match_type hash_ops h2) = Inr MatchBoth"
    using h1(2) h2(2) both_match by (simp add: hash_ops_def hm_ok_def)
  show "\<exists>g. composes_by ops hash sequence_ops hash_ops hm_new f1 f2 ofst (sf_new f1) g \<and>
      product_or_nothing f1 f2 (sf_decide f1 f2) STATE_DEFAULT g"
    using seq_hashed.compose_with_run [OF finite fl(1) h1(2) h2(2) hmt, of hash ofst] h1(1) h2(1)
    unfolding start composes_by_def by blast
  assume sorted: "sorted_by MatchOutput f1" "sorted_by MatchInput f2"
  obtain m1 where m1: "sm_new f1 MatchOutput = Inr m1" "sm_ok MatchOutput f1 m1"
    using new_matchers_ok(1) [of MatchOutput f1] sorted by blast
  obtain m2 where m2: "sm_new f2 MatchInput = Inr m2" "sm_ok MatchInput f2 m2"
    using new_matchers_ok(1) [of MatchInput f2] sorted by blast
  have mt: "match_types (mo_match_type sorted_ops m1) (mo_match_type sorted_ops m2) = Inr MatchBoth"
    using m1(2) m2(2) both_match by (simp add: sorted_ops_def sm_ok_def)
  show "\<exists>g. composes_by ops hash sequence_ops sorted_ops sm_new f1 f2 ofst (sf_new f1) g \<and>
      product_or_nothing f1 f2 (sf_decide f1 f2) STATE_DEFAULT g"
    using seq_sorted.compose_with_run [OF finite fl(1) m1(2) m2(2) mt, of hash ofst] m1(1) m2(1)
    unfolding start composes_by_def by blast
  show "\<exists>g. composes_by ops hash alt_sequence_ops sorted_ops sm_new f1 f2 ofst (af_new f2) g \<and>
      product_or_nothing f1 f2 (af_decide f1 f2) STATE_DEFAULT g"
    using alt_sorted.compose_with_run [OF finite fl(2) m1(2) m2(2) mt, of hash ofst] m1(1) m2(1)
    unfolding start composes_by_def by blast
  show "\<exists>g. composes_by ops hash match_ops sorted_ops sm_new f1 f2 ofst (mf_new f1 f2) g \<and>
      product_or_nothing f1 f2 (mf_decide f1 f2) STATE_DEFAULT g"
    using match_sorted.compose_with_run [OF finite fl(3) m1(2) m2(2) mt, of hash ofst] m1(1) m2(1)
    unfolding start composes_by_def by blast
qed

text \<open>The result of a composition is an FST whose arcs lead to states of it, and it has at most a state for each tuple.\<close>

lemma product_shape:
  fixes f1 f2 :: "('w::{zero,monoid_mult}, 'sym) vector_fst"
  assumes ok: "operands f1 f2 ops held" and g: "product_or_nothing f1 f2 (sf_decide f1 f2) fs g"
  shows "a \<in> set (vf_arcs g s) \<Longrightarrow> nextstate a < vf_num_states g" "vf_start g = Some s0 \<Longrightarrow> s0 < vf_num_states g"
    "vf_num_states g \<le> vf_num_states f1 * vf_num_states f2 * 256"
    "s < vf_num_states g \<Longrightarrow> vf_final_weight g s \<noteq> 0 \<Longrightarrow>
      \<exists>s1 s2. vf_final_weight f1 s1 \<noteq> 0 \<and> vf_final_weight f2 s2 \<noteq> 0 \<and>
        vf_final_weight g s = vf_final_weight f1 s1 * vf_final_weight f2 s2"
proof -
  have "(\<forall>s. \<forall>a \<in> set (vf_arcs g s). nextstate a < vf_num_states g) \<and> (\<forall>s0. vf_start g = Some s0 \<longrightarrow> s0 < vf_num_states g) \<and>
      vf_num_states g \<le> vf_num_states f1 * vf_num_states f2 * 256 \<and>
      (\<forall>s < vf_num_states g. vf_final_weight g s \<noteq> 0 \<longrightarrow> (\<exists>s1 s2. vf_final_weight f1 s1 \<noteq> 0 \<and> vf_final_weight f2 s2 \<noteq> 0 \<and>
        vf_final_weight g s = vf_final_weight f1 s1 * vf_final_weight f2 s2))"
  proof (cases "vf_start f1 = None \<or> vf_start f2 = None")
    case True
    then have "vf_num_states g = 0" "vf_start g = None" using g by (auto simp: product_or_nothing_def split: option.splits)
    then show ?thesis using outside(1) [of g] by simp
  next
    case False
    then obtain s1 s2 ts where s: "vf_start f1 = Some s1" "vf_start f2 = Some s2"
        and P: "is_product f1 f2 (sf_decide f1 f2) (tp_new s1 s2 fs) ts g"
      using g by (auto simp: product_or_nothing_def)
    have range: "state_id1 (tp_new s1 s2 fs) < vf_num_states f1" "state_id2 (tp_new s1 s2 fs) < vf_num_states f2"
      using operands_parts(2,3) [OF ok] s unfolding closed_iff by auto
    have fl: "sf_flags f1 (sf_new f1) \<and> operands f1 f2 ops held"
      using sf_after_flags [of f1 "[]"] ok by (simp add: sf_after_def)
    have "set ts \<subseteq> tuples_over (vf_num_states f1) (vf_num_states f2)"
      using P seq_sorted.reached_in_range [OF range fl] by (auto simp: is_product_def tuples_over_def)
    then have "card (set ts) \<le> vf_num_states f1 * vf_num_states f2 * card (UNIV :: char_state set)"
      using tuples_over_finite [where ?'fs = char_state, OF finite] by (meson card_mono le_trans)
    then have size: "length ts \<le> vf_num_states f1 * vf_num_states f2 * 256"
      using P distinct_card [of ts] by (simp add: is_product_def card_word)
    have arcs: "nextstate a < length ts" if a: "a \<in> set (vf_arcs g i)" for a i
    proof -
      have i: "i < length ts" using a outside(1) [of g i] P by (cases "i < length ts") (auto simp: is_product_def)
      then show ?thesis using P list_all2_left [OF _ a] by (fastforce simp: is_product_def finished_def stands_for_def)
    qed
    have "vf_final_weight g i = pair_final f1 f2 (ts ! i)" if "i < length ts" for i
      using P that by (simp add: is_product_def finished_def)
    then have fin: "\<exists>s1 s2. vf_final_weight f1 s1 \<noteq> 0 \<and> vf_final_weight f2 s2 \<noteq> 0 \<and>
        vf_final_weight g i = vf_final_weight f1 s1 * vf_final_weight f2 s2"
      if "i < length ts" "vf_final_weight g i \<noteq> 0" for i
      using that by (auto simp: pair_final_def Let_def split: if_splits)
    have "vf_num_states g = length ts" "vf_start g = Some 0" "0 < length ts" using P by (auto simp: is_product_def)
    then show ?thesis using arcs size fin by simp
  qed
  then show "a \<in> set (vf_arcs g s) \<Longrightarrow> nextstate a < vf_num_states g" "vf_start g = Some s0 \<Longrightarrow> s0 < vf_num_states g"
    "vf_num_states g \<le> vf_num_states f1 * vf_num_states f2 * 256"
    "s < vf_num_states g \<Longrightarrow> vf_final_weight g s \<noteq> 0 \<Longrightarrow>
      \<exists>s1 s2. vf_final_weight f1 s1 \<noteq> 0 \<and> vf_final_weight f2 s2 \<noteq> 0 \<and>
        vf_final_weight g s = vf_final_weight f1 s1 * vf_final_weight f2 s2"
    by blast+
qed

end
