(* ===== verification/ComposeAll.thy ===== *)
theory ComposeAll
  imports ComposeRun
begin

text \<open>
  \<open>compose\<close> as a whole: the two FSTs are copied and sorted, composed with the sequence filter, and the result is trimmed.
\<close>

section \<open>The sorted copies\<close>

lemma counts_calls:
  assumes "vf_counts f"
  shows "vf_counts (add_arc f s a)" "vf_counts (set_final f s w)" "vf_counts (set_start f s)" "vf_counts (add_states f n)"
    "vf_counts (set_input_symbols f syms)" "vf_counts (set_output_symbols f syms)" "vf_counts (set_properties f p m)"
  using call_counts [OF assms, of "AddArc s a"] call_counts [OF assms, of "SetFinal s w"]
    call_counts [OF assms, of "SetStart s"] call_counts [OF assms, of "AddStates n"] assms
  by (simp_all add: set_input_symbols_def set_output_symbols_def set_properties_def vf_counts_def modify_properties_def)

lemma add_arcs_counts: "vf_counts f \<Longrightarrow> vf_counts (fold (\<lambda>a f. add_arc f s a) as f)"
  by (induction as arbitrary: f) (simp_all add: counts_calls)

text \<open>An FST with exact counters is what a reader sees of it.\<close>

lemma same_states:
  assumes "vf_counts f" "vf_counts g" "vf_num_states f = vf_num_states g"
    and "\<And>s. s < vf_num_states f \<Longrightarrow> vf_arcs f s = vf_arcs g s \<and> vf_final_weight f s = vf_final_weight g s"
  shows "vf_states f = vf_states g"
proof (rule nth_equalityI)
  show n: "length (vf_states f) = length (vf_states g)" using assms(3) by (simp add: vf_num_states_def)
  fix s assume s: "s < length (vf_states f)"
  then have "counts_ok (vf_states f ! s)" "counts_ok (vf_states g ! s)" using assms(1,2) n by (simp_all add: counts_nth)
  moreover have "vs_arcs (vf_states f ! s) = vs_arcs (vf_states g ! s)" "vs_final (vf_states f ! s) = vs_final (vf_states g ! s)"
    using assms(4) [of s] s n by (simp_all add: vf_num_states_def vf_arcs_def vf_final_weight_def vget_def)
  ultimately show "vf_states f ! s = vf_states g ! s" by (simp add: counts_ok_def)
qed

lemma copy_states_run:
  assumes "vf_num_states h = vf_num_states f" "vf_counts h" "n \<le> vf_num_states f"
    "\<And>s. vf_arcs h s = []" "\<And>s. vf_final_weight h s = 0"
  shows "vf_counts (fold (copy_state f) [0..<n] h)" "vf_num_states (fold (copy_state f) [0..<n] h) = vf_num_states f"
    "vf_start (fold (copy_state f) [0..<n] h) = vf_start h"
    "vf_arcs (fold (copy_state f) [0..<n] h) s = (if s < n then vf_arcs f s else [])"
    "vf_final_weight (fold (copy_state f) [0..<n] h) s = (if s < n then vf_final_weight f s else 0)"
proof -
  let ?P = "\<lambda>n g. vf_counts g \<and> vf_num_states g = vf_num_states f \<and> vf_start g = vf_start h \<and>
    (\<forall>s. vf_arcs g s = (if s < n then vf_arcs f s else [])) \<and>
    (\<forall>s. vf_final_weight g s = (if s < n then vf_final_weight f s else 0))"
  have "?P n (fold (copy_state f) [0..<n] h)"
    using assms(3)
  proof (induction n)
    case 0
    then show ?case using assms by simp
  next
    case (Suc n)
    then have IH: "?P n (fold (copy_state f) [0..<n] h)" by simp
    have "?P (Suc n) (copy_state f n g)" if "?P n g" for g
      using that Suc.prems by (auto simp: copy_state_def add_arcs_counts counts_calls add_arcs_view add_arcs_arcs vf_simps less_Suc_eq)
    then show ?case using IH by simp
  qed
  then show "vf_counts (fold (copy_state f) [0..<n] h)" "vf_num_states (fold (copy_state f) [0..<n] h) = vf_num_states f"
    "vf_start (fold (copy_state f) [0..<n] h) = vf_start h"
    "vf_arcs (fold (copy_state f) [0..<n] h) s = (if s < n then vf_arcs f s else [])"
    "vf_final_weight (fold (copy_state f) [0..<n] h) s = (if s < n then vf_final_weight f s else 0)"
    by blast+
qed

text \<open>The copy before it is sorted, and the query for its order.\<close>

definition unsorted_copy :: "('w::{zero,one}, 'sym) vector_fst \<Rightarrow> ('w, 'sym) vector_fst" where
  "unsorted_copy f =
     (let copy = set_output_symbols (set_input_symbols (add_states vf_new (vf_num_states f)) (vf_isymbols f)) (vf_osymbols f);
          copy = (case vf_start f of Some s \<Rightarrow> set_start copy s | None \<Rightarrow> copy)
      in set_properties (fold (copy_state f) [0..<vf_num_states f] copy)
           (cache_get_masked (vf_properties f) K_FST_PROPERTIES) K_FST_PROPERTIES)"

lemma unsorted_copy_run:
  fixes f :: "('w::{zero,one}, 'sym) vector_fst"
  assumes "vf_counts f" "vf_sound f" "vf_closed f"
  shows "vf_states (unsorted_copy f) = vf_states f" "vf_start (unsorted_copy f) = vf_start f" "vf_sound (unsorted_copy f)"
proof -
  let ?h = "set_output_symbols (set_input_symbols (add_states vf_new (vf_num_states f)) (vf_isymbols f)) (vf_osymbols f)
    :: ('w, 'sym) vector_fst"
  let ?h' = "case vf_start f of Some s \<Rightarrow> set_start ?h s | None \<Rightarrow> ?h"
  let ?g = "fold (copy_state f) [0..<vf_num_states f] ?h'"
  have new: "vf_counts (vf_new :: ('w, 'sym) vector_fst)" by (simp add: vf_counts_def vf_new_def)
  have counts: "vf_counts ?h" by (intro counts_calls new)
  have st: "s \<noteq> no_state" if "vf_start f = Some s" for s
    using assms(3) that in_range_not_none [OF assms(3)] unfolding closed_iff by blast
  have h: "vf_num_states ?h' = vf_num_states f" "vf_counts ?h'" "\<And>s. vf_arcs ?h' s = []" "\<And>s. vf_final_weight ?h' s = 0"
      "vf_start ?h' = vf_start f"
    using st counts by (auto simp: vf_simps counts_calls split: option.split)
  note g = copy_states_run [OF h(1,2) order_refl h(3,4)]
  have states: "vf_states ?g = vf_states f"
    by (rule same_states [OF g(1) assms(1) g(2)]) (simp add: g)
  let ?c = "unsorted_copy f"
  have c: "?c = set_properties ?g (cache_get_masked (vf_properties f) K_FST_PROPERTIES) K_FST_PROPERTIES"
    by (simp add: unsorted_copy_def Let_def)
  show s: "vf_states ?c = vf_states f" "vf_start ?c = vf_start f"
    using states g(3) h(5) by (simp_all add: c set_properties_def modify_properties_def)
  have "bit (vf_properties ?c) i \<longleftrightarrow> bit (vf_properties f) i" if "i \<in> trinary" for i
    using that by (auto simp: c set_properties_def modify_properties_def word_bits bit_fst_properties bit_stored trinary_def)
  then show "vf_sound ?c" using assms(2) by (simp add: vf_sound_def sound_iff s)
qed

lemma same_arcs_successful:
  assumes "vf_start g = vf_start f" "\<And>s. set (vf_arcs g s) = set (vf_arcs f s)" "\<And>s. vf_final_weight g s = vf_final_weight f s"
  shows "successful g = successful f"
proof -
  have "path (vf_arcs g) s p t \<longleftrightarrow> path (vf_arcs f) s p t" for s p t
    using assms(2) by (induction p arbitrary: s) auto
  then show ?thesis using assms(1,3) by (simp add: successful_def)
qed

lemma sorted_by_truth:
  "sorted_by MatchOutput g \<longleftrightarrow> o_label_sorted (vf_states g)" "sorted_by MatchInput g \<longleftrightarrow> i_label_sorted (vf_states g)"
  by (simp_all add: sorted_by_def o_label_sorted_def i_label_sorted_def each_state_def extract_label_def vf_arcs_of)

definition sorted_as :: "('w::{zero,one} \<Rightarrow> bool) \<Rightarrow> bool \<Rightarrow> ('w, 'sym) vector_fst \<Rightarrow> ('w, 'sym) vector_fst \<Rightarrow> bool" where
  "sorted_as is_member by_output f g \<longleftrightarrow> sorted_by (if by_output then MatchOutput else MatchInput) g \<and> vf_counts g \<and> vf_closed g \<and>
     vf_start g = vf_start f \<and> vf_num_states g = vf_num_states f \<and> (\<forall>s. mset (vf_arcs g s) = mset (vf_arcs f s)) \<and>
     (\<forall>s. vf_final_weight g s = vf_final_weight f s)"

lemma sorted_copy_run:
  fixes f :: "('w::{zero,one}, 'sym) vector_fst"
  assumes "checkable is_member f" "vf_counts f" "vf_sound f"
  shows "\<exists>g. sorted_copy is_member f by_output = Some g \<and> sorted_as is_member by_output f g"
proof -
  have cl: "vf_closed f" using assms(1) by (simp add: checkable_def)
  note u = unsorted_copy_run [OF assms(2,3) cl]
  let ?w = "if by_output then K_O_LABEL_SORTED else K_I_LABEL_SORTED" and ?i = "if by_output then 30 else 28 :: nat"
  let ?c = "if by_output then olabel_compare else ilabel_compare :: 'w arc_compare"
  have check: "checkable is_member (unsorted_copy f)" using assms(1) u(1,2) unfolding checkable_def vf_closed_def proper_finals_def by simp
  have snd: "sound (vf_properties (unsorted_copy f)) (vf_states (unsorted_copy f)) (vf_start (unsorted_copy f))"
    using u(3) by (simp add: vf_sound_def)
  obtain p h where h: "cached_properties is_member (unsorted_copy f) ?w True = Some (p, h)" "vf_states h = vf_states f"
      "vf_start h = vf_start f" "\<forall>i \<in> trinary. bit p i \<longleftrightarrow> bit ?w i \<and> truth (vf_states f) (vf_start f) i"
    using cached_query [OF check snd, of ?w] u(1,2) by auto
  have view: "vf_arcs h = vf_arcs f" "vf_final_weight h = vf_final_weight f" "vf_num_states h = vf_num_states f"
    by (rule ext; simp add: vf_arcs_def vf_final_weight_def h(2))+ (simp add: vf_num_states_def h(2))
  have counts: "vf_counts h" using assms(2) by (simp add: vf_counts_def h(2))
  have closed: "vf_closed h" using cl by (simp add: vf_closed_def h(2,3))
  let ?g = "if p AND ?w = 0 then arc_sort h ?c else h"
  have run: "sorted_copy is_member f by_output = Some ?g"
    using h(1) by (simp add: sorted_copy_def unsorted_copy_def Let_def split: option.splits)
  show ?thesis
  proof (cases "p AND ?w = 0")
    case True
    have "sorted_by (if by_output then MatchOutput else MatchInput) (arc_sort h ?c)"
      by (simp add: sorted_by_truth arc_sort_run set_properties_def modify_properties_def olabel_sorted ilabel_sorted)
    moreover have "vf_closed (arc_sort h ?c)" using closed unfolding closed_iff arc_sort_view by simp
    ultimately show ?thesis using run True arc_sort_counts [OF counts] view h(3)
      by (simp add: sorted_as_def arc_sort_view)
  next
    case False
    have one: "bit ?w i \<longleftrightarrow> i = ?i" for i by simp
    have "\<exists>i. bit (p AND ?w) i" using False bit_eq_iff [of "p AND ?w" 0] by (auto simp del: if_split)
    then obtain i where "bit p i" "bit ?w i" by (auto simp: bit_and_iff)
    then have "bit p ?i" using one by metis
    moreover have "?i \<in> trinary" by (simp add: trinary_def)
    ultimately have "truth (vf_states f) (vf_start f) ?i" using h(4) by blast
    then have "sorted_by (if by_output then MatchOutput else MatchInput) h"
      by (simp add: sorted_by_truth h(2) truth_simps split: if_splits)
    then show ?thesis using run False counts closed view h(3) by (simp add: sorted_as_def)
  qed
qed

section \<open>The whole call\<close>

lemma sorted_as_facts:
  assumes "sorted_as is_member b f g"
  shows "vf_num_states g = vf_num_states f" "successful g = successful f" "set (vf_arcs g s) = set (vf_arcs f s)"
    "vf_final_weight g s = vf_final_weight f s"
proof -
  have set: "set (vf_arcs g s) = set (vf_arcs f s)" for s using assms unfolding sorted_as_def by (metis set_mset_mset)
  show "set (vf_arcs g s) = set (vf_arcs f s)" by (rule set)
  show "successful g = successful f" using assms set by (intro same_arcs_successful) (simp_all add: sorted_as_def)
qed (use assms in \<open>simp_all add: sorted_as_def\<close>)

lemma sorted_operands:
  assumes ok: "operands f1 f2 ops held" and g: "sorted_as is_member True f1 g1" "sorted_as is_member False f2 g2"
  shows "operands g1 g2 ops held" "sorted_by MatchOutput g1" "sorted_by MatchInput g2"
  using ok g sorted_as_facts [OF g(1)] sorted_as_facts [OF g(2)]
  by (simp_all add: operands_def composable_def sorted_as_def vf_num_states_def)

lemma proper_final: "proper_finals is_member f \<Longrightarrow> vf_final_weight f s \<noteq> 0 \<Longrightarrow> is_member (vf_final_weight f s)"
  by (auto simp: proper_finals_def vf_final_weight_def vget_def split: option.splits if_splits)

lemma transduces_trimmed:
  assumes "bij_betw (\<lambda>(p, w). (map (retarget r) p, w)) (successful g) (successful h)"
  shows "transduces h x w y \<longleftrightarrow> transduces g x w y"
proof -
  have "istring (map (retarget r) p) = istring p" "ostring (map (retarget r) p) = ostring p"
      "path_weight (map (retarget r) p) = path_weight p" for p :: "'a arc list"
    by (induction p) (simp_all add: retarget_def)
  then show ?thesis unfolding transduces_def bij_betw_imp_surj_on [OF assms, symmetric] by (simp add: split_beta)
qed

lemma sequencing_relations:
  fixes f1 f2 :: "('w::{zero,comm_monoid_mult}, 'sym) vector_fst"
  assumes "\<forall>a b :: 'w. a * b = 0 \<longrightarrow> a = 0 \<or> b = 0" "composable f1 f2"
  defines "composed \<equiv> \<lambda>g. \<forall>x w z. transduces g x w z \<longleftrightarrow> (\<exists>y w1 w2. transduces f1 x w1 y \<and> transduces f2 y w2 z \<and> w = w1 * w2)"
  shows "product_or_nothing f1 f2 (sf_decide f1 f2) STATE_DEFAULT g \<Longrightarrow> composed g"
    "product_or_nothing f1 f2 (af_decide f1 f2) STATE_DEFAULT g \<Longrightarrow> composed g"
    "product_or_nothing f1 f2 (mf_decide f1 f2) STATE_DEFAULT g \<Longrightarrow> composed g"
  unfolding composed_def
  by (intro allI, rule composed_relation [where d = sf_decide, OF assms(1,2)], assumption, rule ex1_implies_ex, erule seqf.exactly_one)
    (intro allI, rule composed_relation [where d = af_decide, OF assms(1,2)], assumption, rule ex1_implies_ex, erule altf.exactly_one,
     intro allI, rule composed_relation [where d = mf_decide, OF assms(1,2)], assumption, rule ex1_implies_ex, erule matchf.exactly_one)

lemma compose_run:
  fixes f1 f2 ofst :: "('w::{zero,comm_monoid_mult}, 'sym) vector_fst"
  assumes ok: "operands f1 f2 ops held" and check: "checkable is_member f1" "checkable is_member f2"
    and sound: "vf_sound f1" "vf_sound f2" and size: "vf_num_states f1 * vf_num_states f2 * 256 \<le> 2 ^ 32"
    and member: "\<forall>a b. is_member a \<longrightarrow> is_member b \<longrightarrow> is_member (a * b)"
    and nz: "\<forall>a b :: 'w. a * b = 0 \<longrightarrow> a = 0 \<or> b = 0"
  shows "\<exists>g h. compose_options ops hash is_member f1 f2 ofst False = Some (g, Inr ()) \<and>
    compose ops hash is_member f1 f2 ofst = Some (h, Inr ()) \<and>
    is_accessible (vf_states h) (vf_start h) \<and> is_coaccessible (vf_states h) \<and>
    (\<forall>x w z. transduces g x w z \<longleftrightarrow> (\<exists>y w1 w2. transduces f1 x w1 y \<and> transduces f2 y w2 z \<and> w = w1 * w2)) \<and>
    (\<forall>x w z. transduces h x w z \<longleftrightarrow> transduces g x w z)"
proof -
  have counts: "vf_counts f1" "vf_counts f2" using operands_parts(1) [OF ok] by (simp_all add: composable_def)
  obtain g1 where g1: "sorted_copy is_member f1 True = Some g1" "sorted_as is_member True f1 g1"
    using sorted_copy_run [OF check(1) counts(1) sound(1)] by blast
  obtain g2 where g2: "sorted_copy is_member f2 False = Some g2" "sorted_as is_member False f2 g2"
    using sorted_copy_run [OF check(2) counts(2) sound(2)] by blast
  note same = sorted_as_facts [OF g1(2)] sorted_as_facts [OF g2(2)]
  note sorted = sorted_operands [OF ok g1(2) g2(2)]
  obtain m1 m2 g where run: "sm_new g1 MatchOutput = Inr m1" "sm_new g2 MatchInput = Inr m2"
      "compose_with ops hash sequence_ops sorted_ops sorted_ops g1 g2 ofst (sf_new g1) m1 m2 = Some (g, Inr ())"
      and P: "product_or_nothing g1 g2 (sf_decide g1 g2) STATE_DEFAULT g"
    using filters_run(1) [OF sorted, of hash ofst] by (auto simp: composes_by_def)
  note shape = product_shape [OF sorted(1) P]
  have n: "vf_num_states g \<le> 2 ^ 32" using shape(3) size same by simp
  have cl: "vf_closed g" unfolding closed_iff using shape(1,2) n by (auto simp: usize_max_def)
  have "is_member (vf_final_weight g s)" if s: "s < vf_num_states g" "vf_final_weight g s \<noteq> 0" for s
    using shape(4) [OF s] check member same proper_final [of is_member] unfolding checkable_def by metis
  then have fin: "proper_finals is_member g"
    by (auto simp: proper_finals_def vf_final_weight_def vf_num_states_def vget_def in_set_conv_nth)
  have len: "length (vf_states g) \<le> 2 ^ 32" using n by (simp add: vf_num_states_def)
  obtain ds k where k: "cut_down (useful g) g k"
      "connect is_member g = Some (set_properties k (K_ACCESSIBLE OR K_CO_ACCESSIBLE) (K_ACCESSIBLE OR K_CO_ACCESSIBLE))"
    using connect_run [OF cl len fin] by blast
  let ?h = "set_properties k (K_ACCESSIBLE OR K_CO_ACCESSIBLE) (K_ACCESSIBLE OR K_CO_ACCESSIBLE)"
  have "is_accessible (vf_states ?h) (vf_start ?h)" "is_coaccessible (vf_states ?h)"
    using cut_trim [OF k(1) cl refl] by (simp_all add: set_properties_def modify_properties_def)
  moreover have "transduces ?h x w z \<longleftrightarrow> transduces g x w z" for x w z
    using cut_successful [OF k(1) cl refl] by (intro transduces_trimmed) (simp add: set_properties_successful)
  moreover have "\<forall>x w z. transduces g x w z \<longleftrightarrow> (\<exists>y w1 w2. transduces f1 x w1 y \<and> transduces f2 y w2 z \<and> w = w1 * w2)"
    using sequencing_relations(1) [OF nz operands_parts(1) [OF sorted(1)] P] by (simp add: transduces_def same)
  moreover have "compose_options ops hash is_member f1 f2 ofst False = Some (g, Inr ())"
    using g1(1) g2(1) run by (simp add: compose_options_def)
  moreover have "compose ops hash is_member f1 f2 ofst = Some (?h, Inr ())"
    using g1(1) g2(1) run k(2) by (simp add: compose_def compose_options_def)
  ultimately show ?thesis by blast
qed

section \<open>Properties\<close>

text \<open>C6. \<open>compose_with\<close> returns, over two sorting matchers as over two hashing ones, and what it writes with the sequence
  filter is the reachable part of the product, whatever was in the output before: a state for every triple of a state
  of each FST and a filter state that is reached from the two start states, numbered without repetition from the start;
  the arcs of a state stand one by one for the pairs of arcs that are offered there and accepted, with the labels of
  the two sides, the product of the weights and the triple they lead to; a state is final exactly when both of its
  states are and the product of their weights is not zero.  Without a start state on either side the output is empty.  All arcs of the
  two FSTs lead to states of them and their epsilon counters are exact, no label on the side they meet on is reserved,
  and the hash table has its documented laws; only the sorting matchers need the arcs sorted.\<close>

theorem composition_is_the_product:
  fixes f1 f2 ofst :: "('w::{zero,monoid_mult}, 'sym) vector_fst"
  assumes "operands f1 f2 ops held"
  shows "(sorted_by MatchOutput f1 \<and> sorted_by MatchInput f2 \<longrightarrow>
      (\<exists>g. composes_by ops hash sequence_ops sorted_ops sm_new f1 f2 ofst (sf_new f1) g \<and>
        product_or_nothing f1 f2 (sf_decide f1 f2) STATE_DEFAULT g)) \<and>
    (\<exists>g. composes_by ops hash sequence_ops hash_ops hm_new f1 f2 ofst (sf_new f1) g \<and>
      product_or_nothing f1 f2 (sf_decide f1 f2) STATE_DEFAULT g)"
  using filters_run(1,4) [OF assms, of hash ofst] by blast

text \<open>C13. Whichever of the three sequencing filters decides how epsilons are interleaved, composition computes the same
  relation, and it is the composition of the relations of the two FSTs: a pair of strings is related with a weight
  exactly when a string between them is written by a successful path of the first and read by one of the second, and
  the weight is the product of the weights of the two.  The FSTs are as for the product, with sorted arcs; multiplication is
  commutative and has no divisors of zero.\<close>

theorem filters_compose_alike:
  fixes f1 f2 ofst :: "('w::{zero,comm_monoid_mult}, 'sym) vector_fst"
  assumes "operands f1 f2 ops held" "sorted_by MatchOutput f1" "sorted_by MatchInput f2" "\<forall>a b :: 'w. a * b = 0 \<longrightarrow> a = 0 \<or> b = 0"
  shows "\<exists>g h k. composes_by ops hash sequence_ops sorted_ops sm_new f1 f2 ofst (sf_new f1) g \<and>
    composes_by ops hash alt_sequence_ops sorted_ops sm_new f1 f2 ofst (af_new f2) h \<and>
    composes_by ops hash match_ops sorted_ops sm_new f1 f2 ofst (mf_new f1 f2) k \<and>
    (\<forall>x w z. (transduces g x w z \<longleftrightarrow> (\<exists>y w1 w2. transduces f1 x w1 y \<and> transduces f2 y w2 z \<and> w = w1 * w2)) \<and>
      (transduces h x w z \<longleftrightarrow> transduces g x w z) \<and> (transduces k x w z \<longleftrightarrow> transduces g x w z))"
proof -
  let ?R = "\<lambda>g. \<forall>x w z. transduces g x w z \<longleftrightarrow> (\<exists>y w1 w2. transduces f1 x w1 y \<and> transduces f2 y w2 z \<and> w = w1 * w2)"
  note c = operands_parts(1) [OF assms(1)]
  obtain g where g: "composes_by ops hash sequence_ops sorted_ops sm_new f1 f2 ofst (sf_new f1) g"
      "product_or_nothing f1 f2 (sf_decide f1 f2) STATE_DEFAULT g" using filters_run(1) [OF assms(1-3)] by blast
  have Rg: "?R g" by (rule sequencing_relations(1) [OF assms(4) c g(2)])
  obtain h where h: "composes_by ops hash alt_sequence_ops sorted_ops sm_new f1 f2 ofst (af_new f2) h"
      "product_or_nothing f1 f2 (af_decide f1 f2) STATE_DEFAULT h" using filters_run(2) [OF assms(1-3)] by blast
  have Rh: "?R h" by (rule sequencing_relations(2) [OF assms(4) c h(2)])
  obtain k where k: "composes_by ops hash match_ops sorted_ops sm_new f1 f2 ofst (mf_new f1 f2) k"
      "product_or_nothing f1 f2 (mf_decide f1 f2) STATE_DEFAULT k" using filters_run(3) [OF assms(1-3)] by blast
  have Rk: "?R k" by (rule sequencing_relations(3) [OF assms(4) c k(2)])
  show ?thesis by (intro exI [of _ g] exI [of _ h] exI [of _ k]) (simp only: g(1) h(1) k(1) Rg Rh Rk simp_thms)
qed

text \<open>C3. \<open>compose\<close> computes the composition of two FSTs, whatever order their arcs are in: it copies and sorts them, it
  returns, and the relation of the result, trimmed or not, is the composition of their relations; trimmed, every state
  left is accessible and coaccessible.  The FSTs have exact counters, true property bits, a start state or no states,
  no reserved label on the side they meet on, and few enough states that the triples of the product fit 32 bits;
  weights multiply commutatively without divisors of zero, and the product of members is a member.\<close>

theorem compose_computes_composition:
  fixes f1 f2 ofst :: "('w::{zero,comm_monoid_mult}, 'sym) vector_fst"
  assumes "operands f1 f2 ops held" "checkable is_member f1" "checkable is_member f2" "vf_sound f1" "vf_sound f2"
    "vf_num_states f1 * vf_num_states f2 * 256 \<le> 2 ^ 32" "\<forall>a b. is_member a \<longrightarrow> is_member b \<longrightarrow> is_member (a * b)"
    "\<forall>a b :: 'w. a * b = 0 \<longrightarrow> a = 0 \<or> b = 0"
  shows "\<exists>g h. compose_options ops hash is_member f1 f2 ofst False = Some (g, Inr ()) \<and>
    compose ops hash is_member f1 f2 ofst = Some (h, Inr ()) \<and>
    is_accessible (vf_states h) (vf_start h) \<and> is_coaccessible (vf_states h) \<and>
    (\<forall>x w z. transduces g x w z \<longleftrightarrow> (\<exists>y w1 w2. transduces f1 x w1 y \<and> transduces f2 y w2 z \<and> w = w1 * w2)) \<and>
    (\<forall>x w z. transduces h x w z \<longleftrightarrow> transduces g x w z)"
  using compose_run [OF assms] .

text \<open>An instance: the FST that loops on itself, reading and writing a label, composed with itself.\<close>

lemma final_loop_operands:
  "operands final_loop final_loop list_table set" "checkable (\<lambda>_. True) final_loop" "vf_sound final_loop"
  "sorted_by MatchOutput final_loop" "sorted_by MatchInput final_loop" "vf_num_states final_loop = 1"
proof -
  have inv: "vf_counts final_loop" "vf_sound final_loop" using built_inv [OF final_loop_built] by (simp_all add: vf_inv_def)
  have arcs: "vf_arcs final_loop s = (if s = 0 then [arc_new 1 1 1 0] else [])" for s
    by (simp add: vf_arcs_def vget_def final_loop_fst)
  have closed: "vf_closed final_loop" by (simp add: vf_closed_def final_loop_fst usize_max_def)
  show "operands final_loop final_loop list_table set"
    using inv closed list_table_ok by (simp add: operands_def composable_def arcs final_loop_fst no_label_def usize_max_def)
  show "checkable (\<lambda>_. True) final_loop" using closed by (simp add: checkable_def proper_finals_def final_loop_fst)
  show "vf_sound final_loop" by fact
  show "sorted_by MatchOutput final_loop" "sorted_by MatchInput final_loop" by (simp_all add: sorted_by_def arcs)
  show "vf_num_states final_loop = 1" by (simp add: vf_num_states_def final_loop_fst)
qed

lemma final_loop_relation: "transduces final_loop [1] 1 [1]"
proof -
  have "([arc_new 1 1 1 0], 1) \<in> successful final_loop"
    unfolding successful_def
    by (rule CollectI, rule exI [of _ "[arc_new 1 1 1 0]"], rule exI [of _ 0], rule exI [of _ 0])
      (simp add: vf_arcs_def vf_final_weight_def vget_def final_loop_fst)
  then show ?thesis unfolding transduces_def by (rule bexI [rotated]) (simp add: epsilon_def)
qed

theorem composition_is_the_product_witness:
  "\<exists>g ts. composes_by list_table (\<lambda>_. 0) sequence_ops sorted_ops sm_new final_loop final_loop vf_new (sf_new final_loop) g \<and>
    is_product final_loop final_loop (sf_decide final_loop final_loop) (tp_new 0 0 STATE_DEFAULT) ts g"
  using conjunct1 [OF composition_is_the_product [OF final_loop_operands(1), of "\<lambda>_. 0" vf_new]] final_loop_operands(4,5)
  by (simp add: product_or_nothing_def final_loop_fst)

theorem filters_compose_alike_witness:
  "\<exists>k. composes_by list_table (\<lambda>_. 0) match_ops sorted_ops sm_new final_loop final_loop vf_new (mf_new final_loop final_loop) k \<and>
    transduces k [1] 1 [1]"
proof -
  have "\<forall>a b :: nat. a * b = 0 \<longrightarrow> a = 0 \<or> b = 0" by simp
  moreover have "(1 :: nat) = 1 * 1" by simp
  ultimately show ?thesis
    using filters_compose_alike [OF final_loop_operands(1,4,5), of "\<lambda>_. 0" vf_new] final_loop_relation by blast
qed

theorem compose_computes_composition_witness:
  "\<exists>h. compose list_table (\<lambda>_. 0) (\<lambda>_. True) final_loop final_loop vf_new = Some (h, Inr ()) \<and> transduces h [1] 1 [1]"
proof -
  have "vf_num_states final_loop * vf_num_states final_loop * 256 \<le> 2 ^ 32" using final_loop_operands(6) by simp
  moreover have "\<forall>a b :: nat. True \<longrightarrow> True \<longrightarrow> True" "\<forall>a b :: nat. a * b = 0 \<longrightarrow> a = 0 \<or> b = 0" by simp_all
  moreover have "(1 :: nat) = 1 * 1" by simp
  ultimately show ?thesis
    using compose_computes_composition [OF final_loop_operands(1,2,2,3,3), of "\<lambda>_. 0" vf_new] final_loop_relation by blast
qed

end
