(* ===== verification/Spec2Isabelle.thy ===== *)
theory Spec2Isabelle
  imports UnionFind VectorFstOps ArcMap FilterUnique PropertyScan SccQueue PruneQueue TopOrder TestProperties CcVisitor Condense StateTable EpsilonMatchers ArcSort ComposeAll
begin

text \<open>
  A verification development for Sicada, a library of weighted finite-state transducers (FSTs) in Rust.  The crate
  \<open>sicada\<close> has a mutable FST (\<open>fsts/vector_fst.rs\<close>) whose 64 property bits are kept true by functions of their own
  (\<open>properties.rs\<close>), the data structures under the algorithms (\<open>data_structures/\<close>, \<open>queue.rs\<close>), matchers that find the arcs
  of a state by label (\<open>matcher.rs\<close>), and the algorithms (\<open>algorithms/\<close>).  Paths below are under \<open>src/sicada/src/\<close>.

  \<^bold>\<open>How the code is modelled.\<close>  A struct is a record, an enum a datatype, an index or state id a natural number, the
  property word and the words of a bit set are machine words, labels are integers.  A call that may panic returns an
  option, \<open>None\<close> being the panic; a call that returns a \<open>Result\<close> returns a sum, \<open>Inl\<close> being the error; a trait is a record
  of its operations and the implementations are values of it.  A loop is a fold, a recursion with a measure, or a
  \<open>partial_function (option)\<close>, for which not returning is \<open>None\<close> as well; that it returns is then part of a theorem.
  Weights are a type with zero and one, and a monoid where the code multiplies; \<open>Weight::member\<close>, the hash function and
  the raw hash table of the \<open>hashbrown\<close> crate are parameters, the last with the documented laws of a hash table.

  \<^bold>\<open>The theories\<close>, a component each, with what their lemmas show.
  \<^item> \<open>Prelude\<close>: vectors with bounds checks, folds that may panic, shared facts.
  \<^item> \<open>UnionFind\<close> (\<open>data_structures/union_find.rs\<close>): the forest, path compression, union by rank; the operations refine a
    partition of the elements (locale \<open>disjoint_sets\<close>), the climbing loop returns and its length is bounded.
  \<^item> \<open>PropertyBits\<close>, \<open>Arc\<close>, \<open>Properties\<close> (\<open>properties.rs\<close>, \<open>arc.rs\<close>): the constants, the property cache and the functions
    that say what an operation leaves of the bits.
  \<^item> \<open>VectorFst\<close>, \<open>DeleteStates\<close>, \<open>PropertySound\<close>, \<open>VectorFstOps\<close>, \<open>FstCalls\<close> (\<open>fsts/vector_fst.rs\<close>, \<open>fst.rs\<close>): the FST and every
    call of \<open>MutableFst\<close>; what the bits claim (\<open>vf_sound\<close>), the epsilon counters (\<open>vf_counts\<close>), and that every FST built by
    the calls of the interface, in-place rewriting of arcs excepted, has both; rewriting (\<open>mutate_arcs\<close>) keeps the bits
    true and leaves the counters stale; that the in-place deletion of states computes the FST induced by the survivors;
    what each call changes for a reader.
  \<^item> \<open>Paths\<close>: paths, the strings they read and write.
  \<^item> \<open>ArcMap\<close> (\<open>algorithms/arc_map.rs\<close>, \<open>invert.rs\<close>, \<open>project.rs\<close>), \<open>ArcSort\<close> (\<open>algorithms/arcsort.rs\<close>): mapping, inverting,
    projecting and sorting arcs, and that the bits they write are true.
  \<^item> \<open>PropertyScan\<close>, \<open>TestProperties\<close> (\<open>algorithms/test_properties.rs\<close>): computing the bits by a scan and by a search, testing
    them against the cache, asking with the cache.
  \<^item> \<open>DfsVisit\<close>, \<open>TopOrder\<close>, \<open>SccInvariant\<close>, \<open>SccVisitor\<close>, \<open>SccExact\<close>, \<open>CcVisitor\<close> (\<open>algorithms/dfs_visit.rs\<close>, \<open>cc_visitors.rs\<close>,
    \<open>topsort.rs\<close>): the depth-first search over an interface of visitors (locale \<open>dfs_visitor\<close>), that it returns over a finite
    FST, and that its visitors find a topological order, and the strongly connected components with accessibility and
    coaccessibility.  The visitor for connected components is modelled as it is written; what is shown of it is an
    instance in which it puts two states joined by an arc into different components (\<open>forked_run\<close>).
  \<^item> \<open>Connect\<close>, \<open>Condense\<close> (\<open>algorithms/connect.rs\<close>): trimming keeps exactly the useful states and every successful path;
    condensing gives an acyclic FST with a state per component.
  \<^item> \<open>IndexedHeap\<close>, \<open>BitSet\<close> (\<open>data_structures/indexed_heap.rs\<close>, \<open>bit_set.rs\<close>): the heap with its holes and position table
    refines a finite map (locale \<open>keyed_queue\<close>); the packed words are a set.
  \<^item> \<open>Queues\<close>, \<open>OrderQueues\<close>, \<open>SccQueue\<close>, \<open>PruneQueue\<close> (\<open>queue.rs\<close>): every discipline against one interface (locale
    \<open>discipline\<close>), the order each serves, the component queue and how its disciplines are chosen, the refusing queues.
  \<^item> \<open>ComposeFilter\<close>, \<open>FilterUnique\<close> (\<open>algorithms/compose_filter.rs\<close>, \<open>filter_state.rs\<close>): the filters of composition, and that
    each sequencing filter accepts exactly one interleaving of the epsilons of two matching paths (locale
    \<open>epsilon_filter\<close>).
  \<^item> \<open>BiTable\<close>, \<open>StateTable\<close> (\<open>data_structures/bi_table.rs\<close>, \<open>state_table.rs\<close>): entries and their numbers (locales \<open>bi_table\<close>,
    \<open>compose_table\<close>), and when the fingerprint of the product table is exact.
  \<^item> \<open>Matcher\<close>, \<open>WrappedMatchers\<close>, \<open>EpsilonMatchers\<close> (\<open>matcher.rs\<close>): the trait as the locale \<open>answering\<close>, the sorted and the
    hashing matcher as its models, and the explicit, rho, sigma, multi-epsilon and phi matchers as extensions that are
    proved over any matcher underneath and interpreted over those two.
  \<^item> \<open>Compose\<close>, \<open>ComposeLoop\<close>, \<open>ComposeProduct\<close>, \<open>ComposeRelation\<close>, \<open>ComposeRun\<close>, \<open>ComposeAll\<close> (\<open>algorithms/compose.rs\<close>):
    \<open>compose_with\<close> over an interface of filters and of matchers, with the table of triples under it, proved once in the
    locale \<open>composition\<close> and interpreted over the sequencing filters with both matchers: the loop returns, and what it
    writes is the part of the product that is reached (\<open>is_product\<close>).  \<open>ComposeRelation\<close> shows that a product under a
    filter with one interleaving composes the relations of the two FSTs; \<open>ComposeAll\<close> puts the copying, sorting and
    trimming of \<open>compose\<close> around it.

  \<^bold>\<open>Bounds.\<close>  Lengths of vectors are not bounded except where the code's arithmetic needs it: keys and positions of the
  heap stay below \<open>2^31 - 1\<close>, the numbers the component search gives to states below \<open>2^32\<close>, the ranks of the forest
  below 256, fingerprints are 64-bit words and wrap, and for \<open>compose\<close> the numbers of
  states of the two FSTs and the 256 filter states multiply to at most \<open>2^32\<close>, so that every triple fits its table.  No definition takes fuel: each loop is structural, has a measure,
  or is shown to return where that is claimed; the searches return because an FST has finitely many states, all of
  whose arcs lead to states of it.

  \<^bold>\<open>Not modelled.\<close>  Reading and writing files and memory mapping (\<open>utils/\<close>, \<open>fst_header.rs\<close>), the delayed and immutable FSTs
  and their caches (\<open>fsts/\<close> but for \<open>vector_fst.rs\<close>, \<open>cache.rs\<close>, \<open>expander_cache.rs\<close>), the floating-point semirings
  (\<open>weights/\<close>) and with them every algorithm whose loop ends by comparing such weights (shortest distance and what is
  built on it), determinization and minimization, replacement, look-ahead and with it look-ahead composition, intersection and difference (which call composition),
  symbol tables and strings, random generation,
  and the decoder crate.  Sharing of property words between threads is not modelled: the cache is a value of the FST that
  a query returns changed.
\<close>

end
